(* ===== verification/Aruu_Base.thy ===== *)
theory Aruu_Base
  imports Main "HOL-Library.Word" "HOL-Library.Sublist"
begin

text \<open>
  The prelude of the development: names for the machine integers of the C sources, the
  representation of C strings and memory regions as byte lists, and the generic facts on
  bit operations, on lists cut into blocks and on byte serialisation that the component
  theories share.

  A pointer into a byte array is the list of the bytes from the pointer to the end of the
  array. A NUL-terminated string is given by its contents, a byte list with no zero byte; the
  memory it occupies is that list followed by a zero byte. An operation that may read
  outside the array it was given returns an \<open>option\<close>: \<open>None\<close> is the access the C
  standard leaves undefined.
\<close>

unbundle bit_operations_syntax

named_theorems bits_arith
  \<open>masks, shifts and disjoint ORs of integers as division, remainder and sum\<close>

named_theorems block_simps
  \<open>lists cut into blocks of a fixed size\<close>

type_synonym byte = "8 word"
type_synonym u16 = "16 word"
type_synonym u32 = "32 word"
type_synonym u64 = "64 word"

section \<open>C strings\<close>

text \<open>The contents of a C string hold no terminator; in memory they are followed by one.\<close>

definition nonul :: "byte list \<Rightarrow> bool" where
  "nonul s \<longleftrightarrow> 0 \<notin> set s"

abbreviation cmem :: "byte list \<Rightarrow> byte list" where
  "cmem s \<equiv> s @ [0]"

lemma nonul_simps [simp]:
  "nonul []"
  "nonul (b # s) \<longleftrightarrow> b \<noteq> 0 \<and> nonul s"
  "nonul (s @ t) \<longleftrightarrow> nonul s \<and> nonul t"
  by (auto simp: nonul_def)

lemma nonul_drop [simp]: "nonul s \<Longrightarrow> nonul (drop n s)"
  by (auto simp: nonul_def dest: in_set_dropD)

lemma nonul_take [simp]: "nonul s \<Longrightarrow> nonul (take n s)"
  by (auto simp: nonul_def dest: in_set_takeD)

text \<open>The bytes of a string literal of the source.\<close>

definition bytes :: "string \<Rightarrow> byte list" where
  "bytes s = map of_char s"

lemma unat_byte_less: "unat (b :: byte) < 256"
proof -
  have "unat b < 2 ^ LENGTH(8)" by (rule unsigned_less)
  then show ?thesis by simp
qed

text \<open>\<open>getline\<close>: the pieces of the input that end behind a newline, and a last one without.\<close>

fun split_lines :: "byte list \<Rightarrow> byte list list" where
  "split_lines [] = []"
| "split_lines (c # s) =
     (if c = 0x0a then [c] # split_lines s
      else case split_lines s of [] \<Rightarrow> [[c]] | l # ls \<Rightarrow> (c # l) # ls)"

text \<open>The C string that starts at the beginning of a memory region.\<close>

definition cstr :: "byte list \<Rightarrow> byte list" where
  "cstr = takeWhile (\<lambda>c. c \<noteq> 0)"

lemma split_lines_line: "0x0a \<notin> set s \<Longrightarrow> split_lines (s @ 0x0a # t) = (s @ [0x0a]) # split_lines t"
  by (induction s) auto

lemma cstr_nonul: "nonul s \<Longrightarrow> cstr s = s"
  unfolding cstr_def nonul_def by (induction s) auto

text \<open>\<open>memcpy\<close> or \<open>memset\<close> into the buffer at an offset.\<close>

definition buf_write :: "byte list \<Rightarrow> nat \<Rightarrow> byte list \<Rightarrow> byte list" where
  "buf_write buf off bs = take off buf @ bs @ drop (off + length bs) buf"

lemma length_buf_write [simp]:
  "off + length bs \<le> length buf \<Longrightarrow> length (buf_write buf off bs) = length buf"
  by (simp add: buf_write_def)

lemma drop_buf_write:
  assumes "off + length bs \<le> n" "off \<le> length buf"
  shows "drop n (buf_write buf off bs) = drop n buf"
proof -
  define p where "p = take off buf @ bs"
  have "length p = off + length bs" using assms by (simp add: p_def)
  moreover have "buf_write buf off bs = p @ drop (off + length bs) buf"
    by (simp add: p_def buf_write_def)
  ultimately show ?thesis using assms by simp
qed

lemma take_buf_write [simp]:
  "off + length bs \<le> length buf \<Longrightarrow> take (off + length bs) (buf_write buf off bs) = take off buf @ bs"
  by (simp add: buf_write_def min_absorb2)

section \<open>Bit operations as arithmetic\<close>

lemma and_mask_mod: "(x::int) AND mask n = x mod 2 ^ n"
  by (simp add: take_bit_eq_mask [symmetric] take_bit_eq_mod)

lemma drop_bit_and_push_mask:
  "drop_bit k ((x::int) AND push_bit k (mask n)) = (x div 2 ^ k) mod 2 ^ n"
proof -
  have "drop_bit k (x AND push_bit k (mask n)) = take_bit n (drop_bit k x)"
    by (rule bit_eqI) (auto simp: bit_simps)
  then show ?thesis by (simp add: take_bit_eq_mod drop_bit_eq_div)
qed

text \<open>An OR of a multiple of a power of two with a smaller number is their sum.\<close>

lemma or_low_eq_add:
  fixes a c :: int
  assumes "0 \<le> c" and "c < 2 ^ n" and "2 ^ n dvd a"
  shows "a OR c = a + c"
proof -
  have c: "take_bit n c = c"
    using assms by (simp add: take_bit_int_eq_self_iff)
  obtain k where a: "a = push_bit n k"
    using assms(3) by (auto simp: push_bit_eq_mult mult.commute dvd_def)
  have "a AND c = 0"
    by (subst c [symmetric], rule bit_eqI) (auto simp: a bit_simps)
  then show ?thesis by (simp add: disjunctive_add_eq_or)
qed

lemma push_or_eq_add:
  fixes r c :: int
  assumes "0 \<le> c" and "c < 2 ^ n"
  shows "push_bit n r OR c = r * 2 ^ n + c"
  using or_low_eq_add [OF assms, of "push_bit n r"] by (simp add: push_bit_eq_mult)

section \<open>Searches of the C library\<close>

text \<open>The C library's \<open>strchr\<close>, \<open>strrchr\<close> and \<open>strstr\<close> on the contents of a string.\<close>

fun find_byte :: "byte \<Rightarrow> byte list \<Rightarrow> nat option" where
  "find_byte c [] = None"
| "find_byte c (b # s) = (if b = c then Some 0 else map_option Suc (find_byte c s))"

definition strchr :: "byte list \<Rightarrow> int \<Rightarrow> nat option" where
  "strchr s c = find_byte (word_of_int c) (cmem s)"

definition strrchr :: "byte list \<Rightarrow> int \<Rightarrow> nat option" where
  "strrchr s c = map_option (\<lambda>k. length s - k) (find_byte (word_of_int c) (rev (cmem s)))"

fun strstr :: "byte list \<Rightarrow> byte list \<Rightarrow> nat option" where
  "strstr [] t = (if t = [] then Some 0 else None)"
| "strstr (b # s) t = (if prefix t (b # s) then Some 0 else map_option Suc (strstr s t))"

lemma find_byte_append:
  "find_byte c (s @ t) =
     (case find_byte c s of Some k \<Rightarrow> Some k | None \<Rightarrow> map_option ((+) (length s)) (find_byte c t))"
  by (induction s) (cases "find_byte c t"; auto split: option.splits)+

lemma strstr_single: "strstr s [c] = find_byte c s"
  by (induction s) auto

lemma strstr_skip:
  "(\<And>e. e < m \<Longrightarrow> \<not> prefix t (drop e s)) \<Longrightarrow> m \<le> length s \<Longrightarrow>
     strstr s t = map_option ((+) m) (strstr (drop m s) t)"
proof (induction m arbitrary: s)
  case 0
  then show ?case by (simp add: option.map_ident)
next
  case (Suc m)
  then obtain b s' where s: "s = b # s'" by (cases s) auto
  have "\<not> prefix t (drop e s')" if "e < m" for e
    using Suc.prems(1) [of "Suc e"] that s by simp
  then have "strstr s' t = map_option ((+) m) (strstr (drop m s') t)"
    using Suc.prems(2) s by (intro Suc.IH) auto
  moreover have "\<not> prefix t (b # s')" using Suc.prems(1) [of 0] s by simp
  ultimately show ?case by (simp add: s option.map_comp comp_def)
qed

lemma strstr_here: "prefix t s \<Longrightarrow> strstr s t = Some 0"
  by (cases s) auto

lemma strstr_None_iff: "strstr s t = None \<longleftrightarrow> (\<forall>e \<le> length s. \<not> prefix t (drop e s))"
proof (induction s)
  case Nil
  then show ?case by auto
next
  case (Cons b s)
  have "(\<forall>e \<le> length (b # s). \<not> prefix t (drop e (b # s))) \<longleftrightarrow>
      \<not> prefix t (b # s) \<and> (\<forall>e \<le> length s. \<not> prefix t (drop e s))"
    by (auto simp: all_conj_distrib less_Suc_eq_le [symmetric] All_less_Suc2 simp del: prefix_Cons)
  with Cons show ?case by (simp del: prefix_Cons)
qed

lemma strstr_Some_iff:
  "strstr s t = Some d \<longleftrightarrow>
     d \<le> length s \<and> prefix t (drop d s) \<and> (\<forall>e < d. \<not> prefix t (drop e s))"
proof (induction s arbitrary: d)
  case Nil
  then show ?case by auto
next
  case (Cons b s)
  show ?case
  proof (cases d)
    case 0
    then show ?thesis by simp
  next
    case (Suc d')
    have "(\<forall>e < Suc d'. \<not> prefix t (drop e (b # s))) \<longleftrightarrow>
        \<not> prefix t (b # s) \<and> (\<forall>e < d'. \<not> prefix t (drop e s))"
      by (simp add: All_less_Suc2)
    with Cons Suc show ?thesis by (auto simp del: prefix_Cons)
  qed
qed

end
