(* ===== verification/Libutf_Rune.thy ===== *)
theory Libutf_Rune
  imports Aruu_Base
begin

text \<open>
  The rune codec of \<open>shared/libutf/rune.c\<close>: UTF-8 encoding (\<open>runetochar\<close>), decoding
  (\<open>charntorune\<close>, \<open>chartorune\<close>), rune lengths and \<open>fullrune\<close>.

  A \<open>Rune\<close> is a C \<open>int\<close>, modelled by \<open>int\<close> (no operation of the codec leaves the range of
  a 32-bit int, see \<open>charntorune_rune_range\<close>); a \<open>char\<close> is a \<open>byte\<close>. Every use the codec
  makes of a char masks it, so that the signedness of \<open>char\<close> does not matter. The decoder
  returns the number of bytes consumed and the rune stored through its pointer argument, if
  any; \<open>None\<close> is a read outside the array.
\<close>

section \<open>Definitions\<close>

type_synonym rune = int

definition UTFmax :: nat where "UTFmax = 6"
definition Runeself :: rune where "Runeself = 0x80"
definition Runeerror :: rune where "Runeerror = 0xFFFD"
definition Runemax :: rune where "Runemax = 0x10FFFF"

definition UTFSEQ :: "int \<Rightarrow> nat" where
  "UTFSEQ x =
     (if x AND 0x80 = 0x00 then 1
      else if x AND 0xC0 = 0x80 then 0
      else if x AND 0xE0 = 0xC0 then 2
      else if x AND 0xF0 = 0xE0 then 3
      else if x AND 0xF8 = 0xF0 then 4
      else if x AND 0xFC = 0xF8 then 5
      else if x AND 0xFE = 0xFC then 6
      else 0)"

definition BADRUNE :: "rune \<Rightarrow> bool" where
  "BADRUNE x \<longleftrightarrow> x < 0 \<or> x > Runemax \<or> x AND 0xFFFE = 0xFFFE \<or> (x \<ge> 0xD800 \<and> x \<le> 0xDFFF)
     \<or> (x \<ge> 0xFDD0 \<and> x \<le> 0xFDEF)"

definition runelen :: "rune \<Rightarrow> nat" where
  "runelen r =
     (if BADRUNE r then 0
      else if r \<le> 0x7F then 1
      else if r \<le> 0x07FF then 2
      else if r \<le> 0xFFFF then 3
      else 4)"

text \<open>The bytes \<open>runetochar\<close> stores at \<open>s\<close>; its return value is their number.\<close>

definition runetochar :: "rune \<Rightarrow> byte list" where
  "runetochar r =
     (case runelen r of
        0 \<Rightarrow> []
      | Suc 0 \<Rightarrow> [word_of_int r]
      | Suc (Suc 0) \<Rightarrow>
          [word_of_int (0xC0 OR drop_bit 6 (r AND 0x0007C0)),
           word_of_int (0x80 OR (r AND 0x00003F))]
      | Suc (Suc (Suc 0)) \<Rightarrow>
          [word_of_int (0xE0 OR drop_bit 12 (r AND 0x00F000)),
           word_of_int (0x80 OR drop_bit 6 (r AND 0x000FC0)),
           word_of_int (0x80 OR (r AND 0x00003F))]
      | _ \<Rightarrow>
          [word_of_int (0xF0 OR drop_bit 18 (r AND 0x1C0000)),
           word_of_int (0x80 OR drop_bit 12 (r AND 0x03F000)),
           word_of_int (0x80 OR drop_bit 6 (r AND 0x000FC0)),
           word_of_int (0x80 OR (r AND 0x00003F))])"

text \<open>The bits of the leading byte that belong to the rune.\<close>

definition lead_bits :: "nat \<Rightarrow> int \<Rightarrow> rune" where
  "lead_bits n c =
     (if n = 1 then c
      else if n = 2 then c AND 0x1F
      else if n = 3 then c AND 0x0F
      else if n = 4 then c AND 0x07
      else if n = 5 then c AND 0x03
      else c AND 0x01)"

text \<open>
  The continuation loop, from index \<open>i\<close> up to the limit \<open>m\<close>, on the bytes from \<open>s[i]\<close>:
  the index reached, the rune so far, and whether the loop ran to its end.
\<close>

fun cont_loop :: "nat \<Rightarrow> nat \<Rightarrow> rune \<Rightarrow> byte list \<Rightarrow> (nat \<times> rune \<times> bool) option" where
  "cont_loop i m r bs =
     (if i < m then
        (case bs of
           [] \<Rightarrow> None
         | b # bs' \<Rightarrow>
             if uint b AND 0xC0 = 0x80
             then cont_loop (Suc i) m (push_bit 6 r OR (uint b AND 0x3F)) bs'
             else Some (i, r, False))
      else Some (i, r, True))"

declare cont_loop.simps [simp del]

definition charntorune :: "byte list \<Rightarrow> nat \<Rightarrow> (nat \<times> rune option) option" where
  "charntorune s len =
     (if len = 0 then Some (0, None)
      else case s of
        [] \<Rightarrow> None
      | c # bs \<Rightarrow>
          let n = UTFSEQ (uint c) in
          if n = 0 then Some (1, Some Runeerror)
          else case cont_loop 1 (min n len) (lead_bits n (uint c)) bs of
            None \<Rightarrow> None
          | Some (i, r, False) \<Rightarrow> Some (i, Some Runeerror)
          | Some (i, r, True) \<Rightarrow>
              if i < n then Some (0, None)
              else Some (n, Some (if BADRUNE r \<or> runelen r < n then Runeerror else r)))"

text \<open>\<open>chartorune\<close> reads a NUL-terminated string, here given by its contents.\<close>

definition chartorune :: "byte list \<Rightarrow> (nat \<times> rune option) option" where
  "chartorune s = charntorune (cmem s) UTFmax"

fun runenlen :: "rune list \<Rightarrow> nat \<Rightarrow> nat option" where
  "runenlen p 0 = Some 0"
| "runenlen [] (Suc len) = None"
| "runenlen (r # p) (Suc len) = map_option ((+) (runelen r)) (runenlen p len)"

definition fullrune :: "byte list \<Rightarrow> nat \<Rightarrow> bool option" where
  "fullrune s len = map_option (\<lambda>(n, _). n > 0) (charntorune s len)"

section \<open>The codec as arithmetic\<close>

lemma rune_masks [bits_arith]:
  fixes x :: int
  shows "x AND 0x3F = x mod 64" "x AND 0x1F = x mod 32" "x AND 0x0F = x mod 16"
    "x AND 0x07 = x mod 8" "x AND 0x03 = x mod 4" "x AND 0x01 = x mod 2"
    "drop_bit 6 (x AND 0x7C0) = x div 64 mod 32"
    "drop_bit 12 (x AND 0xF000) = x div 4096 mod 16"
    "drop_bit 6 (x AND 0xFC0) = x div 64 mod 64"
    "drop_bit 18 (x AND 0x1C0000) = x div 262144 mod 8"
    "drop_bit 12 (x AND 0x3F000) = x div 4096 mod 64"
proof -
  show "x AND 0x3F = x mod 64" using and_mask_mod [of x 6] by (simp add: mask_eq_exp_minus_1)
  show "x AND 0x1F = x mod 32" using and_mask_mod [of x 5] by (simp add: mask_eq_exp_minus_1)
  show "x AND 0x0F = x mod 16" using and_mask_mod [of x 4] by (simp add: mask_eq_exp_minus_1)
  show "x AND 0x07 = x mod 8" using and_mask_mod [of x 3] by (simp add: mask_eq_exp_minus_1)
  show "x AND 0x03 = x mod 4" using and_mask_mod [of x 2] by (simp add: mask_eq_exp_minus_1)
  show "x AND 0x01 = x mod 2" by (simp add: and_one_eq)
  show "drop_bit 6 (x AND 0x7C0) = x div 64 mod 32"
    using drop_bit_and_push_mask [of 6 x 5] by (simp add: mask_eq_exp_minus_1 push_bit_eq_mult)
  show "drop_bit 12 (x AND 0xF000) = x div 4096 mod 16"
    using drop_bit_and_push_mask [of 12 x 4] by (simp add: mask_eq_exp_minus_1 push_bit_eq_mult)
  show "drop_bit 6 (x AND 0xFC0) = x div 64 mod 64"
    using drop_bit_and_push_mask [of 6 x 6] by (simp add: mask_eq_exp_minus_1 push_bit_eq_mult)
  show "drop_bit 18 (x AND 0x1C0000) = x div 262144 mod 8"
    using drop_bit_and_push_mask [of 18 x 3] by (simp add: mask_eq_exp_minus_1 push_bit_eq_mult)
  show "drop_bit 12 (x AND 0x3F000) = x div 4096 mod 64"
    using drop_bit_and_push_mask [of 12 x 6] by (simp add: mask_eq_exp_minus_1 push_bit_eq_mult)
qed

lemma lead_or [bits_arith]:
  fixes c :: int
  shows "0 \<le> c \<Longrightarrow> c < 64 \<Longrightarrow> 0x80 OR c = 128 + c"
    "0 \<le> c \<Longrightarrow> c < 32 \<Longrightarrow> 0xC0 OR c = 192 + c"
    "0 \<le> c \<Longrightarrow> c < 16 \<Longrightarrow> 0xE0 OR c = 224 + c"
    "0 \<le> c \<Longrightarrow> c < 8 \<Longrightarrow> 0xF0 OR c = 240 + c"
  using or_low_eq_add [of c 6 128] or_low_eq_add [of c 5 192] or_low_eq_add [of c 4 224]
    or_low_eq_add [of c 3 240] by simp_all

lemma push6_or [bits_arith]: "0 \<le> c \<Longrightarrow> c < 64 \<Longrightarrow> push_bit 6 r OR c = r * 64 + (c::int)"
  using push_or_eq_add [of c 6 r] by simp

lemma UTFSEQ_byte:
  assumes "0 \<le> c" and "c < 256"
  shows "UTFSEQ c =
    (if c < 128 then 1 else if c < 192 then 0 else if c < 224 then 2 else if c < 240 then 3
     else if c < 248 then 4 else if c < 252 then 5 else if c < 254 then 6 else 0)"
proof -
  have "list_all (\<lambda>c. UTFSEQ c =
    (if c < 128 then 1 else if c < 192 then 0 else if c < 224 then 2 else if c < 240 then 3
     else if c < 248 then 4 else if c < 252 then 5 else if c < 254 then 6 else 0)) [0..255]"
    by code_simp
  with assms show ?thesis by (simp add: list_all_iff)
qed

lemma cont_byte:
  assumes "0 \<le> c" and "c < 256"
  shows "c AND 0xC0 = 0x80 \<longleftrightarrow> 128 \<le> c \<and> c < (192::int)"
proof -
  have "list_all (\<lambda>c. (c AND 0xC0 = 0x80) = (128 \<le> c \<and> c < (192::int))) [0..255]"
    by code_simp
  with assms show ?thesis by (simp add: list_all_iff)
qed

lemma uint_byte [simp]: "0 \<le> uint (b::byte)" "uint (b::byte) < 256"
  using uint_lt2p [of b] by simp_all

lemma UTFSEQ_uint:
  "UTFSEQ (uint (b::byte)) =
    (if uint b < 128 then 1 else if uint b < 192 then 0 else if uint b < 224 then 2
     else if uint b < 240 then 3 else if uint b < 248 then 4 else if uint b < 252 then 5
     else if uint b < 254 then 6 else 0)"
  by (rule UTFSEQ_byte) simp_all

lemma UTFSEQ_inv:
  fixes b :: byte
  shows "UTFSEQ (uint b) = 1 \<Longrightarrow> uint b < 128"
    and "UTFSEQ (uint b) = 2 \<Longrightarrow> 192 \<le> uint b \<and> uint b < 224"
    and "UTFSEQ (uint b) = 3 \<Longrightarrow> 224 \<le> uint b \<and> uint b < 240"
    and "UTFSEQ (uint b) = 4 \<Longrightarrow> 240 \<le> uint b \<and> uint b < 248"
  unfolding UTFSEQ_uint by (auto split: if_splits)

lemma uint_word_of_byte: "0 \<le> r \<Longrightarrow> r < 256 \<Longrightarrow> uint (word_of_int r :: byte) = r"
  by (simp add: uint_word_of_int)

text \<open>The continuation loop, one byte at a time.\<close>

lemma cont_loop_done [simp]: "m \<le> i \<Longrightarrow> cont_loop i m r bs = Some (i, r, True)"
  by (simp add: cont_loop.simps)

lemma cont_loop_Nil [simp]: "i < m \<Longrightarrow> cont_loop i m r [] = None"
  by (simp add: cont_loop.simps)

lemma cont_loop_Cons [simp]:
  "i < m \<Longrightarrow> cont_loop i m r (b # bs) =
     (if 128 \<le> uint b \<and> uint b < 192 then cont_loop (Suc i) m (r * 64 + uint b mod 64) bs
      else Some (i, r, False))"
  by (subst cont_loop.simps) (simp add: cont_byte bits_arith)

lemma runetochar_arith:
  assumes "\<not> BADRUNE r"
  shows "r \<le> 0x7F \<Longrightarrow> runetochar r = [word_of_int r]"
    and "0x7F < r \<Longrightarrow> r \<le> 0x7FF \<Longrightarrow>
      runetochar r = [word_of_int (192 + r div 64), word_of_int (128 + r mod 64)]"
    and "0x7FF < r \<Longrightarrow> r \<le> 0xFFFF \<Longrightarrow>
      runetochar r = [word_of_int (224 + r div 4096), word_of_int (128 + r div 64 mod 64),
        word_of_int (128 + r mod 64)]"
    and "0xFFFF < r \<Longrightarrow>
      runetochar r = [word_of_int (240 + r div 262144), word_of_int (128 + r div 4096 mod 64),
        word_of_int (128 + r div 64 mod 64), word_of_int (128 + r mod 64)]"
proof -
  have "r \<le> 0x10FFFF" using assms by (simp add: BADRUNE_def Runemax_def)
  note defs = assms runelen_def lead_or
  show "r \<le> 0x7F \<Longrightarrow> runetochar r = [word_of_int r]"
    unfolding runetochar_def by (simp add: defs)
  show "runetochar r = [word_of_int (192 + r div 64), word_of_int (128 + r mod 64)]"
    if "0x7F < r" "r \<le> 0x7FF"
  proof -
    have "r div 64 mod 32 = r div 64" using that by simp
    with that show ?thesis unfolding runetochar_def rune_masks by (simp add: defs numeral_2_eq_2)
  qed
  show "runetochar r = [word_of_int (224 + r div 4096), word_of_int (128 + r div 64 mod 64),
        word_of_int (128 + r mod 64)]" if "0x7FF < r" "r \<le> 0xFFFF"
  proof -
    have "r div 4096 mod 16 = r div 4096" using that by simp
    with that show ?thesis unfolding runetochar_def rune_masks by (simp add: defs numeral_3_eq_3)
  qed
  show "runetochar r = [word_of_int (240 + r div 262144), word_of_int (128 + r div 4096 mod 64),
        word_of_int (128 + r div 64 mod 64), word_of_int (128 + r mod 64)]" if "0xFFFF < r"
  proof -
    have "r div 262144 mod 8 = r div 262144" using that \<open>r \<le> 0x10FFFF\<close> by simp
    with that show ?thesis unfolding runetochar_def rune_masks by (simp add: defs eval_nat_numeral)
  qed
qed

lemma BADRUNE_range: "\<not> BADRUNE r \<Longrightarrow> 0 \<le> r \<and> r \<le> 0x10FFFF"
  by (simp add: BADRUNE_def Runemax_def)

lemma BADRUNE_ascii: "0 \<le> r \<Longrightarrow> r < 128 \<Longrightarrow> \<not> BADRUNE r"
proof -
  assume r: "0 \<le> r" "r < 128"
  then have "r AND 0xFFFE \<le> r" using AND_upper1 by blast
  then have "r AND 0xFFFE \<noteq> 0xFFFE" using r by linarith
  with r show ?thesis by (simp add: BADRUNE_def Runemax_def)
qed

lemma runelen_pos: "runelen r > 0 \<longleftrightarrow> \<not> BADRUNE r"
  by (simp add: runelen_def)

lemma runelen_cases:
  assumes "\<not> BADRUNE r"
  obtains "0 \<le> r" "r \<le> 0x7F" "runelen r = 1"
  | "0x7F < r" "r \<le> 0x7FF" "runelen r = 2"
  | "0x7FF < r" "r \<le> 0xFFFF" "runelen r = 3"
  | "0xFFFF < r" "r \<le> 0x10FFFF" "runelen r = 4"
proof -
  from BADRUNE_range [OF assms] consider "0 \<le> r" "r \<le> 0x7F" | "0x7F < r" "r \<le> 0x7FF"
    | "0x7FF < r" "r \<le> 0xFFFF" | "0xFFFF < r" "r \<le> 0x10FFFF" by linarith
  then show ?thesis by cases (simp_all add: that assms runelen_def)
qed

lemma length_runetochar [simp]: "length (runetochar r) = runelen r"
proof (cases "BADRUNE r")
  case True
  then show ?thesis by (simp add: runetochar_def runelen_def)
next
  case False
  then show ?thesis by (rule runelen_cases) (simp_all add: runetochar_arith [OF False])
qed

lemma decode_1:
  assumes "uint c < 128" and "0 < len"
  shows "charntorune (c # bs) len = Some (1, Some (if BADRUNE (uint c) then Runeerror else uint c))"
  using assms by (auto simp: charntorune_def Let_def UTFSEQ_uint lead_bits_def runelen_def)

lemma decode_2:
  assumes "192 \<le> uint c" "uint c < 224" "128 \<le> uint d" "uint d < 192" and "2 \<le> len"
    and r: "r = uint c mod 32 * 64 + uint d mod 64"
  shows "charntorune (c # d # bs) len =
    Some (2, Some (if BADRUNE r \<or> runelen r < 2 then Runeerror else r))"
  using assms(1-5)
  by (auto simp: r charntorune_def Let_def UTFSEQ_uint lead_bits_def bits_arith eval_nat_numeral)

lemma decode_3:
  assumes "224 \<le> uint c" "uint c < 240" "128 \<le> uint d" "uint d < 192" "128 \<le> uint e"
    "uint e < 192" and "3 \<le> len"
    and r: "r = (uint c mod 16 * 64 + uint d mod 64) * 64 + uint e mod 64"
  shows "charntorune (c # d # e # bs) len =
    Some (3, Some (if BADRUNE r \<or> runelen r < 3 then Runeerror else r))"
  using assms(1-7)
  by (auto simp: r charntorune_def Let_def UTFSEQ_uint lead_bits_def bits_arith eval_nat_numeral)

lemma decode_4:
  assumes "240 \<le> uint c" "uint c < 248" "128 \<le> uint d" "uint d < 192" "128 \<le> uint e"
    "uint e < 192" "128 \<le> uint f" "uint f < 192" and "4 \<le> len"
    and r: "r = ((uint c mod 8 * 64 + uint d mod 64) * 64 + uint e mod 64) * 64 + uint f mod 64"
  shows "charntorune (c # d # e # f # bs) len =
    Some (4, Some (if BADRUNE r \<or> runelen r < 4 then Runeerror else r))"
  using assms(1-9)
  by (auto simp: r charntorune_def Let_def UTFSEQ_uint lead_bits_def bits_arith eval_nat_numeral)

lemma tag_mod:
  fixes x :: int
  shows "(128 + x) mod 64 = x mod 64" "(192 + x) mod 32 = x mod 32" "(224 + x) mod 16 = x mod 16"
    "(240 + x) mod 8 = x mod 8"
proof -
  show "(128 + x) mod 64 = x mod 64" using mod_mult_self1 [of x 2 64] by (simp add: add.commute)
  show "(192 + x) mod 32 = x mod 32" using mod_mult_self1 [of x 6 32] by (simp add: add.commute)
  show "(224 + x) mod 16 = x mod 16" using mod_mult_self1 [of x 14 16] by (simp add: add.commute)
  show "(240 + x) mod 8 = x mod 8" using mod_mult_self1 [of x 30 8] by (simp add: add.commute)
qed

text \<open>The base-64 digits of a rune give the rune back.\<close>

lemma digits64:
  fixes r :: int
  shows "r div 64 * 64 + r mod 64 = r"
    and "(r div 4096 * 64 + r div 64 mod 64) * 64 + r mod 64 = r"
    and "((r div 262144 * 64 + r div 4096 mod 64) * 64 + r div 64 mod 64) * 64 + r mod 64 = r"
proof -
  have d: "r div 4096 = r div 64 div 64" "r div 262144 = r div 64 div 64 div 64"
    by (simp_all add: zdiv_zmult2_eq [symmetric])
  show "r div 64 * 64 + r mod 64 = r"
    and "(r div 4096 * 64 + r div 64 mod 64) * 64 + r mod 64 = r"
    and "((r div 262144 * 64 + r div 4096 mod 64) * 64 + r div 64 mod 64) * 64 + r mod 64 = r"
    unfolding d by simp_all
qed

lemma cont_digit:
  fixes x :: int
  defines "d \<equiv> word_of_int (128 + x mod 64) :: byte"
  shows "128 \<le> uint d" "uint d < 192" "uint d mod 64 = x mod 64"
proof -
  have "0 \<le> x mod 64" "x mod 64 < 64" by simp_all
  then have u: "uint d = 128 + x mod 64" unfolding d_def by (subst uint_word_of_byte) simp_all
  show "128 \<le> uint d" "uint d < 192" "uint d mod 64 = x mod 64"
    unfolding u tag_mod by simp_all
qed

lemma lead_digit:
  fixes x :: int
  assumes "0 \<le> x"
  shows "x < 32 \<Longrightarrow> 192 \<le> uint (word_of_int (192 + x) :: byte) \<and>
      uint (word_of_int (192 + x) :: byte) < 224 \<and> uint (word_of_int (192 + x) :: byte) mod 32 = x"
    and "x < 16 \<Longrightarrow> 224 \<le> uint (word_of_int (224 + x) :: byte) \<and>
      uint (word_of_int (224 + x) :: byte) < 240 \<and> uint (word_of_int (224 + x) :: byte) mod 16 = x"
    and "x < 8 \<Longrightarrow> 240 \<le> uint (word_of_int (240 + x) :: byte) \<and>
      uint (word_of_int (240 + x) :: byte) < 248 \<and> uint (word_of_int (240 + x) :: byte) mod 8 = x"
  using assms uint_word_of_byte [of "192 + x"] uint_word_of_byte [of "224 + x"]
    uint_word_of_byte [of "240 + x"]
  by (simp_all only: tag_mod) simp_all

lemma charntorune_runetochar:
  assumes ok: "runelen r > 0" and len: "runelen r \<le> len"
  shows "charntorune (runetochar r @ rest) len = Some (runelen r, Some r)"
proof -
  have nb: "\<not> BADRUNE r" using ok by (simp add: runelen_pos)
  show ?thesis
    using nb
  proof (rule runelen_cases)
    assume r: "0 \<le> r" "r \<le> 0x7F" and n: "runelen r = 1"
    then show ?thesis
      using decode_1 [of "word_of_int r" len rest] len nb
      by (simp add: runetochar_arith [OF nb] uint_word_of_byte)
  next
    assume r: "0x7F < r" "r \<le> 0x7FF" and n: "runelen r = 2"
    have "0 \<le> r div 64" "r div 64 < 32" using r by linarith+
    note l = lead_digit(1) [OF this]
    have "charntorune (runetochar r @ rest) len =
        Some (2, Some (if BADRUNE r \<or> runelen r < 2 then Runeerror else r))"
      unfolding runetochar_arith(2) [OF nb r] append.simps
      by (rule decode_2) (use len n l in \<open>simp_all only: cont_digit digits64\<close>)
    then show ?thesis by (simp add: nb n)
  next
    assume r: "0x7FF < r" "r \<le> 0xFFFF" and n: "runelen r = 3"
    have "0 \<le> r div 4096" "r div 4096 < 16" using r by linarith+
    note l = lead_digit(2) [OF this]
    have "charntorune (runetochar r @ rest) len =
        Some (3, Some (if BADRUNE r \<or> runelen r < 3 then Runeerror else r))"
      unfolding runetochar_arith(3) [OF nb r] append.simps
      by (rule decode_3) (use len n l in \<open>simp_all only: cont_digit digits64\<close>)
    then show ?thesis by (simp add: nb n)
  next
    assume r: "0xFFFF < r" "r \<le> 0x10FFFF" and n: "runelen r = 4"
    have "0 \<le> r div 262144" "r div 262144 < 8" using r by linarith+
    note l = lead_digit(3) [OF this]
    have "charntorune (runetochar r @ rest) len =
        Some (4, Some (if BADRUNE r \<or> runelen r < 4 then Runeerror else r))"
      unfolding runetochar_arith(4) [OF nb r(1)] append.simps
      by (rule decode_4) (use len n l in \<open>simp_all only: cont_digit digits64\<close>)
    then show ?thesis by (simp add: nb n)
  qed
qed

text \<open>Decoding accepts the shortest encoding only: the bytes read are those of the rune.\<close>

lemma cont_loop_True: "cont_loop i m r bs = Some (j, r', True) \<Longrightarrow> i \<le> m \<Longrightarrow> j = m"
proof (induction bs arbitrary: i r)
  case Nil
  then show ?case by (cases "i < m") simp_all
next
  case (Cons b bs)
  then show ?case by (cases "i < m") (auto split: if_splits)
qed

lemma charntorune_inv:
  assumes "charntorune s len = Some (n, Some r)" and "r \<noteq> Runeerror"
  obtains c bs where "s = c # bs" "n = UTFSEQ (uint c)" "1 \<le> n" "n \<le> len"
    "cont_loop 1 n (lead_bits n (uint c)) bs = Some (n, r, True)" "\<not> BADRUNE r" "n \<le> runelen r"
proof -
  from assms obtain c bs i where s: "s = c # bs" and n: "n = UTFSEQ (uint c)" "n \<noteq> 0"
    and len: "len \<noteq> 0"
    and l: "cont_loop 1 (min n len) (lead_bits n (uint c)) bs = Some (i, r, True)"
    and "\<not> i < n" and r: "\<not> BADRUNE r" "\<not> runelen r < n"
    by (auto simp: charntorune_def Let_def split: if_splits list.splits option.splits bool.splits)
  have "i = min n len" using cont_loop_True [OF l] n len by simp
  with \<open>\<not> i < n\<close> have "n \<le> len" "min n len = n" "i = n" by simp_all
  with s n l r show ?thesis by (intro that) simp_all
qed

text \<open>A completed loop over one, two or three continuation bytes.\<close>

lemma cont_loop_step_inv:
  assumes "cont_loop i m r bs = Some (j, r', True)" and "i < m"
  obtains b bs' where "bs = b # bs'" "128 \<le> uint b" "uint b < 192"
    "cont_loop (Suc i) m (r * 64 + uint b mod 64) bs' = Some (j, r', True)"
  using assms by (cases bs) (auto split: if_splits)

lemma cont_loop_2:
  assumes "cont_loop 1 n a bs = Some (n, r, True)" and "n = 2"
  obtains x bs' where "bs = x # bs'" "128 \<le> uint x" "uint x < 192" "r = a * 64 + uint x mod 64"
proof -
  from assms have "cont_loop 1 2 a bs = Some (2, r, True)" by simp
  then show ?thesis by (rule cont_loop_step_inv) (auto intro: that)
qed

lemma cont_loop_3:
  assumes "cont_loop 1 n a bs = Some (n, r, True)" and "n = 3"
  obtains x y bs' where "bs = x # y # bs'" "128 \<le> uint x" "uint x < 192" "128 \<le> uint y"
    "uint y < 192" "r = (a * 64 + uint x mod 64) * 64 + uint y mod 64"
proof -
  from assms have "cont_loop 1 3 a bs = Some (3, r, True)" by simp
  then obtain x bs1 where x: "bs = x # bs1" "128 \<le> uint x" "uint x < 192"
    and l: "cont_loop (Suc 1) 3 (a * 64 + uint x mod 64) bs1 = Some (3, r, True)"
    by (rule cont_loop_step_inv) simp_all
  from l show ?thesis by (rule cont_loop_step_inv) (use x in \<open>auto intro: that\<close>)
qed

lemma cont_loop_4:
  assumes "cont_loop 1 n a bs = Some (n, r, True)" and "n = 4"
  obtains x y z bs' where "bs = x # y # z # bs'" "128 \<le> uint x" "uint x < 192" "128 \<le> uint y"
    "uint y < 192" "128 \<le> uint z" "uint z < 192"
    "r = ((a * 64 + uint x mod 64) * 64 + uint y mod 64) * 64 + uint z mod 64"
proof -
  from assms have "cont_loop 1 4 a bs = Some (4, r, True)" by simp
  then obtain x bs1 where x: "bs = x # bs1" "128 \<le> uint x" "uint x < 192"
    and l1: "cont_loop (Suc 1) 4 (a * 64 + uint x mod 64) bs1 = Some (4, r, True)"
    by (rule cont_loop_step_inv) simp_all
  from l1 obtain y bs2 where y: "bs1 = y # bs2" "128 \<le> uint y" "uint y < 192"
    and l: "cont_loop (Suc (Suc 1)) 4 ((a * 64 + uint x mod 64) * 64 + uint y mod 64) bs2 =
      Some (4, r, True)"
    by (rule cont_loop_step_inv) simp_all
  from l show ?thesis by (rule cont_loop_step_inv) (use x y in \<open>auto intro: that\<close>)
qed

lemma cont_digit_inv:
  assumes "128 \<le> uint d" and "uint (d::byte) < 192"
  shows "word_of_int (128 + uint d mod 64) = d" "0 \<le> uint d mod 64" "uint d mod 64 < 64"
proof -
  have "uint d mod 64 = uint d - 128" using assms by presburger
  then show "word_of_int (128 + uint d mod 64) = d" by simp
qed simp_all

lemma lead_digit_inv:
  fixes c :: byte
  shows "192 \<le> uint c \<Longrightarrow> uint c < 224 \<Longrightarrow> word_of_int (192 + uint c mod 32) = c"
    and "224 \<le> uint c \<Longrightarrow> uint c < 240 \<Longrightarrow> word_of_int (224 + uint c mod 16) = c"
    and "240 \<le> uint c \<Longrightarrow> uint c < 248 \<Longrightarrow> word_of_int (240 + uint c mod 8) = c"
proof -
  have "uint c mod 32 = uint c - 192" if "192 \<le> uint c" "uint c < 224" using that by presburger
  then show "192 \<le> uint c \<Longrightarrow> uint c < 224 \<Longrightarrow> word_of_int (192 + uint c mod 32) = c" by simp
  have "uint c mod 16 = uint c - 224" if "224 \<le> uint c" "uint c < 240" using that by presburger
  then show "224 \<le> uint c \<Longrightarrow> uint c < 240 \<Longrightarrow> word_of_int (224 + uint c mod 16) = c" by simp
  have "uint c mod 8 = uint c - 240" if "240 \<le> uint c" "uint c < 248" using that by presburger
  then show "240 \<le> uint c \<Longrightarrow> uint c < 248 \<Longrightarrow> word_of_int (240 + uint c mod 8) = c" by simp
qed

lemma digit64:
  fixes a z :: int
  assumes "0 \<le> z" "z < 64"
  shows "(a * 64 + z) div 64 = a" "(a * 64 + z) mod 64 = z"
  using assms by simp_all

lemma three_digits:
  fixes a b c :: int
  assumes "a < 16" "b < 64" "c < 64"
  shows "(a * 64 + b) * 64 + c \<le> 0xFFFF"
proof -
  have "a * 64 + b \<le> 1023" using assms by simp
  then have "(a * 64 + b) * 64 \<le> 1023 * 64" by (rule mult_right_mono) simp
  with assms show ?thesis by simp
qed

lemma div64s: "(r::int) div 4096 = r div 64 div 64" "r div 262144 = r div 64 div 64 div 64"
  by (simp_all add: zdiv_zmult2_eq [symmetric])

text \<open>Decoded sequences of two, three and four bytes.\<close>

lemma decoded_2:
  assumes n: "UTFSEQ (uint c) = 2" and l: "cont_loop 1 2 (lead_bits 2 (uint c)) bs = Some (2, r, True)"
    and nb: "\<not> BADRUNE r" and ge: "2 \<le> runelen r"
  shows "runetochar r = take 2 (c # bs) \<and> runelen r = 2 \<and> 2 \<le> length (c # bs)"
proof -
  have c: "192 \<le> uint c" "uint c < 224" using UTFSEQ_inv(2) [of c] n by simp_all
  have a: "lead_bits 2 (uint c) = uint c mod 32" by (simp add: lead_bits_def bits_arith)
  from l [unfolded a] refl obtain x bs' where b: "bs = x # bs'" and x: "128 \<le> uint x" "uint x < 192"
    and r: "r = uint c mod 32 * 64 + uint x mod 64"
    by (rule cont_loop_2)
  have "uint c mod 32 < 32" "uint x mod 64 < 64" by simp_all
  then have up: "r \<le> 0x7FF" unfolding r by linarith
  have lo: "0x7F < r" using ge nb by (simp add: runelen_def split: if_splits)
  have q: "r div 64 = uint c mod 32" "r mod 64 = uint x mod 64"
    unfolding r by (rule digit64 [OF cont_digit_inv(2,3) [OF x]])+
  have "runetochar r = [c, x]"
    unfolding runetochar_arith(2) [OF nb lo up] q
    by (simp only: cont_digit_inv(1) [OF x] lead_digit_inv(1) [OF c])
  with b lo up nb show ?thesis by (simp add: runelen_def)
qed

lemma decoded_3:
  assumes n: "UTFSEQ (uint c) = 3" and l: "cont_loop 1 3 (lead_bits 3 (uint c)) bs = Some (3, r, True)"
    and nb: "\<not> BADRUNE r" and ge: "3 \<le> runelen r"
  shows "runetochar r = take 3 (c # bs) \<and> runelen r = 3 \<and> 3 \<le> length (c # bs)"
proof -
  have c: "224 \<le> uint c" "uint c < 240" using UTFSEQ_inv(3) [of c] n by simp_all
  have a: "lead_bits 3 (uint c) = uint c mod 16" by (simp add: lead_bits_def bits_arith)
  from l [unfolded a] refl obtain x y bs' where b: "bs = x # y # bs'" and x: "128 \<le> uint x" "uint x < 192"
    and y: "128 \<le> uint y" "uint y < 192"
    and r: "r = (uint c mod 16 * 64 + uint x mod 64) * 64 + uint y mod 64"
    by (rule cont_loop_3)
  have "uint c mod 16 < 16" "uint x mod 64 < 64" "uint y mod 64 < 64" by simp_all
  then have up: "r \<le> 0xFFFF" unfolding r by (rule three_digits)
  have lo: "0x7FF < r" using ge nb by (simp add: runelen_def split: if_splits)
  have q: "r div 64 = uint c mod 16 * 64 + uint x mod 64" "r mod 64 = uint y mod 64"
    unfolding r by (rule digit64 [OF cont_digit_inv(2,3) [OF y]])+
  have q': "r div 64 div 64 = uint c mod 16" "r div 64 mod 64 = uint x mod 64"
    unfolding q by (rule digit64 [OF cont_digit_inv(2,3) [OF x]])+
  have "runetochar r = [c, x, y]"
    unfolding runetochar_arith(3) [OF nb lo up] div64s q' q(2)
    by (simp only: cont_digit_inv(1) [OF x] cont_digit_inv(1) [OF y] lead_digit_inv(2) [OF c])
  with b lo up nb show ?thesis by (simp add: runelen_def)
qed

lemma decoded_4:
  assumes n: "UTFSEQ (uint c) = 4" and l: "cont_loop 1 4 (lead_bits 4 (uint c)) bs = Some (4, r, True)"
    and nb: "\<not> BADRUNE r" and ge: "4 \<le> runelen r"
  shows "runetochar r = take 4 (c # bs) \<and> runelen r = 4 \<and> 4 \<le> length (c # bs)"
proof -
  have c: "240 \<le> uint c" "uint c < 248" using UTFSEQ_inv(4) [of c] n by simp_all
  have a: "lead_bits 4 (uint c) = uint c mod 8" by (simp add: lead_bits_def bits_arith)
  from l [unfolded a] refl obtain x y z bs' where b: "bs = x # y # z # bs'" and x: "128 \<le> uint x" "uint x < 192"
    and y: "128 \<le> uint y" "uint y < 192" and z: "128 \<le> uint z" "uint z < 192"
    and r: "r = ((uint c mod 8 * 64 + uint x mod 64) * 64 + uint y mod 64) * 64 + uint z mod 64"
    by (rule cont_loop_4)
  have lo: "0xFFFF < r" using ge nb by (simp add: runelen_def split: if_splits)
  have q: "r div 64 = (uint c mod 8 * 64 + uint x mod 64) * 64 + uint y mod 64"
    "r mod 64 = uint z mod 64"
    unfolding r by (rule digit64 [OF cont_digit_inv(2,3) [OF z]])+
  have q': "r div 64 div 64 = uint c mod 8 * 64 + uint x mod 64" "r div 64 mod 64 = uint y mod 64"
    unfolding q by (rule digit64 [OF cont_digit_inv(2,3) [OF y]])+
  have q'': "r div 64 div 64 div 64 = uint c mod 8" "r div 64 div 64 mod 64 = uint x mod 64"
    unfolding q' by (rule digit64 [OF cont_digit_inv(2,3) [OF x]])+
  have "runetochar r = [c, x, y, z]"
    unfolding runetochar_arith(4) [OF nb lo] div64s q'' q'(2) q(2)
    by (simp only: cont_digit_inv(1) [OF x] cont_digit_inv(1) [OF y] cont_digit_inv(1) [OF z]
      lead_digit_inv(3) [OF c])
  with b lo nb show ?thesis by (simp add: runelen_def)
qed

lemma decoded_runetochar:
  assumes d: "charntorune s len = Some (n, Some r)" and ne: "r \<noteq> Runeerror"
  shows "runetochar r = take n s \<and> runelen r = n \<and> n \<le> length s"
proof -
  obtain c bs where s: "s = c # bs" and n: "n = UTFSEQ (uint c)" and "1 \<le> n" "n \<le> len"
    and l: "cont_loop 1 n (lead_bits n (uint c)) bs = Some (n, r, True)"
    and nb: "\<not> BADRUNE r" and ge: "n \<le> runelen r"
    using d ne by (rule charntorune_inv)
  have "runelen r \<le> 4" by (simp add: runelen_def)
  then consider "n = 1" | "n = 2" | "n = 3" | "n = 4" using ge \<open>1 \<le> n\<close> by linarith
  then show ?thesis
  proof cases
    case 1
    with l have r: "r = uint c" by (simp add: lead_bits_def)
    have "r < 128" using UTFSEQ_inv(1) [of c] n 1 by (simp add: r)
    then show ?thesis using nb 1 s by (simp add: runetochar_arith runelen_def r)
  next
    case 2
    then show ?thesis using decoded_2 [of c bs r] n l nb ge s by simp
  next
    case 3
    then show ?thesis using decoded_3 [of c bs r] n l nb ge s by simp
  next
    case 4
    then show ?thesis using decoded_4 [of c bs r] n l nb ge s by simp
  qed
qed

section \<open>Reads stay inside the string\<close>

text \<open>
  A zero byte is never a continuation byte, so the loop stops at the first one at the latest:
  it reads no byte behind it and counts no byte behind it.
\<close>

lemma cont_loop_nul:
  "\<exists>j r' f. cont_loop i m r (bs @ 0 # ys) = Some (j, r', f) \<and> i \<le> j \<and> j \<le> i + length bs"
proof (induction bs arbitrary: i r)
  case Nil
  then show ?case by (cases "i < m") auto
next
  case (Cons b bs)
  show ?case
  proof (cases "i < m \<and> 128 \<le> uint b \<and> uint b < 192")
    case True
    with Cons.IH [of "Suc i" "r * 64 + uint b mod 64"] show ?thesis by force
  next
    case False
    then show ?thesis by (cases "i < m") auto
  qed
qed

lemma cont_loop_bounds:
  "cont_loop i m r bs = Some (j, r', f) \<Longrightarrow> i \<le> m \<Longrightarrow> i \<le> j \<and> j \<le> m"
proof (induction bs arbitrary: i r)
  case Nil
  then show ?case by (cases "i < m") simp_all
next
  case (Cons b bs)
  then show ?case by (cases "i < m") (fastforce split: if_splits)+
qed

lemma charntorune_le:
  assumes "charntorune s len = Some (n, ro)"
  shows "n \<le> len \<and> (n = 0 \<longleftrightarrow> ro = None) \<and> n \<le> UTFmax"
proof (cases "len = 0 \<or> s = []")
  case True
  with assms show ?thesis by (auto simp: charntorune_def split: if_splits)
next
  case False
  then obtain c bs where s: "s = c # bs" by (cases s) auto
  let ?n = "UTFSEQ (uint c)"
  have le6: "?n \<le> UTFmax" by (simp add: UTFSEQ_uint UTFmax_def)
  show ?thesis
  proof (cases "?n = 0")
    case True
    with assms False s show ?thesis by (auto simp: charntorune_def UTFmax_def)
  next
    case n0: False
    with assms False s obtain i r f
      where l: "cont_loop 1 (min ?n len) (lead_bits ?n (uint c)) bs = Some (i, r, f)"
      by (auto simp: charntorune_def Let_def split: option.splits)
    from cont_loop_bounds [OF l] n0 False have i: "1 \<le> i" "i \<le> min ?n len" by simp_all
    with l assms False s n0 le6 show ?thesis
      by (cases f) (auto simp: charntorune_def Let_def split: if_splits)
  qed
qed

lemma chartorune_ex:
  "\<exists>n r. chartorune s = Some (n, Some r) \<and> 1 \<le> n \<and> n \<le> max 1 (length s)"
proof (cases s)
  case Nil
  then show ?thesis
    by (simp add: chartorune_def UTFmax_def charntorune_def UTFSEQ_def lead_bits_def)
next
  case (Cons c bs)
  let ?n = "UTFSEQ (uint c)"
  have le6: "?n \<le> 6" by (simp add: UTFSEQ_uint)
  obtain i r f where l: "cont_loop 1 (min ?n 6) (lead_bits ?n (uint c)) (bs @ [0]) = Some (i, r, f)"
    and i: "1 \<le> i" "i \<le> 1 + length bs" using cont_loop_nul [of 1 "min ?n 6" _ bs "[]"] by force
  have "f \<Longrightarrow> ?n \<noteq> 0 \<Longrightarrow> i = ?n" using cont_loop_True [of 1 "min ?n 6" _ "bs @ [0]" i r] l le6 by simp
  with l i Cons show ?thesis
    by (cases f) (auto simp: chartorune_def UTFmax_def charntorune_def Let_def)
qed

lemma chartorune_cases:
  obtains n r where "chartorune s = Some (n, Some r)" "1 \<le> n" "n \<le> max 1 (length s)"
  using chartorune_ex [of s] by blast

end
