(* ===== verification/Libutf_Utf.thy ===== *)
theory Libutf_Utf
  imports Libutf_Rune
begin

text \<open>
  UTF-8 strings and streams: \<open>shared/libutf/utf.c\<close>, \<open>utftorunestr.c\<close>, \<open>fgetrune.c\<close> and
  \<open>fputrune.c\<close>. Pointers returned into a string are offsets from its start (\<open>None\<close> inside the
  outer \<open>Some\<close> is NULL); the outer \<open>option\<close> is \<open>None\<close> on a read or write outside an array.
\<close>

section \<open>Definitions\<close>

text \<open>\<open>chartorune\<close> never returns 0, so each of the following loops moves forward.\<close>

lemma chartorune_Some_pos: "chartorune s = Some (n, ro) \<Longrightarrow> 0 < n"
  using chartorune_ex [of s] by auto

function utflen :: "byte list \<Rightarrow> nat option" where
  "utflen s =
     (if s = [] then Some 0
      else case chartorune s of
        None \<Rightarrow> None
      | Some (n, _) \<Rightarrow> map_option Suc (utflen (drop n s)))"
  by pat_completeness auto
termination
  by (relation "measure length") (auto dest: chartorune_Some_pos)

function utfnlen :: "byte list \<Rightarrow> nat \<Rightarrow> nat option" where
  "utfnlen p len =
     (case charntorune p len of
        None \<Rightarrow> None
      | Some (n, ro) \<Rightarrow>
          if n = 0 \<or> ro = Some 0 then Some 0
          else map_option Suc (utfnlen (drop n p) (len - n)))"
  by pat_completeness auto
termination
  by (relation "measure snd") (auto dest: charntorune_le)

function utfmemlen :: "byte list \<Rightarrow> nat \<Rightarrow> nat option" where
  "utfmemlen p len =
     (case charntorune p len of
        None \<Rightarrow> None
      | Some (n, ro) \<Rightarrow>
          if n = 0 then Some 0
          else map_option Suc (utfmemlen (drop n p) (len - n)))"
  by pat_completeness auto
termination
  by (relation "measure snd") (auto dest: charntorune_le)

declare utflen.simps [simp del] utfnlen.simps [simp del] utfmemlen.simps [simp del]

text \<open>The search of \<open>utfrune\<close> for \<open>Runeerror\<close>, from offset \<open>k\<close>.\<close>

function rune_scan :: "rune \<Rightarrow> nat \<Rightarrow> byte list \<Rightarrow> nat option option" where
  "rune_scan r k s =
     (if s = [] then Some None
      else case chartorune s of
        None \<Rightarrow> None
      | Some (n, r0) \<Rightarrow> if r0 = Some r then Some (Some k) else rune_scan r (k + n) (drop n s))"
  by pat_completeness auto
termination
  by (relation "measure (\<lambda>(r, k, s). length s)") (auto dest: chartorune_Some_pos)

definition utfrune :: "byte list \<Rightarrow> rune \<Rightarrow> nat option option" where
  "utfrune s r =
     (if r < Runeself then Some (strchr s r)
      else if r = Runeerror then rune_scan r 0 s
      else let buf = runetochar r in
        if buf = [] then Some None else Some (strstr s buf))"

text \<open>The loop of \<open>utfrrune\<close>: \<open>p\<close> is the last match so far.\<close>

function rune_rscan :: "rune \<Rightarrow> nat option \<Rightarrow> nat \<Rightarrow> byte list \<Rightarrow> nat option option" where
  "rune_rscan r p k s =
     (if s = [] then Some p
      else case chartorune s of
        None \<Rightarrow> None
      | Some (n, r0) \<Rightarrow> rune_rscan r (if r0 = Some r then Some k else p) (k + n) (drop n s))"
  by pat_completeness auto
termination
  by (relation "measure (\<lambda>(r, p, k, s). length s)") (auto dest: chartorune_Some_pos)

definition utfrrune :: "byte list \<Rightarrow> rune \<Rightarrow> nat option option" where
  "utfrrune s r = (if r < Runeself then Some (strrchr s r) else rune_rscan r None 0 s)"

text \<open>The inner loop of \<open>utfutf\<close>: whether \<open>*q\<close> is the terminator when it ends.\<close>

function utf_match :: "byte list \<Rightarrow> byte list \<Rightarrow> bool option" where
  "utf_match p q =
     (if q = [] \<or> p = [] then Some (q = [])
      else case (chartorune p, chartorune q) of
        (Some (n, r1), Some (m, r2)) \<Rightarrow>
          if r1 \<noteq> r2 then Some False else utf_match (drop n p) (drop m q)
      | _ \<Rightarrow> None)"
  by pat_completeness auto
termination
  by (relation "measure (\<lambda>(p, q). length p)") (auto dest: chartorune_Some_pos [OF sym])

text \<open>
  The outer loop of \<open>utfutf\<close> from offset \<open>k\<close>; stepping over the terminator would leave the
  string.
\<close>

function utfutf_loop :: "byte list \<Rightarrow> rune \<Rightarrow> nat \<Rightarrow> byte list \<Rightarrow> nat option option" where
  "utfutf_loop t r0 k s =
     (case utfrune s r0 of
        None \<Rightarrow> None
      | Some None \<Rightarrow> Some None
      | Some (Some d) \<Rightarrow>
          (case utf_match (drop d s) t of
             None \<Rightarrow> None
           | Some True \<Rightarrow> Some (Some (k + d))
           | Some False \<Rightarrow>
               if d < length s then utfutf_loop t r0 (k + d + 1) (drop (d + 1) s) else None))"
  by pat_completeness auto
termination
  by (relation "measure (\<lambda>(t, r0, k, s). length s)") auto

declare rune_scan.simps [simp del] rune_rscan.simps [simp del] utf_match.simps [simp del]
  utfutf_loop.simps [simp del]

definition utfutf :: "byte list \<Rightarrow> byte list \<Rightarrow> nat option option" where
  "utfutf s t =
     (case chartorune t of
        Some (_, Some r0) \<Rightarrow> utfutf_loop t r0 0 s
      | _ \<Rightarrow> None)"

text \<open>
  \<open>utfecpy\<close>: the loop that looks for the last full rune, over the capacity \<open>cap = end - to\<close>
  and the source array \<open>from\<close>. It returns the number of bytes to copy and the last rune read.
\<close>

function utfecpy_loop :: "nat \<Rightarrow> byte list \<Rightarrow> nat \<Rightarrow> rune \<Rightarrow> (nat \<times> rune) option" where
  "utfecpy_loop cap frm i r =
     (if r = 0 then Some (i, r)
      else case charntorune (drop i frm) (cap - i) of
        None \<Rightarrow> None
      | Some (n, ro) \<Rightarrow>
          if n = 0 then Some (i, r)
          else utfecpy_loop cap frm (i + n) (case ro of None \<Rightarrow> r | Some r' \<Rightarrow> r'))"
  by pat_completeness auto
termination
  by (relation "measure (\<lambda>(cap, frm, i, r). cap - i)") (auto dest: charntorune_le)

declare utfecpy_loop.simps [simp del]

text \<open>
  The destination array \<open>to\<close> after the call and the offset returned; \<open>None\<close> when a store falls
  outside the array.
\<close>

definition utfecpy :: "byte list \<Rightarrow> nat \<Rightarrow> byte list \<Rightarrow> (byte list \<times> nat) option" where
  "utfecpy dst cap frm =
     (case utfecpy_loop cap frm 0 Runeerror of
        None \<Rightarrow> None
      | Some (i, r) \<Rightarrow>
          if length dst < i then None
          else let dst1 = take i frm @ drop i dst in
            if i > 0 \<and> r \<noteq> 0
            then (if i < length dst then Some (dst1[i := 0], i) else None)
            else Some (dst1, i))"

text \<open>The runes \<open>utftorunestr\<close> and \<open>utfntorunestr\<close> store, and the counts they return.\<close>

function utftorunestr :: "byte list \<Rightarrow> rune list option" where
  "utftorunestr s =
     (case chartorune s of
        Some (n, Some r) \<Rightarrow>
          if r = 0 then Some [] else if s = [] then None
          else map_option ((#) r) (utftorunestr (drop n s))
      | _ \<Rightarrow> None)"
  by pat_completeness auto
termination
  by (relation "measure length") (auto dest: chartorune_Some_pos)

function utfntorunestr :: "byte list \<Rightarrow> nat \<Rightarrow> rune list option" where
  "utfntorunestr s len =
     (case charntorune s len of
        None \<Rightarrow> None
      | Some (n, ro) \<Rightarrow>
          if n = 0 then Some []
          else map_option ((#) (case ro of None \<Rightarrow> 0 | Some r \<Rightarrow> r))
            (utfntorunestr (drop n s) (len - n)))"
  by pat_completeness auto
termination
  by (relation "measure snd") (auto dest: charntorune_le)

declare utftorunestr.simps [simp del] utfntorunestr.simps [simp del]

text \<open>
  An input stream: the bytes still to come, whether reading ends with an error rather than at
  the end of the file, and the stream's error indicator.
\<close>

record instream =
  pending :: "byte list"
  failing :: bool
  ferror :: bool

definition fgetc :: "instream \<Rightarrow> byte option \<times> instream" where
  "fgetc fp =
     (case pending fp of
        [] \<Rightarrow> (None, fp\<lparr>ferror := ferror fp \<or> failing fp\<rparr>)
      | b # bs \<Rightarrow> (Some b, fp\<lparr>pending := bs\<rparr>))"

text \<open>
  The loop of \<open>fgetrune\<close>, with the bytes buffered so far and the rune behind the pointer
  argument.
\<close>

function fgetrune_loop :: "byte list \<Rightarrow> rune \<Rightarrow> instream \<Rightarrow> (nat \<times> rune \<times> instream) option" where
  "fgetrune_loop buf r fp =
     (if length buf < UTFmax then
        (case fgetc fp of
           (None, fp') \<Rightarrow> Some (length buf, r, fp')
         | (Some c, fp') \<Rightarrow>
             let buf' = buf @ [c] in
             (case charntorune buf' (length buf') of
                None \<Rightarrow> None
              | Some (n, ro) \<Rightarrow>
                  let r' = (case ro of None \<Rightarrow> r | Some x \<Rightarrow> x) in
                  if n > 0 then Some (length buf', r', fp') else fgetrune_loop buf' r' fp'))
      else Some (length buf, r, fp))"
  by pat_completeness auto
termination
  by (relation "measure (\<lambda>(buf, r, fp). UTFmax - length buf)") auto

declare fgetrune_loop.simps [simp del]

text \<open>The return value, the rune stored (or left as it was) and the stream afterwards.\<close>

definition fgetrune :: "rune \<Rightarrow> instream \<Rightarrow> (int \<times> rune \<times> instream) option" where
  "fgetrune r fp =
     (case fgetrune_loop [] r fp of
        None \<Rightarrow> None
      | Some (i, r', fp') \<Rightarrow> Some (if ferror fp' then -1 else int i, r', fp'))"

datatype efget_result = EfgetExit string | EfgetRune int rune instream

definition efgetrune :: "rune \<Rightarrow> instream \<Rightarrow> string \<Rightarrow> efget_result option" where
  "efgetrune r fp file =
     (case fgetrune r fp of
        None \<Rightarrow> None
      | Some (ret, r', fp') \<Rightarrow>
          Some (if ret < 0 then EfgetExit (''fgetrune '' @ file) else EfgetRune ret r' fp'))"

text \<open>
  An output stream: the bytes written and whether the underlying device accepts more.
  \<open>fwrite\<close> with one item returns 1, or 0 when the item is empty or cannot be written.
\<close>

record outstream =
  written :: "byte list"
  accepts :: bool

definition fwrite_item :: "byte list \<Rightarrow> outstream \<Rightarrow> int \<times> outstream" where
  "fwrite_item buf fp =
     (if buf = [] \<or> \<not> accepts fp then (0, fp) else (1, fp\<lparr>written := written fp @ buf\<rparr>))"

definition fputrune :: "rune \<Rightarrow> outstream \<Rightarrow> int \<times> outstream" where
  "fputrune r fp = fwrite_item (runetochar r) fp"

datatype efput_result = EfputExit string | EfputRet int outstream

definition efputrune :: "rune \<Rightarrow> outstream \<Rightarrow> string \<Rightarrow> efput_result" where
  "efputrune r fp file =
     (case fputrune r fp of
        (ret, fp') \<Rightarrow> if ret < 0 then EfputExit (''fputrune '' @ file) else EfputRet ret fp')"

section \<open>Sequences of runes\<close>

definition utf_encode :: "rune list \<Rightarrow> byte list" where
  "utf_encode rs = concat (map runetochar rs)"

definition valid_runes :: "rune list \<Rightarrow> bool" where
  "valid_runes rs \<longleftrightarrow> (\<forall>r \<in> set rs. 0 < runelen r \<and> r \<noteq> 0)"

lemma utf_encode_simps [simp]:
  "utf_encode [] = []" "utf_encode (r # rs) = runetochar r @ utf_encode rs"
  by (simp_all add: utf_encode_def)

lemma valid_runes_simps [simp]:
  "valid_runes []" "valid_runes (r # rs) \<longleftrightarrow> 0 < runelen r \<and> r \<noteq> 0 \<and> valid_runes rs"
  by (auto simp: valid_runes_def)

lemma runelen_le_4: "runelen r \<le> 4"
  by (simp add: runelen_def)

lemma chartorune_encoded [simp]:
  "0 < runelen r \<Longrightarrow> chartorune (runetochar r @ s) = Some (runelen r, Some r)"
  using runelen_le_4 [of r] by (simp add: chartorune_def UTFmax_def charntorune_runetochar)

lemma runetochar_Nil_iff [simp]: "runetochar r = [] \<longleftrightarrow> runelen r = 0"
  by (metis length_0_conv length_runetochar)

lemma drop_runetochar [simp]: "drop (runelen r) (runetochar r @ s) = s"
  by (simp add: length_runetochar)

lemma chartorune_encoded_Cons:
  assumes "0 < runelen r" and "b # s' = runetochar r @ s"
  shows "chartorune (b # s') = Some (runelen r, Some r)" "drop (runelen r) (b # s') = s"
  unfolding assms(2) using assms(1) by simp_all

lemma utflen_encode: "valid_runes rs \<Longrightarrow> utflen (utf_encode rs) = Some (length rs)"
proof (induction rs)
  case Nil
  then show ?case by (simp add: utflen.simps)
next
  case (Cons r rs)
  then show ?case by (simp add: utflen.simps [of "runetochar r @ _"])
qed

lemma utftorunestr_encode: "valid_runes rs \<Longrightarrow> utftorunestr (utf_encode rs) = Some rs"
proof (induction rs)
  case Nil
  have "chartorune [] = Some (1, Some 0)" by code_simp
  then show ?case by (simp add: utftorunestr.simps)
next
  case (Cons r rs)
  then show ?case by (simp add: utftorunestr.simps [of "runetochar r @ _"])
qed

lemma utfmemlen_encode:
  "list_all (\<lambda>r. 0 < runelen r) rs \<Longrightarrow>
     utfmemlen (utf_encode rs) (length (utf_encode rs)) = Some (length rs)"
proof (induction rs)
  case Nil
  then show ?case by (simp add: utfmemlen.simps charntorune_def)
next
  case (Cons r rs)
  then have "charntorune (runetochar r @ utf_encode rs) (length (runetochar r @ utf_encode rs)) =
      Some (runelen r, Some r)"
    by (intro charntorune_runetochar) (simp_all add: length_runetochar)
  with Cons show ?case
    by (simp add: utfmemlen.simps [of "runetochar r @ _"] length_runetochar)
qed

lemma runenlen_encode: "runenlen rs (length rs) = Some (length (utf_encode rs))"
  by (induction rs) (simp_all add: length_runetochar)

text \<open>Every string is decoded to its end, in at most one rune per byte.\<close>

lemma utflen_total: "\<exists>k. utflen s = Some k \<and> k \<le> length s"
proof (induction s rule: utflen.induct)
  case (1 s)
  show ?case
  proof (cases "s = []")
    case True
    then show ?thesis by (simp add: utflen.simps)
  next
    case False
    obtain n r where c: "chartorune s = Some (n, Some r)" and n: "1 \<le> n" "n \<le> max 1 (length s)"
      by (rule chartorune_cases)
    from "1.IH" [OF False c refl] obtain k where "utflen (drop n s) = Some k" "k \<le> length s - n"
      by auto
    with n c False have "utflen s = Some (Suc k)" by (simp add: utflen.simps [of s])
    moreover have "Suc k \<le> length s"
      using \<open>k \<le> length s - n\<close> n False by (cases s) auto
    ultimately show ?thesis by blast
  qed
qed

section \<open>Searching\<close>

lemma decoded_prefix:
  assumes c: "chartorune p = Some (n, Some r)" and "r \<noteq> Runeerror" and "p \<noteq> []"
  shows "p = runetochar r @ drop n p" and "runelen r = n"
proof -
  from c have "n \<le> max 1 (length p)" using chartorune_ex [of p] by auto
  with \<open>p \<noteq> []\<close> have n: "n \<le> length p" by (cases p) auto
  have "runetochar r = take n (p @ [0])" "runelen r = n"
    using decoded_runetochar [of "p @ [0]" UTFmax n r] c assms(2) by (simp_all add: chartorune_def)
  with n show "p = runetochar r @ drop n p" and "runelen r = n" by simp_all
qed

text \<open>Comparing rune by rune is comparing bytes, when the needle is well-formed.\<close>

lemma utf_match_prefix:
  "valid_runes rs \<Longrightarrow> Runeerror \<notin> set rs \<Longrightarrow>
     utf_match p (utf_encode rs) = Some (prefix (utf_encode rs) p)"
proof (induction rs arbitrary: p)
  case Nil
  then show ?case by (simp add: utf_match.simps)
next
  case (Cons r rs)
  let ?q = "runetochar r @ utf_encode rs"
  have q: "chartorune ?q = Some (runelen r, Some r)" "?q \<noteq> []" using Cons.prems by simp_all
  show ?case
  proof (cases "p = []")
    case True
    with Cons.prems show ?thesis by (simp add: utf_match.simps)
  next
    case False
    obtain n r1 where c: "chartorune p = Some (n, Some r1)" by (rule chartorune_cases)
    show ?thesis
    proof (cases "r1 = r")
      case True
      from decoded_prefix [OF c] True Cons.prems False
      have p: "p = runetochar r @ drop n p" "runelen r = n" by auto
      have "utf_match p ?q = utf_match (drop n p) (utf_encode rs)"
        using c q False True Cons.prems by (subst utf_match.simps) simp
      moreover have "prefix ?q p \<longleftrightarrow> prefix (utf_encode rs) (drop n p)"
        by (subst p(1)) simp
      ultimately show ?thesis using Cons by simp
    next
      case ne: False
      have "\<not> prefix ?q p"
      proof
        assume "prefix ?q p"
        then obtain x where "p = runetochar r @ utf_encode rs @ x" by (auto simp: prefix_def)
        with c ne Cons.prems show False by simp
      qed
      with c q False ne show ?thesis by (subst utf_match.simps) simp
    qed
  qed
qed

lemma utfrune_strstr:
  assumes "0 < runelen r" and "r \<noteq> 0" and "r \<noteq> Runeerror"
  shows "utfrune s r = Some (strstr s (runetochar r))"
proof (cases "r < Runeself")
  case True
  have nb: "\<not> BADRUNE r" using assms(1) by (simp add: runelen_pos)
  then have r: "0 < r" "r \<le> 0x7F" using BADRUNE_range [OF nb] True assms(2)
    by (simp_all add: Runeself_def)
  then have "uint (word_of_int r :: byte) \<noteq> 0" by (simp add: uint_word_of_byte)
  then have "(word_of_int r :: byte) \<noteq> 0" by auto
  then show ?thesis
    using True r by (simp add: utfrune_def strchr_def runetochar_arith(1) [OF nb] find_byte_append
      strstr_single split: option.splits)
next
  case False
  with assms show ?thesis by (simp add: utfrune_def)
qed

lemma utfutf_loop_strstr:
  assumes v: "valid_runes (r # rs)" and ne: "Runeerror \<notin> set (r # rs)"
  defines "t \<equiv> utf_encode (r # rs)"
  shows "utfutf_loop t r k s = Some (map_option ((+) k) (strstr s t))"
proof (induction s arbitrary: k rule: length_induct)
  case (1 s)
  have f: "utfrune s r = Some (strstr s (runetochar r))"
    using v ne by (intro utfrune_strstr) auto
  have pt: "prefix t x \<Longrightarrow> prefix (runetochar r) x" for x
    by (auto simp: t_def dest: append_prefixD)
  show ?case
  proof (cases "strstr s (runetochar r)")
    case None
    then have "strstr s t = None" using pt by (auto simp: strstr_None_iff)
    with None f show ?thesis by (subst utfutf_loop.simps) simp
  next
    case (Some d)
    then have d: "d \<le> length s" "prefix (runetochar r) (drop d s)"
      and first: "\<And>e. e < d \<Longrightarrow> \<not> prefix t (drop e s)"
      using pt by (auto simp: strstr_Some_iff)
    have m: "utf_match (drop d s) t = Some (prefix t (drop d s))"
      unfolding t_def using v ne by (rule utf_match_prefix)
    show ?thesis
    proof (cases "prefix t (drop d s)")
      case True
      with d first have "strstr s t = Some d" by (simp add: strstr_Some_iff)
      with True Some f m show ?thesis by (subst utfutf_loop.simps) simp
    next
      case False
      have "drop d s \<noteq> []" using d v by auto
      then have "d < length s" by simp
      have "\<not> prefix t (drop e s)" if "e < d + 1" for e
        using that first False by (cases "e = d") auto
      then have "strstr s t = map_option ((+) (d + 1)) (strstr (drop (d + 1) s) t)"
        using \<open>d < length s\<close> by (intro strstr_skip) auto
      moreover have "utfutf_loop t r (k + d + 1) (drop (d + 1) s) =
          Some (map_option ((+) (k + d + 1)) (strstr (drop (d + 1) s) t))"
        by (rule "1.IH" [rule_format]) (use \<open>d < length s\<close> in simp)
      ultimately show ?thesis
        using False Some f m \<open>d < length s\<close>
        by (subst utfutf_loop.simps) (cases "strstr (drop (d + 1) s) t"; simp)
    qed
  qed
qed

section \<open>Reading runes from a stream\<close>

lemma runetochar_shape:
  assumes "0 < runelen r"
  obtains c bs where "runetochar r = c # bs" "UTFSEQ (uint c) = runelen r"
    "\<forall>b \<in> set bs. 128 \<le> uint b \<and> uint b < 192"
proof -
  have nb: "\<not> BADRUNE r" using assms by (simp add: runelen_pos)
  then show ?thesis
  proof (rule runelen_cases)
    assume r: "0 \<le> r" "r \<le> 0x7F" and n: "runelen r = 1"
    then show ?thesis
      by (intro that [of "word_of_int r" "[]"])
        (simp_all add: runetochar_arith(1) [OF nb] UTFSEQ_byte uint_word_of_byte)
  next
    assume r: "0x7F < r" "r \<le> 0x7FF" and n: "runelen r = 2"
    have l: "0 \<le> r div 64" "r div 64 < 32" using r by linarith+
    have "UTFSEQ (uint (word_of_int (192 + r div 64) :: byte)) = 2"
      unfolding UTFSEQ_uint using lead_digit(1) [OF l] by (simp only: if_splits) simp
    then show ?thesis
      by (intro that [OF runetochar_arith(2) [OF nb r]])
        (use n in \<open>simp_all only: list.set ball_simps cont_digit\<close>)
  next
    assume r: "0x7FF < r" "r \<le> 0xFFFF" and n: "runelen r = 3"
    have l: "0 \<le> r div 4096" "r div 4096 < 16" using r by linarith+
    have "UTFSEQ (uint (word_of_int (224 + r div 4096) :: byte)) = 3"
      unfolding UTFSEQ_uint using lead_digit(2) [OF l] by (simp only: if_splits) simp
    then show ?thesis
      by (intro that [OF runetochar_arith(3) [OF nb r]])
        (use n in \<open>simp_all only: list.set ball_simps cont_digit\<close>)
  next
    assume r: "0xFFFF < r" "r \<le> 0x10FFFF" and n: "runelen r = 4"
    have l: "0 \<le> r div 262144" "r div 262144 < 8" using r by linarith+
    have "UTFSEQ (uint (word_of_int (240 + r div 262144) :: byte)) = 4"
      unfolding UTFSEQ_uint using lead_digit(3) [OF l] by (simp only: if_splits) simp
    then show ?thesis
      by (intro that [OF runetochar_arith(4) [OF nb r(1)]])
        (use n in \<open>simp_all only: list.set ball_simps cont_digit\<close>)
  qed
qed

lemma cont_loop_conts:
  "\<forall>b \<in> set bs. 128 \<le> uint b \<and> uint b < 192 \<Longrightarrow> i \<le> m \<Longrightarrow> m \<le> i + length bs \<Longrightarrow>
     \<exists>r'. cont_loop i m r bs = Some (m, r', True)"
proof (induction bs arbitrary: i r)
  case Nil
  then show ?case by simp
next
  case (Cons b bs)
  then show ?case by (cases "i < m") auto
qed

text \<open>A proper prefix of an encoding asks for more input.\<close>

lemma charntorune_incomplete:
  assumes ok: "0 < runelen r" and i: "0 < i" "i < runelen r"
  shows "charntorune (take i (runetochar r)) i = Some (0, None)"
proof -
  obtain c bs where s: "runetochar r = c # bs" and n: "UTFSEQ (uint c) = runelen r"
    and b: "\<forall>b \<in> set bs. 128 \<le> uint b \<and> uint b < 192"
    using ok by (rule runetochar_shape)
  have len: "length bs = runelen r - 1" using s length_runetochar [of r] by simp
  have "\<exists>r'. cont_loop 1 i (lead_bits (runelen r) (uint c)) (take (i - 1) bs) = Some (i, r', True)"
    using i len by (intro cont_loop_conts) (use b in \<open>auto dest: in_set_takeD\<close>)
  then show ?thesis
    using i n s by (auto simp: charntorune_def take_Cons' min_def)
qed

lemma fgetrune_loop_encoded:
  assumes ok: "0 < runelen r"
  shows "i < runelen r \<Longrightarrow>
    fgetrune_loop (take i (runetochar r)) r0 (fp\<lparr>pending := drop i (runetochar r) @ rest\<rparr>) =
      Some (runelen r, r, fp\<lparr>pending := rest\<rparr>)"
proof (induction "runelen r - i" arbitrary: i)
  case 0
  then show ?case by simp
next
  case (Suc d)
  let ?s = "runetochar r"
  have i: "i < length ?s" "i < UTFmax" using Suc.prems runelen_le_4 [of r] by (simp_all add: UTFmax_def)
  have snoc: "take i ?s @ [?s ! i] = take (Suc i) ?s" using i by (simp add: take_Suc_conv_app_nth)
  have get: "fgetc (fp\<lparr>pending := drop i ?s @ rest\<rparr>) =
      (Some (?s ! i), fp\<lparr>pending := drop (Suc i) ?s @ rest\<rparr>)"
    using i by (simp add: fgetc_def Cons_nth_drop_Suc [symmetric])
  have len: "length (take (Suc i) ?s) = Suc i" "length (take i ?s) = i" using i by simp_all
  show ?case
  proof (cases "Suc i < runelen r")
    case True
    with ok have "charntorune (take (Suc i) ?s) (Suc i) = Some (0, None)"
      by (intro charntorune_incomplete) auto
    then show ?thesis
      using Suc.hyps(1) [of "Suc i"] Suc.hyps(2) True i
      by (subst fgetrune_loop.simps) (simp add: get snoc len Let_def del: length_take)
  next
    case False
    then have e: "Suc i = runelen r" using Suc.prems by simp
    then have "charntorune (take (Suc i) ?s) (Suc i) = Some (Suc i, Some r)"
      using charntorune_runetochar [of r "Suc i" "[]"] by simp
    then show ?thesis
      using i e by (subst fgetrune_loop.simps) (simp add: get snoc len Let_def del: length_take)
  qed
qed

lemma fgetrune_encoded:
  assumes "0 < runelen r" and "\<not> ferror fp"
  shows "fgetrune r0 (fp\<lparr>pending := runetochar r @ rest\<rparr>) =
    Some (int (runelen r), r, fp\<lparr>pending := rest\<rparr>)"
  using fgetrune_loop_encoded [of r 0, where ?r0.0 = r0 and fp = fp and rest = rest] assms by (simp add: fgetrune_def)

lemma fgetrune_bad_second:
  assumes n: "2 \<le> UTFSEQ (uint c)" and d: "\<not> (128 \<le> uint d \<and> uint d < 192)" and "\<not> ferror fp"
  shows "fgetrune r0 (fp\<lparr>pending := c # d # rest\<rparr>) = Some (2, Runeerror, fp\<lparr>pending := rest\<rparr>)"
proof -
  have c1: "charntorune [c] (Suc 0) = Some (0, None)"
    using n by (simp add: charntorune_def Let_def min_def)
  have c2: "charntorune [c, d] (Suc (Suc 0)) = Some (1, Some Runeerror)"
    using n d by (simp add: charntorune_def Let_def min_def)
  have "fgetrune_loop [] r0 (fp\<lparr>pending := c # d # rest\<rparr>) =
      Some (2, Runeerror, fp\<lparr>pending := rest\<rparr>)"
    by (subst fgetrune_loop.simps, simp add: fgetc_def c1 UTFmax_def)
      (subst fgetrune_loop.simps, simp add: fgetc_def c2 UTFmax_def)
  with assms(3) show ?thesis by (simp add: fgetrune_def)
qed

section \<open>Bounded copies\<close>

lemma decode_ascii:
  "uint c < 128 \<Longrightarrow> 0 < len \<Longrightarrow> charntorune (c # bs) len = Some (1, Some (uint c))"
  using decode_1 [of c len bs] by (simp add: BADRUNE_ascii)

lemma utfecpy_loop_ascii:
  assumes ascii: "\<forall>b \<in> set s. uint b < 128" and nn: "nonul s"
  shows "r \<noteq> 0 \<Longrightarrow> i \<le> length s \<Longrightarrow> i \<le> cap \<Longrightarrow>
    \<exists>r'. utfecpy_loop cap (cmem s) i r =
      Some (if length s < cap then (Suc (length s), 0) else (cap, r')) \<and> r' \<noteq> 0"
proof (induction "length s - i" arbitrary: i r)
  case 0
  then have i: "i = length s" by simp
  show ?case
  proof (cases "i < cap")
    case True
    have "charntorune [0] (cap - i) = Some (1, Some 0)" using True decode_ascii [of 0 "cap - i" "[]"] by simp
    then show ?thesis
      using 0 i True
      by (subst utfecpy_loop.simps) (auto simp: utfecpy_loop.simps [of cap _ _ 0])
  next
    case False
    with 0 i show ?thesis by (subst utfecpy_loop.simps) (auto simp: charntorune_def)
  qed
next
  case (Suc d)
  then have i: "i < length s" by simp
  show ?case
  proof (cases "i < cap")
    case True
    have b: "uint (s ! i) < 128" "uint (s ! i) \<noteq> 0"
      using ascii nn i by (auto simp: nonul_def uint_0_iff dest: nth_mem)
    have "drop i (cmem s) = s ! i # drop (Suc i) (cmem s)"
      using i by (simp add: Cons_nth_drop_Suc [symmetric])
    then have "charntorune (drop i (cmem s)) (cap - i) = Some (1, Some (uint (s ! i)))"
      using True b decode_ascii by simp
    then have "utfecpy_loop cap (cmem s) i r = utfecpy_loop cap (cmem s) (Suc i) (uint (s ! i))"
      using Suc.prems by (subst utfecpy_loop.simps) simp
    with Suc.hyps(1) [of "Suc i" "uint (s ! i)"] Suc.hyps(2) b i True show ?thesis by auto
  next
    case False
    with Suc.prems i show ?thesis by (subst utfecpy_loop.simps) (auto simp: charntorune_def)
  qed
qed

section \<open>Properties\<close>

text \<open>
  Property C14 (round trip). Every rune that has an encoding is decoded back from its encoding,
  whatever follows it in memory and for every length limit that covers it.
\<close>

theorem rune_roundtrip:
  assumes "0 < runelen r" and "runelen r \<le> len"
  shows "charntorune (runetochar r @ rest) len = Some (runelen r, Some r)"
  using assms by (rule charntorune_runetochar)

theorem rune_roundtrip_witness:
  "0 < runelen 0x20AC \<and> runetochar 0x20AC = [0xE2, 0x82, 0xAC] \<and>
   charntorune (runetochar 0x20AC @ [0x41]) 6 = Some (runelen 0x20AC, Some 0x20AC)"
proof -
  have h: "0 < runelen 0x20AC" "runelen 0x20AC \<le> 6" by code_simp+
  have "runetochar 0x20AC = [0xE2, 0x82, 0xAC]" by code_simp
  with h rune_roundtrip [OF h, of "[0x41]"] show ?thesis by blast
qed

text \<open>
  Property C29 (strictness). The decoder accepts shortest encodings only: when it yields a rune
  other than the error rune, the bytes it consumed lie inside the array and are exactly the bytes
  the encoder writes for that rune. Overlong forms, surrogates and out-of-range values never pass.
\<close>

theorem rune_decode_strict:
  assumes "charntorune s len = Some (n, Some r)" and "r \<noteq> Runeerror"
  shows "take n s = runetochar r \<and> n = runelen r \<and> 0 < n \<and> n \<le> len \<and> n \<le> length s"
  using decoded_runetochar [OF assms] charntorune_le [OF assms(1)] by auto

theorem rune_decode_strict_witness:
  "charntorune [0xC3, 0xA9, 0x21] 3 = Some (2, Some 0xE9) \<and>
   take 2 [0xC3, 0xA9, 0x21] = runetochar 0xE9 \<and> 2 = runelen 0xE9"
proof -
  have h: "charntorune [0xC3, 0xA9, 0x21] 3 = Some (2, Some 0xE9)" by code_simp
  moreover have "(0xE9::int) \<noteq> Runeerror" by code_simp
  ultimately show ?thesis using rune_decode_strict [OF h] by blast
qed

text \<open>
  Property C30 (memory safety and progress). On every NUL-terminated string the decoder reads no
  byte behind the terminator, stores a rune, and consumes at least one byte and no byte behind the
  end of a non-empty string; hence \<open>utflen\<close> stops on every string, with at most one rune per
  byte.
\<close>

theorem utf_decode_safe:
  "(\<exists>n r. chartorune s = Some (n, Some r) \<and> 1 \<le> n \<and> n \<le> max 1 (length s)) \<and>
   (\<exists>k. utflen s = Some k \<and> k \<le> length s)"
  using chartorune_ex utflen_total by blast

text \<open>
  The UTF-8 string of a sequence of runes is decoded to the same
  sequence by \<open>utftorunestr\<close>, has the length \<open>utflen\<close> computes in runes, and the length
  \<open>runenlen\<close> computes in bytes.
\<close>

lemma utf_string_roundtrip:
  assumes "valid_runes rs"
  shows "utftorunestr (utf_encode rs) = Some rs \<and> utflen (utf_encode rs) = Some (length rs) \<and>
    runenlen rs (length rs) = Some (length (utf_encode rs))"
  using assms by (simp add: utftorunestr_encode utflen_encode runenlen_encode)

text \<open>
  Property C18 (equivalence). For a non-empty well-formed needle without the rune U+FFFD, the rune search
  \<open>utfutf\<close> finds exactly what a byte search finds, in any haystack, well-formed or not, and it never reads
  outside either string. The exception is needed: a byte that starts no rune decodes to U+FFFD, so \<open>utfutf\<close>
  finds the encoding of U+FFFD at the single byte 0x80, where the byte search finds nothing.
\<close>

theorem utfutf_is_strstr:
  "(valid_runes (r # rs) \<and> Runeerror \<notin> set (r # rs) \<longrightarrow>
      utfutf s (utf_encode (r # rs)) = Some (strstr s (utf_encode (r # rs)))) \<and>
   utfutf [0x80] (utf_encode [Runeerror]) = Some (Some 0) \<and> strstr [0x80] (utf_encode [Runeerror]) = None"
proof (intro conjI impI)
  assume a: "valid_runes (r # rs) \<and> Runeerror \<notin> set (r # rs)"
  then have "chartorune (utf_encode (r # rs)) = Some (runelen r, Some r)" by simp
  then show "utfutf s (utf_encode (r # rs)) = Some (strstr s (utf_encode (r # rs)))"
    using utfutf_loop_strstr [of r rs 0 s] a
    by (cases "strstr s (utf_encode (r # rs))") (simp_all add: utfutf_def)
next
  show "utfutf [0x80] (utf_encode [Runeerror]) = Some (Some 0)" by code_simp
  show "strstr [0x80] (utf_encode [Runeerror]) = None" by code_simp
qed

theorem utfutf_is_strstr_witness:
  "valid_runes (0xE9 # [0x21]) \<and> Runeerror \<notin> set (0xE9 # [0x21]) \<and>
   utfutf [0x61, 0xC3, 0xA9, 0xC3, 0xA9, 0x21] (utf_encode (0xE9 # [0x21])) =
     Some (strstr [0x61, 0xC3, 0xA9, 0xC3, 0xA9, 0x21] (utf_encode (0xE9 # [0x21]))) \<and>
   strstr [0x61, 0xC3, 0xA9, 0xC3, 0xA9, 0x21] (utf_encode (0xE9 # [0x21])) = Some 3"
proof -
  have h: "valid_runes (0xE9 # [0x21]) \<and> Runeerror \<notin> set (0xE9 # [0x21])" by code_simp
  moreover have "strstr [0x61, 0xC3, 0xA9, 0xC3, 0xA9, 0x21] (utf_encode (0xE9 # [0x21])) = Some 3"
    by code_simp
  ultimately show ?thesis
    using utfutf_is_strstr [of "0xE9" "[0x21]" "[0x61, 0xC3, 0xA9, 0xC3, 0xA9, 0x21]"] by blast
qed

text \<open>
  On a stream that starts with the encoding of a rune, \<open>fgetrune\<close>
  returns the length of that encoding, stores the rune and leaves the stream right behind it. On a
  stream whose leading byte announces a continuation that does not come, it returns the error rune
  and has consumed the offending byte as well, so that this byte is lost to the next call.
\<close>

lemma fgetrune_reads:
  assumes "\<not> ferror fp"
  shows "(0 < runelen r \<longrightarrow> fgetrune r0 (fp\<lparr>pending := runetochar r @ rest\<rparr>) =
      Some (int (runelen r), r, fp\<lparr>pending := rest\<rparr>)) \<and>
    (2 \<le> UTFSEQ (uint c) \<and> \<not> (128 \<le> uint d \<and> uint d < 192) \<longrightarrow>
      fgetrune r0 (fp\<lparr>pending := c # d # rest\<rparr>) = Some (2, Runeerror, fp\<lparr>pending := rest\<rparr>))"
  using assms fgetrune_encoded fgetrune_bad_second by blast

text \<open>
  For an ASCII string, \<open>utfecpy\<close> copies the whole string with its
  terminator when it is shorter than the capacity \<open>end - to\<close>, and leaves the rest of the
  destination alone. When it is not shorter, the terminator is stored at \<open>*end\<close>: into a
  destination of exactly the capacity this is a store outside the array, for every such string.
\<close>

lemma utfecpy_ascii:
  assumes "\<forall>b \<in> set s. uint b < 128" and "nonul s" and "0 < cap" and "length dst = cap"
  shows "utfecpy dst cap (cmem s) =
    (if length s < cap then Some (cmem s @ drop (Suc (length s)) dst, Suc (length s)) else None)"
proof -
  have "Runeerror \<noteq> 0" by (simp add: Runeerror_def)
  then obtain r' where l: "utfecpy_loop cap (cmem s) 0 Runeerror =
      Some (if length s < cap then (Suc (length s), 0) else (cap, r'))" and "r' \<noteq> 0"
    using utfecpy_loop_ascii [OF assms(1,2), of Runeerror 0 cap] by auto
  with assms(3,4) show ?thesis by (simp add: utfecpy_def l Let_def)
qed

text \<open>
  The error path. \<open>efputrune\<close> is meant to end the program when a rune cannot be
  written; it never does: on a stream that accepts no more bytes it returns 0, as if nothing had
  happened, because \<open>fwrite\<close> has no negative return value.
\<close>

lemma efputrune_never_exits:
  "efputrune r fp file =
     EfputRet (if accepts fp \<and> 0 < runelen r then 1 else 0)
       (if accepts fp \<and> 0 < runelen r then fp\<lparr>written := written fp @ runetochar r\<rparr> else fp)"
  by (simp add: efputrune_def fputrune_def fwrite_item_def)

end
