(* ===== verification/Digest_Stream.thy ===== *)
theory Digest_Stream
  imports Aruu_Base
begin

text \<open>
  The streaming frame of the message digests. The files \<open>md5.c\<close>, \<open>sha1.c\<close>, \<open>sha256.c\<close> and
  \<open>sha512.c\<close> under \<open>shared/libutil\<close> share, up to the block size and the compression function,
  the text of their \<open>update\<close> and \<open>pad\<close> functions; the frame is defined here once, with these as
  arguments, and each file's functions are its instances (theory \<open>Digest_Hash\<close>).

  The locale \<open>md_frame\<close> proves the frame correct for every compression function: a context that
  absorbed a message in any division into pieces ends with the hash of the padded message.
\<close>

section \<open>Definitions\<close>

text \<open>The digest contexts: \<open>len\<close>, \<open>h\<close> and \<open>buf\<close> of \<open>struct md5\<close>, \<open>struct sha1\<close>, and so on.\<close>

record 'w md_ctx =
  md_len :: u64
  md_h :: "'w list"
  md_buf :: "byte list"

text \<open>\<open>for (; len >= B; len -= B, p += B) processblock(s, p);\<close>\<close>

function md_loop :: "nat \<Rightarrow> ('h \<Rightarrow> byte list \<Rightarrow> 'h) \<Rightarrow> 'h \<Rightarrow> byte list \<Rightarrow> 'h \<times> byte list" where
  "md_loop B blk h p =
     (if 0 < B \<and> B \<le> length p then md_loop B blk (blk h (take B p)) (drop B p) else (h, p))"
  by pat_completeness auto
termination
  by (relation "measure (\<lambda>(B, blk, h, p). length p)") auto

declare md_loop.simps [simp del]

definition md_update ::
  "nat \<Rightarrow> ('w list \<Rightarrow> byte list \<Rightarrow> 'w list) \<Rightarrow> 'w md_ctx \<Rightarrow> byte list \<Rightarrow> 'w md_ctx" where
  "md_update B blk s m =
     (let r = unat (md_len s) mod B;
          s = s\<lparr>md_len := md_len s + of_nat (length m)\<rparr> in
      if r \<noteq> 0 then
        if length m < B - r then s\<lparr>md_buf := buf_write (md_buf s) r m\<rparr>
        else
          let b = buf_write (md_buf s) r (take (B - r) m);
              (h', p) = md_loop B blk (blk (md_h s) b) (drop (B - r) m)
          in s\<lparr>md_h := h', md_buf := buf_write b 0 p\<rparr>
      else
        let (h', p) = md_loop B blk (md_h s) m
        in s\<lparr>md_h := h', md_buf := buf_write (md_buf s) 0 p\<rparr>)"

text \<open>
  \<open>pad\<close>: the marker byte, a block of its own if it leaves more than \<open>t\<close> bytes used, zeros up to
  the offset \<open>z\<close> of the length field, and the length in bits.
\<close>

definition md_pad ::
  "nat \<Rightarrow> nat \<Rightarrow> nat \<Rightarrow> (u64 \<Rightarrow> byte list) \<Rightarrow> ('w list \<Rightarrow> byte list \<Rightarrow> 'w list) \<Rightarrow> 'w md_ctx \<Rightarrow> 'w md_ctx"
  where
  "md_pad B t z enc blk s =
     (let r = unat (md_len s) mod B;
          b = buf_write (md_buf s) r [0x80];
          r = r + 1;
          (b, h, r) =
            (if r > t then
               let b = buf_write b r (replicate (B - r) 0) in (b, blk (md_h s) b, 0)
             else (b, md_h s, r));
          b = buf_write b r (replicate (z - r) 0);
          l = md_len s * 8;
          b = buf_write b z (enc l)
      in s\<lparr>md_len := l, md_h := blk h b, md_buf := b\<rparr>)"

text \<open>The length field, least and most significant byte first.\<close>

definition le64 :: "u64 \<Rightarrow> byte list" where
  "le64 l = map (\<lambda>k. ucast (drop_bit k l)) [0, 8, 16, 24, 32, 40, 48, 56]"

definition be64 :: "u64 \<Rightarrow> byte list" where
  "be64 l = map (\<lambda>k. ucast (drop_bit k l)) [56, 48, 40, 32, 24, 16, 8, 0]"

section \<open>Messages in blocks\<close>

function blocks :: "nat \<Rightarrow> 'a list \<Rightarrow> 'a list list" where
  "blocks B m = (if 0 < B \<and> B \<le> length m then take B m # blocks B (drop B m) else [])"
  by pat_completeness auto
termination
  by (relation "measure (\<lambda>(B, m). length m)") auto

declare blocks.simps [simp del]

definition rest_of :: "nat \<Rightarrow> 'a list \<Rightarrow> 'a list" where
  "rest_of B m = drop (B * (length m div B)) m"

text \<open>The padded message of the standards, with the frame's parameters.\<close>

definition padded :: "nat \<Rightarrow> nat \<Rightarrow> nat \<Rightarrow> (u64 \<Rightarrow> byte list) \<Rightarrow> byte list \<Rightarrow> byte list" where
  "padded B t z enc m =
     m @ 0x80 # replicate ((B + t - 1 - length m mod B) mod B) 0 @ replicate (z - t) 0
       @ enc (of_nat (8 * length m))"

section \<open>Lemmas on blocks\<close>

lemma blocks_short [block_simps]: "length m < B \<Longrightarrow> blocks B m = []"
  by (simp add: blocks.simps)

lemma blocks_one [block_simps]: "0 < B \<Longrightarrow> length a = B \<Longrightarrow> blocks B (a @ m) = a # blocks B m"
  by (subst blocks.simps) simp

lemma blocks_exact [block_simps]: "0 < B \<Longrightarrow> length a = B \<Longrightarrow> blocks B a = [a]"
  using blocks_one [of B a "[]"] by (simp add: blocks_short)

lemma rest_of_short [block_simps]: "length m < B \<Longrightarrow> rest_of B m = m"
  by (simp add: rest_of_def)

lemma length_rest_of [block_simps]: "length (rest_of B m) = length m mod B"
  by (simp add: rest_of_def minus_mult_div_eq_mod)

lemma rest_of_append_dvd: "0 < B \<Longrightarrow> B dvd length a \<Longrightarrow> rest_of B (a @ m) = rest_of B m"
  by (auto simp: rest_of_def dvd_def distrib_left)

lemma rest_of_exact [block_simps]: "0 < B \<Longrightarrow> length a = B \<Longrightarrow> rest_of B (a @ m) = rest_of B m"
  by (rule rest_of_append_dvd) simp_all

lemma md_loop_blocks:
  "0 < B \<Longrightarrow> md_loop B blk h p = (foldl blk h (blocks B p), rest_of B p)"
proof (induction B blk h p rule: md_loop.induct)
  case (1 B blk h p)
  show ?case
  proof (cases "B \<le> length p")
    case True
    have "rest_of B (drop B p) = rest_of B p"
      using rest_of_exact [of B "take B p" "drop B p"] True "1.prems" by simp
    with "1.IH" "1.prems" True show ?thesis
      by (simp add: md_loop.simps [of B blk h p] blocks.simps [of B p])
  next
    case False
    then show ?thesis
      using "1.prems" by (simp add: md_loop.simps blocks.simps rest_of_def)
  qed
qed

text \<open>Blocks of a message extended at the end: only the unfinished block matters.\<close>

lemma blocks_append_dvd:
  "0 < B \<Longrightarrow> B dvd length a \<Longrightarrow> blocks B (a @ m) = blocks B a @ blocks B m"
proof (induction B a rule: blocks.induct)
  case (1 B a)
  show ?case
  proof (cases "B \<le> length a")
    case True
    have "blocks B (drop B a @ m) = blocks B (drop B a) @ blocks B m"
      using 1 True by simp
    moreover have "blocks B (a @ m) = take B a # blocks B (drop B a @ m)"
      using blocks_one [of B "take B a" "drop B a @ m"] True "1.prems"
      by (simp flip: append_assoc)
    ultimately show ?thesis
      using True "1.prems" by (simp add: blocks.simps [of B a])
  next
    case False
    then have "a = []" using "1.prems" by (auto dest: dvd_imp_le)
    then show ?thesis using "1.prems" by (simp add: blocks_short)
  qed
qed

lemma split_rest:
  assumes "0 < B"
  obtains a where "m = a @ rest_of B m" "B dvd length a" "blocks B a = blocks B m"
proof -
  let ?a = "take (B * (length m div B)) m"
  have m: "m = ?a @ rest_of B m" by (simp add: rest_of_def)
  have "length ?a = B * (length m div B)" by (simp add: min_absorb2)
  then have d: "B dvd length ?a" by simp
  have "blocks B (?a @ rest_of B m) = blocks B ?a @ blocks B (rest_of B m)"
    using assms d by (rule blocks_append_dvd)
  also have "blocks B (rest_of B m) = []" using assms by (simp add: block_simps)
  finally show ?thesis using m d by (intro that [of ?a]) simp_all
qed

lemma blocks_append:
  assumes "0 < B"
  shows "blocks B (m @ x) = blocks B m @ blocks B (rest_of B m @ x)"
    and "rest_of B (m @ x) = rest_of B (rest_of B m @ x)"
proof -
  obtain a where m: "m = a @ rest_of B m" and d: "B dvd length a" and b: "blocks B a = blocks B m"
    using assms by (rule split_rest)
  show "blocks B (m @ x) = blocks B m @ blocks B (rest_of B m @ x)"
    by (subst m) (simp add: blocks_append_dvd [OF assms d] b)
  show "rest_of B (m @ x) = rest_of B (rest_of B m @ x)"
    by (subst m) (simp add: rest_of_append_dvd [OF assms d])
qed

section \<open>The frame is correct\<close>

text \<open>The number of zeros behind the marker byte, when it needs a block of its own and when not.\<close>

lemma pad_zeros:
  assumes "r < B" "t < B" "0 < t"
  shows "t \<le> r \<Longrightarrow> (B + t - 1 - r) mod B = B - Suc r + t"
    and "r < t \<Longrightarrow> (B + t - 1 - r) mod B = t - Suc r"
proof -
  assume "t \<le> r"
  then have "B + t - 1 - r = B - Suc r + t" "B - Suc r + t < B" using assms by linarith+
  then show "(B + t - 1 - r) mod B = B - Suc r + t" by (metis mod_less)
next
  assume "r < t"
  then have "B + t - 1 - r = B + (t - Suc r)" "t - Suc r < B" using assms by linarith+
  then show "(B + t - 1 - r) mod B = t - Suc r" by (metis mod_add_self1 mod_less)
qed

locale md_frame =
  fixes B t z :: nat and enc :: "u64 \<Rightarrow> byte list"
    and blk :: "'w list \<Rightarrow> byte list \<Rightarrow> 'w list" and h0 :: "'w list"
  assumes t_pos: "0 < t" and t_le_z: "t \<le> z" and B_eq: "B = z + 8"
    and B_dvd: "B dvd 2 ^ 64" and length_enc: "length (enc l) = 8"
begin

text \<open>
  What a context that absorbed the message \<open>m\<close> holds: its length modulo the width of the
  counter, the hash of its full blocks, and its unfinished block at the start of the buffer.
\<close>

definition absorbed :: "'w md_ctx \<Rightarrow> byte list \<Rightarrow> bool" where
  "absorbed s m \<longleftrightarrow>
     md_len s = of_nat (length m) \<and> length (md_buf s) = B \<and>
     md_h s = foldl blk h0 (blocks B m) \<and> take (length m mod B) (md_buf s) = rest_of B m"

lemma B_pos: "0 < B"
  using B_eq by simp

lemma t_less: "t < B"
  using B_eq t_le_z by simp

lemma len_mod: "absorbed s m \<Longrightarrow> unat (md_len s) mod B = length m mod B"
  using B_dvd by (simp add: absorbed_def unat_of_nat mod_mod_cancel)

lemma absorbed_init:
  "length (md_buf s) = B \<Longrightarrow> absorbed (s\<lparr>md_len := 0, md_h := h0\<rparr>) []"
  using B_pos by (simp add: absorbed_def block_simps)

lemma update_absorbed:
  assumes a: "absorbed s m"
  shows "absorbed (md_update B blk s x) (m @ x)"
proof -
  let ?r = "length m mod B" and ?b = "md_buf s"
  note len = len_mod [OF a]
  from a have s: "md_len s = of_nat (length m)" "length ?b = B" "md_h s = foldl blk h0 (blocks B m)"
    and tk: "take ?r ?b = rest_of B m" by (auto simp: absorbed_def)
  have r: "?r < B" using B_pos by simp
  note app = blocks_append [OF B_pos, of m x]
  have mod_add: "(length m + length x) mod B = (?r + length x) mod B" by (simp add: mod_add_left_eq)
  consider "?r \<noteq> 0" "length x < B - ?r" | "?r \<noteq> 0" "B - ?r \<le> length x" | "?r = 0" by linarith
  then show ?thesis
  proof cases
    case 1
    have l: "length (rest_of B m @ x) < B" using 1 by (simp add: block_simps)
    then have "(length m + length x) mod B = ?r + length x" using mod_add 1 by simp
    moreover have "take (?r + length x) (buf_write ?b ?r x) = rest_of B m @ x"
      using 1 s(2) tk by simp
    moreover have "md_update B blk s x =
        s\<lparr>md_len := md_len s + of_nat (length x), md_buf := buf_write ?b ?r x\<rparr>"
      using 1 by (simp add: md_update_def len Let_def)
    ultimately show ?thesis
      using 1 s l by (simp add: absorbed_def app block_simps)
  next
    case 2
    let ?x1 = "take (B - ?r) x" and ?x2 = "drop (B - ?r) x"
    let ?b' = "buf_write ?b ?r ?x1"
    have b': "?b' = rest_of B m @ ?x1" using 2 s(2) tk r by (simp add: buf_write_def)
    have lb': "length ?b' = B" using 2 s(2) r by simp
    have split: "rest_of B m @ x = ?b' @ ?x2" unfolding b' by simp
    have bx: "blocks B (m @ x) = blocks B m @ ?b' # blocks B ?x2"
      and rx: "rest_of B (m @ x) = rest_of B ?x2"
      unfolding app split using lb' B_pos by (simp_all add: block_simps)
    moreover have "(length m + length x) mod B = length ?x2 mod B"
      using arg_cong [OF rx, of length] by (simp add: length_rest_of)
    moreover have "length ?x2 mod B \<le> B" using B_pos by (simp add: less_imp_le)
    moreover have "md_update B blk s x =
        s\<lparr>md_len := md_len s + of_nat (length x),
          md_h := foldl blk (blk (md_h s) ?b') (blocks B ?x2), md_buf := buf_write ?b' 0 (rest_of B ?x2)\<rparr>"
      using 2 B_pos by (simp add: md_update_def len Let_def md_loop_blocks)
    ultimately show ?thesis
      using s lb' by (simp add: absorbed_def buf_write_def [of ?b' 0] length_rest_of)
  next
    case 3
    then have "rest_of B m = []" using length_rest_of [of B m] by simp
    with app have bl: "blocks B (m @ x) = blocks B m @ blocks B x" "rest_of B (m @ x) = rest_of B x"
      by simp_all
    moreover have "(length m + length x) mod B = length x mod B" using mod_add 3 by simp
    moreover have "length x mod B \<le> B" using B_pos by (simp add: less_imp_le)
    moreover have "md_update B blk s x =
        s\<lparr>md_len := md_len s + of_nat (length x),
          md_h := foldl blk (md_h s) (blocks B x), md_buf := buf_write ?b 0 (rest_of B x)\<rparr>"
      using 3 B_pos by (simp add: md_update_def len Let_def md_loop_blocks)
    ultimately show ?thesis
      using s by (simp add: absorbed_def buf_write_def [of ?b 0] length_rest_of)
  qed
qed

lemma foldl_update_absorbed:
  "absorbed s m \<Longrightarrow> absorbed (foldl (md_update B blk) s xs) (m @ concat xs)"
proof (induction xs arbitrary: s m)
  case (Cons x xs)
  from Cons.IH [OF update_absorbed [OF Cons.prems, of x]] show ?case by simp
qed simp

lemma pad_long:
  assumes "t \<le> length m mod B"
  shows "blocks B (padded B t z enc m) =
    blocks B m @ [rest_of B m @ 0x80 # replicate (B - Suc (length m mod B)) 0,
      replicate z 0 @ enc (of_nat (8 * length m))]"
proof -
  let ?r = "length m mod B" and ?e = "enc (of_nat (8 * length m))"
  let ?b1 = "rest_of B m @ 0x80 # replicate (B - Suc ?r) 0" and ?b2 = "replicate z 0 @ ?e"
  have r: "?r < B" using B_pos by simp
  have "(B + t - 1 - ?r) mod B = B - Suc ?r + t" using r t_less t_pos assms by (rule pad_zeros(1))
  then have "padded B t z enc m = m @ (0x80 # replicate (B - Suc ?r) 0) @ ?b2"
    using t_le_z by (simp add: padded_def replicate_add [symmetric])
  then have "blocks B (padded B t z enc m) = blocks B m @ blocks B (?b1 @ ?b2)"
    using blocks_append(1) [OF B_pos, of m] by simp
  moreover have "length ?b1 = B" using r by (simp add: length_rest_of)
  moreover have "length ?b2 = B" using B_eq length_enc by simp
  ultimately show ?thesis using B_pos by (simp only: blocks_one blocks_exact)
qed

lemma pad_short:
  assumes "length m mod B < t"
  shows "blocks B (padded B t z enc m) =
    blocks B m @ [rest_of B m @ 0x80 # replicate (z - Suc (length m mod B)) 0
      @ enc (of_nat (8 * length m))]"
proof -
  let ?r = "length m mod B" and ?e = "enc (of_nat (8 * length m))"
  let ?b = "rest_of B m @ 0x80 # replicate (z - Suc ?r) 0 @ ?e"
  have r: "?r < B" using B_pos by simp
  have "(B + t - 1 - ?r) mod B = t - Suc ?r" using r t_less t_pos assms by (rule pad_zeros(2))
  then have "padded B t z enc m = m @ 0x80 # replicate (z - Suc ?r) 0 @ ?e"
    using t_le_z assms by (simp add: padded_def replicate_add [symmetric])
  then have "blocks B (padded B t z enc m) = blocks B m @ blocks B ?b"
    using blocks_append(1) [OF B_pos, of m] by simp
  moreover have "length ?b = ?r + Suc (z - Suc ?r + 8)" using length_enc by (simp add: length_rest_of)
  moreover have "\<dots> = B" using assms t_le_z B_eq by linarith
  ultimately show ?thesis using B_pos by (simp only: blocks_exact)
qed

lemma buf_tail:
  assumes "length b = B"
  shows "buf_write b z (enc l) = take z b @ enc l"
  using assms B_eq length_enc by (simp add: buf_write_def)

lemma pad_absorbed:
  assumes a: "absorbed s m"
  shows "md_h (md_pad B t z enc blk s) = foldl blk h0 (blocks B (padded B t z enc m))"
proof -
  let ?r = "length m mod B" and ?b = "md_buf s"
  have r: "?r < B" using B_pos by simp
  from a have s: "length ?b = B" "md_h s = foldl blk h0 (blocks B m)"
    and tk: "take ?r ?b = rest_of B m" and l: "md_len s * 8 = of_nat (8 * length m)"
    by (auto simp: absorbed_def)
  let ?e = "enc (md_len s * 8)"
  have z: "z \<le> B" using B_eq by simp
  show ?thesis
  proof (cases "t \<le> ?r")
    case True
    let ?b1 = "buf_write (buf_write ?b ?r [0x80]) (Suc ?r) (replicate (B - Suc ?r) 0)"
    have "?b1 = rest_of B m @ 0x80 # replicate (B - Suc ?r) 0"
      using r s(1) tk by (simp add: buf_write_def length_rest_of)
    moreover have "buf_write (buf_write ?b1 0 (replicate z 0)) z ?e = replicate z 0 @ ?e"
      using r s(1) z by (subst buf_tail) (simp_all add: buf_write_def [of _ 0])
    ultimately show ?thesis
      using True s pad_long [OF True]
      by (simp add: md_pad_def len_mod [OF a] Let_def l del: of_nat_mult)
  next
    case False
    let ?b1 = "buf_write (buf_write ?b ?r [0x80]) (Suc ?r) (replicate (z - Suc ?r) 0)"
    obtain k where k: "z = Suc (?r + k)" using False t_le_z less_iff_Suc_add [of ?r z] by auto
    have "take z ?b1 = rest_of B m @ 0x80 # replicate (z - Suc ?r) 0"
      using r s(1) tk z unfolding k by (simp add: buf_write_def length_rest_of)
    moreover have "length ?b1 = B" using r s(1) z False t_le_z by simp
    ultimately have "buf_write ?b1 z ?e = rest_of B m @ 0x80 # replicate (z - Suc ?r) 0 @ ?e"
      by (simp add: buf_tail)
    then show ?thesis
      using False s pad_short [of m]
      by (simp add: md_pad_def len_mod [OF a] Let_def l del: of_nat_mult)
  qed
qed

lemma update_length:
  "length (md_buf s) = B \<Longrightarrow>
     length (md_buf (foldl (md_update B blk) (s\<lparr>md_len := 0, md_h := h0\<rparr>) xs)) = B"
  using foldl_update_absorbed [OF absorbed_init] by (simp add: absorbed_def)

lemma pad_length:
  assumes "length (md_buf s) = B"
  shows "length (md_buf (md_pad B t z enc blk s)) = B"
proof -
  define r where "r = unat (md_len s) mod B"
  have r: "r < B" using B_pos by (simp add: r_def)
  have b: "length (buf_write (md_buf s) r [0x80]) = B" using r assms by simp
  have tail: "length (buf_write b k (replicate (z - k) 0)) = B" if "length b = B" "k \<le> z" for b k
    using that B_eq by simp
  have "length (buf_write b z (enc l)) = B" if "length b = B" for b l
    using that B_eq length_enc by simp
  then show ?thesis
    using r b tail tail [of _ 0] t_le_z unfolding md_pad_def Let_def r_def [symmetric] by (simp add: Suc_le_eq)
qed

text \<open>
  The result: whatever the pieces in which the message arrives, the hash is that of the padded
  message.
\<close>

lemma stream_hash:
  assumes "length (md_buf s) = B"
  shows "md_h (md_pad B t z enc blk
      (foldl (md_update B blk) (s\<lparr>md_len := 0, md_h := h0\<rparr>) chunks)) =
    foldl blk h0 (blocks B (padded B t z enc (concat chunks)))"
  using pad_absorbed [OF foldl_update_absorbed [OF absorbed_init [OF assms], of chunks]] by simp

end

text \<open>The padded message is a whole number of blocks and determines the message.\<close>

lemma length_padded:
  assumes "0 < t" "t \<le> z" "B = z + 8" "length (enc (of_nat (8 * length m))) = 8"
  shows "B dvd length (padded B t z enc m)"
proof -
  define r q where "r = length m mod B" and "q = length m div B"
  have r: "r < B" "t < B" using assms by (simp_all add: r_def)
  have m: "length m = B * q + r" by (simp add: r_def q_def)
  note zeros = pad_zeros [OF r assms(1)]
  have len: "length (padded B t z enc m) = B * q + r + 1 + (B + t - 1 - r) mod B + (z - t) + 8"
    using assms(4) by (simp add: padded_def flip: r_def m del: of_nat_mult)
  show ?thesis
  proof (cases "t \<le> r")
    case True
    have "length (padded B t z enc m) = B * q + B + B"
      unfolding len zeros(1) [OF True] using assms(2,3) r by linarith
    then show ?thesis by simp
  next
    case False
    then have "r < t" by simp
    have "length (padded B t z enc m) = B * q + B"
      unfolding len zeros(2) [OF \<open>r < t\<close>] using \<open>r < t\<close> assms(2,3) by linarith
    then show ?thesis by simp
  qed
qed

end
