(* ===== verification/Digest_Hash.thy ===== *)
theory Digest_Hash
  imports Digest_Stream
begin

text \<open>
  The message digests of \<open>shared/libutil\<close>: MD5 (\<open>md5.c\<close>), SHA-1 (\<open>sha1.c\<close>), SHA-256 and SHA-224
  (\<open>sha256.c\<close>, \<open>sha224.c\<close>), and SHA-512 with its truncated variants (\<open>sha512.c\<close>, \<open>sha384.c\<close>,
  \<open>sha512-224.c\<close>, \<open>sha512-256.c\<close>). The constants and the compression functions are those of the
  files; the update and pad functions are instances of the frame of theory \<open>Digest_Stream\<close>.

  The reference definitions follow RFC 1321, RFC 3174 and FIPS 180-4: one step at a time, with
  rotations, the standards' logical functions and the recursive message schedule. The compression
  functions are proved equal to them, and every digest is the reference hash of the padded message
  however the message was cut into pieces.
\<close>

section \<open>Word operations\<close>

definition rol :: "'a::len word \<Rightarrow> nat \<Rightarrow> 'a word" where
  "rol n k = push_bit k n OR drop_bit (LENGTH('a) - k) n"

definition ror :: "'a::len word \<Rightarrow> nat \<Rightarrow> 'a word" where
  "ror n k = drop_bit k n OR push_bit (LENGTH('a) - k) n"

definition le32 :: "u32 \<Rightarrow> byte list" where
  "le32 w = [ucast w, ucast (drop_bit 8 w), ucast (drop_bit 16 w), ucast (drop_bit 24 w)]"

definition be32 :: "u32 \<Rightarrow> byte list" where
  "be32 w = [ucast (drop_bit 24 w), ucast (drop_bit 16 w), ucast (drop_bit 8 w), ucast w]"

section \<open>MD5\<close>

definition md5_F :: "u32 \<Rightarrow> u32 \<Rightarrow> u32 \<Rightarrow> u32" where
  "md5_F x y z = z XOR (x AND (y XOR z))"

definition md5_G :: "u32 \<Rightarrow> u32 \<Rightarrow> u32 \<Rightarrow> u32" where
  "md5_G x y z = y XOR (z AND (y XOR x))"

definition md5_H :: "u32 \<Rightarrow> u32 \<Rightarrow> u32 \<Rightarrow> u32" where
  "md5_H x y z = x XOR y XOR z"

definition md5_I :: "u32 \<Rightarrow> u32 \<Rightarrow> u32 \<Rightarrow> u32" where
  "md5_I x y z = y XOR (x OR NOT z)"

definition md5_tab :: "u32 list" where
  "md5_tab = concat [
     [0xd76aa478, 0xe8c7b756, 0x242070db, 0xc1bdceee, 0xf57c0faf, 0x4787c62a, 0xa8304613, 0xfd469501],
     [0x698098d8, 0x8b44f7af, 0xffff5bb1, 0x895cd7be, 0x6b901122, 0xfd987193, 0xa679438e, 0x49b40821],
     [0xf61e2562, 0xc040b340, 0x265e5a51, 0xe9b6c7aa, 0xd62f105d, 0x02441453, 0xd8a1e681, 0xe7d3fbc8],
     [0x21e1cde6, 0xc33707d6, 0xf4d50d87, 0x455a14ed, 0xa9e3e905, 0xfcefa3f8, 0x676f02d9, 0x8d2a4c8a],
     [0xfffa3942, 0x8771f681, 0x6d9d6122, 0xfde5380c, 0xa4beea44, 0x4bdecfa9, 0xf6bb4b60, 0xbebfbc70],
     [0x289b7ec6, 0xeaa127fa, 0xd4ef3085, 0x04881d05, 0xd9d4d039, 0xe6db99e5, 0x1fa27cf8, 0xc4ac5665],
     [0xf4292244, 0x432aff97, 0xab9423a7, 0xfc93a039, 0x655b59c3, 0x8f0ccc92, 0xffeff47d, 0x85845dd1],
     [0x6fa87e4f, 0xfe2ce6e0, 0xa3014314, 0x4e0811a1, 0xf7537e82, 0xbd3af235, 0x2ad7d2bb, 0xeb86d391]]"

text \<open>The macros \<open>FF\<close>, \<open>GG\<close>, \<open>HH\<close>, \<open>II\<close>, with the logical function as an argument.\<close>

definition md5_op ::
  "(u32 \<Rightarrow> u32 \<Rightarrow> u32 \<Rightarrow> u32) \<Rightarrow> u32 \<Rightarrow> u32 \<Rightarrow> u32 \<Rightarrow> u32 \<Rightarrow> u32 \<Rightarrow> nat \<Rightarrow> u32 \<Rightarrow> u32" where
  "md5_op f a b c d w s t = (let a = a + (f b c d + w + t) in rol a s + b)"

type_synonym md5_state = "u32 \<times> u32 \<times> u32 \<times> u32"

text \<open>One pass through the body of one of the four loops, which advances \<open>i\<close> by four.\<close>

fun md5_body ::
  "(u32 \<Rightarrow> u32 \<Rightarrow> u32 \<Rightarrow> u32) \<Rightarrow> (nat \<Rightarrow> nat) \<Rightarrow> nat \<Rightarrow> nat \<Rightarrow> nat \<Rightarrow> nat \<Rightarrow> u32 list \<Rightarrow>
     md5_state \<Rightarrow> nat \<Rightarrow> md5_state" where
  "md5_body f ix s1 s2 s3 s4 W (a, b, c, d) i =
     (let a = md5_op f a b c d (W ! ix i) s1 (md5_tab ! i);
          d = md5_op f d a b c (W ! ix (i + 1)) s2 (md5_tab ! (i + 1));
          c = md5_op f c d a b (W ! ix (i + 2)) s3 (md5_tab ! (i + 2));
          b = md5_op f b c d a (W ! ix (i + 3)) s4 (md5_tab ! (i + 3))
      in (a, b, c, d))"

definition md5_W :: "byte list \<Rightarrow> u32 list" where
  "md5_W buf = map (\<lambda>i. ucast (buf ! (4 * i)) OR push_bit 8 (ucast (buf ! (4 * i + 1)))
     OR push_bit 16 (ucast (buf ! (4 * i + 2))) OR push_bit 24 (ucast (buf ! (4 * i + 3)))) [0..<16]"

definition md5_processblock :: "u32 list \<Rightarrow> byte list \<Rightarrow> u32 list" where
  "md5_processblock h buf =
     (let W = md5_W buf;
          st = (h ! 0, h ! 1, h ! 2, h ! 3);
          st = foldl (md5_body md5_F (\<lambda>i. i) 7 12 17 22 W) st [0, 4, 8, 12];
          st = foldl (md5_body md5_G (\<lambda>i. (5 * i + 1) mod 16) 5 9 14 20 W) st [16, 20, 24, 28];
          st = foldl (md5_body md5_H (\<lambda>i. (3 * i + 5) mod 16) 4 11 16 23 W) st [32, 36, 40, 44];
          (a, b, c, d) = foldl (md5_body md5_I (\<lambda>i. 7 * i mod 16) 6 10 15 21 W) st [48, 52, 56, 60]
      in [h ! 0 + a, h ! 1 + b, h ! 2 + c, h ! 3 + d])"

definition md5_pad :: "32 word md_ctx \<Rightarrow> 32 word md_ctx" where
  "md5_pad = md_pad 64 56 56 le64 md5_processblock"

definition md5_init :: "32 word md_ctx \<Rightarrow> 32 word md_ctx" where
  "md5_init s = s\<lparr>md_len := 0, md_h := [0x67452301, 0xefcdab89, 0x98badcfe, 0x10325476]\<rparr>"

definition md5_sum :: "32 word md_ctx \<Rightarrow> 32 word md_ctx \<times> byte list" where
  "md5_sum s = (let s = md5_pad s in (s, concat (map (\<lambda>i. le32 (md_h s ! i)) [0..<4])))"

definition md5_update :: "32 word md_ctx \<Rightarrow> byte list \<Rightarrow> 32 word md_ctx" where
  "md5_update = md_update 64 md5_processblock"

section \<open>SHA-1\<close>

definition sha1_F0 :: "u32 \<Rightarrow> u32 \<Rightarrow> u32 \<Rightarrow> u32" where
  "sha1_F0 b c d = d XOR (b AND (c XOR d))"

definition sha1_F1 :: "u32 \<Rightarrow> u32 \<Rightarrow> u32 \<Rightarrow> u32" where
  "sha1_F1 b c d = b XOR c XOR d"

definition sha1_F2 :: "u32 \<Rightarrow> u32 \<Rightarrow> u32 \<Rightarrow> u32" where
  "sha1_F2 b c d = (b AND c) OR (d AND (b OR c))"

definition sha1_F3 :: "u32 \<Rightarrow> u32 \<Rightarrow> u32 \<Rightarrow> u32" where
  "sha1_F3 b c d = b XOR c XOR d"

type_synonym sha1_state = "u32 \<times> u32 \<times> u32 \<times> u32 \<times> u32"

text \<open>The value the macros \<open>G0\<close> to \<open>G3\<close> add to \<open>e\<close>.\<close>

definition sha1_G :: "(u32 \<Rightarrow> u32 \<Rightarrow> u32 \<Rightarrow> u32) \<Rightarrow> u32 \<Rightarrow> u32 \<Rightarrow> u32 \<Rightarrow> u32 \<Rightarrow> u32 \<Rightarrow> u32 \<Rightarrow> u32" where
  "sha1_G f k a b c d w = rol a 5 + f b c d + w + k"

text \<open>One pass through the body of one of the four loops, which advances \<open>i\<close> by five.\<close>

fun sha1_body ::
  "(u32 \<Rightarrow> u32 \<Rightarrow> u32 \<Rightarrow> u32) \<Rightarrow> u32 \<Rightarrow> u32 list \<Rightarrow> sha1_state \<Rightarrow> nat \<Rightarrow> sha1_state" where
  "sha1_body f k W (a, b, c, d, e) i =
     (let e = e + sha1_G f k a b c d (W ! i); b = rol b 30;
          d = d + sha1_G f k e a b c (W ! (i + 1)); a = rol a 30;
          c = c + sha1_G f k d e a b (W ! (i + 2)); e = rol e 30;
          b = b + sha1_G f k c d e a (W ! (i + 3)); d = rol d 30;
          a = a + sha1_G f k b c d e (W ! (i + 4)); c = rol c 30
      in (a, b, c, d, e))"

definition be_words :: "byte list \<Rightarrow> u32 list" where
  "be_words buf = map (\<lambda>i. push_bit 24 (ucast (buf ! (4 * i))) OR push_bit 16 (ucast (buf ! (4 * i + 1)))
     OR push_bit 8 (ucast (buf ! (4 * i + 2))) OR ucast (buf ! (4 * i + 3))) [0..<16]"

definition sha1_W :: "byte list \<Rightarrow> u32 list" where
  "sha1_W buf = foldl (\<lambda>W i. W @ [rol (W ! (i - 3) XOR W ! (i - 8) XOR W ! (i - 14) XOR W ! (i - 16)) 1])
     (be_words buf) [16..<80]"

definition sha1_processblock :: "u32 list \<Rightarrow> byte list \<Rightarrow> u32 list" where
  "sha1_processblock h buf =
     (let W = sha1_W buf;
          st = (h ! 0, h ! 1, h ! 2, h ! 3, h ! 4);
          st = foldl (sha1_body sha1_F0 0x5A827999 W) st [0, 5, 10, 15];
          st = foldl (sha1_body sha1_F1 0x6ED9EBA1 W) st [20, 25, 30, 35];
          st = foldl (sha1_body sha1_F2 0x8F1BBCDC W) st [40, 45, 50, 55];
          (a, b, c, d, e) = foldl (sha1_body sha1_F3 0xCA62C1D6 W) st [60, 65, 70, 75]
      in [h ! 0 + a, h ! 1 + b, h ! 2 + c, h ! 3 + d, h ! 4 + e])"

definition sha1_pad :: "32 word md_ctx \<Rightarrow> 32 word md_ctx" where
  "sha1_pad = md_pad 64 56 56 be64 sha1_processblock"

definition sha1_init :: "32 word md_ctx \<Rightarrow> 32 word md_ctx" where
  "sha1_init s = s\<lparr>md_len := 0,
     md_h := [0x67452301, 0xEFCDAB89, 0x98BADCFE, 0x10325476, 0xC3D2E1F0]\<rparr>"

definition sha1_sum :: "32 word md_ctx \<Rightarrow> 32 word md_ctx \<times> byte list" where
  "sha1_sum s = (let s = sha1_pad s in (s, concat (map (\<lambda>i. be32 (md_h s ! i)) [0..<5])))"

definition sha1_update :: "32 word md_ctx \<Rightarrow> byte list \<Rightarrow> 32 word md_ctx" where
  "sha1_update = md_update 64 sha1_processblock"

section \<open>SHA-256 and SHA-224\<close>

definition Ch :: "'a::len word \<Rightarrow> 'a word \<Rightarrow> 'a word \<Rightarrow> 'a word" where
  "Ch x y z = z XOR (x AND (y XOR z))"

definition Maj :: "'a::len word \<Rightarrow> 'a word \<Rightarrow> 'a word \<Rightarrow> 'a word" where
  "Maj x y z = (x AND y) OR (z AND (x OR y))"

definition sha256_S0 :: "u32 \<Rightarrow> u32" where "sha256_S0 x = ror x 2 XOR ror x 13 XOR ror x 22"

definition sha256_S1 :: "u32 \<Rightarrow> u32" where "sha256_S1 x = ror x 6 XOR ror x 11 XOR ror x 25"

definition sha256_R0 :: "u32 \<Rightarrow> u32" where "sha256_R0 x = ror x 7 XOR ror x 18 XOR drop_bit 3 x"

definition sha256_R1 :: "u32 \<Rightarrow> u32" where "sha256_R1 x = ror x 17 XOR ror x 19 XOR drop_bit 10 x"

definition sha256_K :: "u32 list" where
  "sha256_K = concat [
     [0x428a2f98, 0x71374491, 0xb5c0fbcf, 0xe9b5dba5, 0x3956c25b, 0x59f111f1, 0x923f82a4, 0xab1c5ed5],
     [0xd807aa98, 0x12835b01, 0x243185be, 0x550c7dc3, 0x72be5d74, 0x80deb1fe, 0x9bdc06a7, 0xc19bf174],
     [0xe49b69c1, 0xefbe4786, 0x0fc19dc6, 0x240ca1cc, 0x2de92c6f, 0x4a7484aa, 0x5cb0a9dc, 0x76f988da],
     [0x983e5152, 0xa831c66d, 0xb00327c8, 0xbf597fc7, 0xc6e00bf3, 0xd5a79147, 0x06ca6351, 0x14292967],
     [0x27b70a85, 0x2e1b2138, 0x4d2c6dfc, 0x53380d13, 0x650a7354, 0x766a0abb, 0x81c2c92e, 0x92722c85],
     [0xa2bfe8a1, 0xa81a664b, 0xc24b8b70, 0xc76c51a3, 0xd192e819, 0xd6990624, 0xf40e3585, 0x106aa070],
     [0x19a4c116, 0x1e376c08, 0x2748774c, 0x34b0bcb5, 0x391c0cb3, 0x4ed8aa4a, 0x5b9cca4f, 0x682e6ff3],
     [0x748f82ee, 0x78a5636f, 0x84c87814, 0x8cc70208, 0x90befffa, 0xa4506ceb, 0xbef9a3f7, 0xc67178f2]]"

type_synonym 'a sha2_state = "'a \<times> 'a \<times> 'a \<times> 'a \<times> 'a \<times> 'a \<times> 'a \<times> 'a"

text \<open>The body of the round loop, the same in \<open>sha256.c\<close> and \<open>sha512.c\<close>.\<close>

fun sha2_round ::
  "('a::len word \<Rightarrow> 'a word) \<Rightarrow> ('a word \<Rightarrow> 'a word) \<Rightarrow> 'a word list \<Rightarrow> 'a word list \<Rightarrow>
     'a word sha2_state \<Rightarrow> nat \<Rightarrow> 'a word sha2_state" where
  "sha2_round S0 S1 K W (a, b, c, d, e, f, g, h) i =
     (let t1 = h + S1 e + Ch e f g + K ! i + W ! i;
          t2 = S0 a + Maj a b c
      in (t1 + t2, a, b, c, d + t1, e, f, g))"

definition sha256_W :: "byte list \<Rightarrow> u32 list" where
  "sha256_W buf = foldl (\<lambda>W i. W @
       [sha256_R1 (W ! (i - 2)) + W ! (i - 7) + sha256_R0 (W ! (i - 15)) + W ! (i - 16)])
     (be_words buf) [16..<64]"

definition sha256_processblock :: "u32 list \<Rightarrow> byte list \<Rightarrow> u32 list" where
  "sha256_processblock hs buf =
     (let W = sha256_W buf;
          (a, b, c, d, e, f, g, h) =
            foldl (sha2_round sha256_S0 sha256_S1 sha256_K W)
              (hs ! 0, hs ! 1, hs ! 2, hs ! 3, hs ! 4, hs ! 5, hs ! 6, hs ! 7) [0..<64]
      in [hs ! 0 + a, hs ! 1 + b, hs ! 2 + c, hs ! 3 + d,
          hs ! 4 + e, hs ! 5 + f, hs ! 6 + g, hs ! 7 + h])"

definition sha256_pad :: "32 word md_ctx \<Rightarrow> 32 word md_ctx" where
  "sha256_pad = md_pad 64 56 56 be64 sha256_processblock"

definition sha256_init :: "32 word md_ctx \<Rightarrow> 32 word md_ctx" where
  "sha256_init s = s\<lparr>md_len := 0,
     md_h := [0x6a09e667, 0xbb67ae85, 0x3c6ef372, 0xa54ff53a,
               0x510e527f, 0x9b05688c, 0x1f83d9ab, 0x5be0cd19]\<rparr>"

definition sha256_sum_n :: "32 word md_ctx \<Rightarrow> nat \<Rightarrow> 32 word md_ctx \<times> byte list" where
  "sha256_sum_n s n = (let s = sha256_pad s in (s, concat (map (\<lambda>i. be32 (md_h s ! i)) [0..<n])))"

definition sha256_sum :: "32 word md_ctx \<Rightarrow> 32 word md_ctx \<times> byte list" where
  "sha256_sum s = sha256_sum_n s 8"

definition sha256_update :: "32 word md_ctx \<Rightarrow> byte list \<Rightarrow> 32 word md_ctx" where
  "sha256_update = md_update 64 sha256_processblock"

definition sha224_init :: "32 word md_ctx \<Rightarrow> 32 word md_ctx" where
  "sha224_init s = s\<lparr>md_len := 0,
     md_h := [0xc1059ed8, 0x367cd507, 0x3070dd17, 0xf70e5939,
               0xffc00b31, 0x68581511, 0x64f98fa7, 0xbefa4fa4]\<rparr>"

definition sha224_sum :: "32 word md_ctx \<Rightarrow> 32 word md_ctx \<times> byte list" where
  "sha224_sum s = sha256_sum_n s 7"

section \<open>SHA-512, SHA-384, SHA-512/224 and SHA-512/256\<close>

definition sha512_S0 :: "u64 \<Rightarrow> u64" where "sha512_S0 x = ror x 28 XOR ror x 34 XOR ror x 39"

definition sha512_S1 :: "u64 \<Rightarrow> u64" where "sha512_S1 x = ror x 14 XOR ror x 18 XOR ror x 41"

definition sha512_R0 :: "u64 \<Rightarrow> u64" where "sha512_R0 x = ror x 1 XOR ror x 8 XOR drop_bit 7 x"

definition sha512_R1 :: "u64 \<Rightarrow> u64" where "sha512_R1 x = ror x 19 XOR ror x 61 XOR drop_bit 6 x"

definition sha512_K :: "u64 list" where
  "sha512_K = concat [
     [0x428a2f98d728ae22, 0x7137449123ef65cd, 0xb5c0fbcfec4d3b2f, 0xe9b5dba58189dbbc],
     [0x3956c25bf348b538, 0x59f111f1b605d019, 0x923f82a4af194f9b, 0xab1c5ed5da6d8118],
     [0xd807aa98a3030242, 0x12835b0145706fbe, 0x243185be4ee4b28c, 0x550c7dc3d5ffb4e2],
     [0x72be5d74f27b896f, 0x80deb1fe3b1696b1, 0x9bdc06a725c71235, 0xc19bf174cf692694],
     [0xe49b69c19ef14ad2, 0xefbe4786384f25e3, 0x0fc19dc68b8cd5b5, 0x240ca1cc77ac9c65],
     [0x2de92c6f592b0275, 0x4a7484aa6ea6e483, 0x5cb0a9dcbd41fbd4, 0x76f988da831153b5],
     [0x983e5152ee66dfab, 0xa831c66d2db43210, 0xb00327c898fb213f, 0xbf597fc7beef0ee4],
     [0xc6e00bf33da88fc2, 0xd5a79147930aa725, 0x06ca6351e003826f, 0x142929670a0e6e70],
     [0x27b70a8546d22ffc, 0x2e1b21385c26c926, 0x4d2c6dfc5ac42aed, 0x53380d139d95b3df],
     [0x650a73548baf63de, 0x766a0abb3c77b2a8, 0x81c2c92e47edaee6, 0x92722c851482353b],
     [0xa2bfe8a14cf10364, 0xa81a664bbc423001, 0xc24b8b70d0f89791, 0xc76c51a30654be30],
     [0xd192e819d6ef5218, 0xd69906245565a910, 0xf40e35855771202a, 0x106aa07032bbd1b8],
     [0x19a4c116b8d2d0c8, 0x1e376c085141ab53, 0x2748774cdf8eeb99, 0x34b0bcb5e19b48a8],
     [0x391c0cb3c5c95a63, 0x4ed8aa4ae3418acb, 0x5b9cca4f7763e373, 0x682e6ff3d6b2b8a3],
     [0x748f82ee5defb2fc, 0x78a5636f43172f60, 0x84c87814a1f0ab72, 0x8cc702081a6439ec],
     [0x90befffa23631e28, 0xa4506cebde82bde9, 0xbef9a3f7b2c67915, 0xc67178f2e372532b],
     [0xca273eceea26619c, 0xd186b8c721c0c207, 0xeada7dd6cde0eb1e, 0xf57d4f7fee6ed178],
     [0x06f067aa72176fba, 0x0a637dc5a2c898a6, 0x113f9804bef90dae, 0x1b710b35131c471b],
     [0x28db77f523047d84, 0x32caab7b40c72493, 0x3c9ebe0a15c9bebc, 0x431d67c49c100d4c],
     [0x4cc5d4becb3e42b6, 0x597f299cfc657e2a, 0x5fcb6fab3ad6faec, 0x6c44198c4a475817]]"

definition be_words64 :: "byte list \<Rightarrow> u64 list" where
  "be_words64 buf = map (\<lambda>i. push_bit 56 (ucast (buf ! (8 * i))) OR push_bit 48 (ucast (buf ! (8 * i + 1)))
     OR push_bit 40 (ucast (buf ! (8 * i + 2))) OR push_bit 32 (ucast (buf ! (8 * i + 3)))
     OR push_bit 24 (ucast (buf ! (8 * i + 4))) OR push_bit 16 (ucast (buf ! (8 * i + 5)))
     OR push_bit 8 (ucast (buf ! (8 * i + 6))) OR ucast (buf ! (8 * i + 7))) [0..<16]"

definition sha512_W :: "byte list \<Rightarrow> u64 list" where
  "sha512_W buf = foldl (\<lambda>W i. W @
       [sha512_R1 (W ! (i - 2)) + W ! (i - 7) + sha512_R0 (W ! (i - 15)) + W ! (i - 16)])
     (be_words64 buf) [16..<80]"

definition sha512_processblock :: "u64 list \<Rightarrow> byte list \<Rightarrow> u64 list" where
  "sha512_processblock hs buf =
     (let W = sha512_W buf;
          (a, b, c, d, e, f, g, h) =
            foldl (sha2_round sha512_S0 sha512_S1 sha512_K W)
              (hs ! 0, hs ! 1, hs ! 2, hs ! 3, hs ! 4, hs ! 5, hs ! 6, hs ! 7) [0..<80]
      in [hs ! 0 + a, hs ! 1 + b, hs ! 2 + c, hs ! 3 + d,
          hs ! 4 + e, hs ! 5 + f, hs ! 6 + g, hs ! 7 + h])"

definition sha512_pad :: "64 word md_ctx \<Rightarrow> 64 word md_ctx" where
  "sha512_pad = md_pad 128 112 120 be64 sha512_processblock"

definition sha512_init :: "64 word md_ctx \<Rightarrow> 64 word md_ctx" where
  "sha512_init s = s\<lparr>md_len := 0,
     md_h := [0x6a09e667f3bcc908, 0xbb67ae8584caa73b, 0x3c6ef372fe94f82b, 0xa54ff53a5f1d36f1,
               0x510e527fade682d1, 0x9b05688c2b3e6c1f, 0x1f83d9abfb41bd6b, 0x5be0cd19137e2179]\<rparr>"

definition sha512_sum_n :: "64 word md_ctx \<Rightarrow> nat \<Rightarrow> 64 word md_ctx \<times> byte list" where
  "sha512_sum_n s n = (let s = sha512_pad s in (s, concat (map (\<lambda>i. be64 (md_h s ! i)) [0..<n])))"

definition sha512_sum :: "64 word md_ctx \<Rightarrow> 64 word md_ctx \<times> byte list" where
  "sha512_sum s = sha512_sum_n s 8"

definition sha512_update :: "64 word md_ctx \<Rightarrow> byte list \<Rightarrow> 64 word md_ctx" where
  "sha512_update = md_update 128 sha512_processblock"

definition sha384_init :: "64 word md_ctx \<Rightarrow> 64 word md_ctx" where
  "sha384_init s = s\<lparr>md_len := 0,
     md_h := [0xcbbb9d5dc1059ed8, 0x629a292a367cd507, 0x9159015a3070dd17, 0x152fecd8f70e5939,
               0x67332667ffc00b31, 0x8eb44a8768581511, 0xdb0c2e0d64f98fa7, 0x47b5481dbefa4fa4]\<rparr>"

definition sha384_sum :: "64 word md_ctx \<Rightarrow> 64 word md_ctx \<times> byte list" where
  "sha384_sum s = sha512_sum_n s 6"

definition sha512_224_init :: "64 word md_ctx \<Rightarrow> 64 word md_ctx" where
  "sha512_224_init s = s\<lparr>md_len := 0,
     md_h := [0x8c3d37c819544da2, 0x73e1996689dcd4d6, 0x1dfab7ae32ff9c82, 0x679dd514582f9fcf,
               0x0f6d2b697bd44da8, 0x77e36f7304c48942, 0x3f9d85a86a1d36c8, 0x1112e6ad91d692a1]\<rparr>"

definition sha512_224_sum :: "64 word md_ctx \<Rightarrow> 64 word md_ctx \<times> byte list" where
  "sha512_224_sum s = (let (s, buf) = sha512_sum_n s 4 in (s, take 28 buf))"

definition sha512_256_init :: "64 word md_ctx \<Rightarrow> 64 word md_ctx" where
  "sha512_256_init s = s\<lparr>md_len := 0,
     md_h := [0x22312194fc2bf72c, 0x9f555fa3c84c64c2, 0x2393b86b6f53b151, 0x963877195940eabd,
               0x96283ee2a88effe3, 0xbe5e1e2553863992, 0x2b0199fc2c85b8aa, 0x0eb72ddc81c52ca2]\<rparr>"

definition sha512_256_sum :: "64 word md_ctx \<Rightarrow> 64 word md_ctx \<times> byte list" where
  "sha512_256_sum s = sha512_sum_n s 4"

section \<open>The standards\<close>

text \<open>RFC 1321: one step; \<open>[abcd k s i]\<close> there, with the roles rotated after every step.\<close>

fun rfc1321_f :: "nat \<Rightarrow> u32 \<Rightarrow> u32 \<Rightarrow> u32 \<Rightarrow> u32" where
  "rfc1321_f i x y z =
     (if i < 16 then (x AND y) OR (NOT x AND z)
      else if i < 32 then (x AND z) OR (y AND NOT z)
      else if i < 48 then x XOR y XOR z
      else y XOR (x OR NOT z))"

fun rfc1321_k :: "nat \<Rightarrow> nat" where
  "rfc1321_k i =
     (if i < 16 then i else if i < 32 then (1 + 5 * i) mod 16
      else if i < 48 then (5 + 3 * i) mod 16 else (7 * i) mod 16)"

definition rfc1321_s :: "nat list" where
  "rfc1321_s = concat (map (\<lambda>r. concat (replicate 4 r))
     [[7, 12, 17, 22], [5, 9, 14, 20], [4, 11, 16, 23], [6, 10, 15, 21]])"

fun rfc1321_step :: "u32 list \<Rightarrow> md5_state \<Rightarrow> nat \<Rightarrow> md5_state" where
  "rfc1321_step X (a, b, c, d) i =
     (d, b + word_rotl (rfc1321_s ! i) (a + rfc1321_f i b c d + X ! rfc1321_k i + md5_tab ! i), b, c)"

definition chunk_at :: "nat \<Rightarrow> nat \<Rightarrow> 'a list \<Rightarrow> 'a list" where
  "chunk_at w i xs = take w (drop (w * i) xs)"

definition rfc1321_compress :: "u32 list \<Rightarrow> byte list \<Rightarrow> u32 list" where
  "rfc1321_compress h blk =
     (let X = map (\<lambda>i. word_rcat (rev (chunk_at 4 i blk))) [0..<16];
          (a, b, c, d) = foldl (rfc1321_step X) (h ! 0, h ! 1, h ! 2, h ! 3) [0..<64]
      in [h ! 0 + a, h ! 1 + b, h ! 2 + c, h ! 3 + d])"

text \<open>RFC 3174, method 1.\<close>

fun rfc3174_f :: "nat \<Rightarrow> u32 \<Rightarrow> u32 \<Rightarrow> u32 \<Rightarrow> u32" where
  "rfc3174_f t B C D =
     (if t < 20 then (B AND C) OR (NOT B AND D)
      else if t < 40 then B XOR C XOR D
      else if t < 60 then (B AND C) OR (B AND D) OR (C AND D)
      else B XOR C XOR D)"

fun rfc3174_K :: "nat \<Rightarrow> u32" where
  "rfc3174_K t = (if t < 20 then 0x5A827999 else if t < 40 then 0x6ED9EBA1
     else if t < 60 then 0x8F1BBCDC else 0xCA62C1D6)"

fun rfc3174_W :: "(nat \<Rightarrow> u32) \<Rightarrow> nat \<Rightarrow> u32" where
  "rfc3174_W M t = (if t < 16 then M t else
     word_rotl 1 (rfc3174_W M (t - 3) XOR rfc3174_W M (t - 8) XOR rfc3174_W M (t - 14)
       XOR rfc3174_W M (t - 16)))"

fun rfc3174_step :: "(nat \<Rightarrow> u32) \<Rightarrow> sha1_state \<Rightarrow> nat \<Rightarrow> sha1_state" where
  "rfc3174_step W (A, B, C, D, E) t =
     (word_rotl 5 A + rfc3174_f t B C D + E + W t + rfc3174_K t, A, word_rotl 30 B, C, D)"

definition rfc3174_compress :: "u32 list \<Rightarrow> byte list \<Rightarrow> u32 list" where
  "rfc3174_compress h blk =
     (let W = rfc3174_W (\<lambda>i. word_rcat (chunk_at 4 i blk));
          (a, b, c, d, e) = foldl (rfc3174_step W) (h ! 0, h ! 1, h ! 2, h ! 3, h ! 4) [0..<80]
      in [h ! 0 + a, h ! 1 + b, h ! 2 + c, h ! 3 + d, h ! 4 + e])"

text \<open>
  FIPS 180-4, sections 4.1.2 and 6.2, and 4.1.3 and 6.4: the amounts of the rotations and shifts
  are arguments.
\<close>

definition fips_Ch :: "'a::len word \<Rightarrow> 'a word \<Rightarrow> 'a word \<Rightarrow> 'a word" where
  "fips_Ch x y z = (x AND y) XOR (NOT x AND z)"

definition fips_Maj :: "'a::len word \<Rightarrow> 'a word \<Rightarrow> 'a word \<Rightarrow> 'a word" where
  "fips_Maj x y z = (x AND y) XOR (x AND z) XOR (y AND z)"

fun fips_Sigma :: "nat \<times> nat \<times> nat \<Rightarrow> 'a::len word \<Rightarrow> 'a word" where
  "fips_Sigma (i, j, k) x = word_rotr i x XOR word_rotr j x XOR word_rotr k x"

fun fips_sigma :: "nat \<times> nat \<times> nat \<Rightarrow> 'a::len word \<Rightarrow> 'a word" where
  "fips_sigma (i, j, k) x = word_rotr i x XOR word_rotr j x XOR drop_bit k x"

fun fips_W :: "nat \<times> nat \<times> nat \<Rightarrow> nat \<times> nat \<times> nat \<Rightarrow> (nat \<Rightarrow> 'a::len word) \<Rightarrow> nat \<Rightarrow> 'a word" where
  "fips_W s0 s1 M t = (if t < 16 then M t else
     fips_sigma s1 (fips_W s0 s1 M (t - 2)) + fips_W s0 s1 M (t - 7)
       + fips_sigma s0 (fips_W s0 s1 M (t - 15)) + fips_W s0 s1 M (t - 16))"

declare rfc3174_W.simps [simp del] fips_W.simps [simp del]

fun fips_step :: "nat \<times> nat \<times> nat \<Rightarrow> nat \<times> nat \<times> nat \<Rightarrow> 'a::len word list \<Rightarrow> (nat \<Rightarrow> 'a word) \<Rightarrow>
     'a word sha2_state \<Rightarrow> nat \<Rightarrow> 'a word sha2_state" where
  "fips_step S0 S1 K W (a, b, c, d, e, f, g, h) t =
     (let T1 = h + fips_Sigma S1 e + fips_Ch e f g + K ! t + W t;
          T2 = fips_Sigma S0 a + fips_Maj a b c
      in (T1 + T2, a, b, c, d + T1, e, f, g))"

fun sha2_add :: "'a::len word list \<Rightarrow> 'a word sha2_state \<Rightarrow> 'a word list" where
  "sha2_add H (a, b, c, d, e, f, g, h) =
     [H ! 0 + a, H ! 1 + b, H ! 2 + c, H ! 3 + d, H ! 4 + e, H ! 5 + f, H ! 6 + g, H ! 7 + h]"

definition fips256_compress :: "u32 list \<Rightarrow> byte list \<Rightarrow> u32 list" where
  "fips256_compress H blk =
     sha2_add H (foldl (fips_step (2, 13, 22) (6, 11, 25) sha256_K
         (fips_W (7, 18, 3) (17, 19, 10) (\<lambda>i. word_rcat (chunk_at 4 i blk))))
       (H ! 0, H ! 1, H ! 2, H ! 3, H ! 4, H ! 5, H ! 6, H ! 7) [0..<64])"

definition fips512_compress :: "u64 list \<Rightarrow> byte list \<Rightarrow> u64 list" where
  "fips512_compress H blk =
     sha2_add H (foldl (fips_step (28, 34, 39) (14, 18, 41) sha512_K
         (fips_W (1, 8, 7) (19, 61, 6) (\<lambda>i. word_rcat (chunk_at 8 i blk))))
       (H ! 0, H ! 1, H ! 2, H ! 3, H ! 4, H ! 5, H ! 6, H ! 7) [0..<80])"

text \<open>
  FIPS 180-4, section 5.1.2: the padding of a message for SHA-512, with the length in bits as a number of 128
  bits; and sections 5.3.4 to 5.3.6: the initial hash values.
\<close>

definition be_bytes :: "nat \<Rightarrow> nat \<Rightarrow> byte list" where
  "be_bytes k n = map (\<lambda>i. of_nat (n div 256 ^ i)) (rev [0..<k])"

definition fips512_padded :: "byte list \<Rightarrow> byte list" where
  "fips512_padded m = m @ 0x80 # replicate (nat ((111 - int (length m)) mod 128)) 0 @ be_bytes 16 (8 * length m)"

definition fips512_hash :: "u64 list \<Rightarrow> byte list \<Rightarrow> u64 list" where
  "fips512_hash H0 m = foldl fips512_compress H0 (blocks 128 (fips512_padded m))"

definition fips_H384 :: "u64 list" where
  "fips_H384 = [0xcbbb9d5dc1059ed8, 0x629a292a367cd507, 0x9159015a3070dd17, 0x152fecd8f70e5939,
     0x67332667ffc00b31, 0x8eb44a8768581511, 0xdb0c2e0d64f98fa7, 0x47b5481dbefa4fa4]"

definition fips_H512 :: "u64 list" where
  "fips_H512 = [0x6a09e667f3bcc908, 0xbb67ae8584caa73b, 0x3c6ef372fe94f82b, 0xa54ff53a5f1d36f1,
     0x510e527fade682d1, 0x9b05688c2b3e6c1f, 0x1f83d9abfb41bd6b, 0x5be0cd19137e2179]"

definition fips_H512_224 :: "u64 list" where
  "fips_H512_224 = [0x8c3d37c819544da2, 0x73e1996689dcd4d6, 0x1dfab7ae32ff9c82, 0x679dd514582f9fcf,
     0x0f6d2b697bd44da8, 0x77e36f7304c48942, 0x3f9d85a86a1d36c8, 0x1112e6ad91d692a1]"

definition fips_H512_256 :: "u64 list" where
  "fips_H512_256 = [0x22312194fc2bf72c, 0x9f555fa3c84c64c2, 0x2393b86b6f53b151, 0x963877195940eabd,
     0x96283ee2a88effe3, 0xbe5e1e2553863992, 0x2b0199fc2c85b8aa, 0x0eb72ddc81c52ca2]"

section \<open>Word operations are those of the standards\<close>

lemma rol_rotl: "0 < k \<Longrightarrow> k < LENGTH('a) \<Longrightarrow> rol (n :: 'a::len word) k = word_rotl k n"
proof (rule bit_word_eqI)
  fix i
  assume k: "0 < k" "k < LENGTH('a)" and i: "i < LENGTH('a)"
  have "(i + (LENGTH('a) - k mod LENGTH('a))) mod LENGTH('a) =
      (if i < k then LENGTH('a) - k + i else i - k)"
    using k i by (auto simp: mod_if ac_simps)
  then show "bit (rol n k) i \<longleftrightarrow> bit (word_rotl k n) i"
    using k i by (auto simp: rol_def bit_simps dest: bit_imp_le_length)
qed

lemma ror_rotr: "0 < k \<Longrightarrow> k < LENGTH('a) \<Longrightarrow> ror (n :: 'a::len word) k = word_rotr k n"
proof (rule bit_word_eqI)
  fix i
  assume k: "0 < k" "k < LENGTH('a)" and i: "i < LENGTH('a)"
  have "(i + k) mod LENGTH('a) = (if i + k < LENGTH('a) then i + k else i - (LENGTH('a) - k))"
    using k i by (simp add: mod_if)
  then show "bit (ror n k) i \<longleftrightarrow> bit (word_rotr k n) i"
    using k i by (auto simp: ror_def bit_simps ac_simps dest: bit_imp_le_length)
qed

lemma logical_functions:
  "md5_F x y z = (x AND y) OR (NOT x AND z)"
  "md5_G x y z = (x AND z) OR (y AND NOT z)"
  "sha1_F0 x y z = (x AND y) OR (NOT x AND z)"
  "sha1_F2 x y z = (x AND y) OR (x AND z) OR (y AND z)"
  by (rule bit_word_eqI; auto simp: md5_F_def md5_G_def sha1_F0_def sha1_F2_def bit_simps)+

lemma Ch_Maj: "Ch = fips_Ch" "Maj = fips_Maj"
  by (intro ext bit_word_eqI; auto simp: Ch_def Maj_def fips_Ch_def fips_Maj_def bit_simps)+

lemma Sigmas:
  "sha256_S0 = fips_Sigma (2, 13, 22)" "sha256_S1 = fips_Sigma (6, 11, 25)"
  "sha256_R0 = fips_sigma (7, 18, 3)" "sha256_R1 = fips_sigma (17, 19, 10)"
  "sha512_S0 = fips_Sigma (28, 34, 39)" "sha512_S1 = fips_Sigma (14, 18, 41)"
  "sha512_R0 = fips_sigma (1, 8, 7)" "sha512_R1 = fips_sigma (19, 61, 6)"
  by (simp_all add: fun_eq_iff ror_rotr sha256_S0_def sha256_S1_def sha256_R0_def sha256_R1_def
      sha512_S0_def sha512_S1_def sha512_R0_def sha512_R1_def)

lemma chunk_at_4:
  "length b = 64 \<Longrightarrow> i < 16 \<Longrightarrow>
     chunk_at 4 i b = [b ! (4 * i), b ! (4 * i + 1), b ! (4 * i + 2), b ! (4 * i + 3)]"
  by (rule nth_equalityI) (auto simp: chunk_at_def less_Suc_eq numeral_eq_Suc)

lemma chunk_at_8:
  "length b = 128 \<Longrightarrow> i < 16 \<Longrightarrow>
     chunk_at 8 i b = [b ! (8 * i), b ! (8 * i + 1), b ! (8 * i + 2), b ! (8 * i + 3),
       b ! (8 * i + 4), b ! (8 * i + 5), b ! (8 * i + 6), b ! (8 * i + 7)]"
  by (rule nth_equalityI) (auto simp: chunk_at_def less_Suc_eq numeral_eq_Suc)

lemma bit_word_rcat:
  "n < LENGTH('b) \<Longrightarrow> bit (word_rcat (ws :: byte list) :: 'b::len word) n \<longleftrightarrow>
     n div 8 < length ws \<and> bit (rev ws ! (n div 8)) (n mod 8)"
  using bit_horner_sum_uint_exp_iff [of "rev ws" n]
  by (simp add: word_rcat_def bit_of_int_iff del: bit_horner_sum_uint_exp_iff)

lemma word_rcat_snoc:
  "(word_rcat (ws @ [w :: byte]) :: 'b::len word) = push_bit 8 (word_rcat ws) OR ucast w"
proof (rule bit_word_eqI)
  fix n
  assume n: "n < LENGTH('b)"
  show "bit (word_rcat (ws @ [w]) :: 'b word) n \<longleftrightarrow>
      bit (push_bit 8 (word_rcat ws) OR ucast w :: 'b word) n"
  proof (cases "n < 8")
    case True
    then show ?thesis using n by (simp add: bit_word_rcat bit_simps)
  next
    case False
    then have "n div 8 = Suc ((n - 8) div 8)" "n mod 8 = (n - 8) mod 8"
      by (simp_all add: le_div_geq le_mod_geq)
    then show ?thesis
      using n False by (auto simp: bit_word_rcat bit_simps dest: bit_imp_le_length)
  qed
qed

lemma word_rcat_Nil: "(word_rcat ([] :: byte list) :: 'b::len word) = 0"
  by (simp add: word_rcat_def)

lemmas rcat_unfold = word_rcat_snoc [of "[]", simplified]
  word_rcat_snoc [of "[a]" for a, simplified] word_rcat_snoc [of "[a, b]" for a b, simplified]
  word_rcat_snoc [of "[a, b, c]" for a b c, simplified]
  word_rcat_snoc [of "[a, b, c, d]" for a b c d, simplified]
  word_rcat_snoc [of "[a, b, c, d, e]" for a b c d e, simplified]
  word_rcat_snoc [of "[a, b, c, d, e, f]" for a b c d e f, simplified]
  word_rcat_snoc [of "[a, b, c, d, e, f, g]" for a b c d e f g, simplified]
  word_rcat_Nil

lemma rcat_bytes:
  "push_bit 24 (ucast a) OR push_bit 16 (ucast b) OR push_bit 8 (ucast c) OR ucast d =
     (word_rcat [a, b, c, d :: byte] :: u32)"
  unfolding rcat_unfold by (simp add: push_bit_or or.assoc)

lemma rcat_bytes64:
  "push_bit 56 (ucast a) OR push_bit 48 (ucast b) OR push_bit 40 (ucast c) OR push_bit 32 (ucast d)
     OR push_bit 24 (ucast e) OR push_bit 16 (ucast f) OR push_bit 8 (ucast g) OR ucast h =
     (word_rcat [a, b, c, d, e, f, g, h :: byte] :: u64)"
  unfolding rcat_unfold by (simp add: push_bit_or or.assoc)

lemma be_words_eq: "length b = 64 \<Longrightarrow> be_words b = map (\<lambda>i. word_rcat (chunk_at 4 i b)) [0..<16]"
  by (simp add: be_words_def chunk_at_4 rcat_bytes)

lemma be_words64_eq: "length b = 128 \<Longrightarrow> be_words64 b = map (\<lambda>i. word_rcat (chunk_at 8 i b)) [0..<16]"
  by (simp add: be_words64_def chunk_at_8 rcat_bytes64)

lemma md5_W_eq: "length b = 64 \<Longrightarrow> md5_W b = map (\<lambda>i. word_rcat (rev (chunk_at 4 i b))) [0..<16]"
  by (simp add: md5_W_def chunk_at_4 rcat_bytes [symmetric] ac_simps)

section \<open>The compression functions are those of the standards\<close>

text \<open>An array filled from left to right holds the values of the recursion it follows.\<close>

lemma schedule_map:
  assumes "16 \<le> n" and "\<And>i. 16 \<le> i \<Longrightarrow> g (map ref [0..<i]) i = ref i"
    and "M = map ref [0..<16]"
  shows "foldl (\<lambda>W i. W @ [g W i]) M [16..<n] = map ref [0..<n]"
  using assms(1) by (induction n rule: dec_induct) (simp_all add: assms(2,3))

lemma sha256_W_eq:
  assumes "length b = 64"
  shows "sha256_W b = map (fips_W (7, 18, 3) (17, 19, 10) (\<lambda>i. word_rcat (chunk_at 4 i b))) [0..<64]"
  unfolding sha256_W_def be_words_eq [OF assms]
proof (rule schedule_map)
  show "map M [0..<16] = map (fips_W (7, 18, 3) (17, 19, 10) M) [0..<16]" for M :: "nat \<Rightarrow> u32"
    by (rule map_cong) (auto simp: fips_W.simps [of _ _ M])
qed (simp_all add: Sigmas fips_W.simps [of _ _ _ i for i])

lemma sha512_W_eq:
  assumes "length b = 128"
  shows "sha512_W b = map (fips_W (1, 8, 7) (19, 61, 6) (\<lambda>i. word_rcat (chunk_at 8 i b))) [0..<80]"
  unfolding sha512_W_def be_words64_eq [OF assms]
proof (rule schedule_map)
  show "map M [0..<16] = map (fips_W (1, 8, 7) (19, 61, 6) M) [0..<16]" for M :: "nat \<Rightarrow> u64"
    by (rule map_cong) (auto simp: fips_W.simps [of _ _ M])
qed (simp_all add: Sigmas fips_W.simps [of _ _ _ i for i])

lemma sha1_W_eq:
  assumes "length b = 64"
  shows "sha1_W b = map (rfc3174_W (\<lambda>i. word_rcat (chunk_at 4 i b))) [0..<80]"
  unfolding sha1_W_def be_words_eq [OF assms]
proof (rule schedule_map)
  show "map M [0..<16] = map (rfc3174_W M) [0..<16]" for M
    by (rule map_cong) (auto simp: rfc3174_W.simps [of M])
qed (simp_all add: rol_rotl rfc3174_W.simps [of _ i for i])

lemma sha2_state_cases:
  obtains a b c d e f g h where "(st :: 'a sha2_state) = (a, b, c, d, e, f, g, h)"
  by (metis surj_pair)

lemma sha2_rounds:
  "foldl (sha2_round (fips_Sigma S0) (fips_Sigma S1) K (map W [0..<n])) st [0..<n] =
     foldl (fips_step S0 S1 K W) st [0..<n]"
proof (rule foldl_cong)
  fix st i
  assume "i \<in> set [0..<n]"
  then show "sha2_round (fips_Sigma S0) (fips_Sigma S1) K (map W [0..<n]) st i =
      fips_step S0 S1 K W st i"
    by (cases st rule: sha2_state_cases) (simp add: Ch_Maj)
qed simp_all

lemma sha256_compress:
  assumes "length b = 64"
  shows "sha256_processblock h b = fips256_compress h b"
  unfolding sha256_processblock_def fips256_compress_def sha256_W_eq [OF assms] Sigmas sha2_rounds
    Let_def by (simp split: prod.splits)

lemma sha512_compress:
  assumes "length b = 128"
  shows "sha512_processblock h b = fips512_compress h b"
  unfolding sha512_processblock_def fips512_compress_def sha512_W_eq [OF assms] Sigmas sha2_rounds
    Let_def by (simp split: prod.splits)

text \<open>Four passes through a loop whose body is a run of unrolled steps.\<close>

lemma upt_join: "i \<le> j \<Longrightarrow> j \<le> k \<Longrightarrow> foldl f (foldl f st [i..<j]) [j..<k] = foldl f st [i..<k]"
  by (metis foldl_append upt_add_eq_append le_add_diff_inverse)

lemma four_passes:
  assumes "\<And>st. body st a = foldl step st [a..<b]" "\<And>st. body st b = foldl step st [b..<c]"
    "\<And>st. body st c = foldl step st [c..<d]" "\<And>st. body st d = foldl step st [d..<e]"
    and "a \<le> b" "b \<le> c" "c \<le> d" "d \<le> e"
  shows "foldl body st [a, b, c, d] = foldl step st [a..<e]"
  using assms by (simp add: upt_join)

lemma md5_body_steps:
  assumes "\<And>x y z. f x y z = rfc1321_f i x y z" "\<And>x y z. f x y z = rfc1321_f (i + 1) x y z"
    "\<And>x y z. f x y z = rfc1321_f (i + 2) x y z" "\<And>x y z. f x y z = rfc1321_f (i + 3) x y z"
    and "ix i = rfc1321_k i" "ix (i + 1) = rfc1321_k (i + 1)"
    "ix (i + 2) = rfc1321_k (i + 2)" "ix (i + 3) = rfc1321_k (i + 3)"
    and "map (nth rfc1321_s) [i, i + 1, i + 2, i + 3] = [s1, s2, s3, s4]"
    and "set [s1, s2, s3, s4] \<subseteq> {1..<32}" "j = i + 4"
  shows "md5_body f ix s1 s2 s3 s4 W st i = foldl (rfc1321_step W) st [i..<j]"
proof -
  have "[i..<i + 4] = [i, i + 1, i + 2, i + 3]" by (simp add: upt_rec)
  moreover obtain a b c d where "st = (a, b, c, d)" by (metis surj_pair)
  ultimately show ?thesis
    using assms by (simp add: md5_op_def Let_def rol_rotl ac_simps del: rfc1321_f.simps rfc1321_k.simps)
qed

lemma rfc1321_s_eval:
  "rfc1321_s = [7, 12, 17, 22, 7, 12, 17, 22, 7, 12, 17, 22, 7, 12, 17, 22,
     5, 9, 14, 20, 5, 9, 14, 20, 5, 9, 14, 20, 5, 9, 14, 20,
     4, 11, 16, 23, 4, 11, 16, 23, 4, 11, 16, 23, 4, 11, 16, 23,
     6, 10, 15, 21, 6, 10, 15, 21, 6, 10, 15, 21, 6, 10, 15, 21]"
  by (simp add: rfc1321_s_def numeral_eq_Suc)

lemma md5_loops:
  "foldl (md5_body md5_F (\<lambda>i. i) 7 12 17 22 W) st [0, 4, 8, 12] = foldl (rfc1321_step W) st [0..<16]"
  "foldl (md5_body md5_G (\<lambda>i. (5 * i + 1) mod 16) 5 9 14 20 W) st [16, 20, 24, 28] =
     foldl (rfc1321_step W) st [16..<32]"
  "foldl (md5_body md5_H (\<lambda>i. (3 * i + 5) mod 16) 4 11 16 23 W) st [32, 36, 40, 44] =
     foldl (rfc1321_step W) st [32..<48]"
  "foldl (md5_body md5_I (\<lambda>i. 7 * i mod 16) 6 10 15 21 W) st [48, 52, 56, 60] =
     foldl (rfc1321_step W) st [48..<64]"
  by (rule four_passes; (rule md5_body_steps)?;
      simp add: rfc1321_s_eval logical_functions md5_H_def md5_I_def)+

lemma md5_compress:
  assumes "length b = 64"
  shows "md5_processblock h b = rfc1321_compress h b"
  unfolding md5_processblock_def rfc1321_compress_def md5_W_eq [OF assms] md5_loops Let_def
  by (simp only: upt_join)

lemma sha1_body_steps:
  assumes "\<And>j x y z. j \<in> {i..<i + 5} \<Longrightarrow> f x y z = rfc3174_f j x y z"
    and "\<And>j. j \<in> {i..<i + 5} \<Longrightarrow> k = rfc3174_K j" and "j = i + 5" "j \<le> 80"
  shows "sha1_body f k (map W [0..<80]) st i = foldl (rfc3174_step W) st [i..<j]"
proof -
  have "[i..<i + 5] = [i, i + 1, i + 2, i + 3, i + 4]" by (simp add: upt_rec)
  moreover obtain a b c d e where "st = (a, b, c, d, e)" by (metis surj_pair)
  ultimately show ?thesis
    using assms(1) [of i, symmetric] assms(1) [of "i + 1", symmetric]
      assms(1) [of "i + 2", symmetric] assms(1) [of "i + 3", symmetric]
      assms(1) [of "i + 4", symmetric] assms(2) [of i, symmetric] assms(2) [of "i + 1", symmetric]
      assms(2) [of "i + 2", symmetric] assms(2) [of "i + 3", symmetric]
      assms(2) [of "i + 4", symmetric] assms(3,4)
    by (simp add: sha1_G_def Let_def rol_rotl ac_simps del: rfc3174_f.simps rfc3174_K.simps)
qed

lemma sha1_loops:
  "foldl (sha1_body sha1_F0 0x5A827999 (map W [0..<80])) st [0, 5, 10, 15] =
     foldl (rfc3174_step W) st [0..<20]"
  "foldl (sha1_body sha1_F1 0x6ED9EBA1 (map W [0..<80])) st [20, 25, 30, 35] =
     foldl (rfc3174_step W) st [20..<40]"
  "foldl (sha1_body sha1_F2 0x8F1BBCDC (map W [0..<80])) st [40, 45, 50, 55] =
     foldl (rfc3174_step W) st [40..<60]"
  "foldl (sha1_body sha1_F3 0xCA62C1D6 (map W [0..<80])) st [60, 65, 70, 75] =
     foldl (rfc3174_step W) st [60..<80]"
  by (rule four_passes; (rule sha1_body_steps)?;
      simp add: logical_functions sha1_F1_def sha1_F3_def)+

lemma sha1_compress:
  assumes "length b = 64"
  shows "sha1_processblock h b = rfc3174_compress h b"
  unfolding sha1_processblock_def rfc3174_compress_def sha1_W_eq [OF assms] sha1_loops Let_def
  by (simp only: upt_join)

section \<open>The digests\<close>

lemma length_le64 [simp]: "length (le64 l) = 8"
  by (simp add: le64_def)

lemma length_be64 [simp]: "length (be64 l) = 8"
  by (simp add: be64_def)

interpretation md5: md_frame 64 56 56 le64 md5_processblock h0 for h0
  by unfold_locales simp_all

interpretation sha1: md_frame 64 56 56 be64 sha1_processblock h0 for h0
  by unfold_locales simp_all

interpretation sha256: md_frame 64 56 56 be64 sha256_processblock h0 for h0
  by unfold_locales simp_all

interpretation sha512: md_frame 128 112 120 be64 sha512_processblock h0 for h0
  by unfold_locales simp_all

lemma blocks_length: "b \<in> set (blocks B m) \<Longrightarrow> length b = B"
  by (induction B m rule: blocks.induct) (subst (asm) (2) blocks.simps, auto split: if_splits)

text \<open>
  The reference digest: the standard's compression function over the blocks of the padded message.
\<close>

definition md_hash ::
  "nat \<Rightarrow> nat \<Rightarrow> nat \<Rightarrow> (u64 \<Rightarrow> byte list) \<Rightarrow> ('w list \<Rightarrow> byte list \<Rightarrow> 'w list) \<Rightarrow> 'w list \<Rightarrow> byte list \<Rightarrow> 'w list"
  where "md_hash B t z enc compress H0 m = foldl compress H0 (blocks B (padded B t z enc m))"

lemma md_hash_cong:
  assumes "\<And>h b. length b = B \<Longrightarrow> f h b = g h b"
  shows "foldl f H0 (blocks B (padded B t z enc m)) = md_hash B t z enc g H0 m"
  unfolding md_hash_def by (rule foldl_cong) (auto dest: blocks_length simp: assms)

lemma md5_stream:
  "length (md_buf s) = 64 \<Longrightarrow>
     md_h (md5_pad (foldl md5_update (s\<lparr>md_len := 0, md_h := H0\<rparr>) chunks)) =
       md_hash 64 56 56 le64 rfc1321_compress H0 (concat chunks)"
  unfolding md5_pad_def md5_update_def
  by (subst md5.stream_hash, assumption, rule md_hash_cong, rule md5_compress)

lemma sha1_stream:
  "length (md_buf s) = 64 \<Longrightarrow>
     md_h (sha1_pad (foldl sha1_update (s\<lparr>md_len := 0, md_h := H0\<rparr>) chunks)) =
       md_hash 64 56 56 be64 rfc3174_compress H0 (concat chunks)"
  unfolding sha1_pad_def sha1_update_def
  by (subst sha1.stream_hash, assumption, rule md_hash_cong, rule sha1_compress)

lemma sha256_stream:
  "length (md_buf s) = 64 \<Longrightarrow>
     md_h (sha256_pad (foldl sha256_update (s\<lparr>md_len := 0, md_h := H0\<rparr>) chunks)) =
       md_hash 64 56 56 be64 fips256_compress H0 (concat chunks)"
  unfolding sha256_pad_def sha256_update_def
  by (subst sha256.stream_hash, assumption, rule md_hash_cong, rule sha256_compress)

lemma sha512_stream:
  "length (md_buf s) = 128 \<Longrightarrow>
     md_h (sha512_pad (foldl sha512_update (s\<lparr>md_len := 0, md_h := H0\<rparr>) chunks)) =
       md_hash 128 112 120 be64 fips512_compress H0 (concat chunks)"
  unfolding sha512_pad_def sha512_update_def
  by (subst sha512.stream_hash, assumption, rule md_hash_cong, rule sha512_compress)

text \<open>Reading the words of the state one by one, as the loops of the sum functions do.\<close>

lemma concat_nth_take:
  assumes "n \<le> length H"
  shows "concat (map (\<lambda>i. f (H ! i)) [0..<n]) = concat (map f (take n H))"
proof -
  have "map (\<lambda>i. f (H ! i)) [0..<n] = map f (take n H)"
    by (rule nth_equalityI) (use assms in auto)
  then show ?thesis by simp
qed

lemma length_md_hash:
  assumes "\<And>h b. length (compress h b) = n" "length H0 = n"
  shows "length (md_hash B t z enc compress H0 m) = n"
proof -
  have "length (foldl compress H0 bs) = n" for bs
    using assms by (induction bs rule: rev_induct) auto
  then show ?thesis by (simp add: md_hash_def)
qed

lemma length_sha2_add: "length (sha2_add H st) = 8"
  by (cases st rule: sha2_state_cases) simp

lemma length_compress:
  "length (rfc1321_compress h b) = 4" "length (rfc3174_compress h b) = 5"
  "length (fips256_compress h b) = 8" "length (fips512_compress h' b) = 8"
  by (simp_all add: rfc1321_compress_def rfc3174_compress_def fips256_compress_def
      fips512_compress_def length_sha2_add Let_def split: prod.splits)

lemma sha256_sum_n_hash:
  assumes "length (md_buf s) = 64" "length H0 = 8" "n \<le> 8"
  shows "snd (sha256_sum_n (foldl sha256_update (s\<lparr>md_len := 0, md_h := H0\<rparr>) chunks) n) =
    concat (map be32 (take n (md_hash 64 56 56 be64 fips256_compress H0 (concat chunks))))"
  using assms length_md_hash [where compress = fips256_compress and n = 8]
  by (simp add: sha256_sum_n_def Let_def sha256_stream
      concat_nth_take length_compress)

lemma sha512_sum_n_hash:
  assumes "length (md_buf s) = 128" "length H0 = 8" "n \<le> 8"
  shows "snd (sha512_sum_n (foldl sha512_update (s\<lparr>md_len := 0, md_h := H0\<rparr>) chunks) n) =
    concat (map be64 (take n (md_hash 128 112 120 be64 fips512_compress H0 (concat chunks))))"
  using assms length_md_hash [where compress = fips512_compress and n = 8]
  by (simp add: sha512_sum_n_def Let_def sha512_stream
      concat_nth_take length_compress)

lemma sha256_digests:
  assumes "length (md_buf s) = 64"
  shows "snd (sha256_sum (foldl sha256_update (sha256_init s) chunks)) =
      concat (map be32 (md_hash 64 56 56 be64 fips256_compress (md_h (sha256_init s)) (concat chunks)))"
    and "snd (sha224_sum (foldl sha256_update (sha224_init s) chunks)) =
      concat (map be32 (take 7
        (md_hash 64 56 56 be64 fips256_compress (md_h (sha224_init s)) (concat chunks))))"
proof -
  have "length (md_hash 64 56 56 be64 fips256_compress (md_h (sha256_init s)) (concat chunks)) = 8"
    by (rule length_md_hash) (simp_all add: length_compress sha256_init_def)
  then show "snd (sha256_sum (foldl sha256_update (sha256_init s) chunks)) =
      concat (map be32 (md_hash 64 56 56 be64 fips256_compress (md_h (sha256_init s)) (concat chunks)))"
    using assms by (simp add: sha256_sum_def sha256_init_def sha256_sum_n_hash)
  show "snd (sha224_sum (foldl sha256_update (sha224_init s) chunks)) =
      concat (map be32 (take 7
        (md_hash 64 56 56 be64 fips256_compress (md_h (sha224_init s)) (concat chunks))))"
    using assms by (simp add: sha224_sum_def sha224_init_def sha256_sum_n_hash)
qed

text \<open>
  Property C3 (SHA-256 and SHA-224 compute FIPS 180-4). Whatever the buffer held before, and
  however the message is cut into the pieces given to \<open>sha256_update\<close>, the digest is the
  big-endian text of the hash that FIPS 180-4 defines for the padded message, all eight words of
  it for SHA-256 and seven for SHA-224.
\<close>
theorem sha256_correct:
  assumes "length (md_buf s) = 64"
  shows "snd (sha256_sum (foldl sha256_update (sha256_init s) chunks)) =
      concat (map be32 (md_hash 64 56 56 be64 fips256_compress (md_h (sha256_init s)) (concat chunks))) \<and>
    snd (sha224_sum (foldl sha256_update (sha224_init s) chunks)) =
      concat (map be32 (take 7
      (md_hash 64 56 56 be64 fips256_compress (md_h (sha224_init s)) (concat chunks))))"
  using sha256_digests [OF assms] by blast

theorem sha256_correct_witness:
  "snd (sha256_sum (foldl sha256_update (sha256_init \<lparr>md_len = 5, md_h = [], md_buf = replicate 64 1\<rparr>)
      [[0x61], [], [0x62, 0x63]])) =
    concat (map be32 (md_hash 64 56 56 be64 fips256_compress
      (md_h (sha256_init \<lparr>md_len = 5, md_h = [], md_buf = replicate 64 1\<rparr>)) [0x61, 0x62, 0x63]))"
  using sha256_correct [of "\<lparr>md_len = 5, md_h = [], md_buf = replicate 64 1\<rparr>"
    "[[0x61], [], [0x62, 0x63]]"] by simp

lemma sha512_digests:
  assumes "length (md_buf s) = 128"
  shows "snd (sha512_sum (foldl sha512_update (sha512_init s) chunks)) =
      concat (map be64 (md_hash 128 112 120 be64 fips512_compress (md_h (sha512_init s)) (concat chunks)))"
    and "snd (sha384_sum (foldl sha512_update (sha384_init s) chunks)) =
      concat (map be64 (take 6
        (md_hash 128 112 120 be64 fips512_compress (md_h (sha384_init s)) (concat chunks))))"
    and "snd (sha512_224_sum (foldl sha512_update (sha512_224_init s) chunks)) =
      take 28 (concat (map be64 (take 4
        (md_hash 128 112 120 be64 fips512_compress (md_h (sha512_224_init s)) (concat chunks)))))"
    and "snd (sha512_256_sum (foldl sha512_update (sha512_256_init s) chunks)) =
      concat (map be64 (take 4
        (md_hash 128 112 120 be64 fips512_compress (md_h (sha512_256_init s)) (concat chunks))))"
proof -
  have "length (md_hash 128 112 120 be64 fips512_compress (md_h (sha512_init s)) (concat chunks)) = 8"
    by (rule length_md_hash) (simp_all add: length_compress sha512_init_def)
  then show "snd (sha512_sum (foldl sha512_update (sha512_init s) chunks)) =
      concat (map be64 (md_hash 128 112 120 be64 fips512_compress (md_h (sha512_init s)) (concat chunks)))"
    using assms by (simp add: sha512_sum_def sha512_init_def sha512_sum_n_hash)
qed (use assms in \<open>simp_all add: sha384_sum_def sha384_init_def sha512_224_sum_def sha512_224_init_def
      sha512_256_sum_def sha512_256_init_def sha512_sum_n_hash case_prod_unfold Let_def\<close>)

text \<open>The padding of \<open>sha512.c\<close> is that of the standard below \<open>2\<^sup>6\<^sup>1\<close> bytes, where the length in bits has 64 bits.\<close>

lemma be_bytes_add: "be_bytes (j + k) n = be_bytes j (n div 256 ^ k) @ be_bytes k n"
proof -
  have "[0..<j + k] = [0..<k] @ map (\<lambda>i. i + k) [0..<j]"
    by (simp add: map_add_upt add.commute [of j] upt_add_eq_append [of 0 k])
  then show ?thesis by (simp add: be_bytes_def rev_map power_add div_mult2_eq [symmetric] mult.commute)
qed

lemma be_bytes_zero: "be_bytes k 0 = replicate k 0"
  by (simp add: be_bytes_def map_replicate_const)

lemma be_bytes_be64:
  assumes "n < 2 ^ 64"
  shows "be_bytes 8 n = be64 (of_nat n)"
proof -
  have "unat (of_nat n :: u64) = n" using assms by (simp add: unat_of_nat take_bit_nat_eq_self_iff)
  then have "ucast (drop_bit k (of_nat n :: u64)) = (of_nat (n div 2 ^ k) :: byte)" for k
    by (metis unat_drop_bit_eq drop_bit_eq_div of_nat_unat)
  moreover have "rev [0..<8] = [7, 6, 5, 4, 3, 2, 1, 0 :: nat]" by code_simp
  ultimately show ?thesis by (simp add: be_bytes_def be64_def)
qed

lemma padded_fips512:
  assumes "length m < 2 ^ 61"
  shows "padded 128 112 120 be64 m = fips512_padded m"
proof -
  have "(128 + 112 - 1 - length m mod 128) mod 128 = nat ((111 - int (length m)) mod 128)"
  proof -
    have "length m mod 128 \<le> 239" using mod_less_divisor [of 128 "length m"] by linarith
    then have "int ((239 - length m mod 128) mod 128) = (239 - int (length m) mod 128) mod 128"
      by (simp only: zmod_int of_nat_diff of_nat_numeral)
    also have "\<dots> = (111 - int (length m) + 128) mod 128" unfolding mod_diff_right_eq by (simp add: algebra_simps)
    also have "\<dots> = (111 - int (length m)) mod 128" by (rule mod_add_self2)
    finally show ?thesis by simp
  qed
  moreover have "be_bytes 16 (8 * length m) = replicate (120 - 112) 0 @ be64 (of_nat (8 * length m))"
    using assms be_bytes_add [of 8 8 "8 * length m"] by (simp add: be_bytes_be64 be_bytes_zero del: of_nat_mult)
  ultimately show ?thesis by (simp add: padded_def fips512_padded_def del: of_nat_mult)
qed

text \<open>
  Property C26 (SHA-512 and its truncations compute FIPS 180-4). For every message of less than \<open>2\<^sup>6\<^sup>1\<close>
  bytes, however it is cut into the pieces given to \<open>sha512_update\<close>, the four sum functions on \<open>sha512.c\<close> give
  the hash that FIPS 180-4 defines, with the padding of the standard, whose length field has 128 bits, and with
  the initial values it lists for SHA-512, SHA-384, SHA-512/224 and SHA-512/256, cut to their length.
\<close>

theorem sha512_correct:
  assumes "length (md_buf s) = 128" "length (concat chunks) < 2 ^ 61"
  shows "snd (sha512_sum (foldl sha512_update (sha512_init s) chunks)) =
      concat (map be64 (fips512_hash fips_H512 (concat chunks))) \<and>
    snd (sha384_sum (foldl sha512_update (sha384_init s) chunks)) =
      concat (map be64 (take 6 (fips512_hash fips_H384 (concat chunks)))) \<and>
    snd (sha512_224_sum (foldl sha512_update (sha512_224_init s) chunks)) =
      take 28 (concat (map be64 (fips512_hash fips_H512_224 (concat chunks)))) \<and>
    snd (sha512_256_sum (foldl sha512_update (sha512_256_init s) chunks)) =
      take 32 (concat (map be64 (fips512_hash fips_H512_256 (concat chunks))))"
proof -
  have h: "md_hash 128 112 120 be64 fips512_compress H0 (concat chunks) = fips512_hash H0 (concat chunks)" for H0
    by (simp add: md_hash_def fips512_hash_def padded_fips512 [OF assms(2)])
  have inits: "md_h (sha512_init s) = fips_H512" "md_h (sha384_init s) = fips_H384"
    "md_h (sha512_224_init s) = fips_H512_224" "md_h (sha512_256_init s) = fips_H512_256"
    by (simp_all add: sha512_init_def sha384_init_def sha512_224_init_def sha512_256_init_def
        fips_H512_def fips_H384_def fips_H512_224_def fips_H512_256_def)
  have cut: "take (8 * n) (concat (map be64 ws)) = concat (map be64 (take n ws))" for n ws
  proof (induction ws arbitrary: n)
    case (Cons w ws)
    then show ?case by (cases n) simp_all
  qed simp
  have "take 28 (concat (map be64 (take 4 ws))) = take 28 (concat (map be64 ws))" for ws
    unfolding cut [of 4, symmetric] by simp
  with sha512_digests [OF assms(1), of chunks] cut [of 4] show ?thesis
    unfolding h inits by simp
qed

theorem sha512_correct_witness:
  "snd (sha512_224_sum (foldl sha512_update (sha512_224_init \<lparr>md_len = 5, md_h = [], md_buf = replicate 128 1\<rparr>)
      [[0x61], [], [0x62, 0x63]])) =
    take 28 (concat (map be64 (fips512_hash fips_H512_224 [0x61, 0x62, 0x63])))"
  using sha512_correct [of "\<lparr>md_len = 5, md_h = [], md_buf = replicate 128 1\<rparr>"
    "[[0x61], [], [0x62, 0x63]]"] by simp

lemma md5_digests:
  assumes "length (md_buf s) = 64"
  shows "snd (md5_sum (foldl md5_update (md5_init s) chunks)) =
      concat (map le32 (md_hash 64 56 56 le64 rfc1321_compress (md_h (md5_init s)) (concat chunks)))"
    and "concat (map le32 (md_h (md5_init s))) =
      [0x01, 0x23, 0x45, 0x67, 0x89, 0xab, 0xcd, 0xef, 0xfe, 0xdc, 0xba, 0x98, 0x76, 0x54, 0x32, 0x10]"
proof -
  have "length (md_hash 64 56 56 le64 rfc1321_compress (md_h (md5_init s)) (concat chunks)) = 4"
    by (rule length_md_hash) (simp_all add: length_compress md5_init_def)
  then show "snd (md5_sum (foldl md5_update (md5_init s) chunks)) =
      concat (map le32 (md_hash 64 56 56 le64 rfc1321_compress (md_h (md5_init s)) (concat chunks)))"
    using assms by (simp add: md5_sum_def md5_init_def md5_stream Let_def
        concat_nth_take)
  show "concat (map le32 (md_h (md5_init s))) =
      [0x01, 0x23, 0x45, 0x67, 0x89, 0xab, 0xcd, 0xef, 0xfe, 0xdc, 0xba, 0x98, 0x76, 0x54, 0x32, 0x10]"
    by (simp add: md5_init_def le32_def unsigned_drop_bit_eq drop_bit_eq_div take_bit_eq_mod
        ucast_eq)
qed

text \<open>
  Property C27 (MD5 computes RFC 1321). The unrolled loops of \<open>md5.c\<close> are the 64 steps of the RFC,
  and the digest is the little-endian text of the resulting state, for every division of the
  message; the initial state is the RFC's four words.
\<close>
theorem md5_correct:
  assumes "length (md_buf s) = 64"
  shows "snd (md5_sum (foldl md5_update (md5_init s) chunks)) =
      concat (map le32 (md_hash 64 56 56 le64 rfc1321_compress (md_h (md5_init s)) (concat chunks))) \<and>
    concat (map le32 (md_h (md5_init s))) =
      [0x01, 0x23, 0x45, 0x67, 0x89, 0xab, 0xcd, 0xef, 0xfe, 0xdc, 0xba, 0x98, 0x76, 0x54, 0x32, 0x10]"
  using md5_digests [OF assms] by blast

theorem md5_correct_witness:
  "snd (md5_sum (foldl md5_update (md5_init \<lparr>md_len = 5, md_h = [], md_buf = replicate 64 1\<rparr>)
      [[0x61], [], [0x62, 0x63]])) =
    concat (map le32 (md_hash 64 56 56 le64 rfc1321_compress
      (md_h (md5_init \<lparr>md_len = 5, md_h = [], md_buf = replicate 64 1\<rparr>)) [0x61, 0x62, 0x63]))"
  using md5_correct [of "\<lparr>md_len = 5, md_h = [], md_buf = replicate 64 1\<rparr>"
    "[[0x61], [], [0x62, 0x63]]"] by simp

lemma sha1_digest:
  assumes "length (md_buf s) = 64"
  shows "snd (sha1_sum (foldl sha1_update (sha1_init s) chunks)) =
      concat (map be32 (md_hash 64 56 56 be64 rfc3174_compress
        (md_h (sha1_init s)) (concat chunks)))"
proof -
  have "length (md_hash 64 56 56 be64 rfc3174_compress
      (md_h (sha1_init s)) (concat chunks)) = 5"
    by (rule length_md_hash) (simp_all add: length_compress sha1_init_def)
  then show ?thesis
    using assms by (simp add: sha1_sum_def sha1_init_def sha1_stream
        Let_def concat_nth_take)
qed

text \<open>
  Property C28 (SHA-1 computes RFC 3174). The loops of \<open>sha1.c\<close>, which rotate the roles of the
  five variables instead of moving their values, are the 80 steps of the RFC; the digest is the
  big-endian text of the hash of the padded message for every division of the message.
\<close>
theorem sha1_correct:
  assumes "length (md_buf s) = 64"
  shows "snd (sha1_sum (foldl sha1_update (sha1_init s) chunks)) =
      concat (map be32 (md_hash 64 56 56 be64 rfc3174_compress
        [0x67452301, 0xEFCDAB89, 0x98BADCFE, 0x10325476, 0xC3D2E1F0] (concat chunks)))"
  using sha1_digest [OF assms, of chunks] by (simp add: sha1_init_def)

theorem sha1_correct_witness:
  "snd (sha1_sum (foldl sha1_update (sha1_init \<lparr>md_len = 5, md_h = [], md_buf = replicate 64 1\<rparr>)
      [[0x61], [], [0x62, 0x63]])) =
    concat (map be32 (md_hash 64 56 56 be64 rfc3174_compress
      [0x67452301, 0xEFCDAB89, 0x98BADCFE, 0x10325476, 0xC3D2E1F0] [0x61, 0x62, 0x63]))"
  using sha1_correct [of "\<lparr>md_len = 5, md_h = [], md_buf = replicate 64 1\<rparr>"
    "[[0x61], [], [0x62, 0x63]]"] by simp

section \<open>The constants of SHA-2\<close>

text \<open>
  FIPS 180-4 defines the constants by the primes: the first \<open>w\<close> bits of the fractional part of a
  root of a prime. The integer \<open>n\<close> has those bits when \<open>c * W + n\<close> is the integer part of the
  root times \<open>W = 2 ^ w\<close>, where \<open>c\<close> is the integer part of the root itself; \<open>c\<close> is below 8 for the
  square roots of the first 16 primes and the cube roots of the first 80.
\<close>

definition int_root :: "nat \<Rightarrow> int \<Rightarrow> int" where
  "int_root k p = int (length (filter (\<lambda>c. c ^ k \<le> p) [1, 2, 3, 4, 5, 6, 7]))"

definition frac_root :: "nat \<Rightarrow> int \<Rightarrow> int \<Rightarrow> int \<Rightarrow> bool" where
  "frac_root k W p n \<longleftrightarrow> 0 \<le> n \<and> n < W \<and>
     (let N = int_root k p * W + n; P = p * W ^ k in N ^ k \<le> P \<and> P < (N + 1) ^ k)"

definition first_primes :: "int list" where
  "first_primes = filter (\<lambda>p. list_all (\<lambda>d. d < p \<longrightarrow> p mod d \<noteq> 0) [2..20]) [2..409]"

text \<open>Trial division by 20 and less is enough below 441: the list holds exactly the primes.\<close>

lemma first_primes_prime:
  "p \<in> set first_primes \<longleftrightarrow> 2 \<le> p \<and> p \<le> 409 \<and> (\<forall>d. 1 < d \<and> d < p \<longrightarrow> \<not> d dvd p)"
proof -
  have "\<not> d dvd p"
    if p: "2 \<le> p" "p \<le> 409" and d: "1 < d" "d < p"
      and small: "\<And>d. 2 \<le> d \<Longrightarrow> d \<le> 20 \<Longrightarrow> d < p \<Longrightarrow> \<not> d dvd p" for d
  proof
    assume "d dvd p"
    then obtain e where e: "p = d * e" by (auto simp: dvd_def)
    have "0 < d * e" using e p by linarith
    then have "0 < e" using d by (simp add: zero_less_mult_iff)
    moreover have "e \<noteq> 1" using e d by auto
    ultimately have e1: "1 < e" by linarith
    have "e < p" using e d e1 by simp
    show False
    proof (cases "d \<le> 20")
      case True
      then show False using small [of d] d \<open>d dvd p\<close> by simp
    next
      case False
      have "e \<le> 20"
      proof (rule ccontr)
        assume "\<not> e \<le> 20"
        then have "21 * 21 \<le> d * e" using False by (intro mult_mono) auto
        then show False using e p by simp
      qed
      then show False using small [of e] e1 \<open>e < p\<close> e by simp
    qed
  qed
  note enough = this
  show ?thesis
    unfolding first_primes_def set_filter mem_Collect_eq list_all_iff set_upto atLeastAtMost_iff
      Ball_def mod_eq_0_iff_dvd
  proof (intro iffI; elim conjE; intro conjI allI impI; (elim conjE)?)
    fix d
    assume "2 \<le> p" "p \<le> 409" "\<forall>x. 2 \<le> x \<and> x \<le> 20 \<longrightarrow> x < p \<longrightarrow> \<not> x dvd p" "1 < d" "d < p"
    then show "\<not> d dvd p" using enough [of d] by blast
  qed auto
qed

lemma first_primes_eval:
  "first_primes =
    [2, 3, 5, 7, 11, 13, 17, 19, 23, 29, 31, 37, 41, 43, 47, 53, 59, 61, 67, 71, 73, 79, 83,
     89, 97, 101, 103, 107, 109, 113, 127, 131, 137, 139, 149, 151, 157, 163, 167, 173, 179,
     181, 191, 193, 197, 199, 211, 223, 227, 229, 233, 239, 241, 251, 257, 263, 269, 271, 277,
     281, 283, 293, 307, 311, 313, 317, 331, 337, 347, 349, 353, 359, 367, 373, 379, 383, 389,
     397, 401, 409]"
  by code_simp

lemma md_h_init: "md_h (s\<lparr>md_len := l, md_h := h\<rparr>) = h"
  by simp

text \<open>
  The tables \<open>K\<close> of \<open>sha256.c\<close> and \<open>sha512.c\<close> are the fractional
  parts of the cube roots of the first 64 and 80 primes, the initial states of SHA-256 and SHA-512
  those of the square roots of the first eight, that of SHA-384 of the next eight, and SHA-224
  starts from the low halves of the latter.
\<close>
lemma sha2_constants:
  "length first_primes = 80 \<and>
   list_all2 (frac_root 3 0x100000000) (take 64 first_primes) (map uint sha256_K) \<and>
   list_all2 (frac_root 3 0x10000000000000000) first_primes (map uint sha512_K) \<and>
   list_all2 (frac_root 2 0x100000000) (take 8 first_primes) (map uint (md_h (sha256_init s))) \<and>
   list_all2 (frac_root 2 0x10000000000000000) (take 8 first_primes) (map uint (md_h (sha512_init s'))) \<and>
   list_all2 (frac_root 2 0x10000000000000000) (take 8 (drop 8 first_primes)) (map uint (md_h (sha384_init s'))) \<and>
   md_h (sha224_init s) = map ucast (md_h (sha384_init s'))"
proof (intro conjI)
  show "length first_primes = 80" by (simp add: first_primes_eval)
  show "list_all2 (frac_root 3 0x100000000) (take 64 first_primes) (map uint sha256_K)" unfolding first_primes_eval by code_simp
  show "list_all2 (frac_root 3 0x10000000000000000) first_primes (map uint sha512_K)" unfolding first_primes_eval by code_simp
  show "list_all2 (frac_root 2 0x100000000) (take 8 first_primes) (map uint (md_h (sha256_init s)))"
    unfolding sha256_init_def md_h_init first_primes_eval by code_simp
  show "list_all2 (frac_root 2 0x10000000000000000) (take 8 first_primes) (map uint (md_h (sha512_init s')))"
    unfolding sha512_init_def md_h_init first_primes_eval by code_simp
  show "list_all2 (frac_root 2 0x10000000000000000) (take 8 (drop 8 first_primes)) (map uint (md_h (sha384_init s')))"
    unfolding sha384_init_def md_h_init first_primes_eval by code_simp
  show "md_h (sha224_init s) = map ucast (md_h (sha384_init s'))"
    by (simp add: sha224_init_def sha384_init_def ucast_eq)
qed

end
