(* ===== verification/Digest_Crypt.thy ===== *)
theory Digest_Crypt
  imports Digest_Hash
begin

text \<open>
  The checksum commands: \<open>shared/libutil/crypt.c\<close>, which computes, prints and checks digests of
  files through the function table \<open>struct crypt_ops\<close>, and the eight commands
  \<open>cmd/pseudo/*sum.c\<close> that instantiate it.

  The world outside is explicit: the file system maps a name to what \<open>read\<close> delivers for it, a
  list of pieces and whether the last call fails; the number of descriptors the code holds open and
  the text it writes are part of the state.

  The locale \<open>digest_ops\<close> states what the commands need of a digest; it is interpreted for all
  eight digests.
\<close>

section \<open>Definitions\<close>

text \<open>What \<open>read\<close> delivers: the pieces up to the end of the file, or up to an error.\<close>

type_synonym read_src = "byte list list \<times> bool"

datatype io_event =
    Stdout "byte list"
  | Wopen "byte list"
  | Wfopen "byte list"
  | Wread "byte list"
  | Wferror "byte list"
  | Wfclose "byte list"
  | Wformat nat
  | Wnoread nat
  | Wnonmatch nat

record 's crypt_ops =
  co_init :: "'s \<Rightarrow> 's"
  co_update :: "'s \<Rightarrow> byte list \<Rightarrow> 's"
  co_sum :: "'s \<Rightarrow> 's \<times> byte list"

record 's crypt_io =
  io_s :: 's
  io_md :: "byte list"
  io_stdin :: read_src
  io_fds :: nat
  io_log :: "io_event list"

definition io_put :: "io_event \<Rightarrow> 's crypt_io \<Rightarrow> 's crypt_io" where
  "io_put e io = io\<lparr>io_log := io_log io @ [e]\<rparr>"

definition hexdec :: "int \<Rightarrow> int" where
  "hexdec c =
     (if 0x30 \<le> c \<and> c \<le> 0x39 then c - 0x30
      else if 0x41 \<le> c \<and> c \<le> 0x46 then c - 0x41 + 10
      else if 0x61 \<le> c \<and> c \<le> 0x66 then c - 0x61 + 10
      else -1)"

text \<open>\<open>mdcheckline\<close> on the contents of the string and the first \<open>sz\<close> bytes of \<open>md\<close>.\<close>

fun mdcheckline_loop :: "byte list \<Rightarrow> byte list \<Rightarrow> int" where
  "mdcheckline_loop s [] = 0"
| "mdcheckline_loop s (m # md) =
     (case s of [] \<Rightarrow> -1 | c1 # s \<Rightarrow>
        let b1 = hexdec (sint c1) in
        if b1 < 0 then -1
        else case s of [] \<Rightarrow> -1 | c2 # s \<Rightarrow>
          let b2 = hexdec (sint c2) in
          if b2 < 0 then -1
          else if word_of_int (push_bit 4 b1 OR b2) \<noteq> m then 1
          else mdcheckline_loop s md)"

definition mdcheckline :: "byte list \<Rightarrow> byte list \<Rightarrow> nat \<Rightarrow> int" where
  "mdcheckline s md sz = mdcheckline_loop s (take sz md)"

definition cryptsum ::
  "'s crypt_ops \<Rightarrow> read_src \<Rightarrow> byte list \<Rightarrow> 's crypt_io \<Rightarrow> int \<times> 's crypt_io" where
  "cryptsum ops src f io =
     (let s = foldl (co_update ops) (co_init ops (io_s io)) (fst src) in
      if snd src then (1, io_put (Wread f) (io\<lparr>io_s := s\<rparr>))
      else let (s, md) = co_sum ops s in (0, io\<lparr>io_s := s, io_md := md\<rparr>))"

text \<open>\<open>printf("%02x", md[i])\<close> for every byte, and \<open>printf("  %s\n", f)\<close>.\<close>

definition hex_digit :: "nat \<Rightarrow> byte" where
  "hex_digit n = (if n < 10 then of_nat (0x30 + n) else of_nat (0x61 + n - 10))"

definition hex02 :: "byte \<Rightarrow> byte list" where
  "hex02 b = [hex_digit (unat b div 16), hex_digit (unat b mod 16)]"

definition md_line :: "byte list \<Rightarrow> byte list \<Rightarrow> nat \<Rightarrow> byte list" where
  "md_line md f len = concat (map hex02 (take len md)) @ [0x20, 0x20] @ f @ [0x0a]"

definition mdprint :: "byte list \<Rightarrow> byte list \<Rightarrow> nat \<Rightarrow> 's crypt_io \<Rightarrow> 's crypt_io" where
  "mdprint md f len = io_put (Stdout (md_line md f len))"

record check_counts =
  formatsucks :: nat
  noread :: nat
  nonmatch :: nat

definition count_format :: "check_counts \<Rightarrow> check_counts" where
  "count_format n = n\<lparr>formatsucks := formatsucks n + 1\<rparr>"

definition count_noread :: "check_counts \<Rightarrow> check_counts" where
  "count_noread n = n\<lparr>noread := noread n + 1\<rparr>"

definition count_nonmatch :: "check_counts \<Rightarrow> check_counts" where
  "count_nonmatch n = n\<lparr>nonmatch := nonmatch n + 1\<rparr>"

text \<open>One pass through the loop of \<open>mdchecklist\<close>.\<close>

definition mdcheck_line ::
  "'s crypt_ops \<Rightarrow> (byte list \<Rightarrow> read_src option) \<Rightarrow> nat \<Rightarrow> byte list \<Rightarrow>
     check_counts \<times> 's crypt_io \<Rightarrow> check_counts \<times> 's crypt_io" where
  "mdcheck_line ops fs sz l st =
     (let (n, io) = st; line = cstr l in
      case find_byte 0x20 line of None \<Rightarrow> (count_format n, io) | Some k \<Rightarrow>
      case drop (k + 1) line of [] \<Rightarrow> (count_format n, io) | c # rest \<Rightarrow>
        if c \<noteq> 0x20 \<and> c \<noteq> 0x2a then (count_format n, io)
        else if k \<noteq> sz * 2 then (count_format n, io)
        else
          let file = takeWhile (\<lambda>c. c \<noteq> 0x0a \<and> c \<noteq> 0x0d) rest in
          case fs file of None \<Rightarrow> (count_noread n, io_put (Wopen file) io) | Some src \<Rightarrow>
            let io = io\<lparr>io_fds := io_fds io + 1\<rparr>;
                (bad, io) = cryptsum ops src file io in
            if bad \<noteq> 0 then (count_noread n, io)
            else
              let r = mdcheckline (take k line) (io_md io) sz;
                  (n, io) = (if r = 0 then (n, io_put (Stdout (file @ bytes '': OK'' @ [0x0a])) io)
                     else if r = 1 then
                       (count_nonmatch n, io_put (Stdout (file @ bytes '': FAILED'' @ [0x0a])) io)
                     else (count_format n, io))
              in (n, io\<lparr>io_fds := io_fds io - 1\<rparr>))"

definition mdchecklist ::
  "'s crypt_ops \<Rightarrow> (byte list \<Rightarrow> read_src option) \<Rightarrow> nat \<Rightarrow> byte list \<Rightarrow>
     check_counts \<times> 's crypt_io \<Rightarrow> check_counts \<times> 's crypt_io" where
  "mdchecklist ops fs sz contents st = fold (mdcheck_line ops fs sz) (split_lines contents) st"

definition dash :: "byte list" where
  "dash = [0x2d]"

text \<open>Reading standard input to its end: what \<open>read\<close> delivers there afterwards.\<close>

definition drain_stdin :: "'s crypt_io \<Rightarrow> 's crypt_io" where
  "drain_stdin io = io\<lparr>io_stdin := ([], snd (io_stdin io))\<rparr>"

definition check_stdin ::
  "'s crypt_ops \<Rightarrow> (byte list \<Rightarrow> read_src option) \<Rightarrow> nat \<Rightarrow>
     check_counts \<times> 's crypt_io \<Rightarrow> check_counts \<times> 's crypt_io" where
  "check_stdin ops fs sz st =
     mdchecklist ops fs sz (concat (fst (io_stdin (snd st)))) (fst st, drain_stdin (snd st))"

fun cryptcheck_loop ::
  "'s crypt_ops \<Rightarrow> (byte list \<Rightarrow> read_src option) \<Rightarrow> nat \<Rightarrow> byte list list \<Rightarrow>
     int \<times> check_counts \<times> 's crypt_io \<Rightarrow> int \<times> check_counts \<times> 's crypt_io" where
  "cryptcheck_loop ops fs sz [] st = st"
| "cryptcheck_loop ops fs sz (a # argv) (ret, n, io) =
     (if a = dash then cryptcheck_loop ops fs sz argv (ret, check_stdin ops fs sz (n, io))
      else case fs a of
        None \<Rightarrow> cryptcheck_loop ops fs sz argv (1, n, io_put (Wfopen a) io)
      | Some src \<Rightarrow>
          let (n, io) = mdchecklist ops fs sz (concat (fst src)) (n, io\<lparr>io_fds := io_fds io + 1\<rparr>)
          in cryptcheck_loop ops fs sz argv (ret, n, io\<lparr>io_fds := io_fds io - 1\<rparr>))"

definition cryptcheck ::
  "'s crypt_ops \<Rightarrow> (byte list \<Rightarrow> read_src option) \<Rightarrow> nat \<Rightarrow> byte list list \<Rightarrow> 's crypt_io \<Rightarrow>
     int \<times> 's crypt_io" where
  "cryptcheck ops fs sz argv io =
     (let n = \<lparr>formatsucks = 0, noread = 0, nonmatch = 0\<rparr>;
          (ret, n, io) = (if argv = [] then (0, check_stdin ops fs sz (n, io))
            else cryptcheck_loop ops fs sz argv (0, n, io));
          (ret, io) = (if formatsucks n \<noteq> 0 then (1, io_put (Wformat (formatsucks n)) io) else (ret, io));
          (ret, io) = (if noread n \<noteq> 0 then (1, io_put (Wnoread (noread n)) io) else (ret, io));
          (ret, io) = (if nonmatch n \<noteq> 0 then (1, io_put (Wnonmatch (nonmatch n)) io) else (ret, io))
      in (ret, io))"

definition stdin_name :: "byte list" where
  "stdin_name = bytes ''<stdin>''"

definition main_stdin :: "'s crypt_ops \<Rightarrow> nat \<Rightarrow> int \<times> 's crypt_io \<Rightarrow> int \<times> 's crypt_io" where
  "main_stdin ops sz st =
     (let (ret, io) = st;
          (bad, io') = cryptsum ops (io_stdin io) stdin_name io;
          io' = drain_stdin io'
      in if bad \<noteq> 0 then (1, io') else (ret, mdprint (io_md io') stdin_name sz io'))"

fun cryptmain_loop ::
  "'s crypt_ops \<Rightarrow> (byte list \<Rightarrow> read_src option) \<Rightarrow> nat \<Rightarrow> byte list list \<Rightarrow>
     int \<times> 's crypt_io \<Rightarrow> int \<times> 's crypt_io" where
  "cryptmain_loop ops fs sz [] st = st"
| "cryptmain_loop ops fs sz (a # argv) (ret, io) =
     (if a = dash then cryptmain_loop ops fs sz argv (main_stdin ops sz (ret, io))
      else case fs a of
        None \<Rightarrow> cryptmain_loop ops fs sz argv (1, io_put (Wopen a) io)
      | Some src \<Rightarrow>
          let (bad, io) = cryptsum ops src a (io\<lparr>io_fds := io_fds io + 1\<rparr>);
              (ret, io) = (if bad \<noteq> 0 then (1, io) else (ret, mdprint (io_md io) a sz io))
          in cryptmain_loop ops fs sz argv (ret, io\<lparr>io_fds := io_fds io - 1\<rparr>))"

definition cryptmain ::
  "'s crypt_ops \<Rightarrow> (byte list \<Rightarrow> read_src option) \<Rightarrow> nat \<Rightarrow> byte list list \<Rightarrow> 's crypt_io \<Rightarrow>
     int \<times> 's crypt_io" where
  "cryptmain ops fs sz argv io =
     (if argv = [] then main_stdin ops sz (0, io) else cryptmain_loop ops fs sz argv (0, io))"

text \<open>\<open>fshut\<close>, with the answers of \<open>ferror\<close> and \<open>fclose\<close>.\<close>

definition fshut :: "bool \<Rightarrow> bool \<Rightarrow> byte list \<Rightarrow> 's crypt_io \<Rightarrow> int \<times> 's crypt_io" where
  "fshut ferr fclo name io =
     (let (ret, io) = (if ferr then (1, io_put (Wferror name) io) else (0, io)) in
      if fclo \<and> ret = 0 then (1, io_put (Wfclose name) io) else (ret, io))"

text \<open>The option loop \<open>ARGBEGIN ... ARGEND\<close> of the commands; \<open>None\<close> is the exit in \<open>usage\<close>.\<close>

fun sum_flags :: "byte list \<Rightarrow> bool \<Rightarrow> bool option" where
  "sum_flags [] chk = Some chk"
| "sum_flags (c # s) chk =
     (if c = 0x62 \<or> c = 0x74 then sum_flags s chk
      else if c = 0x63 then sum_flags s True
      else None)"

fun sum_args :: "byte list list \<Rightarrow> bool \<Rightarrow> (bool \<times> byte list list) option" where
  "sum_args [] chk = Some (chk, [])"
| "sum_args (a # argv) chk =
     (case a of
        c # d # s \<Rightarrow>
          if c \<noteq> 0x2d then Some (chk, a # argv)
          else if d = 0x2d \<and> s = [] then Some (chk, argv)
          else (case sum_flags (d # s) chk of None \<Rightarrow> None | Some chk \<Rightarrow> sum_args argv chk)
      | _ \<Rightarrow> Some (chk, a # argv))"

text \<open>
  The common \<open>main\<close> of the eight commands; \<open>shut\<close> holds the answers of \<open>ferror\<close> and \<open>fclose\<close> for
  standard input and output.
\<close>

definition sum_main ::
  "'s crypt_ops \<Rightarrow> nat \<Rightarrow> (byte list \<Rightarrow> read_src option) \<Rightarrow> (bool \<times> bool) \<times> (bool \<times> bool) \<Rightarrow>
     byte list list \<Rightarrow> 's crypt_io \<Rightarrow> (int \<times> 's crypt_io) option" where
  "sum_main ops sz fs shut argv io =
     (case sum_args argv False of
        None \<Rightarrow> None
      | Some (chk, argv) \<Rightarrow>
          let (ret, io) = (if chk then cryptcheck ops fs sz argv io else cryptmain ops fs sz argv io);
              (r1, io) = fshut (fst (fst shut)) (snd (fst shut)) stdin_name io;
              (r2, io) = fshut (fst (snd shut)) (snd (snd shut)) (bytes ''<stdout>'') io
          in Some (ret OR (r1 OR r2), io))"

type_synonym 's sum_command = "(byte list \<Rightarrow> read_src option) \<Rightarrow> (bool \<times> bool) \<times> (bool \<times> bool) \<Rightarrow>
  byte list list \<Rightarrow> 's crypt_io \<Rightarrow> (int \<times> 's crypt_io) option"

definition md5_ops :: "32 word md_ctx crypt_ops" where
  "md5_ops = \<lparr>co_init = md5_init, co_update = md5_update, co_sum = md5_sum\<rparr>"

definition sha1_ops :: "32 word md_ctx crypt_ops" where
  "sha1_ops = \<lparr>co_init = sha1_init, co_update = sha1_update, co_sum = sha1_sum\<rparr>"

definition sha224_ops :: "32 word md_ctx crypt_ops" where
  "sha224_ops = \<lparr>co_init = sha224_init, co_update = sha256_update, co_sum = sha224_sum\<rparr>"

definition sha256_ops :: "32 word md_ctx crypt_ops" where
  "sha256_ops = \<lparr>co_init = sha256_init, co_update = sha256_update, co_sum = sha256_sum\<rparr>"

definition sha384_ops :: "64 word md_ctx crypt_ops" where
  "sha384_ops = \<lparr>co_init = sha384_init, co_update = sha512_update, co_sum = sha384_sum\<rparr>"

definition sha512_ops :: "64 word md_ctx crypt_ops" where
  "sha512_ops = \<lparr>co_init = sha512_init, co_update = sha512_update, co_sum = sha512_sum\<rparr>"

definition sha512_224_ops :: "64 word md_ctx crypt_ops" where
  "sha512_224_ops = \<lparr>co_init = sha512_224_init, co_update = sha512_update, co_sum = sha512_224_sum\<rparr>"

definition sha512_256_ops :: "64 word md_ctx crypt_ops" where
  "sha512_256_ops = \<lparr>co_init = sha512_256_init, co_update = sha512_update, co_sum = sha512_256_sum\<rparr>"

definition md5sum_main :: "32 word md_ctx sum_command" where
  "md5sum_main = sum_main md5_ops 16"

definition sha1sum_main :: "32 word md_ctx sum_command" where
  "sha1sum_main = sum_main sha1_ops 20"

definition sha224sum_main :: "32 word md_ctx sum_command" where
  "sha224sum_main = sum_main sha224_ops 28"

definition sha256sum_main :: "32 word md_ctx sum_command" where
  "sha256sum_main = sum_main sha256_ops 32"

definition sha384sum_main :: "64 word md_ctx sum_command" where
  "sha384sum_main = sum_main sha384_ops 48"

definition sha512sum_main :: "64 word md_ctx sum_command" where
  "sha512sum_main = sum_main sha512_ops 64"

definition sha512_224sum_main :: "64 word md_ctx sum_command" where
  "sha512_224sum_main = sum_main sha512_224_ops 28"

definition sha512_256sum_main :: "64 word md_ctx sum_command" where
  "sha512_256sum_main = sum_main sha512_256_ops 32"

section \<open>Lines of digests\<close>

text \<open>What \<open>mdcheckline\<close> decides: every byte is given by two hexadecimal digits of either case.\<close>

definition hex_matches :: "byte list \<Rightarrow> byte list \<Rightarrow> bool" where
  "hex_matches s md \<longleftrightarrow> 2 * length md \<le> length s \<and>
     (\<forall>i < length md. 0 \<le> hexdec (sint (s ! (2 * i))) \<and> 0 \<le> hexdec (sint (s ! (2 * i + 1))) \<and>
        hexdec (sint (s ! (2 * i))) * 16 + hexdec (sint (s ! (2 * i + 1))) = uint (md ! i))"

lemma hexdec_bounds: "hexdec c < 16" "-1 \<le> hexdec c"
  by (simp_all add: hexdec_def)

lemma hex_byte_eq:
  assumes "0 \<le> hexdec c" "0 \<le> hexdec d"
  shows "word_of_int (push_bit 4 (hexdec c) OR hexdec d) = (m :: byte) \<longleftrightarrow>
    hexdec c * 16 + hexdec d = uint m"
proof -
  have *: "push_bit 4 (hexdec c) OR hexdec d = hexdec c * 16 + hexdec d"
    using push_or_eq_add [of "hexdec d" 4 "hexdec c"] assms hexdec_bounds [of d] by simp
  have "0 \<le> hexdec c * 16 + hexdec d" "hexdec c * 16 + hexdec d < 256"
    using assms hexdec_bounds [of c] hexdec_bounds [of d] by linarith+
  then have "uint (word_of_int (hexdec c * 16 + hexdec d) :: byte) = hexdec c * 16 + hexdec d"
    by (simp add: uint_word_of_int del: of_int_add of_int_mult)
  then show ?thesis unfolding * by (metis word_of_int_uint)
qed

lemma hex_matches_Cons:
  "hex_matches s (m # md) \<longleftrightarrow>
     (\<exists>a b r. s = a # b # r \<and> 0 \<le> hexdec (sint a) \<and> 0 \<le> hexdec (sint b) \<and>
        hexdec (sint a) * 16 + hexdec (sint b) = uint m \<and> hex_matches r md)"
  (is "?l \<longleftrightarrow> ?r")
proof (cases "\<exists>a b r. s = a # b # r")
  case True
  then obtain a b r where s: "s = a # b # r" by blast
  have "(\<forall>i < Suc (length md). P i) \<longleftrightarrow> P 0 \<and> (\<forall>i < length md. P (Suc i))" for P
    by (rule All_less_Suc2)
  then show ?thesis unfolding s by (simp add: hex_matches_def) blast
next
  case False
  then have "length s < 2" by (cases s; cases "tl s") auto
  then show ?thesis using False by (auto simp: hex_matches_def)
qed

lemma mdcheckline_loop_0: "mdcheckline_loop s md = 0 \<longleftrightarrow> hex_matches s md"
proof (induction md arbitrary: s)
  case Nil
  then show ?case by (simp add: hex_matches_def)
next
  case (Cons m md)
  then show ?case
    by (auto simp: hex_matches_Cons hex_byte_eq Let_def not_less split: list.splits)
qed

lemma mdcheckline_range: "mdcheckline s md sz \<in> {-1, 0, 1}"
proof -
  have "mdcheckline_loop s ms \<in> {-1, 0, 1}" for ms
    by (induction ms arbitrary: s) (auto simp: Let_def split: list.splits)
  then show ?thesis by (simp add: mdcheckline_def)
qed

lemma hex_digit_facts:
  assumes "n < 16"
  shows "hexdec (sint (hex_digit n)) = int n" "hex_digit n \<notin> {0, 0x20, 0x0a}"
proof -
  have "list_all (\<lambda>n. hexdec (sint (hex_digit n)) = int n \<and> hex_digit n \<notin> {0, 0x20, 0x0a}) [0..<16]"
    by code_simp
  then show "hexdec (sint (hex_digit n)) = int n" "hex_digit n \<notin> {0, 0x20, 0x0a}"
    using assms by (auto simp: list_all_iff)
qed

lemma length_hex: "length (concat (map hex02 md)) = 2 * length md"
  by (induction md) (simp_all add: hex02_def)

lemma hex_matches_hex: "hex_matches (concat (map hex02 md)) md"
proof (induction md)
  case (Cons m md)
  have "unat m div 16 < 16" using unat_byte_less [of m] by simp
  moreover have "int (unat m div 16) * 16 + int (unat m mod 16) = uint m"
    by (metis div_mult_mod_eq of_nat_add of_nat_mult of_nat_numeral uint_nat)
  ultimately show ?case
    using Cons by (simp add: hex02_def hex_matches_Cons hex_digit_facts)
qed (simp add: hex_matches_def)

lemma hex_chars: "c \<in> set (concat (map hex02 md)) \<Longrightarrow> c \<notin> {0, 0x20, 0x0a}"
proof -
  assume "c \<in> set (concat (map hex02 md))"
  then obtain m where "c \<in> set (hex02 m)" by auto
  moreover have "unat m div 16 < 16" using unat_byte_less [of m] by simp
  ultimately show ?thesis using hex_digit_facts(2) by (auto simp: hex02_def)
qed

text \<open>A file name that survives being printed on a line and read back.\<close>

definition plain_name :: "byte list \<Rightarrow> bool" where
  "plain_name f \<longleftrightarrow> nonul f \<and> 0x0a \<notin> set f \<and> 0x0d \<notin> set f"

lemma find_byte_skip: "c \<notin> set s \<Longrightarrow> find_byte c (s @ c # t) = Some (length s)"
  by (induction s) auto

lemma md_line_parse:
  assumes "length md = sz" "plain_name f"
  shows "cstr (md_line md f sz) = md_line md f sz"
    and "find_byte 0x20 (md_line md f sz) = Some (2 * sz)"
    and "drop (Suc (2 * sz)) (md_line md f sz) = 0x20 # f @ [0x0a]"
    and "take (2 * sz) (md_line md f sz) = concat (map hex02 md)"
    and "takeWhile (\<lambda>c. c \<noteq> 0x0a \<and> c \<noteq> 0x0d) (f @ [0x0a]) = f"
proof -
  have hex: "x \<notin> {0, 0x20, 0x0a}" if "x \<in> set (concat (map hex02 md))" for x
    using that by (rule hex_chars)
  have "nonul (concat (map hex02 md))" "0x20 \<notin> set (concat (map hex02 md))"
    using hex by (auto simp: nonul_def)
  then show "cstr (md_line md f sz) = md_line md f sz" "find_byte 0x20 (md_line md f sz) = Some (2 * sz)"
    using assms by (auto simp: md_line_def plain_name_def length_hex cstr_nonul find_byte_skip)
  show "drop (Suc (2 * sz)) (md_line md f sz) = 0x20 # f @ [0x0a]"
    "take (2 * sz) (md_line md f sz) = concat (map hex02 md)"
    using assms by (simp_all add: md_line_def length_hex)
  show "takeWhile (\<lambda>c. c \<noteq> 0x0a \<and> c \<noteq> 0x0d) (f @ [0x0a]) = f"
    using assms(2) by (subst takeWhile_append2) (auto simp: plain_name_def)
qed

lemma split_lines_concat:
  "\<forall>l \<in> set ls. 0x0a \<notin> set l \<Longrightarrow> split_lines (concat (map (\<lambda>l. l @ [0x0a]) ls)) = map (\<lambda>l. l @ [0x0a]) ls"
  by (induction ls) (auto simp: split_lines_line)

lemma md_lines_split:
  assumes "\<forall>f \<in> set fl. plain_name f"
  shows "split_lines (concat (map (\<lambda>f. md_line (md f) f sz) fl)) = map (\<lambda>f. md_line (md f) f sz) fl"
proof -
  let ?l = "\<lambda>f. concat (map hex02 (take sz (md f))) @ [0x20, 0x20] @ f"
  have *: "md_line (md f) f sz = ?l f @ [0x0a]" for f by (simp add: md_line_def)
  have "0x0a \<notin> set (?l f)" if "f \<in> set fl" for f
    using assms that hex_chars [of "0x0a" "take sz (md f)"] by (auto simp: plain_name_def)
  then show ?thesis
    using split_lines_concat [of "map ?l fl"] by (simp add: * comp_def)
qed

section \<open>Descriptors and counts, for every digest\<close>

lemma io_put_simps [simp]:
  "io_fds (io_put e io) = io_fds io" "io_md (io_put e io) = io_md io"
  "io_s (io_put e io) = io_s io" "io_stdin (io_put e io) = io_stdin io"
  "io_log (io_put e io) = io_log io @ [e]"
  by (simp_all add: io_put_def)

lemma cryptsum_frame [simp]:
  "io_fds (snd (cryptsum ops src f io)) = io_fds io"
  "io_stdin (snd (cryptsum ops src f io)) = io_stdin io"
  "fst (cryptsum ops src f io) = (if snd src then 1 else 0)"
  by (simp_all add: cryptsum_def Let_def split: prod.splits)

text \<open>The file a line of a checksum list names, when the line has the right form.\<close>

definition line_file :: "nat \<Rightarrow> byte list \<Rightarrow> byte list option" where
  "line_file sz l =
     (let line = cstr l in
      case find_byte 0x20 line of None \<Rightarrow> None | Some k \<Rightarrow>
      case drop (k + 1) line of [] \<Rightarrow> None | c # rest \<Rightarrow>
        if (c = 0x20 \<or> c = 0x2a) \<and> k = sz * 2
        then Some (takeWhile (\<lambda>c. c \<noteq> 0x0a \<and> c \<noteq> 0x0d) rest) else None)"

definition line_unreadable :: "(byte list \<Rightarrow> read_src option) \<Rightarrow> nat \<Rightarrow> byte list \<Rightarrow> bool" where
  "line_unreadable fs sz l \<longleftrightarrow>
     (\<exists>f cs. line_file sz l = Some f \<and> fs f = Some (cs, True))"

text \<open>\<open>mdcheck_line\<close> by the form of the line.\<close>

lemma mdcheck_line_None:
  "line_file sz l = None \<Longrightarrow> mdcheck_line ops fs sz l (n, io) = (count_format n, io)"
  by (auto simp: line_file_def mdcheck_line_def Let_def split: option.splits list.splits if_splits)

lemma mdcheck_line_Some:
  assumes "line_file sz l = Some f"
  shows "mdcheck_line ops fs sz l (n, io) =
    (case fs f of None \<Rightarrow> (count_noread n, io_put (Wopen f) io) | Some src \<Rightarrow>
      let (bad, io) = cryptsum ops src f (io\<lparr>io_fds := io_fds io + 1\<rparr>) in
      if bad \<noteq> 0 then (count_noread n, io)
      else
        let r = mdcheckline (take (sz * 2) (cstr l)) (io_md io) sz;
            (n, io) = (if r = 0 then (n, io_put (Stdout (f @ bytes '': OK'' @ [0x0a])) io)
               else if r = 1 then (count_nonmatch n, io_put (Stdout (f @ bytes '': FAILED'' @ [0x0a])) io)
               else (count_format n, io))
        in (n, io\<lparr>io_fds := io_fds io - 1\<rparr>))"
  using assms
  by (auto simp: line_file_def mdcheck_line_def Let_def
      split: option.splits list.splits if_splits)

lemma mdcheck_line_fds:
  "io_fds (snd (mdcheck_line ops fs sz l (n, io))) =
     io_fds io + (if line_unreadable fs sz l then 1 else 0)"
proof (cases "line_file sz l")
  case None
  then show ?thesis by (simp add: mdcheck_line_None line_unreadable_def)
next
  case (Some f)
  show ?thesis
  proof (cases "fs f")
    case (Some src)
    have "line_unreadable fs sz l \<longleftrightarrow> snd src"
      using \<open>line_file sz l = Some f\<close> Some by (cases src) (auto simp: line_unreadable_def)
    moreover have "io_fds (snd (cryptsum ops src f (io\<lparr>io_fds := io_fds io + 1\<rparr>))) = io_fds io + 1"
      "fst (cryptsum ops src f (io\<lparr>io_fds := io_fds io + 1\<rparr>)) = (if snd src then 1 else 0)"
      by simp_all
    ultimately show ?thesis
      using mdcheck_line_Some [OF \<open>line_file sz l = Some f\<close>, of ops fs n io] Some
      by (simp add: Let_def case_prod_unfold)
  qed (simp add: mdcheck_line_Some [OF Some] line_unreadable_def Some)
qed

lemma fold_fds:
  "io_fds (snd (fold (mdcheck_line ops fs sz) ls (n, io))) =
     io_fds io + length (filter (line_unreadable fs sz) ls)"
proof (induction ls arbitrary: n io)
  case (Cons l ls)
  obtain n' io' where *: "mdcheck_line ops fs sz l (n, io) = (n', io')" by fastforce
  from mdcheck_line_fds [of ops fs sz l n io] * Cons show ?case by simp
qed simp

section \<open>What the commands need of a digest\<close>

text \<open>A line is right when it names a readable file and holds the digest of its contents.\<close>

definition line_ok :: "nat \<Rightarrow> (byte list \<Rightarrow> byte list) \<Rightarrow> (byte list \<Rightarrow> read_src option) \<Rightarrow> byte list \<Rightarrow> bool" where
  "line_ok sz H fs l \<longleftrightarrow>
     (\<exists>f cs. line_file sz l = Some f \<and> fs f = Some (cs, False) \<and>
        hex_matches (take (sz * 2) (cstr l)) (H (concat cs)))"

definition ok_text :: "byte list \<Rightarrow> io_event" where
  "ok_text f = Stdout (f @ bytes '': OK'' @ [0x0a])"

definition bad_count :: "check_counts \<Rightarrow> nat" where
  "bad_count n = formatsucks n + noread n + nonmatch n"

lemma bad_count_simps [simp]:
  "bad_count (count_format n) = Suc (bad_count n)"
  "bad_count (count_noread n) = Suc (bad_count n)"
  "bad_count (count_nonmatch n) = Suc (bad_count n)"
  by (simp_all add: bad_count_def count_format_def count_noread_def count_nonmatch_def)

text \<open>Files that can be read, and what they hold.\<close>

definition readable :: "(byte list \<Rightarrow> read_src option) \<Rightarrow> byte list \<Rightarrow> bool" where
  "readable fs f \<longleftrightarrow> (\<exists>cs. fs f = Some (cs, False))"

definition contents :: "(byte list \<Rightarrow> read_src option) \<Rightarrow> byte list \<Rightarrow> byte list" where
  "contents fs f = concat (fst (the (fs f)))"

locale digest_ops =
  fixes ops :: "'s crypt_ops" and inv :: "'s \<Rightarrow> bool" and H :: "byte list \<Rightarrow> byte list" and sz :: nat
  assumes sum_hash:
      "inv s \<Longrightarrow> snd (co_sum ops (foldl (co_update ops) (co_init ops s) cs)) = H (concat cs)"
    and inv_sum: "inv s \<Longrightarrow> inv (fst (co_sum ops (foldl (co_update ops) (co_init ops s) cs)))"
    and inv_update: "inv s \<Longrightarrow> inv (foldl (co_update ops) (co_init ops s) cs)"
    and length_H: "length (H m) = sz"
begin

lemma cryptsum_ok:
  assumes "inv (io_s io)" "src = (cs, False)"
  obtains s where "inv s" "cryptsum ops src f io = (0, io\<lparr>io_s := s, io_md := H (concat cs)\<rparr>)"
  using assms sum_hash [of "io_s io" cs] inv_sum [of "io_s io" cs]
  by (fastforce simp: cryptsum_def Let_def case_prod_unfold)

lemma cryptsum_inv: "inv (io_s io) \<Longrightarrow> inv (io_s (snd (cryptsum ops src f io)))"
  using inv_sum inv_update by (simp add: cryptsum_def Let_def case_prod_unfold)

lemma check_line:
  assumes "inv (io_s io)"
  shows "inv (io_s (snd (mdcheck_line ops fs sz l (n, io))))"
    and "bad_count (fst (mdcheck_line ops fs sz l (n, io))) = bad_count n + (if line_ok sz H fs l then 0 else 1)"
proof -
  let ?io = "io\<lparr>io_fds := io_fds io + 1\<rparr>"
  show "inv (io_s (snd (mdcheck_line ops fs sz l (n, io))))"
  proof (cases "line_file sz l")
    case (Some f)
    have "inv (io_s (snd (cryptsum ops src f ?io)))" for src
      using assms by (intro cryptsum_inv) simp
    then show ?thesis
      using assms mdcheck_line_Some [OF Some, of ops fs n io]
      by (simp add: Let_def case_prod_unfold split: option.splits)
  qed (use assms in \<open>simp add: mdcheck_line_None\<close>)
  show "bad_count (fst (mdcheck_line ops fs sz l (n, io))) = bad_count n + (if line_ok sz H fs l then 0 else 1)"
  proof (cases "line_file sz l")
    case (Some f)
    note step = mdcheck_line_Some [OF Some, of ops fs n io]
    show ?thesis
    proof (cases "fs f")
      case (Some src)
      obtain cs e where src: "src = (cs, e)" by (cases src)
      show ?thesis
      proof (cases e)
        case True
        moreover have "fst (cryptsum ops (cs, True) f ?io) = 1" by simp
        ultimately show ?thesis
          using step Some \<open>line_file sz l = Some f\<close> src
          by (auto simp: Let_def case_prod_unfold line_ok_def)
      next
        case False
        obtain s where "cryptsum ops src f ?io = (0, ?io\<lparr>io_s := s, io_md := H (concat cs)\<rparr>)"
          using cryptsum_ok [of ?io src cs f] assms src False by auto
        moreover have "line_ok sz H fs l \<longleftrightarrow> mdcheckline (take (sz * 2) (cstr l)) (H (concat cs)) sz = 0"
          using Some src False \<open>line_file sz l = Some f\<close> length_H
          by (auto simp: line_ok_def mdcheckline_def mdcheckline_loop_0)
        ultimately show ?thesis
          using step Some by (simp add: Let_def)
      qed
    qed (use step \<open>line_file sz l = Some f\<close> in \<open>auto simp: line_ok_def\<close>)
  qed (simp add: mdcheck_line_None line_ok_def)
qed

lemma check_lines:
  assumes "inv (io_s io)"
  shows "inv (io_s (snd (fold (mdcheck_line ops fs sz) ls (n, io)))) \<and>
    bad_count (fst (fold (mdcheck_line ops fs sz) ls (n, io))) =
      bad_count n + length (filter (\<lambda>l. \<not> line_ok sz H fs l) ls)"
  using assms
proof (induction ls arbitrary: n io)
  case (Cons l ls)
  obtain n' io' where *: "mdcheck_line ops fs sz l (n, io) = (n', io')" by fastforce
  from check_line [OF Cons.prems, of fs l n] * have "inv (io_s io')"
    "bad_count n' = bad_count n + (if line_ok sz H fs l then 0 else 1)" by simp_all
  with Cons.IH [of io' n'] * show ?case by simp
qed simp

text \<open>The exit status of the check: no list failed to open and every line is right.\<close>

lemma cryptcheck_loop_status:
  assumes "inv (io_s io)" "dash \<notin> set argv"
  shows "case cryptcheck_loop ops fs sz argv (ret, n, io) of (ret', n', io') \<Rightarrow>
    (ret' = 0 \<longleftrightarrow> ret = 0 \<and> (\<forall>a \<in> set argv. fs a \<noteq> None)) \<and>
    (bad_count n' = 0 \<longleftrightarrow> bad_count n = 0 \<and>
      (\<forall>a \<in> set argv. \<forall>cs e. fs a = Some (cs, e) \<longrightarrow> (\<forall>l \<in> set (split_lines (concat cs)). line_ok sz H fs l)))"
  using assms
proof (induction argv arbitrary: ret n io)
  case (Cons a argv)
  show ?case
  proof (cases "fs a")
    case None
    have "inv (io_s (io_put (Wfopen a) io))" using Cons.prems by simp
    from Cons.IH [OF this, of 1 n] Cons.prems None show ?thesis by (auto split: prod.splits)
  next
    case (Some src)
    obtain cs e where src: "src = (cs, e)" by (cases src)
    let ?io = "io\<lparr>io_fds := io_fds io + 1\<rparr>"
    obtain n' io' where chk: "mdchecklist ops fs sz (concat cs) (n, ?io) = (n', io')" by fastforce
    have i: "inv (io_s ?io)" using Cons.prems by simp
    have "inv (io_s io')" and n': "bad_count n' = bad_count n +
        length (filter (\<lambda>l. \<not> line_ok sz H fs l) (split_lines (concat cs)))"
      using check_lines [OF i, of fs "split_lines (concat cs)" n] chk
      by (simp_all add: mdchecklist_def)
    then have "inv (io_s (io'\<lparr>io_fds := io_fds io' - 1\<rparr>))" by simp
    from Cons.IH [OF this, of ret n'] Cons.prems Some src chk n' show ?thesis
      by (auto simp: filter_empty_conv split: prod.splits)
  qed
qed simp

lemma cryptcheck_status:
  assumes "inv (io_s io)" "dash \<notin> set argv" "argv \<noteq> []"
  shows "fst (cryptcheck ops fs sz argv io) = 0 \<longleftrightarrow>
    (\<forall>a \<in> set argv. \<exists>cs e. fs a = Some (cs, e) \<and> (\<forall>l \<in> set (split_lines (concat cs)). line_ok sz H fs l))"
proof -
  let ?n = "\<lparr>formatsucks = 0, noread = 0, nonmatch = 0\<rparr>"
  obtain ret n io' where *: "cryptcheck_loop ops fs sz argv (0, ?n, io) = (ret, n, io')"
    by (metis surj_pair)
  have "fst (cryptcheck ops fs sz argv io) = 0 \<longleftrightarrow> ret = 0 \<and> bad_count n = 0"
    using assms(3) * by (auto simp: cryptcheck_def Let_def bad_count_def)
  moreover have "bad_count ?n = 0" by (simp add: bad_count_def)
  ultimately show ?thesis
    using cryptcheck_loop_status [OF assms(1,2), where fs = fs and ret = 0 and n = ?n] *
    by auto
qed

text \<open>Printing the digests of readable files, and checking the printed list.\<close>

lemma cryptmain_loop_prints:
  assumes "inv (io_s io)" "\<forall>f \<in> set argv. readable fs f" "dash \<notin> set argv"
  shows "\<exists>io'. cryptmain_loop ops fs sz argv (ret, io) = (ret, io') \<and> inv (io_s io') \<and>
    io_fds io' = io_fds io \<and>
    io_log io' = io_log io @ map (\<lambda>f. Stdout (md_line (H (contents fs f)) f sz)) argv"
  using assms
proof (induction argv arbitrary: io)
  case (Cons f argv)
  obtain cs where cs: "fs f = Some (cs, False)" using Cons.prems by (auto simp: readable_def)
  let ?io = "io\<lparr>io_fds := io_fds io + 1\<rparr>" and ?md = "H (concat cs)"
  obtain s where s: "inv s" "cryptsum ops (cs, False) f ?io = (0, ?io\<lparr>io_s := s, io_md := ?md\<rparr>)"
    using cryptsum_ok [of ?io "(cs, False)" cs f] Cons.prems by auto
  let ?io2 = "mdprint ?md f sz (?io\<lparr>io_s := s, io_md := ?md\<rparr>)"
  have "cryptmain_loop ops fs sz (f # argv) (ret, io) =
      cryptmain_loop ops fs sz argv (ret, ?io2\<lparr>io_fds := io_fds ?io2 - 1\<rparr>)"
    using cs s(2) Cons.prems(3) by (auto simp: Let_def)
  moreover have "inv (io_s (?io2\<lparr>io_fds := io_fds ?io2 - 1\<rparr>))" using s(1) by (simp add: mdprint_def)
  ultimately show ?case
    using Cons.IH [of "?io2\<lparr>io_fds := io_fds ?io2 - 1\<rparr>"] Cons.prems cs
    by (auto simp: mdprint_def contents_def)
qed simp

lemma line_file_md_line:
  "length md = sz \<Longrightarrow> plain_name f \<Longrightarrow> line_file sz (md_line md f sz) = Some f"
  using md_line_parse [of md sz f] by (simp add: line_file_def mult.commute)

lemma check_printed_line:
  assumes "inv (io_s io)" "plain_name f" "fs f = Some (cs, False)"
  shows "\<exists>io'. mdcheck_line ops fs sz (md_line (H (concat cs)) f sz) (n, io) = (n, io') \<and>
    inv (io_s io') \<and> io_log io' = io_log io @ [ok_text f]"
proof -
  let ?io = "io\<lparr>io_fds := io_fds io + 1\<rparr>" and ?md = "H (concat cs)"
  obtain s where s: "inv s" "cryptsum ops (cs, False) f ?io = (0, ?io\<lparr>io_s := s, io_md := ?md\<rparr>)"
    using cryptsum_ok [of ?io "(cs, False)" cs f] assms(1) by auto
  have "mdcheckline (take (sz * 2) (cstr (md_line ?md f sz))) ?md sz = 0"
    using md_line_parse [OF length_H assms(2)] length_H [of "concat cs"] hex_matches_hex [of ?md]
    by (simp add: mdcheckline_def mdcheckline_loop_0 mult.commute)
  then show ?thesis
    using mdcheck_line_Some [OF line_file_md_line [OF length_H assms(2)], of ops fs "concat cs" n io]
      assms(3) s
    by (simp add: Let_def ok_text_def)
qed

lemma check_printed_list:
  assumes "inv (io_s io)" "\<forall>f \<in> set fl. plain_name f \<and> readable fs f"
  shows "\<exists>io'. mdchecklist ops fs sz (concat (map (\<lambda>f. md_line (H (contents fs f)) f sz) fl)) (n, io) =
    (n, io') \<and> inv (io_s io') \<and> io_log io' = io_log io @ map ok_text fl"
proof -
  have "\<exists>io'. fold (mdcheck_line ops fs sz) (map (\<lambda>f. md_line (H (contents fs f)) f sz) fl) (n, io) =
      (n, io') \<and> inv (io_s io') \<and> io_log io' = io_log io @ map ok_text fl"
    using assms
  proof (induction fl arbitrary: io)
    case (Cons f fl)
    then obtain cs where cs: "fs f = Some (cs, False)" by (auto simp: readable_def)
    then obtain io1 where "mdcheck_line ops fs sz (md_line (H (contents fs f)) f sz) (n, io) = (n, io1)"
      "inv (io_s io1)" "io_log io1 = io_log io @ [ok_text f]"
      using check_printed_line [of io f fs cs n] Cons.prems by (auto simp: contents_def)
    then show ?case using Cons.IH [of io1] Cons.prems by auto
  qed simp
  then show ?thesis using assms(2) md_lines_split [of fl] by (simp add: mdchecklist_def)
qed

lemma check_printed:
  assumes "inv (io_s io)" "\<forall>f \<in> set fl. plain_name f \<and> readable fs f" "lst \<noteq> dash"
    and "fs lst = Some ([concat (map (\<lambda>f. md_line (H (contents fs f)) f sz) fl)], False)"
  shows "\<exists>io'. cryptcheck ops fs sz [lst] io = (0, io') \<and> io_log io' = io_log io @ map ok_text fl"
proof -
  let ?io = "io\<lparr>io_fds := io_fds io + 1\<rparr>" and ?n = "\<lparr>formatsucks = 0, noread = 0, nonmatch = 0\<rparr>"
  obtain io' where "mdchecklist ops fs sz (concat (map (\<lambda>f. md_line (H (contents fs f)) f sz) fl))
      (?n, ?io) = (?n, io')" "io_log io' = io_log ?io @ map ok_text fl"
    using check_printed_list [of ?io fl fs ?n] assms(1,2) by auto
  then show ?thesis using assms(3,4) by (simp add: cryptcheck_def Let_def)
qed

text \<open>The command as a whole, on names that are not options.\<close>

lemma sum_main_prints:
  assumes "inv (io_s io)" "\<forall>f \<in> set argv. readable fs f" "argv \<noteq> []" "\<forall>f \<in> set argv. hd f \<noteq> 0x2d"
  shows "\<exists>io'. sum_main ops sz fs ((False, False), (False, False)) argv io = Some (0, io') \<and>
    io_fds io' = io_fds io \<and>
    io_log io' = io_log io @ map (\<lambda>f. Stdout (md_line (H (contents fs f)) f sz)) argv"
proof -
  have "dash \<notin> set argv" using assms(4) by (auto simp: dash_def)
  moreover have "sum_args argv False = Some (False, argv)"
    using assms(3,4) by (cases argv) (auto split: list.splits)
  ultimately show ?thesis
    using cryptmain_loop_prints [OF assms(1,2), of 0] assms(3)
    by (auto simp: sum_main_def cryptmain_def fshut_def Let_def)
qed

lemma sum_main_checks:
  assumes "inv (io_s io)" "\<forall>f \<in> set fl. plain_name f \<and> readable fs f" "lst \<noteq> []" "hd lst \<noteq> 0x2d"
    and "fs lst = Some ([concat (map (\<lambda>f. md_line (H (contents fs f)) f sz) fl)], False)"
  shows "\<exists>io'. sum_main ops sz fs ((False, False), (False, False)) [[0x2d, 0x63], lst] io = Some (0, io') \<and>
    io_log io' = io_log io @ map ok_text fl"
proof -
  have "lst \<noteq> dash" using assms(4) by (auto simp: dash_def)
  moreover have "sum_args [[0x2d, 0x63], lst] False = Some (True, [lst])"
    using assms(3,4) by (cases lst) (auto split: list.splits)
  ultimately show ?thesis
    using check_printed [OF assms(1,2) _ assms(5)] by (auto simp: sum_main_def fshut_def Let_def)
qed

end

section \<open>The eight digests\<close>

definition ctx_ok :: "nat \<Rightarrow> 'w md_ctx \<Rightarrow> bool" where
  "ctx_ok B s \<longleftrightarrow> length (md_buf s) = B"

text \<open>The digests as functions of the message.\<close>

definition ctx0 :: "'w md_ctx" where
  "ctx0 = \<lparr>md_len = 0, md_h = [], md_buf = []\<rparr>"

definition MD5 :: "byte list \<Rightarrow> byte list" where
  "MD5 m = concat (map le32 (md_hash 64 56 56 le64 rfc1321_compress (md_h (md5_init ctx0)) m))"

definition SHA1 :: "byte list \<Rightarrow> byte list" where
  "SHA1 m = concat (map be32 (md_hash 64 56 56 be64 rfc3174_compress (md_h (sha1_init ctx0)) m))"

definition SHA224 :: "byte list \<Rightarrow> byte list" where
  "SHA224 m = concat (map be32 (take 7 (md_hash 64 56 56 be64 fips256_compress (md_h (sha224_init ctx0)) m)))"

definition SHA256 :: "byte list \<Rightarrow> byte list" where
  "SHA256 m = concat (map be32 (md_hash 64 56 56 be64 fips256_compress (md_h (sha256_init ctx0)) m))"

definition SHA384 :: "byte list \<Rightarrow> byte list" where
  "SHA384 m = concat (map be64 (take 6 (md_hash 128 112 120 be64 fips512_compress (md_h (sha384_init ctx0)) m)))"

definition SHA512 :: "byte list \<Rightarrow> byte list" where
  "SHA512 m = concat (map be64 (md_hash 128 112 120 be64 fips512_compress (md_h (sha512_init ctx0)) m))"

definition SHA512_224 :: "byte list \<Rightarrow> byte list" where
  "SHA512_224 m = take 28 (concat (map be64 (take 4 (md_hash 128 112 120 be64 fips512_compress (md_h (sha512_224_init ctx0)) m))))"

definition SHA512_256 :: "byte list \<Rightarrow> byte list" where
  "SHA512_256 m = concat (map be64 (take 4 (md_hash 128 112 120 be64 fips512_compress (md_h (sha512_256_init ctx0)) m)))"

lemma init_ctx0:
  "md_h (md5_init s) = md_h (md5_init ctx0)" "md_h (sha1_init s) = md_h (sha1_init ctx0)"
  "md_h (sha224_init s) = md_h (sha224_init ctx0)" "md_h (sha256_init s) = md_h (sha256_init ctx0)"
  "md_h (sha384_init s') = md_h (sha384_init ctx0)" "md_h (sha512_init s') = md_h (sha512_init ctx0)"
  "md_h (sha512_224_init s') = md_h (sha512_224_init ctx0)"
  "md_h (sha512_256_init s') = md_h (sha512_256_init ctx0)"
  by (simp_all add: md5_init_def sha1_init_def sha224_init_def sha256_init_def sha384_init_def
      sha512_init_def sha512_224_init_def sha512_256_init_def)

lemma length_init:
  "length (md_h (md5_init s)) = 4" "length (md_h (sha1_init s)) = 5"
  "length (md_h (sha224_init s)) = 8" "length (md_h (sha256_init s)) = 8"
  "length (md_h (sha384_init s')) = 8" "length (md_h (sha512_init s')) = 8"
  "length (md_h (sha512_224_init s')) = 8" "length (md_h (sha512_256_init s')) = 8"
  by (simp_all add: md5_init_def sha1_init_def sha224_init_def sha256_init_def sha384_init_def
      sha512_init_def sha512_224_init_def sha512_256_init_def)

lemma length_concat_const: "(\<And>x. length (f x) = k) \<Longrightarrow> length (concat (map f xs)) = length xs * k"
  by (induction xs) simp_all

lemma length_digest_words [simp]: "length (le32 w) = 4" "length (be32 w) = 4"
  by (simp_all add: le32_def be32_def)

lemma length_hashes:
  "length H0 = 4 \<Longrightarrow> length (md_hash B t z enc rfc1321_compress H0 m) = 4"
  "length H1 = 5 \<Longrightarrow> length (md_hash B t z enc rfc3174_compress H1 m) = 5"
  "length H2 = 8 \<Longrightarrow> length (md_hash B t z enc fips256_compress H2 m) = 8"
  "length H3 = 8 \<Longrightarrow> length (md_hash B t z enc fips512_compress H3 m) = 8"
  by (rule length_md_hash; simp add: length_compress)+

lemma length_digests:
  "length (MD5 m) = 16" "length (SHA1 m) = 20" "length (SHA224 m) = 28" "length (SHA256 m) = 32"
  "length (SHA384 m) = 48" "length (SHA512 m) = 64" "length (SHA512_224 m) = 28"
  "length (SHA512_256 m) = 32"
  by (simp_all add: MD5_def SHA1_def SHA224_def SHA256_def SHA384_def SHA512_def SHA512_224_def
      SHA512_256_def length_concat_const length_hashes length_init)

text \<open>The buffers keep their size through the operations of the eight function tables.\<close>

lemmas init_defs = md5_init_def sha1_init_def sha224_init_def sha256_init_def sha384_init_def
  sha512_init_def sha512_224_init_def sha512_256_init_def

lemmas update_defs = md5_update_def sha1_update_def sha256_update_def sha512_update_def

lemmas sum_defs = md5_sum_def sha1_sum_def sha224_sum_def sha256_sum_def sha384_sum_def
  sha512_sum_def sha512_224_sum_def sha512_256_sum_def sha256_sum_n_def sha512_sum_n_def
  md5_pad_def sha1_pad_def sha256_pad_def sha512_pad_def

lemmas ops_defs = md5_ops_def sha1_ops_def sha224_ops_def sha256_ops_def sha384_ops_def
  sha512_ops_def sha512_224_ops_def sha512_256_ops_def

lemmas frame_length = md5.update_length md5.pad_length sha1.update_length sha1.pad_length
  sha256.update_length sha256.pad_length sha512.update_length sha512.pad_length

interpretation md5_cmd: digest_ops md5_ops "ctx_ok 64" MD5 16
proof
  show "snd (co_sum md5_ops (foldl (co_update md5_ops) (co_init md5_ops s) cs)) = MD5 (concat cs)"
    if "ctx_ok 64 s" for s cs
    using that md5_digests(1) [of s cs] by (simp add: ctx_ok_def md5_ops_def MD5_def init_ctx0(1) [of s])
qed (simp_all add: ctx_ok_def ops_defs init_defs update_defs sum_defs frame_length length_digests
      Let_def case_prod_unfold)

interpretation sha1_cmd: digest_ops sha1_ops "ctx_ok 64" SHA1 20
proof
  show "snd (co_sum sha1_ops (foldl (co_update sha1_ops) (co_init sha1_ops s) cs)) = SHA1 (concat cs)"
    if "ctx_ok 64 s" for s cs
    using that sha1_digest [of s cs] by (simp add: ctx_ok_def sha1_ops_def SHA1_def init_ctx0(2) [of s])
qed (simp_all add: ctx_ok_def ops_defs init_defs update_defs sum_defs frame_length length_digests
      Let_def case_prod_unfold)

interpretation sha224_cmd: digest_ops sha224_ops "ctx_ok 64" SHA224 28
proof
  show "snd (co_sum sha224_ops (foldl (co_update sha224_ops) (co_init sha224_ops s) cs)) = SHA224 (concat cs)"
    if "ctx_ok 64 s" for s cs
    using that sha256_digests(2) [of s cs] by (simp add: ctx_ok_def sha224_ops_def SHA224_def init_ctx0(3) [of s])
qed (simp_all add: ctx_ok_def ops_defs init_defs update_defs sum_defs frame_length length_digests
      Let_def case_prod_unfold)

interpretation sha256_cmd: digest_ops sha256_ops "ctx_ok 64" SHA256 32
proof
  show "snd (co_sum sha256_ops (foldl (co_update sha256_ops) (co_init sha256_ops s) cs)) = SHA256 (concat cs)"
    if "ctx_ok 64 s" for s cs
    using that sha256_digests(1) [of s cs] by (simp add: ctx_ok_def sha256_ops_def SHA256_def init_ctx0(4) [of s])
qed (simp_all add: ctx_ok_def ops_defs init_defs update_defs sum_defs frame_length length_digests
      Let_def case_prod_unfold)

interpretation sha384_cmd: digest_ops sha384_ops "ctx_ok 128" SHA384 48
proof
  show "snd (co_sum sha384_ops (foldl (co_update sha384_ops) (co_init sha384_ops s) cs)) = SHA384 (concat cs)"
    if "ctx_ok 128 s" for s cs
    using that sha512_digests(2) [of s cs] by (simp add: ctx_ok_def sha384_ops_def SHA384_def init_ctx0(5) [of s])
qed (simp_all add: ctx_ok_def ops_defs init_defs update_defs sum_defs frame_length length_digests
      Let_def case_prod_unfold)

interpretation sha512_cmd: digest_ops sha512_ops "ctx_ok 128" SHA512 64
proof
  show "snd (co_sum sha512_ops (foldl (co_update sha512_ops) (co_init sha512_ops s) cs)) = SHA512 (concat cs)"
    if "ctx_ok 128 s" for s cs
    using that sha512_digests(1) [of s cs] by (simp add: ctx_ok_def sha512_ops_def SHA512_def init_ctx0(6) [of s])
qed (simp_all add: ctx_ok_def ops_defs init_defs update_defs sum_defs frame_length length_digests
      Let_def case_prod_unfold)

interpretation sha512_224_cmd: digest_ops sha512_224_ops "ctx_ok 128" SHA512_224 28
proof
  show "snd (co_sum sha512_224_ops (foldl (co_update sha512_224_ops) (co_init sha512_224_ops s) cs)) = SHA512_224 (concat cs)"
    if "ctx_ok 128 s" for s cs
    using that sha512_digests(3) [of s cs] by (simp add: ctx_ok_def sha512_224_ops_def SHA512_224_def init_ctx0(7) [of s])
qed (simp_all add: ctx_ok_def ops_defs init_defs update_defs sum_defs frame_length length_digests
      Let_def case_prod_unfold)

interpretation sha512_256_cmd: digest_ops sha512_256_ops "ctx_ok 128" SHA512_256 32
proof
  show "snd (co_sum sha512_256_ops (foldl (co_update sha512_256_ops) (co_init sha512_256_ops s) cs)) = SHA512_256 (concat cs)"
    if "ctx_ok 128 s" for s cs
    using that sha512_digests(4) [of s cs] by (simp add: ctx_ok_def sha512_256_ops_def SHA512_256_def init_ctx0(8) [of s])
qed (simp_all add: ctx_ok_def ops_defs init_defs update_defs sum_defs frame_length length_digests
      Let_def case_prod_unfold)

section \<open>Properties\<close>

text \<open>
  Property C17 (sha256sum checks what it prints). For readable files with plain names \<open>sha256sum\<close>
  exits with 0, leaves no descriptor open and prints for every file the hexadecimal SHA-256 digest
  of its contents; when a file \<open>lst\<close> holds that text, \<open>sha256sum -c lst\<close> exits with 0 and reports
  every file as \<open>OK\<close>, however \<open>read\<close> cuts the files into pieces the second time.
\<close>
theorem sha256sum_roundtrip:
  assumes "length (md_buf (io_s io)) = 64" "length (md_buf (io_s io2)) = 64"
    and "argv \<noteq> []" "\<forall>f \<in> set argv. f \<noteq> [] \<and> hd f \<noteq> 0x2d \<and> plain_name f"
    and "\<forall>f \<in> set argv. readable fs f \<and> readable fs2 f \<and> contents fs f = contents fs2 f"
    and "lst \<noteq> []" "hd lst \<noteq> 0x2d"
  shows "\<exists>io'. sha256sum_main fs ((False, False), (False, False)) argv io = Some (0, io') \<and>
    io_fds io' = io_fds io \<and>
    io_log io' = io_log io @ map (\<lambda>f. Stdout (md_line (SHA256 (contents fs f)) f 32)) argv \<and>
    (fs2 lst = Some ([concat (map (\<lambda>f. md_line (SHA256 (contents fs f)) f 32) argv)], False) \<longrightarrow>
      (\<exists>io3. sha256sum_main fs2 ((False, False), (False, False)) [[0x2d, 0x63], lst] io2 = Some (0, io3) \<and>
        io_log io3 = io_log io2 @ map ok_text argv))"
proof -
  have "concat (map (\<lambda>f. md_line (SHA256 (contents fs f)) f 32) argv) =
      concat (map (\<lambda>f. md_line (SHA256 (contents fs2 f)) f 32) argv)"
    using assms(5) by (auto intro!: arg_cong [of _ _ concat])
  then show ?thesis
    unfolding sha256sum_main_def
    using sha256_cmd.sum_main_prints [of io argv fs] sha256_cmd.sum_main_checks [of io2 argv fs2 lst] assms
    by (auto simp: ctx_ok_def)
qed

theorem sha256sum_roundtrip_witness:
  "\<exists>io'. sha256sum_main (\<lambda>f. Some (if f = [0x6c] then ([md_line (SHA256 [1, 2, 3]) [0x61] 32], False) else ([[1, 2, 3]], False)))
      ((False, False), (False, False)) [[0x61]]
      \<lparr>io_s = \<lparr>md_len = 0, md_h = [], md_buf = replicate 64 0\<rparr>, io_md = [], io_stdin = ([], False), io_fds = 3, io_log = []\<rparr>
    = Some (0, io') \<and> io_log io' = [Stdout (md_line (SHA256 [1, 2, 3]) [0x61] 32)]"
  using sha256sum_roundtrip [of
    "\<lparr>io_s = \<lparr>md_len = 0, md_h = [], md_buf = replicate 64 0\<rparr>, io_md = [], io_stdin = ([], False), io_fds = 3, io_log = []\<rparr>"
    "\<lparr>io_s = \<lparr>md_len = 0, md_h = [], md_buf = replicate 64 0\<rparr>, io_md = [], io_stdin = ([], False), io_fds = 3, io_log = []\<rparr>"
    "[[0x61]]"
    "\<lambda>f. Some (if f = [0x6c] then ([md_line (SHA256 [1, 2, 3]) [0x61] 32], False) else ([[1, 2, 3]], False))"
    "\<lambda>f. Some (if f = [0x6c] then ([md_line (SHA256 [1, 2, 3]) [0x61] 32], False) else ([[1], [2, 3]], False))"
    "[0x6c]"]
  by (auto simp: plain_name_def readable_def contents_def)

text \<open>
  \<open>cryptcheck\<close> on the lists \<open>argv\<close> (none of them standard
  input) returns 0 exactly when every list can be opened and every line of every list has the form
  of a checksum line, names a file that can be opened and read, and holds the MD5 digest of its
  contents in hexadecimal digits of either case.
\<close>
lemma md5sum_check_status:
  assumes "length (md_buf (io_s io)) = 64" "dash \<notin> set argv" "argv \<noteq> []"
  shows "fst (cryptcheck md5_ops fs 16 argv io) = 0 \<longleftrightarrow>
    (\<forall>a \<in> set argv. \<exists>cs e. fs a = Some (cs, e) \<and>
      (\<forall>l \<in> set (split_lines (concat cs)). line_ok 16 MD5 fs l))"
  by (rule md5_cmd.cryptcheck_status) (use assms in \<open>auto simp: ctx_ok_def\<close>)

text \<open>
  For every digest and every list, the descriptors
  open after \<open>mdchecklist\<close> are those open before it and one more for every line whose file was
  opened but could not be read: the \<open>continue\<close> after a failed \<open>cryptsum\<close> skips the \<open>close\<close>.
\<close>
lemma mdchecklist_descriptors:
  "io_fds (snd (mdchecklist ops fs sz text (n, io))) =
     io_fds io + length (filter (line_unreadable fs sz) (split_lines text))"
  by (simp add: mdchecklist_def fold_fds)

end
