(* ===== verification/Libutil_String.thy ===== *)
theory Libutil_String
  imports Aruu_Base
begin

text \<open>
  The string helpers of \<open>shared/libutil\<close>: bounded copies (\<open>strlcpy.c\<close>, \<open>strlcat.c\<close>), searches
  (\<open>memmem.c\<close>, \<open>strcasestr.c\<close>), tokens (\<open>strsep.c\<close>), replacement (\<open>strnsubst.c\<close>), lines
  (\<open>getlines.c\<close>, \<open>linecmp.c\<close>), escapes (\<open>unescape.c\<close>) and the size check of \<open>reallocarray.c\<close>.

  Loops over pointers are recursion on the memory from the pointer on; a store or a load outside
  the array makes the result \<open>None\<close>, so a result \<open>Some\<close> is also the absence of overruns.
\<close>

section \<open>Bounded copies\<close>

text \<open>A store into an array.\<close>

definition store :: "byte list \<Rightarrow> nat \<Rightarrow> byte \<Rightarrow> byte list option" where
  "store buf i c = (if i < length buf then Some (buf[i := c]) else None)"

text \<open>\<open>while (*s++);\<close>\<close>

fun skip_string :: "byte list \<Rightarrow> byte list option" where
  "skip_string [] = None"
| "skip_string (c # s) = (if c = 0 then Some s else skip_string s)"

text \<open>The loop of \<open>strlcpy\<close>: destination, position in it, rest of the source, bytes left.\<close>

fun strlcpy_loop :: "byte list \<Rightarrow> nat \<Rightarrow> byte list \<Rightarrow> nat \<Rightarrow> (byte list \<times> nat \<times> byte list \<times> nat) option" where
  "strlcpy_loop dst d [] n = (if n - 1 = 0 then Some (dst, d, [], 0) else None)"
| "strlcpy_loop dst d (c # s) n =
     (if n - 1 = 0 then Some (dst, d, c # s, 0)
      else case store dst d c of None \<Rightarrow> None | Some dst \<Rightarrow>
        if c = 0 then Some (dst, d + 1, s, n - 1) else strlcpy_loop dst (d + 1) s (n - 1))"

definition strlcpy :: "byte list \<Rightarrow> byte list \<Rightarrow> nat \<Rightarrow> (byte list \<times> nat) option" where
  "strlcpy dst src siz =
     (case if siz \<noteq> 0 then strlcpy_loop dst 0 src siz else Some (dst, 0, src, 0) of
        None \<Rightarrow> None
      | Some (dst, d, s, n) \<Rightarrow>
          if n = 0 then
            case if siz \<noteq> 0 then store dst d 0 else Some dst of None \<Rightarrow> None | Some dst \<Rightarrow>
              map_option (\<lambda>s. (dst, length src - length s - 1)) (skip_string s)
          else Some (dst, length src - length s - 1))"

text \<open>The exit of the checked variants is \<open>Inl\<close>.\<close>

definition estrlcpy :: "byte list \<Rightarrow> byte list \<Rightarrow> nat \<Rightarrow> (unit + byte list \<times> nat) option" where
  "estrlcpy dst src siz =
     map_option (\<lambda>(dst, ret). if ret \<ge> siz then Inl () else Inr (dst, ret)) (strlcpy dst src siz)"

text \<open>\<open>while (n-- != 0 && *d != '\0') d++;\<close>\<close>

fun strlcat_end :: "byte list \<Rightarrow> nat \<Rightarrow> nat option" where
  "strlcat_end d 0 = Some 0"
| "strlcat_end [] (Suc n) = None"
| "strlcat_end (c # d) (Suc n) = (if c \<noteq> 0 then map_option Suc (strlcat_end d n) else Some 0)"

fun strlcat_loop :: "byte list \<Rightarrow> nat \<Rightarrow> byte list \<Rightarrow> nat \<Rightarrow> (byte list \<times> nat) option" where
  "strlcat_loop dst d [] n = None"
| "strlcat_loop dst d (c # s) n =
     (if c = 0 then map_option (\<lambda>dst. (dst, 0)) (store dst d 0)
      else if n \<noteq> 1 then
        case store dst d c of None \<Rightarrow> None
        | Some dst \<Rightarrow> map_option (\<lambda>(dst, k). (dst, Suc k)) (strlcat_loop dst (d + 1) s (n - 1))
      else map_option (\<lambda>(dst, k). (dst, Suc k)) (strlcat_loop dst d s n))"

definition strlcat :: "byte list \<Rightarrow> byte list \<Rightarrow> nat \<Rightarrow> (byte list \<times> nat) option" where
  "strlcat dst src siz =
     (case strlcat_end dst siz of None \<Rightarrow> None | Some dlen \<Rightarrow>
        let n = siz - dlen in
        if n = 0 then map_option (\<lambda>s. (dst, dlen + (length src - length s - 1))) (skip_string src)
        else map_option (\<lambda>(dst, k). (dst, dlen + k)) (strlcat_loop dst dlen src n))"

definition estrlcat :: "byte list \<Rightarrow> byte list \<Rightarrow> nat \<Rightarrow> (unit + byte list \<times> nat) option" where
  "estrlcat dst src siz =
     map_option (\<lambda>(dst, ret). if ret \<ge> siz then Inl () else Inr (dst, ret)) (strlcat dst src siz)"

section \<open>Searches and tokens\<close>

text \<open>\<open>memchr\<close> and the loop of \<open>memmem\<close> from \<open>cur\<close> to \<open>last\<close>.\<close>

fun memmem_loop :: "byte list \<Rightarrow> byte list \<Rightarrow> nat \<Rightarrow> nat option" where
  "memmem_loop cur s 0 = (if take (length s) cur = s then Some 0 else None)"
| "memmem_loop cur s (Suc n) =
     (if cur \<noteq> [] \<and> hd cur = hd s \<and> take (length s) cur = s then Some 0
      else map_option Suc (memmem_loop (tl cur) s n))"

definition memmem :: "byte list \<Rightarrow> byte list \<Rightarrow> nat option" where
  "memmem l s =
     (if length s = 0 then Some 0
      else if length l < length s then None
      else if length s = 1 then find_byte (hd s) l
      else memmem_loop l s (length l - length s))"

text \<open>\<open>tolower\<close> in the C locale.\<close>

definition lower :: "byte \<Rightarrow> byte" where
  "lower c = (if 0x41 \<le> c \<and> c \<le> 0x5a then c + 0x20 else c)"

text \<open>\<open>strncasecmp(h, n, strlen(n)) == 0\<close>, which stops at the end of \<open>h\<close>.\<close>

definition casecmp_prefix :: "byte list \<Rightarrow> byte list \<Rightarrow> bool" where
  "casecmp_prefix h n \<longleftrightarrow> prefix (map lower n) (map lower h)"

fun strcasestr :: "byte list \<Rightarrow> byte list \<Rightarrow> nat option" where
  "strcasestr [] n = None"
| "strcasestr (c # h) n = (if casecmp_prefix (c # h) n then Some 0 else map_option Suc (strcasestr h n))"

definition strcspn :: "byte list \<Rightarrow> byte list \<Rightarrow> nat" where
  "strcspn s sep = length (takeWhile (\<lambda>c. c \<notin> set sep) s)"

text \<open>\<open>strsep\<close>: the returned token and the new value of \<open>*str\<close>.\<close>

fun strsep :: "byte list option \<Rightarrow> byte list \<Rightarrow> byte list option \<times> byte list option" where
  "strsep None sep = (None, None)"
| "strsep (Some s) sep =
     (let e = strcspn s sep in
      (Some (take e s), if e < length s then Some (drop (e + 1) s) else None))"

text \<open>A caller's loop over the tokens: \<open>while ((tok = strsep(&str, sep)))\<close>.\<close>

function strsep_all :: "byte list \<Rightarrow> byte list \<Rightarrow> byte list list" where
  "strsep_all s sep =
     (case strsep (Some s) sep of
        (Some t, Some r) \<Rightarrow> t # strsep_all r sep
      | (Some t, None) \<Rightarrow> [t]
      | (None, _) \<Rightarrow> [])"
  by pat_completeness auto
termination
  by (relation "measure (\<lambda>(s, sep). length s)") (auto simp: Let_def split: if_splits)

declare strsep_all.simps [simp del]

section \<open>Replacement\<close>

text \<open>
  The loop of \<open>strnsubst\<close>: the text already in \<open>s2\<close>, the rest of \<open>s1\<close>. \<open>snprintf\<close> gives the length
  of the whole piece, or -1 above \<open>INT_MAX\<close>.
\<close>

definition snprintf_len :: "nat \<Rightarrow> int" where
  "snprintf_len k = (if int k \<le> 2147483647 then int k else -1)"

function strnsubst_loop :: "byte list \<Rightarrow> byte list \<Rightarrow> byte list \<Rightarrow> byte list \<Rightarrow> nat \<Rightarrow> byte list \<times> byte list" where
  "strnsubst_loop s2 s1 match repl maxsize =
     (if match = [] then (s2, s1) else
      case strstr s1 match of None \<Rightarrow> (s2, s1) | Some k \<Rightarrow>
        let piece = take k s1 @ repl;
            n = snprintf_len (length piece);
            rest = drop (k + length match) s1 in
        if n = -1 \<or> length piece + length s2 + length rest \<ge> maxsize then (s2, s1)
        else strnsubst_loop (s2 @ piece) rest match repl maxsize)"
  by pat_completeness auto
termination
proof (relation "measure (\<lambda>(s2, s1, match, repl, maxsize). length s1)", goal_cases)
  case (2 s2 s1 match repl maxsize k piece n rest)
  then show ?case by (cases s1) (auto split: if_splits)
qed simp

declare strnsubst_loop.simps [simp del]

definition strnsubst :: "byte list option \<Rightarrow> byte list option \<Rightarrow> byte list option \<Rightarrow> nat \<Rightarrow> byte list option" where
  "strnsubst str match repl maxsize =
     (case str of None \<Rightarrow> None | Some s1 \<Rightarrow>
        let repl = (case repl of None \<Rightarrow> [] | Some r \<Rightarrow> r) in
        case match of
          None \<Rightarrow> Some (take (maxsize - 1) s1)
        | Some m \<Rightarrow>
            if m = [] \<or> length s1 \<ge> maxsize then Some (take (maxsize - 1) s1)
            else let (s2, s1) = strnsubst_loop [] s1 m repl maxsize
                 in Some (s2 @ take (maxsize - length s2 - 1) s1))"

section \<open>Lines\<close>

record line =
  l_data :: "byte list"
  l_len :: nat

text \<open>
  \<open>getlines\<close> on the lines read so far and the input: \<open>data\<close> is the line without the terminator the
  code stores behind it.
\<close>

definition getlines :: "byte list \<Rightarrow> line list \<Rightarrow> line list" where
  "getlines input b =
     (let ls = split_lines input;
          b = b @ map (\<lambda>l. \<lparr>l_data = l, l_len = length l\<rparr>) ls;
          linelen = (if ls = [] then 0 else length (last ls)) in
      if b \<noteq> [] \<and> linelen \<noteq> 0 \<and> l_data (last b) ! (linelen - 1) \<noteq> 0x0a then
        butlast b @ [\<lparr>l_data = take linelen (l_data (last b)) @ [0x0a], l_len = l_len (last b) + 1\<rparr>]
      else b)"

text \<open>\<open>memcmp\<close>: the sign of the first difference.\<close>

fun memcmp :: "byte list \<Rightarrow> byte list \<Rightarrow> int" where
  "memcmp (a # s) (b # t) = (if a < b then -1 else if b < a then 1 else memcmp s t)"
| "memcmp _ _ = 0"

text \<open>\<open>res = a->len - b->len\<close>: a difference of \<open>size_t\<close> cut to the width of \<open>int\<close>.\<close>

definition linecmp :: "line \<Rightarrow> line \<Rightarrow> int" where
  "linecmp a b =
     (let m = min (l_len a) (l_len b);
          res = memcmp (take m (l_data a)) (take m (l_data b)) in
      if res = 0 then sint (word_of_int (int (l_len a) - int (l_len b)) :: 32 word) else res)"

section \<open>Escapes\<close>

definition is_odigit :: "byte \<Rightarrow> bool" where
  "is_odigit c \<longleftrightarrow> 0x30 \<le> c \<and> c \<le> 0x37"

definition isdigit :: "byte \<Rightarrow> bool" where
  "isdigit c \<longleftrightarrow> 0x30 \<le> c \<and> c \<le> 0x39"

definition isxdigit :: "byte \<Rightarrow> bool" where
  "isxdigit c \<longleftrightarrow> isdigit c \<or> (0x41 \<le> c \<and> c \<le> 0x46) \<or> (0x61 \<le> c \<and> c \<le> 0x66)"

definition escapes :: "byte \<Rightarrow> byte" where
  "escapes c =
     (case map_of [(0x22, 0x22), (0x27, 0x27), (0x5c, 0x5c), (0x61, 7), (0x62, 8), (0x45, 0x1b),
        (0x65, 0x1b), (0x66, 0x0c), (0x6e, 0x0a), (0x72, 0x0d), (0x74, 9), (0x76, 0x0b)] c of
        None \<Rightarrow> 0 | Some e \<Rightarrow> e)"

text \<open>\<open>for (q = 0, m = 3; m && is_odigit(*r); m--, r++) q = q * 8 + (*r - '0');\<close>\<close>

fun octal_run :: "nat \<Rightarrow> nat \<Rightarrow> byte list \<Rightarrow> nat \<times> byte list" where
  "octal_run 0 q r = (q, r)"
| "octal_run (Suc m) q [] = (q, [])"
| "octal_run (Suc m) q (c # r) =
     (if is_odigit c then octal_run m (q * 8 + (unat c - 0x30)) r else (q, c # r))"

fun hex_run :: "nat \<Rightarrow> nat \<Rightarrow> byte list \<Rightarrow> nat \<times> byte list" where
  "hex_run 0 q r = (q, r)"
| "hex_run (Suc m) q [] = (q, [])"
| "hex_run (Suc m) q (c # r) =
     (if isxdigit c
      then hex_run m (if isdigit c then q * 16 + (unat c - 0x30) else q * 16 + (unat (lower c) - 0x61 + 10)) r
      else (q, c # r))"

lemma length_octal_run: "length (snd (octal_run m q r)) \<le> length r"
  by (induction m q r rule: octal_run.induct) auto

lemma length_hex_run: "length (snd (hex_run m q r)) \<le> length r"
  by (induction m q r rule: hex_run.induct) auto

datatype escape_error = NullEscape | InvalidEscape byte

text \<open>
  \<open>unescape\<close>: the bytes written from \<open>w\<close> on, or the exit. The read pointer is never behind the
  write pointer, so the bytes still to be read are unchanged.
\<close>

function unescape :: "byte list \<Rightarrow> escape_error + byte list" where
  "unescape [] = Inr []"
| "unescape (c # r) =
     (if c \<noteq> 0x5c then map_sum id ((#) c) (unescape r)
      else case r of
        [] \<Rightarrow> Inl NullEscape
      | e # r' \<Rightarrow>
          if escapes e \<noteq> 0 then map_sum id ((#) (escapes e)) (unescape r')
          else if is_odigit e then
            let (q, r'') = octal_run 3 0 r in map_sum id ((#) (of_nat (min q 255))) (unescape r'')
          else if e = 0x78 \<and> r' \<noteq> [] \<and> isxdigit (hd r') then
            let (q, r'') = hex_run 2 0 r' in map_sum id ((#) (of_nat q)) (unescape r'')
          else Inl (InvalidEscape e))"
  by pat_completeness auto
termination
proof (relation "measure length", goal_cases)
  case (4 c r e r' x q r'')
  then have "octal_run 3 0 (e # r') = (q, r'')" by simp
  with length_octal_run [of 3 0 "e # r'"] have "length r'' \<le> Suc (length r')" by simp
  then show ?case using 4 by simp
next
  case (5 c r e r' x q r'')
  then have "hex_run 2 0 r' = (q, r'')" by simp
  with length_hex_run [of 2 0 r'] have "length r'' \<le> length r'" by simp
  then show ?case using 5 by simp
qed simp_all

declare unescape.simps(2) [simp del]

section \<open>The size check of reallocarray\<close>

text \<open>\<open>MUL_NO_OVERFLOW\<close> is \<open>1UL << (sizeof(size_t) * 4)\<close>; the result is the size given to \<open>realloc\<close>.\<close>

definition MUL_NO_OVERFLOW :: u64 where
  "MUL_NO_OVERFLOW = push_bit 32 1"

definition reallocarray :: "u64 \<Rightarrow> u64 \<Rightarrow> u64 option" where
  "reallocarray nmemb siz =
     (if (nmemb \<ge> MUL_NO_OVERFLOW \<or> siz \<ge> MUL_NO_OVERFLOW) \<and> nmemb > 0 \<and> (-1) div nmemb < siz
      then None else Some (siz * nmemb))"

section \<open>Lemmas\<close>

lemma store_append: "length a = d \<Longrightarrow> store (a @ x # b) d c = Some (a @ c # b)"
  by (auto simp: store_def list_update_append)

lemma skip_string_cmem: "nonul s \<Longrightarrow> skip_string (s @ 0 # r) = Some r"
  by (induction s) auto

text \<open>The copy loop: it stores the string with its terminator, or the bytes there is room for.\<close>

lemma strlcpy_loop_fits:
  assumes "nonul s" "Suc (length s) < n" "length b = Suc (length s)"
  shows "strlcpy_loop (a @ b @ e) (length a) (s @ 0 # r) n =
    Some (a @ s @ 0 # e, length a + length s + 1, r, n - Suc (length s))"
  using assms
proof (induction s arbitrary: a b n)
  case Nil
  then obtain x where "b = [x]" by (cases b) auto
  with Nil show ?case by (simp add: store_append)
next
  case (Cons c s)
  then obtain x b' where b: "b = x # b'" by (cases b) auto
  have "strlcpy_loop ((a @ [c]) @ b' @ e) (length (a @ [c])) (s @ 0 # r) (n - 1) =
      Some ((a @ [c]) @ s @ 0 # e, length (a @ [c]) + length s + 1, r, n - 1 - Suc (length s))"
    by (rule Cons.IH) (use Cons.prems b in auto)
  then show ?case using Cons.prems b by (simp add: store_append)
qed

lemma strlcpy_loop_full:
  assumes "nonul s" "0 < n" "n \<le> Suc (length s)" "length b = n - 1"
  shows "strlcpy_loop (a @ b @ e) (length a) (s @ 0 # r) n =
    Some (a @ take (n - 1) s @ e, length a + (n - 1), drop (n - 1) (s @ 0 # r), 0)"
  using assms
proof (induction s arbitrary: a b n)
  case Nil
  then show ?case by simp
next
  case (Cons c s)
  show ?case
  proof (cases "n = 1")
    case True
    then show ?thesis using Cons.prems by simp
  next
    case False
    then obtain x b' where b: "b = x # b'" using Cons.prems by (cases b) auto
    obtain m where n: "n = Suc (Suc m)" using False Cons.prems(2) by (cases n; cases "n - 1") auto
    have "strlcpy_loop ((a @ [c]) @ b' @ e) (length (a @ [c])) (s @ 0 # r) (Suc m) =
        Some ((a @ [c]) @ take m s @ e, length (a @ [c]) + m, drop m (s @ 0 # r), 0)"
      using Cons.IH [of "Suc m" b' "a @ [c]"] Cons.prems b n by simp
    then show ?thesis using Cons.prems b n by (simp add: store_append)
  qed
qed

lemma strlcpy_result:
  assumes s: "nonul s" and siz: "siz \<le> length dst"
  shows "strlcpy dst (s @ 0 # r) siz =
    Some (if siz = 0 then dst else buf_write dst 0 (take (siz - 1) s @ [0]), length s)"
proof -
  consider "siz = 0" | "0 < siz" "Suc (length s) < siz" | "0 < siz" "siz \<le> Suc (length s)" by linarith
  then show ?thesis
  proof cases
    case 1
    then show ?thesis using s by (simp add: strlcpy_def skip_string_cmem)
  next
    case 2
    have "strlcpy_loop dst 0 (s @ 0 # r) siz =
        Some (s @ 0 # drop (Suc (length s)) dst, length s + 1, r, siz - Suc (length s))"
      using strlcpy_loop_fits [of s siz "take (Suc (length s)) dst" "[]" "drop (Suc (length s)) dst" r]
        2 s siz by simp
    then show ?thesis using 2 by (simp add: strlcpy_def buf_write_def)
  next
    case 3
    obtain m where m: "siz = Suc m" using 3 by (cases siz) auto
    let ?e = "drop m dst"
    obtain x e where e: "?e = x # e" using siz m by (cases ?e) auto
    then have e': "e = drop (Suc m) dst" by (metis drop_Suc drop_tl list.sel(3))
    have "strlcpy_loop dst 0 (s @ 0 # r) siz = Some (take m s @ ?e, m, drop m (s @ 0 # r), 0)"
      using strlcpy_loop_full [of s siz "take m dst" "[]" ?e r] 3 s siz m by simp
    moreover have "store (take m s @ ?e) m 0 = Some (take m s @ 0 # e)"
      unfolding e using 3 m by (intro store_append) simp
    moreover have "skip_string (drop m (s @ 0 # r)) = Some r"
      using 3 m s skip_string_cmem [of "drop m s" r] by simp
    ultimately show ?thesis using 3 m e' by (simp add: strlcpy_def buf_write_def)
  qed
qed

lemma buf_write_step:
  assumes "d < length dst"
  shows "buf_write (dst[d := c]) (Suc d) xs = buf_write dst d (c # xs)"
  using assms by (simp add: buf_write_def take_Suc_conv_app_nth)

lemma strlcat_loop_result:
  assumes "nonul s" "0 < n" "d + n \<le> length dst"
  shows "strlcat_loop dst d (s @ 0 # r) n = Some (buf_write dst d (take (n - 1) s @ [0]), length s)"
  using assms
proof (induction s arbitrary: dst d n)
  case Nil
  then show ?case by (simp add: store_def buf_write_def upd_conv_take_nth_drop)
next
  case (Cons c s)
  show ?case
  proof (cases "n = 1")
    case True
    then show ?thesis using Cons by simp
  next
    case False
    then obtain m where "n = Suc (Suc m)" using Cons.prems(2) by (cases n; cases "n - 1") auto
    then show ?thesis using Cons by (simp add: store_def buf_write_step)
  qed
qed

lemma strlcat_end_string: "nonul d \<Longrightarrow> length d < n \<Longrightarrow> strlcat_end (d @ 0 # e) n = Some (length d)"
proof (induction d arbitrary: n)
  case (Cons c d)
  then show ?case by (cases n) auto
qed (auto simp: neq0_conv gr0_conv_Suc)

lemma strlcat_end_full: "nonul d \<Longrightarrow> length d = n \<Longrightarrow> strlcat_end (d @ e) n = Some n"
  by (induction d arbitrary: n) auto

lemma strlcat_result:
  assumes "nonul d" "nonul s" "siz \<le> Suc (length d + length e)"
  shows "strlcat (d @ 0 # e) (s @ 0 # r) siz =
    Some (if siz \<le> length d then d @ 0 # e else buf_write (d @ 0 # e) (length d) (take (siz - length d - 1) s @ [0]),
      min siz (length d) + length s)"
proof (cases "siz \<le> length d")
  case True
  have "strlcat_end (take siz d @ drop siz d @ 0 # e) siz = Some siz"
    using assms(1) True by (intro strlcat_end_full) auto
  then show ?thesis
    using True assms(2) by (simp add: strlcat_def skip_string_cmem flip: append_assoc)
next
  case False
  then have "strlcat_end (d @ 0 # e) siz = Some (length d)"
    using assms(1) by (intro strlcat_end_string) auto
  moreover have "strlcat_loop (d @ 0 # e) (length d) (s @ 0 # r) (siz - length d) =
      Some (buf_write (d @ 0 # e) (length d) (take (siz - length d - 1) s @ [0]), length s)"
    using False assms by (intro strlcat_loop_result) auto
  ultimately show ?thesis using False by (simp add: strlcat_def)
qed

lemma cstr_buf_write: "nonul a \<Longrightarrow> nonul s \<Longrightarrow> cstr (buf_write (a @ b) (length a) (s @ [0])) = a @ s"
  unfolding cstr_def nonul_def buf_write_def
  by (simp add: takeWhile_append1 takeWhile_append2) (subst takeWhile_append2; auto)+

text \<open>Searches.\<close>

lemma strstr_short: "length l < length s \<Longrightarrow> strstr l s = None"
  by (induction l) (auto dest: prefix_length_le)

lemma take_eq_prefix: "take (length s) l = s \<longleftrightarrow> prefix s l"
  by (metis append_eq_conv_conj prefix_def)

lemma memmem_loop_strstr:
  "s \<noteq> [] \<Longrightarrow> length l = n + length s \<Longrightarrow> memmem_loop l s n = strstr l s"
proof (induction n arbitrary: l)
  case 0
  then have "strstr (tl l) s = None" by (intro strstr_short) (cases s; simp)
  moreover have "l \<noteq> []" "prefix s l \<longleftrightarrow> l = s" using 0 take_eq_prefix [of s l] by auto
  ultimately show ?case using 0 by (cases l) auto
next
  case (Suc n)
  then obtain c l' where l: "l = c # l'" by (cases l) auto
  have "prefix s l \<Longrightarrow> hd l = hd s" using Suc.prems by (cases s; cases l) auto
  with Suc l show ?case by (auto simp: take_eq_prefix)
qed

lemma memmem_strstr: "memmem l s = strstr l s"
proof -
  consider "s = []" | "s \<noteq> []" "length l < length s" | c where "s = [c]" "s \<noteq> []" "length s \<le> length l"
    | "length s > 1" "length s \<le> length l"
    by (cases "length l < length s"; cases s; cases "tl s") auto
  then show ?thesis
  proof cases
    case 1
    then show ?thesis by (simp add: memmem_def strstr_here)
  next
    case 2
    then show ?thesis by (simp add: memmem_def strstr_short)
  next
    case 3
    then show ?thesis by (simp add: memmem_def strstr_single)
  next
    case 4
    then have "s \<noteq> []" by auto
    with 4 show ?thesis by (simp add: memmem_def memmem_loop_strstr)
  qed
qed

lemma strcasestr_strstr:
  "strcasestr h n = (if h = [] then None else strstr (map lower h) (map lower n))"
  by (induction h) (auto simp: casecmp_prefix_def)

text \<open>Tokens: what separates them can be put back.\<close>

fun weave :: "'a list list \<Rightarrow> 'a list \<Rightarrow> 'a list" where
  "weave [] ds = []"
| "weave [t] ds = t"
| "weave (t # ts) [] = t"
| "weave (t # ts) (d # ds) = t @ d # weave ts ds"

lemma strsep_all_unfold:
  "strsep_all s sep =
     (let e = strcspn s sep in
      if e < length s then take e s # strsep_all (drop (e + 1) s) sep else [s])"
  by (subst strsep_all.simps) (auto simp: Let_def strcspn_def not_less)

lemma strsep_all_weave:
  "\<exists>ds. set ds \<subseteq> set sep \<and> length (strsep_all s sep) = Suc (length ds) \<and>
     weave (strsep_all s sep) ds = s \<and> (\<forall>t \<in> set (strsep_all s sep). set t \<inter> set sep = {})"
proof (induction s rule: measure_induct_rule [of length])
  case (less s)
  let ?e = "strcspn s sep"
  have tw: "take ?e s = takeWhile (\<lambda>c. c \<notin> set sep) s"
    by (simp add: strcspn_def takeWhile_eq_take [symmetric])
  then have tok: "set (take ?e s) \<inter> set sep = {}"
    by (auto dest: set_takeWhileD)
  show ?case
  proof (cases "?e < length s")
    case False
    then show ?thesis
      using tok by (intro exI [of _ "[]"]) (simp add: strsep_all_unfold [of s] Let_def)
  next
    case True
    then have s: "s = take ?e s @ s ! ?e # drop (?e + 1) s" by (simp add: id_take_nth_drop)
    have d: "s ! ?e \<in> set sep"
      using True nth_length_takeWhile [of "\<lambda>c. c \<notin> set sep" s] by (simp add: strcspn_def)
    have shorter: "length (drop (?e + 1) s) < length s" using True by simp
    obtain ds where ds: "set ds \<subseteq> set sep" "length (strsep_all (drop (?e + 1) s) sep) = Suc (length ds)"
      "weave (strsep_all (drop (?e + 1) s) sep) ds = drop (?e + 1) s"
      "\<forall>t \<in> set (strsep_all (drop (?e + 1) s) sep). set t \<inter> set sep = {}"
      using less [OF shorter] by blast
    then obtain t ts where "strsep_all (drop (?e + 1) s) sep = t # ts"
      by (cases "strsep_all (drop (?e + 1) s) sep") auto
    then show ?thesis
      using True s d ds tok
      by (intro exI [of _ "s ! ?e # ds"]) (simp add: strsep_all_unfold [of s] Let_def)
  qed
qed

text \<open>Replacement: every occurrence from left to right, none inside a replacement.\<close>

function replace_all :: "byte list \<Rightarrow> byte list \<Rightarrow> byte list \<Rightarrow> byte list" where
  "replace_all s m r =
     (if m = [] then s else
      case strstr s m of None \<Rightarrow> s
      | Some k \<Rightarrow> take k s @ r @ replace_all (drop (k + length m) s) m r)"
  by pat_completeness auto
termination
proof (relation "measure (\<lambda>(s, m, r). length s)", goal_cases)
  case (2 s m r k)
  then show ?case by (cases s) (auto split: if_splits)
qed simp

declare replace_all.simps [simp del]

lemma strstr_bound: "strstr s m = Some k \<Longrightarrow> k + length m \<le> length s"
  by (auto simp: strstr_Some_iff dest!: prefix_length_le)

lemma replace_all_grows: "length m \<le> length r \<Longrightarrow> length s \<le> length (replace_all s m r)"
proof (induction s m r rule: replace_all.induct)
  case (1 s m r)
  show ?case
  proof (cases "m = [] \<or> strstr s m = None")
    case True
    then show ?thesis by (auto simp: replace_all.simps [of s m r])
  next
    case False
    then obtain k where k: "m \<noteq> []" "strstr s m = Some k" by auto
    with 1 have "length (drop (k + length m) s) \<le> length (replace_all (drop (k + length m) s) m r)"
      by simp
    then show ?thesis
      using k strstr_bound [OF k(2)] "1.prems" by (simp add: replace_all.simps [of s m r])
  qed
qed

text \<open>The string after the first \<open>n\<close> replacements.\<close>

primrec replace_n :: "nat \<Rightarrow> byte list \<Rightarrow> byte list \<Rightarrow> byte list \<Rightarrow> byte list" where
  "replace_n 0 s m r = s"
| "replace_n (Suc n) s m r =
     (case strstr s m of None \<Rightarrow> s
      | Some k \<Rightarrow> take k s @ r @ replace_n n (drop (k + length m) s) m r)"

text \<open>The number of occurrences that are replaced, one behind the other.\<close>

function occurrences :: "byte list \<Rightarrow> byte list \<Rightarrow> nat" where
  "occurrences s m =
     (if m = [] then 0 else
      case strstr s m of None \<Rightarrow> 0 | Some k \<Rightarrow> Suc (occurrences (drop (k + length m) s) m))"
  by pat_completeness auto
termination
proof (relation "measure (\<lambda>(s, m). length s)", goal_cases)
  case (2 s m k)
  then show ?case by (cases s) (auto split: if_splits)
qed simp

declare occurrences.simps [simp del]

lemma replace_n_all: "m \<noteq> [] \<Longrightarrow> replace_n (occurrences s m) s m r = replace_all s m r"
proof (induction s m rule: occurrences.induct)
  case (1 s m)
  then show ?case
    by (simp add: occurrences.simps [of s] replace_all.simps [of s] split: option.split)
qed

text \<open>What \<open>strnsubst_loop\<close> appends and what it leaves: the first replacements, as many as fit.\<close>

lemma strnsubst_loop_result:
  assumes "m \<noteq> []" "length s2 + length s1 < maxsize" "maxsize \<le> 2 ^ 31"
  shows "\<exists>n a b. strnsubst_loop s2 s1 m r maxsize = (a, b) \<and> a @ b = s2 @ replace_n n s1 m r \<and> n \<le> occurrences s1 m \<and>
     (\<forall>i \<le> n. length s2 + length (replace_n i s1 m r) < maxsize) \<and>
     (n < occurrences s1 m \<longrightarrow> maxsize \<le> length s2 + length (replace_n (Suc n) s1 m r))"
  using assms
proof (induction s2 s1 m r maxsize rule: strnsubst_loop.induct)
  case (1 s2 s1 m r maxsize)
  show ?case
  proof (cases "strstr s1 m")
    case None
    then show ?thesis
      using "1.prems" by (intro exI [of _ 0]) (simp add: strnsubst_loop.simps [of s2 s1] occurrences.simps [of s1])
  next
    case (Some k)
    let ?piece = "take k s1 @ r" and ?rest = "drop (k + length m) s1"
    have occ: "occurrences s1 m = Suc (occurrences ?rest m)" using Some "1.prems"(1) by (simp add: occurrences.simps [of s1])
    have rep: "replace_n (Suc n) s1 m r = ?piece @ replace_n n ?rest m r" for n using Some by simp
    show ?thesis
    proof (cases "length ?piece + length s2 + length ?rest < maxsize")
      case False
      then have "strnsubst_loop s2 s1 m r maxsize = (s2, s1)"
        using Some "1.prems"(1) by (simp add: strnsubst_loop.simps [of s2 s1] Let_def)
      then show ?thesis
        using False "1.prems"(2) rep [of 0] by (intro exI [of _ 0] exI [of _ s2] exI [of _ s1]) (simp add: occ)
    next
      case fits: True
      then have n: "snprintf_len (length ?piece) \<noteq> -1" using "1.prems"(3) by (simp add: snprintf_len_def)
      have step: "strnsubst_loop s2 s1 m r maxsize = strnsubst_loop (s2 @ ?piece) ?rest m r maxsize"
        using Some fits n "1.prems"(1) by (simp add: strnsubst_loop.simps [of s2 s1] Let_def)
      have "length (s2 @ ?piece) + length ?rest < maxsize" using fits by simp
      with "1.IH" [OF "1.prems"(1) Some refl refl refl] "1.prems" fits n obtain n a b where
        ih: "strnsubst_loop (s2 @ ?piece) ?rest m r maxsize = (a, b)" "a @ b = (s2 @ ?piece) @ replace_n n ?rest m r" "n \<le> occurrences ?rest m"
          "\<forall>i \<le> n. length (s2 @ ?piece) + length (replace_n i ?rest m r) < maxsize"
          "n < occurrences ?rest m \<longrightarrow> maxsize \<le> length (s2 @ ?piece) + length (replace_n (Suc n) ?rest m r)"
        by auto
      have "length s2 + length (replace_n i s1 m r) < maxsize" if "i \<le> Suc n" for i
      proof (cases i)
        case 0
        then show ?thesis using "1.prems"(2) by simp
      next
        case (Suc j)
        then show ?thesis using ih(4) [rule_format, of j] that unfolding Suc rep by simp
      qed
      moreover have "Suc n < occurrences s1 m \<longrightarrow> maxsize \<le> length s2 + length (replace_n (Suc (Suc n)) s1 m r)"
        using ih(5) unfolding rep [of "Suc n"] occ by (simp add: add.assoc del: replace_n.simps)
      moreover have "a @ b = s2 @ replace_n (Suc n) s1 m r" unfolding rep using ih(2) by simp
      moreover have "strnsubst_loop s2 s1 m r maxsize = (a, b)" using step ih(1) by simp
      moreover have "Suc n \<le> occurrences s1 m" using ih(3) occ by simp
      ultimately show ?thesis by blast
    qed
  qed
qed

text \<open>Lines.\<close>

lemma concat_split_lines [simp]: "concat (split_lines s) = s"
  by (induction s) (auto split: list.splits)

lemma split_lines_newlines:
  "(\<forall>l \<in> set (split_lines s). l \<noteq> []) \<and> (\<forall>l \<in> set (butlast (split_lines s)). last l = 0x0a)"
proof (induction s)
  case (Cons c s)
  show ?case
  proof (cases "split_lines s")
    case (Cons l ls)
    then have "l \<noteq> []" "\<forall>l \<in> set ls. l \<noteq> []" "\<forall>x \<in> set (butlast (l # ls)). last x = 0x0a"
      using Cons.IH by auto
    then show ?thesis using Cons by (cases ls) auto
  qed simp
qed simp

text \<open>\<open>memcmp\<close> on the common length, then the lengths: the lexicographic order.\<close>

lemma memcmp_lex:
  "memcmp (take (min (length s) (length t)) s) (take (min (length s) (length t)) t) = 0 \<Longrightarrow>
     (ord_class.lexordp s t \<longleftrightarrow> length s < length t) \<and> (s = t \<longleftrightarrow> length s = length t)"
  "memcmp (take (min (length s) (length t)) s) (take (min (length s) (length t)) t) = c \<Longrightarrow> c \<noteq> 0 \<Longrightarrow>
     (ord_class.lexordp s t \<longleftrightarrow> c < 0) \<and> s \<noteq> t"
proof (induction s arbitrary: t)
  case (Cons a s)
  { case 1 then show ?case using Cons.IH(1) by (cases t) (auto split: if_splits) }
  { case 2 then show ?case using Cons.IH(2) by (cases t) (auto split: if_splits) }
qed auto

text \<open>Escapes.\<close>

definition odigit :: "nat \<Rightarrow> byte" where
  "odigit d = of_nat (0x30 + d)"

definition escape :: "byte \<Rightarrow> byte list" where
  "escape b =
     (if b = 0x5c \<or> b < 0x20 \<or> 0x7f \<le> b
      then [0x5c, odigit (unat b div 64), odigit (unat b div 8 mod 8), odigit (unat b mod 8)] else [b])"

lemma odigit_facts:
  assumes "d < 8"
  shows "is_odigit (odigit d)" "unat (odigit d) = 0x30 + d" "escapes (odigit d) = 0"
proof -
  have "list_all (\<lambda>d. is_odigit (odigit d) \<and> unat (odigit d) = 0x30 + d \<and> escapes (odigit d) = 0) [0..<8]"
    by code_simp
  then show "is_odigit (odigit d)" "unat (odigit d) = 0x30 + d" "escapes (odigit d) = 0"
    using assms by (auto simp: list_all_iff)
qed

lemma octal_run_escape:
  "octal_run 3 0 (odigit (unat b div 64) # odigit (unat b div 8 mod 8) # odigit (unat b mod 8) # r) =
     (unat (b :: byte), r)"
proof -
  have "unat b div 64 < 8" using unat_byte_less [of b] by simp
  moreover have "unat b div 64 = unat b div 8 div 8" by (simp add: div_mult2_eq [symmetric])
  then have "(unat b div 64 * 8 + unat b div 8 mod 8) * 8 + unat b mod 8 = unat b" by simp
  ultimately show ?thesis by (simp add: odigit_facts numeral_3_eq_3)
qed

lemma unescape_escape: "unescape (escape b @ r) = map_sum id ((#) b) (unescape r)"
proof (cases "b = 0x5c \<or> b < 0x20 \<or> 0x7f \<le> b")
  case True
  have "unat b div 64 < 8" using unat_byte_less [of b] by simp
  then show ?thesis
    using True octal_run_escape [of b r] unat_byte_less [of b]
    by (simp add: escape_def unescape.simps(2) odigit_facts)
next
  case False
  then show ?thesis by (auto simp: escape_def unescape.simps(2))
qed

lemma unescape_length: "unescape s = Inr w \<Longrightarrow> length w \<le> length s"
proof (induction s arbitrary: w rule: unescape.induct)
  case (2 c r)
  have o: "length (snd (octal_run 3 0 r)) \<le> length r" by (rule length_octal_run)
  have h: "length (snd (hex_run 2 0 (tl r))) \<le> length (tl r)" by (rule length_hex_run)
  show ?case
    using 2 o h
    by (subst (asm) unescape.simps(2))
      (fastforce simp: map_sum_def split: if_splits list.splits sum.splits prod.splits)
qed simp

text \<open>Products that do not fit.\<close>

lemma reallocarray_result:
  "reallocarray n k = (if unat n * unat k < 2 ^ 64 then Some (k * n) else None)"
proof -
  have small: "unat n * unat k < 2 ^ 64" if "n < MUL_NO_OVERFLOW" "k < MUL_NO_OVERFLOW"
  proof -
    have "unat n < 2 ^ 32" "unat k < 2 ^ 32"
      using that by (simp_all add: MUL_NO_OVERFLOW_def word_less_nat_alt)
    then have "unat n * unat k < 2 ^ 32 * 2 ^ 32" by (intro mult_strict_mono) auto
    then show ?thesis by simp
  qed
  have div: "(-1) div n < k \<longleftrightarrow> 2 ^ 64 \<le> unat n * unat k" if "0 < n"
  proof -
    have "0 < unat n" using that by (simp add: word_less_nat_alt)
    have m1: "unat (-1 :: u64) = 2 ^ 64 - 1" by (simp add: unsigned_minus_1_eq_mask mask_eq_exp_minus_1)
    have "(-1) div n < k \<longleftrightarrow> (2 ^ 64 - 1) div unat n < unat k"
      unfolding word_less_nat_alt unat_div m1 ..
    also have "\<dots> \<longleftrightarrow> 2 ^ 64 - 1 < unat k * unat n"
      using \<open>0 < unat n\<close> by (rule div_less_iff_less_mult)
    also have "\<dots> \<longleftrightarrow> 2 ^ 64 \<le> unat n * unat k" by (auto simp: mult.commute)
    finally show ?thesis .
  qed
  show ?thesis
    using small div unfolding reallocarray_def
    by (cases "n = 0") (auto simp: word_neq_0_conv not_less not_le)
qed

lemma getlines_shape:
  assumes "split_lines input = ls @ [l]"
  shows "getlines input [] = map (\<lambda>l. \<lparr>l_data = l, l_len = length l\<rparr>)
    (ls @ [if last l = 0x0a then l else l @ [0x0a]])"
proof -
  have "l \<noteq> []" using split_lines_newlines [of input] assms by auto
  then show ?thesis using assms by (simp add: getlines_def Let_def last_conv_nth)
qed

section \<open>Properties\<close>

text \<open>
  Property C33 (bounded copies). \<open>strlcpy\<close> and \<open>strlcat\<close> never store outside the \<open>siz\<close> bytes of the
  destination, always leave a terminated string there (the longest prefix of the source, or of
  destination and source together, that fits) and return the length they tried to make; a
  destination without a terminator in its first \<open>siz\<close> bytes is left alone by \<open>strlcat\<close>.
\<close>
theorem strl_copies:
  assumes "nonul s" "nonul d"
  shows "(0 < siz \<and> siz \<le> length dst \<longrightarrow>
      (\<exists>dst'. strlcpy dst (s @ 0 # r) siz = Some (dst', length s) \<and> length dst' = length dst \<and>
        cstr dst' = take (siz - 1) s \<and> drop siz dst' = drop siz dst)) \<and>
    (siz \<le> Suc (length d + length e) \<longrightarrow>
      (\<exists>dst'. strlcat (d @ 0 # e) (s @ 0 # r) siz = Some (dst', min siz (length d) + length s) \<and>
        length dst' = Suc (length d + length e) \<and> drop siz dst' = drop siz (d @ 0 # e) \<and>
        cstr dst' = (if siz \<le> length d then d else d @ take (siz - length d - 1) s)))"
proof (intro conjI impI)
  assume siz: "0 < siz \<and> siz \<le> length dst"
  let ?x = "take (siz - 1) s @ [0]"
  have "length ?x \<le> siz" using siz by (cases siz) auto
  then have "drop siz (buf_write dst 0 ?x) = drop siz dst" by (intro drop_buf_write) simp_all
  moreover have "length (buf_write dst 0 ?x) = length dst"
    using siz \<open>length ?x \<le> siz\<close> by (intro length_buf_write) simp
  moreover have "cstr (buf_write dst 0 ?x) = take (siz - 1) s"
    using assms(1) cstr_buf_write [of "[]" "take (siz - 1) s" dst] by simp
  ultimately show "\<exists>dst'. strlcpy dst (s @ 0 # r) siz = Some (dst', length s) \<and> length dst' = length dst \<and>
      cstr dst' = take (siz - 1) s \<and> drop siz dst' = drop siz dst"
    using strlcpy_result [OF assms(1), of siz dst r] siz by simp
next
  assume siz: "siz \<le> Suc (length d + length e)"
  let ?x = "take (siz - length d - 1) s @ [0]"
  show "\<exists>dst'. strlcat (d @ 0 # e) (s @ 0 # r) siz = Some (dst', min siz (length d) + length s) \<and>
      length dst' = Suc (length d + length e) \<and> drop siz dst' = drop siz (d @ 0 # e) \<and>
      cstr dst' = (if siz \<le> length d then d else d @ take (siz - length d - 1) s)"
  proof (cases "siz \<le> length d")
    case True
    then show ?thesis
      using strlcat_result [OF assms(2,1) siz] assms(2) cstr_nonul [of d]
      by (simp add: cstr_def nonul_def takeWhile_append)
  next
    case False
    have len: "length d + length ?x \<le> siz" using False by simp
    then have "drop siz (buf_write (d @ 0 # e) (length d) ?x) = drop siz (d @ 0 # e)"
      by (intro drop_buf_write) simp_all
    moreover have "length (buf_write (d @ 0 # e) (length d) ?x) = Suc (length d + length e)"
      using len siz by (subst length_buf_write) auto
    moreover have "cstr (buf_write (d @ 0 # e) (length d) ?x) = d @ take (siz - length d - 1) s"
      using assms cstr_buf_write [of d "take (siz - length d - 1) s" "0 # e"] by simp
    ultimately show ?thesis using strlcat_result [OF assms(2,1) siz] False by simp
  qed
qed

theorem strl_copies_witness:
  "\<exists>dst'. strlcat [0x61, 0, 9, 9, 9] [0x62, 0x63, 0x64, 0] 4 = Some (dst', 4) \<and> cstr dst' = [0x61, 0x62, 0x63]"
  using strl_copies [of "[0x62, 0x63, 0x64]" "[0x61]" 4 "[1, 1, 1, 1]" "[]" "[9, 9, 9]"] by auto

text \<open>
  \<open>memmem\<close> returns the first occurrence of the needle for every haystack
  and needle, through all its special cases; \<open>strcasestr\<close> does so up to ASCII case on a non-empty
  haystack and finds nothing, not even the empty needle, in an empty one.
\<close>
lemma searches_first:
  "memmem l s = strstr l s \<and>
   strcasestr h n = (if h = [] then None else strstr (map lower h) (map lower n))"
  by (rule conjI [OF memmem_strstr strcasestr_strstr])

text \<open>
  The tokens of a string contain no separator, and the string
  is the tokens with one separator put back between each two of them; empty tokens are kept.
\<close>
lemma strsep_roundtrip:
  "\<exists>ds. set ds \<subseteq> set sep \<and> length (strsep_all s sep) = Suc (length ds) \<and>
     weave (strsep_all s sep) ds = s \<and> (\<forall>t \<in> set (strsep_all s sep). set t \<inter> set sep = {})"
  by (rule strsep_all_weave)

text \<open>
  Property C34 (\<open>strnsubst\<close> replaces as much as fits). For a buffer of up to \<open>2\<^sup>3\<^sup>1\<close> bytes: without a match
  string, or when the string itself does not fit, the result is the string, cut to the buffer. Otherwise it is
  the string with its first occurrences of the match replaced, from left to right, and it fits the buffer, as the
  string did after every single replacement; it stops before the last occurrence only if the next
  replacement would not fit. So if all of them fit, one after the other, every occurrence is replaced.
\<close>

theorem strnsubst_replaces:
  assumes "maxsize \<le> 2 ^ 31"
  shows "(m = [] \<or> maxsize \<le> length s \<longrightarrow> strnsubst (Some s) (Some m) (Some r) maxsize = Some (take (maxsize - 1) s)) \<and>
    (m \<noteq> [] \<and> length s < maxsize \<longrightarrow>
      (\<exists>n \<le> occurrences s m. strnsubst (Some s) (Some m) (Some r) maxsize = Some (replace_n n s m r) \<and>
        (\<forall>i \<le> n. length (replace_n i s m r) < maxsize) \<and>
        (if n = occurrences s m then replace_n n s m r = replace_all s m r else maxsize \<le> length (replace_n (Suc n) s m r))))"
proof (intro conjI impI)
  assume "m \<noteq> [] \<and> length s < maxsize"
  then have m: "m \<noteq> []" "length s < maxsize" by simp_all
  from strnsubst_loop_result [of m "[]" s maxsize r] m assms obtain n a b where
    ih: "strnsubst_loop [] s m r maxsize = (a, b)" "a @ b = replace_n n s m r" "n \<le> occurrences s m"
      "\<forall>i \<le> n. length (replace_n i s m r) < maxsize" "n < occurrences s m \<longrightarrow> maxsize \<le> length (replace_n (Suc n) s m r)" by auto
  have "length (a @ b) < maxsize" unfolding ih(2) using ih(4) by blast
  then have "take (maxsize - length a - 1) b = b" by simp
  then have "strnsubst (Some s) (Some m) (Some r) maxsize = Some (replace_n n s m r)"
    using m ih(1,2) by (simp add: strnsubst_def)
  with ih replace_n_all [OF m(1), of s r] show "\<exists>n \<le> occurrences s m. strnsubst (Some s) (Some m) (Some r) maxsize = Some (replace_n n s m r) \<and>
        (\<forall>i \<le> n. length (replace_n i s m r) < maxsize) \<and>
        (if n = occurrences s m then replace_n n s m r = replace_all s m r else maxsize \<le> length (replace_n (Suc n) s m r))"
    by (intro exI [of _ n]) (simp del: replace_n.simps)
qed (auto simp: strnsubst_def)

theorem strnsubst_replaces_witness:
  "strnsubst (Some [0x7b, 0x7d, 0x2e]) (Some [0x7b, 0x7d]) (Some [0x61]) 16 = Some [0x61, 0x2e]"
proof -
  let ?s = "[0x7b, 0x7d, 0x2e]" and ?m = "[0x7b, 0x7d]" and ?r = "[0x61]"
  have o: "occurrences ?s ?m = 1" "replace_n 1 ?s ?m ?r = [0x61, 0x2e]" by code_simp+
  have short: "length (replace_n 1 ?s ?m ?r) < 16" unfolding o(2) by simp
  from strnsubst_replaces [of 16 ?m ?s ?r] have "\<exists>n \<le> 1. strnsubst (Some ?s) (Some ?m) (Some ?r) 16 = Some (replace_n n ?s ?m ?r) \<and>
      (n = 1 \<or> 16 \<le> length (replace_n (Suc n) ?s ?m ?r))"
    unfolding o(1) by (auto simp del: replace_n.simps split: if_splits)
  then obtain n where n: "n \<le> 1" "strnsubst (Some ?s) (Some ?m) (Some ?r) 16 = Some (replace_n n ?s ?m ?r)"
    "n = 1 \<or> 16 \<le> length (replace_n (Suc n) ?s ?m ?r)" by blast
  have "n = 1"
  proof (rule ccontr)
    assume "n \<noteq> 1"
    then have "n = 0" using n(1) by simp
    then show False using n(3) short by (simp del: replace_n.simps)
  qed
  then show ?thesis using n(2) o(2) by (simp only:)
qed

text \<open>
  Property C35 (\<open>unescape\<close>). Every byte sequence is recovered from its escaped form, with octal
  escapes for control, non-ASCII and backslash bytes, and the result never outgrows the string it
  overwrites.
\<close>
theorem unescape_roundtrip:
  "unescape (concat (map escape bs)) = Inr bs \<and> (unescape s = Inr w \<longrightarrow> length w \<le> length s)"
proof
  show "unescape (concat (map escape bs)) = Inr bs"
    by (induction bs) (simp_all add: unescape_escape)
qed (simp add: unescape_length)

theorem unescape_roundtrip_witness:
  "unescape [0x5c, 0x6e, 0x41] = Inr [0x0a, 0x41] \<and> length [0x0a, 0x41 :: byte] \<le> length [0x5c, 0x6e, 0x41 :: byte]"
  using unescape_roundtrip [of "[]" "[0x5c, 0x6e, 0x41]" "[0x0a, 0x41]"]
  by (simp add: unescape.simps(2) escapes_def)

text \<open>
  The product of two 64-bit sizes is given to \<open>realloc\<close>
  exactly when it fits 64 bits, and then it is the exact product.
\<close>
lemma reallocarray_exact:
  "case reallocarray n k of
     None \<Rightarrow> 2 ^ 64 \<le> unat n * unat k
   | Some b \<Rightarrow> unat b = unat n * unat k"
  by (auto simp: reallocarray_result unat_word_ariths mult.commute)

text \<open>
  The lines of an input, with a newline supplied at its end when it lacks
  one, are the whole input; every line ends with a newline and carries its length.
\<close>
lemma getlines_lines:
  "concat (map l_data (getlines input [])) =
      input @ (if input = [] \<or> last input = 0x0a then [] else [0x0a]) \<and>
   (\<forall>l \<in> set (getlines input []). l_len l = length (l_data l) \<and> l_data l \<noteq> [] \<and> last (l_data l) = 0x0a)"
proof (cases "split_lines input" rule: rev_cases)
  case Nil
  then have "input = []" using concat_split_lines [of input] by simp
  then show ?thesis by (simp add: getlines_def)
next
  case (snoc ls l)
  have "l \<noteq> []" "\<forall>x \<in> set ls. x \<noteq> [] \<and> last x = 0x0a"
    using split_lines_newlines [of input] snoc by auto
  moreover have "concat ls @ l = input" using concat_split_lines [of input] snoc by simp
  ultimately show ?thesis by (auto simp: getlines_shape [OF snoc] comp_def)
qed

text \<open>
  On lines of less than 2 GiB \<open>linecmp\<close> is negative exactly
  when the first line is smaller in the lexicographic order of unsigned bytes, and zero exactly on
  equal lines; the difference of the lengths is cut to an \<open>int\<close>, so lines whose lengths differ by
  \<open>2 ^ 32\<close> compare equal when one is a prefix of the other.
\<close>
lemma linecmp_order:
  assumes "l_len a = length (l_data a)" "l_len b = length (l_data b)" "l_len a < 2 ^ 31" "l_len b < 2 ^ 31"
  shows "(linecmp a b = 0 \<longleftrightarrow> l_data a = l_data b) \<and>
    (linecmp a b < 0 \<longleftrightarrow> ord_class.lexordp (l_data a) (l_data b))"
proof -
  let ?m = "min (length (l_data a)) (length (l_data b))"
  let ?c = "memcmp (take ?m (l_data a)) (take ?m (l_data b))"
  have diff: "sint (word_of_int (int (l_len a) - int (l_len b)) :: 32 word) = int (l_len a) - int (l_len b)"
    using assms(3,4) by (simp add: sint_sbintrunc' signed_take_bit_int_eq_self del: of_int_diff)
  show ?thesis
    using memcmp_lex(1) [of "l_data a" "l_data b"] memcmp_lex(2) [of "l_data a" "l_data b" ?c] diff assms(1,2)
    by (cases "?c = 0") (simp_all add: linecmp_def Let_def)
qed

end
