(* ===== verification/Libutil_Num.thy ===== *)
theory Libutil_Num
  imports Libutil_String
begin

text \<open>
  Numbers and modes in text: the checked conversions \<open>strtonum.c\<close>, \<open>estrtol.c\<close> and \<open>estrtoul.c\<close>,
  sizes with a suffix (\<open>parseoffset.c\<close>), hexadecimal digits (\<open>hexval.c\<close>) and file modes (\<open>mode.c\<close>) of
  \<open>shared/libutil\<close>, on a model of the C library's \<open>strtol\<close> family in the C locale with 64-bit \<open>long\<close>.

  File modes are specified by sets of permission bits, and \<open>parsemode\<close> refines that specification.
\<close>

section \<open>The C library's conversions\<close>

definition isspace :: "byte \<Rightarrow> bool" where
  "isspace c \<longleftrightarrow> c = 0x20 \<or> (9 \<le> c \<and> c \<le> 13)"

definition digit_val :: "byte \<Rightarrow> nat" where
  "digit_val c =
     (if 0x30 \<le> c \<and> c \<le> 0x39 then unat c - 0x30
      else if 0x61 \<le> c \<and> c \<le> 0x7a then unat c - 0x61 + 10
      else if 0x41 \<le> c \<and> c \<le> 0x5a then unat c - 0x41 + 10
      else 36)"

definition digits :: "nat \<Rightarrow> byte list \<Rightarrow> byte list" where
  "digits b = takeWhile (\<lambda>c. digit_val c < b)"

definition digits_value :: "nat \<Rightarrow> byte list \<Rightarrow> nat" where
  "digits_value b ds = foldl (\<lambda>v c. v * b + digit_val c) 0 ds"

definition sign_of :: "byte list \<Rightarrow> bool \<times> nat" where
  "sign_of s = (if s \<noteq> [] \<and> hd s = 0x2d then (True, 1) else if s \<noteq> [] \<and> hd s = 0x2b then (False, 1) else (False, 0))"

definition has_0x :: "byte list \<Rightarrow> bool" where
  "has_0x s \<longleftrightarrow> length s > 2 \<and> s ! 0 = 0x30 \<and> (s ! 1 = 0x78 \<or> s ! 1 = 0x58) \<and> digit_val (s ! 2) < 16"

definition base_of :: "nat \<Rightarrow> byte list \<Rightarrow> nat \<times> nat" where
  "base_of base s =
     (if (base = 0 \<or> base = 16) \<and> has_0x s then (16, 2)
      else if base = 0 then (if s \<noteq> [] \<and> hd s = 0x30 then 8 else 10, 0)
      else (base, 0))"

text \<open>The sign, the magnitude and the offset of \<open>end\<close>, which is 0 when nothing was converted.\<close>

definition strto :: "byte list \<Rightarrow> nat \<Rightarrow> bool \<times> nat \<times> nat" where
  "strto s base =
     (let ws = length (takeWhile isspace s);
          r = drop ws s;
          (neg, sg) = sign_of r;
          r = drop sg r;
          (b, px) = base_of base r;
          ds = digits b (drop px r) in
      if ds = [] then (False, 0, 0) else (neg, digits_value b ds, ws + sg + px + length ds))"

text \<open>\<open>strtol\<close> and \<open>strtoll\<close>: the value, the offset of \<open>end\<close> and whether \<open>errno\<close> is \<open>ERANGE\<close>.\<close>

definition strtol :: "byte list \<Rightarrow> nat \<Rightarrow> int \<times> nat \<times> bool" where
  "strtol s base =
     (let (neg, v, e) = strto s base; x = (if neg then - int v else int v) in
      if x < - (2 ^ 63) then (- (2 ^ 63), e, True)
      else if 2 ^ 63 \<le> x then (2 ^ 63 - 1, e, True)
      else (x, e, False))"

definition strtoul :: "byte list \<Rightarrow> nat \<Rightarrow> u64 \<times> nat \<times> bool" where
  "strtoul s base =
     (let (neg, v, e) = strto s base in
      if 2 ^ 64 \<le> v then (-1, e, True)
      else (if neg then - of_nat v else of_nat v, e, False))"

section \<open>Checked conversions\<close>

definition hexval :: "int \<Rightarrow> int" where
  "hexval c =
     (if 0x30 \<le> c \<and> c \<le> 0x39 then c - 0x30
      else if 0x61 \<le> c \<and> c \<le> 0x66 then c - 0x61 + 10
      else if 0x41 \<le> c \<and> c \<le> 0x46 then c - 0x41 + 10
      else -1)"

datatype num_error = INVALID | TOOSMALL | TOOLARGE

text \<open>\<open>strtonum\<close>: the error, whose text goes to \<open>*errstrp\<close>, or the value; an error returns 0.\<close>

definition strtonum :: "byte list \<Rightarrow> int \<Rightarrow> int \<Rightarrow> num_error + int" where
  "strtonum numstr minval maxval =
     (if minval > maxval then Inl INVALID
      else
        let (ll, ep, erange) = strtol numstr 10 in
        if ep = 0 \<or> ep < length numstr then Inl INVALID
        else if (ll = - (2 ^ 63) \<and> erange) \<or> ll < minval then Inl TOOSMALL
        else if (ll = 2 ^ 63 - 1 \<and> erange) \<or> ll > maxval then Inl TOOLARGE
        else Inr ll)"

text \<open>\<open>estrtol\<close> and \<open>estrtoul\<close>; an exit is \<open>None\<close>.\<close>

definition estrtol :: "byte list \<Rightarrow> nat \<Rightarrow> int option" where
  "estrtol s base =
     (let (n, e, erange) = strtol s base in
      if e < length s then None else if erange then None else Some n)"

definition estrtoul :: "byte list \<Rightarrow> nat \<Rightarrow> u64 option" where
  "estrtoul s base =
     (let (n, e, erange) = strtoul s base in
      if e < length s then None else if erange then None else Some n)"

definition toupper :: "byte \<Rightarrow> byte" where
  "toupper c = (if 0x61 \<le> c \<and> c \<le> 0x7a then c - 0x20 else c)"

definition offset_scale :: "byte \<Rightarrow> int option" where
  "offset_scale c =
     map_of [(0x42, 512), (0x4b, 1024), (0x4d, 1024 * 1024), (0x47, 1024 * 1024 * 1024),
       (0x54, 1024 * 1024 * 1024 * 1024)] (toupper c)"

definition parseoffset :: "byte list option \<Rightarrow> int" where
  "parseoffset str =
     (case str of None \<Rightarrow> -1 | Some s \<Rightarrow>
        if s = [] \<or> isspace (hd s) \<or> hd s = 0x2b \<or> hd s = 0x2d then -1
        else
          let (res, e, erange) = strtol s 0 in
          if erange then -1
          else if res < 0 then -1
          else
            case if e < length s then offset_scale (s ! e) else Some 1 of
              None \<Rightarrow> -1
            | Some scale \<Rightarrow> if res > (2 ^ 63 - 1) div scale then -1 else res * scale)"

section \<open>File modes\<close>

type_synonym mode_t = u32

abbreviation S_IFMT :: mode_t where "S_IFMT \<equiv> 0xF000"
abbreviation S_ISUID :: mode_t where "S_ISUID \<equiv> 0x800"
abbreviation S_ISGID :: mode_t where "S_ISGID \<equiv> 0x400"
abbreviation S_ISVTX :: mode_t where "S_ISVTX \<equiv> 0x200"
abbreviation S_IRUSR :: mode_t where "S_IRUSR \<equiv> 0x100"
abbreviation S_IWUSR :: mode_t where "S_IWUSR \<equiv> 0x80"
abbreviation S_IXUSR :: mode_t where "S_IXUSR \<equiv> 0x40"
abbreviation S_IRGRP :: mode_t where "S_IRGRP \<equiv> 0x20"
abbreviation S_IWGRP :: mode_t where "S_IWGRP \<equiv> 0x10"
abbreviation S_IXGRP :: mode_t where "S_IXGRP \<equiv> 8"
abbreviation S_IROTH :: mode_t where "S_IROTH \<equiv> 4"
abbreviation S_IWOTH :: mode_t where "S_IWOTH \<equiv> 2"
abbreviation S_IXOTH :: mode_t where "S_IXOTH \<equiv> 1"
abbreviation S_IRWXU :: mode_t where "S_IRWXU \<equiv> 0x1C0"
abbreviation S_IRWXG :: mode_t where "S_IRWXG \<equiv> 0x38"
abbreviation S_IRWXO :: mode_t where "S_IRWXO \<equiv> 7"

definition S_ISDIR :: "mode_t \<Rightarrow> bool" where
  "S_ISDIR m \<longleftrightarrow> m AND S_IFMT = 0x4000"

text \<open>The letters of a clause that say whose bits are meant.\<close>

fun who_run :: "mode_t \<Rightarrow> byte list \<Rightarrow> mode_t \<times> byte list" where
  "who_run who [] = (who, [])"
| "who_run who (c # p) =
     (if c = 0x75 then who_run (who OR (S_IRWXU OR S_ISUID)) p
      else if c = 0x67 then who_run (who OR (S_IRWXG OR S_ISGID)) p
      else if c = 0x6f then who_run (who OR (S_IRWXO OR S_ISVTX)) p
      else if c = 0x61 then
        who_run (who OR (S_IRWXU OR S_ISUID OR S_IRWXG OR S_ISGID OR S_IRWXO OR S_ISVTX)) p
      else (who, c # p))"

text \<open>\<open>who\<close> and \<open>clear\<close> of a clause, and the rest of the text.\<close>

definition mode_who :: "mode_t \<Rightarrow> byte list \<Rightarrow> mode_t \<times> mode_t \<times> byte list" where
  "mode_who msk p =
     (let (who, p) = who_run 0 p in
      if who \<noteq> 0 then (who, who, p)
      else (NOT msk, S_ISUID OR S_ISGID OR S_ISVTX OR S_IRWXU OR S_IRWXG OR S_IRWXO, p))"

definition perm_if :: "bool \<Rightarrow> mode_t \<Rightarrow> mode_t \<Rightarrow> mode_t" where
  "perm_if b bits perm = (if b then perm OR bits else perm)"

text \<open>The letters of a permission list.\<close>

fun perm_run :: "mode_t \<Rightarrow> mode_t \<Rightarrow> byte list \<Rightarrow> mode_t \<times> byte list" where
  "perm_run mode perm [] = (perm, [])"
| "perm_run mode perm (c # p) =
     (if c = 0x72 then perm_run mode (perm OR (S_IRUSR OR S_IRGRP OR S_IROTH)) p
      else if c = 0x77 then perm_run mode (perm OR (S_IWUSR OR S_IWGRP OR S_IWOTH)) p
      else if c = 0x78 then perm_run mode (perm OR (S_IXUSR OR S_IXGRP OR S_IXOTH)) p
      else if c = 0x58 then
        perm_run mode (perm_if (S_ISDIR mode \<or> mode AND (S_IXUSR OR S_IXGRP OR S_IXOTH) \<noteq> 0)
          (S_IXUSR OR S_IXGRP OR S_IXOTH) perm) p
      else if c = 0x73 then perm_run mode (perm OR (S_ISUID OR S_ISGID)) p
      else if c = 0x74 then perm_run mode (perm OR S_ISVTX) p
      else (perm, c # p))"

text \<open>The \<open>switch (*++p)\<close>: a copy of another class, or a permission list.\<close>

definition mode_perm :: "mode_t \<Rightarrow> byte list \<Rightarrow> mode_t \<times> byte list" where
  "mode_perm mode p =
     (case p of
        [] \<Rightarrow> (0, [])
      | c # p' \<Rightarrow>
          if c = 0x75 then
            (perm_if (mode AND S_ISUID \<noteq> 0) (S_ISUID OR S_ISGID)
              (perm_if (mode AND S_IXUSR \<noteq> 0) (S_IXUSR OR S_IXGRP OR S_IXOTH)
              (perm_if (mode AND S_IWUSR \<noteq> 0) (S_IWUSR OR S_IWGRP OR S_IWOTH)
              (perm_if (mode AND S_IRUSR \<noteq> 0) (S_IRUSR OR S_IRGRP OR S_IROTH) 0))), p')
          else if c = 0x67 then
            (perm_if (mode AND S_ISGID \<noteq> 0) (S_ISUID OR S_ISGID)
              (perm_if (mode AND S_IXGRP \<noteq> 0) (S_IXUSR OR S_IXGRP OR S_IXOTH)
              (perm_if (mode AND S_IWGRP \<noteq> 0) (S_IWUSR OR S_IWGRP OR S_IWOTH)
              (perm_if (mode AND S_IRGRP \<noteq> 0) (S_IRUSR OR S_IRGRP OR S_IROTH) 0))), p')
          else if c = 0x6f then
            (perm_if (mode AND S_IXOTH \<noteq> 0) (S_IXUSR OR S_IXGRP OR S_IXOTH)
              (perm_if (mode AND S_IWOTH \<noteq> 0) (S_IWUSR OR S_IWGRP OR S_IWOTH)
              (perm_if (mode AND S_IROTH \<noteq> 0) (S_IRUSR OR S_IRGRP OR S_IROTH) 0)), p')
          else perm_run mode 0 p)"

definition mode_apply :: "byte \<Rightarrow> mode_t \<Rightarrow> mode_t \<Rightarrow> mode_t \<Rightarrow> mode_t \<Rightarrow> mode_t" where
  "mode_apply opc clear who perm mode =
     (if opc = 0x3d then (mode AND NOT clear) OR (perm AND who)
      else if opc = 0x2b then mode OR (perm AND who)
      else mode AND NOT (perm AND who))"

lemma length_who_run: "length (snd (who_run who p)) \<le> length p"
  by (induction who p rule: who_run.induct) auto

lemma length_perm_run: "length (snd (perm_run mode perm p)) \<le> length p"
  by (induction mode perm p rule: perm_run.induct) auto

lemma length_mode_perm: "mode_perm mode p = (perm, p') \<Longrightarrow> length p' \<le> length p"
  using length_perm_run [of mode 0 p] by (auto simp: mode_perm_def split: list.splits if_splits)

lemma length_mode_who: "mode_who msk p = (who, clear, p') \<Longrightarrow> length p' \<le> length p"
  using length_who_run [of 0 p] by (auto simp: mode_who_def Let_def split: prod.splits if_splits)

text \<open>The loop over the operators of a clause and, behind a comma, of the next one; an exit is \<open>None\<close>.\<close>

function mode_ops :: "mode_t \<Rightarrow> mode_t \<Rightarrow> mode_t \<Rightarrow> byte list \<Rightarrow> mode_t \<Rightarrow> mode_t option" where
  "mode_ops msk who clear [] mode = Some mode"
| "mode_ops msk who clear (opc # p) mode =
     (if opc \<noteq> 0x3d \<and> opc \<noteq> 0x2b \<and> opc \<noteq> 0x2d then None
      else
        case mode_perm mode p of (perm, p1) \<Rightarrow>
        let mode = mode_apply opc clear who perm mode in
        if p1 \<noteq> [] \<and> hd p1 = 0x2c then
          case mode_who msk (tl p1) of (who, clear, p2) \<Rightarrow> mode_ops msk who clear p2 mode
        else mode_ops msk who clear p1 mode)"
  by pat_completeness auto
termination
proof (relation "measure (\<lambda>(msk, who, clear, p, mode). length p)", goal_cases)
  case (2 msk who clear opc p mode perm p1 x who' y clear' p2)
  then show ?case
    using length_mode_perm [of mode p perm p1] length_mode_who [of msk "tl p1" who' clear' p2] by simp
next
  case (3 msk who clear opc p mode perm p1 x)
  then show ?case using length_mode_perm [of mode p perm p1] by simp
qed simp

declare mode_ops.simps(2) [simp del]

text \<open>\<open>int octal = strtol(...)\<close> keeps the low 32 bits.\<close>

definition parsemode :: "byte list \<Rightarrow> mode_t \<Rightarrow> mode_t \<Rightarrow> mode_t option" where
  "parsemode str mode msk =
     (let (l, e, erange) = strtol str 8; octal = sint (word_of_int l :: 32 word) in
      if e = length str then
        if octal < 0 \<or> octal > 0xFFF then None else Some (word_of_int octal)
      else
        case mode_who msk str of (who, clear, p) \<Rightarrow>
          map_option (\<lambda>m. m AND NOT S_IFMT) (mode_ops msk who clear p mode))"

section \<open>Conversions of whole numbers\<close>

lemma all_bytes: "list_all P (map of_nat [0..<256]) \<Longrightarrow> P (c :: byte)"
proof -
  assume "list_all P (map of_nat [0..<256])"
  moreover have "c \<in> set (map of_nat [0..<256])"
    using unat_byte_less [of c] by (auto intro!: image_eqI [of _ _ "unat c"])
  ultimately show "P c" unfolding list_all_iff by blast
qed

lemma digit_val_char:
  "digit_val c < 36 \<longrightarrow> \<not> isspace c \<and> c \<noteq> 0x2d \<and> c \<noteq> 0x2b \<and> (c = 0x30 \<longleftrightarrow> digit_val c = 0)"
  by (rule all_bytes) code_simp

text \<open>What a decimal or octal conversion accepts: white space, a sign, digits.\<close>

definition is_number :: "nat \<Rightarrow> byte list \<Rightarrow> int \<Rightarrow> bool" where
  "is_number b s v \<longleftrightarrow>
     (\<exists>ws sg ds. s = ws @ sg @ ds \<and> (\<forall>c \<in> set ws. isspace c) \<and> sg \<in> {[], [0x2b], [0x2d]} \<and>
        ds \<noteq> [] \<and> (\<forall>c \<in> set ds. digit_val c < b) \<and>
        v = (if sg = [0x2d] then - int (digits_value b ds) else int (digits_value b ds)))"

lemma digits_append:
  assumes "\<forall>c \<in> set ds. digit_val c < b" "rest = [] \<or> b \<le> digit_val (hd rest)"
  shows "digits b (ds @ rest) = ds"
  using assms unfolding digits_def by (cases rest) (auto simp: takeWhile_append)

lemma strto_number:
  assumes ws: "\<forall>c \<in> set ws. isspace c" and sg: "sg \<in> {[], [0x2b], [0x2d]}"
    and ds: "ds \<noteq> []" "\<forall>c \<in> set ds. digit_val c < b" and b: "b \<le> 36"
    and rest: "rest = [] \<or> b \<le> digit_val (hd rest)"
    and base: "base_of base (ds @ rest) = (b, 0)"
  shows "strto (ws @ sg @ ds @ rest) base =
    (sg = [0x2d], digits_value b ds, length ws + length sg + length ds)"
proof -
  obtain d ds' where d: "ds = d # ds'" using ds(1) by (cases ds) auto
  have first: "\<not> isspace d" "d \<noteq> 0x2d" "d \<noteq> 0x2b"
    using digit_val_char [of d] ds(2) b d by auto
  have "takeWhile isspace (ws @ sg @ ds @ rest) = ws"
    using ws sg d first by (subst takeWhile_append2) (auto simp: isspace_def)
  then show ?thesis
    using sg first d ds base digits_append [OF ds(2) rest]
    by (auto simp: strto_def Let_def sign_of_def)
qed

lemma strto_le: "strto s base = (neg, v, e) \<Longrightarrow> e \<le> length s"
proof -
  have key: "k + length (digits b (drop k s)) \<le> length s" if "digits b (drop k s) \<noteq> []" for k b
  proof -
    have "k < length s" using that by (cases "k < length s") (auto simp: digits_def)
    moreover have "length (digits b (drop k s)) \<le> length (drop k s)"
      unfolding digits_def by (rule length_takeWhile_le)
    ultimately show ?thesis by simp
  qed
  assume "strto s base = (neg, v, e)"
  then show ?thesis
    using key by (auto simp: strto_def Let_def add.commute split: prod.splits if_splits)
      (metis add.assoc add.commute)
qed

lemma strto_consumed:
  assumes "strto s b = (neg, v, e)" "e = length s" "e \<noteq> 0" "b \<noteq> 0" "b \<noteq> 16"
  shows "is_number b s (if neg then - int v else int v)"
proof -
  let ?ws = "takeWhile isspace s"
  let ?r = "dropWhile isspace s"
  obtain ng sg where sg: "sign_of ?r = (ng, sg)" by fastforce
  let ?q = "drop sg ?r"
  let ?ds = "digits b ?q"
  have base: "base_of b x = (b, 0)" for x using assms by (simp add: base_of_def)
  have s: "strto s b = (if ?ds = [] then (False, 0, 0) else (ng, digits_value b ?ds, length ?ws + sg + length ?ds))"
    by (simp add: strto_def Let_def sg base del: drop_drop flip: dropWhile_eq_drop)
  then have ds: "?ds \<noteq> []" "neg = ng" "v = digits_value b ?ds" "length s = length ?ws + sg + length ?ds"
    using assms by (auto split: if_splits)
  have sgr: "take sg ?r = (if ng then [0x2d] else take sg ?r)" "take sg ?r \<in> {[], [0x2b], [0x2d]}"
    "take sg ?r = [0x2d] \<longleftrightarrow> ng" "length (take sg ?r) = sg"
    using sg by (cases ?r; auto simp: sign_of_def split: if_splits)+
  have split: "s = ?ws @ take sg ?r @ ?q" by simp
  have "length s = length ?ws + sg + length ?q"
    using arg_cong [OF split, of length] sgr(4) by (simp only: length_append add.assoc)
  then have "length ?q = length ?ds" using ds(4) by simp
  then have q: "?q = ?ds" by (metis digits_def takeWhile_eq_take take_all order.refl)
  show ?thesis
    unfolding is_number_def
  proof (intro exI conjI)
    show "s = ?ws @ take sg ?r @ ?ds"
      by (rule trans [OF split arg_cong [OF q, where f = "\<lambda>x. ?ws @ take sg ?r @ x"]])
    show "\<forall>c \<in> set ?ws. isspace c" by (auto dest: set_takeWhileD)
    show "take sg ?r \<in> {[], [0x2b], [0x2d]}" "?ds \<noteq> []" by fact+
    show "\<forall>c \<in> set ?ds. digit_val c < b" by (auto simp: digits_def dest: set_takeWhileD)
    show "(if neg then - int v else int v) =
        (if take sg ?r = [0x2d] then - int (digits_value b ?ds) else int (digits_value b ?ds))"
      using ds(2,3) sgr(3) by simp
  qed
qed

lemma number_strto:
  assumes "is_number b s v" "b \<noteq> 0" "b \<noteq> 16" "b \<le> 36"
  obtains neg m where "strto s b = (neg, m, length s)" "v = (if neg then - int m else int m)" "s \<noteq> []"
proof -
  from assms(1) obtain ws sg ds where s: "s = ws @ sg @ ds" "\<forall>c \<in> set ws. isspace c"
    "sg \<in> {[], [0x2b], [0x2d]}" "ds \<noteq> []" "\<forall>c \<in> set ds. digit_val c < b"
    and v: "v = (if sg = [0x2d] then - int (digits_value b ds) else int (digits_value b ds))"
    unfolding is_number_def by blast
  have "strto s b = (sg = [0x2d], digits_value b ds, length s)"
    using strto_number [OF s(2-5) assms(4), of "[]" b] s(1) assms(2,3) by (simp add: base_of_def)
  then show ?thesis using v s(1,4) by (intro that) auto
qed

text \<open>
  Property C36 (\<open>strtonum\<close>). For limits in the range of \<open>long long\<close> the conversion succeeds exactly
  on a decimal number, with optional leading white space and sign, that lies within the limits,
  and then returns it; otherwise it says which of the three reasons holds. No overflow of the
  conversion shows.
\<close>
theorem strtonum_spec:
  assumes "- (2 ^ 63) \<le> minval" "maxval < 2 ^ 63"
  shows "(minval > maxval \<or> \<not> (\<exists>v. is_number 10 s v) \<longrightarrow> strtonum s minval maxval = Inl INVALID) \<and>
    (\<forall>v. minval \<le> maxval \<and> is_number 10 s v \<longrightarrow>
      strtonum s minval maxval =
        (if v < minval then Inl TOOSMALL else if v > maxval then Inl TOOLARGE else Inr v))"
proof (intro conjI impI allI)
  assume "minval > maxval \<or> \<not> (\<exists>v. is_number 10 s v)"
  moreover obtain neg m e where st: "strto s 10 = (neg, m, e)" by (metis surj_pair)
  moreover have "e \<le> length s" using st by (rule strto_le)
  ultimately show "strtonum s minval maxval = Inl INVALID"
    using strto_consumed [OF st] by (auto simp: strtonum_def strtol_def Let_def)
next
  fix v
  assume "minval \<le> maxval \<and> is_number 10 s v"
  moreover from this obtain neg m where "strto s 10 = (neg, m, length s)"
    "v = (if neg then - int m else int m)" "s \<noteq> []"
    using number_strto [of 10 s v] by auto
  ultimately show "strtonum s minval maxval =
      (if v < minval then Inl TOOSMALL else if v > maxval then Inl TOOLARGE else Inr v)"
    using assms by (auto simp: strtonum_def strtol_def Let_def)
qed

lemma is_number_17: "is_number 10 [0x2d, 0x31, 0x37] (-17)"
  unfolding is_number_def
  by (intro exI [of _ "[]"] exI [of _ "[0x2d]"] exI [of _ "[0x31, 0x37]"])
    (simp add: digits_value_def digit_val_def)

theorem strtonum_spec_witness:
  "strtonum [0x2d, 0x31, 0x37] (-20) 5 = Inr (-17) \<and> strtonum [0x2d, 0x31, 0x37] 0 5 = Inl TOOSMALL"
  using strtonum_spec [of "-20" 5 "[0x2d, 0x31, 0x37]"] strtonum_spec [of 0 5 "[0x2d, 0x31, 0x37]"] is_number_17
  by force

text \<open>
  Of the empty string and the decimal numbers in the range of \<open>long\<close> the
  conversion returns the value, and exits on every other text; the empty string counts as 0.
\<close>
lemma estrtol_spec:
  "estrtol s 10 = Some n \<longleftrightarrow> s = [] \<and> n = 0 \<or> is_number 10 s n \<and> - (2 ^ 63) \<le> n \<and> n < 2 ^ 63"
proof -
  obtain neg m e where st: "strto s 10 = (neg, m, e)" by (metis surj_pair)
  let ?v = "if neg then - int m else int m"
  have le: "e \<le> length s" using st by (rule strto_le)
  have nil: "strto [] 10 = (False, 0, 0)"
    by (simp add: strto_def sign_of_def base_of_def digits_def)
  have full: "is_number 10 s n \<longleftrightarrow> e = length s \<and> s \<noteq> [] \<and> n = ?v" for n
  proof
    assume "is_number 10 s n"
    then show "e = length s \<and> s \<noteq> [] \<and> n = ?v"
      by (rule number_strto) (use st in auto)
  qed (use strto_consumed [OF st] in auto)
  show ?thesis
    using le nil st full [of n] by (auto simp: estrtol_def strtol_def Let_def split: if_splits)
qed

text \<open>Numbers printed in decimal.\<close>

fun dec :: "nat \<Rightarrow> byte list" where
  "dec n = (if n < 10 then [of_nat (0x30 + n)] else dec (n div 10) @ [of_nat (0x30 + n mod 10)])"

declare dec.simps [simp del]

lemma digit_char: "d < 10 \<Longrightarrow> digit_val (of_nat (0x30 + d)) = d"
proof -
  have "list_all (\<lambda>d. digit_val (of_nat (0x30 + d)) = d) [0..<10]" by code_simp
  then show "d < 10 \<Longrightarrow> digit_val (of_nat (0x30 + d)) = d" by (auto simp: list_all_iff)
qed

lemma digits_value_snoc: "digits_value b (ds @ [c]) = digits_value b ds * b + digit_val c"
  by (simp add: digits_value_def)

lemma dec_facts:
  "digits_value 10 (dec n) = n \<and> (\<forall>c \<in> set (dec n). digit_val c < 10) \<and> dec n \<noteq> [] \<and>
     (0 < n \<longrightarrow> digit_val (hd (dec n)) \<noteq> 0)"
proof (induction n rule: dec.induct)
  case (1 n)
  show ?case
  proof (cases "n < 10")
    case True
    then show ?thesis
      using digit_char [OF True] by (simp add: dec.simps [of n] digits_value_def del: of_nat_add)
  next
    case False
    have "digit_val (of_nat (0x30 + n mod 10)) = n mod 10" by (rule digit_char) simp
    then show ?thesis
      using 1 False by (simp add: dec.simps [of n] digits_value_snoc del: of_nat_add)
  qed
qed

lemma le_div_iff_mult: "0 < k \<Longrightarrow> n \<le> m div k \<longleftrightarrow> n * k \<le> m" for n m k :: int
proof
  assume k: "0 < k" and "n \<le> m div k"
  then have "n * k \<le> m div k * k" by (intro mult_right_mono) auto
  also have "\<dots> \<le> m" using k by (simp add: minus_mod_eq_div_mult [symmetric])
  finally show "n * k \<le> m" .
next
  assume k: "0 < k" and "n * k \<le> m"
  then have "n * k div k \<le> m div k" by (intro zdiv_mono1) auto
  then show "n \<le> m div k" using k by simp
qed

lemma offset_scale_cases:
  "offset_scale c = Some k \<Longrightarrow>
     k \<in> {512, 1024, 1024 * 1024, 1024 * 1024 * 1024, 1024 * 1024 * 1024 * 1024}"
  by (auto simp: offset_scale_def split: if_splits)

text \<open>
  A positive decimal number with a suffix letter of either case is the
  number times the letter's scale, or an error when that exceeds \<open>SSIZE_MAX\<close>; whatever follows the
  letter is not looked at. Without a number a suffix alone is the offset 0.
\<close>
lemma parseoffset_scales:
  assumes "0 < n" "offset_scale c = Some k" "10 \<le> digit_val c"
  shows "parseoffset (Some (dec n @ c # t)) = (if int n * k < 2 ^ 63 then int n * k else -1) \<and>
    parseoffset (Some (c # t)) = 0"
proof -
  obtain d ds where d: "dec n = d # ds" using dec_facts [of n] by (cases "dec n") auto
  have dv: "digit_val d < 10" "digit_val d \<noteq> 0" using dec_facts [of n] d assms(1) by auto
  have first: "\<not> isspace d" "d \<noteq> 0x2d" "d \<noteq> 0x2b" "d \<noteq> 0x30"
    using digit_val_char [of d] dv by auto
  have k: "0 < k" using offset_scale_cases [OF assms(2)] by auto
  have "base_of 0 (dec n @ c # t) = (10, 0)"
    using first d by (simp add: base_of_def has_0x_def)
  then have st: "strto (dec n @ c # t) 0 = (False, n, length (dec n))"
    using strto_number [of "[]" "[]" "dec n" 10 "c # t" 0] dec_facts [of n] assms(3) by simp
  have "int n \<le> (2 ^ 63 - 1) div k \<longleftrightarrow> int n * k \<le> 2 ^ 63 - 1"
    using k by (rule le_div_iff_mult)
  moreover have "int n * k \<le> 2 ^ 63 - 1 \<Longrightarrow> n < 2 ^ 63"
    using k mult_left_mono [of 1 k "int n"] by simp
  ultimately have "parseoffset (Some (dec n @ c # t)) = (if int n * k < 2 ^ 63 then int n * k else -1)"
    using st first d assms k by (auto simp: parseoffset_def strtol_def Let_def nth_append not_le not_less)
  note suffix = this
  have "toupper c \<noteq> 0x20 \<and> \<not> isspace c \<and> c \<noteq> 0x2b \<and> c \<noteq> 0x2d \<and> c \<noteq> 0x30"
    using assms(2) by (auto simp: offset_scale_def toupper_def isspace_def split: if_splits)
  note c = this
  have "strto (c # t) 0 = (False, 0, 0)"
    using c assms(3) by (simp add: strto_def sign_of_def base_of_def has_0x_def digits_def)
  moreover have "0 \<le> (2 ^ 63 - 1) div k" using k by (simp add: pos_imp_zdiv_nonneg_iff)
  ultimately have "parseoffset (Some (c # t)) = 0"
    using c assms(2) by (simp add: parseoffset_def strtol_def)
  with suffix show ?thesis by simp
qed

section \<open>Octal modes\<close>

text \<open>
  A mode in octal digits below \<open>2 ^ 63\<close> is accepted when its value modulo
  \<open>2 ^ 32\<close> is at most 07777 and gives that remainder; so every mode up to 07777 means itself, but
  040000000755 is accepted as 0755 too, and the empty string as 0.
\<close>
lemma parsemode_octal:
  assumes "\<forall>c \<in> set ds. digit_val c < 8" "digits_value 8 ds < 2 ^ 63"
  shows "parsemode ds mode msk =
    (let v = digits_value 8 ds mod 2 ^ 32 in if v \<le> 0xFFF then Some (of_nat v) else None)"
proof (cases "ds = []")
  case True
  then show ?thesis
    by (simp add: parsemode_def strtol_def strto_def sign_of_def base_of_def digits_def digits_value_def)
next
  case False
  let ?v = "digits_value 8 ds"
  have "strto ds 8 = (False, ?v, length ds)"
    using strto_number [of "[]" "[]" ds 8 "[]" 8] assms False by (simp add: base_of_def)
  then have st: "strtol ds 8 = (int ?v, length ds, False)"
    using assms(2) by (simp add: strtol_def)
  define m where "m = ?v mod 2 ^ 32"
  have m: "m < 2 ^ 32" by (simp add: m_def)
  have w: "(word_of_int (int ?v) :: 32 word) = of_nat m"
    by (simp add: m_def word_of_nat_eq_iff take_bit_eq_mod)
  have "sint (of_nat m :: 32 word) = (int m + 2 ^ 31) mod 2 ^ 32 - 2 ^ 31"
    using int_word_sint [of "int m", where 'a = 32] by simp
  also have "\<dots> = (if m < 2 ^ 31 then int m else int m - 2 ^ 32)"
  proof (cases "m < 2 ^ 31")
    case False
    have "(int m + 2 ^ 31) mod 2 ^ 32 = (int m - 2 ^ 31 + 2 ^ 32) mod 2 ^ 32" by (simp add: add.commute)
    also have "\<dots> = int m - 2 ^ 31" unfolding mod_add_self2 using False m by simp
    finally show ?thesis using False by simp
  qed simp
  finally show ?thesis
    unfolding m_def [symmetric] Let_def parsemode_def st using w m by simp
qed

section \<open>Symbolic modes: the specification\<close>

datatype who_letter = WU | WG | WO | WA
datatype perm_letter = PR | PW | PX | PXX | PS | PT
datatype perm_spec = CopyU | CopyG | CopyO | Letters "perm_letter list"
datatype mode_oper = SetOp | AddOp | DelOp

type_synonym mode_clause = "who_letter list \<times> (mode_oper \<times> perm_spec) list"

text \<open>Permission bits are numbered as in the mode word; 12 to 15 hold the file type.\<close>

fun who_bits :: "who_letter \<Rightarrow> nat set" where
  "who_bits WU = {11, 8, 7, 6}"
| "who_bits WG = {10, 5, 4, 3}"
| "who_bits WO = {9, 2, 1, 0}"
| "who_bits WA = {0..11}"

fun letter_bits :: "nat set \<Rightarrow> perm_letter \<Rightarrow> nat set" where
  "letter_bits S PR = {8, 5, 2}"
| "letter_bits S PW = {7, 4, 1}"
| "letter_bits S PX = {6, 3, 0}"
| "letter_bits S PXX = (if S \<inter> {12, 13, 14, 15} = {14} \<or> S \<inter> {6, 3, 0} \<noteq> {} then {6, 3, 0} else {})"
| "letter_bits S PS = {11, 10}"
| "letter_bits S PT = {9}"

definition copy_bits :: "bool \<Rightarrow> bool \<Rightarrow> bool \<Rightarrow> bool \<Rightarrow> nat set" where
  "copy_bits r w x s =
     (if r then {8, 5, 2} else {}) \<union> (if w then {7, 4, 1} else {}) \<union> (if x then {6, 3, 0} else {})
       \<union> (if s then {11, 10} else {})"

fun perm_bits :: "nat set \<Rightarrow> perm_spec \<Rightarrow> nat set" where
  "perm_bits S CopyU = copy_bits (8 \<in> S) (7 \<in> S) (6 \<in> S) (11 \<in> S)"
| "perm_bits S CopyG = copy_bits (5 \<in> S) (4 \<in> S) (3 \<in> S) (10 \<in> S)"
| "perm_bits S CopyO = copy_bits (2 \<in> S) (1 \<in> S) (0 \<in> S) False"
| "perm_bits S (Letters ls) = \<Union> (letter_bits S ` set ls)"

fun spec_action :: "nat set \<Rightarrow> nat set \<Rightarrow> nat set \<Rightarrow> mode_oper \<times> perm_spec \<Rightarrow> nat set" where
  "spec_action who clear S (SetOp, ps) = (S - clear) \<union> (perm_bits S ps \<inter> who)"
| "spec_action who clear S (AddOp, ps) = S \<union> (perm_bits S ps \<inter> who)"
| "spec_action who clear S (DelOp, ps) = S - (perm_bits S ps \<inter> who)"

text \<open>Without letters a clause is for everybody, less the bits of the mask.\<close>

fun spec_clause :: "nat set \<Rightarrow> nat set \<Rightarrow> mode_clause \<Rightarrow> nat set" where
  "spec_clause msk S (ws, acts) =
     foldl (spec_action (if ws = [] then - msk else \<Union> (who_bits ` set ws))
       (if ws = [] then {0..11} else \<Union> (who_bits ` set ws))) S acts"

text \<open>The text of a list of clauses.\<close>

fun who_char :: "who_letter \<Rightarrow> byte" where
  "who_char WU = 0x75" | "who_char WG = 0x67" | "who_char WO = 0x6f" | "who_char WA = 0x61"

fun perm_char :: "perm_letter \<Rightarrow> byte" where
  "perm_char PR = 0x72" | "perm_char PW = 0x77" | "perm_char PX = 0x78"
| "perm_char PXX = 0x58" | "perm_char PS = 0x73" | "perm_char PT = 0x74"

fun perm_text :: "perm_spec \<Rightarrow> byte list" where
  "perm_text CopyU = [0x75]" | "perm_text CopyG = [0x67]" | "perm_text CopyO = [0x6f]"
| "perm_text (Letters ls) = map perm_char ls"

fun oper_char :: "mode_oper \<Rightarrow> byte" where
  "oper_char SetOp = 0x3d" | "oper_char AddOp = 0x2b" | "oper_char DelOp = 0x2d"

definition acts_text :: "(mode_oper \<times> perm_spec) list \<Rightarrow> byte list" where
  "acts_text acts = concat (map (\<lambda>(opr, ps). oper_char opr # perm_text ps) acts)"

fun mode_text :: "mode_clause list \<Rightarrow> byte list" where
  "mode_text [] = []"
| "mode_text [(ws, acts)] = map who_char ws @ acts_text acts"
| "mode_text ((ws, acts) # c # cs) = map who_char ws @ acts_text acts @ 0x2c # mode_text (c # cs)"

section \<open>Symbolic modes: the refinement\<close>

definition mbits :: "mode_t \<Rightarrow> nat set" where
  "mbits m = {i. bit m i}"

lemma mbits_ops [simp]:
  "mbits (a OR b) = mbits a \<union> mbits b" "mbits (a AND b) = mbits a \<inter> mbits b" "mbits 0 = {}"
  by (auto simp: mbits_def bit_simps)

lemma bit32: "bit (m :: mode_t) i \<Longrightarrow> i < 32"
  using bit_imp_le_length [of m i] by simp

lemma mbits_eq0: "m = 0 \<longleftrightarrow> mbits m = {}"
  by (auto simp: mbits_def bit_eq_iff dest: bit32)

lemma mbitsI: "filter (bit m) [0..<32] = xs \<Longrightarrow> set xs = S \<Longrightarrow> mbits m = S"
  by (auto simp: mbits_def dest: bit32)

text \<open>The bits of the masks, as the simplifier finds them: unions of numerals evaluated.\<close>

lemma mbits_numeral:
  "mbits 0xF000 = {12, 13, 14, 15}" "mbits 0x4000 = {14}" "mbits 0x800 = {11}" "mbits 0x400 = {10}"
  "mbits 0x200 = {9}" "mbits 0x100 = {8}" "mbits 0x80 = {7}" "mbits 0x40 = {6}" "mbits 0x20 = {5}"
  "mbits 0x10 = {4}" "mbits 8 = {3}" "mbits 4 = {2}" "mbits 2 = {1}" "mbits 1 = {0}"
  "mbits 0x9C0 = {11, 8, 7, 6}" "mbits 0x438 = {10, 5, 4, 3}" "mbits 0x207 = {9, 2, 1, 0}"
  "mbits 0x124 = {8, 5, 2}" "mbits 0x92 = {7, 4, 1}" "mbits 0x49 = {6, 3, 0}" "mbits 0xC00 = {11, 10}"
  by (rule mbitsI, code_simp, code_simp)+

lemma mbits_all: "mbits 0xFFF = {0..11}"
  by (rule mbitsI, code_simp, code_simp)

text \<open>A nonempty selection of bits, as the code tests it.\<close>

lemma test_bits: "mode AND b = 0 \<longleftrightarrow> mbits mode \<inter> mbits b = {}"
  by (simp add: mbits_eq0)

lemma S_ISDIR_bits: "S_ISDIR m \<longleftrightarrow> mbits m \<inter> {12, 13, 14, 15} = {14}"
proof -
  have inj: "a = b \<longleftrightarrow> mbits a = mbits b" for a b
    by (auto simp: mbits_def bit_eq_iff set_eq_iff dest: bit32)
  show ?thesis
    unfolding S_ISDIR_def by (subst inj) (simp add: mbits_numeral)
qed

lemma mbits_perm_if: "mbits (perm_if b bits perm) = (if b then mbits perm \<union> mbits bits else mbits perm)"
  by (simp add: perm_if_def)

definition stops :: "byte list \<Rightarrow> bool" where
  "stops rest \<longleftrightarrow> rest = [] \<or> hd rest \<in> {0x3d, 0x2b, 0x2d, 0x2c}"

lemma who_run_text:
  assumes "stops rest"
  shows "\<exists>w. who_run w0 (map who_char ws @ rest) = (w, rest) \<and>
    mbits w = mbits w0 \<union> \<Union> (who_bits ` set ws)"
proof (induction ws arbitrary: w0)
  case Nil
  then show ?case using assms by (cases rest) (auto simp: stops_def)
next
  case (Cons a ws)
  obtain c where "who_run w0 (who_char a # map who_char ws @ rest) = who_run c (map who_char ws @ rest)"
    "mbits c = mbits w0 \<union> who_bits a"
    by (cases a) (auto simp: mbits_numeral mbits_all)
  with Cons [of c] show ?case by auto
qed

lemma perm_run_text:
  assumes "stops rest"
  shows "\<exists>p. perm_run mode p0 (map perm_char ls @ rest) = (p, rest) \<and>
    mbits p = mbits p0 \<union> \<Union> (letter_bits (mbits mode) ` set ls)"
proof (induction ls arbitrary: p0)
  case Nil
  then show ?case using assms by (cases rest) (auto simp: stops_def)
next
  case (Cons a ls)
  obtain c where c: "perm_run mode p0 (perm_char a # map perm_char ls @ rest) =
      perm_run mode c (map perm_char ls @ rest)" "mbits c = mbits p0 \<union> letter_bits (mbits mode) a"
    by (cases a) (simp_all add: mbits_numeral mbits_perm_if S_ISDIR_bits test_bits)
  with Cons [of c] show ?case by auto
qed

lemma mbits_copy:
  "mbits (perm_if s 0xC00 (perm_if x 0x49 (perm_if w 0x92 (perm_if r 0x124 0)))) = copy_bits r w x s"
  by (auto simp: copy_bits_def mbits_numeral mbits_perm_if)

lemma mbits_copy_other:
  "mbits (perm_if x 0x49 (perm_if w 0x92 (perm_if r 0x124 0))) = copy_bits r w x False"
  by (auto simp: copy_bits_def mbits_numeral mbits_perm_if)

lemma oper_char_cases: "oper_char opr \<in> {0x3d, 0x2b, 0x2d}"
  by (cases opr) auto

lemma mode_perm_text:
  assumes "stops rest"
  shows "\<exists>p. mode_perm mode (perm_text ps @ rest) = (p, rest) \<and> mbits p = perm_bits (mbits mode) ps"
proof (cases ps)
  case (Letters ls)
  have "mode_perm mode (map perm_char ls @ rest) = perm_run mode 0 (map perm_char ls @ rest)"
  proof (cases ls)
    case Nil
    then show ?thesis using assms by (cases rest) (auto simp: mode_perm_def stops_def)
  next
    case (Cons a ls')
    then show ?thesis by (cases a) (auto simp: mode_perm_def)
  qed
  then show ?thesis using perm_run_text [OF assms, of mode 0 ls] Letters by simp
qed (simp_all add: mode_perm_def test_bits mbits_numeral mbits_copy mbits_copy_other)

lemma mode_apply_bits:
  assumes "mbits p = perm_bits (mbits mode) ps"
  shows "mbits (mode_apply (oper_char opr) clear who p mode) =
    spec_action (mbits who) (mbits clear) (mbits mode) (opr, ps)"
proof -
  define X where "X = perm_bits (mbits mode) ps"
  have "bit p i \<longleftrightarrow> i \<in> X" for i using assms by (auto simp: X_def mbits_def)
  then have "mbits (mode_apply (oper_char opr) clear who p mode) =
      (case opr of SetOp \<Rightarrow> (mbits mode - mbits clear) \<union> (X \<inter> mbits who)
       | AddOp \<Rightarrow> mbits mode \<union> (X \<inter> mbits who) | DelOp \<Rightarrow> mbits mode - (X \<inter> mbits who))"
    by (cases opr) (auto simp: mode_apply_def mbits_def bit_simps dest: bit32)
  then show ?thesis by (cases opr) (simp_all add: X_def)
qed

lemma spec_action_who:
  assumes "\<And>i. i < 32 \<Longrightarrow> i \<in> who \<longleftrightarrow> i \<in> who'"
  shows "spec_action who clear S a = spec_action who' clear S a"
proof -
  obtain opr ps where a: "a = (opr, ps)" by fastforce
  have "perm_bits S ps \<subseteq> {0..11}"
  proof (cases ps)
    case (Letters ls)
    have "letter_bits S l \<subseteq> {0..11}" for l by (cases l) auto
    then show ?thesis using Letters by auto
  qed (auto simp: copy_bits_def)
  then have "perm_bits S ps \<inter> who = perm_bits S ps \<inter> who'" using assms by force
  then show ?thesis by (cases opr) (simp_all add: a)
qed

text \<open>The operators of one clause.\<close>

lemma mode_ops_acts:
  assumes "acts \<noteq> []" "rest = [] \<or> hd rest = 0x2c"
  shows "\<exists>m. mode_ops msk who clear (acts_text acts @ rest) mode =
      (if rest = [] then Some m
       else case mode_who msk (tl rest) of (who, clear, p) \<Rightarrow> mode_ops msk who clear p m) \<and>
    mbits m = foldl (spec_action (mbits who) (mbits clear)) (mbits mode) acts"
  using assms(1)
proof (induction acts arbitrary: mode)
  case (Cons a acts)
  obtain opr ps where a: "a = (opr, ps)" by fastforce
  let ?rest = "acts_text acts @ rest"
  have hd: "acts \<noteq> [] \<Longrightarrow> ?rest \<noteq> [] \<and> hd ?rest \<in> {0x3d, 0x2b, 0x2d}"
    using oper_char_cases [of "fst (hd acts)"] by (cases acts) (auto simp: acts_text_def)
  have st: "stops ?rest" using hd assms(2) by (cases "acts = []") (auto simp: stops_def acts_text_def)
  obtain p where p: "mode_perm mode (perm_text ps @ ?rest) = (p, ?rest)" "mbits p = perm_bits (mbits mode) ps"
    using mode_perm_text [OF st] by blast
  let ?m = "mode_apply (oper_char opr) clear who p mode"
  have m: "mbits ?m = spec_action (mbits who) (mbits clear) (mbits mode) a"
    using mode_apply_bits [OF p(2)] a by simp
  have oc: "oper_char opr \<in> {0x3d, 0x2b, 0x2d}" by (rule oper_char_cases)
  have unf: "acts_text (a # acts) @ rest = oper_char opr # perm_text ps @ ?rest"
    by (simp add: acts_text_def a)
  show ?case
  proof (cases "acts = []")
    case True
    then have "mode_ops msk who clear (acts_text (a # acts) @ rest) mode =
        (if rest = [] then Some ?m
         else case mode_who msk (tl rest) of (who, clear, p) \<Rightarrow> mode_ops msk who clear p ?m)"
      unfolding unf using p oc assms(2) by (auto simp: mode_ops.simps(2) acts_text_def Let_def)
    then show ?thesis using m True by auto
  next
    case False
    then have "mode_ops msk who clear (acts_text (a # acts) @ rest) mode =
        mode_ops msk who clear ?rest ?m"
      unfolding unf using p oc hd by (auto simp: mode_ops.simps(2) Let_def)
    then show ?thesis using Cons.IH [OF False, of ?m] m by auto
  qed
qed simp

lemma mode_who_text:
  assumes "stops rest"
  shows "\<exists>who clear. mode_who msk (map who_char ws @ rest) = (who, clear, rest) \<and>
    mbits clear = (if ws = [] then {0..11} else \<Union> (who_bits ` set ws)) \<and>
    (\<forall>i < 32. i \<in> mbits who \<longleftrightarrow> i \<in> (if ws = [] then - mbits msk else \<Union> (who_bits ` set ws)))"
proof -
  obtain w where w: "who_run 0 (map who_char ws @ rest) = (w, rest)" "mbits w = \<Union> (who_bits ` set ws)"
    using who_run_text [OF assms, of 0 ws] by auto
  have "w = 0 \<longleftrightarrow> ws = []"
    unfolding mbits_eq0 w(2) by (cases ws) (auto elim: who_bits.elims)
  moreover have "i < 32 \<Longrightarrow> i \<in> mbits (NOT msk) \<longleftrightarrow> i \<notin> mbits msk" for i
    by (simp add: mbits_def bit_simps)
  ultimately show ?thesis
    using w by (simp add: mode_who_def mbits_all)
qed

text \<open>A list of clauses.\<close>

lemma spec_foldl_who:
  assumes "\<forall>i < 32. i \<in> who \<longleftrightarrow> i \<in> who'"
  shows "foldl (spec_action who clear) S acts = foldl (spec_action who' clear) S acts"
proof -
  have "spec_action who clear = spec_action who' clear"
    using spec_action_who [of who who'] assms by (intro ext) blast
  then show ?thesis by simp
qed

definition good_clauses :: "mode_clause list \<Rightarrow> bool" where
  "good_clauses cs \<longleftrightarrow> cs \<noteq> [] \<and> (\<forall>(ws, acts) \<in> set cs. acts \<noteq> [])"

lemma acts_text_stops: "acts \<noteq> [] \<Longrightarrow> stops (acts_text acts @ rest)"
  using oper_char_cases [of "fst (hd acts)"] by (cases acts) (auto simp: acts_text_def stops_def)

lemma mode_ops_text:
  assumes "good_clauses cs"
  shows "\<exists>m. (case mode_who msk (mode_text cs) of (who, clear, p) \<Rightarrow> mode_ops msk who clear p mode) = Some m \<and>
    mbits m = foldl (spec_clause (mbits msk)) (mbits mode) cs"
  using assms
proof (induction cs arbitrary: mode rule: mode_text.induct)
  case (2 ws acts)
  then have ne: "acts \<noteq> []" by (simp add: good_clauses_def)
  obtain who clear where w: "mode_who msk (map who_char ws @ acts_text acts) = (who, clear, acts_text acts)"
    "mbits clear = (if ws = [] then {0..11} else \<Union> (who_bits ` set ws))"
    "\<forall>i < 32. i \<in> mbits who \<longleftrightarrow> i \<in> (if ws = [] then - mbits msk else \<Union> (who_bits ` set ws))"
    using mode_who_text [OF acts_text_stops [OF ne, of "[]"], of msk ws] by auto
  obtain m where "mode_ops msk who clear (acts_text acts) mode = Some m"
    "mbits m = foldl (spec_action (mbits who) (mbits clear)) (mbits mode) acts"
    using mode_ops_acts [OF ne, of "[]" msk who clear mode] by auto
  then show ?case using w spec_foldl_who [OF w(3)] by simp
next
  case (3 ws acts c cs)
  then have ne: "acts \<noteq> []" and good: "good_clauses (c # cs)" by (auto simp: good_clauses_def)
  let ?rest = "0x2c # mode_text (c # cs)"
  obtain who clear where w: "mode_who msk (map who_char ws @ acts_text acts @ ?rest) =
      (who, clear, acts_text acts @ ?rest)"
    "mbits clear = (if ws = [] then {0..11} else \<Union> (who_bits ` set ws))"
    "\<forall>i < 32. i \<in> mbits who \<longleftrightarrow> i \<in> (if ws = [] then - mbits msk else \<Union> (who_bits ` set ws))"
    using mode_who_text [OF acts_text_stops [OF ne, of ?rest], of msk ws] by auto
  obtain m where m: "mode_ops msk who clear (acts_text acts @ ?rest) mode =
      (case mode_who msk (mode_text (c # cs)) of (who, clear, p) \<Rightarrow> mode_ops msk who clear p m)"
    "mbits m = foldl (spec_action (mbits who) (mbits clear)) (mbits mode) acts"
    using mode_ops_acts [OF ne, of ?rest msk who clear mode] by auto
  have "mbits m = spec_clause (mbits msk) (mbits mode) (ws, acts)"
    using m(2) w(2) spec_foldl_who [OF w(3)] by simp
  moreover obtain m' where "(case mode_who msk (mode_text (c # cs)) of (who, clear, p) \<Rightarrow>
      mode_ops msk who clear p m) = Some m'"
    "mbits m' = foldl (spec_clause (mbits msk)) (mbits m) (c # cs)"
    using 3(1) [OF good, of m] by auto
  ultimately show ?case using w(1) m(1) by simp
qed (simp add: good_clauses_def)

lemma mode_text_chars: "x \<in> set (mode_text cs) \<Longrightarrow> 8 \<le> digit_val x"
proof -
  have letters: "8 \<le> digit_val 0x75" "8 \<le> digit_val 0x67" "8 \<le> digit_val 0x6f" "8 \<le> digit_val 0x2c"
    by (simp_all add: digit_val_def)
  have who: "8 \<le> digit_val (who_char w)" for w by (cases w) (simp_all add: digit_val_def)
  have perm: "8 \<le> digit_val (perm_char p)" for p by (cases p) (simp_all add: digit_val_def)
  have ptxt: "y \<in> set (perm_text ps) \<Longrightarrow> 8 \<le> digit_val y" for y ps
    by (cases ps) (auto simp: perm letters)
  have oper: "8 \<le> digit_val (oper_char q)" for q by (cases q) (simp_all add: digit_val_def)
  have acts: "y \<in> set (acts_text acts) \<Longrightarrow> 8 \<le> digit_val y" for y acts
    using ptxt oper by (auto simp: acts_text_def)
  show "x \<in> set (mode_text cs) \<Longrightarrow> 8 \<le> digit_val x"
    by (induction cs rule: mode_text.induct) (auto simp: who letters dest: acts)
qed

lemma strto_no_digits: "\<forall>c \<in> set s. 8 \<le> digit_val c \<Longrightarrow> strto s 8 = (False, 0, 0)"
proof -
  assume "\<forall>c \<in> set s. 8 \<le> digit_val c"
  then have "digits 8 (drop k s) = []" for k
    unfolding digits_def using set_drop_subset [of k s] by (cases "drop k s") auto
  then show ?thesis by (simp add: strto_def base_of_def Let_def split: prod.splits)
qed

text \<open>
  Property C8 (symbolic modes refine their specification). For every list of clauses, each with any
  letters of \<open>ugoa\<close> and one or more operators with permissions, \<open>parsemode\<close> on its text computes the
  set of permission bits that the clauses denote from left to right, restricted by the mask where
  no class is named, and drops the file type.
\<close>
theorem parsemode_symbolic:
  assumes "good_clauses cs"
  shows "\<exists>m. parsemode (mode_text cs) mode msk = Some m \<and>
    mbits m = foldl (spec_clause (mbits msk)) (mbits mode) cs - {12, 13, 14, 15}"
proof -
  obtain ws acts cs' where cs: "cs = (ws, acts) # cs'" "acts \<noteq> []"
    using assms by (cases cs) (auto simp: good_clauses_def)
  then have "mode_text cs \<noteq> []" by (cases cs'; cases acts) (auto simp: acts_text_def)
  moreover have "strto (mode_text cs) 8 = (False, 0, 0)"
    using mode_text_chars by (intro strto_no_digits) blast
  moreover obtain m where m: "(case mode_who msk (mode_text cs) of
      (who, clear, p) \<Rightarrow> mode_ops msk who clear p mode) = Some m"
    "mbits m = foldl (spec_clause (mbits msk)) (mbits mode) cs"
    using mode_ops_text [OF assms, of msk mode] by auto
  moreover obtain who clear p where "mode_who msk (mode_text cs) = (who, clear, p)" by (metis surj_pair)
  ultimately have "parsemode (mode_text cs) mode msk = Some (m AND NOT S_IFMT)"
    by (simp add: parsemode_def strtol_def)
  moreover have "mbits (m AND NOT S_IFMT) = mbits m - mbits S_IFMT"
    unfolding mbits_def by (auto simp only: bit_and_iff bit_not_iff mem_Collect_eq dest: bit32)
      (auto simp: bit_simps dest: bit32)
  ultimately show ?thesis using m(2) by (simp only: mbits_numeral) blast
qed

theorem parsemode_symbolic_witness:
  "\<exists>m. parsemode [0x67, 0x2b, 0x77, 0x2c, 0x6f, 0x3d] 0x81A4 0x12 = Some m \<and>
     mbits m = foldl (spec_clause (mbits 0x12)) (mbits 0x81A4) [([WG], [(AddOp, Letters [PW])]), ([WO], [(SetOp, Letters [])])]
       - {12, 13, 14, 15}"
  using parsemode_symbolic [of "[([WG], [(AddOp, Letters [PW])]), ([WO], [(SetOp, Letters [])])]" "0x81A4" "0x12"]
  by (simp add: good_clauses_def acts_text_def)

end
