(* ===== verification/Hash_Probe.thy ===== *)
theory Hash_Probe
  imports Aruu_Base
begin

text \<open>
  Linear probing, as the two hash tables of the tool chain use it: \<open>shared/libtcutil/table.c\<close>, with
  tombstones, and \<open>cmd/dev/cc/map.c\<close>, without. The locale \<open>probing\<close> is the interface between the
  layout of an entry and the search: it holds the invariant of the array of entries, what a search
  along the probe sequence finds, and what storing an entry does to the table as a map.

  The locale \<open>map_adt\<close> is the contract of a map, with operations that may fail to return; its client
  lemma is the refinement of any sequence of operations.
\<close>

section \<open>The array of entries\<close>

text \<open>The entry \<open>m\<close> steps behind the home position, around the end of the array.\<close>

definition probe_at :: "'e list \<Rightarrow> nat \<Rightarrow> nat \<Rightarrow> 'e" where
  "probe_at es s m = es ! ((s + m) mod length es)"

lemma probe_covers:
  assumes "i < length es"
  shows "\<exists>m < length es. (s + m) mod length es = i"
proof -
  let ?c = "length es" and ?m = "(i + length es - s mod length es) mod length es"
  have "0 < ?c" using assms by linarith
  then have "s mod ?c < ?c" by (rule mod_less_divisor)
  have "(s + ?m) mod ?c = (s mod ?c + (i + ?c - s mod ?c)) mod ?c"
    by (metis mod_add_eq mod_mod_trivial)
  also have "\<dots> = (i + ?c) mod ?c" using \<open>s mod ?c < ?c\<close> by simp
  also have "\<dots> = i" using assms by simp
  finally show ?thesis using mod_less_divisor [OF \<open>0 < ?c\<close>] by blast
qed

lemma probe_inj:
  assumes "m < length es" "n < length es" "(s + m) mod length es = (s + n) mod length es"
  shows "m = n"
proof -
  obtain q r where "s + m + length es * q = s + n + length es * r"
    using assms(3) unfolding nat_mod_eq_iff by blast
  then have "m mod length es = n mod length es" unfolding nat_mod_eq_iff by fastforce
  then show ?thesis using assms by simp
qed

lemma length_filter_update:
  assumes "i < length xs"
  shows "length (filter P (xs[i := x])) + (if P (xs ! i) then 1 else 0) =
    length (filter P xs) + (if P x then 1 else 0)"
proof -
  let ?a = "take i xs" and ?b = "drop (Suc i) xs"
  have "length (filter P xs) = length (filter P (?a @ xs ! i # ?b))"
    by (rule arg_cong [OF id_take_nth_drop [OF assms]])
  then show ?thesis using assms by (simp add: upd_conv_take_nth_drop)
qed

lemma free_slot:
  assumes "length (filter P xs) < length xs"
  obtains i where "i < length xs" "\<not> P (xs ! i)"
  using assms by (metis filter_True in_set_conv_nth nat_neq_iff)

locale probing =
  fixes key_of :: "'e \<Rightarrow> 'k option" and used :: "'e \<Rightarrow> bool" and home :: "'k \<Rightarrow> nat"
  assumes key_used: "key_of e = Some k \<Longrightarrow> used e"
begin

text \<open>Keys are unique, and every key is reached from its home over used entries.\<close>

definition raw_ok :: "'e list \<Rightarrow> bool" where
  "raw_ok es \<longleftrightarrow>
     (\<forall>i < length es. \<forall>j < length es. \<forall>k. key_of (es ! i) = Some k \<and> key_of (es ! j) = Some k \<longrightarrow> i = j) \<and>
     (\<forall>k. \<forall>m < length es. key_of (probe_at es (home k) m) = Some k \<longrightarrow>
        (\<forall>j < m. used (probe_at es (home k) j)))"

definition raw_map :: "'e list \<Rightarrow> 'k \<Rightarrow> 'e option" where
  "raw_map es k = List.find (\<lambda>e. key_of e = Some k) es"

lemma raw_map_Cons: "raw_map (e # es) k = (if key_of e = Some k then Some e else raw_map es k)"
  by (simp add: raw_map_def)

lemma raw_map_None: "raw_map es k = None \<longleftrightarrow> (\<forall>i < length es. key_of (es ! i) \<noteq> Some k)"
  unfolding raw_map_def find_None_iff by (metis in_set_conv_nth)

lemma raw_map_Some:
  assumes "raw_ok es" "i < length es" "key_of (es ! i) = Some k"
  shows "raw_map es k = Some (es ! i)"
proof -
  from assms have "raw_map es k \<noteq> None" by (auto simp: raw_map_None)
  then obtain j where "j < length es" "key_of (es ! j) = Some k" "raw_map es k = Some (es ! j)"
    unfolding raw_map_def by (auto simp: find_Some_iff)
  then show ?thesis using assms unfolding raw_ok_def by blast
qed

lemma raw_map_SomeD: "raw_map es k = Some e \<Longrightarrow> \<exists>i < length es. es ! i = e \<and> key_of e = Some k"
  unfolding raw_map_def by (auto simp: find_Some_iff)

lemma probe_update:
  "length es \<noteq> 0 \<Longrightarrow> probe_at (es[i := e]) s m = (if i = (s + m) mod length es then e else probe_at es s m)"
  by (auto simp: probe_at_def nth_list_update)

lemma raw_ok_sorted:
  assumes "raw_ok es"
  shows "sorted_wrt (\<lambda>a b. key_of a = None \<or> key_of a \<noteq> key_of b) es"
  using assms unfolding raw_ok_def sorted_wrt_iff_nth_less
  by (metis less_imp_neq not_None_eq order.strict_trans)

text \<open>The keys, and the probe sequences, of an array with one entry replaced.\<close>

lemma update_key:
  "j < length es \<Longrightarrow> key_of (es[i := e] ! j) = (if j = i then key_of e else key_of (es ! j))"
  by (simp add: nth_list_update)

lemma reached_update:
  assumes ok: "raw_ok es" and ne: "length es \<noteq> 0" and e: "used e"
    and n: "n < length es" "key_of (probe_at es (home k) n) = Some k" and j: "j < n"
  shows "used (probe_at (es[i := e]) (home k) j)"
  using ok n j e ne unfolding raw_ok_def by (simp add: probe_update)

lemma raw_map_kept:
  assumes "raw_ok (es[i := e])" "key_of (es ! i) \<noteq> Some k" "key_of e \<noteq> Some k"
  shows "raw_map (es[i := e]) k = raw_map es k"
proof (cases "raw_map es k")
  case None
  then have "raw_map (es[i := e]) k = None"
    using assms(3) unfolding raw_map_None by (simp add: update_key)
  with None show ?thesis by simp
next
  case (Some x)
  then obtain j where j: "j < length es" "es ! j = x" "key_of x = Some k" using raw_map_SomeD by blast
  then have "j \<noteq> i" using assms(2) by auto
  then show ?thesis using raw_map_Some [OF assms(1), of j k] j Some by simp
qed

text \<open>Storing a key at a place its probe sequence reaches.\<close>

lemma store_raw_ok:
  assumes ok: "raw_ok es" and m: "m < length es" "\<forall>j < m. used (probe_at es (home k) j)"
    and i: "i = (home k + m) mod length es" and e: "key_of e = Some k"
    and old: "key_of (es ! i) = Some k \<or> key_of (es ! i) = None \<and> raw_map es k = None"
  shows "raw_ok (es[i := e])"
  unfolding raw_ok_def
proof (intro conjI allI impI)
  have ne: "length es \<noteq> 0" using m(1) by auto
  then have il: "i < length es" unfolding i by (intro mod_less_divisor) simp
  have uniq: "j = i" if "j < length es" "key_of (es ! j) = Some k" for j
    using old that ok il unfolding raw_ok_def raw_map_None by blast
  {
    fix a b k'
    assume a: "a < length (es[i := e])" "b < length (es[i := e])"
      and "key_of (es[i := e] ! a) = Some k' \<and> key_of (es[i := e] ! b) = Some k'"
    then have k: "if a = i then k' = k else key_of (es ! a) = Some k'"
      "if b = i then k' = k else key_of (es ! b) = Some k'"
      using e by (auto simp: update_key split: if_splits)
    show "a = b"
    proof (cases "a = i \<or> b = i")
      case True
      then show ?thesis using k uniq [of a] uniq [of b] a unfolding length_list_update by metis
    next
      case False
      then have "key_of (es ! a) = Some k'" "key_of (es ! b) = Some k'" using k by simp_all
      then show ?thesis using a ok unfolding raw_ok_def length_list_update by blast
    qed
  next
    fix k' n j
    assume n: "n < length (es[i := e])" "key_of (probe_at (es[i := e]) (home k') n) = Some k'" and j: "j < n"
    show "used (probe_at (es[i := e]) (home k') j)"
    proof (cases "i = (home k' + n) mod length es")
      case True
      then have "k' = k" using n(2) e ne by (simp add: probe_update)
      then have "n = m" using probe_inj [of n es m "home k"] True i m(1) n(1) by simp
      then show ?thesis using m(2) j key_used [OF e] ne \<open>k' = k\<close> by (simp add: probe_update)
    next
      case False
      then have "key_of (probe_at es (home k') n) = Some k'" using n(2) ne by (simp add: probe_update)
      then show ?thesis using reached_update [OF ok ne key_used [OF e]] n(1) j by simp
    qed
  }
qed

lemma store_ok:
  assumes ok: "raw_ok es" and m: "m < length es" "\<forall>j < m. used (probe_at es (home k) j)"
    and i: "i = (home k + m) mod length es" and e: "key_of e = Some k"
    and old: "key_of (es ! i) = Some k \<or> key_of (es ! i) = None \<and> raw_map es k = None"
  shows "raw_ok (es[i := e])" and "raw_map (es[i := e]) = (raw_map es)(k \<mapsto> e)"
proof -
  show ok': "raw_ok (es[i := e])" by (rule store_raw_ok [OF assms])
  have "0 < length es" using m(1) by linarith
  then have "i < length es" unfolding i by (rule mod_less_divisor)
  then have "raw_map (es[i := e]) k = Some e" using raw_map_Some [OF ok', of i k] e by simp
  moreover have "raw_map (es[i := e]) k' = raw_map es k'" if "k' \<noteq> k" for k'
    using raw_map_kept [OF ok'] old e that by auto
  ultimately show "raw_map (es[i := e]) = (raw_map es)(k \<mapsto> e)" by (simp add: fun_eq_iff)
qed

text \<open>Replacing a key by a used entry without a key.\<close>

lemma erase_ok:
  assumes ok: "raw_ok es" and i: "i < length es" "key_of (es ! i) = Some k"
    and e: "key_of e = None" "used e"
  shows "raw_ok (es[i := e])" and "raw_map (es[i := e]) = (raw_map es)(k := None)"
proof -
  have ne: "length es \<noteq> 0" using i(1) by auto
  show ok': "raw_ok (es[i := e])"
    unfolding raw_ok_def
  proof (intro conjI allI impI)
    fix a b k'
    assume "a < length (es[i := e])" "b < length (es[i := e])"
      "key_of (es[i := e] ! a) = Some k' \<and> key_of (es[i := e] ! b) = Some k'"
    then show "a = b" using e(1) ok unfolding raw_ok_def by (simp add: update_key split: if_splits)
  next
    fix k' n j
    assume n: "n < length (es[i := e])" "key_of (probe_at (es[i := e]) (home k') n) = Some k'" and j: "j < n"
    then have "key_of (probe_at es (home k') n) = Some k'"
      using e ne by (simp add: probe_update split: if_splits)
    then show "used (probe_at (es[i := e]) (home k') j)" using reached_update [OF ok ne e(2)] n(1) j by simp
  qed
  have "key_of (es[i := e] ! j) \<noteq> Some k" if "j < length es" for j
    using that e(1) i ok unfolding raw_ok_def by (auto simp: update_key)
  then have "raw_map (es[i := e]) k = None" unfolding raw_map_None by simp
  moreover have "raw_map (es[i := e]) k' = raw_map es k'" if "k' \<noteq> k" for k'
    using raw_map_kept [OF ok'] i(2) e(1) that by auto
  ultimately show "raw_map (es[i := e]) = (raw_map es)(k := None)" by (simp add: fun_eq_iff)
qed

text \<open>Where a search ends: at the key or at the first unused entry.\<close>

definition stop :: "'e list \<Rightarrow> 'k \<Rightarrow> nat \<Rightarrow> bool" where
  "stop es k m \<longleftrightarrow> \<not> used (probe_at es (home k) m) \<or> key_of (probe_at es (home k) m) = Some k"

lemma first_stop:
  assumes "i < length es" "\<not> used (es ! i)"
  obtains m where "m < length es" "stop es k m" "\<forall>j < m. \<not> stop es k j"
proof -
  obtain m where "m < length es" "(home k + m) mod length es = i"
    using probe_covers [OF assms(1)] by blast
  then have m: "m < length es \<and> stop es k m" using assms(2) by (simp add: stop_def probe_at_def)
  define n where "n = (LEAST m. stop es k m)"
  have "stop es k n" unfolding n_def using m by (intro LeastI) blast
  moreover have "n \<le> m" unfolding n_def using m by (intro Least_le) blast
  moreover have "\<forall>j < n. \<not> stop es k j" unfolding n_def using not_less_Least by blast
  ultimately show ?thesis using m by (intro that [of n]) auto
qed

lemma stop_absent:
  assumes ok: "raw_ok es" and m: "m < length es" "\<forall>j < m. \<not> stop es k j"
    "\<not> used (probe_at es (home k) m)"
  shows "raw_map es k = None"
proof (rule ccontr)
  assume "raw_map es k \<noteq> None"
  then obtain i where i: "i < length es" "key_of (es ! i) = Some k" by (auto simp: raw_map_None)
  obtain n where n: "n < length es" "(home k + n) mod length es = i"
    using probe_covers [OF i(1)] by blast
  then have at: "key_of (probe_at es (home k) n) = Some k" using i by (simp add: probe_at_def)
  then have "\<forall>j < n. used (probe_at es (home k) j)" using ok n unfolding raw_ok_def by blast
  moreover have "\<not> n < m" using m(2) at by (auto simp: stop_def)
  moreover have "n \<noteq> m" using m(3) at key_used by blast
  ultimately show False using m(3) by (metis nat_neq_iff)
qed

end

section \<open>The contract of a map\<close>

text \<open>The operations of a map with deletion, and their effect.\<close>

datatype ('k, 'v) map_op = MPut 'k 'v | MDel 'k

fun map_eff :: "('k, 'v) map_op \<Rightarrow> ('k \<Rightarrow> 'v option) \<Rightarrow> 'k \<Rightarrow> 'v option" where
  "map_eff (MPut k v) m = m(k \<mapsto> v)"
| "map_eff (MDel k) m = m(k := None)"

locale map_adt =
  fixes inv :: "'t \<Rightarrow> bool" and abs :: "'t \<Rightarrow> 'k \<Rightarrow> 'v option" and empty_t :: 't
    and get :: "'t \<Rightarrow> 'k \<Rightarrow> 'v option option"
    and step :: "'p \<Rightarrow> 't \<Rightarrow> 't option" and eff :: "'p \<Rightarrow> ('k \<Rightarrow> 'v option) \<Rightarrow> 'k \<Rightarrow> 'v option"
  assumes empty_ok: "inv empty_t" "abs empty_t = Map.empty"
    and get_ok: "inv t \<Longrightarrow> get t k = Some (abs t k)"
    and step_ok: "inv t \<Longrightarrow> \<exists>t'. step p t = Some t' \<and> inv t' \<and> abs t' = eff p (abs t)"
begin

lemma run_refines:
  "inv t \<Longrightarrow> \<exists>t'. fold (\<lambda>p r. Option.bind r (step p)) ps (Some t) = Some t' \<and> inv t' \<and>
     abs t' = fold eff ps (abs t)"
proof (induction ps arbitrary: t)
  case (Cons p ps)
  obtain t1 where "step p t = Some t1" "inv t1" "abs t1 = eff p (abs t)"
    using step_ok [OF Cons.prems, of p] by blast
  then show ?case using Cons.IH [of t1] by simp
qed simp

text \<open>Every sequence of operations on the empty table returns, and a lookup is that of the map.\<close>

lemma refinement:
  "\<exists>t. fold (\<lambda>p r. Option.bind r (step p)) ps (Some empty_t) = Some t \<and> inv t \<and>
     (\<forall>k. get t k = Some (fold eff ps Map.empty k))"
  using run_refines [OF empty_ok(1), of ps] get_ok by (auto simp: empty_ok(2))

end

end
