(* ===== verification/Tcutil_Table.thy ===== *)
theory Tcutil_Table
  imports Hash_Probe
begin

text \<open>
  The interned names and the open-addressing hash table of \<open>shared/libtcutil/table.c\<close>.

  Keys are the addresses of interned names, numbers here; the hash of a name is a function of its
  address. A value is \<open>NULL\<close>, a pointer of the caller, or the entry's own address, which marks a
  tombstone. A search that never ends, or that divides by a capacity of zero, is the result \<open>None\<close>:
  the search visits at most \<open>capacity\<close> entries before it repeats itself, so that many steps of fuel
  decide whether it ends.

  The table refines a finite map, as an instance of the locale \<open>map_adt\<close>, and interning is shown to
  give one address per text.
\<close>

section \<open>Definitions\<close>

datatype 'v tval = TNull | TPtr 'v | TSelf

record 'v tentry =
  te_key :: "nat option"
  te_value :: "'v tval"

record 'v table =
  t_entries :: "'v tentry list"
  t_capacity :: nat
  t_count :: nat
  t_used :: nat

text \<open>\<open>hash_string\<close>: FNV-1a.\<close>

definition hash_string :: "byte list \<Rightarrow> u32" where
  "hash_string key = foldl (\<lambda>hash u. (hash XOR ucast u) * 16777619) 2166136261 key"

fun find_loop :: "'v tentry list \<Rightarrow> nat \<Rightarrow> nat \<Rightarrow> nat \<Rightarrow> nat \<Rightarrow> nat option \<Rightarrow> nat option" where
  "find_loop entries capacity key 0 index tombstone = None"
| "find_loop entries capacity key (Suc fuel) index tombstone =
     (let entry = entries ! index in
      if te_key entry = None then
        if te_value entry = TNull then Some (case tombstone of Some t \<Rightarrow> t | None \<Rightarrow> index)
        else find_loop entries capacity key fuel ((index + 1) mod capacity)
          (if tombstone = None then Some index else tombstone)
      else if te_key entry = Some key then Some index
      else find_loop entries capacity key fuel ((index + 1) mod capacity) tombstone)"

definition find_entry :: "(nat \<Rightarrow> u32) \<Rightarrow> 'v tentry list \<Rightarrow> nat \<Rightarrow> nat \<Rightarrow> nat option" where
  "find_entry hsh entries capacity key =
     find_loop entries capacity key capacity (unat (hsh key) mod capacity) None"

definition null_entry :: "'v tentry" where
  "null_entry = \<lparr>te_key = None, te_value = TNull\<rparr>"

text \<open>The loop of \<open>adjust_capacity\<close> over the old entries.\<close>

fun rehash :: "(nat \<Rightarrow> u32) \<Rightarrow> nat \<Rightarrow> 'v tentry list \<Rightarrow> 'v tentry list \<Rightarrow> nat \<Rightarrow> ('v tentry list \<times> nat) option" where
  "rehash hsh cap [] new_entries new_count = Some (new_entries, new_count)"
| "rehash hsh cap (entry # old) new_entries new_count =
     (case te_key entry of
        None \<Rightarrow> rehash hsh cap old new_entries new_count
      | Some key \<Rightarrow>
          (case find_entry hsh new_entries cap key of
             None \<Rightarrow> None
           | Some dest \<Rightarrow>
               rehash hsh cap old (new_entries[dest := \<lparr>te_key = Some key, te_value = te_value entry\<rparr>])
                 (new_count + 1)))"

text \<open>\<open>mem\<close> says whether \<open>malloc\<close> succeeds.\<close>

definition adjust_capacity :: "bool \<Rightarrow> (nat \<Rightarrow> u32) \<Rightarrow> 'v table \<Rightarrow> nat \<Rightarrow> 'v table option" where
  "adjust_capacity mem hsh table new_capacity =
     (if \<not> mem then Some table
      else
        map_option (\<lambda>(new_entries, new_count).
            table\<lparr>t_entries := new_entries, t_capacity := new_capacity, t_count := new_count, t_used := new_count\<rparr>)
          (rehash hsh new_capacity (t_entries table) (replicate new_capacity null_entry) 0))"

definition table_init :: "'v table" where
  "table_init = \<lparr>t_entries = [], t_capacity = 0, t_count = 0, t_used = 0\<rparr>"

definition table_get :: "(nat \<Rightarrow> u32) \<Rightarrow> 'v table \<Rightarrow> nat \<Rightarrow> 'v tval option" where
  "table_get hsh table key =
     (if t_count table = 0 then Some TNull
      else case find_entry hsh (t_entries table) (t_capacity table) key of
        None \<Rightarrow> None
      | Some i \<Rightarrow>
          Some (if te_key (t_entries table ! i) = None then TNull else te_value (t_entries table ! i)))"

text \<open>\<open>table_try_get\<close>: whether the key is there, and the value stored to \<open>*output\<close>.\<close>

definition table_try_get :: "(nat \<Rightarrow> u32) \<Rightarrow> 'v table \<Rightarrow> nat \<Rightarrow> 'v tval option option" where
  "table_try_get hsh table key =
     (if t_count table = 0 then Some None
      else case find_entry hsh (t_entries table) (t_capacity table) key of
        None \<Rightarrow> None
      | Some i \<Rightarrow>
          Some (if te_key (t_entries table ! i) = None then None else Some (te_value (t_entries table ! i))))"

definition table_put :: "bool \<Rightarrow> (nat \<Rightarrow> u32) \<Rightarrow> 'v table \<Rightarrow> nat \<Rightarrow> 'v tval \<Rightarrow> ('v table \<times> bool) option" where
  "table_put mem hsh table key value =
     (case if t_used table \<ge> t_capacity table div 2
           then adjust_capacity mem hsh table (max 15 (t_capacity table * 2 - 1)) else Some table of
        None \<Rightarrow> None
      | Some table \<Rightarrow>
          (case find_entry hsh (t_entries table) (t_capacity table) key of
             None \<Rightarrow> None
           | Some i \<Rightarrow>
               let entry = t_entries table ! i;
                   is_new_key = (te_key entry = None);
                   table = (if is_new_key then table\<lparr>t_count := t_count table + 1\<rparr> else table);
                   table = (if is_new_key \<and> te_value entry = TNull
                            then table\<lparr>t_used := t_used table + 1\<rparr> else table)
               in Some (table\<lparr>t_entries := (t_entries table)[i := \<lparr>te_key = Some key, te_value = value\<rparr>]\<rparr>,
                    is_new_key)))"

definition table_delete :: "(nat \<Rightarrow> u32) \<Rightarrow> 'v table \<Rightarrow> nat \<Rightarrow> ('v table \<times> bool) option" where
  "table_delete hsh table key =
     (if t_count table = 0 then Some (table, False)
      else case find_entry hsh (t_entries table) (t_capacity table) key of
        None \<Rightarrow> None
      | Some i \<Rightarrow>
          if te_key (t_entries table ! i) = None then Some (table, False)
          else Some (table\<lparr>t_count := t_count table - 1,
                 t_entries := (t_entries table)[i := \<lparr>te_key = None, te_value = TSelf\<rparr>]\<rparr>, True))"

text \<open>\<open>table_iterate\<close>: the next iterator with the key and the value found, or -1.\<close>

function table_iterate :: "'v table \<Rightarrow> nat \<Rightarrow> (nat \<times> nat \<times> 'v tval) option" where
  "table_iterate table it =
     (if it < t_capacity table then
        case te_key (t_entries table ! it) of
          Some key \<Rightarrow> Some (it + 1, key, te_value (t_entries table ! it))
        | None \<Rightarrow> table_iterate table (it + 1)
      else None)"
  by pat_completeness auto
termination
  by (relation "measure (\<lambda>(table, it). t_capacity table - it)") auto

declare table_iterate.simps [simp del]

text \<open>The caller's loop over a table.\<close>

function table_pairs :: "'v table \<Rightarrow> nat \<Rightarrow> (nat \<times> 'v tval) list" where
  "table_pairs table it =
     (case table_iterate table it of
        None \<Rightarrow> []
      | Some (it', key, value) \<Rightarrow> if it < it' then (key, value) # table_pairs table it' else [])"
  by pat_completeness auto
termination
proof (relation "measure (\<lambda>(table, it). t_capacity table - it)", goal_cases)
  case (2 table it x it' y key v)
  have "table_iterate table it = Some p \<Longrightarrow> it < t_capacity table" for p
    by (subst (asm) table_iterate.simps) (simp split: if_splits)
  with 2 show ?case by simp
qed simp

declare table_pairs.simps [simp del]

section \<open>The search\<close>

definition entry_used :: "'v tentry \<Rightarrow> bool" where
  "entry_used e \<longleftrightarrow> te_key e \<noteq> None \<or> te_value e \<noteq> TNull"

interpretation tp: probing te_key entry_used "\<lambda>k. unat (hsh k)" for hsh :: "nat \<Rightarrow> u32"
  by unfold_locales (simp add: entry_used_def)

lemma find_loop_spec:
  fixes es :: "'v tentry list" and hsh :: "nat \<Rightarrow> u32" and k :: nat
  defines "c \<equiv> length es" and "h \<equiv> unat (hsh k)"
  assumes "a \<le> m" "m < c" "tp.stop hsh es k m" "\<forall>j. a \<le> j \<and> j < m \<longrightarrow> \<not> tp.stop hsh es k j"
    "m - a < fuel"
  shows "\<exists>t. find_loop es c k fuel ((h + a) mod c) tomb = Some t \<and>
    (if te_key (probe_at es h m) = Some k then t = (h + m) mod c
     else case tomb of Some t' \<Rightarrow> t = t'
       | None \<Rightarrow> \<exists>j. a \<le> j \<and> j \<le> m \<and> t = (h + j) mod c \<and> te_key (probe_at es h j) = None)"
  using assms(3-7)
proof (induction fuel arbitrary: a tomb)
  case (Suc fuel)
  let ?e = "probe_at es h a"
  have e: "es ! ((h + a) mod c) = ?e" by (simp add: probe_at_def c_def)
  show ?case
  proof (cases "a = m")
    case True
    then have "te_key ?e = Some k \<or> te_key ?e = None \<and> te_value ?e = TNull"
      using Suc.prems(3) unfolding tp.stop_def by (auto simp: entry_used_def h_def)
    then show ?thesis using True e by (auto split: option.splits)
  next
    case False
    then have ns: "\<not> tp.stop hsh es k a" and le: "Suc a \<le> m" "m - Suc a < fuel"
      using Suc.prems by auto
    have rest: "\<forall>j. Suc a \<le> j \<and> j < m \<longrightarrow> \<not> tp.stop hsh es k j" using Suc.prems(4) by auto
    note IH = Suc.IH [OF le(1) Suc.prems(2,3) rest le(2)]
    have key: "te_key ?e \<noteq> Some k" "te_key ?e = None \<Longrightarrow> te_value ?e \<noteq> TNull"
      using ns unfolding tp.stop_def by (auto simp: entry_used_def h_def)
    show ?thesis
    proof (cases "te_key ?e = None \<and> tomb = None")
      case True
      obtain t where t: "find_loop es c k fuel ((h + Suc a) mod c) (Some ((h + a) mod c)) = Some t"
        "if te_key (probe_at es h m) = Some k then t = (h + m) mod c else t = (h + a) mod c"
        using IH [of "Some ((h + a) mod c)"] by (simp cong: if_cong) blast
      have "find_loop es c k (Suc fuel) ((h + a) mod c) tomb = Some t"
        using True key t(1) by (simp add: e mod_Suc_eq Let_def)
      then show ?thesis using t(2) True Suc.prems(1) by (auto split: if_splits)
    next
      case False
      then have "find_loop es c k (Suc fuel) ((h + a) mod c) tomb =
          find_loop es c k fuel ((h + Suc a) mod c) tomb"
        using key by (auto simp: e mod_Suc_eq Let_def)
      moreover obtain t where t: "find_loop es c k fuel ((h + Suc a) mod c) tomb = Some t"
        "if te_key (probe_at es h m) = Some k then t = (h + m) mod c
         else case tomb of Some t' \<Rightarrow> t = t'
           | None \<Rightarrow> \<exists>j. Suc a \<le> j \<and> j \<le> m \<and> t = (h + j) mod c \<and> te_key (probe_at es h j) = None"
        using IH [of tomb] by blast
      moreover have "case tomb of Some t' \<Rightarrow> t = t'
          | None \<Rightarrow> \<exists>j. a \<le> j \<and> j \<le> m \<and> t = (h + j) mod c \<and> te_key (probe_at es h j) = None"
        if "te_key (probe_at es h m) \<noteq> Some k"
        using t(2) that by (auto split: option.splits dest: Suc_leD)
      ultimately show ?thesis by (auto split: if_splits)
    qed
  qed
qed simp

lemma find_entry_spec:
  assumes ok: "tp.raw_ok hsh es" and free: "i < length es" "\<not> entry_used (es ! i)"
  shows "\<exists>m < length es. find_entry hsh es (length es) k = Some ((unat (hsh k) + m) mod length es) \<and>
    (\<forall>j < m. entry_used (probe_at es (unat (hsh k)) j)) \<and>
    (te_key (probe_at es (unat (hsh k)) m) = Some k \<or>
     te_key (probe_at es (unat (hsh k)) m) = None \<and> tp.raw_map es k = None)"
proof -
  let ?h = "unat (hsh k)" and ?c = "length es"
  obtain m where m: "m < ?c" "tp.stop hsh es k m" "\<forall>j < m. \<not> tp.stop hsh es k j"
    using tp.first_stop [OF free] by blast
  have u: "entry_used (probe_at es ?h j)" if "j < m" for j
    using m(3) that by (auto simp: tp.stop_def)
  obtain t where t: "find_entry hsh es ?c k = Some t"
    "if te_key (probe_at es ?h m) = Some k then t = (?h + m) mod ?c
     else \<exists>j \<le> m. t = (?h + j) mod ?c \<and> te_key (probe_at es ?h j) = None"
    using find_loop_spec [of 0 m es hsh k ?c None] m by (simp add: find_entry_def cong: if_cong) blast
  show ?thesis
  proof (cases "te_key (probe_at es ?h m) = Some k")
    case True
    then show ?thesis using t m(1) u by (intro exI [of _ m]) auto
  next
    case False
    then have "\<not> entry_used (probe_at es ?h m)" using m(2) by (auto simp: tp.stop_def)
    then have "tp.raw_map es k = None" using tp.stop_absent [OF ok m(1,3)] by simp
    moreover obtain j where "j \<le> m" "t = (?h + j) mod ?c" "te_key (probe_at es ?h j) = None"
      using t(2) False by auto
    ultimately show ?thesis using t(1) m(1) u by (intro exI [of _ j]) auto
  qed
qed


section \<open>The table as a map\<close>

abbreviation has_key :: "'v tentry \<Rightarrow> bool" where
  "has_key e \<equiv> te_key e \<noteq> None"

definition table_ok :: "(nat \<Rightarrow> u32) \<Rightarrow> 'v table \<Rightarrow> bool" where
  "table_ok hsh t \<longleftrightarrow>
     length (t_entries t) = t_capacity t \<and> (t_capacity t = 0 \<or> 15 \<le> t_capacity t) \<and>
     t_count t = length (filter has_key (t_entries t)) \<and>
     t_used t = length (filter entry_used (t_entries t)) \<and>
     t_used t \<le> t_capacity t div 2 \<and> tp.raw_ok hsh (t_entries t)"

definition table_abs :: "'v table \<Rightarrow> nat \<Rightarrow> 'v tval option" where
  "table_abs t k = map_option te_value (tp.raw_map (t_entries t) k)"

lemma has_key_used: "has_key e \<Longrightarrow> entry_used e"
  by (simp add: entry_used_def)

lemma key_count_le: "length (filter has_key es) \<le> length (filter entry_used es)"
  by (induction es) (auto simp: entry_used_def)

lemma no_keys: "length (filter has_key es) = 0 \<Longrightarrow> tp.raw_map es k = None"
  by (induction es) (auto simp: tp.raw_map_Cons tp.raw_map_def split: if_splits)

text \<open>Storing a key at the place the search gives.\<close>

lemma find_store:
  assumes ok: "tp.raw_ok hsh es" and free: "length (filter entry_used es) < length es"
    and i: "find_entry hsh es (length es) k = Some i"
    and e: "te_key e = Some k"
  shows "i < length es" "tp.raw_ok hsh (es[i := e])" "tp.raw_map (es[i := e]) = (tp.raw_map es)(k \<mapsto> e)"
    and "tp.raw_map es k = (if has_key (es ! i) then Some (es ! i) else None)"
    and "has_key (es ! i) \<Longrightarrow> te_key (es ! i) = Some k"
proof -
  obtain i0 where i0: "i0 < length es" "\<not> entry_used (es ! i0)" using free by (rule free_slot)
  obtain m where m: "m < length es" "i = (unat (hsh k) + m) mod length es"
    "\<forall>j < m. entry_used (probe_at es (unat (hsh k)) j)"
    "te_key (es ! i) = Some k \<or> te_key (es ! i) = None \<and> tp.raw_map es k = None"
    using find_entry_spec [OF ok i0, of k] i by (auto simp: probe_at_def)
  note store = tp.store_ok [OF ok m(1,3,2) e m(4)]
  show "tp.raw_ok hsh (es[i := e])" "tp.raw_map (es[i := e]) = (tp.raw_map es)(k \<mapsto> e)"
    by (fact store)+
  have "0 < length es" using m(1) by linarith
  then show il: "i < length es" unfolding m(2) by (rule mod_less_divisor)
  show "tp.raw_map es k = (if has_key (es ! i) then Some (es ! i) else None)"
    using m(4) tp.raw_map_Some [OF ok il] by auto
  show "has_key (es ! i) \<Longrightarrow> te_key (es ! i) = Some k" using m(4) by auto
qed

lemma find_entry_total:
  assumes "tp.raw_ok hsh es" "length (filter entry_used es) < length es"
  obtains i where "find_entry hsh es (length es) k = Some i"
  using find_entry_spec [OF assms(1)] free_slot [OF assms(2)] by metis

text \<open>Growing the table: the new array has no tombstones and the same keys.\<close>

lemma rehash_ok:
  assumes "tp.raw_ok hsh new" "length new = cap" "length (filter entry_used new) = n"
    "\<forall>e \<in> set new. entry_used e \<longrightarrow> has_key e"
    "sorted_wrt (\<lambda>a b. te_key a = None \<or> te_key a \<noteq> te_key b) old"
    "\<forall>e \<in> set old. \<forall>k. te_key e = Some k \<longrightarrow> tp.raw_map new k = None"
    "n + length (filter has_key old) < cap"
  shows "\<exists>new'. rehash hsh cap old new n = Some (new', n + length (filter has_key old)) \<and>
    length new' = cap \<and> tp.raw_ok hsh new' \<and>
    length (filter entry_used new') = n + length (filter has_key old) \<and>
    (\<forall>e \<in> set new'. entry_used e \<longrightarrow> has_key e) \<and>
    tp.raw_map new' = tp.raw_map new ++ tp.raw_map old"
  using assms
proof (induction old arbitrary: new n)
  case Nil
  then show ?case by (simp add: tp.raw_map_def map_add_def)
next
  case (Cons e old)
  show ?case
  proof (cases "te_key e")
    case None
    have "tp.raw_map (e # old) = tp.raw_map old" using None by (simp add: fun_eq_iff tp.raw_map_Cons)
    then show ?thesis using Cons.IH [OF Cons.prems(1-4)] Cons.prems(5-7) None by simp
  next
    case (Some k)
    have e: "\<lparr>te_key = Some k, te_value = te_value e\<rparr> = e" using Some by simp
    have room: "length (filter entry_used new) < length new" using Cons.prems(2,3,7) by simp
    obtain i where i: "find_entry hsh new cap k = Some i"
      using find_entry_total [OF Cons.prems(1) room] Cons.prems(2) by metis
    note st = find_store [OF Cons.prems(1) room, of k i e, unfolded Cons.prems(2), OF i Some]
    have free: "\<not> has_key (new ! i)" "tp.raw_map new k = None"
      using st(4) Cons.prems(6) Some by (auto split: if_splits)
    then have "\<not> entry_used (new ! i)" using Cons.prems(2,4) st(1) by (meson nth_mem)
    then have n: "length (filter entry_used (new[i := e])) = n + 1"
      using length_filter_update [of i new entry_used e] Cons.prems(2,3) st(1) Some has_key_used [of e] by simp
    have all: "\<forall>x \<in> set (new[i := e]). entry_used x \<longrightarrow> has_key x"
      using Cons.prems(4) Some set_update_subset_insert [of new i e] by auto
    have srt: "sorted_wrt (\<lambda>a b. te_key a = None \<or> te_key a \<noteq> te_key b) old"
      and dist: "\<forall>x \<in> set old. te_key x \<noteq> Some k"
      using Cons.prems(5) Some by auto
    have abs: "\<forall>x \<in> set old. \<forall>k'. te_key x = Some k' \<longrightarrow> tp.raw_map (new[i := e]) k' = None"
      using Cons.prems(6) dist st(3) by auto
    have "tp.raw_map old k = None" using dist unfolding tp.raw_map_None by simp
    then have merge: "(tp.raw_map new)(k \<mapsto> e) ++ tp.raw_map old = tp.raw_map new ++ tp.raw_map (e # old)"
      using Some by (auto simp: fun_eq_iff tp.raw_map_Cons map_add_def split: option.split)
    have "rehash hsh cap (e # old) new n = rehash hsh cap old (new[i := e]) (n + 1)"
      by (simp add: i Some e)
    moreover have "n + length (filter has_key (e # old)) = n + 1 + length (filter has_key old)"
      using Some by simp
    ultimately show ?thesis
      using Cons.IH [OF st(2) _ n all srt abs] Cons.prems(2,7) unfolding st(3) merge by simp
  qed
qed

lemma adjust_capacity_ok:
  assumes ok: "table_ok hsh t" and cap: "15 \<le> cap" "t_capacity t \<le> cap"
  obtains t' where "adjust_capacity True hsh t cap = Some t'" "table_ok hsh t'" "table_abs t' = table_abs t"
    "t_capacity t' = cap" "t_used t' = t_count t" "t_count t' = t_count t"
proof -
  let ?es = "t_entries t" and ?new = "replicate cap null_entry :: 'a tentry list"
  have nu: "\<not> entry_used null_entry" by (simp add: entry_used_def null_entry_def)
  have srt: "sorted_wrt (\<lambda>a b. te_key a = None \<or> te_key a \<noteq> te_key b) ?es"
    using ok by (intro tp.raw_ok_sorted [of hsh]) (simp add: table_ok_def)
  have cnt: "length (filter has_key ?es) = t_count t" using ok by (simp add: table_ok_def)
  have le: "t_count t \<le> cap div 2"
    using ok key_count_le [of ?es] div_le_mono [OF cap(2), of 2] unfolding table_ok_def by linarith
  then have room: "0 + length (filter has_key ?es) < cap" using cap(1) unfolding cnt by linarith
  have none: "length (filter entry_used ?new) = 0" using nu by (induction cap) auto
  have raw: "tp.raw_ok hsh ?new" "tp.raw_map ?new = Map.empty"
    unfolding tp.raw_ok_def fun_eq_iff tp.raw_map_None by (auto simp: probe_at_def null_entry_def)
  obtain new' where new: "rehash hsh cap ?es ?new 0 = Some (new', t_count t)" "length new' = cap"
    "tp.raw_ok hsh new'" "length (filter entry_used new') = t_count t"
    "\<forall>e \<in> set new'. entry_used e \<longrightarrow> has_key e" "tp.raw_map new' = tp.raw_map ?es"
    using rehash_ok [OF raw(1) length_replicate none _ srt _ room] nu raw(2) cnt by auto
  have "filter has_key new' = filter entry_used new'"
    using new(5) by (intro filter_cong) (auto simp: has_key_used)
  with new le cap show thesis
    by (intro that [of "t\<lparr>t_entries := new', t_capacity := cap, t_count := t_count t, t_used := t_count t\<rparr>"])
      (simp_all add: adjust_capacity_def table_ok_def table_abs_def fun_eq_iff)
qed

lemma table_init_ok: "table_ok hsh table_init" "table_abs table_init = Map.empty"
  by (simp_all add: table_ok_def table_init_def table_abs_def fun_eq_iff tp.raw_map_def tp.raw_ok_def)

lemma table_room:
  assumes "table_ok hsh t" "t_capacity t \<noteq> 0"
  shows "length (filter entry_used (t_entries t)) < length (t_entries t)"
  using assms unfolding table_ok_def by linarith

lemma table_ok_nonempty: "table_ok hsh t \<Longrightarrow> t_count t \<noteq> 0 \<Longrightarrow> t_capacity t \<noteq> 0"
  by (auto simp: table_ok_def)

lemma table_abs_empty: "table_ok hsh t \<Longrightarrow> t_count t = 0 \<Longrightarrow> table_abs t k = None"
  by (simp add: table_ok_def table_abs_def no_keys)

text \<open>What the search finds in a well-formed table.\<close>

lemma table_find:
  assumes "table_ok hsh t" "t_capacity t \<noteq> 0"
  obtains i where "find_entry hsh (t_entries t) (t_capacity t) k = Some i" "i < t_capacity t"
    "table_abs t k = (if has_key (t_entries t ! i) then Some (te_value (t_entries t ! i)) else None)"
    "has_key (t_entries t ! i) \<longrightarrow> te_key (t_entries t ! i) = Some k"
    "\<And>v. tp.raw_ok hsh ((t_entries t)[i := \<lparr>te_key = Some k, te_value = v\<rparr>])"
    "\<And>v. tp.raw_map ((t_entries t)[i := \<lparr>te_key = Some k, te_value = v\<rparr>]) =
       (tp.raw_map (t_entries t))(k \<mapsto> \<lparr>te_key = Some k, te_value = v\<rparr>)"
proof -
  have ok: "tp.raw_ok hsh (t_entries t)" and len: "length (t_entries t) = t_capacity t"
    using assms(1) by (simp_all add: table_ok_def)
  note room = table_room [OF assms]
  obtain i where i: "find_entry hsh (t_entries t) (length (t_entries t)) k = Some i"
    using ok room by (rule find_entry_total)
  have key: "te_key \<lparr>te_key = Some k, te_value = v\<rparr> = Some k" for v :: "'a tval" by simp
  note st = find_store [OF ok room i key]
  show thesis
    using i len st(1,4,5)
    by (intro that [OF _ _ _ _ st(2) st(3)]) (simp_all add: table_abs_def)
qed

lemma table_get_ok:
  assumes "table_ok hsh t"
  shows "table_try_get hsh t k = Some (table_abs t k)"
    and "table_get hsh t k = Some (case table_abs t k of None \<Rightarrow> TNull | Some v \<Rightarrow> v)"
proof -
  have "table_try_get hsh t k = Some (table_abs t k) \<and>
    table_get hsh t k = Some (case table_abs t k of None \<Rightarrow> TNull | Some v \<Rightarrow> v)"
  proof (cases "t_count t = 0")
    case True
    then show ?thesis
      using table_abs_empty [OF assms True] by (simp add: table_try_get_def table_get_def)
  next
    case False
    obtain i where "find_entry hsh (t_entries t) (t_capacity t) k = Some i"
      "table_abs t k = (if has_key (t_entries t ! i) then Some (te_value (t_entries t ! i)) else None)"
      by (rule table_find [OF assms table_ok_nonempty [OF assms False], of k])
    then show ?thesis using False by (auto simp: table_try_get_def table_get_def)
  qed
  then show "table_try_get hsh t k = Some (table_abs t k)"
    and "table_get hsh t k = Some (case table_abs t k of None \<Rightarrow> TNull | Some v \<Rightarrow> v)"
    by simp_all
qed

lemma table_store_ok:
  assumes ok: "table_ok hsh t" and room: "t_used t < t_capacity t div 2"
    and t': "t' = t\<lparr>t_count := t_count t + (if has_key (t_entries t ! i) then 0 else 1),
      t_used := t_used t + (if entry_used (t_entries t ! i) then 0 else 1),
      t_entries := (t_entries t)[i := \<lparr>te_key = Some k, te_value = v\<rparr>]\<rparr>"
    and i: "i < t_capacity t" "tp.raw_ok hsh ((t_entries t)[i := \<lparr>te_key = Some k, te_value = v\<rparr>])"
      "tp.raw_map ((t_entries t)[i := \<lparr>te_key = Some k, te_value = v\<rparr>]) =
       (tp.raw_map (t_entries t))(k \<mapsto> \<lparr>te_key = Some k, te_value = v\<rparr>)"
  shows "table_ok hsh t' \<and> table_abs t' = (table_abs t)(k \<mapsto> v)"
proof -
  let ?e = "\<lparr>te_key = Some k, te_value = v\<rparr>"
  have len: "length (t_entries t) = t_capacity t" using ok by (simp add: table_ok_def)
  have "entry_used ?e" by (simp add: entry_used_def)
  then show ?thesis
    using length_filter_update [of i "t_entries t" has_key ?e]
      length_filter_update [of i "t_entries t" entry_used ?e] ok room i len
    by (auto simp: t' table_ok_def table_abs_def fun_eq_iff split: if_splits)
qed

lemma grow_ok:
  assumes "table_ok hsh t"
  obtains t1 where "(if t_used t \<ge> t_capacity t div 2
      then adjust_capacity True hsh t (max 15 (t_capacity t * 2 - 1)) else Some t) = Some t1"
    "table_ok hsh t1" "table_abs t1 = table_abs t" "t_used t1 < t_capacity t1 div 2"
proof (cases "t_used t \<ge> t_capacity t div 2")
  case True
  let ?cap = "max 15 (t_capacity t * 2 - 1)"
  have cap: "15 \<le> ?cap" "t_capacity t \<le> ?cap" by linarith+
  obtain t1 where t1: "adjust_capacity True hsh t ?cap = Some t1" "table_ok hsh t1"
    "table_abs t1 = table_abs t" "t_capacity t1 = ?cap" "t_used t1 = t_count t"
    using adjust_capacity_ok [OF assms cap] by blast
  have "t_count t \<le> t_used t" "t_used t \<le> t_capacity t div 2" "t_capacity t = 0 \<or> 15 \<le> t_capacity t"
    using assms key_count_le [of "t_entries t"] by (simp_all add: table_ok_def)
  then have "t_used t1 < ?cap div 2" unfolding t1(5) by linarith
  then show thesis using t1 True by (intro that [of t1]) simp_all
next
  case False
  then show thesis using assms by (intro that [of t]) simp_all
qed

lemma table_put_ok:
  assumes "table_ok hsh t"
  shows "\<exists>t'. table_put True hsh t k v = Some (t', table_abs t k = None) \<and>
    table_ok hsh t' \<and> table_abs t' = (table_abs t)(k \<mapsto> v)"
proof -
  obtain t1 where t1: "(if t_used t \<ge> t_capacity t div 2
      then adjust_capacity True hsh t (max 15 (t_capacity t * 2 - 1)) else Some t) = Some t1"
    "table_ok hsh t1" "table_abs t1 = table_abs t" "t_used t1 < t_capacity t1 div 2"
    using assms by (rule grow_ok)
  then have "t_capacity t1 \<noteq> 0" by auto
  then obtain i where i: "find_entry hsh (t_entries t1) (t_capacity t1) k = Some i" "i < t_capacity t1"
    "table_abs t1 k = (if has_key (t_entries t1 ! i) then Some (te_value (t_entries t1 ! i)) else None)"
    "tp.raw_ok hsh ((t_entries t1)[i := \<lparr>te_key = Some k, te_value = v\<rparr>])"
    "tp.raw_map ((t_entries t1)[i := \<lparr>te_key = Some k, te_value = v\<rparr>]) =
       (tp.raw_map (t_entries t1))(k \<mapsto> \<lparr>te_key = Some k, te_value = v\<rparr>)"
    using table_find [OF t1(2)] by metis
  note st = table_store_ok [OF t1(2,4) refl i(2,4,5)]
  show ?thesis
    unfolding table_put_def t1(1) using st t1(3) i(1,3)
    by (auto simp: Let_def entry_used_def split: if_splits)
qed

lemma table_delete_ok:
  assumes ok: "table_ok hsh t"
  shows "\<exists>t'. table_delete hsh t k = Some (t', table_abs t k \<noteq> None) \<and>
    table_ok hsh t' \<and> table_abs t' = (table_abs t)(k := None)"
proof (cases "t_count t = 0")
  case True
  then show ?thesis
    using table_abs_empty [OF ok True] ok by (auto simp: table_delete_def)
next
  case False
  obtain i where i: "find_entry hsh (t_entries t) (t_capacity t) k = Some i" "i < t_capacity t"
    "table_abs t k = (if has_key (t_entries t ! i) then Some (te_value (t_entries t ! i)) else None)"
    "has_key (t_entries t ! i) \<longrightarrow> te_key (t_entries t ! i) = Some k"
    by (rule table_find [OF ok table_ok_nonempty [OF ok False], of k])
  show ?thesis
  proof (cases "has_key (t_entries t ! i)")
    case False
    then show ?thesis using \<open>t_count t \<noteq> 0\<close> i ok by (auto simp: table_delete_def fun_upd_idem)
  next
    case True
    let ?e = "\<lparr>te_key = None, te_value = TSelf\<rparr> :: 'a tentry"
    let ?t = "t\<lparr>t_count := t_count t - 1, t_entries := (t_entries t)[i := ?e]\<rparr>"
    have len: "length (t_entries t) = t_capacity t" using ok by (simp add: table_ok_def)
    have e: "te_key ?e = None" "entry_used ?e" by (simp_all add: entry_used_def)
    have raw: "tp.raw_ok hsh ((t_entries t)[i := ?e])"
      "tp.raw_map ((t_entries t)[i := ?e]) = (tp.raw_map (t_entries t))(k := None)"
      using tp.erase_ok [of hsh "t_entries t" i k ?e] ok i(2,4) True len e by (simp_all add: table_ok_def)
    have "table_ok hsh ?t \<and> table_abs ?t = (table_abs t)(k := None)"
      using length_filter_update [of i "t_entries t" has_key ?e]
        length_filter_update [of i "t_entries t" entry_used ?e] ok i(2) True len e raw
        has_key_used [OF True]
      by (auto simp: table_ok_def table_abs_def fun_eq_iff)
    then show ?thesis
      using \<open>t_count t \<noteq> 0\<close> i(1,3) True by (auto simp: table_delete_def)
  qed
qed

section \<open>Iteration\<close>

definition entry_pairs :: "'v tentry list \<Rightarrow> (nat \<times> 'v tval) list" where
  "entry_pairs es = map (\<lambda>e. (the (te_key e), te_value e)) (filter has_key es)"

lemma table_iterate_eq:
  assumes "length (t_entries t) = t_capacity t"
  shows "table_iterate t it = None \<Longrightarrow> entry_pairs (drop it (t_entries t)) = []"
    and "table_iterate t it = Some (it', k, v) \<Longrightarrow>
      it < it' \<and> entry_pairs (drop it (t_entries t)) = (k, v) # entry_pairs (drop it' (t_entries t))"
  using assms
proof (induction t it rule: table_iterate.induct)
  case (1 t it)
  {
    case 1
    show ?case
    proof (cases "it < t_capacity t")
      case True
      then have "te_key (t_entries t ! it) = None" "table_iterate t (it + 1) = None"
        using 1 by (subst (asm) table_iterate.simps, simp split: option.splits)+
      then show ?thesis
        using "1.IH"(1) True "1.prems"(2)
        by (simp add: Cons_nth_drop_Suc [symmetric] entry_pairs_def)
    qed (use 1 in \<open>simp add: entry_pairs_def\<close>)
  next
    case 2
    have True: "it < t_capacity t" using 2 by (subst (asm) table_iterate.simps) (simp split: if_splits)
    have d: "drop it (t_entries t) = t_entries t ! it # drop (Suc it) (t_entries t)"
      using True 2(2) by (simp add: Cons_nth_drop_Suc)
    show ?case
    proof (cases "te_key (t_entries t ! it)")
      case None
      then have "table_iterate t (it + 1) = Some (it', k, v)"
        using 2(1) True by (subst (asm) table_iterate.simps) simp
      then show ?thesis using "1.IH"(2) True None 2(2) by (simp add: d entry_pairs_def)
    next
      case (Some x)
      then have "it' = it + 1 \<and> k = x \<and> v = te_value (t_entries t ! it)"
        using 2(1) True by (subst (asm) table_iterate.simps) auto
      then show ?thesis using Some by (simp add: d entry_pairs_def)
    qed
  }
qed

lemma table_pairs_eq:
  "length (t_entries t) = t_capacity t \<Longrightarrow> table_pairs t it = entry_pairs (drop it (t_entries t))"
proof (induction t it rule: table_pairs.induct)
  case (1 t it)
  show ?case
  proof (cases "table_iterate t it")
    case None
    then show ?thesis using table_iterate_eq(1) [OF 1(2) None] by (simp add: table_pairs.simps)
  next
    case (Some p)
    obtain it' k v where p: "p = (it', k, v)" by (cases p)
    then show ?thesis
      using table_iterate_eq(2) [OF 1(2), of it it' k v] 1(1) [OF Some p [symmetric] refl] 1(2) Some
      by (subst table_pairs.simps) simp
  qed
qed

lemma entry_pairs_map: "map_of (entry_pairs es) k = map_option te_value (tp.raw_map es k)"
  by (induction es) (auto simp: entry_pairs_def tp.raw_map_Cons tp.raw_map_def)

lemma entry_pairs_distinct:
  assumes "tp.raw_ok hsh es"
  shows "distinct (map fst (entry_pairs es))"
proof -
  have "sorted_wrt (\<lambda>a b. te_key a = None \<or> te_key a \<noteq> te_key b) es"
    using assms by (rule tp.raw_ok_sorted)
  then show ?thesis by (induction es) (auto simp: entry_pairs_def)
qed

lemma table_pairs_ok:
  assumes "table_ok hsh t"
  shows "distinct (map fst (table_pairs t 0))" "map_of (table_pairs t 0) = table_abs t"
    "card (dom (table_abs t)) = t_count t"
proof -
  have e: "table_pairs t 0 = entry_pairs (t_entries t)" and raw: "tp.raw_ok hsh (t_entries t)"
    using assms table_pairs_eq [of t 0] by (simp_all add: table_ok_def)
  show d: "distinct (map fst (table_pairs t 0))" unfolding e by (rule entry_pairs_distinct [OF raw])
  show m: "map_of (table_pairs t 0) = table_abs t"
    unfolding e by (simp add: fun_eq_iff entry_pairs_map table_abs_def)
  have "card (dom (table_abs t)) = length (table_pairs t 0)"
    using distinct_card [OF d] unfolding m [symmetric] dom_map_of_conv_image_fst by simp
  then show "card (dom (table_abs t)) = t_count t"
    using assms by (simp add: e entry_pairs_def table_ok_def)
qed

section \<open>Refinement\<close>

definition table_step :: "(nat \<Rightarrow> u32) \<Rightarrow> (nat, 'v tval) map_op \<Rightarrow> 'v table \<Rightarrow> 'v table option" where
  "table_step hsh p t =
     (case p of MPut k v \<Rightarrow> map_option fst (table_put True hsh t k v)
      | MDel k \<Rightarrow> map_option fst (table_delete hsh t k))"

interpretation tbl: map_adt "table_ok hsh" table_abs table_init "table_try_get hsh" "table_step hsh" map_eff
  for hsh :: "nat \<Rightarrow> u32"
proof unfold_locales
  fix t :: "'a table" and p :: "(nat, 'a tval) map_op"
  assume ok: "table_ok hsh t"
  show "\<exists>t'. table_step hsh p t = Some t' \<and> table_ok hsh t' \<and> table_abs t' = map_eff p (table_abs t)"
  proof (cases p)
    case (MPut k v)
    then show ?thesis using table_put_ok [OF ok, of k v] by (auto simp: table_step_def)
  next
    case (MDel k)
    then show ?thesis using table_delete_ok [OF ok, of k] by (auto simp: table_step_def)
  qed
qed (simp_all add: table_init_ok table_get_ok)

text \<open>
  Property C4 (refinement). Any sequence of \<open>table_put\<close> and \<open>table_delete\<close> calls on an initialised
  table returns as long as \<open>malloc\<close> succeeds, and the table then is the finite map the calls build:
  \<open>table_try_get\<close> and \<open>table_get\<close> return the map's value, \<open>count\<close> is the number of keys, the
  iterator gives every key exactly once with its value, \<open>table_put\<close> says whether the key is new and
  \<open>table_delete\<close> whether it was there.
\<close>

theorem table_refines_map:
  "\<exists>t. fold (\<lambda>p r. Option.bind r (table_step hsh p)) ps (Some table_init) = Some t \<and>
     (let m = fold map_eff ps Map.empty in
        (\<forall>k. table_try_get hsh t k = Some (m k)) \<and>
        (\<forall>k. table_get hsh t k = Some (case m k of None \<Rightarrow> TNull | Some v \<Rightarrow> v)) \<and>
        t_count t = card (dom m) \<and>
        distinct (map fst (table_pairs t 0)) \<and> map_of (table_pairs t 0) = m \<and>
        (\<forall>k v. \<exists>t'. table_put True hsh t k v = Some (t', m k = None)) \<and>
        (\<forall>k. \<exists>t'. table_delete hsh t k = Some (t', m k \<noteq> None)))"
proof -
  obtain t where t: "fold (\<lambda>p r. Option.bind r (table_step hsh p)) ps (Some table_init) = Some t"
    "table_ok hsh t" "table_abs t = fold map_eff ps Map.empty"
    using tbl.run_refines [OF table_init_ok(1), of hsh ps] by (auto simp: table_init_ok(2))
  note get = table_get_ok [OF t(2), unfolded t(3)]
  note pairs = table_pairs_ok [OF t(2), unfolded t(3)]
  have "\<exists>t'. table_put True hsh t k v = Some (t', fold map_eff ps Map.empty k = None)" for k v
    using table_put_ok [OF t(2), of k v] unfolding t(3) by blast
  moreover have "\<exists>t'. table_delete hsh t k = Some (t', fold map_eff ps Map.empty k \<noteq> None)" for k
    using table_delete_ok [OF t(2), of k] unfolding t(3) by blast
  ultimately show ?thesis using t(1) get pairs unfolding Let_def by (intro exI [of _ t]) simp
qed

text \<open>When the first \<open>malloc\<close> fails, the search goes on in an array of no entries.\<close>

lemma table_put_no_memory: "table_put False hsh table_init k v = None"
  by (simp add: table_put_def adjust_capacity_def table_init_def find_entry_def)

end
