(* ===== verification/Tcutil_Name.thy ===== *)
theory Tcutil_Name
  imports Tcutil_Table
begin

text \<open>
  The interned names of \<open>shared/libtcutil/table.c\<close>: \<open>find_name_table\<close>, \<open>alloc_name\<close>,
  \<open>alloc_cname\<close> and \<open>equal_name\<close>, over the global \<open>name_table\<close>.

  The names allocated so far are a list; the address of a name is its position. A name keeps the text
  it was made of: without a copy the caller leaves the text in place, as the header of the library
  asks. The search by text is an instance of the locale \<open>probing\<close> on the same entries as the search
  by address, so that its facts are shared.
\<close>

section \<open>Definitions\<close>

record name =
  nm_chars :: "byte list"
  nm_bytes :: nat
  nm_hash :: u32

record name_state =
  ns_names :: "name list"
  ns_table :: "nat table"

definition name_hash :: "name list \<Rightarrow> nat \<Rightarrow> u32" where
  "name_hash names k = (if k < length names then nm_hash (names ! k) else 0)"

fun find_name_loop :: "name list \<Rightarrow> nat tentry list \<Rightarrow> nat \<Rightarrow> byte list \<Rightarrow> nat \<Rightarrow> u32 \<Rightarrow> nat \<Rightarrow> nat \<Rightarrow> nat option option" where
  "find_name_loop names entries capacity chars nbytes hash 0 index = None"
| "find_name_loop names entries capacity chars nbytes hash (Suc fuel) index =
     (let entry = entries ! index in
      case te_key entry of
        None \<Rightarrow>
          if te_value entry = TNull then Some None
          else find_name_loop names entries capacity chars nbytes hash fuel ((index + 1) mod capacity)
      | Some key \<Rightarrow>
          let name = names ! key in
          if nm_bytes name = nbytes \<and> nm_hash name = hash \<and> nm_chars name = chars then Some (Some key)
          else find_name_loop names entries capacity chars nbytes hash fuel ((index + 1) mod capacity))"

definition find_name_table :: "name_state \<Rightarrow> byte list \<Rightarrow> nat \<Rightarrow> u32 \<Rightarrow> nat option option" where
  "find_name_table st chars nbytes hash =
     (if t_count (ns_table st) = 0 then Some None
      else find_name_loop (ns_names st) (t_entries (ns_table st)) (t_capacity (ns_table st)) chars nbytes hash
        (t_capacity (ns_table st)) (unat hash mod t_capacity (ns_table st)))"

text \<open>
  \<open>mem_copy\<close>, \<open>mem_name\<close> and \<open>mem_table\<close> say whether the three calls of \<open>malloc\<close> succeed. The
  result is the new state and the name, \<open>None\<close> where the code returns \<open>NULL\<close>.
\<close>

definition alloc_name :: "bool \<Rightarrow> bool \<Rightarrow> bool \<Rightarrow> name_state \<Rightarrow> byte list \<Rightarrow> nat option \<Rightarrow> bool \<Rightarrow> (name_state \<times> nat option) option" where
  "alloc_name mem_copy mem_name mem_table st begin_s end_s make_copy =
     (let nbytes = (case end_s of Some n \<Rightarrow> n | None \<Rightarrow> length (cstr begin_s));
          chars = take nbytes begin_s;
          hash = hash_string chars
      in case find_name_table st chars nbytes hash of
        None \<Rightarrow> None
      | Some (Some name) \<Rightarrow> Some (st, Some name)
      | Some None \<Rightarrow>
          if make_copy \<and> \<not> mem_copy then Some (st, None)
          else if \<not> mem_name then Some (st, None)
          else
            let new_name = length (ns_names st);
                names = ns_names st @ [\<lparr>nm_chars = chars, nm_bytes = nbytes, nm_hash = hash\<rparr>]
            in map_option (\<lambda>(table, _). (\<lparr>ns_names = names, ns_table = table\<rparr>, Some new_name))
                 (table_put mem_table (name_hash names) (ns_table st) new_name (TPtr new_name)))"

definition alloc_cname :: "bool \<Rightarrow> bool \<Rightarrow> bool \<Rightarrow> name_state \<Rightarrow> byte list \<Rightarrow> (name_state \<times> nat option) option" where
  "alloc_cname mem_copy mem_name mem_table st s = alloc_name mem_copy mem_name mem_table st s None False"

definition equal_name :: "nat option \<Rightarrow> nat option \<Rightarrow> bool" where
  "equal_name name1 name2 \<longleftrightarrow> name1 = name2"

definition names_empty :: name_state where
  "names_empty = \<lparr>ns_names = [], ns_table = table_init\<rparr>"

section \<open>The search by text\<close>

definition entry_text :: "name list \<Rightarrow> nat tentry \<Rightarrow> byte list option" where
  "entry_text names e = map_option (\<lambda>k. nm_chars (names ! k)) (te_key e)"

interpretation np: probing "entry_text names" entry_used "\<lambda>s. unat (hash_string s)" for names :: "name list"
  by unfold_locales (auto simp: entry_text_def entry_used_def)

definition name_ok :: "name \<Rightarrow> bool" where
  "name_ok n \<longleftrightarrow> nm_bytes n = length (nm_chars n) \<and> nm_hash n = hash_string (nm_chars n)"

definition names_ok :: "name_state \<Rightarrow> bool" where
  "names_ok st \<longleftrightarrow>
     (\<forall>n \<in> set (ns_names st). name_ok n) \<and> distinct (map nm_chars (ns_names st)) \<and>
     table_ok (name_hash (ns_names st)) (ns_table st) \<and>
     dom (table_abs (ns_table st)) = {..< length (ns_names st)}"

lemma keys_in_table:
  assumes "table_ok hsh t" "i < t_capacity t" "te_key (t_entries t ! i) = Some k"
  shows "k \<in> dom (table_abs t)"
  using assms tp.raw_map_Some [of hsh "t_entries t" i k] by (auto simp: table_ok_def table_abs_def)

text \<open>The hash of a name that is not in the table does not matter.\<close>

lemma raw_ok_cong:
  assumes "\<And>i k. i < length es \<Longrightarrow> te_key (es ! i) = Some k \<Longrightarrow> hsh k = hsh' k"
  shows "tp.raw_ok hsh es \<Longrightarrow> tp.raw_ok hsh' es"
proof -
  have "hsh k = hsh' k" if "m < length es" "te_key (probe_at es s m) = Some k" for s m k
  proof (rule assms)
    have "0 < length es" using that(1) by linarith
    then show "(s + m) mod length es < length es" by (rule mod_less_divisor)
    show "te_key (es ! ((s + m) mod length es)) = Some k" using that(2) by (simp add: probe_at_def)
  qed
  then show "tp.raw_ok hsh es \<Longrightarrow> tp.raw_ok hsh' es" unfolding tp.raw_ok_def by metis
qed

lemma table_ok_cong:
  assumes "table_ok hsh t" "\<And>k. k \<in> dom (table_abs t) \<Longrightarrow> hsh k = hsh' k"
  shows "table_ok hsh' t"
proof -
  have "hsh k = hsh' k" if "i < length (t_entries t)" "te_key (t_entries t ! i) = Some k" for i k
    using assms(2) keys_in_table [OF assms(1), of i k] that assms(1) by (simp add: table_ok_def)
  then have "tp.raw_ok hsh' (t_entries t)"
    using assms(1) raw_ok_cong [of "t_entries t" hsh hsh'] by (simp add: table_ok_def)
  then show ?thesis using assms(1) by (simp add: table_ok_def)
qed

lemma names_raw_ok:
  assumes "names_ok st"
  shows "np.raw_ok (ns_names st) (t_entries (ns_table st))"
proof -
  let ?es = "t_entries (ns_table st)" and ?ns = "ns_names st"
  have len: "length ?es = t_capacity (ns_table st)" and raw: "tp.raw_ok (name_hash ?ns) ?es"
    using assms by (simp_all add: names_ok_def table_ok_def)
  have key: "k < length ?ns \<and> name_hash ?ns k = hash_string (nm_chars (?ns ! k))"
    if "i < length ?es" "te_key (?es ! i) = Some k" for i k
    using keys_in_table [of "name_hash ?ns" "ns_table st" i k] that assms len
    by (auto simp: names_ok_def name_hash_def name_ok_def)
  have inj: "k = k'" if "k < length ?ns" "k' < length ?ns" "nm_chars (?ns ! k) = nm_chars (?ns ! k')" for k k'
    using assms that by (auto simp: names_ok_def nth_eq_iff_index_eq [of "map nm_chars ?ns", symmetric])
  show ?thesis
    unfolding np.raw_ok_def
  proof (intro conjI allI impI)
    fix i j s
    assume i: "i < length ?es" "j < length ?es"
      and "entry_text ?ns (?es ! i) = Some s \<and> entry_text ?ns (?es ! j) = Some s"
    then obtain k k' where k: "te_key (?es ! i) = Some k" "te_key (?es ! j) = Some k'"
      "nm_chars (?ns ! k) = nm_chars (?ns ! k')"
      by (auto simp: entry_text_def)
    then have "k = k'" using inj key i by blast
    then show "i = j" using raw i k unfolding tp.raw_ok_def by blast
  next
    fix s m j
    assume m: "m < length ?es" "j < m"
      and "entry_text ?ns (probe_at ?es (unat (hash_string s)) m) = Some s"
    then obtain k where k: "te_key (probe_at ?es (unat (hash_string s)) m) = Some k" "nm_chars (?ns ! k) = s"
      by (auto simp: entry_text_def)
    have "0 < length ?es" using m by linarith
    then have "name_hash ?ns k = hash_string s"
      using key k by (metis mod_less_divisor probe_at_def)
    then show "entry_used (probe_at ?es (unat (hash_string s)) j)"
      using raw m k(1) unfolding tp.raw_ok_def by metis
  qed
qed

lemma find_name_loop_spec:
  fixes s :: "byte list" and es :: "nat tentry list"
  defines "h \<equiv> unat (hash_string s)" and "c \<equiv> length es"
  assumes key: "\<And>i k. i < c \<Longrightarrow> te_key (es ! i) = Some k \<Longrightarrow> name_ok (names ! k)"
    and "a \<le> m" "m < c" "np.stop names es s m" "\<forall>j. a \<le> j \<and> j < m \<longrightarrow> \<not> np.stop names es s j"
    "m - a < fuel"
  shows "find_name_loop names es c s (length s) (hash_string s) fuel ((h + a) mod c) =
    Some (if entry_text names (probe_at es h m) = Some s then te_key (probe_at es h m) else None)"
  using assms(4-8)
proof (induction fuel arbitrary: a)
  case (Suc fuel)
  let ?e = "probe_at es h a"
  have e: "es ! ((h + a) mod c) = ?e" by (simp add: probe_at_def c_def)
  have "0 < c" using Suc.prems by linarith
  then have ok: "name_ok (names ! k)" if "te_key ?e = Some k" for k
    using key that by (metis e mod_less_divisor)
  have test: "nm_bytes (names ! k) = length s \<and> nm_hash (names ! k) = hash_string s \<and> nm_chars (names ! k) = s \<longleftrightarrow>
      entry_text names ?e = Some s" if "te_key ?e = Some k" for k
    using ok [OF that] that by (auto simp: name_ok_def entry_text_def)
  show ?case
  proof (cases "a = m")
    case True
    then have "entry_text names ?e = Some s \<or> te_key ?e = None \<and> te_value ?e = TNull"
      using Suc.prems(3) unfolding np.stop_def by (auto simp: entry_used_def h_def)
    then show ?thesis
      unfolding True [symmetric] using test by (cases "te_key ?e") (auto simp: e entry_text_def Let_def)
  next
    case False
    then have ns: "\<not> np.stop names es s a" and le: "Suc a \<le> m" "m - Suc a < fuel"
      using Suc.prems by auto
    have rest: "\<forall>j. Suc a \<le> j \<and> j < m \<longrightarrow> \<not> np.stop names es s j" using Suc.prems(4) by auto
    have "entry_text names ?e \<noteq> Some s" "te_key ?e = None \<Longrightarrow> te_value ?e \<noteq> TNull"
      using ns unfolding np.stop_def by (auto simp: entry_used_def h_def)
    then have "find_name_loop names es c s (length s) (hash_string s) (Suc fuel) ((h + a) mod c) =
        find_name_loop names es c s (length s) (hash_string s) fuel ((h + Suc a) mod c)"
      using test by (auto simp: e mod_Suc_eq Let_def split: option.split)
    then show ?thesis using Suc.IH [OF le(1) Suc.prems(2,3) rest le(2)] by simp
  qed
qed simp

text \<open>A search that finds nothing proves the text new; one that finds a name finds the one with the text.\<close>

lemma find_name_ok:
  assumes ok: "names_ok st"
  obtains "find_name_table st s (length s) (hash_string s) = Some None"
      "s \<notin> set (map nm_chars (ns_names st))"
  | k where "find_name_table st s (length s) (hash_string s) = Some (Some k)"
      "k < length (ns_names st)" "nm_chars (ns_names st ! k) = s"
proof (cases "t_count (ns_table st) = 0")
  case True
  then have "ns_names st = []"
    using ok table_abs_empty by (fastforce simp: names_ok_def dom_def)
  then show thesis using True that(1) by (simp add: find_name_table_def)
next
  case False
  let ?es = "t_entries (ns_table st)" and ?ns = "ns_names st" and ?h = "unat (hash_string s)"
  have tok: "table_ok (name_hash ?ns) (ns_table st)" and dom: "dom (table_abs (ns_table st)) = {..< length ?ns}"
    using ok by (simp_all add: names_ok_def)
  have len: "length ?es = t_capacity (ns_table st)" using tok by (simp add: table_ok_def)
  have key: "k < length ?ns \<and> name_ok (?ns ! k)" if "i < length ?es" "te_key (?es ! i) = Some k" for i k
    using keys_in_table [OF tok, of i k] that dom len ok by (auto simp: names_ok_def)
  obtain i where "i < length ?es" "\<not> entry_used (?es ! i)"
    using table_room [OF tok table_ok_nonempty [OF tok False]] by (rule free_slot)
  then obtain m where m: "m < length ?es" "np.stop ?ns ?es s m" "\<forall>j < m. \<not> np.stop ?ns ?es s j"
    using np.first_stop by blast
  let ?e = "probe_at ?es ?h m"
  have at: "(?h + m) mod length ?es < length ?es" using m(1) by (intro mod_less_divisor) linarith
  have find: "find_name_table st s (length s) (hash_string s) =
      Some (if entry_text ?ns ?e = Some s then te_key ?e else None)"
    using find_name_loop_spec [of ?es ?ns 0 m s "length ?es"] key m False len
    by (simp add: find_name_table_def)
  show thesis
  proof (cases "entry_text ?ns ?e = Some s")
    case True
    then obtain k where k: "te_key ?e = Some k" "nm_chars (?ns ! k) = s" by (auto simp: entry_text_def)
    then show thesis using that(2) [of k] find True key [OF at] by (simp add: probe_at_def)
  next
    case False
    then have "\<not> entry_used ?e" using m(2) unfolding np.stop_def by blast
    then have none: "np.raw_map ?ns ?es s = None" by (rule np.stop_absent [OF names_raw_ok [OF ok] m(1,3)])
    have "s \<notin> set (map nm_chars ?ns)"
    proof
      assume "s \<in> set (map nm_chars ?ns)"
      then obtain k where k: "k < length ?ns" "nm_chars (?ns ! k) = s" by (auto simp: in_set_conv_nth)
      then have "k \<in> dom (table_abs (ns_table st))" using dom by simp
      then have "tp.raw_map ?es k \<noteq> None" by (auto simp: table_abs_def)
      then show False
        using none k unfolding np.raw_map_None tp.raw_map_None by (auto simp: entry_text_def)
    qed
    then show thesis using that(1) find False by simp
  qed
qed

section \<open>Interning\<close>

definition request_text :: "byte list \<times> nat option \<times> bool \<Rightarrow> byte list" where
  "request_text r = (case r of (s, e, _) \<Rightarrow> take (case e of Some n \<Rightarrow> n | None \<Rightarrow> length (cstr s)) s)"

definition request_ok :: "byte list \<times> nat option \<times> bool \<Rightarrow> bool" where
  "request_ok r = (case r of (s, Some n, _) \<Rightarrow> n \<le> length s | (s, None, _) \<Rightarrow> True)"

primrec alloc_names :: "name_state \<Rightarrow> (byte list \<times> nat option \<times> bool) list \<Rightarrow> (name_state \<times> nat option list) option" where
  "alloc_names st [] = Some (st, [])"
| "alloc_names st (r # rs) =
     (case r of (s, e, make_copy) \<Rightarrow>
       Option.bind (alloc_name True True True st s e make_copy) (\<lambda>(st, p).
         map_option (\<lambda>(st, ps). (st, p # ps)) (alloc_names st rs)))"

lemma cstr_le: "length (cstr s) \<le> length s"
  unfolding cstr_def by (rule length_takeWhile_le)

lemma alloc_name_ok:
  assumes ok: "names_ok st" and r: "request_ok (s, e, make_copy)"
  shows "\<exists>st' k more. alloc_name True True True st s e make_copy = Some (st', Some k) \<and> names_ok st' \<and>
    ns_names st' = ns_names st @ more \<and> k < length (ns_names st') \<and>
    nm_chars (ns_names st' ! k) = request_text (s, e, make_copy)"
proof -
  let ?ns = "ns_names st"
  obtain n t where n: "(case e of Some n \<Rightarrow> n | None \<Rightarrow> length (cstr s)) = n" and t: "take n s = t" by blast
  have len: "length t = n"
    using r cstr_le [of s] n t by (auto simp: request_ok_def split: option.splits)
  have req: "request_text (s, e, make_copy) = t" using n t by (simp add: request_text_def)
  show ?thesis
  proof (rule find_name_ok [OF ok, of t], goal_cases)
    case (2 k)
    then show ?case using ok by (intro exI [of _ st] exI [of _ k] exI [of _ "[]"])
      (simp add: alloc_name_def Let_def n t len req)
  next
    case 1
    let ?name = "\<lparr>nm_chars = t, nm_bytes = n, nm_hash = hash_string t\<rparr>"
    have dom: "dom (table_abs (ns_table st)) = {..< length ?ns}" using ok by (simp add: names_ok_def)
    have "table_ok (name_hash (?ns @ [?name])) (ns_table st)"
      by (rule table_ok_cong [of "name_hash ?ns"])
        (use ok dom in \<open>auto simp: names_ok_def name_hash_def nth_append\<close>)
    then obtain t' where t': "table_put True (name_hash (?ns @ [?name])) (ns_table st) (length ?ns) (TPtr (length ?ns)) =
        Some (t', table_abs (ns_table st) (length ?ns) = None)"
      "table_ok (name_hash (?ns @ [?name])) t'"
      "table_abs t' = (table_abs (ns_table st))(length ?ns \<mapsto> TPtr (length ?ns))"
      using table_put_ok by blast
    let ?st = "\<lparr>ns_names = ?ns @ [?name], ns_table = t'\<rparr>"
    have "name_ok ?name" using len by (simp add: name_ok_def)
    then have "names_ok ?st" using ok t'(2,3) 1(2) dom by (auto simp: names_ok_def)
    moreover have "alloc_name True True True st s e make_copy = Some (?st, Some (length ?ns))"
      using 1(1) t'(1) by (simp add: alloc_name_def Let_def n t len)
    ultimately show ?case
      by (intro exI [of _ ?st] exI [of _ "length ?ns"] exI [of _ "[?name]"]) (simp add: req)
  qed
qed

lemma alloc_names_ok:
  assumes "names_ok st" "\<forall>r \<in> set rs. request_ok r"
  shows "\<exists>st' ks more. alloc_names st rs = Some (st', map Some ks) \<and> names_ok st' \<and>
    ns_names st' = ns_names st @ more \<and> (\<forall>k \<in> set ks. k < length (ns_names st')) \<and>
    map (\<lambda>k. nm_chars (ns_names st' ! k)) ks = map request_text rs"
  using assms
proof (induction rs arbitrary: st)
  case Nil
  then show ?case by (intro exI [of _ st] exI [of _ "[]"]) simp
next
  case (Cons r rs)
  obtain s e c where r: "r = (s, e, c)" by (cases r)
  obtain st1 k more1 where 1: "alloc_name True True True st s e c = Some (st1, Some k)" "names_ok st1"
    "ns_names st1 = ns_names st @ more1" "k < length (ns_names st1)"
    "nm_chars (ns_names st1 ! k) = request_text r"
    using alloc_name_ok [OF Cons.prems(1), of s e c] Cons.prems(2) r by auto
  obtain st2 ks more2 where 2: "alloc_names st1 rs = Some (st2, map Some ks)" "names_ok st2"
    "ns_names st2 = ns_names st1 @ more2" "\<forall>k \<in> set ks. k < length (ns_names st2)"
    "map (\<lambda>k. nm_chars (ns_names st2 ! k)) ks = map request_text rs"
    using Cons.IH [OF 1(2)] Cons.prems(2) by auto
  have "ns_names st2 ! k = ns_names st1 ! k" "k < length (ns_names st2)"
    using 2(3) 1(4) by (simp_all add: nth_append)
  then show ?case
    using 1 2 by (intro exI [of _ st2] exI [of _ "k # ks"] exI [of _ "more1 @ more2"]) (simp add: r)
qed

lemma names_empty_ok: "names_ok names_empty"
  by (simp add: names_ok_def names_empty_def table_init_ok)

text \<open>
  Property C15 (invariant). Interning: whatever texts are given to \<open>alloc_name\<close> in turn, with an end
  or a terminator, with a copy or without, every call returns a name when memory suffices, the name
  still has its text after all the later calls, and \<open>equal_name\<close>, which compares addresses only, is
  true for two of the names exactly when their texts are equal.
\<close>

theorem names_interned:
  assumes "\<forall>r \<in> set rs. request_ok r"
  shows "\<exists>st ks. alloc_names names_empty rs = Some (st, map Some ks) \<and> length ks = length rs \<and>
    (\<forall>i < length rs. nm_chars (ns_names st ! (ks ! i)) = request_text (rs ! i)) \<and>
    (\<forall>i < length rs. \<forall>j < length rs.
       equal_name (Some (ks ! i)) (Some (ks ! j)) \<longleftrightarrow> request_text (rs ! i) = request_text (rs ! j))"
proof -
  obtain st ks where st: "alloc_names names_empty rs = Some (st, map Some ks)" "names_ok st"
    "\<forall>k \<in> set ks. k < length (ns_names st)"
    "map (\<lambda>k. nm_chars (ns_names st ! k)) ks = map request_text rs"
    using alloc_names_ok [OF names_empty_ok assms] by blast
  have len: "length ks = length rs" using arg_cong [OF st(4), of length] by simp
  have txts: "nm_chars (ns_names st ! (ks ! i)) = request_text (rs ! i)" if "i < length rs" for i
    using arg_cong [OF st(4), of "\<lambda>xs. xs ! i"] that len by simp
  have inj: "k = k'" if "k < length (ns_names st)" "k' < length (ns_names st)"
    "nm_chars (ns_names st ! k) = nm_chars (ns_names st ! k')" for k k'
    using st(2) that nth_eq_iff_index_eq [of "map nm_chars (ns_names st)" k k'] by (simp add: names_ok_def)
  have "ks ! i = ks ! j \<longleftrightarrow> request_text (rs ! i) = request_text (rs ! j)"
    if "i < length rs" "j < length rs" for i j
    using inj [of "ks ! i" "ks ! j"] txts [OF that(1)] txts [OF that(2)] that st(3) len by auto
  then show ?thesis using st(1) len txts by (auto simp: equal_name_def)
qed

theorem names_interned_witness:
  "\<exists>st ks. alloc_names names_empty [([97, 98, 0, 99], None, False), ([97, 98, 99], Some 2, True), ([97], Some 1, True)] =
      Some (st, map Some ks) \<and> ks ! 0 = ks ! 1 \<and> ks ! 0 \<noteq> ks ! 2"
proof -
  let ?rs = "[([97, 98, 0, 99], None, False), ([97, 98, 99], Some 2, True), ([97], Some 1, True)]
    :: (byte list \<times> nat option \<times> bool) list"
  have ok: "\<forall>r \<in> set ?rs. request_ok r" by (simp add: request_ok_def)
  obtain st ks where st: "alloc_names names_empty ?rs = Some (st, map Some ks)"
    "\<forall>i < length ?rs. \<forall>j < length ?rs.
       equal_name (Some (ks ! i)) (Some (ks ! j)) \<longleftrightarrow> request_text (?rs ! i) = request_text (?rs ! j)"
    using names_interned [OF ok] by blast
  have "request_text (?rs ! 0) = request_text (?rs ! 1)" "request_text (?rs ! 0) \<noteq> request_text (?rs ! 2)"
    by (simp_all add: request_text_def cstr_def)
  then have "ks ! 0 = ks ! 1" "ks ! 0 \<noteq> ks ! 2"
    using st(2) [rule_format, of 0 1] st(2) [rule_format, of 0 2] by (simp_all add: equal_name_def)
  then show ?thesis using st(1) by blast
qed

text \<open>A call that has no memory for a new name leaves the names and the table as they are.\<close>

lemma alloc_name_no_memory:
  assumes "alloc_name mem_copy mem_name mem_table st s e make_copy = Some (st', None)"
  shows "st' = st"
  using assms by (auto simp: alloc_name_def Let_def split: option.splits if_splits)

end
