(* ===== verification/Cc_Map.thy ===== *)
theory Cc_Map
  imports Hash_Probe
begin

text \<open>
  The hash map of the C compiler, \<open>cmd/dev/cc/map.c\<close>: open addressing with linear probing, a
  capacity that is a power of two, no deletion.

  A key is the text it points to, its length and its hash; the text \<open>None\<close> is the null pointer of an
  empty slot. The values are an array of their own that the caller writes at the index it is given;
  memory fresh from \<open>xreallocarray\<close> holds an arbitrary value, the parameter \<open>junk\<close>. A search that
  does not end within \<open>cap\<close> steps goes round forever and is the result \<open>None\<close>.

  The map refines a finite map on texts, as an instance of \<open>map_adt\<close>, from a capacity of four on:
  with a capacity of one or two the code can fill every slot.
\<close>

unbundle bit_operations_syntax

section \<open>Definitions\<close>

record mapkey_t =
  mk_str :: "byte list option"
  mk_len :: nat
  mk_hash :: u64

record 'v cmap =
  m_len :: nat
  m_cap :: nat
  m_keys :: "mapkey_t list"
  m_vals :: "'v list"

definition map_hash :: "byte list \<Rightarrow> u64" where
  "map_hash s = foldl (\<lambda>h b. (h XOR ucast b) * 0x1000193) 0x811c9dc5 s"

definition mapkey :: "byte list \<Rightarrow> mapkey_t" where
  "mapkey s = \<lparr>mk_str = Some s, mk_len = length s, mk_hash = map_hash s\<rparr>"

definition null_key :: mapkey_t where
  "null_key = \<lparr>mk_str = None, mk_len = 0, mk_hash = 0\<rparr>"

text \<open>\<open>None\<close> is the failed assertion.\<close>

definition mapinit :: "'v \<Rightarrow> nat \<Rightarrow> 'v cmap option" where
  "mapinit junk cap =
     (if cap AND (cap - 1) \<noteq> 0 then None
      else Some \<lparr>m_len = 0, m_cap = cap, m_keys = replicate cap null_key, m_vals = replicate cap junk\<rparr>)"

text \<open>The values \<open>mapfree\<close> gives to \<open>del\<close>, in order.\<close>

definition mapfree :: "'v cmap \<Rightarrow> 'v list" where
  "mapfree h = map (\<lambda>i. m_vals h ! i) (filter (\<lambda>i. mk_str (m_keys h ! i) \<noteq> None) [0..<m_cap h])"

definition keyequal :: "mapkey_t \<Rightarrow> mapkey_t \<Rightarrow> bool" where
  "keyequal k1 k2 =
     (if mk_hash k1 \<noteq> mk_hash k2 \<or> mk_len k1 \<noteq> mk_len k2 then False
      else mk_str k1 = mk_str k2)"

fun keyindex_loop :: "mapkey_t list \<Rightarrow> nat \<Rightarrow> mapkey_t \<Rightarrow> nat \<Rightarrow> nat \<Rightarrow> nat option" where
  "keyindex_loop keys cap k 0 i = None"
| "keyindex_loop keys cap k (Suc fuel) i =
     (if mk_str (keys ! i) \<noteq> None \<and> \<not> keyequal (keys ! i) k
      then keyindex_loop keys cap k fuel ((i + 1) AND (cap - 1))
      else Some i)"

definition keyindex :: "mapkey_t list \<Rightarrow> nat \<Rightarrow> mapkey_t \<Rightarrow> nat option" where
  "keyindex keys cap k = keyindex_loop keys cap k cap (unat (mk_hash k) AND (cap - 1))"

text \<open>The loop of \<open>mapput\<close> that moves the old entries.\<close>

fun map_move :: "nat \<Rightarrow> (mapkey_t \<times> 'v) list \<Rightarrow> mapkey_t list \<times> 'v list \<Rightarrow> (mapkey_t list \<times> 'v list) option" where
  "map_move cap [] new = Some new"
| "map_move cap ((k, v) # old) (keys, vals) =
     (if mk_str k \<noteq> None then
        case keyindex keys cap k of
          None \<Rightarrow> None
        | Some j \<Rightarrow> map_move cap old (keys[j := k], vals[j := v])
      else map_move cap old (keys, vals))"

definition map_grow :: "'v \<Rightarrow> 'v cmap \<Rightarrow> 'v cmap option" where
  "map_grow junk h =
     (let cap = m_cap h * 2 in
      map_option (\<lambda>(keys, vals). h\<lparr>m_cap := cap, m_keys := keys, m_vals := vals\<rparr>)
        (map_move cap (zip (m_keys h) (m_vals h)) (replicate cap null_key, replicate cap junk)))"

text \<open>The new map, \<open>*idx\<close>, and whether the key is new.\<close>

definition mapput :: "'v \<Rightarrow> 'v cmap \<Rightarrow> mapkey_t \<Rightarrow> ('v cmap \<times> nat \<times> bool) option" where
  "mapput junk h k =
     (case if m_cap h div 2 < m_len h then map_grow junk h else Some h of
        None \<Rightarrow> None
      | Some h \<Rightarrow>
          (case keyindex (m_keys h) (m_cap h) k of
             None \<Rightarrow> None
           | Some i \<Rightarrow>
               if mk_str (m_keys h ! i) = None
               then Some (h\<lparr>m_keys := (m_keys h)[i := k], m_len := m_len h + 1\<rparr>, i, True)
               else Some (h, i, False)))"

text \<open>The value, or \<open>null\<close>, and \<open>*idx\<close>.\<close>

definition mapget :: "'v \<Rightarrow> 'v cmap \<Rightarrow> mapkey_t \<Rightarrow> ('v \<times> nat) option" where
  "mapget null h k =
     map_option (\<lambda>i. (if mk_str (m_keys h ! i) \<noteq> None then m_vals h ! i else null, i))
       (keyindex (m_keys h) (m_cap h) k)"

text \<open>What the callers do: the value is stored at the index.\<close>

definition map_set :: "'v \<Rightarrow> byte list \<times> 'v \<Rightarrow> 'v cmap \<Rightarrow> 'v cmap option" where
  "map_set junk kv h =
     map_option (\<lambda>(h, i, _). h\<lparr>m_vals := (m_vals h)[i := snd kv]\<rparr>) (mapput junk h (mapkey (fst kv)))"

section \<open>The search\<close>

text \<open>An entry of the table is a key with its value.\<close>

definition slot_used :: "mapkey_t \<times> 'v \<Rightarrow> bool" where
  "slot_used e \<longleftrightarrow> mk_str (fst e) \<noteq> None"

definition slots :: "'v cmap \<Rightarrow> (mapkey_t \<times> 'v) list" where
  "slots h = zip (m_keys h) (m_vals h)"

interpretation cm: probing "\<lambda>e :: mapkey_t \<times> 'v. mk_str (fst e)" slot_used "\<lambda>s. unat (map_hash s)"
  by unfold_locales (simp add: slot_used_def)

definition key_ok :: "mapkey_t \<Rightarrow> bool" where
  "key_ok k \<longleftrightarrow> (\<forall>s. mk_str k = Some s \<longrightarrow> k = mapkey s)"

lemma mask_mod: "(x :: nat) AND (2 ^ n - Suc 0) = x mod 2 ^ n"
  unfolding take_bit_eq_mod [symmetric] take_bit_eq_mask mask_eq_exp_minus_1 by simp

lemma keyequal_iff:
  assumes "key_ok k" "mk_str k \<noteq> None"
  shows "keyequal k (mapkey s) \<longleftrightarrow> mk_str k = Some s"
proof -
  obtain t where "k = mapkey t" using assms unfolding key_ok_def by blast
  then show ?thesis by (cases "t = s") (simp_all add: keyequal_def mapkey_def)
qed

lemma keyindex_loop_spec:
  fixes es :: "(mapkey_t \<times> 'v) list" and s :: "byte list"
  defines "h \<equiv> unat (map_hash s)"
  assumes len: "length es = 2 ^ n" and keys: "\<forall>e \<in> set es. key_ok (fst e)"
    and "a \<le> m" "m < 2 ^ n" "cm.stop es s m" "\<forall>j. a \<le> j \<and> j < m \<longrightarrow> \<not> cm.stop es s j" "m - a < fuel"
  shows "keyindex_loop (map fst es) (2 ^ n) (mapkey s) fuel ((h + a) mod 2 ^ n) = Some ((h + m) mod 2 ^ n)"
  using assms(4-8)
proof (induction fuel arbitrary: a)
  case (Suc fuel)
  let ?e = "probe_at es h a"
  have e: "map fst es ! ((h + a) mod 2 ^ n) = fst ?e" by (simp add: probe_at_def len)
  have "key_ok (fst ?e)" using keys by (simp add: probe_at_def len)
  then have go: "mk_str (fst ?e) \<noteq> None \<and> \<not> keyequal (fst ?e) (mapkey s) \<longleftrightarrow> \<not> cm.stop es s a"
    using keyequal_iff [of "fst ?e" s] unfolding cm.stop_def h_def slot_used_def by auto
  have nxt: "((h + a) mod 2 ^ n + 1) AND (2 ^ n - 1) = (h + Suc a) mod 2 ^ n"
    by (simp add: mask_mod mod_Suc_eq)
  show ?case
  proof (cases "a = m")
    case True
    then have "\<not> (mk_str (fst ?e) \<noteq> None \<and> \<not> keyequal (fst ?e) (mapkey s))" using go Suc.prems(3) by simp
    then show ?thesis unfolding True [symmetric] keyindex_loop.simps e by auto
  next
    case False
    then have "\<not> cm.stop es s a" and le: "Suc a \<le> m" "m - Suc a < fuel" using Suc.prems by auto
    moreover have "\<forall>j. Suc a \<le> j \<and> j < m \<longrightarrow> \<not> cm.stop es s j" using Suc.prems(4) by auto
    ultimately show ?thesis using Suc.IH [OF le(1) Suc.prems(2,3) _ le(2)] go nxt by (simp only: keyindex_loop.simps e) simp
  qed
qed simp

text \<open>The index of a text: its slot, or an empty one where it can be stored.\<close>

lemma keyindex_spec:
  assumes ok: "cm.raw_ok es" and len: "length es = 2 ^ n" and keys: "\<forall>e \<in> set es. key_ok (fst e)"
    and free: "length (filter slot_used es) < length es"
  obtains i where "keyindex (map fst es) (2 ^ n) (mapkey s) = Some i" "i < length es"
    "cm.raw_map es s = (if slot_used (es ! i) then Some (es ! i) else None)"
    "\<forall>v. cm.raw_ok (es[i := (mapkey s, v)])"
    "\<forall>v. cm.raw_map (es[i := (mapkey s, v)]) = (cm.raw_map es)(s \<mapsto> (mapkey s, v))"
proof -
  let ?h = "unat (map_hash s)"
  obtain i0 where "i0 < length es" "\<not> slot_used (es ! i0)" using free by (rule free_slot)
  then obtain m where m: "m < length es" "cm.stop es s m" "\<forall>j < m. \<not> cm.stop es s j"
    using cm.first_stop by blast
  define i where "i = (?h + m) mod length es"
  have il: "i < length es" unfolding i_def len by simp
  have idx: "keyindex (map fst es) (2 ^ n) (mapkey s) = Some i"
    using keyindex_loop_spec [OF len keys, of 0 m s "2 ^ n"] m
    by (simp add: keyindex_def i_def len mapkey_def mask_mod)
  have used: "\<forall>j < m. slot_used (probe_at es ?h j)" using m(3) unfolding cm.stop_def by blast
  have at: "probe_at es ?h m = es ! i" by (simp add: probe_at_def i_def)
  have old: "mk_str (fst (es ! i)) = Some s \<or> mk_str (fst (es ! i)) = None \<and> cm.raw_map es s = None"
    using m(2) cm.stop_absent [OF ok m(1,3)] unfolding cm.stop_def at by (auto simp: slot_used_def)
  have key: "mk_str (fst (mapkey s, v)) = Some s" for v :: 'a by (simp add: mapkey_def)
  note st = cm.store_ok [OF ok m(1) used i_def key old]
  have "cm.raw_map es s = (if slot_used (es ! i) then Some (es ! i) else None)"
    using old cm.raw_map_Some [OF ok il, of s] by (auto simp: slot_used_def)
  then show thesis using that idx il st by blast
qed

section \<open>Growth\<close>

lemma used_store:
  assumes "i < length es"
  shows "length (filter slot_used (es[i := (mapkey s, v)])) =
    length (filter slot_used es) + (if slot_used (es ! i) then 0 else 1)"
  using length_filter_update [OF assms, of slot_used "(mapkey s, v)"]
  by (simp add: slot_used_def mapkey_def split: if_splits)

lemma keys_store:
  "\<forall>e \<in> set es. key_ok (fst e) \<Longrightarrow> \<forall>e \<in> set (es[i := (mapkey s, v)]). key_ok (fst e)"
  using set_update_subset_insert [of es i "(mapkey s, v)"] by (auto simp: key_ok_def mapkey_def)

lemma map_move_ok:
  fixes old :: "(mapkey_t \<times> 'v) list"
  assumes "cm.raw_ok new" "length new = 2 ^ n" "\<forall>e \<in> set new. key_ok (fst e)"
    "\<forall>e \<in> set old. key_ok (fst e)"
    "sorted_wrt (\<lambda>a b. mk_str (fst a) = None \<or> mk_str (fst a) \<noteq> mk_str (fst b)) old"
    "\<forall>e \<in> set old. \<forall>s. mk_str (fst e) = Some s \<longrightarrow> cm.raw_map new s = None"
    "length (filter slot_used new) + length (filter slot_used old) < 2 ^ n"
  shows "\<exists>new'. map_move (2 ^ n) old (map fst new, map snd new) = Some (map fst new', map snd new') \<and>
    length new' = 2 ^ n \<and> cm.raw_ok new' \<and> (\<forall>e \<in> set new'. key_ok (fst e)) \<and>
    length (filter slot_used new') = length (filter slot_used new) + length (filter slot_used old) \<and>
    cm.raw_map new' = cm.raw_map new ++ cm.raw_map old"
  using assms
proof (induction old arbitrary: new)
  case Nil
  then show ?case by (auto simp: cm.raw_map_def map_add_def)
next
  case (Cons e old)
  obtain k v where e: "e = (k, v)" by (cases e)
  show ?case
  proof (cases "mk_str k")
    case None
    have "cm.raw_map (e # old) = cm.raw_map old" using None by (simp add: fun_eq_iff cm.raw_map_Cons e)
    then show ?thesis
      using Cons.IH [OF Cons.prems(1-3)] Cons.prems(4-7) None by (simp add: e slot_used_def)
  next
    case (Some s)
    then have k: "k = mapkey s" using Cons.prems(4) by (simp add: e key_ok_def)
    have used: "slot_used e" using Some by (simp add: e slot_used_def)
    have room: "length (filter slot_used new) < length new" using Cons.prems(2,7) by simp
    obtain i where i: "keyindex (map fst new) (2 ^ n) (mapkey s) = Some i" "i < length new"
      "cm.raw_map new s = (if slot_used (new ! i) then Some (new ! i) else None)"
      "\<forall>v. cm.raw_ok (new[i := (mapkey s, v)])"
      "\<forall>v. cm.raw_map (new[i := (mapkey s, v)]) = (cm.raw_map new)(s \<mapsto> (mapkey s, v))"
      by (rule keyindex_spec [OF Cons.prems(1-3) room, of s])
    note store = i(4) [rule_format, of v] i(5) [rule_format, of v]
    let ?new = "new[i := (mapkey s, v)]"
    have "cm.raw_map new s = None" using Cons.prems(6) Some by (simp add: e)
    then have cnt: "length (filter slot_used ?new) = length (filter slot_used new) + 1"
      using used_store [OF i(2), of s v] i(3) by (simp split: if_splits)
    have dist: "\<forall>x \<in> set old. mk_str (fst x) \<noteq> Some s" using Cons.prems(5) Some by (auto simp: e)
    have abs: "\<forall>x \<in> set old. \<forall>t. mk_str (fst x) = Some t \<longrightarrow> cm.raw_map ?new t = None"
      using Cons.prems(6) dist store(2) by auto
    have "cm.raw_map old s = None" using dist unfolding cm.raw_map_None by simp
    then have merge: "(cm.raw_map new)(s \<mapsto> (mapkey s, v)) ++ cm.raw_map old = cm.raw_map new ++ cm.raw_map (e # old)"
      using Some by (auto simp: fun_eq_iff cm.raw_map_Cons map_add_def e k split: option.split)
    have "map_move (2 ^ n) (e # old) (map fst new, map snd new) = map_move (2 ^ n) old (map fst ?new, map snd ?new)"
      using Some i(1) by (simp add: e k [symmetric] map_update)
    moreover have "sorted_wrt (\<lambda>a b. mk_str (fst a) = None \<or> mk_str (fst a) \<noteq> mk_str (fst b)) old"
      using Cons.prems(5) by simp
    ultimately show ?thesis
      using Cons.IH [OF store(1) _ keys_store [OF Cons.prems(3)] _ _ abs] Cons.prems(2,4,7) cnt used
      unfolding store(2) merge by simp
  qed
qed

section \<open>The map\<close>

definition map_ok :: "'v cmap \<Rightarrow> bool" where
  "map_ok h \<longleftrightarrow> (\<exists>n \<ge> 2. m_cap h = 2 ^ n) \<and> length (m_keys h) = m_cap h \<and> length (m_vals h) = m_cap h \<and>
     m_len h = length (filter slot_used (slots h)) \<and> m_len h \<le> m_cap h div 2 + 1 \<and>
     (\<forall>e \<in> set (slots h). key_ok (fst e)) \<and> cm.raw_ok (slots h)"

definition map_abs :: "'v cmap \<Rightarrow> byte list \<Rightarrow> 'v option" where
  "map_abs h s = map_option snd (cm.raw_map (slots h) s)"

lemma slots_simps:
  assumes "map_ok h"
  shows "map fst (slots h) = m_keys h" "map snd (slots h) = m_vals h" "length (slots h) = m_cap h"
  using assms by (simp_all add: map_ok_def slots_def)

lemma null_key_ok: "key_ok null_key"
  by (simp add: key_ok_def null_key_def)

lemma mapinit_ok:
  assumes "2 \<le> n"
  obtains h where "mapinit junk (2 ^ n) = Some h" "map_ok h" "map_abs h = Map.empty"
proof -
  let ?h = "\<lparr>m_len = 0, m_cap = 2 ^ n, m_keys = replicate (2 ^ n) null_key, m_vals = replicate (2 ^ n) junk\<rparr>"
  have sl: "slots ?h = replicate (2 ^ n) (null_key, junk)" by (simp add: slots_def zip_replicate)
  have un: "\<not> slot_used (null_key, junk)" by (simp add: slot_used_def null_key_def)
  have "cm.raw_ok (slots ?h)" "cm.raw_map (slots ?h) = Map.empty"
    unfolding cm.raw_ok_def fun_eq_iff cm.raw_map_None sl by (auto simp: probe_at_def null_key_def)
  then have "map_ok ?h" "map_abs ?h = Map.empty"
    using assms un null_key_ok unfolding map_ok_def map_abs_def sl by (auto simp: filter_empty_conv)
  then show thesis using that [of ?h] by (simp add: mapinit_def mask_mod)
qed

lemma map_room:
  assumes "map_ok h"
  shows "length (filter slot_used (slots h)) < length (slots h)"
proof -
  obtain n where n: "2 \<le> n" "m_cap h = 2 ^ n" using assms by (auto simp: map_ok_def)
  have "(2 :: nat) ^ 2 \<le> 2 ^ n" using n(1) by (intro power_increasing) auto
  then have "4 \<le> m_cap h" using n(2) by simp
  then show ?thesis using assms slots_simps(3) [OF assms] unfolding map_ok_def by linarith
qed

lemma map_grow_ok:
  assumes ok: "map_ok h"
  obtains h' where "map_grow junk h = Some h'" "map_ok h'" "map_abs h' = map_abs h" "m_len h' \<le> m_cap h' div 2"
proof -
  obtain n where n: "2 \<le> n" "m_cap h = 2 ^ n" using ok by (auto simp: map_ok_def)
  let ?new = "replicate (2 ^ Suc n) (null_key, junk)"
  have un: "\<not> slot_used (null_key, junk)" by (simp add: slot_used_def null_key_def)
  have none: "filter slot_used ?new = []" using un by (simp add: filter_empty_conv)
  have raw: "cm.raw_ok ?new" "cm.raw_map ?new = Map.empty"
    unfolding cm.raw_ok_def fun_eq_iff cm.raw_map_None by (auto simp: probe_at_def null_key_def)
  have le: "length (filter slot_used (slots h)) \<le> 2 ^ n"
    using map_room [OF ok] slots_simps(3) [OF ok] n(2) by simp
  then have lt: "length (filter slot_used (slots h)) < 2 * 2 ^ n"
    by (rule le_less_trans) simp
  have keys: "\<forall>e \<in> set ?new. key_ok (fst e)" by (simp add: null_key_ok)
  obtain new' where new: "map_move (2 ^ Suc n) (slots h) (map fst ?new, map snd ?new) = Some (map fst new', map snd new')"
    "length new' = 2 ^ Suc n" "cm.raw_ok new'" "\<forall>e \<in> set new'. key_ok (fst e)"
    "length (filter slot_used new') = m_len h" "cm.raw_map new' = cm.raw_map (slots h)"
    using map_move_ok [OF raw(1) length_replicate keys, of "slots h"] ok cm.raw_ok_sorted [of "slots h"] lt
    unfolding none raw(2) by (auto simp: map_ok_def)
  let ?h = "h\<lparr>m_cap := 2 ^ Suc n, m_keys := map fst new', m_vals := map snd new'\<rparr>"
  have sl: "slots ?h = new'" by (simp add: slots_def zip_map_fst_snd)
  have "map_grow junk h = Some ?h"
    using new(1) n(2) by (simp add: map_grow_def slots_def Let_def mult.commute)
  moreover have "map_ok ?h" unfolding map_ok_def sl using new le ok n(1)
    by (auto simp: map_ok_def intro: exI [of _ "Suc n"])
  moreover have "map_abs ?h = map_abs h" unfolding map_abs_def sl new(6) by (rule refl)
  moreover have "m_len ?h \<le> m_cap ?h div 2" using le ok by (simp add: map_ok_def)
  ultimately show thesis by (rule that)
qed

lemma map_start:
  assumes "map_ok h"
  obtains h' where "(if m_cap h div 2 < m_len h then map_grow junk h else Some h) = Some h'"
    "map_ok h'" "map_abs h' = map_abs h" "m_len h' \<le> m_cap h' div 2"
proof (cases "m_cap h div 2 < m_len h")
  case True
  then show thesis using map_grow_ok [OF assms, of junk] that by (metis (full_types))
next
  case False
  then show thesis using assms that by simp
qed

text \<open>What \<open>mapput\<close> and the caller's store do, on the slots.\<close>

lemma mapput_ok:
  assumes ok: "map_ok h"
  shows "\<exists>h' i. mapput junk h (mapkey s) = Some (h', i, map_abs h s = None) \<and>
    (\<forall>v. map_ok (h'\<lparr>m_vals := (m_vals h')[i := v]\<rparr>) \<and>
         map_abs (h'\<lparr>m_vals := (m_vals h')[i := v]\<rparr>) = (map_abs h)(s \<mapsto> v))"
proof -
  obtain h1 where h1: "(if m_cap h div 2 < m_len h then map_grow junk h else Some h) = Some h1"
    "map_ok h1" "map_abs h1 = map_abs h" "m_len h1 \<le> m_cap h1 div 2"
    by (rule map_start [OF ok, of junk])
  obtain n where n: "2 \<le> n" "m_cap h1 = 2 ^ n" using h1(2) by (auto simp: map_ok_def)
  have raw: "cm.raw_ok (slots h1)" "length (slots h1) = 2 ^ n" and keys: "\<forall>e \<in> set (slots h1). key_ok (fst e)"
    using h1(2) n(2) slots_simps(3) [OF h1(2)] by (simp_all add: map_ok_def)
  obtain i where i: "keyindex (map fst (slots h1)) (2 ^ n) (mapkey s) = Some i" "i < length (slots h1)"
    "cm.raw_map (slots h1) s = (if slot_used (slots h1 ! i) then Some (slots h1 ! i) else None)"
    "\<forall>v. cm.raw_ok ((slots h1)[i := (mapkey s, v)])"
    "\<forall>v. cm.raw_map ((slots h1)[i := (mapkey s, v)]) = (cm.raw_map (slots h1))(s \<mapsto> (mapkey s, v))"
    by (rule keyindex_spec [OF raw keys map_room [OF h1(2)], of s])
  note i(1,2) [unfolded slots_simps [OF h1(2)], folded n(2)]
  note i = this i(3-5)
  have len: "length (m_keys h1) = m_cap h1" "length (m_vals h1) = m_cap h1" using h1(2) by (simp_all add: map_ok_def)
  have at: "slots h1 ! i = (m_keys h1 ! i, m_vals h1 ! i)" using i(2) len by (simp add: slots_def)
  let ?new = "mk_str (m_keys h1 ! i) = None"
  let ?h = "h1\<lparr>m_keys := (m_keys h1)[i := mapkey s], m_len := m_len h1 + (if ?new then 1 else 0)\<rparr>"
  have same: "(m_keys h1)[i := mapkey s] = m_keys h1" if "\<not> ?new"
  proof -
    have "mk_str (fst (slots h1 ! i)) = Some s"
      using cm.raw_map_SomeD [of "slots h1" s] i(3) that at by (auto simp: slot_used_def)
    moreover have "key_ok (m_keys h1 ! i)" using keys i(2) raw(2) n(2) at by (metis fst_conv nth_mem)
    ultimately show ?thesis using at by (simp add: key_ok_def list_update_same_conv i(2) len)
  qed
  have flag: "?new \<longleftrightarrow> map_abs h s = None"
    unfolding h1(3) [symmetric] using i(3) at by (auto simp: map_abs_def slot_used_def)
  have put: "mapput junk h (mapkey s) = Some (?h, i, map_abs h s = None)"
    unfolding mapput_def h1(1) using i(1) flag same by (auto simp: flag)
  have sl: "slots (?h\<lparr>m_vals := (m_vals ?h)[i := v]\<rparr>) = (slots h1)[i := (mapkey s, v)]" for v
    by (simp add: slots_def update_zip)
  have "map_ok (?h\<lparr>m_vals := (m_vals ?h)[i := v]\<rparr>)" for v
    unfolding map_ok_def sl
    using h1(2,4) i(2,4) used_store [of i "slots h1" s v] keys_store [OF keys] raw(2) n len at
    by (auto simp: map_ok_def slot_used_def)
  moreover have "map_abs (?h\<lparr>m_vals := (m_vals ?h)[i := v]\<rparr>) = (map_abs h)(s \<mapsto> v)" for v
    unfolding h1(3) [symmetric] map_abs_def sl i(5) [rule_format] by (simp add: fun_eq_iff)
  ultimately show ?thesis using put by blast
qed

lemma map_find:
  assumes "map_ok h"
  obtains i where "keyindex (m_keys h) (m_cap h) (mapkey s) = Some i"
    "map_abs h s = (if mk_str (m_keys h ! i) \<noteq> None then Some (m_vals h ! i) else None)"
proof -
  obtain n where n: "m_cap h = 2 ^ n" using assms by (auto simp: map_ok_def)
  have raw: "cm.raw_ok (slots h)" "length (slots h) = 2 ^ n" and keys: "\<forall>e \<in> set (slots h). key_ok (fst e)"
    using assms n slots_simps(3) [OF assms] by (simp_all add: map_ok_def)
  obtain i where i: "keyindex (map fst (slots h)) (2 ^ n) (mapkey s) = Some i" "i < length (slots h)"
    "cm.raw_map (slots h) s = (if slot_used (slots h ! i) then Some (slots h ! i) else None)"
    by (rule keyindex_spec [OF raw keys map_room [OF assms], of s])
  have "slots h ! i = (m_keys h ! i, m_vals h ! i)" using i(2) by (simp add: slots_def)
  then show thesis
    using that [of i] i(1,3) n slots_simps(1) [OF assms] by (simp add: map_abs_def slot_used_def)
qed

definition map_put_eff :: "byte list \<times> 'v \<Rightarrow> (byte list \<Rightarrow> 'v option) \<Rightarrow> byte list \<Rightarrow> 'v option" where
  "map_put_eff kv m = m(fst kv \<mapsto> snd kv)"

definition map_lookup :: "'v cmap \<Rightarrow> byte list \<Rightarrow> 'v option option" where
  "map_lookup h s =
     map_option (\<lambda>i. if mk_str (m_keys h ! i) \<noteq> None then Some (m_vals h ! i) else None)
       (keyindex (m_keys h) (m_cap h) (mapkey s))"

interpretation cmap: map_adt map_ok map_abs "the (mapinit junk 4)" map_lookup "map_set junk" map_put_eff
  for junk :: 'v
proof unfold_locales
  show "map_ok (the (mapinit junk 4))" "map_abs (the (mapinit junk 4)) = Map.empty"
    by (rule mapinit_ok [of 2 junk]; simp)+
next
  fix h :: "'v cmap" and s
  assume ok: "map_ok h"
  obtain i where "keyindex (m_keys h) (m_cap h) (mapkey s) = Some i"
    "map_abs h s = (if mk_str (m_keys h ! i) \<noteq> None then Some (m_vals h ! i) else None)"
    using ok by (rule map_find)
  then show "map_lookup h s = Some (map_abs h s)" by (simp add: map_lookup_def)
next
  fix h :: "'v cmap" and kv
  assume "map_ok h"
  then show "\<exists>h'. map_set junk kv h = Some h' \<and> map_ok h' \<and> map_abs h' = map_put_eff kv (map_abs h)"
    using mapput_ok [of h junk "fst kv"] by (auto simp: map_set_def map_put_eff_def)
qed

lemma mapget_ok:
  assumes "map_ok h"
  shows "\<exists>i. mapget null h (mapkey s) = Some (case map_abs h s of Some v \<Rightarrow> v | None \<Rightarrow> null, i)"
proof -
  obtain i where "keyindex (m_keys h) (m_cap h) (mapkey s) = Some i"
    "map_abs h s = (if mk_str (m_keys h ! i) \<noteq> None then Some (m_vals h ! i) else None)"
    using assms by (rule map_find)
  then show ?thesis by (simp add: mapget_def)
qed

definition slot_keys :: "'v cmap \<Rightarrow> byte list list" where
  "slot_keys h = map (\<lambda>e. the (mk_str (fst e))) (filter slot_used (slots h))"

lemma slot_list:
  assumes "cm.raw_ok es"
  shows "distinct (map (\<lambda>e. the (mk_str (fst e))) (filter slot_used es))"
    and "set (map (\<lambda>e. the (mk_str (fst e))) (filter slot_used es)) = dom (cm.raw_map es)"
    and "map snd (filter slot_used es) =
      map (\<lambda>s. the (map_option snd (cm.raw_map es s))) (map (\<lambda>e. the (mk_str (fst e))) (filter slot_used es))"
proof -
  show "distinct (map (\<lambda>e. the (mk_str (fst e))) (filter slot_used es))"
    using cm.raw_ok_sorted [OF assms] by (induction es) (auto simp: slot_used_def)
  show "set (map (\<lambda>e. the (mk_str (fst e))) (filter slot_used es)) = dom (cm.raw_map es)"
    by (induction es) (auto simp: slot_used_def cm.raw_map_Cons cm.raw_map_def split: if_splits)
  have "snd e = the (map_option snd (cm.raw_map es (the (mk_str (fst e)))))"
    if "e \<in> set (filter slot_used es)" for e
  proof -
    have "e \<in> set es" "slot_used e" using that by simp_all
    then obtain i s where "i < length es" "es ! i = e" "mk_str (fst e) = Some s"
      unfolding in_set_conv_nth slot_used_def by blast
    then show ?thesis using cm.raw_map_Some [OF assms, of i s] by simp
  qed
  then show "map snd (filter slot_used es) =
      map (\<lambda>s. the (map_option snd (cm.raw_map es s))) (map (\<lambda>e. the (mk_str (fst e))) (filter slot_used es))"
    by (simp add: comp_def)
qed

lemma slots_nth: "map_ok h \<Longrightarrow> slots h = map (\<lambda>i. (m_keys h ! i, m_vals h ! i)) [0..<m_cap h]"
  by (rule nth_equalityI) (auto simp: slots_def map_ok_def)

lemma slot_keys_ok:
  assumes "map_ok h"
  shows "distinct (slot_keys h)" "set (slot_keys h) = dom (map_abs h)" "length (slot_keys h) = m_len h"
    "mapfree h = map (\<lambda>s. the (map_abs h s)) (slot_keys h)"
proof -
  have "cm.raw_ok (slots h)" using assms by (simp add: map_ok_def)
  note sl = slot_list [OF this, folded slot_keys_def map_abs_def]
  show "distinct (slot_keys h)" by (fact sl(1))
  show "set (slot_keys h) = dom (map_abs h)" unfolding sl(2) by (simp add: map_abs_def dom_def)
  show "length (slot_keys h) = m_len h" using assms by (simp add: slot_keys_def map_ok_def)
  have "mapfree h = map snd (filter slot_used (slots h))"
    unfolding mapfree_def slots_nth [OF assms] by (simp add: filter_map comp_def slot_used_def)
  then show "mapfree h = map (\<lambda>s. the (map_abs h s)) (slot_keys h)" using sl(3) by (rule trans)
qed

text \<open>
  Property C16 (refinement). From \<open>mapinit\<close> with a power of two from four on, any sequence of
  \<open>mapput\<close> calls, each followed by the caller's store at the index returned, ends, and the map is
  the finite map the calls build: \<open>mapget\<close> returns the value last stored for the text, or the null
  pointer, for every key text whatever its hash; \<open>mapput\<close> says whether the text is new; \<open>len\<close> is the
  number of keys; \<open>mapfree\<close> frees the value of every key exactly once.
\<close>

theorem map_refines:
  assumes "2 \<le> n"
  shows "\<exists>h0 h. mapinit junk (2 ^ n) = Some h0 \<and>
    fold (\<lambda>kv r. Option.bind r (map_set junk kv)) kvs (Some h0) = Some h \<and>
    (let m = fold map_put_eff kvs Map.empty in
       (\<forall>s null. \<exists>i. mapget null h (mapkey s) = Some (case m s of Some v \<Rightarrow> v | None \<Rightarrow> null, i)) \<and>
       (\<forall>s. \<exists>h' i. mapput junk h (mapkey s) = Some (h', i, m s = None)) \<and>
       m_len h = card (dom m) \<and>
       (\<exists>ss. distinct ss \<and> set ss = dom m \<and> mapfree h = map (\<lambda>s. the (m s)) ss))"
proof -
  obtain h0 where h0: "mapinit junk (2 ^ n) = Some h0" "map_ok h0" "map_abs h0 = Map.empty"
    using assms by (rule mapinit_ok)
  obtain h where h: "fold (\<lambda>kv r. Option.bind r (map_set junk kv)) kvs (Some h0) = Some h" "map_ok h"
    "map_abs h = fold map_put_eff kvs Map.empty"
    using cmap.run_refines [OF h0(2), of junk kvs] unfolding h0(3) by blast
  note get = mapget_ok [OF h(2), unfolded h(3)] and keys = slot_keys_ok [OF h(2), unfolded h(3)]
  have put: "\<exists>h' i. mapput junk h (mapkey s) = Some (h', i, fold map_put_eff kvs Map.empty s = None)" for s
    using mapput_ok [OF h(2), of junk s] unfolding h(3) by blast
  have card: "m_len h = card (dom (fold map_put_eff kvs Map.empty))"
    using distinct_card [OF keys(1)] keys(2,3) by simp
  show ?thesis
    unfolding Let_def using h0(1) h(1) get put card keys(1,2,4) by blast
qed

theorem map_refines_witness:
  "\<exists>h0 h i. mapinit 0 (2 ^ 2) = Some h0 \<and>
    fold (\<lambda>kv r. Option.bind r (map_set 0 kv)) [([97], 1), ([98], 2), ([97], 3)] (Some h0) = Some h \<and>
    mapget (7 :: nat) h (mapkey [97]) = Some (3, i) \<and> m_len h = 2"
proof -
  let ?kvs = "[([97], 1), ([98], 2), ([97], 3)] :: (byte list \<times> nat) list"
  let ?m = "fold map_put_eff ?kvs Map.empty"
  have m: "?m = [[97] \<mapsto> 3, [98] \<mapsto> 2]" by (simp add: map_put_eff_def fun_eq_iff)
  have "dom ?m = {[97], [98]}" unfolding m by auto
  then have "card (dom ?m) = 2" by simp
  then show ?thesis
    using map_refines [of 2 0 ?kvs] unfolding Let_def m by (auto dest: spec [of _ "[97]"])
qed

end
