(* ===== verification/Cc_Tree.thy ===== *)
theory Cc_Tree
  imports Aruu_Base
begin

text \<open>
  The balanced tree of the C compiler, \<open>cmd/dev/cc/tree.c\<close>, which holds the cases of a switch.

  A node keeps its two children, its height and the flag \<open>new\<close>. The array of slots from the root to
  the place of insertion is the list of nodes passed with the side taken, the deepest first; writing
  through a slot is plugging a tree back into its node. The array has \<open>MAXH\<close> slots, 96 with pointers
  of eight bytes: an insertion that needs more is the error \<open>Path_Overflow\<close>, and a rotation through
  a null child the error \<open>Null_Child\<close>.

  The tree is shown to stay a balanced search tree, with every height correct, and the array of
  slots to suffice for every tree that keys of 64 bits allow.
\<close>

section \<open>Definitions\<close>

datatype treenode =
    Leaf
  | Node (tn_key: u64) (tn_child0: treenode) (tn_child1: treenode) (tn_height: int) (tn_new: bool)

datatype tree_error = Path_Overflow | Null_Child | Bad_Size

definition MAXH :: nat where
  "MAXH = 96"

text \<open>\<open>sizeof(struct treenode)\<close>.\<close>

definition treenode_size :: nat where
  "treenode_size = 32"

definition height :: "treenode \<Rightarrow> int" where
  "height n = (case n of Leaf \<Rightarrow> 0 | Node _ _ _ h _ \<Rightarrow> h)"

fun child :: "treenode \<Rightarrow> bool \<Rightarrow> treenode" where
  "child (Node k l r h b) dir = (if dir then r else l)"
| "child Leaf dir = Leaf"

fun set_child :: "treenode \<Rightarrow> bool \<Rightarrow> treenode \<Rightarrow> treenode" where
  "set_child (Node k l r h b) dir c = (if dir then Node k l c h b else Node k c r h b)"
| "set_child Leaf dir c = Leaf"

fun set_height :: "treenode \<Rightarrow> int \<Rightarrow> treenode" where
  "set_height (Node k l r h b) h' = Node k l r h' b"
| "set_height Leaf h' = Leaf"

fun set_new :: "treenode \<Rightarrow> bool \<Rightarrow> treenode" where
  "set_new (Node k l r h b) b' = Node k l r h b'"
| "set_new Leaf b' = Leaf"

definition rot :: "treenode \<Rightarrow> bool \<Rightarrow> tree_error + treenode \<times> int" where
  "rot x dir =
     (let y = child x dir;
          z = child y (\<not> dir);
          hx = tn_height x;
          hz = height z
      in if y = Leaf then Inl Null_Child
         else if hz > height (child y dir) then
           if z = Leaf then Inl Null_Child
           else
             let x' = set_height (set_child x dir (child z (\<not> dir))) hz;
                 y' = set_height (set_child y (\<not> dir) (child z dir)) hz;
                 z' = set_height (set_child (set_child z (\<not> dir) x') dir y') (hz + 1)
             in Inr (z', height z' - hx)
         else
           let x' = set_height (set_child x dir z) (hz + 1);
               y' = set_height (set_child y (\<not> dir) x') (hz + 2)
           in Inr (y', height y' - hx))"

text \<open>The balanced tree, and what the code returns, zero when the height is unchanged.\<close>

definition balance :: "treenode \<Rightarrow> tree_error + treenode \<times> int" where
  "balance n =
     (let h0 = height (child n False);
          h1 = height (child n True)
      in if (h0 - h1 + 1) mod 2 ^ 32 < 3 then
           let n' = set_height n (if h0 < h1 then h1 + 1 else h0 + 1)
           in Inr (n', tn_height n' - tn_height n)
         else rot n (h0 < h1))"

text \<open>The first loop: the node found, or a null slot, and the nodes passed.\<close>

fun descend :: "u64 \<Rightarrow> treenode \<Rightarrow> (treenode \<times> bool) list \<Rightarrow> treenode \<times> (treenode \<times> bool) list" where
  "descend key Leaf a = (Leaf, a)"
| "descend key (Node k l r h b) a =
     (if key = k then (Node k l r h b, a)
      else descend key (if key > k then r else l) ((Node k l r h b, key > k) # a))"

definition plug :: "treenode \<Rightarrow> (treenode \<times> bool) list \<Rightarrow> treenode" where
  "plug t a = foldl (\<lambda>t (n, dir). set_child n dir t) t a"

text \<open>The second loop, over the slots above the new node.\<close>

fun unwind :: "treenode \<Rightarrow> (treenode \<times> bool) list \<Rightarrow> tree_error + treenode" where
  "unwind t [] = Inr t"
| "unwind t ((n, dir) # a) =
     (case balance (set_child n dir t) of
        Inl e \<Rightarrow> Inl e
      | Inr (t', d) \<Rightarrow> if d \<noteq> 0 then unwind t' a else Inr (plug t' a))"

text \<open>The new tree and the flag of the node returned.\<close>

definition treeinsert :: "treenode \<Rightarrow> u64 \<Rightarrow> nat \<Rightarrow> tree_error + treenode \<times> bool" where
  "treeinsert root key sz =
     (let (n, a) = descend key root [] in
      if length a + 1 > MAXH then Inl Path_Overflow
      else if n \<noteq> Leaf then Inr (plug (set_new n False) a, False)
      else if \<not> sz > treenode_size then Inl Bad_Size
      else map_sum id (\<lambda>t. (t, True)) (unwind (Node key Leaf Leaf 1 True) a))"

section \<open>Search trees and balance\<close>

fun inorder :: "treenode \<Rightarrow> u64 list" where
  "inorder Leaf = []"
| "inorder (Node k l r h b) = inorder l @ k # inorder r"

fun avl :: "treenode \<Rightarrow> bool" where
  "avl Leaf \<longleftrightarrow> True"
| "avl (Node k l r h b) \<longleftrightarrow> avl l \<and> avl r \<and> h = max (height l) (height r) + 1 \<and> \<bar>height l - height r\<bar> \<le> 1"

definition tree_ok :: "treenode \<Rightarrow> bool" where
  "tree_ok t \<longleftrightarrow> avl t \<and> sorted_wrt (<) (inorder t)"

lemma height_simps [simp]: "height Leaf = 0" "height (Node k l r h b) = h"
  by (simp_all add: height_def)

lemma avl_height: "avl t \<Longrightarrow> 0 \<le> height t \<and> (height t = 0 \<longleftrightarrow> t = Leaf)"
  by (induction t) auto

text \<open>The test on unsigned numbers asks whether the heights differ by at most one.\<close>

lemma balance_test:
  assumes "\<bar>d\<bar> \<le> 2"
  shows "(d + 1) mod 2 ^ 32 < (3 :: int) \<longleftrightarrow> \<bar>d\<bar> \<le> 1"
proof -
  have "d = -2 \<or> d = -1 \<or> d = 0 \<or> d = 1 \<or> d = 2" using assms by linarith
  then show ?thesis by auto
qed

text \<open>The two rotations on either side, for a child that is two higher than its sibling.\<close>

lemma rot_single:
  assumes "avl a" "avl z" "avl d" "height d = height a + 1" "height z = height a \<or> height z = height a + 1"
  shows "\<exists>t. rot (Node k a (Node ky z d hy yb) (height a + 2) b) True = Inr (t, height z - height a) \<and>
      avl t \<and> height t = height z + 2 \<and> inorder t = inorder a @ k # inorder z @ ky # inorder d"
    and "\<exists>t. rot (Node k (Node ky d z hy yb) a (height a + 2) b) False = Inr (t, height z - height a) \<and>
      avl t \<and> height t = height z + 2 \<and> inorder t = inorder d @ ky # inorder z @ k # inorder a"
  using assms by (auto simp: rot_def Let_def)

lemma rot_double:
  assumes "avl a" "avl (Node kz zl zr hz zb)" "avl d" "height d = height a" "hz = height a + 1"
  shows "\<exists>t. rot (Node k a (Node ky (Node kz zl zr hz zb) d hy yb) (height a + 2) b) True = Inr (t, 0) \<and>
      avl t \<and> height t = height a + 2 \<and>
      inorder t = inorder a @ k # inorder zl @ kz # inorder zr @ ky # inorder d"
    and "\<exists>t. rot (Node k (Node ky d (Node kz zl zr hz zb) hy yb) a (height a + 2) b) False = Inr (t, 0) \<and>
      avl t \<and> height t = height a + 2 \<and>
      inorder t = inorder d @ ky # inorder zl @ kz # inorder zr @ k # inorder a"
proof -
  have z: "max (height zl) (height zr) = height a" "\<bar>height zl - height zr\<bar> \<le> 1"
    using assms(2,5) by simp_all
  then have c: "height zl = height a \<and> height zr = height a \<or> height zl = height a \<and> height zr = height a - 1 \<or>
      height zl = height a - 1 \<and> height zr = height a" by linarith
  show "\<exists>t. rot (Node k a (Node ky (Node kz zl zr hz zb) d hy yb) (height a + 2) b) True = Inr (t, 0) \<and>
      avl t \<and> height t = height a + 2 \<and>
      inorder t = inorder a @ k # inorder zl @ kz # inorder zr @ ky # inorder d"
    using c assms by (elim disjE) (simp_all add: rot_def Let_def)
  show "\<exists>t. rot (Node k (Node ky d (Node kz zl zr hz zb) hy yb) a (height a + 2) b) False = Inr (t, 0) \<and>
      avl t \<and> height t = height a + 2 \<and>
      inorder t = inorder d @ ky # inorder zl @ kz # inorder zr @ k # inorder a"
    using c assms by (elim disjE) (simp_all add: rot_def Let_def)
qed

text \<open>The children of a node that is two higher than another tree.\<close>

lemma avl_children:
  assumes "avl (Node k l r h b)" "h = H + 2"
  shows "height l = H + 1 \<and> height r = H + 1 \<or> height l = H \<and> height r = H + 1 \<or>
    height l = H + 1 \<and> height r = H"
  using assms unfolding avl.simps by linarith

lemma avl_node:
  assumes "avl t" "0 < height t"
  obtains k l r h b where "t = Node k l r h b"
  using assms by (cases t) auto

text \<open>Balancing a node one of whose children has grown.\<close>

lemma balance_right:
  assumes ok: "avl l" "avl r" and hr: "height r = height l + 2"
  shows "\<exists>t d. balance (Node k l r (height l + 2) b) = Inr (t, d) \<and> avl t \<and> (d = 0 \<or> d = 1) \<and>
    height t = height l + 2 + d \<and> inorder t = inorder l @ k # inorder r"
proof -
  have bal: "balance (Node k l r (height l + 2) b) = rot (Node k l r (height l + 2) b) True"
    using hr by (simp add: balance_def Let_def)
  have "0 < height r" using hr avl_height [OF ok(1)] by linarith
  then obtain ky yl yr hy yb where y: "r = Node ky yl yr hy yb" using avl_node [OF ok(2)] by metis
  then have hy: "hy = height l + 2" and oky: "avl yl" "avl yr" using hr ok(2) by simp_all
  show ?thesis
  proof (cases "height yr = height l + 1")
    case True
    then have "height yl = height l \<or> height yl = height l + 1"
      using avl_children [OF ok(2) [unfolded y] hy] by linarith
    then show ?thesis
      using rot_single(1) [OF ok(1) oky True, of k ky hy yb b] unfolding bal unfolding y by auto
  next
    case False
    then have h: "height yl = height l + 1" "height yr = height l"
      using avl_children [OF ok(2) [unfolded y] hy] by linarith+
    then have "0 < height yl" using avl_height [OF ok(1)] by linarith
    then obtain kz zl zr hz zb where z: "yl = Node kz zl zr hz zb" using avl_node [OF oky(1)] by metis
    show ?thesis
      using rot_double(1) [OF ok(1) oky(1) [unfolded z] oky(2) h(2), of k ky hy yb b] h(1)
      unfolding bal unfolding y z by auto
  qed
qed

lemma balance_left:
  assumes ok: "avl l" "avl r" and hl: "height l = height r + 2"
  shows "\<exists>t d. balance (Node k l r (height r + 2) b) = Inr (t, d) \<and> avl t \<and> (d = 0 \<or> d = 1) \<and>
    height t = height r + 2 + d \<and> inorder t = inorder l @ k # inorder r"
proof -
  have bal: "balance (Node k l r (height r + 2) b) = rot (Node k l r (height r + 2) b) False"
    using hl by (simp add: balance_def Let_def)
  have "0 < height l" using hl avl_height [OF ok(2)] by linarith
  then obtain ky yl yr hy yb where y: "l = Node ky yl yr hy yb" using avl_node [OF ok(1)] by metis
  then have hy: "hy = height r + 2" and oky: "avl yl" "avl yr" using hl ok(1) by simp_all
  show ?thesis
  proof (cases "height yl = height r + 1")
    case True
    then have "height yr = height r \<or> height yr = height r + 1"
      using avl_children [OF ok(1) [unfolded y] hy] by linarith
    then show ?thesis
      using rot_single(2) [OF ok(2) oky(2,1) True, of k ky hy yb b] unfolding bal unfolding y by auto
  next
    case False
    then have h: "height yr = height r + 1" "height yl = height r"
      using avl_children [OF ok(1) [unfolded y] hy] by linarith+
    then have "0 < height yr" using avl_height [OF ok(2)] by linarith
    then obtain kz zl zr hz zb where z: "yr = Node kz zl zr hz zb" using avl_node [OF oky(2)] by metis
    show ?thesis
      using rot_double(2) [OF ok(2) oky(2) [unfolded z] oky(1) h(2), of k ky hy yb b] h(1)
      unfolding bal unfolding y z by auto
  qed
qed

lemma balance_grown:
  assumes ok: "avl l" "avl r" and h: "h = max hl hr + 1" "\<bar>hl - hr\<bar> \<le> 1"
    and grown: "height l = hl + 1 \<and> height r = hr \<or> height l = hl \<and> height r = hr + 1"
  shows "\<exists>t d. balance (Node k l r h b) = Inr (t, d) \<and> avl t \<and> (d = 0 \<or> d = 1) \<and> height t = h + d \<and>
    inorder t = inorder l @ k # inorder r"
proof (cases "\<bar>height l - height r\<bar> \<le> 1")
  case True
  have "(height l - height r + 1) mod 2 ^ 32 < 3" using balance_test [of "height l - height r"] True by simp
  then have "balance (Node k l r h b) =
      Inr (Node k l r (max (height l) (height r) + 1) b, max (height l) (height r) + 1 - h)"
    by (simp add: balance_def Let_def max_def)
  moreover have "max (height l) (height r) + 1 - h = 0 \<or> max (height l) (height r) + 1 - h = 1"
    using grown h by linarith
  ultimately show ?thesis using True ok by auto
next
  case False
  then consider "height r = height l + 2" "h = height l + 2" | "height l = height r + 2" "h = height r + 2"
    using grown h by linarith
  then show ?thesis using balance_right [OF ok] balance_left [OF ok] by cases simp_all
qed

section \<open>Insertion by recursion\<close>

text \<open>
  The same insertion without the array of slots: the tree and whether its height has changed, or
  \<open>None\<close> where the key is there. The loops are shown to compute it.
\<close>

fun ins :: "u64 \<Rightarrow> treenode \<Rightarrow> tree_error + treenode \<times> bool" where
  "ins key Leaf = Inr (Node key Leaf Leaf 1 True, True)"
| "ins key (Node k l r h b) =
     (case ins key (if key > k then r else l) of
        Inl e \<Rightarrow> Inl e
      | Inr (c, changed) \<Rightarrow>
          let n = set_child (Node k l r h b) (key > k) c in
          if changed then map_sum id (\<lambda>(t, d). (t, d \<noteq> 0)) (balance n) else Inr (n, False))"

lemma plug_Cons [simp]: "plug t ((n, dir) # a) = plug (set_child n dir t) a" "plug t [] = t"
  by (simp_all add: plug_def)

lemma unwind_ins:
  assumes "key \<notin> set (inorder t)"
  shows "\<exists>a'. descend key t a = (Leaf, a') \<and> unwind (Node key Leaf Leaf 1 True) a' =
    (case ins key t of Inl e \<Rightarrow> Inl e
     | Inr (t', changed) \<Rightarrow> if changed then unwind t' a else Inr (plug t' a))"
  using assms
proof (induction t arbitrary: a)
  case (Node k l r h b)
  let ?c = "if key > k then r else l" and ?n = "Node k l r h b"
  have "\<exists>a'. descend key ?c ((?n, key > k) # a) = (Leaf, a') \<and> unwind (Node key Leaf Leaf 1 True) a' =
    (case ins key ?c of Inl e \<Rightarrow> Inl e
     | Inr (t', changed) \<Rightarrow> if changed then unwind t' ((?n, key > k) # a) else Inr (plug t' ((?n, key > k) # a)))"
    using Node.prems Node.IH(1) [of "(?n, key > k) # a"] Node.IH(2) [of "(?n, key > k) # a"]
    by (cases "key > k") simp_all
  moreover have "key \<noteq> k" using Node.prems by simp
  ultimately show ?case
    by (auto simp: Let_def split: sum.splits prod.splits if_splits)
qed simp

lemma descend_length: "avl t \<Longrightarrow> descend key t a = (n, a') \<Longrightarrow> int (length a') \<le> int (length a) + height t"
proof (induction t arbitrary: a)
  case (Node k l r h b)
  then show ?case using avl_height [of l] avl_height [of r]
    by (cases "key = k"; cases "key > k") fastforce+
qed simp

lemma insort_middle:
  fixes key :: u64
  assumes "sorted_wrt (<) (xs @ k # ys)"
  shows "key > k \<Longrightarrow> insort key (xs @ k # ys) = xs @ k # insort key ys"
    and "key < k \<Longrightarrow> insort key (xs @ k # ys) = insort key xs @ k # ys"
  using assms by (induction xs) auto

lemma ins_ok:
  assumes "avl t" "key \<notin> set (inorder t)" "sorted_wrt (<) (inorder t)"
  shows "\<exists>t' changed. ins key t = Inr (t', changed) \<and> avl t' \<and>
    height t' = height t + (if changed then 1 else 0) \<and> inorder t' = insort key (inorder t)"
  using assms
proof (induction t)
  case (Node k l r h b)
  then have ok: "avl l" "avl r" and h: "h = max (height l) (height r) + 1" "\<bar>height l - height r\<bar> \<le> 1" by simp_all
  have srt: "sorted_wrt (<) (inorder l)" "sorted_wrt (<) (inorder r)"
    using Node.prems(3) by (simp_all add: sorted_wrt_append)
  obtain c changed where c: "ins key (if key > k then r else l) = Inr (c, changed)" "avl c"
    "height c = height (if key > k then r else l) + (if changed then 1 else 0)"
    "inorder c = insort key (inorder (if key > k then r else l))"
    using Node.IH Node.prems(1,2) srt by (cases "key > k") auto
  let ?n = "set_child (Node k l r h b) (key > k) c"
  have n: "inorder ?n = insort key (inorder (Node k l r h b))"
    using Node.prems(2,3) c(4) insort_middle [of "inorder l" k "inorder r" key]
    by (cases "key > k") (auto simp: not_less order_le_less)
  show ?case
  proof (cases changed)
    case True
    have "\<exists>t d. balance ?n = Inr (t, d) \<and> avl t \<and> (d = 0 \<or> d = 1) \<and> height t = h + d \<and> inorder t = inorder ?n"
    proof (cases "key > k")
      case gt: True
      then have "height c = height r + 1" using c(3) True by simp
      then show ?thesis using balance_grown [OF ok(1) c(2) h, of k b] gt by auto
    next
      case False
      then have "height c = height l + 1" using c(3) True by simp
      then show ?thesis using balance_grown [OF c(2) ok(2) h, of k b] False by auto
    qed
    then obtain t d where t: "balance ?n = Inr (t, d)" "avl t" "d = 0 \<or> d = 1" "height t = h + d" "inorder t = inorder ?n"
      by blast
    have "ins key (Node k l r h b) = Inr (t, d \<noteq> 0)" unfolding ins.simps c(1) Let_def using True t(1) by simp
    then show ?thesis using t(2-5) n by auto
  next
    case False
    then have "ins key (Node k l r h b) = Inr (?n, False)" unfolding ins.simps c(1) Let_def by simp
    moreover have "avl ?n" "height ?n = h" using c(2,3) ok h False by auto
    ultimately show ?thesis using n by auto
  qed
qed auto

section \<open>The height of a tree\<close>

text \<open>The least and the next number of nodes of a tree of height \<open>n\<close>.\<close>

definition min_nodes :: "nat \<Rightarrow> int \<times> int" where
  "min_nodes n = ((\<lambda>(a, b). (b, a + b + 1)) ^^ n) (0, 1)"

lemma min_nodes_Suc: "min_nodes (Suc n) = (snd (min_nodes n), fst (min_nodes n) + snd (min_nodes n) + 1)"
  by (simp add: min_nodes_def case_prod_beta)

lemma min_nodes_mono: "0 \<le> fst (min_nodes n) \<and> fst (min_nodes n) \<le> snd (min_nodes n)"
  by (induction n) (simp_all add: min_nodes_Suc, simp add: min_nodes_def)

lemma min_nodes_le: "m \<le> n \<Longrightarrow> fst (min_nodes m) \<le> fst (min_nodes n)"
  using lift_Suc_mono_le [of "\<lambda>n. fst (min_nodes n)" m n] min_nodes_mono by (simp add: min_nodes_Suc)

lemma avl_size: "avl t \<Longrightarrow> fst (min_nodes (nat (height t))) \<le> int (length (inorder t))"
proof (induction t)
  case Leaf
  then show ?case by (simp add: min_nodes_def)
next
  case (Node k l r h b)
  have pos: "0 \<le> height l" "0 \<le> height r" using Node.prems avl_height [of l] avl_height [of r] by simp_all
  define n where "n = nat (max (height l) (height r)) - 1"
  have h: "h = max (height l) (height r) + 1" "\<bar>height l - height r\<bar> \<le> 1" using Node.prems by simp_all
  show ?case
  proof (cases "h = 1")
    case True
    then show ?thesis by (simp add: min_nodes_def)
  next
    case False
    then have nh: "nat h = Suc (Suc n)" and lr: "n \<le> nat (height l)" "n \<le> nat (height r)"
      "nat (height l) = Suc n \<or> nat (height r) = Suc n"
      unfolding n_def using h pos by linarith+
    have l: "fst (min_nodes n) \<le> int (length (inorder l))" "fst (min_nodes n) \<le> int (length (inorder r))"
      using min_nodes_le [OF lr(1)] min_nodes_le [OF lr(2)] Node.IH Node.prems by (auto intro: order_trans)
    have "fst (min_nodes (Suc n)) \<le> int (length (inorder l)) \<or> fst (min_nodes (Suc n)) \<le> int (length (inorder r))"
      using lr(3) Node.IH Node.prems by auto
    then show ?thesis using l by (auto simp: nh min_nodes_Suc)
  qed
qed

lemma distinct_keys:
  assumes "distinct (xs :: u64 list)"
  shows "length xs \<le> 2 ^ 64"
proof -
  have "distinct (map unat xs)" using assms by (simp add: distinct_map inj_on_def word_unat_eq_iff)
  moreover have "set (map unat xs) \<subseteq> {..< 2 ^ 64}" using unsigned_less [where ?'a = nat and ?'b = 64] by auto
  ultimately show ?thesis
    using card_mono [of "{..< 2 ^ 64}" "set (map unat xs)"] distinct_card [of "map unat xs"] by simp
qed

lemma min_nodes_92: "fst (min_nodes 92) > 2 ^ 64"
  by (simp add: min_nodes_def) code_simp

lemma tree_height:
  assumes "tree_ok t"
  shows "height t \<le> 91"
proof (rule ccontr)
  assume "\<not> height t \<le> 91"
  then have "fst (min_nodes 92) \<le> fst (min_nodes (nat (height t)))" by (intro min_nodes_le) linarith
  also have "\<dots> \<le> int (length (inorder t))" using assms by (intro avl_size) (simp add: tree_ok_def)
  also have "\<dots> \<le> 2 ^ 64"
  proof -
    have "distinct (inorder t)" using assms by (simp add: tree_ok_def strict_sorted_iff)
    from distinct_keys [OF this] have "int (length (inorder t)) \<le> int (2 ^ 64)" by (rule zle_int [THEN iffD2])
    then show ?thesis by simp
  qed
  finally show False using min_nodes_92 by linarith
qed

section \<open>Insertion\<close>

lemma descend_found:
  assumes "sorted_wrt (<) (inorder t)" "key \<in> set (inorder t)"
  shows "\<exists>n a'. descend key t a = (n, a') \<and> n \<noteq> Leaf \<and>
    (\<exists>t'. plug (set_new n False) a' = plug t' a \<and> inorder t' = inorder t \<and> avl t' = avl t \<and> height t' = height t)"
  using assms
proof (induction t arbitrary: a)
  case (Node k l r h b)
  have srt: "sorted_wrt (<) (inorder l)" "sorted_wrt (<) (inorder r)"
    "\<forall>x \<in> set (inorder l). x < k" "\<forall>x \<in> set (inorder r). k < x"
    using Node.prems(1) by (simp_all add: sorted_wrt_append)
  consider "key = k" | "key > k" "key \<in> set (inorder r)" | "key < k" "key \<in> set (inorder l)"
    using Node.prems(2) srt(3,4) by auto
  then show ?case
  proof cases
    case 1
    then show ?thesis by (auto intro: exI [of _ "Node k l r h False"])
  next
    case 2
    then obtain n a' t' where n: "descend key r ((Node k l r h b, True) # a) = (n, a')" "n \<noteq> Leaf"
      "plug (set_new n False) a' = plug t' ((Node k l r h b, True) # a)" "inorder t' = inorder r" "avl t' = avl r"
      "height t' = height r"
      using Node.IH(2) [OF srt(2)] by blast
    then show ?thesis using 2 by (auto intro!: exI [of _ "Node k l t' h b"])
  next
    case 3
    then obtain n a' t' where n: "descend key l ((Node k l r h b, False) # a) = (n, a')" "n \<noteq> Leaf"
      "plug (set_new n False) a' = plug t' ((Node k l r h b, False) # a)" "inorder t' = inorder l" "avl t' = avl l"
      "height t' = height l"
      using Node.IH(1) [OF srt(1)] by blast
    then show ?thesis using 3 by (auto intro!: exI [of _ "Node k t' r h b"])
  qed
qed simp

lemma path_fits:
  assumes "tree_ok t" "descend key t [] = (n, a)"
  shows "\<not> length a + 1 > MAXH"
  using descend_length [of t key "[]" n a] tree_height [OF assms(1)] assms by (simp add: tree_ok_def MAXH_def)

lemma treeinsert_ok:
  assumes ok: "tree_ok t" and sz: "treenode_size < sz"
  shows "\<exists>t'. treeinsert t key sz = Inr (t', key \<notin> set (inorder t)) \<and> tree_ok t' \<and>
    inorder t' = (if key \<in> set (inorder t) then inorder t else insort key (inorder t))"
proof (cases "key \<in> set (inorder t)")
  case True
  obtain n a t' where n: "descend key t [] = (n, a)" "n \<noteq> Leaf" "plug (set_new n False) a = plug t' []"
    "inorder t' = inorder t" "avl t' = avl t"
    using descend_found [of t key "[]"] ok True by (auto simp: tree_ok_def)
  have "treeinsert t key sz = Inr (t', False)"
    using path_fits [OF ok n(1)] n(1,2,3) by (simp add: treeinsert_def Let_def)
  then show ?thesis using n(4,5) ok True by (auto simp: tree_ok_def)
next
  case False
  obtain t' changed where t': "ins key t = Inr (t', changed)" "avl t'" "inorder t' = insort key (inorder t)"
    using ins_ok [of t key] ok False by (auto simp: tree_ok_def)
  obtain a where a: "descend key t [] = (Leaf, a)" "unwind (Node key Leaf Leaf 1 True) a = Inr t'"
    using unwind_ins [OF False, of "[]"] t'(1) by auto
  have "treeinsert t key sz = Inr (t', True)"
    using path_fits [OF ok a(1)] a sz by (simp add: treeinsert_def Let_def)
  moreover have "sorted_wrt (<) (insort key (inorder t))"
    using ok False by (simp add: tree_ok_def strict_sorted_iff distinct_insort sorted_insort)
  ultimately show ?thesis using t' False by (auto simp: tree_ok_def)
qed

definition treeinserts :: "nat \<Rightarrow> u64 list \<Rightarrow> tree_error + treenode" where
  "treeinserts sz ks =
     fold (\<lambda>k r. case r of Inl e \<Rightarrow> Inl e | Inr t \<Rightarrow> map_sum id fst (treeinsert t k sz)) ks (Inr Leaf)"

lemma treeinserts_ok:
  assumes sz: "treenode_size < sz" and "tree_ok t"
  shows "\<exists>t'. fold (\<lambda>k r. case r of Inl e \<Rightarrow> Inl e | Inr t \<Rightarrow> map_sum id fst (treeinsert t k sz)) ks (Inr t) = Inr t' \<and>
    tree_ok t' \<and> set (inorder t') = set (inorder t) \<union> set ks"
  using assms(2)
proof (induction ks arbitrary: t)
  case (Cons k ks)
  obtain t1 where "treeinsert t k sz = Inr (t1, k \<notin> set (inorder t))" "tree_ok t1"
    "set (inorder t1) = insert k (set (inorder t))"
    using treeinsert_ok [OF Cons.prems sz, of k] by (auto simp: set_insort_key insert_absorb split: if_splits)
  then show ?case using Cons.IH [of t1] by auto
qed simp

text \<open>
  Property C7 (invariant). Any sequence of \<open>treeinsert\<close> calls from the empty tree returns: no
  rotation goes through a null child, and the array of \<open>MAXH\<close> slots is never exceeded, whatever the
  number of keys of 64 bits. The tree then holds exactly the keys inserted, in order; every node has
  its right height and children that differ by at most one; the height is at most 91; and a further
  call says whether its key is new.
\<close>

theorem treeinserts_balanced:
  assumes "treenode_size < sz"
  shows "\<exists>t. treeinserts sz ks = Inr t \<and> avl t \<and> inorder t = sorted_list_of_set (set ks) \<and> height t \<le> 91 \<and>
    (\<forall>key. \<exists>t'. treeinsert t key sz = Inr (t', key \<notin> set ks))"
proof -
  have "tree_ok Leaf" by (simp add: tree_ok_def)
  then obtain t where t: "treeinserts sz ks = Inr t" "tree_ok t" "set (inorder t) = set ks"
    using treeinserts_ok [OF assms, of Leaf ks] by (auto simp: treeinserts_def)
  have "inorder t = sorted_list_of_set (set ks)"
    using t(2) sorted_list_of_set.idem_if_sorted_distinct [of "inorder t"]
    unfolding t(3) by (simp add: tree_ok_def strict_sorted_iff)
  then show ?thesis
    using t treeinsert_ok [OF t(2) assms] tree_height [OF t(2)] by (auto simp: tree_ok_def)
qed

theorem treeinserts_balanced_witness:
  "\<exists>t. treeinserts 48 [3, 1, 2, 3] = Inr t \<and> avl t \<and> inorder t = [1, 2, 3]"
proof -
  have "sorted_list_of_set (set [3, 1, 2, 3]) = ([1, 2, 3] :: u64 list)" by code_simp
  then show ?thesis using treeinserts_balanced [of 48 "[3, 1, 2, 3]"] by (auto simp: treenode_size_def)
qed

end
