(* ===== verification/Ld_Reloc.thy ===== *)
theory Ld_Reloc
  imports Aruu_Base
begin

text \<open>
  The relocation handlers of the static linker, \<open>cmd/dev/ld/arch/*/reloc_*.c\<close>, and their selection
  in \<open>cmd/dev/ld/arch.c\<close>.

  A handler patches bytes of a section. The section is a list of bytes and the pointer \<open>dst\<close> an offset
  into it; an access outside the section is the error \<open>Bad_Access\<close>, and the exits of \<open>die\<close> and
  \<open>die_reloc\<close> are errors with their text. The linker runs with 64-bit longs, little-endian. A shift to
  the right of a \<open>long\<close> is arithmetic, one of an \<open>unsigned long\<close> is not.

  The types of relocations are the numbers of the ELF processor supplements.
\<close>

unbundle bit_operations_syntax

section \<open>Memory of a section\<close>

datatype ld_error = Die string | Die_Reloc string u64 | Die_Undef string | Die_Dup string | Bad_Access

definition le_bytes :: "nat \<Rightarrow> u64 \<Rightarrow> byte list" where
  "le_bytes n v = map (\<lambda>i. ucast (drop_bit (8 * i) v)) [0..<n]"

definition le_val :: "byte list \<Rightarrow> u64" where
  "le_val bs = foldr (\<lambda>b v. ucast b OR push_bit 8 v) bs 0"

text \<open>The unsigned integer of \<open>n\<close> bytes at an offset.\<close>

definition ld_word :: "nat \<Rightarrow> byte list \<Rightarrow> nat \<Rightarrow> u64" where
  "ld_word n mem dst = le_val (take n (drop dst mem))"

text \<open>Reading and storing such an integer; the store keeps the low \<open>n\<close> bytes of the value.\<close>

definition ld_modify :: "nat \<Rightarrow> (u64 \<Rightarrow> u64) \<Rightarrow> byte list \<Rightarrow> nat \<Rightarrow> ld_error + byte list" where
  "ld_modify n f mem dst =
     (if dst + n \<le> length mem then Inr (buf_write mem dst (le_bytes n (f (ld_word n mem dst))))
      else Inl Bad_Access)"

record ld_reloc =
  r_type :: nat
  r_val :: u64
  r_dst :: nat
  r_addr :: u64
  r_got :: "(int \<times> int) list"
  r_got_vaddr :: u64
  r_sym_idx :: int
  r_obj_idx :: int
  r_addend :: u64

section \<open>x86-64\<close>

abbreviation (input) R_X86_64_NONE :: nat where "R_X86_64_NONE \<equiv> 0"
abbreviation (input) R_X86_64_64 :: nat where "R_X86_64_64 \<equiv> 1"
abbreviation (input) R_X86_64_PC32 :: nat where "R_X86_64_PC32 \<equiv> 2"
abbreviation (input) R_X86_64_PLT32 :: nat where "R_X86_64_PLT32 \<equiv> 4"
abbreviation (input) R_X86_64_GOTPCREL :: nat where "R_X86_64_GOTPCREL \<equiv> 9"
abbreviation (input) R_X86_64_32 :: nat where "R_X86_64_32 \<equiv> 10"
abbreviation (input) R_X86_64_32S :: nat where "R_X86_64_32S \<equiv> 11"
abbreviation (input) R_X86_64_16 :: nat where "R_X86_64_16 \<equiv> 12"
abbreviation (input) R_X86_64_GOTTPOFF :: nat where "R_X86_64_GOTTPOFF \<equiv> 22"
abbreviation (input) R_X86_64_TPOFF32 :: nat where "R_X86_64_TPOFF32 \<equiv> 23"
abbreviation (input) R_X86_64_PC64 :: nat where "R_X86_64_PC64 \<equiv> 24"
abbreviation (input) R_X86_64_GOTPCRELX :: nat where "R_X86_64_GOTPCRELX \<equiv> 41"
abbreviation (input) R_X86_64_REX_GOTPCRELX :: nat where "R_X86_64_REX_GOTPCRELX \<equiv> 42"

definition ld_x64_reloc_name :: "nat \<Rightarrow> string" where
  "ld_x64_reloc_name type =
     (if type = R_X86_64_16 then ''R_X86_64_16''
      else if type = R_X86_64_32 then ''R_X86_64_32''
      else if type = R_X86_64_32S then ''R_X86_64_32S''
      else if type = R_X86_64_PC32 then ''R_X86_64_PC32''
      else if type = R_X86_64_PLT32 then ''R_X86_64_PLT32''
      else if type = R_X86_64_GOTPCREL then ''R_X86_64_GOTPCREL''
      else if type = R_X86_64_REX_GOTPCRELX then ''R_X86_64_REX_GOTPCRELX''
      else if type = R_X86_64_GOTPCRELX then ''R_X86_64_GOTPCRELX''
      else if type = R_X86_64_GOTTPOFF then ''R_X86_64_GOTTPOFF''
      else if type = R_X86_64_TPOFF32 then ''R_X86_64_TPOFF32''
      else ''R_X86_64_UNKNOWN'')"

text \<open>The three checks: the error they exit with, if any.\<close>

definition ld_x64_check_s16_or_u16 :: "ld_reloc \<Rightarrow> u64 \<Rightarrow> ld_error option" where
  "ld_x64_check_s16_or_u16 r v =
     (if v > 0xffff \<and> v < 0xffffffffffffffff - 0x7fff then Some (Die_Reloc (ld_x64_reloc_name (r_type r)) v) else None)"

definition ld_x64_check_s32 :: "ld_reloc \<Rightarrow> u64 \<Rightarrow> ld_error option" where
  "ld_x64_check_s32 r v =
     (if v > 0x7fffffff \<and> v < 0xffffffffffffffff - 0x7fffffff
      then Some (Die_Reloc (ld_x64_reloc_name (r_type r)) v) else None)"

definition ld_x64_check_u32 :: "ld_reloc \<Rightarrow> u64 \<Rightarrow> ld_error option" where
  "ld_x64_check_u32 r v =
     (if v > 0xffffffff then Some (Die_Reloc (ld_x64_reloc_name (r_type r)) v) else None)"

definition ld_x64_write_field :: "byte list \<Rightarrow> nat \<Rightarrow> u64 \<Rightarrow> nat \<Rightarrow> ld_error + byte list" where
  "ld_x64_write_field mem dst v n = ld_modify n (\<lambda>_. v) mem dst"

definition checked :: "ld_error option \<Rightarrow> ld_error + byte list \<Rightarrow> ld_error + byte list" where
  "checked e m = (case e of Some e \<Rightarrow> Inl e | None \<Rightarrow> m)"

text \<open>The loop over the entries of the global offset table.\<close>

fun got_find :: "(int \<times> int) list \<Rightarrow> int \<Rightarrow> int \<Rightarrow> nat" where
  "got_find [] s b = 0"
| "got_find (e # got) s b = (if e = (s, b) then 0 else Suc (got_find got s b))"

definition ld_x64_is_got_rel :: "nat \<Rightarrow> bool" where
  "ld_x64_is_got_rel type \<longleftrightarrow> type = R_X86_64_GOTPCREL \<or> type = R_X86_64_REX_GOTPCRELX \<or>
     type = R_X86_64_GOTPCRELX \<or> type = R_X86_64_GOTTPOFF"

definition ld_x64_reloc_apply :: "ld_reloc \<Rightarrow> byte list \<Rightarrow> ld_error + byte list" where
  "ld_x64_reloc_apply r mem =
     (if r_type r = R_X86_64_NONE then Inr mem
      else if r_type r = R_X86_64_16 then
        checked (ld_x64_check_s16_or_u16 r (r_val r)) (ld_x64_write_field mem (r_dst r) (r_val r) 2)
      else if r_type r = R_X86_64_32 then
        checked (ld_x64_check_u32 r (r_val r)) (ld_x64_write_field mem (r_dst r) (r_val r) 4)
      else if r_type r = R_X86_64_32S then
        checked (ld_x64_check_s32 r (r_val r)) (ld_x64_write_field mem (r_dst r) (r_val r) 4)
      else if r_type r = R_X86_64_64 then
        ld_modify 8 (\<lambda>d. d + r_val r) mem (r_dst r)
      else if r_type r = R_X86_64_PC64 then
        ld_modify 8 (\<lambda>d. d + (r_val r - r_addr r)) mem (r_dst r)
      else if r_type r = R_X86_64_PC32 \<or> r_type r = R_X86_64_PLT32 then
        (let v = r_val r - r_addr r in
         checked (ld_x64_check_s32 r v) (ld_x64_write_field mem (r_dst r) v 4))
      else if ld_x64_is_got_rel (r_type r) then
        (let g = got_find (r_got r) (r_sym_idx r) (r_obj_idx r) in
         if g = length (r_got r) then Inl (Die ''ld: missing got entry for gotpcrel relocation'')
         else
           let gotaddr = r_got_vaddr r + of_nat g * 8;
               v = gotaddr + r_addend r - r_addr r
           in checked (ld_x64_check_s32 r v) (ld_x64_write_field mem (r_dst r) v 4))
      else if r_type r = R_X86_64_TPOFF32 then
        checked (ld_x64_check_s32 r (r_val r)) (ld_x64_write_field mem (r_dst r) (r_val r) 4)
      else Inl (Die ''ld: unknown x86_64 relocation type''))"

section \<open>i386 and ARM\<close>

abbreviation (input) R_386_NONE :: nat where "R_386_NONE \<equiv> 0"
abbreviation (input) R_386_32 :: nat where "R_386_32 \<equiv> 1"
abbreviation (input) R_386_PC32 :: nat where "R_386_PC32 \<equiv> 2"
abbreviation (input) R_386_PLT32 :: nat where "R_386_PLT32 \<equiv> 4"
abbreviation (input) R_386_16 :: nat where "R_386_16 \<equiv> 20"

definition ld_x86_reloc_apply :: "ld_reloc \<Rightarrow> byte list \<Rightarrow> ld_error + byte list" where
  "ld_x86_reloc_apply r mem =
     (if r_type r = R_386_NONE then Inr mem
      else if r_type r = R_386_16 then ld_modify 2 (\<lambda>d. d + r_val r) mem (r_dst r)
      else if r_type r = R_386_32 then ld_modify 4 (\<lambda>d. d + r_val r) mem (r_dst r)
      else if r_type r = R_386_PC32 \<or> r_type r = R_386_PLT32 then
        ld_modify 4 (\<lambda>d. d + (r_val r - r_addr r)) mem (r_dst r)
      else Inl (Die ''ld: unknown i386 relocation type''))"

definition ld_x86_is_got_rel :: "nat \<Rightarrow> bool" where
  "ld_x86_is_got_rel type = False"

abbreviation (input) R_ARM_NONE :: nat where "R_ARM_NONE \<equiv> 0"
abbreviation (input) R_ARM_PC24 :: nat where "R_ARM_PC24 \<equiv> 1"
abbreviation (input) R_ARM_ABS32 :: nat where "R_ARM_ABS32 \<equiv> 2"
abbreviation (input) R_ARM_REL32 :: nat where "R_ARM_REL32 \<equiv> 3"
abbreviation (input) R_ARM_ABS16 :: nat where "R_ARM_ABS16 \<equiv> 5"
abbreviation (input) R_ARM_PLT32 :: nat where "R_ARM_PLT32 \<equiv> 27"

definition ld_arm_reloc_apply :: "ld_reloc \<Rightarrow> byte list \<Rightarrow> ld_error + byte list" where
  "ld_arm_reloc_apply r mem =
     (if r_type r = R_ARM_NONE then Inr mem
      else if r_type r = R_ARM_ABS16 then ld_modify 2 (\<lambda>d. d + r_val r) mem (r_dst r)
      else if r_type r = R_ARM_ABS32 then ld_modify 4 (\<lambda>d. d + r_val r) mem (r_dst r)
      else if r_type r = R_ARM_REL32 \<or> r_type r = R_ARM_PLT32 then
        ld_modify 4 (\<lambda>d. d + (r_val r - r_addr r)) mem (r_dst r)
      else if r_type r = R_ARM_PC24 then
        ld_modify 8 (\<lambda>d. (d AND 0xff000000) OR
          ((d + drop_bit 2 (r_val r - r_addr r)) AND 0x00ffffff)) mem (r_dst r)
      else Inl (Die ''ld: unknown arm relocation type''))"

definition ld_arm_is_got_rel :: "nat \<Rightarrow> bool" where
  "ld_arm_is_got_rel type = False"

section \<open>RISC-V\<close>

abbreviation (input) R_RISCV_NONE :: nat where "R_RISCV_NONE \<equiv> 0"
abbreviation (input) R_RISCV_32 :: nat where "R_RISCV_32 \<equiv> 1"
abbreviation (input) R_RISCV_64 :: nat where "R_RISCV_64 \<equiv> 2"
abbreviation (input) R_RISCV_BRANCH :: nat where "R_RISCV_BRANCH \<equiv> 16"
abbreviation (input) R_RISCV_JAL :: nat where "R_RISCV_JAL \<equiv> 17"
abbreviation (input) R_RISCV_CALL :: nat where "R_RISCV_CALL \<equiv> 18"
abbreviation (input) R_RISCV_CALL_PLT :: nat where "R_RISCV_CALL_PLT \<equiv> 19"
abbreviation (input) R_RISCV_GOT_HI20 :: nat where "R_RISCV_GOT_HI20 \<equiv> 20"
abbreviation (input) R_RISCV_PCREL_HI20 :: nat where "R_RISCV_PCREL_HI20 \<equiv> 23"
abbreviation (input) R_RISCV_PCREL_LO12_I :: nat where "R_RISCV_PCREL_LO12_I \<equiv> 24"
abbreviation (input) R_RISCV_PCREL_LO12_S :: nat where "R_RISCV_PCREL_LO12_S \<equiv> 25"
abbreviation (input) R_RISCV_HI20 :: nat where "R_RISCV_HI20 \<equiv> 26"
abbreviation (input) R_RISCV_LO12_I :: nat where "R_RISCV_LO12_I \<equiv> 27"
abbreviation (input) R_RISCV_LO12_S :: nat where "R_RISCV_LO12_S \<equiv> 28"
abbreviation (input) R_RISCV_RELAX :: nat where "R_RISCV_RELAX \<equiv> 51"

definition riscv_branch :: "u64 \<Rightarrow> u64 \<Rightarrow> u64" where
  "riscv_branch off insn =
     (insn AND 0x01fff07f) OR push_bit 31 (signed_drop_bit 12 off AND 1) OR
     push_bit 25 (signed_drop_bit 5 off AND 0x3f) OR push_bit 8 (signed_drop_bit 1 off AND 0xf) OR
     push_bit 7 (signed_drop_bit 11 off AND 1)"

definition riscv_jal :: "u64 \<Rightarrow> u64 \<Rightarrow> u64" where
  "riscv_jal off insn =
     (insn AND 0x0000007f) OR push_bit 31 (signed_drop_bit 20 off AND 1) OR
     push_bit 21 (signed_drop_bit 1 off AND 0x3ff) OR push_bit 20 (signed_drop_bit 11 off AND 1) OR
     push_bit 12 (signed_drop_bit 12 off AND 0xff)"

definition riscv_u :: "u64 \<Rightarrow> u64 \<Rightarrow> u64" where
  "riscv_u hi insn = (insn AND 0xfff) OR push_bit 12 (hi AND 0xfffff)"

definition ld_riscv_reloc_apply :: "ld_reloc \<Rightarrow> byte list \<Rightarrow> ld_error + byte list" where
  "ld_riscv_reloc_apply r mem =
     (let off = r_val r - r_addr r;
          hi = signed_drop_bit 12 (off + 0x800)
      in if r_type r = R_RISCV_NONE \<or> r_type r = R_RISCV_RELAX then Inr mem
         else if r_type r = R_RISCV_32 then ld_modify 4 (\<lambda>d. d + r_val r) mem (r_dst r)
         else if r_type r = R_RISCV_64 then ld_modify 8 (\<lambda>d. d + r_val r) mem (r_dst r)
         else if r_type r = R_RISCV_BRANCH then ld_modify 4 (riscv_branch off) mem (r_dst r)
         else if r_type r = R_RISCV_JAL then ld_modify 4 (riscv_jal off) mem (r_dst r)
         else if r_type r = R_RISCV_CALL \<or> r_type r = R_RISCV_CALL_PLT then
           (let lo = off - push_bit 12 hi in
            case ld_modify 4 (riscv_u hi) mem (r_dst r) of
              Inl e \<Rightarrow> Inl e
            | Inr mem \<Rightarrow>
                ld_modify 4 (\<lambda>insn. (insn AND 0xfffff) OR (push_bit 20 lo AND 0xfff00000)) mem (r_dst r + 8))
         else if r_type r = R_RISCV_PCREL_HI20 \<or> r_type r = R_RISCV_GOT_HI20 then
           ld_modify 4 (riscv_u hi) mem (r_dst r)
         else if r_type r = R_RISCV_PCREL_LO12_I then
           ld_modify 4 (\<lambda>insn. (insn AND 0xfffff) OR push_bit 20 (off AND 0xfff)) mem (r_dst r)
         else if r_type r = R_RISCV_PCREL_LO12_S then
           ld_modify 4 (\<lambda>insn. (insn AND 0x01fff07f) OR push_bit 25 (signed_drop_bit 5 off AND 0x7f) OR
             push_bit 7 (off AND 0x1f)) mem (r_dst r)
         else if r_type r = R_RISCV_HI20 then
           ld_modify 4 (riscv_u (drop_bit 12 (r_val r + 0x800))) mem (r_dst r)
         else if r_type r = R_RISCV_LO12_I then
           ld_modify 4 (\<lambda>insn. (insn AND 0xfffff) OR push_bit 20 (r_val r AND 0xfff)) mem (r_dst r)
         else if r_type r = R_RISCV_LO12_S then
           ld_modify 4 (\<lambda>insn. (insn AND 0x01fff07f) OR push_bit 25 (drop_bit 5 (r_val r) AND 0x7f) OR
             push_bit 7 (r_val r AND 0x1f)) mem (r_dst r)
         else Inl (Die ''ld: unknown riscv relocation type''))"

definition ld_riscv_is_got_rel :: "nat \<Rightarrow> bool" where
  "ld_riscv_is_got_rel type = False"

section \<open>AArch64\<close>

abbreviation (input) R_AARCH64_NONE :: nat where "R_AARCH64_NONE \<equiv> 0"
abbreviation (input) R_AARCH64_ABS64 :: nat where "R_AARCH64_ABS64 \<equiv> 257"
abbreviation (input) R_AARCH64_ABS32 :: nat where "R_AARCH64_ABS32 \<equiv> 258"
abbreviation (input) R_AARCH64_ABS16 :: nat where "R_AARCH64_ABS16 \<equiv> 259"
abbreviation (input) R_AARCH64_PREL64 :: nat where "R_AARCH64_PREL64 \<equiv> 260"
abbreviation (input) R_AARCH64_PREL32 :: nat where "R_AARCH64_PREL32 \<equiv> 261"
abbreviation (input) R_AARCH64_PREL16 :: nat where "R_AARCH64_PREL16 \<equiv> 262"
abbreviation (input) R_AARCH64_ADR_PREL_PG_HI21 :: nat where "R_AARCH64_ADR_PREL_PG_HI21 \<equiv> 275"
abbreviation (input) R_AARCH64_ADD_ABS_LO12_NC :: nat where "R_AARCH64_ADD_ABS_LO12_NC \<equiv> 277"
abbreviation (input) R_AARCH64_LDST8_ABS_LO12_NC :: nat where "R_AARCH64_LDST8_ABS_LO12_NC \<equiv> 278"
abbreviation (input) R_AARCH64_JUMP26 :: nat where "R_AARCH64_JUMP26 \<equiv> 282"
abbreviation (input) R_AARCH64_CALL26 :: nat where "R_AARCH64_CALL26 \<equiv> 283"
abbreviation (input) R_AARCH64_LDST16_ABS_LO12_NC :: nat where "R_AARCH64_LDST16_ABS_LO12_NC \<equiv> 284"
abbreviation (input) R_AARCH64_LDST32_ABS_LO12_NC :: nat where "R_AARCH64_LDST32_ABS_LO12_NC \<equiv> 285"
abbreviation (input) R_AARCH64_LDST64_ABS_LO12_NC :: nat where "R_AARCH64_LDST64_ABS_LO12_NC \<equiv> 286"

definition aarch64_adrp :: "u64 \<Rightarrow> u64 \<Rightarrow> u64" where
  "aarch64_adrp page insn =
     (insn AND 0x9f00001f) OR push_bit 17 (page AND 0x3000) OR push_bit 5 (signed_drop_bit 14 page AND 0x7fff)"

definition aarch64_imm12 :: "u64 \<Rightarrow> u64 \<Rightarrow> u64" where
  "aarch64_imm12 v insn = (insn AND 0xffc003ff) OR push_bit 10 (v AND 0xfff)"

definition ld_aarch64_reloc_apply :: "ld_reloc \<Rightarrow> byte list \<Rightarrow> ld_error + byte list" where
  "ld_aarch64_reloc_apply r mem =
     (if r_type r = R_AARCH64_NONE then Inr mem
      else if r_type r = R_AARCH64_ABS64 then ld_modify 8 (\<lambda>d. d + r_val r) mem (r_dst r)
      else if r_type r = R_AARCH64_ABS32 then ld_modify 4 (\<lambda>d. d + r_val r) mem (r_dst r)
      else if r_type r = R_AARCH64_ABS16 then ld_modify 2 (\<lambda>d. d + r_val r) mem (r_dst r)
      else if r_type r = R_AARCH64_PREL64 then ld_modify 8 (\<lambda>d. d + (r_val r - r_addr r)) mem (r_dst r)
      else if r_type r = R_AARCH64_PREL32 then ld_modify 4 (\<lambda>d. d + (r_val r - r_addr r)) mem (r_dst r)
      else if r_type r = R_AARCH64_PREL16 then ld_modify 2 (\<lambda>d. d + (r_val r - r_addr r)) mem (r_dst r)
      else if r_type r = R_AARCH64_ADR_PREL_PG_HI21 then
        ld_modify 4 (aarch64_adrp ((r_val r AND NOT 0xfff) - (r_addr r AND NOT 0xfff))) mem (r_dst r)
      else if r_type r = R_AARCH64_LDST8_ABS_LO12_NC \<or> r_type r = R_AARCH64_ADD_ABS_LO12_NC then
        ld_modify 4 (aarch64_imm12 (r_val r)) mem (r_dst r)
      else if r_type r = R_AARCH64_LDST16_ABS_LO12_NC then
        ld_modify 4 (aarch64_imm12 (drop_bit 1 (r_val r))) mem (r_dst r)
      else if r_type r = R_AARCH64_LDST32_ABS_LO12_NC then
        ld_modify 4 (aarch64_imm12 (drop_bit 2 (r_val r))) mem (r_dst r)
      else if r_type r = R_AARCH64_LDST64_ABS_LO12_NC then
        ld_modify 4 (aarch64_imm12 (drop_bit 3 (r_val r))) mem (r_dst r)
      else if r_type r = R_AARCH64_JUMP26 \<or> r_type r = R_AARCH64_CALL26 then
        ld_modify 4 (\<lambda>insn. (insn AND 0xfc000000) OR (drop_bit 2 (r_val r - r_addr r) AND 0x03ffffff)) mem (r_dst r)
      else Inl (Die ''ld: unknown aarch64 relocation type''))"

definition ld_aarch64_is_got_rel :: "nat \<Rightarrow> bool" where
  "ld_aarch64_is_got_rel type = False"

section \<open>Selection of the handlers\<close>

record ld_arch_backend =
  em_machine :: nat
  reloc_apply :: "ld_reloc \<Rightarrow> byte list \<Rightarrow> ld_error + byte list"
  is_got_rel :: "nat \<Rightarrow> bool"

definition ld_arch_x64 :: ld_arch_backend where
  "ld_arch_x64 = \<lparr>em_machine = 62, reloc_apply = ld_x64_reloc_apply, is_got_rel = ld_x64_is_got_rel\<rparr>"

definition ld_arch_x86 :: ld_arch_backend where
  "ld_arch_x86 = \<lparr>em_machine = 3, reloc_apply = ld_x86_reloc_apply, is_got_rel = ld_x86_is_got_rel\<rparr>"

definition ld_arch_arm :: ld_arch_backend where
  "ld_arch_arm = \<lparr>em_machine = 40, reloc_apply = ld_arm_reloc_apply, is_got_rel = ld_arm_is_got_rel\<rparr>"

definition ld_arch_riscv :: ld_arch_backend where
  "ld_arch_riscv = \<lparr>em_machine = 243, reloc_apply = ld_riscv_reloc_apply, is_got_rel = ld_riscv_is_got_rel\<rparr>"

definition ld_arch_aarch64 :: ld_arch_backend where
  "ld_arch_aarch64 = \<lparr>em_machine = 183, reloc_apply = ld_aarch64_reloc_apply, is_got_rel = ld_aarch64_is_got_rel\<rparr>"

definition ld_arch_select :: "nat \<Rightarrow> ld_arch_backend option" where
  "ld_arch_select em =
     (if em = 62 then Some ld_arch_x64
      else if em = 3 then Some ld_arch_x86
      else if em = 40 then Some ld_arch_arm
      else if em = 243 then Some ld_arch_riscv
      else if em = 183 then Some ld_arch_aarch64
      else None)"

section \<open>Fields\<close>

lemma le_bytes_Suc: "le_bytes (Suc n) v = ucast v # le_bytes n (drop_bit 8 v)"
  by (simp add: le_bytes_def upt_conv_Cons map_Suc_upt [symmetric] add.commute del: upt_Suc)

lemma length_le_bytes [simp]: "length (le_bytes n v) = n"
  by (simp add: le_bytes_def)

lemma le_val_bytes: "le_val (le_bytes n v) = take_bit (8 * n) v"
proof (induction n arbitrary: v)
  case (Suc n)
  have "ucast (ucast v :: byte) OR push_bit 8 (take_bit (8 * n) (drop_bit 8 v)) = take_bit (8 + 8 * n) v"
    by (rule bit_word_eqI) (auto simp: bit_simps)
  then show ?case using Suc.IH [of "drop_bit 8 v"] by (simp add: le_bytes_Suc le_val_def)
qed (simp add: le_bytes_def le_val_def)

text \<open>What a store changes: the field, and nothing else.\<close>

definition ld_stored :: "nat \<Rightarrow> u64 \<Rightarrow> byte list \<Rightarrow> byte list \<Rightarrow> nat \<Rightarrow> bool" where
  "ld_stored n v mem mem' dst \<longleftrightarrow> length mem' = length mem \<and> take dst mem' = take dst mem \<and>
     drop (dst + n) mem' = drop (dst + n) mem \<and> ld_word n mem' dst = take_bit (8 * n) v"

lemma ld_modify_stored:
  assumes "dst + n \<le> length mem"
  obtains mem' where "ld_modify n f mem dst = Inr mem'" "ld_stored n (f (ld_word n mem dst)) mem mem' dst"
proof -
  let ?bs = "le_bytes n (f (ld_word n mem dst))"
  have "ld_stored n (f (ld_word n mem dst)) mem (buf_write mem dst ?bs) dst"
    using assms le_val_bytes [of n "f (ld_word n mem dst)"]
    by (simp add: ld_stored_def buf_write_def ld_word_def)
  then show thesis using that assms by (simp add: ld_modify_def)
qed

lemma ld_modify_bad: "length mem < dst + n \<Longrightarrow> ld_modify n f mem dst = Inl Bad_Access"
  by (simp add: ld_modify_def)

section \<open>x86-64: ranges and fields\<close>

text \<open>The integer the processor reads from a field of \<open>n\<close> bytes that it extends by its sign.\<close>

definition sext :: "nat \<Rightarrow> u64 \<Rightarrow> int" where
  "sext n w = signed_take_bit (8 * n - 1) (uint w)"

lemma uint64_bounds:
  fixes v :: u64
  obtains u where "uint v = u" "0 \<le> u" "u < 2 ^ 64"
  using uint_bounded [of v] by simp

lemma sint_cases: "sint (v :: u64) = (if uint v < 2 ^ 63 then uint v else uint v - 2 ^ 64)"
proof -
  obtain u where u: "uint v = u" "0 \<le> u" "u < 2 ^ 64" by (rule uint64_bounds)
  have "sint v = (u + 2 ^ 63) mod 2 ^ 64 - 2 ^ 63"
    using signed_take_bit_eq_take_bit_shift [of 63 "uint v"] u(1) by (simp add: sint_uint take_bit_eq_mod)
  moreover have "(u + 2 ^ 63) mod 2 ^ 64 = u - 2 ^ 63" if "2 ^ 63 \<le> u"
  proof -
    have "(u + 2 ^ 63) mod 2 ^ 64 = (u - 2 ^ 63 + 2 ^ 64) mod 2 ^ 64" by (simp add: add.commute)
    also have "\<dots> = (u - 2 ^ 63) mod 2 ^ 64" by (rule mod_add_self2)
    also have "\<dots> = u - 2 ^ 63" using that u(3) by (intro mod_pos_pos_trivial) simp_all
    finally show ?thesis .
  qed
  ultimately show ?thesis using u by (auto simp: mod_pos_pos_trivial)
qed

lemma s32_range: "\<not> (v > 0x7fffffff \<and> v < 0xffffffffffffffff - 0x7fffffff) \<longleftrightarrow> - (2 ^ 31) \<le> sint v \<and> sint v < 2 ^ 31"
  for v :: u64
proof -
  obtain u where "uint v = u" "0 \<le> u" "u < 2 ^ 64" by (rule uint64_bounds)
  then show ?thesis by (auto simp: sint_cases word_less_def)
qed

lemma s16_or_u16_range:
  "\<not> (v > 0xffff \<and> v < 0xffffffffffffffff - 0x7fff) \<longleftrightarrow> - (2 ^ 15) \<le> sint v \<and> sint v < 0 \<or> uint v < 2 ^ 16"
  for v :: u64
proof -
  obtain u where "uint v = u" "0 \<le> u" "u < 2 ^ 64" by (rule uint64_bounds)
  then show ?thesis by (auto simp: sint_cases word_less_def)
qed

lemma u32_range: "\<not> v > 0xffffffff \<longleftrightarrow> uint v < 2 ^ 32" for v :: u64
  by (auto simp: word_less_def)

lemma sext_field:
  assumes "- (2 ^ 31) \<le> sint v" "sint v < 2 ^ 31"
  shows "sext 4 (take_bit 32 v) = sint v"
proof -
  have "sext 4 (take_bit 32 v) = signed_take_bit 31 (uint v)"
    by (simp add: sext_def unsigned_take_bit_eq signed_take_bit_take_bit)
  also have "\<dots> = signed_take_bit 31 (sint v)" by (simp add: sint_uint)
  also have "\<dots> = sint v" using assms by (simp add: signed_take_bit_int_eq_self)
  finally show ?thesis .
qed

lemma got_find_spec:
  "(got_find got s b = length got) = ((s, b) \<notin> set got)"
  "(s, b) \<in> set got \<Longrightarrow> got ! got_find got s b = (s, b) \<and> (s, b) \<notin> set (take (got_find got s b) got)"
  by (induction got) auto

lemma got_find_first:
  "g < length got \<Longrightarrow> got ! g = (s, b) \<Longrightarrow> (s, b) \<notin> set (take g got) \<Longrightarrow> got_find got s b = g"
proof (induction got arbitrary: g)
  case (Cons e got)
  then show ?case by (cases g) auto
qed simp

text \<open>A checked store of a signed field of four bytes.\<close>

lemma s32_field:
  assumes "r_dst r + 4 \<le> length mem"
  shows "if - (2 ^ 31) \<le> sint v \<and> sint v < 2 ^ 31
    then \<exists>mem'. checked (ld_x64_check_s32 r v) (ld_x64_write_field mem (r_dst r) v 4) = Inr mem' \<and>
      ld_stored 4 v mem mem' (r_dst r) \<and> sext 4 (ld_word 4 mem' (r_dst r)) = sint v
    else checked (ld_x64_check_s32 r v) (ld_x64_write_field mem (r_dst r) v 4) =
      Inl (Die_Reloc (ld_x64_reloc_name (r_type r)) v)"
proof (cases "- (2 ^ 31) \<le> sint v \<and> sint v < 2 ^ 31")
  case True
  then have "ld_x64_check_s32 r v = None" using s32_range [of v] unfolding ld_x64_check_s32_def by metis
  moreover obtain mem' where "ld_modify 4 (\<lambda>_. v) mem (r_dst r) = Inr mem'" "ld_stored 4 v mem mem' (r_dst r)"
    using ld_modify_stored [OF assms, of "\<lambda>_. v"] by blast
  ultimately show ?thesis
    using True sext_field [of v] by (simp add: checked_def ld_x64_write_field_def ld_stored_def)
next
  case False
  then have "ld_x64_check_s32 r v = Some (Die_Reloc (ld_x64_reloc_name (r_type r)) v)"
    using s32_range [of v] unfolding ld_x64_check_s32_def by metis
  then show ?thesis using False by (simp add: checked_def)
qed

text \<open>The value a relocation of a signed field of four bytes has to encode.\<close>

definition x64_s32_value :: "ld_reloc \<Rightarrow> u64 \<Rightarrow> u64 \<Rightarrow> bool" where
  "x64_s32_value r got_entry v \<longleftrightarrow>
     (if r_type r = R_X86_64_PC32 \<or> r_type r = R_X86_64_PLT32 then v + r_addr r = r_val r
      else if ld_x64_is_got_rel (r_type r) then v + r_addr r = got_entry + r_addend r
      else (r_type r = R_X86_64_32S \<or> r_type r = R_X86_64_TPOFF32) \<and> v = r_val r)"

text \<open>
  Property C23 (bounds). The relocations of four signed bytes of x86-64: PC32, PLT32, the four forms
  that go through the global offset table, 32S and TPOFF32. Where \<open>v\<close> is the value the processor
  supplement asks for (the distance of the target, or of the slot of the symbol in the table, from the
  place; or the symbol itself), the handler stores it in the four bytes and changes nothing else, and
  the processor, which extends the field by its sign, gets exactly \<open>v\<close>; it does so if and only if
  \<open>v\<close> lies between \<open>-2^31\<close> and \<open>2^31 - 1\<close>, and reports the value otherwise.
\<close>

theorem x64_s32_relocs:
  assumes "r_dst r + 4 \<le> length mem"
    and "x64_s32_value r (r_got_vaddr r + 8 * of_nat g) v"
    and "ld_x64_is_got_rel (r_type r) \<longrightarrow>
      g < length (r_got r) \<and> r_got r ! g = (r_sym_idx r, r_obj_idx r) \<and>
      (r_sym_idx r, r_obj_idx r) \<notin> set (take g (r_got r))"
  shows "(if - (2 ^ 31) \<le> sint v \<and> sint v < 2 ^ 31
    then \<exists>mem'. ld_x64_reloc_apply r mem = Inr mem' \<and> ld_stored 4 v mem mem' (r_dst r) \<and>
      sext 4 (ld_word 4 mem' (r_dst r)) = sint v
    else ld_x64_reloc_apply r mem = Inl (Die_Reloc (ld_x64_reloc_name (r_type r)) v))"
proof -
  have "ld_x64_reloc_apply r mem = checked (ld_x64_check_s32 r v) (ld_x64_write_field mem (r_dst r) v 4)"
  proof (cases "ld_x64_is_got_rel (r_type r)")
    case True
    then have g: "g < length (r_got r)" "r_got r ! g = (r_sym_idx r, r_obj_idx r)"
      "(r_sym_idx r, r_obj_idx r) \<notin> set (take g (r_got r))" using assms(3) by auto
    then have "got_find (r_got r) (r_sym_idx r) (r_obj_idx r) = g" by (rule got_find_first)
    moreover have "v = r_got_vaddr r + of_nat g * 8 + r_addend r - r_addr r"
      using assms(2) True by (auto simp: x64_s32_value_def ld_x64_is_got_rel_def algebra_simps split: if_splits)
    ultimately show ?thesis using g(1) True by (auto simp: ld_x64_reloc_apply_def ld_x64_is_got_rel_def Let_def)
  next
    case False
    have "v + r_addr r = r_val r \<longleftrightarrow> v = r_val r - r_addr r" by (rule eq_diff_eq [symmetric])
    then show ?thesis using assms(2) False
      by (auto simp: x64_s32_value_def ld_x64_reloc_apply_def Let_def split: if_splits)
  qed
  then show ?thesis using s32_field [OF assms(1), of v] by simp
qed

theorem x64_s32_relocs_witness:
  "\<exists>mem'. ld_x64_reloc_apply \<lparr>r_type = R_X86_64_GOTPCREL, r_val = 0, r_dst = 1, r_addr = 0x401000,
       r_got = [(3, 0), (5, 1)], r_got_vaddr = 0x400000, r_sym_idx = 5, r_obj_idx = 1, r_addend = - 4\<rparr>
       [0xe8, 0, 0, 0, 0, 0x90] = Inr mem' \<and> sext 4 (ld_word 4 mem' 1) = - 0xffc"
proof -
  let ?r = "\<lparr>r_type = R_X86_64_GOTPCREL, r_val = 0, r_dst = 1, r_addr = 0x401000,
       r_got = [(3, 0), (5, 1)], r_got_vaddr = 0x400000, r_sym_idx = 5, r_obj_idx = 1, r_addend = - 4\<rparr>"
  have "x64_s32_value ?r (r_got_vaddr ?r + 8 * of_nat 1) (- 0xffc)"
    by (simp add: x64_s32_value_def ld_x64_is_got_rel_def)
  moreover have "sint (- 0xffc :: u64) = - 0xffc" by simp
  ultimately show ?thesis
    using x64_s32_relocs [of ?r "[0xe8, 0, 0, 0, 0, 0x90]" 1 "- 0xffc"] by auto
qed

section \<open>RISC-V: what the processor reads\<close>

definition riscv_u_imm :: "u64 \<Rightarrow> u64" where
  "riscv_u_imm insn = push_bit 12 (take_bit 20 (drop_bit 12 insn))"

definition riscv_i_imm :: "u64 \<Rightarrow> u64" where
  "riscv_i_imm insn = signed_take_bit 11 (drop_bit 20 insn)"

definition riscv_b_imm :: "u64 \<Rightarrow> u64" where
  "riscv_b_imm insn = signed_take_bit 12
     (push_bit 12 (take_bit 1 (drop_bit 31 insn)) OR push_bit 11 (take_bit 1 (drop_bit 7 insn)) OR
      push_bit 5 (take_bit 6 (drop_bit 25 insn)) OR (drop_bit 7 insn AND 0x1e))"

lemma riscv_masks:
  "(0xfff :: u64) = mask 12" "(0xfffff :: u64) = mask 20" "(0x3f :: u64) = mask 6" "(0xf :: u64) = mask 4"
  "(1 :: u64) = mask 1" "(0x01fff07f :: u64) = push_bit 12 (mask 13) OR mask 7"
  "(0xfff00000 :: u64) = push_bit 20 (mask 12)"
  by (simp_all add: mask_numeral)

lemma bit_push_field: "bit (push_bit k (y AND mask w)) n \<longleftrightarrow> n < 64 \<and> k \<le> n \<and> n < k + w \<and> bit y (n - k)"
  for y :: u64
  using bit_imp_le_length [of y "n - k"] by (auto simp: bit_push_bit_iff bit_and_iff bit_mask_iff)

lemma bit_branch_mask: "bit (0x01fff07f :: u64) n \<longleftrightarrow> n < 7 \<or> 12 \<le> n \<and> n < 25"
  unfolding riscv_masks(6) bit_or_iff bit_mask_iff bit_push_bit_iff by auto

lemma riscv_branch_masks: "riscv_branch off insn =
     (insn AND 0x01fff07f) OR push_bit 31 (signed_drop_bit 12 off AND mask 1) OR
     push_bit 25 (signed_drop_bit 5 off AND mask 6) OR push_bit 8 (signed_drop_bit 1 off AND mask 4) OR
     push_bit 7 (signed_drop_bit 11 off AND mask 1)"
  unfolding riscv_branch_def riscv_masks(3,4,5) ..

lemma riscv_branch_imm:
  assumes "\<not> bit off 0" "signed_take_bit 12 off = off"
  shows "riscv_b_imm (take_bit 32 (riscv_branch off insn)) = off"
    and "take_bit 32 (riscv_branch off insn) AND 0x01fff07f = insn AND 0x01fff07f"
proof -
  have sgn: "bit off n \<longleftrightarrow> bit off (min n 12)" if "n < 64" for n
    using arg_cong [OF assms(2), of "\<lambda>w. bit w n"] that by (simp add: bit_signed_take_bit_iff min.commute)
  have fields: "bit (riscv_branch off insn) 31 \<longleftrightarrow> bit off 12" "bit (riscv_branch off insn) 7 \<longleftrightarrow> bit off 11"
    "bit (riscv_branch off insn) 25 \<longleftrightarrow> bit off 5" "bit (riscv_branch off insn) 26 \<longleftrightarrow> bit off 6"
    "bit (riscv_branch off insn) 27 \<longleftrightarrow> bit off 7" "bit (riscv_branch off insn) 28 \<longleftrightarrow> bit off 8"
    "bit (riscv_branch off insn) 29 \<longleftrightarrow> bit off 9" "bit (riscv_branch off insn) 30 \<longleftrightarrow> bit off 10"
    "bit (riscv_branch off insn) 8 \<longleftrightarrow> bit off (Suc 0)" "bit (riscv_branch off insn) 9 \<longleftrightarrow> bit off 2"
    "bit (riscv_branch off insn) 10 \<longleftrightarrow> bit off 3" "bit (riscv_branch off insn) 11 \<longleftrightarrow> bit off 4"
    by (simp_all add: riscv_branch_def bit_simps) (simp_all add: numeral_eq_Suc)
  show "riscv_b_imm (take_bit 32 (riscv_branch off insn)) = off"
  proof (rule bit_word_eqI)
    fix n assume n: "n < LENGTH(64)"
    have "n = 0 \<or> n = 1 \<or> n = 2 \<or> n = 3 \<or> n = 4 \<or> n = 5 \<or> n = 6 \<or> n = 7 \<or> n = 8 \<or> n = 9 \<or> n = 10 \<or> n = 11 \<or> 12 \<le> n"
      by presburger
    then show "bit (riscv_b_imm (take_bit 32 (riscv_branch off insn))) n \<longleftrightarrow> bit off n"
      using n sgn [of n] assms(1) by (elim disjE; simp add: riscv_b_imm_def bit_simps fields min_def; simp add: bit_iff_odd_drop_bit [symmetric] bit_simps fields)
  qed
  have keep: "bit (riscv_branch off insn) n \<longleftrightarrow> bit insn n" if "n < 7 \<or> 12 \<le> n \<and> n < 25" for n
    using that unfolding riscv_branch_masks bit_or_iff bit_and_iff bit_branch_mask bit_push_field by linarith
  show "take_bit 32 (riscv_branch off insn) AND 0x01fff07f = insn AND 0x01fff07f"
    by (rule bit_word_eqI) (use keep in \<open>auto simp only: bit_and_iff bit_branch_mask bit_take_bit_iff\<close>)
qed

lemma riscv_u_hi: "riscv_u_imm (take_bit 32 (riscv_u hi insn)) = push_bit 12 (take_bit 20 hi)"
  unfolding riscv_u_imm_def riscv_u_def riscv_masks by (rule bit_word_eqI) (auto simp: bit_simps)

lemma riscv_i_lo: "riscv_i_imm (take_bit 32 ((insn AND 0xfffff) OR push_bit 20 (v AND 0xfff))) = signed_take_bit 11 v"
  unfolding riscv_i_imm_def riscv_masks by (rule bit_word_eqI) (auto simp: bit_simps min_def)

lemma riscv_hi_lo: "push_bit 12 (drop_bit 12 (v + 0x800)) + signed_take_bit 11 v = (v :: u64)"
proof -
  have sgn: "signed_take_bit 11 v = take_bit 12 (v + 0x800) - 0x800"
  proof (transfer, goal_cases)
    case (1 k)
    have "take_bit 12 (take_bit 64 k + 0x800) = take_bit 12 (take_bit 12 (take_bit 64 k) + take_bit 12 0x800)"
      by (rule take_bit_add [symmetric])
    also have "\<dots> = take_bit 12 (take_bit 12 k + take_bit 12 0x800)" by simp
    also have "\<dots> = take_bit 12 (k + 0x800)" by (rule take_bit_add)
    finally have "signed_take_bit 11 (take_bit 64 k) = take_bit 12 (k + 0x800) - 0x800"
      by (simp add: signed_take_bit_eq_take_bit_shift)
    then show ?case by simp
  qed
  have "push_bit 12 (drop_bit 12 (v + 0x800)) + take_bit 12 (v + 0x800) = v + 0x800"
    by (rule bits_ident)
  then show ?thesis unfolding sgn add_diff_eq by simp
qed

lemma take_bit_32_add: "take_bit 32 (take_bit 32 a + b) = take_bit 32 (a + b)" for a b :: u64
proof (rule word_uint_eq_iff [THEN iffD2])
  have "take_bit 32 (take_bit 32 (uint a) + uint b) =
      take_bit 32 (take_bit 32 (take_bit 32 (uint a)) + take_bit 32 (uint b))"
    by (rule take_bit_add [symmetric])
  also have "\<dots> = take_bit 32 (take_bit 32 (uint a) + take_bit 32 (uint b))" by simp
  also have "\<dots> = take_bit 32 (uint a + uint b)" by (rule take_bit_add)
  finally show "uint (take_bit 32 (take_bit 32 a + b)) = uint (take_bit 32 (a + b))"
    by (simp add: unsigned_take_bit_eq uint_word_arith_bintrs(1))
qed

lemma riscv_i_lo_shift:
  "riscv_i_imm (take_bit 32 ((insn AND 0xfffff) OR (push_bit 20 v AND 0xfff00000))) = signed_take_bit 11 v"
  unfolding riscv_i_imm_def riscv_masks by (rule bit_word_eqI) (auto simp: bit_simps min_def)

text \<open>The two parts of a displacement.\<close>

lemma riscv_parts:
  fixes off :: u64
  defines "hi \<equiv> signed_drop_bit 12 (off + 0x800)"
  shows "take_bit 32 (push_bit 12 (take_bit 20 hi) + signed_take_bit 11 (off - push_bit 12 hi)) = take_bit 32 off"
proof -
  have "push_bit 12 hi = push_bit 12 (drop_bit 12 (off + 0x800))"
    unfolding hi_def by (rule bit_word_eqI) (auto simp: bit_simps)
  then have lo: "off - push_bit 12 hi = signed_take_bit 11 off" using riscv_hi_lo [of off] by (simp add: algebra_simps)
  have "push_bit 12 (take_bit 20 hi) = take_bit 32 (push_bit 12 hi)"
    by (rule bit_word_eqI) (auto simp: bit_simps)
  then have "take_bit 32 (push_bit 12 (take_bit 20 hi) + signed_take_bit 11 (off - push_bit 12 hi)) =
      take_bit 32 (push_bit 12 hi + signed_take_bit 11 (off - push_bit 12 hi))" by (simp only: take_bit_32_add)
  also have "\<dots> = take_bit 32 (push_bit 12 hi + (off - push_bit 12 hi))" unfolding lo by simp
  finally show ?thesis by simp
qed

lemma signed_take_bit_in_range:
  fixes v :: u64
  assumes "- (2 ^ 12) \<le> sint v" "sint v < 2 ^ 12"
  shows "signed_take_bit 12 v = v"
proof (rule bit_word_eqI)
  fix n assume n: "n < LENGTH(64)"
  have "signed_take_bit 12 (sint v) = sint v" using assms by (rule signed_take_bit_int_eq_self)
  then have "bit (sint v) (min 12 n) \<longleftrightarrow> bit (sint v) n"
    by (metis bit_signed_take_bit_iff min.commute possible_bit_int)
  then show "bit (signed_take_bit 12 v) n \<longleftrightarrow> bit v n"
    using n by (simp add: bit_signed_take_bit_iff bit_sint_iff min_def split: if_splits)
qed

lemma ld_word_below:
  assumes "ld_stored n v mem mem' dst" "d + k \<le> dst"
  shows "ld_word k mem' d = ld_word k mem d"
proof -
  have "take k (drop d (take dst mem')) = take k (drop d (take dst mem))" using assms(1) by (simp add: ld_stored_def)
  then show ?thesis using assms(2) by (simp add: ld_word_def drop_take)
qed

lemma ld_word_above: "ld_stored n v mem mem' dst \<Longrightarrow> dst + n \<le> d \<Longrightarrow> ld_word k mem' d = ld_word k mem d"
  unfolding ld_word_def ld_stored_def by (metis drop_drop le_add_diff_inverse2)

text \<open>
  Property C25 (functional). Displacements on RISC-V. A branch within reach of its encoding is patched so
  that it goes to the symbol, and keeps its opcode, function and registers. For a call the displacement
  is divided into an upper and a lower part that add up to it, the lower part being signed, as the pair
  of instructions needs; the upper part goes into the first instruction, but the lower part goes into
  the word eight bytes behind it, and the second instruction, four bytes behind the first, keeps what it
  had.
\<close>

theorem riscv_displacements:
  assumes "r_dst r + 12 \<le> length mem"
  defines "off \<equiv> r_val r - r_addr r"
  shows "(r_type r = R_RISCV_BRANCH \<and> even (sint off) \<and> - (2 ^ 12) \<le> sint off \<and> sint off < 2 ^ 12 \<longrightarrow>
      (\<exists>mem'. ld_riscv_reloc_apply r mem = Inr mem' \<and> length mem' = length mem \<and>
        r_addr r + riscv_b_imm (ld_word 4 mem' (r_dst r)) = r_val r \<and>
        ld_word 4 mem' (r_dst r) AND 0x01fff07f = ld_word 4 mem (r_dst r) AND 0x01fff07f)) \<and>
    (r_type r = R_RISCV_CALL \<or> r_type r = R_RISCV_CALL_PLT \<longrightarrow>
      (\<exists>mem'. ld_riscv_reloc_apply r mem = Inr mem' \<and> length mem' = length mem \<and>
        take_bit 32 (riscv_u_imm (ld_word 4 mem' (r_dst r)) + riscv_i_imm (ld_word 4 mem' (r_dst r + 8))) = take_bit 32 off \<and>
        ld_word 4 mem' (r_dst r + 4) = ld_word 4 mem (r_dst r + 4)))"
proof (intro conjI impI, goal_cases)
  case 1
  have fit: "r_dst r + 4 \<le> length mem" using assms(1) by simp
  obtain mem' where mem': "ld_modify 4 (riscv_branch off) mem (r_dst r) = Inr mem'"
    "ld_stored 4 (riscv_branch off (ld_word 4 mem (r_dst r))) mem mem' (r_dst r)"
    using ld_modify_stored [OF fit] by blast
  have "\<not> bit off 0" using 1 bit_sint_iff [of off 0] by (simp add: bit_0)
  note imm = riscv_branch_imm [OF this signed_take_bit_in_range, of "ld_word 4 mem (r_dst r)"]
  show ?case using 1 mem' imm by (simp add: ld_riscv_reloc_apply_def off_def [symmetric] Let_def ld_stored_def, simp add: off_def)
next
  case 2
  define hi where "hi = signed_drop_bit 12 (off + 0x800)"
  define f where "f = (\<lambda>insn. (insn AND 0xfffff) OR (push_bit 20 (off - push_bit 12 hi) AND 0xfff00000))"
  have fit: "r_dst r + 4 \<le> length mem" using assms(1) by simp
  obtain mem1 where mem1: "ld_modify 4 (riscv_u hi) mem (r_dst r) = Inr mem1"
    "ld_stored 4 (riscv_u hi (ld_word 4 mem (r_dst r))) mem mem1 (r_dst r)"
    using ld_modify_stored [OF fit] by blast
  have fit': "r_dst r + 8 + 4 \<le> length mem1" using mem1(2) assms(1) by (simp add: ld_stored_def)
  obtain mem2 where mem2: "ld_modify 4 f mem1 (r_dst r + 8) = Inr mem2"
    "ld_stored 4 (f (ld_word 4 mem1 (r_dst r + 8))) mem1 mem2 (r_dst r + 8)"
    using ld_modify_stored [OF fit'] by blast
  have "ld_riscv_reloc_apply r mem = Inr mem2"
    using 2 mem1(1) mem2(1) by (auto simp: ld_riscv_reloc_apply_def off_def [symmetric] hi_def f_def Let_def)
  moreover have "length mem2 = length mem" using mem1(2) mem2(2) by (simp add: ld_stored_def)
  moreover have "riscv_u_imm (ld_word 4 mem2 (r_dst r)) = push_bit 12 (take_bit 20 hi)"
    using ld_word_below [OF mem2(2), of "r_dst r" 4] mem1(2) riscv_u_hi by (simp add: ld_stored_def)
  moreover have "riscv_i_imm (ld_word 4 mem2 (r_dst r + 8)) = signed_take_bit 11 (off - push_bit 12 hi)"
    using mem2(2) riscv_i_lo_shift by (simp add: ld_stored_def f_def)
  moreover have "ld_word 4 mem2 (r_dst r + 4) = ld_word 4 mem (r_dst r + 4)"
    using ld_word_below [OF mem2(2), of "r_dst r + 4" 4] ld_word_above [OF mem1(2), of "r_dst r + 4" 4] by simp
  ultimately show ?case using riscv_parts [of off] by (simp add: hi_def)
qed

theorem riscv_displacements_witness:
  "\<exists>mem'. ld_riscv_reloc_apply \<lparr>r_type = R_RISCV_CALL, r_val = 0x12fff, r_dst = 0, r_addr = 0x1000, r_got = [],
       r_got_vaddr = 0, r_sym_idx = 1, r_obj_idx = 0, r_addend = 0\<rparr> (replicate 12 7) = Inr mem' \<and>
     take_bit 32 (riscv_u_imm (ld_word 4 mem' 0) + riscv_i_imm (ld_word 4 mem' 8)) = 0x11fff \<and>
     ld_word 4 mem' 4 = ld_word 4 (replicate 12 7) 4"
  using riscv_displacements [of "\<lparr>r_type = R_RISCV_CALL, r_val = 0x12fff, r_dst = 0, r_addr = 0x1000, r_got = [],
       r_got_vaddr = 0, r_sym_idx = 1, r_obj_idx = 0, r_addend = 0\<rparr>" "replicate 12 7"]
  by auto

text \<open>The patch of a jump clears the register that the instruction writes, whatever it was.\<close>

lemma riscv_jal_clears_rd: "7 \<le> n \<Longrightarrow> n < 12 \<Longrightarrow> \<not> bit (riscv_jal off insn) n"
proof -
  have m: "(0x0000007f :: u64) = mask 7" by (simp add: mask_numeral)
  show "7 \<le> n \<Longrightarrow> n < 12 \<Longrightarrow> \<not> bit (riscv_jal off insn) n"
    unfolding riscv_jal_def m bit_or_iff bit_and_iff bit_push_bit_iff bit_mask_iff by linarith
qed

end
