(* ===== verification/Ld_Link.thy ===== *)
theory Ld_Link
  imports Ld_Reloc
begin

text \<open>
  Symbols and relocation sections of the static linker, \<open>cmd/dev/ld/ld.c\<close>: the search for a
  definition over all objects, the value of a symbol, the collection of the slots of the global offset
  table, and the loop that applies the relocations.

  An object is its section headers and its symbols, as the code finds them in the file: a relocation
  section carries its entries, every other section its bytes. The address of a section header or of a
  symbol is the pair of the index of the object and the index in it. The relocations of a section change
  its bytes in place.
\<close>

section \<open>Definitions\<close>

record elf_sym =
  st_name :: "byte list"
  st_bind :: nat
  st_type :: nat
  st_shndx :: nat
  st_value :: u64

record elf_rela =
  rel_offset :: nat
  rel_type :: nat
  rel_sym :: nat
  rel_addend :: u64

record elf_shdr =
  sh_type :: nat
  sh_tls :: bool
  sh_info :: nat
  sh_rels :: "elf_rela list"
  sh_data :: "byte list"

record obj =
  o_shdr :: "elf_shdr list"
  o_syms :: "elf_sym list"

record outelf =
  oe_objs :: "obj list"
  oe_secs :: "((nat \<times> nat) \<times> u64) list"
  oe_bss_syms :: "((nat \<times> nat) \<times> u32) list"
  oe_bss_vaddr :: u64
  oe_bss_len :: u32
  oe_got :: "(int \<times> int) list"
  oe_got_vaddr :: u64
  oe_tls_size :: u64

abbreviation (input) STB_LOCAL :: nat where "STB_LOCAL \<equiv> 0"
abbreviation (input) STB_WEAK :: nat where "STB_WEAK \<equiv> 2"
abbreviation (input) STT_NOTYPE :: nat where "STT_NOTYPE \<equiv> 0"
abbreviation (input) STT_OBJECT :: nat where "STT_OBJECT \<equiv> 1"
abbreviation (input) STT_FUNC :: nat where "STT_FUNC \<equiv> 2"
abbreviation (input) STT_SECTION :: nat where "STT_SECTION \<equiv> 3"
abbreviation (input) STT_TLS :: nat where "STT_TLS \<equiv> 6"
abbreviation (input) SHN_UNDEF :: nat where "SHN_UNDEF \<equiv> 0"
abbreviation (input) SHN_COMMON :: nat where "SHN_COMMON \<equiv> 0xfff2"
abbreviation (input) SHT_RELA :: nat where "SHT_RELA \<equiv> 4"

definition MAXGOT :: nat where
  "MAXGOT = 65536"

text \<open>The index of the first symbol that defines the name for other objects.\<close>

fun find_index :: "('a \<Rightarrow> bool) \<Rightarrow> 'a list \<Rightarrow> nat option" where
  "find_index P [] = None"
| "find_index P (x # xs) = (if P x then Some 0 else map_option Suc (find_index P xs))"

definition sym_defines :: "byte list \<Rightarrow> elf_sym \<Rightarrow> bool" where
  "sym_defines name esym \<longleftrightarrow>
     \<not> (st_bind esym = STB_LOCAL \<or> st_shndx esym = SHN_UNDEF) \<and> name = st_name esym"

definition obj_find :: "obj \<Rightarrow> byte list \<Rightarrow> nat option" where
  "obj_find ob name = find_index (sym_defines name) (o_syms ob)"

definition outelf_mapping :: "outelf \<Rightarrow> nat \<times> nat \<Rightarrow> u64 option" where
  "outelf_mapping oe shdr = map_option snd (List.find (\<lambda>s. fst s = shdr) (oe_secs oe))"

text \<open>The loop of \<open>outelf_find\<close>, with the strong and the weak definition found so far.\<close>

fun outelf_find_loop :: "byte list \<Rightarrow> obj list \<Rightarrow> nat \<Rightarrow> (nat \<times> nat) option \<Rightarrow> (nat \<times> nat) option \<Rightarrow>
    ld_error + ((nat \<times> nat) option \<times> (nat \<times> nat) option)" where
  "outelf_find_loop name [] i strong weak = Inr (strong, weak)"
| "outelf_find_loop name (ob # objs) i strong weak =
     (case obj_find ob name of
        None \<Rightarrow> outelf_find_loop name objs (i + 1) strong weak
      | Some s \<Rightarrow>
          if st_bind (o_syms ob ! s) \<noteq> STB_WEAK then
            if strong \<noteq> None then Inl (Die_Dup (map (char_of \<circ> unat) name))
            else outelf_find_loop name objs (i + 1) (Some (i, s)) weak
          else if weak = None then outelf_find_loop name objs (i + 1) strong (Some (i, s))
          else outelf_find_loop name objs (i + 1) strong weak)"

text \<open>The object and the symbol, or \<open>None\<close> where the code returns 1.\<close>

definition outelf_find :: "outelf \<Rightarrow> byte list \<Rightarrow> ld_error + (nat \<times> nat) option" where
  "outelf_find oe name =
     map_sum id (\<lambda>(strong, weak). if strong \<noteq> None then strong else weak)
       (outelf_find_loop name (oe_objs oe) 0 None None)"

definition bss_addr :: "outelf \<Rightarrow> nat \<times> nat \<Rightarrow> u64" where
  "bss_addr oe esym =
     (case List.find (\<lambda>s. fst s = esym) (oe_bss_syms oe) of
        Some s \<Rightarrow> oe_bss_vaddr oe + scast (snd s)
      | None \<Rightarrow> 0)"

definition is_ldsym :: "byte list \<Rightarrow> bool" where
  "is_ldsym name \<longleftrightarrow> name \<in> set (map (map (of_nat \<circ> of_char))
     [''__init_array_start'', ''__init_array_end'', ''__fini_array_start'', ''__fini_array_end'',
      ''__preinit_array_start'', ''__preinit_array_end'', ''__ehdr_start'', ''__executable_start''])"

text \<open>\<open>cs\<close> is the address of the code section, \<open>sec_vaddr[I_CS]\<close>.\<close>

definition ldsym_val :: "u64 \<Rightarrow> outelf \<Rightarrow> byte list \<Rightarrow> u64" where
  "ldsym_val cs oe name =
     (if name \<in> set (map (map (of_nat \<circ> of_char)) [''__ehdr_start'', ''__executable_start'']) then cs
      else oe_bss_vaddr oe + scast (oe_bss_len oe))"

text \<open>The end of \<open>symval\<close>: the address of a definition.\<close>

definition defval :: "outelf \<Rightarrow> nat \<times> nat \<Rightarrow> u64" where
  "defval oe os =
     (case os of (i, s) \<Rightarrow>
       let esym = o_syms (oe_objs oe ! i) ! s;
           s_off = scast (ucast (st_value esym) :: u32)
       in if st_shndx esym = SHN_COMMON then bss_addr oe (i, s)
          else case outelf_mapping oe (i, st_shndx esym) of
            Some vaddr \<Rightarrow>
              if sh_tls (o_shdr (oe_objs oe ! i) ! st_shndx esym) then vaddr + s_off - oe_tls_size oe
              else vaddr + s_off
          | None \<Rightarrow> 0)"

definition symval :: "u64 \<Rightarrow> outelf \<Rightarrow> nat \<times> nat \<Rightarrow> ld_error + u64" where
  "symval cs oe os =
     (let esym = o_syms (oe_objs oe ! fst os) ! snd os; name = st_name esym in
      if st_type esym = STT_SECTION then
        (case outelf_mapping oe (fst os, st_shndx esym) of
           Some vaddr \<Rightarrow>
             Inr (if sh_tls (o_shdr (oe_objs oe ! fst os) ! st_shndx esym) then vaddr - oe_tls_size oe else vaddr)
         | None \<Rightarrow> Inr 0)
      else if st_type esym = STT_NOTYPE \<or> st_type esym = STT_OBJECT \<or> st_type esym = STT_FUNC \<or> st_type esym = STT_TLS then
        (if name \<noteq> [] \<and> (st_shndx esym = SHN_UNDEF \<or> st_bind esym = STB_WEAK) then
           case outelf_find oe name of
             Inl e \<Rightarrow> Inl e
           | Inr (Some os') \<Rightarrow> Inr (defval oe os')
           | Inr None \<Rightarrow>
               if is_ldsym name then Inr (ldsym_val cs oe name)
               else if st_bind esym = STB_WEAK then Inr 0
               else Inl (Die_Undef (map (char_of \<circ> unat) name))
         else Inr (defval oe os))
      else Inr 0)"

definition outelf_addr :: "u64 \<Rightarrow> outelf \<Rightarrow> byte list \<Rightarrow> ld_error + u64" where
  "outelf_addr cs oe name =
     (if is_ldsym name then Inr (ldsym_val cs oe name)
      else case outelf_find oe name of
        Inl e \<Rightarrow> Inl e
      | Inr None \<Rightarrow> Inl (Die_Undef (map (char_of \<circ> unat) name))
      | Inr (Some os) \<Rightarrow> symval cs oe os)"

section \<open>The global offset table and the relocations\<close>

text \<open>The slots one relocation, the relocations of a section and the sections of an object add.\<close>

fun got_add :: "(nat \<Rightarrow> bool) \<Rightarrow> nat \<Rightarrow> elf_rela list \<Rightarrow> (int \<times> int) list \<Rightarrow> ld_error + (int \<times> int) list" where
  "got_add isgot i [] got = Inr got"
| "got_add isgot i (rel # rels) got =
     (if \<not> isgot (rel_type rel) then got_add isgot i rels got
      else if got_find got (int (rel_sym rel)) (int i) = length got then
        if length got \<ge> MAXGOT then Inl (Die ''ld: too many got entries'')
        else got_add isgot i rels (got @ [(int (rel_sym rel), int i)])
      else got_add isgot i rels got)"

fun got_sections :: "(nat \<Rightarrow> bool) \<Rightarrow> nat \<Rightarrow> elf_shdr list \<Rightarrow> (int \<times> int) list \<Rightarrow> ld_error + (int \<times> int) list" where
  "got_sections isgot i [] got = Inr got"
| "got_sections isgot i (rs # shdrs) got =
     (if sh_type rs \<noteq> SHT_RELA then got_sections isgot i shdrs got
      else case got_add isgot i (sh_rels rs) got of
        Inl e \<Rightarrow> Inl e
      | Inr got \<Rightarrow> got_sections isgot i shdrs got)"

fun got_objects :: "(nat \<Rightarrow> bool) \<Rightarrow> nat \<Rightarrow> obj list \<Rightarrow> (int \<times> int) list \<Rightarrow> ld_error + (int \<times> int) list" where
  "got_objects isgot i [] got = Inr got"
| "got_objects isgot i (ob # objs) got =
     (case got_sections isgot i (o_shdr ob) got of
        Inl e \<Rightarrow> Inl e
      | Inr got \<Rightarrow> got_objects isgot (i + 1) objs got)"

text \<open>\<open>None\<close> as the backend is the null pointer \<open>ld_arch\<close>.\<close>

definition outelf_got_prescan :: "ld_arch_backend option \<Rightarrow> outelf \<Rightarrow> ld_error + outelf" where
  "outelf_got_prescan arch oe =
     map_sum id (\<lambda>got. oe\<lparr>oe_got := got\<rparr>)
       (got_objects (\<lambda>t. case arch of None \<Rightarrow> False | Some a \<Rightarrow> is_got_rel a t) 0 (oe_objs oe) (oe_got oe))"

definition mk_reloc :: "outelf \<Rightarrow> nat \<Rightarrow> u64 \<Rightarrow> elf_rela \<Rightarrow> u64 \<Rightarrow> ld_reloc" where
  "mk_reloc oe i vaddr rel sv =
     \<lparr>r_type = rel_type rel, r_val = sv + rel_addend rel, r_dst = rel_offset rel,
      r_addr = vaddr + of_nat (rel_offset rel), r_got = oe_got oe, r_got_vaddr = oe_got_vaddr oe,
      r_sym_idx = int (rel_sym rel), r_obj_idx = int i, r_addend = rel_addend rel\<rparr>"

fun reloc_loop :: "ld_arch_backend \<Rightarrow> u64 \<Rightarrow> outelf \<Rightarrow> nat \<Rightarrow> u64 \<Rightarrow> elf_rela list \<Rightarrow> byte list \<Rightarrow> ld_error + byte list" where
  "reloc_loop arch cs oe i vaddr [] mem = Inr mem"
| "reloc_loop arch cs oe i vaddr (rel # rels) mem =
     (case symval cs oe (i, rel_sym rel) of
        Inl e \<Rightarrow> Inl e
      | Inr sv \<Rightarrow>
          (case reloc_apply arch (mk_reloc oe i vaddr rel sv) mem of
             Inl e \<Rightarrow> Inl e
           | Inr mem \<Rightarrow> reloc_loop arch cs oe i vaddr rels mem))"

text \<open>The bytes of the section the relocations are for, after them.\<close>

definition outelf_reloc_sec :: "ld_arch_backend \<Rightarrow> u64 \<Rightarrow> outelf \<Rightarrow> nat \<Rightarrow> nat \<Rightarrow> ld_error + outelf" where
  "outelf_reloc_sec arch cs oe o_idx s_idx =
     (let ob = oe_objs oe ! o_idx;
          rel_shdr = o_shdr ob ! s_idx;
          other = sh_info rel_shdr
      in case outelf_mapping oe (o_idx, other) of
           None \<Rightarrow> Inr oe
         | Some vaddr \<Rightarrow>
             map_sum id
               (\<lambda>mem. oe\<lparr>oe_objs := (oe_objs oe)[o_idx :=
                  ob\<lparr>o_shdr := (o_shdr ob)[other := (o_shdr ob ! other)\<lparr>sh_data := mem\<rparr>]\<rparr>]\<rparr>)
               (reloc_loop arch cs oe o_idx vaddr (sh_rels rel_shdr) (sh_data (o_shdr ob ! other))))"

fun reloc_sections :: "ld_arch_backend \<Rightarrow> u64 \<Rightarrow> (nat \<times> nat) list \<Rightarrow> outelf \<Rightarrow> ld_error + outelf" where
  "reloc_sections arch cs [] oe = Inr oe"
| "reloc_sections arch cs ((i, j) # ijs) oe =
     (if sh_type (o_shdr (oe_objs oe ! i) ! j) = SHT_RELA then
        case outelf_reloc_sec arch cs oe i j of
          Inl e \<Rightarrow> Inl e
        | Inr oe \<Rightarrow> reloc_sections arch cs ijs oe
      else reloc_sections arch cs ijs oe)"

definition outelf_reloc :: "ld_arch_backend \<Rightarrow> u64 \<Rightarrow> outelf \<Rightarrow> ld_error + outelf" where
  "outelf_reloc arch cs oe =
     reloc_sections arch cs
       (concat (map (\<lambda>i. map (Pair i) [0..<length (o_shdr (oe_objs oe ! i))]) [0..<length (oe_objs oe)])) oe"

section \<open>Definitions of a name\<close>

text \<open>The definitions of a name in the order of the objects, at most one for each, with their binding.\<close>

definition name_defs :: "byte list \<Rightarrow> nat \<Rightarrow> obj list \<Rightarrow> ((nat \<times> nat) \<times> nat) list" where
  "name_defs name i objs = concat (map (\<lambda>(k, ob).
     case obj_find ob name of None \<Rightarrow> [] | Some s \<Rightarrow> [((k, s), st_bind (o_syms ob ! s))]) (enumerate i objs))"

definition strong_defs :: "byte list \<Rightarrow> nat \<Rightarrow> obj list \<Rightarrow> (nat \<times> nat) list" where
  "strong_defs name i objs = map fst (filter (\<lambda>d. snd d \<noteq> STB_WEAK) (name_defs name i objs))"

definition weak_defs :: "byte list \<Rightarrow> nat \<Rightarrow> obj list \<Rightarrow> (nat \<times> nat) list" where
  "weak_defs name i objs = map fst (filter (\<lambda>d. snd d = STB_WEAK) (name_defs name i objs))"

lemma defs_Cons:
  "strong_defs name i (ob # objs) =
     (case obj_find ob name of
        Some s \<Rightarrow> (if st_bind (o_syms ob ! s) \<noteq> STB_WEAK then [(i, s)] else []) @ strong_defs name (Suc i) objs
      | None \<Rightarrow> strong_defs name (Suc i) objs)"
  "weak_defs name i (ob # objs) =
     (case obj_find ob name of
        Some s \<Rightarrow> (if st_bind (o_syms ob ! s) = STB_WEAK then [(i, s)] else []) @ weak_defs name (Suc i) objs
      | None \<Rightarrow> weak_defs name (Suc i) objs)"
  by (simp_all add: strong_defs_def weak_defs_def name_defs_def split: option.split)

lemma outelf_find_loop_spec:
  "outelf_find_loop name objs i strong weak =
     (let ds = (case strong of None \<Rightarrow> [] | Some d \<Rightarrow> [d]) @ strong_defs name i objs;
          ws = (case weak of None \<Rightarrow> [] | Some d \<Rightarrow> [d]) @ weak_defs name i objs
      in if length ds \<le> 1 then Inr (case ds of [] \<Rightarrow> None | d # _ \<Rightarrow> Some d, case ws of [] \<Rightarrow> None | d # _ \<Rightarrow> Some d)
         else Inl (Die_Dup (map (char_of \<circ> unat) name)))"
proof (induction objs arbitrary: i strong weak)
  case Nil
  then show ?case by (simp add: strong_defs_def weak_defs_def name_defs_def split: option.split)
next
  case (Cons ob objs)
  show ?case by (simp add: defs_Cons Cons.IH Let_def split: option.split)
qed

text \<open>
  Property C24 (functional). Which definition a name is bound to. When exactly one object defines the
  name with a binding other than weak, \<open>outelf_find\<close> returns that definition, in whatever order the
  objects come and whatever weak definitions there are; when none does, it returns the weak definition
  of the first object that has one, or says that there is none; when two or more do, the linker exits
  with the name.
\<close>

theorem outelf_find_binding:
  "outelf_find oe name =
     (case strong_defs name 0 (oe_objs oe) of
        [] \<Rightarrow> Inr (case weak_defs name 0 (oe_objs oe) of [] \<Rightarrow> None | d # _ \<Rightarrow> Some d)
      | [d] \<Rightarrow> Inr (Some d)
      | _ \<Rightarrow> Inl (Die_Dup (map (char_of \<circ> unat) name)))"
  by (auto simp: outelf_find_def outelf_find_loop_spec Let_def split: list.split)

section \<open>Every relocation finds its slot\<close>

definition got_needs :: "nat \<Rightarrow> elf_rela list \<Rightarrow> (int \<times> int) set" where
  "got_needs i rels = (\<lambda>rel. (int (rel_sym rel), int i)) ` {rel \<in> set rels. ld_x64_is_got_rel (rel_type rel)}"

definition obj_needs :: "nat \<Rightarrow> elf_shdr list \<Rightarrow> (int \<times> int) set" where
  "obj_needs i shdrs = (\<Union>rs \<in> {rs \<in> set shdrs. sh_type rs = SHT_RELA}. got_needs i (sh_rels rs))"

definition all_needs :: "obj list \<Rightarrow> (int \<times> int) set" where
  "all_needs objs = (\<Union>i < length objs. obj_needs i (o_shdr (objs ! i)))"

definition got_ok :: "(int \<times> int) list \<Rightarrow> bool" where
  "got_ok got \<longleftrightarrow> distinct got \<and> length got \<le> MAXGOT"

lemma got_add_ok:
  "got_add ld_x64_is_got_rel i rels got = Inr got' \<Longrightarrow> got_ok got \<Longrightarrow>
     got_ok got' \<and> set got' = set got \<union> got_needs i rels"
proof (induction rels arbitrary: got)
  case (Cons rel rels)
  then show ?case
    by (auto simp: got_needs_def got_ok_def got_find_spec(1) split: if_splits)
qed (simp add: got_needs_def)

lemma got_sections_ok:
  "got_sections ld_x64_is_got_rel i shdrs got = Inr got' \<Longrightarrow> got_ok got \<Longrightarrow>
     got_ok got' \<and> set got' = set got \<union> obj_needs i shdrs"
proof (induction shdrs arbitrary: got)
  case (Cons rs shdrs)
  then show ?case
    using got_add_ok [of i "sh_rels rs" got] by (fastforce simp: obj_needs_def split: if_splits sum.splits)
qed (simp add: obj_needs_def)

lemma got_objects_ok:
  "got_objects ld_x64_is_got_rel i objs got = Inr got' \<Longrightarrow> got_ok got \<Longrightarrow>
     got_ok got' \<and> set got' = set got \<union> (\<Union>k < length objs. obj_needs (i + k) (o_shdr (objs ! k)))"
proof (induction objs arbitrary: i got)
  case (Cons ob objs)
  obtain got1 where got1: "got_sections ld_x64_is_got_rel i (o_shdr ob) got = Inr got1"
    "got_objects ld_x64_is_got_rel (Suc i) objs got1 = Inr got'"
    using Cons.prems(1) by (auto split: sum.splits)
  note s = got_sections_ok [OF got1(1) Cons.prems(2)]
  note r = Cons.IH [OF got1(2)]
  have "(\<Union>k < length (ob # objs). obj_needs (i + k) (o_shdr ((ob # objs) ! k))) =
      obj_needs i (o_shdr ob) \<union> (\<Union>k < length objs. obj_needs (Suc i + k) (o_shdr (objs ! k)))"
    unfolding length_Cons lessThan_Suc_eq_insert_0 by simp
  then show ?case using s r by auto
qed simp

text \<open>The errors of a relocation whose symbol has a slot.\<close>

lemma checked_not_die: "\<forall>m. e \<noteq> Some (Die m) \<Longrightarrow> w \<noteq> Inl (Die m) \<Longrightarrow> checked e w \<noteq> Inl (Die m)"
  by (auto simp: checked_def split: option.split)

lemma write_not_die: "ld_modify n f mem dst \<noteq> Inl (Die m)" "ld_x64_write_field mem dst v n \<noteq> Inl (Die m)"
  by (simp_all add: ld_modify_def ld_x64_write_field_def)

lemma checks_not_die:
  "ld_x64_check_s32 r v \<noteq> Some (Die m)" "ld_x64_check_u32 r v \<noteq> Some (Die m)"
  "ld_x64_check_s16_or_u16 r v \<noteq> Some (Die m)"
  by (simp_all add: ld_x64_check_s32_def ld_x64_check_u32_def ld_x64_check_s16_or_u16_def)

definition missing_got :: ld_error where
  "missing_got = Die ''ld: missing got entry for gotpcrel relocation''"

lemma x64_apply_has_slot:
  assumes "ld_x64_is_got_rel (r_type r) \<longrightarrow> (r_sym_idx r, r_obj_idx r) \<in> set (r_got r)"
  shows "ld_x64_reloc_apply r mem \<noteq> Inl missing_got"
  unfolding ld_x64_reloc_apply_def missing_got_def Let_def
  using assms by (auto simp: got_find_spec(1) write_not_die checks_not_die checked_not_die)

lemma symval_not_die: "symval cs oe os \<noteq> Inl (Die m)"
proof -
  have "outelf_find oe name \<noteq> Inl (Die m)" for name
    by (auto simp: outelf_find_def outelf_find_loop_spec Let_def)
  then show ?thesis by (auto simp: symval_def Let_def split: option.splits sum.splits)
qed

lemma reloc_loop_has_slots:
  "got_needs i rels \<subseteq> set (oe_got oe) \<Longrightarrow> reloc_loop ld_arch_x64 cs oe i vaddr rels mem \<noteq> Inl missing_got"
proof (induction rels arbitrary: mem)
  case (Cons rel rels)
  have sub: "got_needs i rels \<subseteq> set (oe_got oe)" using Cons.prems by (auto simp: got_needs_def)
  have "reloc_apply ld_arch_x64 (mk_reloc oe i vaddr rel sv) mem \<noteq> Inl missing_got" for sv
    using Cons.prems x64_apply_has_slot [of "mk_reloc oe i vaddr rel sv" mem]
    by (auto simp: ld_arch_x64_def mk_reloc_def got_needs_def)
  then show ?case using Cons.IH [OF sub] symval_not_die by (auto simp: missing_got_def split: sum.splits)
qed simp

lemma obj_needs_data:
  "obj_needs i (shdrs[j := (shdrs ! j)\<lparr>sh_data := mem\<rparr>]) = obj_needs i shdrs"
proof (cases "j < length shdrs")
  case True
  have "map (\<lambda>rs. (sh_type rs, sh_rels rs)) (shdrs[j := (shdrs ! j)\<lparr>sh_data := mem\<rparr>]) =
      map (\<lambda>rs. (sh_type rs, sh_rels rs)) shdrs"
    using True by (simp add: map_update list_update_same_conv)
  then have "set (map (\<lambda>rs. (sh_type rs, sh_rels rs)) (shdrs[j := (shdrs ! j)\<lparr>sh_data := mem\<rparr>])) =
      set (map (\<lambda>rs. (sh_type rs, sh_rels rs)) shdrs)" by (rule arg_cong)
  moreover have "obj_needs i xs = (\<Union>(t, rels) \<in> {p \<in> set (map (\<lambda>rs. (sh_type rs, sh_rels rs)) xs). fst p = SHT_RELA}. got_needs i rels)" for xs
    by (auto simp: obj_needs_def)
  ultimately show ?thesis by simp
qed (simp add: list_update_beyond)

lemma all_needs_data:
  assumes "ob = objs ! i" "o_shdr ob' = (o_shdr ob)[j := (o_shdr ob ! j)\<lparr>sh_data := mem\<rparr>]"
  shows "all_needs (objs[i := ob']) = all_needs objs"
proof -
  have "obj_needs k (o_shdr (objs[i := ob'] ! k)) = obj_needs k (o_shdr (objs ! k))" if "k < length objs" for k
    using that assms obj_needs_data by (cases "k = i") auto
  then show ?thesis by (simp add: all_needs_def)
qed

lemma reloc_sec_ok:
  assumes "all_needs (oe_objs oe) \<subseteq> set (oe_got oe)" "i < length (oe_objs oe)" "j < length (o_shdr (oe_objs oe ! i))"
    "sh_type (o_shdr (oe_objs oe ! i) ! j) = SHT_RELA"
  shows "outelf_reloc_sec arch cs oe i j = Inr oe' \<Longrightarrow>
      all_needs (oe_objs oe') \<subseteq> set (oe_got oe') \<and> map (length \<circ> o_shdr) (oe_objs oe') = map (length \<circ> o_shdr) (oe_objs oe)"
    and "outelf_reloc_sec ld_arch_x64 cs oe i j \<noteq> Inl missing_got"
proof -
  let ?ob = "oe_objs oe ! i"
  have "got_needs i (sh_rels (o_shdr ?ob ! j)) \<subseteq> set (oe_got oe)"
  proof (rule order_trans [OF _ assms(1)])
    have "got_needs i (sh_rels (o_shdr ?ob ! j)) \<subseteq> obj_needs i (o_shdr ?ob)"
      unfolding obj_needs_def using assms(3,4) by (intro UN_upper) simp
    also have "\<dots> \<subseteq> all_needs (oe_objs oe)" unfolding all_needs_def using assms(2) by (intro UN_upper) simp
    finally show "got_needs i (sh_rels (o_shdr ?ob ! j)) \<subseteq> all_needs (oe_objs oe)" .
  qed
  then show "outelf_reloc_sec ld_arch_x64 cs oe i j \<noteq> Inl missing_got"
    using reloc_loop_has_slots [of i "sh_rels (o_shdr ?ob ! j)" oe cs]
    by (auto simp: outelf_reloc_sec_def Let_def map_sum_def split: option.splits sum.splits)
  assume "outelf_reloc_sec arch cs oe i j = Inr oe'"
  then have "oe' = oe \<or> (\<exists>mem. oe' = oe\<lparr>oe_objs := (oe_objs oe)[i :=
      ?ob\<lparr>o_shdr := (o_shdr ?ob)[sh_info (o_shdr ?ob ! j) := (o_shdr ?ob ! sh_info (o_shdr ?ob ! j))\<lparr>sh_data := mem\<rparr>]\<rparr>]\<rparr>)"
    by (auto simp: outelf_reloc_sec_def Let_def map_sum_def split: option.splits sum.splits)
  then show "all_needs (oe_objs oe') \<subseteq> set (oe_got oe') \<and> map (length \<circ> o_shdr) (oe_objs oe') = map (length \<circ> o_shdr) (oe_objs oe)"
  proof (elim disjE exE)
    fix mem
    assume oe': "oe' = oe\<lparr>oe_objs := (oe_objs oe)[i :=
      ?ob\<lparr>o_shdr := (o_shdr ?ob)[sh_info (o_shdr ?ob ! j) := (o_shdr ?ob ! sh_info (o_shdr ?ob ! j))\<lparr>sh_data := mem\<rparr>]\<rparr>]\<rparr>"
    have "all_needs (oe_objs oe') = all_needs (oe_objs oe)"
      unfolding oe' by (simp add: all_needs_data)
    moreover have "map (length \<circ> o_shdr) (oe_objs oe') = map (length \<circ> o_shdr) (oe_objs oe)"
      unfolding oe' using assms(2) by (simp add: map_update list_update_same_conv)
    ultimately show ?thesis using assms(1) by (simp add: oe')
  qed (use assms(1) in simp)
qed

lemma reloc_sections_has_slots:
  assumes "all_needs (oe_objs oe) \<subseteq> set (oe_got oe)"
    "\<forall>(i, j) \<in> set ijs. i < length (oe_objs oe) \<and> j < length (o_shdr (oe_objs oe ! i))"
  shows "reloc_sections ld_arch_x64 cs ijs oe \<noteq> Inl missing_got"
  using assms
proof (induction ijs arbitrary: oe)
  case (Cons ij ijs)
  obtain i j where ij: "ij = (i, j)" by (cases ij)
  have b: "i < length (oe_objs oe)" "j < length (o_shdr (oe_objs oe ! i))" using Cons.prems(2) ij by auto
  show ?case
  proof (cases "sh_type (o_shdr (oe_objs oe ! i) ! j) = SHT_RELA")
    case True
    note sec = reloc_sec_ok [OF Cons.prems(1) b True]
    show ?thesis
    proof (cases "outelf_reloc_sec ld_arch_x64 cs oe i j")
      case (Inl e)
      then show ?thesis using sec(2) True by (auto simp: ij)
    next
      case (Inr oe')
      have m: "map (length \<circ> o_shdr) (oe_objs oe') = map (length \<circ> o_shdr) (oe_objs oe)" using sec(1) [OF Inr] by simp
      then have len: "length (oe_objs oe') = length (oe_objs oe)" by (metis length_map)
      then have "length (o_shdr (oe_objs oe' ! k)) = length (o_shdr (oe_objs oe ! k))" if "k < length (oe_objs oe)" for k
        using arg_cong [OF m, of "\<lambda>xs. xs ! k"] that by simp
      then have "\<forall>(i, j) \<in> set ijs. i < length (oe_objs oe') \<and> j < length (o_shdr (oe_objs oe' ! i))"
        using Cons.prems(2) len by auto
      then show ?thesis using Cons.IH [of oe'] sec(1) [OF Inr] True Inr by (simp add: ij)
    qed
  next
    case False
    then show ?thesis using Cons.IH [OF Cons.prems(1)] Cons.prems(2) by (simp add: ij)
  qed
qed simp

text \<open>
  Property C9 (safety). The global offset table on x86-64. When \<open>outelf_got_prescan\<close> does not run out of
  slots, the table has exactly one slot for each pair of a symbol and its object that some relocation
  reaches through the table, and no more than \<open>MAXGOT\<close>; applying all relocations afterwards never ends
  with the message that a slot is missing.
\<close>

theorem got_slots_complete:
  assumes "outelf_got_prescan (Some ld_arch_x64) oe = Inr oe'" "oe_got oe = []"
  shows "distinct (oe_got oe') \<and> length (oe_got oe') \<le> MAXGOT \<and>
    set (oe_got oe') = {(int (rel_sym rel), int i) | i rs rel. i < length (oe_objs oe) \<and>
      rs \<in> set (o_shdr (oe_objs oe ! i)) \<and> sh_type rs = SHT_RELA \<and> rel \<in> set (sh_rels rs) \<and>
      ld_x64_is_got_rel (rel_type rel)} \<and>
    outelf_reloc ld_arch_x64 cs oe' \<noteq> Inl (Die ''ld: missing got entry for gotpcrel relocation'')"
proof -
  have "(\<lambda>t. case Some ld_arch_x64 of None \<Rightarrow> False | Some a \<Rightarrow> is_got_rel a t) = ld_x64_is_got_rel"
    by (simp add: fun_eq_iff ld_arch_x64_def)
  then obtain got where got: "got_objects ld_x64_is_got_rel 0 (oe_objs oe) [] = Inr got" "oe' = oe\<lparr>oe_got := got\<rparr>"
    using assms unfolding outelf_got_prescan_def by (auto simp: map_sum_def split: sum.splits)
  have ok: "got_ok got" "set got = all_needs (oe_objs oe)"
    using got_objects_ok [OF got(1)] by (simp_all add: got_ok_def all_needs_def)
  have "outelf_reloc ld_arch_x64 cs oe' \<noteq> Inl missing_got"
    unfolding outelf_reloc_def by (rule reloc_sections_has_slots) (use ok(2) got(2) in auto)
  moreover have "all_needs (oe_objs oe) = {(int (rel_sym rel), int i) | i rs rel. i < length (oe_objs oe) \<and>
      rs \<in> set (o_shdr (oe_objs oe ! i)) \<and> sh_type rs = SHT_RELA \<and> rel \<in> set (sh_rels rs) \<and>
      ld_x64_is_got_rel (rel_type rel)}"
    by (auto simp: all_needs_def obj_needs_def got_needs_def)
  ultimately show ?thesis using ok got(2) by (simp add: got_ok_def missing_got_def)
qed

theorem got_slots_complete_witness:
  "\<exists>oe'. outelf_got_prescan (Some ld_arch_x64)
      \<lparr>oe_objs = [\<lparr>o_shdr = [\<lparr>sh_type = 1, sh_tls = False, sh_info = 0, sh_rels = [], sh_data = replicate 8 0\<rparr>,
           \<lparr>sh_type = SHT_RELA, sh_tls = False, sh_info = 0, sh_rels =
              [\<lparr>rel_offset = 0, rel_type = R_X86_64_GOTPCREL, rel_sym = 1, rel_addend = - 4\<rparr>,
               \<lparr>rel_offset = 4, rel_type = R_X86_64_GOTPCREL, rel_sym = 1, rel_addend = - 4\<rparr>], sh_data = []\<rparr>],
         o_syms = []\<rparr>], oe_secs = [], oe_bss_syms = [], oe_bss_vaddr = 0, oe_bss_len = 0, oe_got = [],
       oe_got_vaddr = 0x600000, oe_tls_size = 0\<rparr> = Inr oe' \<and>
     distinct (oe_got oe') \<and> oe_got oe' = [(1, 0)] \<and>
     outelf_reloc ld_arch_x64 0x400000 oe' \<noteq> Inl (Die ''ld: missing got entry for gotpcrel relocation'')"
proof -
  let ?oe = "\<lparr>oe_objs = [\<lparr>o_shdr = [\<lparr>sh_type = 1, sh_tls = False, sh_info = 0, sh_rels = [], sh_data = replicate 8 0\<rparr>,
           \<lparr>sh_type = SHT_RELA, sh_tls = False, sh_info = 0, sh_rels =
              [\<lparr>rel_offset = 0, rel_type = R_X86_64_GOTPCREL, rel_sym = 1, rel_addend = - 4\<rparr>,
               \<lparr>rel_offset = 4, rel_type = R_X86_64_GOTPCREL, rel_sym = 1, rel_addend = - 4\<rparr>], sh_data = []\<rparr>],
         o_syms = []\<rparr>], oe_secs = [], oe_bss_syms = [], oe_bss_vaddr = 0, oe_bss_len = 0, oe_got = [],
       oe_got_vaddr = 0x600000, oe_tls_size = 0\<rparr>"
  have pre: "outelf_got_prescan (Some ld_arch_x64) ?oe = Inr (?oe\<lparr>oe_got := [(1, 0)]\<rparr>)"
    by (simp add: outelf_got_prescan_def ld_arch_x64_def ld_x64_is_got_rel_def MAXGOT_def)
  have "oe_got ?oe = []" by simp
  from got_slots_complete [OF pre this, of "0x400000"] show ?thesis using pre by auto
qed

end
