(* ===== verification/Aruu_Arg.thy ===== *)
theory Aruu_Arg
  imports Aruu_Base
begin

text \<open>
  The option loop of the commands, the macros \<open>ARGBEGIN\<close>, \<open>ARGEND\<close> and \<open>EARGF\<close> of \<open>shared/arg.h\<close>.

  A command's \<open>switch\<close> is given by what it does with each character: handle it as a flag, fetch its
  argument with \<open>EARGF\<close>, or fall into \<open>default\<close>. The loop gives the options in the order they are
  handled, with their arguments, and the operands that are left in \<open>argv\<close>; \<open>None\<close> is the exit in
  \<open>usage\<close>. The arguments are C strings, given by their contents.
\<close>

section \<open>Definitions\<close>

datatype arg_kind = Flag | Earg | Default

type_synonym options = "(byte \<times> byte list option) list"

text \<open>Options handled before the rest of a loop.\<close>

definition handled :: "options \<Rightarrow> (options \<times> byte list list) option \<Rightarrow> (options \<times> byte list list) option" where
  "handled os r = map_option (apfst ((@) os)) r"

lemma handled_simps [simp]:
  "handled [] r = r" "handled os (handled os' r) = handled (os @ os') r" "handled os None = None"
  "handled os (Some (os', argv)) = Some (os @ os', argv)"
  by (cases r; force simp: handled_def)+

text \<open>The inner loop, over the characters of one argument; \<open>EARGF\<close> ends it and may take the next argument.\<close>

fun arg_chars :: "(byte \<Rightarrow> arg_kind) \<Rightarrow> byte list \<Rightarrow> byte list list \<Rightarrow> (options \<times> byte list list) option" where
  "arg_chars sw [] argv = Some ([], argv)"
| "arg_chars sw (c # s) argv =
     (case sw c of
        Flag \<Rightarrow> handled [(c, None)] (arg_chars sw s argv)
      | Earg \<Rightarrow>
          if s = [] then
            (case argv of [] \<Rightarrow> None | a # argv \<Rightarrow> Some ([(c, Some a)], argv))
          else Some ([(c, Some s)], argv)
      | Default \<Rightarrow> None)"

lemma arg_chars_length: "arg_chars sw s argv = Some (os, argv') \<Longrightarrow> length argv' \<le> length argv"
  by (induction s arbitrary: os) (auto simp: handled_def split: arg_kind.splits if_splits list.splits)

text \<open>The outer loop: an argument is one of options if it is a dash followed by anything.\<close>

function arg_loop :: "(byte \<Rightarrow> arg_kind) \<Rightarrow> byte list list \<Rightarrow> (options \<times> byte list list) option" where
  "arg_loop sw [] = Some ([], [])"
| "arg_loop sw (a # argv) =
     (case a of
        c # d # s \<Rightarrow>
          if c \<noteq> 0x2d then Some ([], a # argv)
          else if d = 0x2d \<and> s = [] then Some ([], argv)
          else (case arg_chars sw (d # s) argv of
              None \<Rightarrow> None
            | Some (os, argv) \<Rightarrow> handled os (arg_loop sw argv))
      | _ \<Rightarrow> Some ([], a # argv))"
  by pat_completeness auto
termination
  by (relation "measure (\<lambda>(sw, argv). length argv)") (auto dest!: arg_chars_length simp del: arg_chars.simps)

section \<open>Grouped options\<close>

lemma arg_chars_append_flags:
  assumes "list_all (\<lambda>c. sw c = Flag) fs"
  shows "arg_chars sw (fs @ s) argv = handled (map (\<lambda>c. (c, None)) fs) (arg_chars sw s argv)"
  using assms by (induction fs) auto

text \<open>
  A group of flags behind one dash, with at most one option that takes an
  argument at its end, is read like the flags given one by one, each behind its own dash: the loop returns
  the same options with the same arguments, and the same operands.
\<close>

lemma arg_loop_grouped:
  assumes "list_all (\<lambda>c. sw c = Flag \<and> c \<noteq> 0x2d) fs" "s \<noteq> []" "hd s \<noteq> 0x2d"
  shows "arg_loop sw ((0x2d # fs @ s) # argv) = arg_loop sw (map (\<lambda>c. [0x2d, c]) fs @ (0x2d # s) # argv)"
proof -
  have one: "arg_loop sw ((0x2d # fs @ s) # argv) =
      handled (map (\<lambda>c. (c, None)) fs) (arg_loop sw ((0x2d # s) # argv))"
  proof -
    obtain d t where s: "s = d # t" "d \<noteq> 0x2d" using assms by (cases s) auto
    have f: "list_all (\<lambda>c. sw c = Flag) fs" using assms(1) by (auto simp: list_all_iff)
    obtain e u where e: "fs @ s = e # u" "e \<noteq> 0x2d" using assms s by (cases fs) auto
    have "arg_loop sw ((0x2d # fs @ s) # argv) =
        (case arg_chars sw (fs @ s) argv of None \<Rightarrow> None
         | Some (os, argv) \<Rightarrow> handled os (arg_loop sw argv))"
      using e by simp
    also have "\<dots> = handled (map (\<lambda>c. (c, None)) fs)
        (case arg_chars sw s argv of None \<Rightarrow> None
         | Some (os, argv) \<Rightarrow> handled os (arg_loop sw argv))"
      by (auto simp: arg_chars_append_flags [OF f] split: option.split)
    finally show ?thesis using s by simp
  qed
  have many: "arg_loop sw (map (\<lambda>c. [0x2d, c]) fs @ argv) =
      handled (map (\<lambda>c. (c, None)) fs) (arg_loop sw argv)" for argv
    using assms(1)
    by (induction fs) auto
  show ?thesis by (simp only: one many)
qed

lemma arg_loop_operand: "hd a \<noteq> 0x2d \<Longrightarrow> arg_loop sw (a # argv) = Some ([], a # argv)"
  by (cases a; cases "tl a") auto

end
