(* ===== verification/Cmd_Base64.thy ===== *)
theory Cmd_Base64
  imports Aruu_Arg Libutil_Num
begin

text \<open>
  The command \<open>base64\<close>, \<open>cmd/pseudo/base64.c\<close>: encoding and decoding of buffers and of streams, and
  the \<open>main\<close> that chooses between them.

  A stream is the list of its bytes; \<open>fread\<close> fills its buffer as long as there is input. The decoder of
  streams returns what it has written and, where it calls \<open>eprintf\<close>, which of its three messages ends the
  command.
\<close>

section \<open>Definitions\<close>

definition b64_chars :: "byte list" where
  "b64_chars = bytes ''ABCDEFGHIJKLMNOPQRSTUVWXYZabcdefghijklmnopqrstuvwxyz0123456789+/''"

text \<open>One turn of the loop of \<open>base64_encode\<close>: the four characters for the bytes from \<open>src[i]\<close> on.\<close>

definition b64_group :: "byte list \<Rightarrow> byte list" where
  "b64_group src =
     (let x = push_bit 16 (ucast (src ! 0)) :: u64;
          (x, d3) = (if 2 \<ge> length src then (x, 0x3d)
            else let x = x OR ucast (src ! 2) in (x, b64_chars ! unat (x AND 0x3f)));
          (x, d2) = (if 1 \<ge> length src then (x, 0x3d)
            else let x = x OR push_bit 8 (ucast (src ! 1)) in (x, b64_chars ! unat (drop_bit 6 x AND 0x3f)));
          d1 = b64_chars ! unat (drop_bit 12 x AND 0x3f);
          d0 = b64_chars ! unat (drop_bit 18 x)
      in [d0, d1, d2, d3])"

function base64_encode :: "byte list \<Rightarrow> byte list" where
  "base64_encode src = (if src = [] then [] else b64_group src @ base64_encode (drop 3 src))"
  by pat_completeness auto
termination
  by (relation "measure length") auto

declare base64_encode.simps [simp del]

text \<open>The table of \<open>base64_decode\<close>; entries that are not given are zero. Its size is 123.\<close>

definition b64_table :: "nat \<Rightarrow> u64" where
  "b64_table c =
     (if 65 \<le> c \<and> c \<le> 90 then of_nat (c - 65)
      else if 97 \<le> c \<and> c \<le> 122 then of_nat (c - 97 + 26)
      else if 48 \<le> c \<and> c \<le> 57 then of_nat (c - 48 + 52)
      else if c = 43 then 62
      else if c = 47 then 63
      else 0)"

text \<open>The loop: \<open>None\<close> is the return of 0; the bytes stored so far are the first \<open>len\<close> of \<open>dst\<close>.\<close>

fun decode_loop :: "byte list \<Rightarrow> nat \<Rightarrow> u64 \<Rightarrow> nat \<Rightarrow> byte list \<Rightarrow> (nat \<times> nat \<times> byte list) option" where
  "decode_loop [] i x pad dst = Some (i, pad, dst)"
| "decode_loop (ch # src) i x pad dst =
     (let c = unat ch in
      if \<not> (c = 0x3d \<and> (src = [] \<or> src = [0x3d])) \<and> (c \<ge> 123 \<or> b64_table c = 0 \<and> c \<noteq> 65) then None
      else
        let pad = (if c = 0x3d \<and> (src = [] \<or> src = [0x3d]) then pad + 1 else pad);
            x = push_bit 6 x OR b64_table c
        in if i mod 4 = 3 then
             decode_loop src (i + 1) (drop_bit 16 x) pad
               (dst @ [ucast (drop_bit 16 x AND 0xff), ucast (drop_bit 8 x AND 0xff), ucast (x AND 0xff)])
           else decode_loop src (i + 1) x pad dst)"

text \<open>The bytes of \<open>dst\<close> that the returned length covers; it is 0 on an error.\<close>

definition base64_decode :: "byte list \<Rightarrow> byte list" where
  "base64_decode src =
     (case decode_loop (cstr src) 0 0 0 [] of
        None \<Rightarrow> []
      | Some (i, pad, dst) \<Rightarrow> if i mod 4 \<noteq> 0 then [] else take (length dst - pad) dst)"

text \<open>The inner loop of \<open>encode_stream\<close>: the characters with the newlines, and the column after them.\<close>

fun put_wrapped :: "nat \<Rightarrow> nat \<Rightarrow> byte list \<Rightarrow> byte list \<times> nat" where
  "put_wrapped wrap col [] = ([], col)"
| "put_wrapped wrap col (c # out) =
     (if wrap > 0 \<and> col + 1 = wrap then
        let (o', col') = put_wrapped wrap 0 out in (c # 0x0a # o', col')
      else let (o', col') = put_wrapped wrap (if wrap > 0 then col + 1 else col) out in (c # o', col'))"

function encode_loop :: "nat \<Rightarrow> nat \<Rightarrow> byte list \<Rightarrow> byte list" where
  "encode_loop wrap col inp =
     (if inp = [] then (if wrap > 0 \<and> col > 0 then [0x0a] else [])
      else let (o', col') = put_wrapped wrap col (base64_encode (take 3072 inp))
        in o' @ encode_loop wrap col' (drop 3072 inp))"
  by pat_completeness auto
termination
  by (relation "measure (\<lambda>(wrap, col, inp). length inp)") auto

declare encode_loop.simps [simp del]

definition encode_stream :: "byte list \<Rightarrow> nat \<Rightarrow> byte list" where
  "encode_stream inp wrap = encode_loop wrap 0 inp"

datatype b64_error = Invalid_Input | Invalid_Character | Truncated

definition b64_valid :: "byte \<Rightarrow> bool" where
  "b64_valid ch \<longleftrightarrow> (let c = unat ch in 65 \<le> c \<and> c \<le> 90 \<or> 97 \<le> c \<and> c \<le> 122 \<or> 48 \<le> c \<and> c \<le> 57 \<or>
     c = 43 \<or> c = 47 \<or> c = 0x3d)"

text \<open>The loop of \<open>decode_stream\<close> with the characters of the group read so far, \<open>in[0..count)\<close>.\<close>

fun decode_chars :: "bool \<Rightarrow> byte list \<Rightarrow> byte list \<Rightarrow> byte list \<times> b64_error option" where
  "decode_chars iflag [] grp = ([], if length grp > 0 then Some Truncated else None)"
| "decode_chars iflag (c # inp) grp =
     (if c = 0x0d \<or> c = 0x0a \<or> c = 0x09 \<or> c = 0x20 then decode_chars iflag inp grp
      else if b64_valid c then
        let grp = grp @ [c] in
        if length grp = 4 then
          let out = base64_decode grp in
          if length out > 0 then
            if 0x3d \<in> set grp then (out, Some Truncated)
            else let (o', e) = decode_chars iflag inp [] in (out @ o', e)
          else ([], Some Invalid_Input)
        else decode_chars iflag inp grp
      else if \<not> iflag then ([], Some Invalid_Character)
      else decode_chars iflag inp grp)"

definition decode_stream :: "byte list \<Rightarrow> bool \<Rightarrow> byte list \<times> b64_error option" where
  "decode_stream inp iflag = decode_chars iflag inp []"


text \<open>
  The \<open>main\<close>: what is written to standard output and the exit status. \<open>fs\<close> gives the contents of the
  files that can be opened, \<open>shut\<close> whether \<open>fshut\<close> fails on standard input and on standard output. An
  error in the options or in opening the file exits with status 1 before anything is written.
\<close>

definition b64_switch :: "byte \<Rightarrow> arg_kind" where
  "b64_switch c = (if c = 0x64 \<or> c = 0x69 then Flag else if c = 0x77 then Earg else Default)"

fun b64_wrap :: "options \<Rightarrow> nat \<Rightarrow> nat option" where
  "b64_wrap [] wrap = Some wrap"
| "b64_wrap ((c, a) # os) wrap =
     (case a of
        None \<Rightarrow> b64_wrap os wrap
      | Some s \<Rightarrow> (case strtonum s 0 (2 ^ 63 - 1) of Inl _ \<Rightarrow> None | Inr n \<Rightarrow> b64_wrap os (nat n)))"

definition base64_main ::
  "(byte list \<Rightarrow> byte list option) \<Rightarrow> byte list \<Rightarrow> bool \<times> bool \<Rightarrow> byte list list \<Rightarrow> byte list \<times> int" where
  "base64_main fs inp shut argv =
     (case arg_loop b64_switch argv of
        None \<Rightarrow> ([], 1)
      | Some (os, argv) \<Rightarrow>
          case b64_wrap os 76 of
            None \<Rightarrow> ([], 1)
          | Some wrap \<Rightarrow>
              if length argv > 1 then ([], 1)
              else
                case (if length argv = 1 \<and> argv ! 0 \<noteq> [0x2d] then fs (argv ! 0) else Some inp) of
                  None \<Rightarrow> ([], 1)
                | Some fp \<Rightarrow>
                    let (out, e) =
                        (if 0x64 \<in> fst ` set os then decode_stream fp (0x69 \<in> fst ` set os)
                         else (encode_stream fp wrap, None))
                    in (out, if e \<noteq> None \<or> fst shut \<or> snd shut then 1 else 0))"

text \<open>The character of a sextet: its value in the table, and the tests it passes.\<close>

definition b64_code :: "nat \<Rightarrow> byte \<Rightarrow> bool" where
  "b64_code k c \<longleftrightarrow> b64_table (unat c) = of_nat k \<and> b64_valid c \<and> unat c \<noteq> 0x3d \<and> unat c < 123 \<and>
     (k = 0 \<longrightarrow> unat c = 65) \<and> c \<noteq> 0x0a \<and> c \<noteq> 0 \<and> c \<notin> {0x0d, 0x09, 0x20}"

abbreviation b64_char :: "u64 \<Rightarrow> byte" where
  "b64_char w \<equiv> b64_chars ! unat w"

definition octets :: "byte \<Rightarrow> byte \<Rightarrow> byte \<Rightarrow> u64" where
  "octets a b c = (push_bit 16 (ucast a) OR ucast c) OR push_bit 8 (ucast b)"

section \<open>Groups\<close>

lemma b64_chars_codes: "list_all2 b64_code [0..<64] b64_chars"
  by code_simp

lemma b64_code_char:
  assumes "w < (64 :: u64)"
  shows "b64_code (unat w) (b64_char w)"
proof -
  have "unat w < 64" using assms by (simp add: word_less_nat_alt)
  then show ?thesis using b64_chars_codes by (simp add: list_all2_conv_all_nth)
qed

lemma b64_char_facts:
  assumes "w < (64 :: u64)"
  shows "b64_table (unat (b64_char w)) = w" "b64_valid (b64_char w)" "b64_char w \<noteq> 0x3d"
    "unat (b64_char w) < 123" "w = 0 \<Longrightarrow> unat (b64_char w) = 65" "b64_char w \<noteq> 0"
    "b64_char w \<notin> {0x0a, 0x0d, 0x09, 0x20}" "unat (b64_char w) \<noteq> 0x3d"
proof -
  have c: "b64_code (unat w) (b64_char w)" using assms by (rule b64_code_char)
  then show "b64_table (unat (b64_char w)) = w" "b64_valid (b64_char w)" "b64_char w \<noteq> 0x3d"
    "unat (b64_char w) < 123" "w = 0 \<Longrightarrow> unat (b64_char w) = 65" "b64_char w \<noteq> 0"
    "b64_char w \<notin> {0x0a, 0x0d, 0x09, 0x20}"
    by (auto simp: b64_code_def)
  then show "unat (b64_char w) \<noteq> 0x3d" using c by (simp add: b64_code_def)
qed

text \<open>A step of the decoder on the character of a sextet.\<close>

lemma decode_loop_char:
  assumes "w < (64 :: u64)"
  shows "decode_loop (b64_char w # src) i x pad dst =
    (let x = push_bit 6 x OR w in
     if i mod 4 = 3 then
       decode_loop src (i + 1) (drop_bit 16 x) pad
         (dst @ [ucast (drop_bit 16 x AND 0xff), ucast (drop_bit 8 x AND 0xff), ucast (x AND 0xff)])
     else decode_loop src (i + 1) x pad dst)"
  using b64_char_facts [OF assms] by (auto simp: Let_def)

text \<open>A step on a padding character at the end.\<close>

lemma decode_loop_pad:
  assumes "src = [] \<or> src = [0x3d]"
  shows "decode_loop (0x3d # src) i x pad dst =
    (let x = push_bit 6 x in
     if i mod 4 = 3 then
       decode_loop src (i + 1) (drop_bit 16 x) (pad + 1)
         (dst @ [ucast (drop_bit 16 x AND 0xff), ucast (drop_bit 8 x AND 0xff), ucast (x AND 0xff)])
     else decode_loop src (i + 1) x (pad + 1) dst)"
  using assms by (auto simp: Let_def b64_table_def)

lemma take_bit_6_less: "take_bit 6 (w :: u64) < 64"
proof -
  have "unat (take_bit 6 w) < 2 ^ 6" by (simp only: unsigned_take_bit_eq take_bit_nat_less_exp)
  then show ?thesis by (simp add: word_less_nat_alt)
qed

lemma sextets_less:
  fixes x :: u64
  shows "drop_bit 12 x AND 0x3f < 64" "drop_bit 6 x AND 0x3f < 64" "x AND 0x3f < 64"
proof -
  have m: "(0x3f :: u64) = mask 6" by (simp add: mask_eq_exp_minus_1)
  show "drop_bit 12 x AND 0x3f < 64" "drop_bit 6 x AND 0x3f < 64" "x AND 0x3f < 64"
    unfolding m by (simp_all only: take_bit_eq_mask [symmetric] take_bit_6_less)
qed

lemma sextet_join:
  fixes x :: u64
  shows "push_bit 6 (drop_bit (n + 6) x) OR (drop_bit n x AND 0x3f) = drop_bit n x"
proof -
  have m: "(0x3f :: u64) = mask 6" by (simp add: mask_eq_exp_minus_1)
  show ?thesis unfolding m by (rule bit_word_eqI) (auto simp: bit_simps)
qed

text \<open>The four sextets of 24 bits, put together again as the decoder does.\<close>

lemma sextets_join:
  fixes x :: u64
  shows "push_bit 6 (push_bit 6 (push_bit 6 (drop_bit 18 x) OR (drop_bit 12 x AND 0x3f)) OR
     (drop_bit 6 x AND 0x3f)) OR (x AND 0x3f) = x"
  using sextet_join [of 12 x] sextet_join [of 6 x] sextet_join [of 0 x] by simp

lemma octets_join:
  fixes a b c :: byte
  defines "x \<equiv> octets a b c"
  shows "ucast (drop_bit 16 x AND 0xff) = a" "ucast (drop_bit 8 x AND 0xff) = b" "ucast (x AND 0xff) = c"
    "drop_bit 18 x < 64"
proof -
  have m: "(0xff :: u64) = mask 8" by (simp add: mask_eq_exp_minus_1)
  show "ucast (drop_bit 16 x AND 0xff) = a" "ucast (drop_bit 8 x AND 0xff) = b" "ucast (x AND 0xff) = c"
    unfolding x_def octets_def m by (rule bit_word_eqI; auto simp: bit_simps dest: bit_imp_le_length)+
  have "drop_bit 18 x = take_bit 6 (drop_bit 18 x)"
    by (rule bit_word_eqI) (auto simp: x_def octets_def bit_simps dest: bit_imp_le_length)
  then show "drop_bit 18 x < 64" by (metis take_bit_6_less)
qed

lemma b64_group_3:
  "b64_group (a # b # c # r) =
     [b64_char (drop_bit 18 (octets a b c)), b64_char (drop_bit 12 (octets a b c) AND 0x3f),
      b64_char (drop_bit 6 (octets a b c) AND 0x3f), b64_char (octets a b c AND 0x3f)]"
proof -
  have "octets a b c AND 0x3f = (push_bit 16 (ucast a) OR ucast c) AND (0x3f :: u64)"
  proof -
    have m: "(0x3f :: u64) = mask 6" by (simp add: mask_eq_exp_minus_1)
    show ?thesis unfolding m octets_def by (rule bit_word_eqI) (auto simp: bit_simps)
  qed
  then show ?thesis by (simp add: b64_group_def Let_def octets_def [symmetric] del: drop_bit_or)
qed

lemma b64_group_2:
  "b64_group [a, b] =
     [b64_char (drop_bit 18 (octets a b 0)), b64_char (drop_bit 12 (octets a b 0) AND 0x3f),
      b64_char (drop_bit 6 (octets a b 0) AND 0x3f), 0x3d]"
  "octets a b 0 AND 0x3f = 0"
proof -
  have m: "(0x3f :: u64) = mask 6" by (simp add: mask_eq_exp_minus_1)
  show "octets a b 0 AND 0x3f = 0" unfolding m octets_def by (rule bit_word_eqI) (auto simp: bit_simps)
qed (simp add: b64_group_def Let_def octets_def)

lemma b64_group_1:
  "b64_group [a] =
     [b64_char (drop_bit 18 (octets a 0 0)), b64_char (drop_bit 12 (octets a 0 0) AND 0x3f), 0x3d, 0x3d]"
  "drop_bit 6 (octets a 0 0) AND 0x3f = 0"
proof -
  have m: "(0x3f :: u64) = mask 6" by (simp add: mask_eq_exp_minus_1)
  show "drop_bit 6 (octets a 0 0) AND 0x3f = 0"
    unfolding m octets_def by (rule bit_word_eqI) (auto simp: bit_simps)
qed (simp add: b64_group_def Let_def octets_def)

lemma cstr_simps:
  "cstr [] = []" "cstr (c # s) = (if c = 0 then [] else c # cstr s)"
  by (simp_all add: cstr_def)

text \<open>The three kinds of groups, with the value the sextets give put together.\<close>

lemma decode_group:
  assumes "w0 < 64" "w1 < 64" "w2 < 64" "w3 < 64"
    and "x2 = push_bit 6 w0 OR w1" "x3 = push_bit 6 x2 OR w2" "x4 = push_bit 6 x3 OR w3"
  shows "base64_decode [b64_char w0, b64_char w1, b64_char w2, b64_char w3] =
      [ucast (drop_bit 16 x4 AND 0xff), ucast (drop_bit 8 x4 AND 0xff), ucast (x4 AND 0xff)]"
    and "w3 = 0 \<Longrightarrow> base64_decode [b64_char w0, b64_char w1, b64_char w2, 0x3d] =
      [ucast (drop_bit 16 x4 AND 0xff), ucast (drop_bit 8 x4 AND 0xff)]"
    and "w2 = 0 \<Longrightarrow> w3 = 0 \<Longrightarrow> base64_decode [b64_char w0, b64_char w1, 0x3d, 0x3d] =
      [ucast (drop_bit 16 x4 AND 0xff)]"
proof -
  note f = cstr_simps decode_loop_char decode_loop_pad b64_char_facts assms(1-4) assms(5-7) [symmetric]
  show "base64_decode [b64_char w0, b64_char w1, b64_char w2, b64_char w3] =
      [ucast (drop_bit 16 x4 AND 0xff), ucast (drop_bit 8 x4 AND 0xff), ucast (x4 AND 0xff)]"
    by (simp add: base64_decode_def f Let_def del: decode_loop.simps(2) push_bit_or drop_bit_or)
  show "base64_decode [b64_char w0, b64_char w1, b64_char w2, 0x3d] =
      [ucast (drop_bit 16 x4 AND 0xff), ucast (drop_bit 8 x4 AND 0xff)]" if "w3 = 0"
  proof -
    have "push_bit 6 x3 = x4" using assms that by simp
    then show ?thesis by (simp add: base64_decode_def f Let_def del: decode_loop.simps(2) push_bit_or drop_bit_or)
  qed
  show "base64_decode [b64_char w0, b64_char w1, 0x3d, 0x3d] = [ucast (drop_bit 16 x4 AND 0xff)]"
    if "w2 = 0" "w3 = 0"
  proof -
    have "push_bit 12 x2 = x4" using assms that by simp
    then show ?thesis by (simp add: base64_decode_def f Let_def del: decode_loop.simps(2) push_bit_or drop_bit_or)
  qed
qed

lemmas decode_sextets =
  decode_group [of "drop_bit 18 x", OF _ sextets_less [of x] refl refl refl, unfolded sextets_join] for x

lemma base64_decode_3: "base64_decode (b64_group (a # b # c # r)) = [a, b, c]"
  using decode_sextets(1) [OF octets_join(4), of a b c] by (simp only: b64_group_3 octets_join)

lemma base64_decode_2: "base64_decode (b64_group [a, b]) = [a, b]"
  using decode_sextets(2) [OF octets_join(4) b64_group_2(2), of a b] by (simp only: b64_group_2(1) octets_join)

lemma base64_decode_1: "base64_decode (b64_group [a]) = [a]"
  using decode_sextets(3) [OF octets_join(4) b64_group_1(2) b64_group_2(2), of a]
  by (simp only: b64_group_1(1) octets_join)

section \<open>Buffers\<close>

lemma base64_encode_Nil [simp]: "base64_encode [] = []"
  by (simp add: base64_encode.simps)

lemma base64_encode_group: "src \<noteq> [] \<Longrightarrow> base64_encode src = b64_group src @ base64_encode (drop 3 src)"
  by (simp add: base64_encode.simps [of src])

lemma length_b64_group [simp]: "length (b64_group src) = 4"
  by (simp add: b64_group_def Let_def split: prod.split)

lemma b64_group_take:
  assumes "3 \<le> length a"
  shows "b64_group (a @ b) = b64_group a"
proof -
  obtain x y z r where "a = x # y # z # r"
    using assms by (metis Suc_le_length_iff numeral_3_eq_3)
  then show ?thesis by (simp add: b64_group_3)
qed

lemma base64_encode_append:
  "3 dvd length a \<Longrightarrow> base64_encode (a @ b) = base64_encode a @ base64_encode b"
proof (induction a rule: base64_encode.induct)
  case (1 src)
  show ?case
  proof (cases "src = []")
    case False
    then have l: "3 \<le> length src" using "1.prems" by (auto dest: dvd_imp_le)
    moreover have "3 dvd length (drop 3 src)" using "1.prems" l by (simp add: dvd_diff_nat)
    ultimately show ?thesis
      using "1.IH" False by (simp add: base64_encode_group b64_group_take)
  qed simp
qed

text \<open>Every character of the encoding passes the test of the decoder and is none of the skipped ones.\<close>

definition b64_text :: "byte list \<Rightarrow> bool" where
  "b64_text s \<longleftrightarrow> (\<forall>c \<in> set s. b64_valid c \<and> c \<notin> {0x0a, 0x0d, 0x09, 0x20})"

lemma b64_text_pad: "b64_valid 0x3d"
  by (simp add: b64_valid_def)

lemma b64_text_group: "src \<noteq> [] \<Longrightarrow> b64_text (b64_group src)"
proof -
  assume "src \<noteq> []"
  then consider a where "src = [a]" | a b where "src = [a, b]" | a b c r where "src = a # b # c # r"
    by (metis list.exhaust)
  then show ?thesis
    by cases (auto simp: b64_text_def b64_group_1(1) b64_group_2(1) b64_group_3 b64_text_pad b64_char_facts
        sextets_less octets_join(4) simp del: insert_iff)
qed

lemma b64_text_simps [simp]:
  "b64_text []" "b64_text (s @ t) \<longleftrightarrow> b64_text s \<and> b64_text t"
  by (auto simp: b64_text_def)

lemma b64_text_encode: "b64_text (base64_encode src)"
proof (induction src rule: base64_encode.induct)
  case (1 src)
  then show ?case by (cases "src = []") (auto simp: base64_encode_group b64_text_group)
qed

lemma b64_group_pad: "src \<noteq> [] \<Longrightarrow> 0x3d \<in> set (b64_group src) \<longleftrightarrow> length src < 3"
proof -
  assume "src \<noteq> []"
  then consider a where "src = [a]" | a b where "src = [a, b]" | a b c r where "src = a # b # c # r"
    by (metis list.exhaust)
  then show ?thesis
  proof cases
    case 3
    then show ?thesis using b64_char_facts(3) [OF octets_join(4) [of a b c]]
        b64_char_facts(3) [OF sextets_less(1) [of "octets a b c"]] b64_char_facts(3) [OF sextets_less(2) [of "octets a b c"]]
        b64_char_facts(3) [OF sextets_less(3) [of "octets a b c"]]
      by (auto simp: b64_group_3)
  qed (simp_all add: b64_group_1(1) b64_group_2(1))
qed

lemma base64_decode_group: "src \<noteq> [] \<Longrightarrow> base64_decode (b64_group src) = take 3 src"
proof -
  assume "src \<noteq> []"
  then consider a where "src = [a]" | a b where "src = [a, b]" | a b c r where "src = a # b # c # r"
    by (metis list.exhaust)
  then show ?thesis
    by cases (simp_all add: base64_decode_1 base64_decode_2 base64_decode_3 numeral_3_eq_3)
qed

section \<open>Streams\<close>

abbreviation unwrap :: "byte list \<Rightarrow> byte list" where
  "unwrap \<equiv> filter (\<lambda>c. c \<noteq> 0x0a)"

lemma unwrap_text: "b64_text s \<Longrightarrow> unwrap s = s"
  by (simp add: b64_text_def filter_id_conv)

lemma unwrap_put_wrapped: "unwrap (fst (put_wrapped wrap col s)) = unwrap s"
  by (induction wrap col s rule: put_wrapped.induct) (simp_all add: case_prod_beta Let_def)

lemma unwrap_encode_loop: "unwrap (encode_loop wrap col inp) = base64_encode inp"
proof (induction wrap col inp rule: encode_loop.induct)
  case (1 wrap col inp)
  show ?case
  proof (cases "inp = []")
    case False
    let ?p = "put_wrapped wrap col (base64_encode (take 3072 inp))"
    have "unwrap (encode_loop wrap col inp) =
        base64_encode (take 3072 inp) @ unwrap (encode_loop wrap (snd ?p) (drop 3072 inp))"
      using False unwrap_put_wrapped [of wrap col "base64_encode (take 3072 inp)"]
      by (simp add: encode_loop.simps [of _ _ inp] case_prod_beta Let_def unwrap_text b64_text_encode)
    also have "\<dots> = base64_encode (take 3072 inp) @ base64_encode (drop 3072 inp)"
      using "1.IH" [OF False, of ?p "fst ?p" "snd ?p"] by simp
    also have "\<dots> = base64_encode (take 3072 inp @ drop 3072 inp)"
    proof (cases "length inp \<le> 3072")
      case False
      then have "3 dvd length (take 3072 inp)" by simp
      then show ?thesis by (rule base64_encode_append [symmetric])
    qed simp
    finally show ?thesis by simp
  qed (simp add: encode_loop.simps)
qed

text \<open>The decoder skips newlines wherever they stand.\<close>

lemma decode_chars_unwrap: "decode_chars iflag (unwrap s) grp = decode_chars iflag s grp"
  by (induction s arbitrary: grp iflag) (simp_all add: Let_def case_prod_beta)

lemma decode_chars_group:
  assumes "b64_text g" "length g = 4"
  shows "decode_chars iflag (g @ s) [] =
    (if base64_decode g = [] then ([], Some Invalid_Input)
     else if 0x3d \<in> set g then (base64_decode g, Some Truncated)
     else apfst ((@) (base64_decode g)) (decode_chars iflag s []))"
proof -
  obtain a b c d where g: "g = [a, b, c, d]"
    using assms(2) by (auto simp: numeral_eq_Suc length_Suc_conv)
  have "b64_valid x \<and> x \<noteq> 0x0a \<and> x \<noteq> 0x0d \<and> x \<noteq> 0x09 \<and> x \<noteq> 0x20" if "x \<in> {a, b, c, d}" for x
    using assms(1) that by (auto simp: g b64_text_def)
  then show ?thesis
    by (simp add: g Let_def case_prod_beta apfst_def map_prod_def)
qed

lemma decode_chars_encode:
  "decode_chars iflag (base64_encode m) [] = (m, if length m mod 3 = 0 then None else Some Truncated)"
proof (induction m rule: base64_encode.induct)
  case (1 m)
  show ?case
  proof (cases "m = []")
    case False
    note step = base64_encode_group [OF False] decode_chars_group [OF b64_text_group [OF False]]
      base64_decode_group [OF False] b64_group_pad [OF False]
    show ?thesis
    proof (cases "length m < 3")
      case True
      then have "length m mod 3 \<noteq> 0" using False by simp
      with True False show ?thesis
        using decode_chars_group [OF b64_text_group [OF False], of iflag "[]"] by (simp add: step)
    next
      case ge: False
      then have "length (drop 3 m) mod 3 = length m mod 3" by (simp add: le_mod_geq)
      with ge False "1.IH" show ?thesis by (simp add: step)
    qed
  qed simp
qed

lemma decode_encode_stream:
  "decode_stream (encode_stream m wrap) iflag = (m, if length m mod 3 = 0 then None else Some Truncated)"
  using decode_chars_unwrap [of iflag "encode_stream m wrap" "[]"] decode_chars_encode [of iflag m]
  by (simp add: decode_stream_def encode_stream_def unwrap_encode_loop)

lemma base64_main_encode: "base64_main fs m (False, False) [] = (encode_stream m 76, 0)"
  by (simp add: base64_main_def)

lemma base64_main_decode:
  "base64_main fs txt (False, False) [bytes ''-d''] =
     (let (out, e) = decode_stream txt False in (out, if e \<noteq> None then 1 else 0))"
  by (simp add: base64_main_def b64_switch_def bytes_def Let_def split_beta)

text \<open>
  Property C37 (base64 round trip). Whatever the width of the lines, and whether invalid characters are
  skipped or not, \<open>decode_stream\<close> writes back the bytes \<open>encode_stream\<close> was given; \<open>base64 -d\<close> run on
  what \<open>base64\<close> wrote gives the input back. But it succeeds exactly when the number of bytes is a multiple
  of three: a group with padding leaves the loop with \<open>count\<close> still four, and the command then reports a
  truncated input and fails although nothing is missing.
\<close>

theorem base64_roundtrip:
  "decode_stream (encode_stream m wrap) iflag = (m, if length m mod 3 = 0 then None else Some Truncated) \<and>
   base64_main fs m (False, False) [] = (encode_stream m 76, 0) \<and>
   base64_main fs (encode_stream m wrap) (False, False) [bytes ''-d''] =
     (m, if length m mod 3 = 0 then 0 else 1)"
  by (simp add: decode_encode_stream base64_main_encode base64_main_decode)

end
