(* ===== verification/Deflate_Bits.thy ===== *)
theory Deflate_Bits
  imports Aruu_Base
begin

text \<open>
  The bit reader of the decoder of \<open>cmd/pseudo/gzip.c\<close>: \<open>struct InflateState\<close>, \<open>inflate_bits\<close> and
  \<open>inflate_stored\<close>, and the abstraction that gives them a meaning: the list of the bits that a state
  has still to deliver.

  What a call does is a value of \<open>inf\<close>: it returns, it leaves by \<open>longjmp\<close>, it makes an access
  that the C standard leaves undefined (outside an array, or to a cell that was never written), or it runs
  out of the fuel that bounds the loops of the model. An array is the list of its cells, \<open>None\<close> for
  a cell that is not initialised. The counters are natural numbers: they are bounded by the sizes of objects
  in memory, and the sums that the code compares with them do not come near the width of \<open>unsigned
  long\<close>.
\<close>

section \<open>Definitions\<close>

datatype 'a inf = Val 'a | Longjmp | Undefined | Spin

primrec inf_bind :: "'a inf \<Rightarrow> ('a \<Rightarrow> 'b inf) \<Rightarrow> 'b inf" where
  "inf_bind (Val x) f = f x"
| "inf_bind Longjmp f = Longjmp"
| "inf_bind Undefined f = Undefined"
| "inf_bind Spin f = Spin"

type_synonym 'a arr = "'a option list"

definition arr_get :: "'a arr \<Rightarrow> int \<Rightarrow> 'a inf" where
  "arr_get a i = (if 0 \<le> i \<and> i < int (length a) then case a ! nat i of Some x \<Rightarrow> Val x | None \<Rightarrow> Undefined
     else Undefined)"

definition arr_put :: "'a arr \<Rightarrow> int \<Rightarrow> 'a \<Rightarrow> 'a arr inf" where
  "arr_put a i x = (if 0 \<le> i \<and> i < int (length a) then Val (a[nat i := Some x]) else Undefined)"

record inflate_state =
  i_out :: "byte arr option"
  outlen :: nat
  outcnt :: nat
  i_in :: "byte list"
  inlen :: nat
  incnt :: nat
  bitbuf :: int
  bitcnt :: int

text \<open>\<open>s->in[s->incnt++]\<close>.\<close>

definition in_next :: "inflate_state \<Rightarrow> (byte \<times> inflate_state) inf" where
  "in_next s = (if incnt s < length (i_in s) then Val (i_in s ! incnt s, s\<lparr>incnt := incnt s + 1\<rparr>) else Undefined)"

text \<open>The loop of \<open>inflate_bits\<close>.\<close>

function bits_loop :: "inflate_state \<Rightarrow> int \<Rightarrow> int \<Rightarrow> (int \<times> inflate_state) inf" where
  "bits_loop s need val =
     (if bitcnt s < need then
        if incnt s = inlen s then Longjmp
        else case in_next s of
            Val (b, s') \<Rightarrow> bits_loop (s'\<lparr>bitcnt := bitcnt s + 8\<rparr>) need (val OR push_bit (nat (bitcnt s)) (uint b))
          | _ \<Rightarrow> Undefined
      else Val (val, s))"
  by pat_completeness auto
termination
  by (relation "measure (\<lambda>(s, need, val). nat (need - bitcnt s))") auto

declare bits_loop.simps [simp del]

definition inflate_bits :: "inflate_state \<Rightarrow> int \<Rightarrow> (int \<times> inflate_state) inf" where
  "inflate_bits s need =
     inf_bind (bits_loop s need (bitbuf s)) (\<lambda>(val, s).
       Val (val AND (push_bit (nat need) 1 - 1), s\<lparr>bitbuf := drop_bit (nat need) val, bitcnt := bitcnt s - need\<rparr>))"

text \<open>\<open>s->out[s->outcnt++] = c\<close>.\<close>

definition out_put :: "inflate_state \<Rightarrow> byte \<Rightarrow> inflate_state inf" where
  "out_put s c =
     (case i_out s of None \<Rightarrow> Undefined
      | Some a \<Rightarrow> inf_bind (arr_put a (int (outcnt s)) c) (\<lambda>a. Val (s\<lparr>i_out := Some a, outcnt := outcnt s + 1\<rparr>)))"

text \<open>The copying loop of \<open>inflate_stored\<close>.\<close>

fun stored_loop :: "nat \<Rightarrow> inflate_state \<Rightarrow> inflate_state inf" where
  "stored_loop 0 s = Val s"
| "stored_loop (Suc len) s = inf_bind (in_next s) (\<lambda>(c, s). inf_bind (out_put s c) (stored_loop len))"

text \<open>\<open>len\<close> from its two bytes.\<close>

definition stored_len :: "byte \<Rightarrow> byte \<Rightarrow> u32" where
  "stored_len b0 b1 = ucast b0 OR push_bit 8 (ucast b1)"

definition inflate_stored :: "inflate_state \<Rightarrow> (int \<times> inflate_state) inf" where
  "inflate_stored s =
     (let s = s\<lparr>bitbuf := 0, bitcnt := 0\<rparr> in
      if incnt s + 4 > inlen s then Val (2, s)
      else
        inf_bind (in_next s) (\<lambda>(b0, s). inf_bind (in_next s) (\<lambda>(b1, s).
        let len = stored_len b0 b1 in
        inf_bind (in_next s) (\<lambda>(b2, s).
        if ucast b2 \<noteq> NOT len AND 0xff then Val (-2, s)
        else inf_bind (in_next s) (\<lambda>(b3, s).
        if ucast b3 \<noteq> drop_bit 8 (NOT len) AND 0xff then Val (-2, s)
        else if incnt s + unat len > inlen s then Val (2, s)
        else if i_out s \<noteq> None then
          if outcnt s + unat len > outlen s then Val (1, s)
          else inf_bind (stored_loop (unat len) s) (\<lambda>s. Val (0, s))
        else Val (0, s\<lparr>outcnt := outcnt s + unat len, incnt := incnt s + unat len\<rparr>))))))"

section \<open>The bits of a state\<close>

lemma inf_bind_eq_Val: "inf_bind m f = Val y \<longleftrightarrow> (\<exists>x. m = Val x \<and> f x = Val y)"
  by (cases m) auto

lemma inf_bind_assoc: "inf_bind (inf_bind m f) g = inf_bind m (\<lambda>x. inf_bind (f x) g)"
  by (cases m) auto

definition byte_bits :: "byte \<Rightarrow> bool list" where
  "byte_bits b = map (bit b) [0..<8]"

definition int_bits :: "nat \<Rightarrow> int \<Rightarrow> bool list" where
  "int_bits n v = map (bit v) [0..<n]"

definition bits_value :: "bool list \<Rightarrow> int" where
  "bits_value bs = horner_sum of_bool 2 bs"

definition state_bits :: "inflate_state \<Rightarrow> bool list" where
  "state_bits s = int_bits (nat (bitcnt s)) (bitbuf s) @ concat (map byte_bits (drop (incnt s) (take (inlen s) (i_in s))))"

definition wf_in :: "inflate_state \<Rightarrow> bool" where
  "wf_in s \<longleftrightarrow> 0 \<le> bitcnt s \<and> bitcnt s < 8 \<and> 0 \<le> bitbuf s \<and> bitbuf s < 2 ^ nat (bitcnt s) \<and>
     incnt s \<le> inlen s \<and> inlen s \<le> length (i_in s)"

lemma length_byte_bits [simp]: "length (byte_bits b) = 8"
  by (simp add: byte_bits_def)

lemma length_int_bits [simp]: "length (int_bits n v) = n"
  by (simp add: int_bits_def)

lemma byte_bits_int: "byte_bits b = int_bits 8 (uint b)"
  by (simp add: byte_bits_def int_bits_def bit_uint_iff)

lemma int_bits_or_push:
  assumes "0 \<le> v" "v < 2 ^ n" "0 \<le> w"
  shows "int_bits (n + m) (v OR push_bit n w) = int_bits n v @ int_bits m w"
proof (rule nth_equalityI)
  fix i assume "i < length (int_bits (n + m) (v OR push_bit n w))"
  then have i: "i < n + m" by simp
  have v: "v = take_bit n v" using assms by (simp add: take_bit_int_eq_self)
  have "\<not> bit v i" if "n \<le> i"
    using that by (subst v) (simp add: bit_take_bit_iff)
  then show "int_bits (n + m) (v OR push_bit n w) ! i = (int_bits n v @ int_bits m w) ! i"
    using i by (auto simp: int_bits_def nth_append bit_or_iff bit_push_bit_iff)
qed simp

lemma int_bits_drop: "int_bits m (drop_bit n v) = drop n (int_bits (n + m) v)"
  by (rule nth_equalityI) (auto simp: int_bits_def bit_drop_bit_eq)

lemma bits_value_int_bits: "bits_value (int_bits n v) = take_bit n v"
  by (simp add: bits_value_def int_bits_def horner_sum_bit_eq_take_bit)

lemma bits_value_bound: "0 \<le> bits_value bs \<and> bits_value bs < 2 ^ length bs"
  unfolding bits_value_def by (induction bs) auto

lemma int_bits_take: "n \<le> m \<Longrightarrow> take n (int_bits m v) = int_bits n v"
  by (simp add: int_bits_def take_map)


text \<open>The states in the loop: there may be more than seven bits in the accumulator.\<close>

definition wf_acc :: "inflate_state \<Rightarrow> int \<Rightarrow> bool" where
  "wf_acc s val \<longleftrightarrow> 0 \<le> bitcnt s \<and> 0 \<le> val \<and> val < 2 ^ nat (bitcnt s) \<and> incnt s \<le> inlen s \<and> inlen s \<le> length (i_in s)"

lemma wf_acc_step:
  assumes "wf_acc s val" "incnt s < inlen s"
  shows "wf_acc (s\<lparr>incnt := incnt s + 1, bitcnt := bitcnt s + 8\<rparr>)
           (val OR push_bit (nat (bitcnt s)) (uint (i_in s ! incnt s)))" (is ?wf)
    and "state_bits (s\<lparr>incnt := incnt s + 1, bitcnt := bitcnt s + 8,
             bitbuf := val OR push_bit (nat (bitcnt s)) (uint (i_in s ! incnt s))\<rparr>) =
           state_bits (s\<lparr>bitbuf := val\<rparr>)" (is ?bits)
proof -
  let ?n = "nat (bitcnt s)" and ?b = "i_in s ! incnt s"
  have n: "nat (bitcnt s + 8) = ?n + 8" using assms(1) by (simp add: wf_acc_def nat_add_distrib)
  have val: "0 \<le> val" "val < 2 ^ ?n" using assms(1) by (auto simp: wf_acc_def)
  have b: "0 \<le> uint ?b" "uint ?b < 2 ^ 8" using unsigned_less [of ?b, where 'a = int] by auto
  have "val OR push_bit ?n (uint ?b) = uint ?b * 2 ^ ?n + val"
    using push_or_eq_add [OF val, of "uint ?b"] by (simp add: or.commute)
  moreover have "uint ?b * 2 ^ ?n + val < 2 ^ (?n + 8)"
  proof -
    have "uint ?b * 2 ^ ?n + val < (uint ?b + 1) * 2 ^ ?n" using val by (simp add: algebra_simps)
    also have "\<dots> \<le> 2 ^ 8 * 2 ^ ?n" using b by (intro mult_right_mono) auto
    finally show ?thesis by (simp add: power_add)
  qed
  ultimately show ?wf using assms b val by (auto simp: wf_acc_def n)
  have "drop (incnt s) (take (inlen s) (i_in s)) = ?b # drop (Suc (incnt s)) (take (inlen s) (i_in s))"
    using assms by (simp add: wf_acc_def Cons_nth_drop_Suc [symmetric])
  then show ?bits
    by (simp add: state_bits_def n int_bits_or_push [OF val b(1)] byte_bits_int)
qed

lemma bits_loop_more:
  assumes "wf_acc s val" "bitcnt s < need" "incnt s < inlen s"
  shows "bits_loop s need val = bits_loop (s\<lparr>incnt := incnt s + 1, bitcnt := bitcnt s + 8\<rparr>) need
     (val OR push_bit (nat (bitcnt s)) (uint (i_in s ! incnt s)))"
  using assms by (simp add: bits_loop.simps [of s] in_next_def wf_acc_def)

lemma bits_loop_short:
  assumes "wf_acc s val" "length (state_bits (s\<lparr>bitbuf := val\<rparr>)) < nat need"
  shows "bits_loop s need val = Longjmp"
  using assms
proof (induction "inlen s - incnt s" arbitrary: s val)
  case 0
  then show ?case
    using nat_mono_iff [of need "bitcnt s"] by (auto simp: bits_loop.simps [of s] state_bits_def wf_acc_def)
next
  case (Suc n)
  then have lt: "incnt s < inlen s" by simp
  have need: "bitcnt s < need" using Suc.prems by (auto simp: state_bits_def)
  have "n = inlen (s\<lparr>incnt := incnt s + 1, bitcnt := bitcnt s + 8\<rparr>) - incnt (s\<lparr>incnt := incnt s + 1, bitcnt := bitcnt s + 8\<rparr>)"
    using Suc.hyps(2) by simp
  from Suc.hyps(1) [OF this wf_acc_step(1) [OF Suc.prems(1) lt]] show ?case
    using Suc.prems wf_acc_step(2) [OF Suc.prems(1) lt] by (simp add: bits_loop_more [OF Suc.prems(1) need lt])
qed

lemma bits_loop_enough:
  assumes "wf_acc s val" "need \<le> bitcnt s" "bitcnt s < need + 8"
  shows "\<exists>val' k c. bits_loop s need val = Val (val', s\<lparr>incnt := k, bitcnt := c\<rparr>) \<and>
     wf_acc (s\<lparr>incnt := k, bitcnt := c\<rparr>) val' \<and> need \<le> c \<and> c < need + 8 \<and>
     state_bits (s\<lparr>incnt := k, bitcnt := c, bitbuf := val'\<rparr>) = state_bits (s\<lparr>bitbuf := val\<rparr>)"
  using assms
  by (intro exI [of _ val] exI [of _ "incnt s"] exI [of _ "bitcnt s"]) (simp add: bits_loop.simps [of s])

lemma bits_loop_ok:
  assumes "wf_acc s val" "bitcnt s < need + 8" "nat need \<le> length (state_bits (s\<lparr>bitbuf := val\<rparr>))"
  shows "\<exists>val' k c. bits_loop s need val = Val (val', s\<lparr>incnt := k, bitcnt := c\<rparr>) \<and>
     wf_acc (s\<lparr>incnt := k, bitcnt := c\<rparr>) val' \<and> need \<le> c \<and> c < need + 8 \<and>
     state_bits (s\<lparr>incnt := k, bitcnt := c, bitbuf := val'\<rparr>) = state_bits (s\<lparr>bitbuf := val\<rparr>)"
  using assms
proof (induction "inlen s - incnt s" arbitrary: s val)
  case 0
  then have "nat need \<le> nat (bitcnt s)" "0 \<le> bitcnt s" by (auto simp: state_bits_def wf_acc_def)
  then have "need \<le> bitcnt s" by linarith
  then show ?case using 0 by (intro bits_loop_enough) auto
next
  case (Suc n)
  show ?case
  proof (cases "need \<le> bitcnt s")
    case True
    then show ?thesis using Suc.prems by (intro bits_loop_enough) auto
  next
    case False
    then have need: "bitcnt s < need" by simp
    have lt: "incnt s < inlen s" using Suc.hyps(2) by simp
    let ?s = "s\<lparr>incnt := incnt s + 1, bitcnt := bitcnt s + 8\<rparr>"
    have "n = inlen ?s - incnt ?s" using Suc.hyps(2) by simp
    from Suc.hyps(1) [OF this wf_acc_step(1) [OF Suc.prems(1) lt]] show ?thesis
      using Suc.prems(3) need wf_acc_step(2) [OF Suc.prems(1) lt]
      by (simp add: bits_loop_more [OF Suc.prems(1) need lt])
  qed
qed

text \<open>
  The bits that \<open>inflate_bits\<close> returns are the next \<open>need\<close> bits of the stream, the first one the least
  significant; the call leaves by \<open>longjmp\<close> exactly when there are fewer.
\<close>

lemma inflate_bits_short:
  assumes "wf_in s" "length (state_bits s) < nat need"
  shows "inflate_bits s need = Longjmp"
proof -
  have "bits_loop s need (bitbuf s) = Longjmp"
    using assms by (intro bits_loop_short) (auto simp: wf_in_def wf_acc_def)
  then show ?thesis by (simp add: inflate_bits_def)
qed

lemma inflate_bits_ok:
  assumes "wf_in s" "0 \<le> need" "nat need \<le> length (state_bits s)"
  shows "\<exists>k b c. inflate_bits s need =
       Val (bits_value (take (nat need) (state_bits s)), s\<lparr>incnt := k, bitbuf := b, bitcnt := c\<rparr>) \<and>
     wf_in (s\<lparr>incnt := k, bitbuf := b, bitcnt := c\<rparr>) \<and>
     state_bits (s\<lparr>incnt := k, bitbuf := b, bitcnt := c\<rparr>) = drop (nat need) (state_bits s)"
proof -
  have "s\<lparr>bitbuf := bitbuf s\<rparr> = s" by simp
  then obtain val k c where l: "bits_loop s need (bitbuf s) = Val (val, s\<lparr>incnt := k, bitcnt := c\<rparr>)"
      and wf: "wf_acc (s\<lparr>incnt := k, bitcnt := c\<rparr>) val" and c: "need \<le> c" "c < need + 8"
      and bits: "state_bits (s\<lparr>incnt := k, bitcnt := c, bitbuf := val\<rparr>) = state_bits s"
    using bits_loop_ok [of s "bitbuf s" need] assms by (force simp: wf_in_def wf_acc_def)
  let ?n = "nat need"
  have c': "nat c = ?n + nat (c - need)" using c assms(2) by simp
  have "val AND (push_bit ?n 1 - 1) = take_bit ?n val"
    by (simp add: take_bit_eq_mask mask_eq_exp_minus_1 push_bit_eq_mult)
  also have "\<dots> = bits_value (take ?n (state_bits s))"
    unfolding bits [symmetric] by (simp add: state_bits_def c' int_bits_take bits_value_int_bits)
  finally have v: "val AND (2 ^ ?n - 1) = bits_value (take ?n (state_bits s))" by (simp add: push_bit_eq_mult)
  have d: "drop_bit ?n val < 2 ^ nat (c - need)" "0 \<le> drop_bit ?n val"
  proof -
    have "val < 2 ^ nat (c - need) * 2 ^ ?n" using wf by (simp add: wf_acc_def c' power_add mult.commute)
    moreover have "val div 2 ^ ?n * 2 ^ ?n \<le> val" by (simp add: minus_mod_eq_div_mult [symmetric])
    ultimately have "val div 2 ^ ?n * 2 ^ ?n < 2 ^ nat (c - need) * 2 ^ ?n" by linarith
    then have "val div 2 ^ ?n < 2 ^ nat (c - need)" by simp
    then show "drop_bit ?n val < 2 ^ nat (c - need)" by (simp add: drop_bit_eq_div)
    show "0 \<le> drop_bit ?n val" using wf by (simp add: wf_acc_def)
  qed
  show ?thesis
  proof (rule exI [of _ k], rule exI [of _ "drop_bit ?n val"], rule exI [of _ "c - need"], intro conjI)
    show "inflate_bits s need = Val (bits_value (take ?n (state_bits s)),
        s\<lparr>incnt := k, bitbuf := drop_bit ?n val, bitcnt := c - need\<rparr>)"
      by (simp add: inflate_bits_def l v)
    show "wf_in (s\<lparr>incnt := k, bitbuf := drop_bit ?n val, bitcnt := c - need\<rparr>)"
      using wf c d by (simp add: wf_in_def wf_acc_def)
    show "state_bits (s\<lparr>incnt := k, bitbuf := drop_bit ?n val, bitcnt := c - need\<rparr>) = drop ?n (state_bits s)"
      unfolding bits [symmetric] by (simp add: state_bits_def c' int_bits_drop)
  qed
qed

section \<open>The output of a state\<close>

text \<open>
  The bytes that a state has put out: they are the written cells of its array, and in the pass that only
  measures they are counted. The limits of a state do not change: the size of the array, if there is one, and the
  length of the input.
\<close>

definition has_out :: "inflate_state \<Rightarrow> byte list \<Rightarrow> bool" where
  "has_out s out \<longleftrightarrow> outcnt s = length out \<and>
     (\<forall>a. i_out s = Some a \<longrightarrow> length a = outlen s \<and> length out \<le> outlen s \<and> take (length out) a = map Some out)"

definition room :: "inflate_state \<Rightarrow> nat option \<times> nat" where
  "room s = (if i_out s = None then None else Some (outlen s), inlen s)"

definition fits_room :: "nat option \<Rightarrow> nat \<Rightarrow> bool" where
  "fits_room r n \<longleftrightarrow> (case r of None \<Rightarrow> True | Some m \<Rightarrow> n \<le> m)"

lemma has_out_cong:
  "outcnt s' = outcnt s \<Longrightarrow> i_out s' = i_out s \<Longrightarrow> outlen s' = outlen s \<Longrightarrow> has_out s' out = has_out s out"
  by (simp add: has_out_def)

lemma room_cong: "i_out s' = i_out s \<Longrightarrow> outlen s' = outlen s \<Longrightarrow> inlen s' = inlen s \<Longrightarrow> room s' = room s"
  by (simp add: room_def)

lemma has_out_updates [simp]:
  "has_out (s\<lparr>incnt := k\<rparr>) = has_out s" "has_out (s\<lparr>bitbuf := b\<rparr>) = has_out s" "has_out (s\<lparr>bitcnt := c\<rparr>) = has_out s"
  "room (s\<lparr>incnt := k\<rparr>) = room s" "room (s\<lparr>bitbuf := b\<rparr>) = room s" "room (s\<lparr>bitcnt := c\<rparr>) = room s"
  by (auto simp: has_out_def room_def fun_eq_iff)

lemma out_put_ok:
  assumes "has_out s out" "i_out s \<noteq> None" "length out < outlen s"
  shows "\<exists>a. out_put s c = Val (s\<lparr>i_out := Some a, outcnt := outcnt s + 1\<rparr>) \<and>
     has_out (s\<lparr>i_out := Some a, outcnt := outcnt s + 1\<rparr>) (out @ [c])"
proof -
  obtain a where a: "i_out s = Some a" using assms(2) by auto
  then have l: "length a = outlen s" "take (length out) a = map Some out" "outcnt s = length out"
    using assms(1) by (auto simp: has_out_def)
  then have "arr_put a (int (outcnt s)) c = Val (a[length out := Some c])"
    using assms(3) by (simp add: arr_put_def)
  moreover have "take (Suc (length out)) (a[length out := Some c]) = map Some (out @ [c])"
    using l assms(3) by (simp add: take_Suc_conv_app_nth)
  ultimately show ?thesis
    using a l assms(3) by (intro exI [of _ "a[length out := Some c]"]) (simp add: out_put_def has_out_def)
qed

section \<open>Stored blocks\<close>

definition rest :: "inflate_state \<Rightarrow> byte list" where
  "rest s = drop (incnt s) (take (inlen s) (i_in s))"

lemma rest_updates [simp]:
  "rest (s\<lparr>bitbuf := b\<rparr>) = rest s" "rest (s\<lparr>bitcnt := c\<rparr>) = rest s" "rest (s\<lparr>i_out := x\<rparr>) = rest s"
  "rest (s\<lparr>outcnt := n\<rparr>) = rest s"
  by (simp_all add: rest_def)

lemma rest_incnt: "rest (s\<lparr>incnt := incnt s + n\<rparr>) = drop n (rest s)"
  by (simp add: rest_def add.commute)

lemma rest_Cons_less: "rest s = c # r \<Longrightarrow> incnt s < inlen s"
  by (rule ccontr) (simp add: rest_def)

lemma in_next_rest:
  assumes "rest s = c # r"
  shows "in_next s = Val (c, s\<lparr>incnt := incnt s + 1\<rparr>)"
proof -
  have lt: "incnt s < length (take (inlen s) (i_in s))"
    using assms unfolding rest_def by (metis drop_all linorder_not_less list.distinct(1))
  then have "take (inlen s) (i_in s) ! incnt s = c"
    using assms unfolding rest_def by (metis Cons_nth_drop_Suc list.inject)
  then show ?thesis using lt by (simp add: in_next_def)
qed

lemma stored_loop_ok:
  assumes "has_out s out" "i_out s \<noteq> None" "length out + len \<le> outlen s" "len \<le> length (rest s)"
  shows "\<exists>a. stored_loop len s = Val (s\<lparr>i_out := Some a, outcnt := outcnt s + len, incnt := incnt s + len\<rparr>) \<and>
     has_out (s\<lparr>i_out := Some a, outcnt := outcnt s + len, incnt := incnt s + len\<rparr>) (out @ take len (rest s))"
  using assms
proof (induction len arbitrary: s out)
  case 0
  then obtain a where "i_out s = Some a" by auto
  then show ?case using 0 by (intro exI [of _ a]) (simp add: has_out_def)
next
  case (Suc len)
  obtain c r where r: "rest s = c # r" using Suc.prems(4) by (cases "rest s") auto
  let ?s = "s\<lparr>incnt := incnt s + 1\<rparr>"
  have "has_out ?s out" "i_out ?s \<noteq> None" "length out < outlen ?s" using Suc.prems by auto
  from out_put_ok [OF this, of c] obtain a where
    put: "out_put ?s c = Val (?s\<lparr>i_out := Some a, outcnt := outcnt s + 1\<rparr>)"
      and out: "has_out (?s\<lparr>i_out := Some a, outcnt := outcnt s + 1\<rparr>) (out @ [c])" by auto
  let ?t = "?s\<lparr>i_out := Some a, outcnt := outcnt s + 1\<rparr>"
  have rest: "rest ?t = r" using r by (simp add: rest_incnt [of s 1, simplified])
  have "i_out ?t \<noteq> None" "length (out @ [c]) + len \<le> outlen ?t" "len \<le> length (rest ?t)"
    using Suc.prems r rest by auto
  from Suc.IH [OF out this] obtain a' where
    "stored_loop len ?t = Val (?t\<lparr>i_out := Some a', outcnt := outcnt ?t + len, incnt := incnt ?t + len\<rparr>)"
    "has_out (?t\<lparr>i_out := Some a', outcnt := outcnt ?t + len, incnt := incnt ?t + len\<rparr>) ((out @ [c]) @ take len (rest ?t))"
    by blast
  then show ?case
    using put rest r by (intro exI [of _ a']) (simp add: in_next_rest [OF r] add.commute add.left_commute)
qed

text \<open>
  A stored block as the format describes it: the bits up to the next byte boundary are skipped; then the
  length, its complement and the bytes follow.
\<close>

function bits_bytes :: "bool list \<Rightarrow> byte list" where
  "bits_bytes bs = (if bs = [] then [] else word_of_int (bits_value (take 8 bs)) # bits_bytes (drop 8 bs))"
  by pat_completeness auto
termination
  by (relation "measure length") auto

declare bits_bytes.simps [simp del]

definition stored_spec :: "nat option \<Rightarrow> bool list \<Rightarrow> byte list \<Rightarrow> int \<times> bool list \<times> byte list" where
  "stored_spec r bs out =
     (let bs = drop (length bs mod 8) bs in
      if length bs < 32 then (2, bs, out)
      else
        let len = bits_value (take 16 bs); nlen = bits_value (take 16 (drop 16 bs)); bs = drop 32 bs in
        if nlen \<noteq> 65535 - len then (-2, bs, out)
        else if length bs < 8 * nat len then (2, bs, out)
        else if \<not> fits_room r (length out + nat len) then (1, bs, out)
        else (0, drop (8 * nat len) bs, out @ bits_bytes (take (8 * nat len) bs)))"

text \<open>
  A state stands for the bits it has still to deliver and the bytes it has put out. A call implements a
  step on those if it returns the same status and, when that is 0, such a state again; \<open>None\<close> is the end
  of the input.
\<close>

definition represents :: "inflate_state \<Rightarrow> nat option \<times> nat \<Rightarrow> bool list \<Rightarrow> byte list \<Rightarrow> bool" where
  "represents s r bs out \<longleftrightarrow> wf_in s \<and> state_bits s = bs \<and> has_out s out \<and> room s = r"

definition implements :: "nat option \<times> nat \<Rightarrow> (int \<times> inflate_state) inf \<Rightarrow> (int \<times> bool list \<times> byte list) option \<Rightarrow> bool" where
  "implements r c a \<longleftrightarrow>
     (case a of None \<Rightarrow> c = Longjmp
      | Some (v, bs, out) \<Rightarrow> \<exists>s. c = Val (v, s) \<and> (v = 0 \<longrightarrow> represents s r bs out))"

lemma bits_value_append: "bits_value (bs @ cs) = bits_value bs + 2 ^ length bs * bits_value cs"
  by (simp add: bits_value_def horner_sum_append)

lemma bits_value_byte [simp]: "bits_value (byte_bits b) = uint b"
  using unsigned_less [of b, where 'a = int]
  unfolding byte_bits_int bits_value_int_bits by (intro take_bit_int_eq_self) auto

lemma bits_bytes_concat: "bits_bytes (concat (map byte_bits r)) = r"
proof (induction r)
  case Nil
  then show ?case by (simp add: bits_bytes.simps)
next
  case (Cons b r)
  have "byte_bits b \<noteq> []" by (metis length_byte_bits list.size(3) zero_neq_numeral)
  with Cons show ?case by (simp add: bits_bytes.simps [of "byte_bits b @ bs" for bs])
qed

lemma length_concat_bits [simp]: "length (concat (map byte_bits r)) = 8 * length r"
  by (induction r) auto

lemma take_concat_bits: "take (8 * n) (concat (map byte_bits r)) = concat (map byte_bits (take n r))"
proof (induction n arbitrary: r)
  case (Suc n)
  then show ?case by (cases r) auto
qed simp

lemma drop_concat_bits: "drop (8 * n) (concat (map byte_bits r)) = concat (map byte_bits (drop n r))"
proof (induction n arbitrary: r)
  case (Suc n)
  then show ?case by (cases r) auto
qed simp

lemma state_bits_rest: "state_bits s = int_bits (nat (bitcnt s)) (bitbuf s) @ concat (map byte_bits (rest s))"
  by (simp add: state_bits_def rest_def)

lemma ucast_byte_inject [simp]: "(ucast (a :: byte) :: u32) = ucast b \<longleftrightarrow> a = b"
proof
  assume "(ucast a :: u32) = ucast b"
  then have "unat (ucast a :: u32) = unat (ucast b :: u32)" by simp
  moreover have "unat (ucast x :: u32) = unat x" for x :: byte
    using unat_byte_less [of x] by (simp add: unsigned_ucast_eq take_bit_nat_eq_self_iff)
  ultimately have "unat a = unat b" by simp
  then show "a = b" by (rule unsigned_word_eqI)
qed simp

lemma stored_length:
  fixes b0 b1 b2 b3 :: byte
  defines "len \<equiv> stored_len b0 b1"
  shows "unat len = unat b0 + 256 * unat b1"
    and "ucast b2 = NOT len AND 0xff \<longleftrightarrow> b2 = NOT b0"
    and "ucast b3 = drop_bit 8 (NOT len) AND 0xff \<longleftrightarrow> b3 = NOT b1"
proof -
  have m: "(0xff :: u32) = mask 8" by (simp add: mask_eq_exp_minus_1)
  have "uint len = uint b0 OR push_bit 8 (uint b1)"
    unfolding len_def stored_len_def by (rule bit_eqI) (auto simp: bit_simps dest: bit_imp_le_length)
  also have "\<dots> = uint b1 * 2 ^ 8 + uint b0"
    using push_or_eq_add [of "uint b0" 8 "uint b1"] unsigned_less [of b0, where 'a = int] by (simp add: or.commute)
  finally show "unat len = unat b0 + 256 * unat b1" by (simp add: nat_add_distrib nat_mult_distrib flip: nat_uint_eq)
  have "NOT len AND 0xff = ucast (NOT b0)"
    unfolding len_def stored_len_def m by (rule bit_word_eqI) (auto simp: bit_simps)
  then show "ucast b2 = NOT len AND 0xff \<longleftrightarrow> b2 = NOT b0"
    by simp
  have "drop_bit 8 (NOT len) AND 0xff = ucast (NOT b1)"
    unfolding len_def stored_len_def m by (rule bit_word_eqI) (auto simp: bit_simps dest: bit_imp_le_length)
  then show "ucast b3 = drop_bit 8 (NOT len) AND 0xff \<longleftrightarrow> b3 = NOT b1"
    by simp
qed

lemma stored_complement:
  fixes b0 b1 b2 b3 :: byte
  shows "uint b2 + 256 * uint b3 = 65535 - (uint b0 + 256 * uint b1) \<longleftrightarrow> b2 = NOT b0 \<and> b3 = NOT b1"
proof -
  have less: "uint b < 256" for b :: byte using unsigned_less [of b, where 'a = int] by simp
  have n: "uint (NOT b) = 255 - uint b" for b :: byte
  proof -
    have "(255 - uint b) mod 256 = 255 - uint b"
      by (rule mod_pos_pos_trivial) (use less [of b] uint_nonnegative [of b] in linarith)+
    then show ?thesis
      using less [of b] by (cases "uint b = 0") (auto simp: not_eq_complement uint_word_ariths zmod_zminus1_eq_if)
  qed
  from less [of b0] less [of b1] less [of b2] less [of b3]
  have "uint b2 + 256 * uint b3 = 65535 - (uint b0 + 256 * uint b1) \<longleftrightarrow> uint b2 = 255 - uint b0 \<and> uint b3 = 255 - uint b1"
    by (smt (verit) uint_nonnegative)
  then show ?thesis unfolding n [symmetric] by (auto intro: word_uint_eqI)
qed

text \<open>After the four bytes of the header.\<close>

lemma inflate_stored_header:
  fixes s :: inflate_state
  assumes "rest s = b0 # b1 # b2 # b3 # r" "incnt s + 4 \<le> inlen s"
  defines "t \<equiv> s\<lparr>bitbuf := 0, bitcnt := 0, incnt := incnt s + 4\<rparr>" and "len \<equiv> unat b0 + 256 * unat b1"
  shows "\<exists>s'. inflate_stored s =
     (if b2 = NOT b0 \<and> b3 = NOT b1 then
        if incnt t + len > inlen t then Val (2, t)
        else if i_out t \<noteq> None then
          if outcnt t + len > outlen t then Val (1, t)
          else inf_bind (stored_loop len t) (\<lambda>s. Val (0, s))
        else Val (0, t\<lparr>outcnt := outcnt t + len, incnt := incnt t + len\<rparr>)
      else Val (-2, s'))"
proof -
  let ?s = "s\<lparr>bitbuf := 0, bitcnt := 0\<rparr>"
  have n0: "in_next ?s = Val (b0, ?s\<lparr>incnt := incnt s + 1\<rparr>)"
    using in_next_rest [of ?s b0] assms(1) by simp
  have n: "in_next (?s\<lparr>incnt := incnt s + k\<rparr>) = Val (c, ?s\<lparr>incnt := incnt s + Suc k\<rparr>)"
    if "rest (s\<lparr>incnt := incnt s + k\<rparr>) = c # q" for k c q
  proof -
    have "rest (?s\<lparr>incnt := incnt s + k\<rparr>) = c # q" using that by (simp add: rest_def)
    from in_next_rest [OF this] show ?thesis by simp
  qed
  have n1: "in_next (?s\<lparr>incnt := Suc (incnt s)\<rparr>) = Val (b1, ?s\<lparr>incnt := incnt s + 2\<rparr>)"
    and n2: "in_next (?s\<lparr>incnt := Suc (Suc (incnt s))\<rparr>) = Val (b2, ?s\<lparr>incnt := incnt s + 3\<rparr>)"
    and n3: "in_next (?s\<lparr>incnt := incnt s + 3\<rparr>) = Val (b3, ?s\<lparr>incnt := incnt s + 4\<rparr>)"
    using n [of 1 b1] n [of 2 b2] n [of 3 b3] assms(1) rest_incnt [of s 1] rest_incnt [of s 2] rest_incnt [of s 3]
    by (simp_all add: numeral_eq_Suc)
  show ?thesis
    unfolding inflate_stored_def Let_def
    using assms(2) unfolding t_def len_def
    by (cases "b2 = NOT b0"; cases "b3 = NOT b1") (auto simp: n0 n1 n2 n3 stored_length)
qed


text \<open>
  \<open>inflate_stored\<close> implements a stored block.
\<close>

lemma stored_spec_short:
  assumes "length p < 8" "length q < 4"
  shows "\<exists>bs. stored_spec r (p @ concat (map byte_bits q)) out = (2, bs, out)"
  using assms by (simp add: stored_spec_def)

lemma stored_spec_bytes:
  fixes b0 b1 :: byte
  assumes "length p < 8"
  defines "len \<equiv> unat b0 + 256 * unat b1"
  shows "stored_spec r (p @ concat (map byte_bits (b0 # b1 # b2 # b3 # q))) out =
     (if b2 = NOT b0 \<and> b3 = NOT b1 then
        if length q < len then (2, concat (map byte_bits q), out)
        else if \<not> fits_room r (length out + len) then (1, concat (map byte_bits q), out)
        else (0, concat (map byte_bits (drop len q)), out @ take len q)
      else (-2, concat (map byte_bits q), out))"
proof -
  let ?b = "concat (map byte_bits (b0 # b1 # b2 # b3 # q))"
  have d: "drop (length (p @ ?b) mod 8) (p @ ?b) = ?b"
  proof -
    have "length (p @ ?b) mod 8 = length p" using assms(1) unfolding length_append length_concat_bits by presburger
    then show ?thesis by simp
  qed
  have v: "bits_value (take 16 ?b) = uint b0 + 256 * uint b1"
    "bits_value (take 16 (drop 16 ?b)) = uint b2 + 256 * uint b3" "drop 32 ?b = concat (map byte_bits q)"
    by (simp_all add: bits_value_append)
  have nlen: "nat (uint b0 + 256 * uint b1) = len" by (simp add: len_def nat_add_distrib nat_mult_distrib)
  show ?thesis
    unfolding stored_spec_def d Let_def v nlen stored_complement [symmetric] take_concat_bits drop_concat_bits bits_bytes_concat
    by auto
qed

lemma stored_represents:
  assumes "represents s r bs out" "n \<le> length (rest s)"
    and "has_out (s\<lparr>bitbuf := 0, bitcnt := 0, i_out := a, outcnt := k, incnt := incnt s + n\<rparr>) o'" "a = None \<longleftrightarrow> i_out s = None"
  shows "represents (s\<lparr>bitbuf := 0, bitcnt := 0, i_out := a, outcnt := k, incnt := incnt s + n\<rparr>) r
     (concat (map byte_bits (drop n (rest s)))) o'"
proof -
  have "rest (s\<lparr>bitbuf := 0, bitcnt := 0, i_out := a, outcnt := k, incnt := incnt s + n\<rparr>) = rest (s\<lparr>incnt := incnt s + n\<rparr>)"
    by (simp add: rest_def)
  then have "rest (s\<lparr>bitbuf := 0, bitcnt := 0, i_out := a, outcnt := k, incnt := incnt s + n\<rparr>) = drop n (rest s)"
    unfolding rest_incnt .
  moreover have "incnt s + n \<le> inlen s" using assms(1,2) by (auto simp: represents_def wf_in_def rest_def)
  ultimately show ?thesis
    using assms by (auto simp: represents_def wf_in_def state_bits_rest int_bits_def room_def)
qed

lemma inflate_stored_implements:
  assumes "represents s r bs out"
  shows "implements r (inflate_stored s) (Some (stored_spec (fst r) bs out))"
proof -
  have wf: "wf_in s" and out: "has_out s out" and r: "room s = r"
    and bs: "bs = int_bits (nat (bitcnt s)) (bitbuf s) @ concat (map byte_bits (rest s))"
    using assms by (auto simp: represents_def state_bits_rest)
  have p: "length (int_bits (nat (bitcnt s)) (bitbuf s)) < 8" using wf by (simp add: wf_in_def nat_less_iff)
  have len: "length (rest s) = inlen s - incnt s" using wf by (simp add: rest_def wf_in_def)
  show ?thesis
  proof (cases "length (rest s) < 4")
    case True
    then have "incnt s + 4 > inlen s" using len wf by (simp add: wf_in_def)
    then show ?thesis using stored_spec_short [OF p True, of "fst r" out] bs by (auto simp: implements_def inflate_stored_def)
  next
    case False
    then obtain b0 b1 b2 b3 q where q: "rest s = b0 # b1 # b2 # b3 # q"
      by (auto simp: numeral_eq_Suc not_less Suc_le_length_iff)
    have inlen: "incnt s + 4 \<le> inlen s" using False len wf by (simp add: wf_in_def)
    let ?t = "s\<lparr>bitbuf := 0, bitcnt := 0, incnt := incnt s + 4\<rparr>" and ?len = "unat b0 + 256 * unat b1"
    obtain s' where st: "inflate_stored s =
       (if b2 = NOT b0 \<and> b3 = NOT b1 then
          if incnt ?t + ?len > inlen ?t then Val (2, ?t)
          else if i_out ?t \<noteq> None then
            if outcnt ?t + ?len > outlen ?t then Val (1, ?t)
            else inf_bind (stored_loop ?len ?t) (\<lambda>s. Val (0, s))
          else Val (0, ?t\<lparr>outcnt := outcnt ?t + ?len, incnt := incnt ?t + ?len\<rparr>)
        else Val (-2, s'))"
      using inflate_stored_header [OF q inlen] by blast
    have spec: "stored_spec (fst r) bs out =
       (if b2 = NOT b0 \<and> b3 = NOT b1 then
          if length q < ?len then (2, concat (map byte_bits q), out)
          else if \<not> fits_room (fst r) (length out + ?len) then (1, concat (map byte_bits q), out)
          else (0, concat (map byte_bits (drop ?len q)), out @ take ?len q)
        else (-2, concat (map byte_bits q), out))"
      unfolding bs q by (rule stored_spec_bytes [OF p])
    have lq: "length q < ?len \<longleftrightarrow> incnt ?t + ?len > inlen ?t" using len q inlen by auto
    have t: "has_out ?t out" "outcnt ?t = length out" "rest ?t = q" using out q rest_incnt [of s 4] by (auto simp: has_out_def rest_def)
    have fin: "represents (?t\<lparr>i_out := a, outcnt := k, incnt := incnt ?t + ?len\<rparr>) r (concat (map byte_bits (drop ?len q))) o'"
      if "\<not> length q < ?len" "has_out (?t\<lparr>i_out := a, outcnt := k, incnt := incnt ?t + ?len\<rparr>) o'"
        "a = None \<longleftrightarrow> i_out s = None" for a k o'
    proof -
      have "drop (4 + ?len) (rest s) = drop ?len (drop 4 (rest s))" by (simp add: add.commute)
      also have "drop 4 (rest s) = q" by (simp add: q)
      finally have "drop (4 + ?len) (rest s) = drop ?len q" .
      moreover have "4 + ?len \<le> length (rest s)" using that(1) q by simp
      ultimately show ?thesis
        using stored_represents [OF assms, where n = "4 + ?len" and a = a and k = k and o' = o'] that by (simp add: add.assoc)
    qed
    show ?thesis
    proof (cases "b2 = NOT b0 \<and> b3 = NOT b1 \<and> \<not> length q < ?len \<and> fits_room (fst r) (length out + ?len)")
      case False
      have full: "i_out s \<noteq> None \<and> outlen s < outcnt s + ?len" if "\<not> fits_room (fst r) (length out + ?len)"
        using that t(2) unfolding r [symmetric] by (auto simp: room_def fits_room_def split: if_splits)
      from False consider "\<not> (b2 = NOT b0 \<and> b3 = NOT b1)" | "b2 = NOT b0 \<and> b3 = NOT b1" "length q < ?len"
        | "b2 = NOT b0 \<and> b3 = NOT b1" "\<not> length q < ?len" "\<not> fits_room (fst r) (length out + ?len)" by blast
      then show ?thesis
      proof cases
        case 1
        show ?thesis unfolding implements_def spec st if_not_P [OF 1] by simp
      qed (use lq full in \<open>simp_all add: implements_def spec st\<close>)
    next
      case True
      show ?thesis
      proof (cases "i_out s = None")
        case None: True
        have "has_out (?t\<lparr>i_out := None, outcnt := length out + ?len, incnt := incnt ?t + ?len\<rparr>) (out @ take ?len q)"
          using True by (simp add: has_out_def)
        then have "represents (?t\<lparr>i_out := None, outcnt := length out + ?len, incnt := incnt ?t + ?len\<rparr>) r
            (concat (map byte_bits (drop ?len q))) (out @ take ?len q)"
          using True None by (intro fin) auto
        moreover have "?t\<lparr>i_out := None, outcnt := length out + ?len, incnt := incnt ?t + ?len\<rparr> =
            ?t\<lparr>outcnt := length out + ?len, incnt := incnt ?t + ?len\<rparr>"
          using None by (cases s) simp
        ultimately have "represents (?t\<lparr>outcnt := length out + ?len, incnt := incnt ?t + ?len\<rparr>) r
            (concat (map byte_bits (drop ?len q))) (out @ take ?len q)" by (simp only:)
        then show ?thesis
          using True None t lq unfolding implements_def spec st by simp
      next
        case Some: False
        have room: "length out + ?len \<le> outlen ?t" using Some r True by (auto simp: room_def fits_room_def split: if_splits)
        moreover have "?len \<le> length (rest ?t)" using True t(3) by simp
        ultimately obtain a where a: "stored_loop ?len ?t =
              Val (?t\<lparr>i_out := Some a, outcnt := outcnt ?t + ?len, incnt := incnt ?t + ?len\<rparr>)"
            "has_out (?t\<lparr>i_out := Some a, outcnt := outcnt ?t + ?len, incnt := incnt ?t + ?len\<rparr>) (out @ take ?len (rest ?t))"
          using stored_loop_ok [OF t(1), of ?len] Some by auto
        from fin [OF _ a(2)] show ?thesis
          using True Some t lq a(1) room unfolding implements_def spec st by auto
      qed
    qed
  qed
qed

end
