(* ===== verification/Deflate_Huffman.thy ===== *)
theory Deflate_Huffman
  imports Deflate_Bits
begin

text \<open>
  Huffman codes in the decoder of \<open>cmd/pseudo/gzip.c\<close>: \<open>struct Huffman\<close>, \<open>huffman_construct\<close> and
  \<open>inflate_decode\<close>.

  A code is given by the lengths of its words. The reference definition assigns each symbol the word of its
  length that the format prescribes: the words of a length are consecutive numbers in the order of
  the symbols, after those of the shorter lengths. The constructor is shown to reject exactly the lengths that no
  code can have and to build the tables of the prescribed code, and the decoder, which goes through those
  tables one bit at a time, to return the symbol whose word comes next in the stream.
\<close>

section \<open>Definitions\<close>

record huffman =
  h_count :: "int arr"
  h_symbol :: "int arr"

definition MAXBITS :: nat where [simp]: "MAXBITS = 15"
definition MAXLCODES :: nat where [simp]: "MAXLCODES = 286"
definition MAXDCODES :: nat where [simp]: "MAXDCODES = 30"
definition MAXCODES :: nat where [simp]: "MAXCODES = MAXLCODES + MAXDCODES"
definition FIXLCODES :: nat where [simp]: "FIXLCODES = 288"

lemma inf_bind_cong [fundef_cong]:
  "m = m' \<Longrightarrow> (\<And>x. m' = Val x \<Longrightarrow> f x = f' x) \<Longrightarrow> inf_bind m f = inf_bind m' f'"
  by (cases m') auto

text \<open>The two loops of \<open>inflate_decode\<close>; \<open>next\<close> is \<open>h->count + len\<close>.\<close>

function decode_steps :: "inflate_state \<Rightarrow> huffman \<Rightarrow> nat \<Rightarrow> int \<Rightarrow> int \<Rightarrow> int \<Rightarrow> int \<Rightarrow> int \<Rightarrow> (int \<times> inflate_state) inf" where
  "decode_steps s h len code first index buf left =
     (if left \<noteq> 0 then
        inf_bind (arr_get (h_count h) (int len)) (\<lambda>count.
          let code = code OR (buf AND 1); buf = drop_bit 1 buf in
          if code - count < first then
            inf_bind (arr_get (h_symbol h) (index + (code - first))) (\<lambda>symbol.
              Val (symbol, s\<lparr>bitbuf := buf, bitcnt := (bitcnt s - int len) AND 7\<rparr>))
          else
            decode_steps s h (len + 1) (push_bit 1 code) (push_bit 1 (first + count)) (index + count) buf (left - 1))
      else
        let left = int (MAXBITS + 1) - int len in
        if left = 0 then Val (-10, s)
        else if incnt s = inlen s then Longjmp
        else inf_bind (in_next s) (\<lambda>(b, s).
          decode_steps s h len code first index (uint b) (if left > 8 then 8 else left)))"
  by pat_completeness auto
termination
proof (relation "measure (\<lambda>(s, h, len, code, first, index, buf, left).
    2 * (length (h_count h) - len) + (if left = 0 then 1 else 0))")
qed (auto simp: arr_get_def split: if_splits)

declare decode_steps.simps [simp del]

definition inflate_decode :: "inflate_state \<Rightarrow> huffman \<Rightarrow> (int \<times> inflate_state) inf" where
  "inflate_decode s h = decode_steps s h 1 0 0 0 (bitbuf s) (bitcnt s)"

text \<open>The loops of \<open>huffman_construct\<close>, in their order.\<close>

fun count_loop :: "int arr \<Rightarrow> int arr \<Rightarrow> int arr inf" where
  "count_loop count [] = Val count"
| "count_loop count (l # lens) =
     (case l of None \<Rightarrow> Undefined
      | Some l \<Rightarrow> inf_bind (arr_get count l) (\<lambda>c. inf_bind (arr_put count l (c + 1)) (\<lambda>count. count_loop count lens)))"

fun left_loop :: "int arr \<Rightarrow> int \<Rightarrow> int inf" where
  "left_loop [] left = Val left"
| "left_loop (c # count) left =
     (case c of None \<Rightarrow> Undefined
      | Some c \<Rightarrow> let left = push_bit 1 left - c in if left < 0 then Val left else left_loop count left)"

function offs_loop :: "int arr \<Rightarrow> nat \<Rightarrow> int arr \<Rightarrow> int arr inf" where
  "offs_loop count len offs =
     (if len < MAXBITS then
        inf_bind (arr_get offs (int len)) (\<lambda>v. inf_bind (arr_get count (int len)) (\<lambda>c.
        inf_bind (arr_put offs (int len + 1) (v + c)) (\<lambda>offs. offs_loop count (len + 1) offs)))
      else Val offs)"
  by pat_completeness auto
termination
  by (relation "measure (\<lambda>(count, len, offs). MAXBITS - len)") auto

declare offs_loop.simps [simp del]

fun symbol_loop :: "int \<Rightarrow> int arr \<Rightarrow> int arr \<Rightarrow> int arr \<Rightarrow> int arr inf" where
  "symbol_loop symbol [] offs syms = Val syms"
| "symbol_loop symbol (l # lens) offs syms =
     (case l of None \<Rightarrow> Undefined
      | Some l \<Rightarrow>
          if l \<noteq> 0 then
            inf_bind (arr_get offs l) (\<lambda>v. inf_bind (arr_put syms v symbol) (\<lambda>syms.
            inf_bind (arr_put offs l (v + 1)) (\<lambda>offs. symbol_loop (symbol + 1) lens offs syms)))
          else symbol_loop (symbol + 1) lens offs syms)"

definition huffman_construct :: "huffman \<Rightarrow> int arr \<Rightarrow> nat \<Rightarrow> (int \<times> huffman) inf" where
  "huffman_construct h lens n =
     (if n > length lens then Undefined
      else
        inf_bind (count_loop (replicate (MAXBITS + 1) (Some 0)) (take n lens)) (\<lambda>count.
        let h = h\<lparr>h_count := count\<rparr> in
        inf_bind (arr_get count 0) (\<lambda>c0.
        if c0 = int n then Val (0, h)
        else inf_bind (left_loop (drop 1 count) 1) (\<lambda>left.
        if left < 0 then Val (left, h)
        else
          inf_bind (offs_loop count 1 ((replicate (MAXBITS + 1) None)[1 := Some 0])) (\<lambda>offs.
          inf_bind (symbol_loop 0 (take n lens) offs (h_symbol h)) (\<lambda>syms.
          Val (left, h\<lparr>h_symbol := syms\<rparr>)))))))"

section \<open>The decoder on bits\<close>

text \<open>
  What the loops of \<open>inflate_decode\<close> do with the bits of the stream, apart from how they fetch them: the length
  of the word found, its number among the words of that length and the bits that follow, or whether
  the word is too long or the input ends.
\<close>

function dec_bits :: "(nat \<Rightarrow> int) \<Rightarrow> nat \<Rightarrow> int \<Rightarrow> int \<Rightarrow> bool list \<Rightarrow> bool + (nat \<times> int \<times> bool list)" where
  "dec_bits c len code first bs =
     (if len > 15 then Inl True
      else case bs of [] \<Rightarrow> Inl False
      | b # bs \<Rightarrow>
          if code + of_bool b < first + c len then Inr (len, code + of_bool b - first, bs)
          else dec_bits c (len + 1) (2 * (code + of_bool b)) (2 * (first + c len)) bs)"
  by pat_completeness auto
termination
  by (relation "measure (\<lambda>(c, len, code, first, bs). 16 - len)") auto

declare dec_bits.simps [simp del]

fun code_offset :: "(nat \<Rightarrow> int) \<Rightarrow> nat \<Rightarrow> int" where
  "code_offset c 0 = 0"
| "code_offset c (Suc l) = code_offset c l + (if l = 0 then 0 else c l)"

lemma or_low_bit: "even (code :: int) \<Longrightarrow> code OR (buf AND 1) = code + of_bool (bit buf 0)"
  using or_low_eq_add [of "buf AND 1" 1 code] by (simp add: and_one_eq mod_2_eq_odd bit_0)

lemma int_bits_Suc: "int_bits (Suc n) v = bit v 0 # int_bits n (drop_bit 1 v)"
  by (simp add: int_bits_def upt_rec [of 0] map_Suc_upt [symmetric] bit_drop_bit_eq comp_def del: upt_Suc)

lemma div_2_less:
  assumes "(buf :: int) < 2 ^ Suc n"
  shows "drop_bit 1 buf < 2 ^ n"
  using assms by (simp add: drop_bit_eq_div)

definition dec_result :: "inflate_state \<Rightarrow> huffman \<Rightarrow> (nat \<Rightarrow> int) \<Rightarrow> (int \<times> inflate_state) inf \<Rightarrow> bool + (nat \<times> int \<times> bool list) \<Rightarrow> bool" where
  "dec_result s h c r d \<longleftrightarrow>
     (case d of
        Inl big \<Rightarrow> if big then \<exists>k. r = Val (-10, s\<lparr>incnt := k\<rparr>) else r = Longjmp
      | Inr (l, n, bs) \<Rightarrow> \<exists>k b cc. r = inf_bind (arr_get (h_symbol h) (code_offset c l + n))
            (\<lambda>symbol. Val (symbol, s\<lparr>incnt := k, bitbuf := b, bitcnt := cc\<rparr>)) \<and>
          wf_in (s\<lparr>incnt := k, bitbuf := b, bitcnt := cc\<rparr>) \<and> state_bits (s\<lparr>incnt := k, bitbuf := b, bitcnt := cc\<rparr>) = bs)"

lemma dec_resultI:
  "r = inf_bind (arr_get (h_symbol h) (code_offset c l + n))
      (\<lambda>symbol. Val (symbol, s\<lparr>incnt := k, bitbuf := b, bitcnt := cc\<rparr>)) \<Longrightarrow>
   wf_in (s\<lparr>incnt := k, bitbuf := b, bitcnt := cc\<rparr>) \<Longrightarrow> state_bits (s\<lparr>incnt := k, bitbuf := b, bitcnt := cc\<rparr>) = bs \<Longrightarrow>
   dec_result s h c r (Inr (l, n, bs))"
  unfolding dec_result_def sum.case prod.case by blast

lemma dec_result_incnt: "dec_result (s\<lparr>incnt := k\<rparr>) h c r d \<Longrightarrow> dec_result s h c r d"
  by (auto simp: dec_result_def split: sum.splits if_splits)

lemma decode_steps_dec:
  assumes "h_count h = map (\<lambda>l. Some (cnt l)) [0..<16]" "\<forall>l>0. cnt l = c l"
    and "incnt s \<le> inlen s" "inlen s \<le> length (i_in s)" "even code" "1 \<le> len" "len \<le> 16"
    and "0 \<le> buf" "buf < 2 ^ a" "a \<le> 8" "left = int a \<or> left = 16 - int len" "0 \<le> left" "left \<le> int a" "left \<le> 16 - int len"
    and "(bitcnt s - int len + 1 - int a) mod 8 = 0"
  shows "dec_result s h c (decode_steps s h len code first (code_offset c len) buf left)
     (dec_bits c len code first (int_bits a buf @ concat (map byte_bits (rest s))))"
  using assms
proof (induction "2 * (16 - len) + (if left = 0 then 1 else 0)" arbitrary: s len code first buf left a rule: less_induct)
  case less
  show ?case
  proof (cases "left = 0")
    case False
    then obtain a' where a: "a = Suc a'" using less.prems by (cases a) auto
    have len: "len < 16" using False less.prems by auto
    have f: "arr_get (h_count h) (int len) = Val (c len)"
      using less.prems(1,2,6) len by (simp add: arr_get_def)
    have cd: "code OR (buf AND 1) = code + of_bool (bit buf 0)"
      using less.prems(5) by (rule or_low_bit)
    have buf: "0 \<le> drop_bit 1 buf" "drop_bit 1 buf < 2 ^ a'" using less.prems(8,9) a div_2_less [of buf a'] by auto
    have m: "(bitcnt s - int len) AND 7 = int a'"
    proof -
      have "(bitcnt s - int len - int a') mod 8 = 0" using less.prems(15) a by (simp add: algebra_simps)
      moreover have "int a' mod 8 = int a'" using a less.prems(10) by simp
      ultimately have "(bitcnt s - int len) mod 8 = int a'" by (metis mod_diff_right_eq mod_eq_dvd_iff mod_0_imp_dvd)
      then show ?thesis using and_mask_mod [of "bitcnt s - int len" 3] by (simp add: mask_eq_exp_minus_1)
    qed
    show ?thesis
    proof (cases "code + of_bool (bit buf 0) < first + c len")
      case True
      let ?s = "s\<lparr>incnt := incnt s, bitbuf := drop_bit 1 buf, bitcnt := int a'\<rparr>"
      have "wf_in ?s" using buf a less.prems(3,4,10) by (auto simp: wf_in_def)
      moreover have "state_bits ?s = int_bits a' (drop_bit 1 buf) @ concat (map byte_bits (rest s))"
        by (simp add: state_bits_rest rest_def)
      moreover have "decode_steps s h len code first (code_offset c len) buf left =
          inf_bind (arr_get (h_symbol h) (code_offset c len + (code + of_bool (bit buf 0) - first))) (\<lambda>symbol. Val (symbol, ?s))"
        using False True by (simp add: decode_steps.simps [of s] f cd m Let_def algebra_simps)
      moreover have "dec_bits c len code first (int_bits a buf @ concat (map byte_bits (rest s))) =
          Inr (len, code + of_bool (bit buf 0) - first, int_bits a' (drop_bit 1 buf) @ concat (map byte_bits (rest s)))"
        using True len by (simp add: dec_bits.simps [of c len] a int_bits_Suc)
      ultimately show ?thesis by (simp only: dec_resultI)
    next
      case more: False
      have "dec_result s h c (decode_steps s h (len + 1) (push_bit 1 (code + of_bool (bit buf 0)))
           (push_bit 1 (first + c len)) (code_offset c (len + 1)) (drop_bit 1 buf) (left - 1))
         (dec_bits c (len + 1) (push_bit 1 (code + of_bool (bit buf 0))) (push_bit 1 (first + c len))
           (int_bits a' (drop_bit 1 buf) @ concat (map byte_bits (rest s))))"
        using less.prems False len buf a
        by (intro less.hyps) (auto simp: push_bit_eq_mult algebra_simps split: if_splits)
      moreover have "decode_steps s h len code first (code_offset c len) buf left =
          decode_steps s h (len + 1) (push_bit 1 (code + of_bool (bit buf 0)))
           (push_bit 1 (first + c len)) (code_offset c (len + 1)) (drop_bit 1 buf) (left - 1)"
        using False more less.prems(6) by (simp add: decode_steps.simps [of s h len] f cd Let_def algebra_simps)
      ultimately show ?thesis
        using more len by (simp add: dec_bits.simps [of c len] a int_bits_Suc push_bit_eq_mult mult.commute)
    qed
  next
    case True
    show ?thesis
    proof (cases "len = 16")
      case True
      then show ?thesis using \<open>left = 0\<close>
        by (simp add: decode_steps.simps [of s] dec_bits.simps [of c 16] dec_result_def)
          (rule exI [of _ "incnt s"], simp)
    next
      case False
      then have a: "a = 0" using True less.prems(7,11) by auto
      have nil: "int_bits 0 buf = []" by (simp add: int_bits_def)
      show ?thesis
      proof (cases "rest s")
        case Nil
        then have "incnt s = inlen s" using less.prems(3,4) by (simp add: rest_def)
        then show ?thesis
          using True False less.prems(7) Nil by (simp add: decode_steps.simps [of s] dec_bits.simps [of c len] dec_result_def a nil)
      next
        case (Cons b r)
        let ?s = "s\<lparr>incnt := incnt s + 1\<rparr>"
        have ne: "incnt s < inlen s" using Cons by (rule rest_Cons_less)
        have "rest ?s = r" using Cons rest_incnt [of s 1] by simp
        have b: "uint b < 2 ^ 8" using unsigned_less [of b, where 'a = int] by simp
        have m: "(bitcnt s - int len + 1 - int 8) mod 8 = 0" using less.prems(15) a by presburger
        let ?left = "if 16 - int len > 8 then 8 else 16 - int len"
        have "dec_result ?s h c (decode_steps ?s h len code first (code_offset c len) (uint b) ?left)
          (dec_bits c len code first (int_bits 8 (uint b) @ concat (map byte_bits (rest ?s))))"
          using less.prems(1-14) m True False ne b a
          by (intro less.hyps) (auto split: if_splits)
        moreover have "decode_steps s h len code first (code_offset c len) buf left =
            decode_steps ?s h len code first (code_offset c len) (uint b) ?left"
          using True False less.prems(7) ne by (simp add: decode_steps.simps [of s h len] in_next_rest [OF Cons])
        ultimately show ?thesis
          using dec_result_incnt [where s = s and k = "incnt s + 1"] \<open>rest ?s = r\<close> by (simp add: Cons a nil byte_bits_int)
      qed
    qed
  qed
qed

section \<open>The prescribed code\<close>

text \<open>
  The number of words of each length, the first word of a length, and the word of a symbol: the most
  significant bit comes first in the stream.
\<close>

definition len_count :: "nat list \<Rightarrow> nat \<Rightarrow> int" where
  "len_count lens l = (if l = 0 then 0 else int (count_list lens l))"

fun first_code :: "(nat \<Rightarrow> int) \<Rightarrow> nat \<Rightarrow> int" where
  "first_code c 0 = 0"
| "first_code c (Suc l) = 2 * (first_code c l + c l)"

definition code_rank :: "nat list \<Rightarrow> nat \<Rightarrow> nat" where
  "code_rank lens s = count_list (take s lens) (lens ! s)"

definition code_word :: "nat list \<Rightarrow> nat \<Rightarrow> bool list" where
  "code_word lens s = rev (int_bits (lens ! s) (first_code (len_count lens) (lens ! s) + int (code_rank lens s)))"

text \<open>Lengths are over-subscribed if the words of some length do not fit into that many bits.\<close>

definition subscribed :: "nat list \<Rightarrow> bool" where
  "subscribed lens \<longleftrightarrow> (\<forall>l \<in> set [0..<16]. first_code (len_count lens) l + len_count lens l \<le> 2 ^ l)"

text \<open>The reference decoder: the symbol whose word comes next.\<close>

definition huff_decode :: "nat list \<Rightarrow> bool list \<Rightarrow> (nat \<times> bool list) option" where
  "huff_decode lens bs =
     (case find (\<lambda>s. lens ! s \<noteq> 0 \<and> prefix (code_word lens s) bs) [0..<length lens] of
        None \<Rightarrow> None
      | Some s \<Rightarrow> Some (s, drop (lens ! s) bs))"

definition msb_value :: "bool list \<Rightarrow> int" where
  "msb_value bs = bits_value (rev bs)"

lemma msb_value_snoc: "msb_value (bs @ [b]) = 2 * msb_value bs + of_bool b"
  by (simp add: msb_value_def bits_value_def)

lemma msb_value_bound: "0 \<le> msb_value bs" "msb_value bs < 2 ^ length bs"
  using bits_value_bound [of "rev bs"] by (auto simp: msb_value_def)

lemma msb_value_Nil [simp]: "msb_value [] = 0"
  by (simp add: msb_value_def bits_value_def)

lemma msb_value_take:
  "k \<le> length bs \<Longrightarrow> msb_value (take k bs) = msb_value bs div 2 ^ (length bs - k)"
proof (induction bs rule: rev_induct)
  case (snoc b bs)
  show ?case
  proof (cases "k = Suc (length bs)")
    case False
    then have k: "k \<le> length bs" using snoc.prems by simp
    have "msb_value (bs @ [b]) div 2 ^ (length (bs @ [b]) - k) =
        (2 * msb_value bs + of_bool b) div 2 div 2 ^ (length bs - k)"
      using k zdiv_zmult2_eq [of "2 ^ (length bs - k)" "2 * msb_value bs + of_bool b" 2]
      by (simp only: msb_value_snoc) (simp add: Suc_diff_le del: div_mult_self3)
    then show ?thesis using snoc.IH k by simp
  qed simp
qed simp

lemma int_bits_bits_value: "int_bits (length bs) (bits_value bs) = bs"
  by (rule nth_equalityI) (simp_all add: int_bits_def bits_value_def bit_horner_sum_bit_iff)

lemma int_bits_msb: "rev (int_bits (length bs) (msb_value bs)) = bs"
  using int_bits_bits_value [of "rev bs"] by (simp add: msb_value_def)

lemma msb_value_code_word:
  assumes "0 \<le> v" "v < 2 ^ n"
  shows "msb_value (rev (int_bits n v)) = v"
  using assms by (simp add: msb_value_def bits_value_int_bits take_bit_int_eq_self)

lemma len_count_0 [simp]: "len_count lens 0 = 0"
  by (simp add: len_count_def)

lemma len_count_nonneg [simp]: "0 \<le> len_count lens l"
  by (simp add: len_count_def)

lemma first_code_grows:
  assumes "\<And>l. 0 \<le> c l" "k < l"
  shows "2 ^ (l - k) * (first_code c k + c k) \<le> first_code c l"
  using assms(2)
proof (induction l)
  case (Suc l)
  show ?case
  proof (cases "k = l")
    case False
    then have "2 ^ (l - k) * (first_code c k + c k) \<le> first_code c l" using Suc by simp
    then have "2 * (2 ^ (l - k) * (first_code c k + c k)) \<le> 2 * (first_code c l + c l)"
      using assms(1) [of l] by (intro mult_left_mono) auto
    then show ?thesis using False Suc.prems by (simp add: Suc_diff_le)
  qed simp
qed simp

lemma code_rank_less: "s < length lens \<Longrightarrow> code_rank lens s < count_list lens (lens ! s)"
proof -
  assume s: "s < length lens"
  have "count_list lens (lens ! s) = count_list (take s lens @ lens ! s # drop (Suc s) lens) (lens ! s)"
    by (simp only: id_take_nth_drop [OF s, symmetric])
  then show ?thesis by (simp add: code_rank_def count_list_append)
qed

lemma code_rank_mono:
  assumes "s < t" "t < length lens" "lens ! s = lens ! t"
  shows "code_rank lens s < code_rank lens t"
  using code_rank_less [of s "take t lens"] assms by (simp add: code_rank_def)

lemma code_rank_inject:
  assumes "s < length lens" "t < length lens" "lens ! s = lens ! t" "code_rank lens s = code_rank lens t"
  shows "s = t"
  using assms code_rank_mono [of s t lens] code_rank_mono [of t s lens] by (metis less_irrefl nat_neq_iff)

lemma code_rank_exists: "n < count_list lens l \<Longrightarrow> \<exists>s < length lens. lens ! s = l \<and> code_rank lens s = n"
proof (induction lens arbitrary: n)
  case (Cons a lens)
  show ?case
  proof (cases "a = l \<and> n = 0")
    case True
    then show ?thesis by (intro exI [of _ 0]) (simp add: code_rank_def)
  next
    case False
    then have "(if a = l then n - 1 else n) < count_list lens l" using Cons.prems by (auto split: if_splits)
    from Cons.IH [OF this] obtain s where "s < length lens" "lens ! s = l" "code_rank lens s = (if a = l then n - 1 else n)"
      by auto
    then show ?thesis using False by (intro exI [of _ "Suc s"]) (auto simp: code_rank_def split: if_splits)
  qed
qed simp

section \<open>The decoder finds the prescribed words\<close>

lemma dec_bits_finds:
  assumes "length pre + 1 = len" "len \<le> l" "l \<le> 15" "length (pre @ w) = l"
    and "\<And>k. len \<le> k \<Longrightarrow> k < l \<Longrightarrow> first_code c k + c k \<le> msb_value (take k (pre @ w))"
    and "msb_value (pre @ w) < first_code c l + c l"
  shows "dec_bits c len (2 * msb_value pre) (first_code c len) (w @ bs) = Inr (l, msb_value (pre @ w) - first_code c l, bs)"
  using assms
proof (induction w arbitrary: pre len)
  case Nil
  then show ?case by simp
next
  case (Cons b w)
  show ?case
  proof (cases "len = l")
    case True
    then have "w = []" using Cons.prems(1,4) by auto
    then show ?thesis using Cons.prems True by (simp add: dec_bits.simps [of c l] msb_value_snoc)
  next
    case False
    then have len: "len < l" using Cons.prems(2) by simp
    have "first_code c len + c len \<le> msb_value (take len (pre @ b # w))" using Cons.prems(5) len by simp
    also have "take len (pre @ b # w) = pre @ [b]" using Cons.prems(1) by auto
    finally have "dec_bits c len (2 * msb_value pre) (first_code c len) ((b # w) @ bs) =
        dec_bits c (len + 1) (2 * msb_value (pre @ [b])) (first_code c (len + 1)) (w @ bs)"
      using len Cons.prems(3) by (simp add: dec_bits.simps [of c len] msb_value_snoc)
    also have "\<dots> = Inr (l, msb_value ((pre @ [b]) @ w) - first_code c l, bs)"
      using Cons.prems len by (intro Cons.IH) auto
    finally show ?thesis by simp
  qed
qed

lemma dec_bits_sound:
  assumes "dec_bits c len (2 * msb_value pre) (first_code c len) bs = Inr (l, n, bs')" "length pre + 1 = len"
    "first_code c len \<le> 2 * msb_value pre"
  shows "\<exists>w. bs = w @ bs' \<and> length (pre @ w) = l \<and> l \<le> 15 \<and> len \<le> l \<and> msb_value (pre @ w) = first_code c l + n \<and> 0 \<le> n \<and> n < c l"
  using assms
proof (induction bs arbitrary: pre len)
  case Nil
  then show ?case by (simp add: dec_bits.simps [of c len] split: if_splits)
next
  case (Cons b bs)
  show ?case
  proof (cases "2 * msb_value pre + of_bool b < first_code c len + c len")
    case True
    then show ?thesis
      using Cons.prems by (intro exI [of _ "[b]"]) (auto simp: dec_bits.simps [of c len] msb_value_snoc split: if_splits)
  next
    case False
    then have "dec_bits c (Suc len) (2 * msb_value (pre @ [b])) (first_code c (Suc len)) bs = Inr (l, n, bs')"
      using Cons.prems by (cases b) (simp_all add: dec_bits.simps [of c len] msb_value_snoc split: if_splits)
    moreover have "first_code c (Suc len) \<le> 2 * msb_value (pre @ [b])" using False by (simp add: msb_value_snoc)
    ultimately obtain w where "bs = w @ bs'" "length ((pre @ [b]) @ w) = l" "l \<le> 15" "Suc len \<le> l"
        "msb_value ((pre @ [b]) @ w) = first_code c l + n" "0 \<le> n" "n < c l"
      using Cons.IH [of "Suc len" "pre @ [b]"] Cons.prems(2) by auto
    then show ?thesis by (intro exI [of _ "b # w"]) auto
  qed
qed

lemma dec_bits_fails:
  assumes "dec_bits c len code first bs = Inl big" "len \<le> 16"
  shows "big \<longleftrightarrow> 16 \<le> len + length bs"
  using assms
proof (induction c len code first bs rule: dec_bits.induct)
  case (1 c len code first bs)
  show ?case
  proof (cases "len = 16")
    case True
    then show ?thesis using 1(2) by (simp add: dec_bits.simps [of c 16])
  next
    case False
    then show ?thesis
      using 1 by (cases bs) (auto simp: dec_bits.simps [of c len] split: if_splits)
  qed
qed

lemma code_word_facts:
  assumes "subscribed lens" "s < length lens" "lens ! s \<noteq> 0" "lens ! s \<le> 15"
  shows "length (code_word lens s) = lens ! s"
    and "msb_value (code_word lens s) = first_code (len_count lens) (lens ! s) + int (code_rank lens s)"
    and "msb_value (code_word lens s) < first_code (len_count lens) (lens ! s) + len_count lens (lens ! s)"
proof -
  let ?c = "len_count lens" and ?l = "lens ! s"
  have r: "int (code_rank lens s) < ?c ?l" using code_rank_less [OF assms(2)] assms(3) by (simp add: len_count_def)
  have "first_code ?c ?l + ?c ?l \<le> 2 ^ ?l" using assms(1,4) by (auto simp: subscribed_def)
  moreover have "0 \<le> first_code ?c l" for l by (induction l) auto
  ultimately have v: "0 \<le> first_code ?c ?l + int (code_rank lens s)" "first_code ?c ?l + int (code_rank lens s) < 2 ^ ?l"
    using r by (smt (verit) of_nat_0_le_iff)+
  show "length (code_word lens s) = ?l" by (simp add: code_word_def)
  show "msb_value (code_word lens s) = first_code ?c ?l + int (code_rank lens s)"
    unfolding code_word_def using v by (rule msb_value_code_word)
  with r show "msb_value (code_word lens s) < first_code ?c ?l + ?c ?l" by simp
qed

text \<open>The decoder reads the word of a symbol.\<close>

lemma dec_bits_code_word:
  assumes "subscribed lens" "s < length lens" "lens ! s \<noteq> 0" "lens ! s \<le> 15"
  shows "dec_bits (len_count lens) 1 0 0 (code_word lens s @ bs) = Inr (lens ! s, int (code_rank lens s), bs)"
proof -
  let ?c = "len_count lens" and ?l = "lens ! s" and ?w = "code_word lens s"
  note f = code_word_facts [OF assms]
  have "first_code ?c k + ?c k \<le> msb_value (take k ([] @ ?w))" if "1 \<le> k" "k < ?l" for k
  proof -
    have "2 ^ (?l - k) * (first_code ?c k + ?c k) \<le> first_code ?c ?l" using that by (intro first_code_grows) auto
    also have "\<dots> \<le> msb_value ?w" using f(2) by simp
    finally have "2 ^ (?l - k) * (first_code ?c k + ?c k) div 2 ^ (?l - k) \<le> msb_value ?w div 2 ^ (?l - k)"
      by (rule zdiv_mono1) simp
    then have "first_code ?c k + ?c k \<le> msb_value ?w div 2 ^ (?l - k)" by simp
    then show ?thesis using that f(1) msb_value_take [of k ?w] by simp
  qed
  then have "dec_bits ?c 1 (2 * msb_value []) (first_code ?c 1) (?w @ bs) = Inr (?l, msb_value ([] @ ?w) - first_code ?c ?l, bs)"
    using assms f by (intro dec_bits_finds) auto
  then show ?thesis by (simp add: f(2))
qed


lemma huff_decode_Some:
  assumes "huff_decode lens bs = Some (s, bs')"
  shows "s < length lens \<and> lens ! s \<noteq> 0 \<and> bs = code_word lens s @ bs'"
  using assms
  by (auto simp: huff_decode_def find_Some_iff prefix_def code_word_def split: option.splits)

lemma huff_decode_None:
  "huff_decode lens bs = None \<longleftrightarrow> (\<forall>s < length lens. lens ! s \<noteq> 0 \<longrightarrow> \<not> prefix (code_word lens s) bs)"
  by (auto simp: huff_decode_def find_None_iff find_Some_iff split: option.splits)

lemma dec_bits_huff_decode:
  assumes "subscribed lens" "\<And>l. l \<in> set lens \<Longrightarrow> l \<le> 15"
  shows "dec_bits (len_count lens) 1 0 0 bs =
     (case huff_decode lens bs of
        Some (s, bs') \<Rightarrow> Inr (lens ! s, int (code_rank lens s), bs')
      | None \<Rightarrow> Inl (15 \<le> length bs))"
proof (cases "huff_decode lens bs")
  case None
  show ?thesis
  proof (cases "dec_bits (len_count lens) 1 0 0 bs")
    case (Inl big)
    from dec_bits_fails [OF this] show ?thesis using Inl None by simp
  next
    case (Inr r)
    obtain l n bs' where "r = (l, n, bs')" by (cases r) auto
    then have "dec_bits (len_count lens) 1 (2 * msb_value []) (first_code (len_count lens) 1) bs = Inr (l, n, bs')"
      using Inr by simp
    from dec_bits_sound [OF this] obtain w where w: "bs = w @ bs'" "length w = l" "l \<le> 15" "1 \<le> l"
        "msb_value w = first_code (len_count lens) l + n" "0 \<le> n" "n < len_count lens l"
      by auto
    then have "nat n < count_list lens l" by (auto simp: len_count_def nat_less_iff split: if_splits)
    then obtain s where s: "s < length lens" "lens ! s = l" "code_rank lens s = nat n"
      using code_rank_exists by blast
    have "code_word lens s = rev (int_bits (length w) (msb_value w))" using s w by (simp add: code_word_def)
    then have "prefix (code_word lens s) bs" unfolding int_bits_msb using w(1) by simp
    then show ?thesis using None s w by (auto simp: huff_decode_None)
  qed
next
  case (Some r)
  obtain s bs' where r: "r = (s, bs')" by (cases r)
  have "s < length lens" "lens ! s \<noteq> 0" "bs = code_word lens s @ bs'"
    using huff_decode_Some [of lens bs s bs'] Some r by auto
  then show ?thesis using Some r dec_bits_code_word [OF assms(1), of s bs'] assms(2) by simp
qed

lemma huff_decode_code_word:
  assumes "subscribed lens" "\<forall>l \<in> set lens. l \<le> 15" "s < length lens" "lens ! s \<noteq> 0"
  shows "huff_decode lens (code_word lens s @ bs) = Some (s, bs)"
proof -
  have l: "lens ! s \<le> 15" "\<And>l. l \<in> set lens \<Longrightarrow> l \<le> 15" using assms(2,3) by auto
  note d = dec_bits_code_word [OF assms(1,3,4) l(1), of bs]
  then show ?thesis
  proof (cases "huff_decode lens (code_word lens s @ bs)")
    case None
    then show ?thesis using d dec_bits_huff_decode [OF assms(1) l(2), of "code_word lens s @ bs"] by simp
  next
    case (Some p)
    obtain t bs' where p: "p = (t, bs')" by (cases p)
    then have "lens ! t = lens ! s" "code_rank lens t = code_rank lens s" "bs' = bs"
      using d dec_bits_huff_decode [OF assms(1) l(2), of "code_word lens s @ bs"] Some by auto
    moreover have "t < length lens" using huff_decode_Some Some p by blast
    ultimately show ?thesis using code_rank_inject [of t lens s] assms(3) Some p by simp
  qed
qed

section \<open>The tables of a code\<close>

text \<open>What the tables hold when they are those of the code with the given lengths.\<close>

definition tables :: "huffman \<Rightarrow> nat list \<Rightarrow> bool" where
  "tables h lens \<longleftrightarrow> subscribed lens \<and> (\<forall>l \<in> set lens. l \<le> 15) \<and>
     h_count h = map (\<lambda>l. Some (int (count_list lens l))) [0..<16] \<and>
     (\<forall>s < length lens. lens ! s \<noteq> 0 \<longrightarrow>
        arr_get (h_symbol h) (code_offset (len_count lens) (lens ! s) + int (code_rank lens s)) = Val (int s))"

text \<open>
  \<open>inflate_decode\<close> with the tables of a code returns the symbol whose word comes next in the stream and goes on
  behind it. If there is none it returns -10, or leaves at the end of the input.
\<close>

lemma inflate_decode_spec:
  assumes "tables h lens" "wf_in s"
  shows "case huff_decode lens (state_bits s) of
     Some (symbol, bs) \<Rightarrow> \<exists>k b c. inflate_decode s h = Val (int symbol, s\<lparr>incnt := k, bitbuf := b, bitcnt := c\<rparr>) \<and>
       wf_in (s\<lparr>incnt := k, bitbuf := b, bitcnt := c\<rparr>) \<and> state_bits (s\<lparr>incnt := k, bitbuf := b, bitcnt := c\<rparr>) = bs
   | None \<Rightarrow> if 15 \<le> length (state_bits s) then \<exists>k. inflate_decode s h = Val (-10, s\<lparr>incnt := k\<rparr>)
       else inflate_decode s h = Longjmp"
proof -
  have t: "subscribed lens" "\<And>l. l \<in> set lens \<Longrightarrow> l \<le> 15" using assms(1) by (auto simp: tables_def)
  have "dec_result s h (len_count lens) (decode_steps s h 1 0 0 (code_offset (len_count lens) 1) (bitbuf s) (bitcnt s))
      (dec_bits (len_count lens) 1 0 0 (int_bits (nat (bitcnt s)) (bitbuf s) @ concat (map byte_bits (rest s))))"
    using assms
    by (intro decode_steps_dec [where cnt = "\<lambda>l. int (count_list lens l)"])
      (auto simp: tables_def wf_in_def len_count_def)
  then have d: "dec_result s h (len_count lens) (inflate_decode s h) (dec_bits (len_count lens) 1 0 0 (state_bits s))"
    by (simp add: inflate_decode_def state_bits_rest)
  show ?thesis
  proof (cases "huff_decode lens (state_bits s)")
    case None
    then show ?thesis using d dec_bits_huff_decode [OF t] by (simp add: dec_result_def)
  next
    case (Some r)
    obtain y bs where r: "r = (y, bs)" by (cases r)
    have "y < length lens" "lens ! y \<noteq> 0" using huff_decode_Some Some r by blast+
    then have "arr_get (h_symbol h) (code_offset (len_count lens) (lens ! y) + int (code_rank lens y)) = Val (int y)"
      using assms(1) by (simp add: tables_def)
    then show ?thesis using d dec_bits_huff_decode [OF t] Some r by (simp add: dec_result_def)
  qed
qed

end
