(* ===== verification/Deflate_Tables.thy ===== *)
theory Deflate_Tables
  imports Deflate_Huffman
begin

text \<open>
  The constructor of the tables, \<open>huffman_construct\<close>: which lengths it accepts, what it returns and what the
  tables hold afterwards.
\<close>

section \<open>The loops\<close>

lemma map_upt_update:
  "k < n \<Longrightarrow> (map f [0..<n])[k := x] = map (\<lambda>i. if i = k then x else f i) [0..<n]"
  by (rule nth_equalityI) (auto simp: nth_list_update)

lemma arr_get_map: "i < n \<Longrightarrow> arr_get (map f [0..<n]) (int i) = (case f i of Some x \<Rightarrow> Val x | None \<Rightarrow> Undefined)"
  by (simp add: arr_get_def)

lemma arr_put_map: "i < n \<Longrightarrow> arr_put (map f [0..<n]) (int i) x = Val (map (\<lambda>k. if k = i then Some x else f k) [0..<n])"
  by (simp add: arr_put_def map_upt_update)

lemma count_loop_counts:
  assumes "\<And>l. l \<in> set ls \<Longrightarrow> l \<le> 15"
  shows "count_loop (map (\<lambda>l. Some (f l)) [0..<16]) (map (\<lambda>l. Some (int l)) ls) =
     Val (map (\<lambda>l. Some (f l + int (count_list ls l))) [0..<16])"
  using assms
proof (induction ls arbitrary: f)
  case (Cons a ls)
  then have a: "a < 16" by fastforce
  have "count_loop (map (\<lambda>l. Some (f l)) [0..<16]) (map (\<lambda>l. Some (int l)) (a # ls)) =
      count_loop (map (\<lambda>k. Some (if k = a then f a + 1 else f k)) [0..<16]) (map (\<lambda>l. Some (int l)) ls)"
    using a by (simp add: arr_get_map arr_put_map) (intro arg_cong2 [where f = count_loop] map_cong; simp)
  then show ?case using Cons by (auto simp del: upt_eq_Cons_conv)
qed simp

lemma left_loop_spec:
  assumes "1 \<le> k" "k \<le> 16"
  shows "if \<forall>l. k \<le> l \<and> l < 16 \<longrightarrow> first_code c l + c l \<le> 2 ^ l
     then left_loop (map (\<lambda>l. Some (c l)) [k..<16]) (2 ^ (k - 1) - (first_code c (k - 1) + c (k - 1))) =
       Val (2 ^ 15 - (first_code c 15 + c 15))
     else \<exists>v<0. left_loop (map (\<lambda>l. Some (c l)) [k..<16]) (2 ^ (k - 1) - (first_code c (k - 1) + c (k - 1))) = Val v"
  using assms
proof (induction "16 - k" arbitrary: k)
  case 0
  then show ?case by simp
next
  case (Suc n)
  obtain j where k: "k = Suc j" using Suc.prems(1) by (cases k) auto
  have "[k..<16] = k # [Suc k..<16]" using Suc.hyps(2) by (simp add: upt_conv_Cons)
  then have step: "left_loop (map (\<lambda>l. Some (c l)) [k..<16]) (2 ^ (k - 1) - (first_code c (k - 1) + c (k - 1))) =
     (let left = 2 ^ k - (first_code c k + c k) in if left < 0 then Val left
      else left_loop (map (\<lambda>l. Some (c l)) [Suc k..<16]) left)"
    by (simp add: k push_bit_eq_mult algebra_simps Let_def)
  have all: "(\<forall>l. k \<le> l \<and> l < 16 \<longrightarrow> first_code c l + c l \<le> 2 ^ l) \<longleftrightarrow>
      first_code c k + c k \<le> 2 ^ k \<and> (\<forall>l. Suc k \<le> l \<and> l < 16 \<longrightarrow> first_code c l + c l \<le> 2 ^ l)"
    using Suc.hyps(2) by (metis Suc_le_eq le_neq_implies_less order_refl less_imp_le_nat zero_less_Suc zero_less_diff)
  have "n = 16 - Suc k" "1 \<le> Suc k" "Suc k \<le> 16" using Suc.hyps(2) by auto
  from Suc.hyps(1) [OF this] show ?case
    unfolding step all by (auto simp: Let_def split: if_splits)
qed

lemma offs_loop_spec:
  assumes "1 \<le> k" "k \<le> 15"
  shows "offs_loop (map (\<lambda>l. Some (int (count_list ls l))) [0..<16]) k
       (map (\<lambda>l. if 1 \<le> l \<and> l \<le> k then Some (code_offset (len_count ls) l) else None) [0..<16]) =
     Val (map (\<lambda>l. if 1 \<le> l then Some (code_offset (len_count ls) l) else None) [0..<16])"
  using assms
proof (induction "15 - k" arbitrary: k)
  case 0
  then have "k = 15" by simp
  then show ?case by (auto simp: offs_loop.simps [of _ 15] intro!: map_cong)
next
  case (Suc n)
  let ?c = "len_count ls"
  have k: "k < 15" using Suc.hyps(2) by simp
  have i: "int k + 1 = int (k + 1)" by simp
  have "offs_loop (map (\<lambda>l. Some (int (count_list ls l))) [0..<16]) k
       (map (\<lambda>l. if 1 \<le> l \<and> l \<le> k then Some (code_offset ?c l) else None) [0..<16]) =
     offs_loop (map (\<lambda>l. Some (int (count_list ls l))) [0..<16]) (k + 1)
       (map (\<lambda>l. if 1 \<le> l \<and> l \<le> k + 1 then Some (code_offset ?c l) else None) [0..<16])"
    using k Suc.prems(1) unfolding offs_loop.simps [of _ k] i
    by (simp add: arr_get_map arr_put_map del: of_nat_add of_nat_Suc)
      (intro arg_cong [where f = "offs_loop c k" for c k] map_cong; auto simp: len_count_def le_Suc_eq)
  then show ?case using Suc.hyps(1) [of "k + 1"] Suc.hyps(2) k by simp
qed


section \<open>The places of the symbols\<close>

text \<open>The index at which a symbol stands in \<open>symbol\<close>, and that no two stand at the same.\<close>

definition place :: "nat list \<Rightarrow> nat \<Rightarrow> nat" where
  "place ls s = nat (code_offset (len_count ls) (ls ! s) + int (code_rank ls s))"

lemma code_offset_length:
  "code_offset (len_count ls) l = int (length (filter (\<lambda>x. 0 < x \<and> x < l) ls))"
proof (induction l)
  case (Suc l)
  have "length (filter (\<lambda>x. 0 < x \<and> x < Suc l) ls) =
      length (filter (\<lambda>x. 0 < x \<and> x < l) ls) + (if l = 0 then 0 else count_list ls l)"
    by (induction ls) auto
  with Suc show ?case by (simp add: len_count_def)
qed simp

lemma code_offset_step:
  assumes "0 < l" "l < m"
  shows "code_offset (len_count ls) l + len_count ls l \<le> code_offset (len_count ls) m"
  using assms(2)
proof (induction m)
  case (Suc m)
  then show ?case using assms(1) by (cases "l = m") (auto simp: add_increasing2)
qed simp

lemma place_int: "int (place ls s) = code_offset (len_count ls) (ls ! s) + int (code_rank ls s)"
  by (simp add: place_def code_offset_length)

lemma place_less_next:
  assumes "s < length ls" "ls ! s \<noteq> 0"
  shows "int (place ls s) < code_offset (len_count ls) (ls ! s) + len_count ls (ls ! s)"
  using code_rank_less [OF assms(1)] assms(2) by (simp add: place_int len_count_def)

lemma place_bound:
  assumes "s < length ls" "ls ! s \<noteq> 0"
  shows "place ls s < length ls"
proof -
  have "int (place ls s) < code_offset (len_count ls) (Suc (ls ! s))"
    using place_less_next [OF assms] assms(2) by simp
  also have "\<dots> \<le> int (length ls)" unfolding code_offset_length by simp
  finally show ?thesis by simp
qed

lemma place_inject:
  assumes "s < length ls" "t < length ls" "ls ! s \<noteq> 0" "ls ! t \<noteq> 0" "place ls s = place ls t"
  shows "s = t"
proof -
  have *: "place ls a \<noteq> place ls b" if "a < length ls" "b < length ls" "ls ! a \<noteq> 0" "ls ! a < ls ! b" for a b
  proof -
    have "int (place ls a) < code_offset (len_count ls) (ls ! b)"
      using place_less_next [of a ls] code_offset_step [of "ls ! a" "ls ! b" ls] that by simp
    then show ?thesis using place_int [of ls b] by simp
  qed
  have eq: "ls ! s = ls ! t"
  proof (rule ccontr)
    assume "ls ! s \<noteq> ls ! t"
    then consider "ls ! s < ls ! t" | "ls ! t < ls ! s" by linarith
    then show False using * [of s t] * [of t s] assms by cases auto
  qed
  have "code_rank ls s = code_rank ls t" using place_int [of ls s] place_int [of ls t] unfolding assms(5) eq by linarith
  then show ?thesis by (rule code_rank_inject [OF assms(1,2) eq])
qed

text \<open>\<open>offs\<close> when the symbols below \<open>s\<close> are placed.\<close>

definition next_places :: "nat list \<Rightarrow> nat \<Rightarrow> int arr" where
  "next_places ls s =
     map (\<lambda>l. if 1 \<le> l then Some (code_offset (len_count ls) l + int (count_list (take s ls) l)) else None) [0..<16]"

lemma next_places_fetch:
  "ls ! s < 16 \<Longrightarrow> ls ! s \<noteq> 0 \<Longrightarrow> arr_get (next_places ls s) (int (ls ! s)) = Val (int (place ls s))"
  by (simp add: next_places_def arr_get_map place_int code_rank_def)

lemma next_places_store:
  assumes "s < length ls" "ls ! s < 16" "ls ! s \<noteq> 0"
  shows "arr_put (next_places ls s) (int (ls ! s)) (1 + int (place ls s)) = Val (next_places ls (Suc s))"
  using assms unfolding next_places_def take_Suc_conv_app_nth [OF assms(1)]
  by (simp add: arr_put_map place_int code_rank_def)

lemma next_places_skip: "s < length ls \<Longrightarrow> ls ! s = 0 \<Longrightarrow> next_places ls (Suc s) = next_places ls s"
  by (auto simp: next_places_def take_Suc_conv_app_nth intro!: map_cong)

lemma symbol_loop_spec:
  assumes "\<And>l. l \<in> set ls \<Longrightarrow> l \<le> 15" "length ls \<le> length syms" "s \<le> length ls"
    and "\<And>t. t < s \<Longrightarrow> ls ! t \<noteq> 0 \<Longrightarrow> syms ! place ls t = Some (int t)"
  shows "\<exists>syms'. symbol_loop (int s) (map (\<lambda>l. Some (int l)) (drop s ls)) (next_places ls s) syms = Val syms' \<and>
     length syms' = length syms \<and> (\<forall>t < length ls. ls ! t \<noteq> 0 \<longrightarrow> syms' ! place ls t = Some (int t))"
  using assms(2-)
proof (induction "length ls - s" arbitrary: s syms)
  case 0
  then show ?case by simp
next
  case (Suc n)
  have s: "s < length ls" using Suc.hyps(2) by simp
  have d: "drop s ls = ls ! s # drop (Suc s) ls" using s by (simp add: Cons_nth_drop_Suc)
  have l16: "ls ! s < 16" using assms(1) [of "ls ! s"] s by simp
  have n: "n = length ls - Suc s" "Suc s \<le> length ls" using Suc.hyps(2) by auto
  show ?case
  proof (cases "ls ! s = 0")
    case True
    have "\<And>t. t < Suc s \<Longrightarrow> ls ! t \<noteq> 0 \<Longrightarrow> syms ! place ls t = Some (int t)"
      using Suc.prems(3) True by (auto simp: less_Suc_eq)
    then show ?thesis
      using Suc.hyps(1) [of "Suc s" syms] Suc.prems(1) True n next_places_skip [OF s True]
      by (simp add: d add.commute)
  next
    case False
    let ?syms = "syms[place ls s := Some (int s)]"
    have p: "place ls s < length syms" using place_bound [OF s] False Suc.prems(1) by simp
    then have "arr_put syms (int (place ls s)) (int s) = Val ?syms" by (simp add: arr_put_def)
    then have "symbol_loop (int s) (map (\<lambda>l. Some (int l)) (drop s ls)) (next_places ls s) syms =
        symbol_loop (int (Suc s)) (map (\<lambda>l. Some (int l)) (drop (Suc s) ls)) (next_places ls (Suc s)) ?syms"
      unfolding d using False l16 by (simp add: next_places_fetch next_places_store [OF s] add.commute)
    moreover have "?syms ! place ls t = Some (int t)" if "t < Suc s" "ls ! t \<noteq> 0" for t
    proof (cases "t = s")
      case False
      then have "place ls t \<noteq> place ls s" using place_inject [of t ls s] that s \<open>ls ! s \<noteq> 0\<close> by auto
      then show ?thesis using Suc.prems(3) that False by (simp add: less_Suc_eq)
    qed (use p in simp)
    ultimately show ?thesis
      using Suc.hyps(1) [of "Suc s" ?syms] n Suc.prems(1) by simp
  qed
qed

section \<open>Which lengths are accepted\<close>

text \<open>The share of the words of 15 bits that the words of a code take, a word of \<open>l\<close> bits \<open>2 ^ (15 - l)\<close> of them.\<close>

definition kraft_sum :: "nat list \<Rightarrow> int" where
  "kraft_sum ls = (\<Sum>l \<leftarrow> ls. if l = 0 then 0 else 2 ^ (15 - l))"

lemma first_code_sum: "first_code c l + c l = (\<Sum>k\<le>l. c k * 2 ^ (l - k))"
proof (induction l)
  case (Suc l)
  have "(\<Sum>k\<le>l. c k * 2 ^ (Suc l - k)) = 2 * (\<Sum>k\<le>l. c k * 2 ^ (l - k))"
    unfolding sum_distrib_left by (rule sum.cong) (auto simp: Suc_diff_le)
  with Suc show ?case by simp
qed simp

lemma kraft_sum_code:
  assumes "\<And>l. l \<in> set ls \<Longrightarrow> l \<le> 15"
  shows "first_code (len_count ls) 15 + len_count ls 15 = kraft_sum ls"
proof -
  have "(\<Sum>k\<le>15. len_count ls k * 2 ^ (15 - k)) = kraft_sum ls"
    using assms
  proof (induction ls)
    case Nil
    have "len_count [] k = 0" for k by (simp add: len_count_def)
    then show ?case by (simp add: kraft_sum_def)
  next
    case (Cons a ls)
    have "len_count (a # ls) k * 2 ^ (15 - k) =
        len_count ls k * 2 ^ (15 - k) + (if k = a then if a = 0 then 0 else 2 ^ (15 - a) else 0)" for k
      by (simp add: len_count_def algebra_simps)
    then have "(\<Sum>k\<le>15. len_count (a # ls) k * 2 ^ (15 - k)) =
        (\<Sum>k\<le>15. len_count ls k * 2 ^ (15 - k)) + (if a = 0 then 0 else 2 ^ (15 - a))"
      using Cons.prems [of a] by (simp add: sum.distrib)
    then show ?case using Cons by (simp add: kraft_sum_def)
  qed
  then show ?thesis unfolding first_code_sum .
qed

lemma subscribed_kraft:
  assumes "\<And>l. l \<in> set ls \<Longrightarrow> l \<le> 15"
  shows "subscribed ls \<longleftrightarrow> kraft_sum ls \<le> 2 ^ 15"
proof
  assume "subscribed ls"
  then have "first_code (len_count ls) 15 + len_count ls 15 \<le> 2 ^ 15"
    unfolding subscribed_def by (rule bspec) simp
  then show "kraft_sum ls \<le> 2 ^ 15" using kraft_sum_code [OF assms] by simp
next
  assume k: "kraft_sum ls \<le> 2 ^ 15"
  let ?c = "len_count ls"
  have "first_code ?c l + ?c l \<le> 2 ^ l" if "l < 16" for l
  proof (cases "l = 15")
    case True
    then show ?thesis using k kraft_sum_code [OF assms] by simp
  next
    case False
    then have "2 ^ (15 - l) * (first_code ?c l + ?c l) \<le> first_code ?c 15 + ?c 15"
      using first_code_grows [of ?c l 15] that by (simp add: add_increasing2)
    also have "\<dots> \<le> 2 ^ (15 - l) * 2 ^ l" using k kraft_sum_code [OF assms] that by (simp flip: power_add)
    finally show ?thesis by simp
  qed
  then show "subscribed ls" by (simp add: subscribed_def)
qed

lemma construct_left:
  assumes "\<And>l. l \<in> set ls \<Longrightarrow> l \<le> 15"
  shows "if subscribed ls
     then left_loop (drop 1 (map (\<lambda>l. Some (int (count_list ls l))) [0..<16])) 1 = Val (2 ^ 15 - kraft_sum ls)
     else \<exists>v<0. left_loop (drop 1 (map (\<lambda>l. Some (int (count_list ls l))) [0..<16])) 1 = Val v"
proof -
  let ?c = "len_count ls"
  have dr: "drop 1 (map (\<lambda>l. Some (int (count_list ls l))) [0..<16]) = map (\<lambda>l. Some (?c l)) [1..<16]"
    unfolding drop_map drop_upt by (rule map_cong) (auto simp: len_count_def)
  have sub: "subscribed ls \<longleftrightarrow> (\<forall>l. 1 \<le> l \<and> l < 16 \<longrightarrow> first_code ?c l + ?c l \<le> 2 ^ l)"
  proof -
    have "first_code ?c 0 + ?c 0 \<le> 2 ^ 0" by simp
    then show ?thesis unfolding subscribed_def set_upt by (metis One_nat_def Suc_leI atLeastLessThan_iff le0 neq0_conv)
  qed
  have "first_code ?c 15 + ?c 15 = kraft_sum ls" by (rule kraft_sum_code) (rule assms)
  then show ?thesis unfolding dr sub using left_loop_spec [of 1 ?c] by (simp cong: if_cong)
qed

lemma construct_symbols:
  assumes "\<And>l. l \<in> set ls \<Longrightarrow> l \<le> 15" "length ls \<le> length syms"
  shows "\<exists>syms'. inf_bind (offs_loop (map (\<lambda>l. Some (int (count_list ls l))) [0..<16]) 1 ((replicate (MAXBITS + 1) None)[1 := Some 0]))
       (\<lambda>offs. symbol_loop 0 (map (\<lambda>l. Some (int l)) ls) offs syms) = Val syms' \<and>
     length syms' = length syms \<and> (\<forall>t < length ls. ls ! t \<noteq> 0 \<longrightarrow> syms' ! place ls t = Some (int t))"
proof -
  have "(replicate (MAXBITS + 1) None)[1 := Some 0] =
      map (\<lambda>l. if 1 \<le> l \<and> l \<le> 1 then Some (code_offset (len_count ls) l) else None) [0..<16]"
    by (rule nth_equalityI) (auto simp: nth_list_update le_Suc_eq)
  then have "offs_loop (map (\<lambda>l. Some (int (count_list ls l))) [0..<16]) 1 ((replicate (MAXBITS + 1) None)[1 := Some 0]) =
      Val (next_places ls 0)"
    using offs_loop_spec [of 1 ls] by (simp add: next_places_def)
  then show ?thesis using symbol_loop_spec [OF assms, of 0] by simp
qed

lemma count_list_zero: "count_list ls 0 = length ls \<longleftrightarrow> (\<forall>l \<in> set ls. l = 0)"
proof (induction ls)
  case (Cons a ls)
  then show ?case using count_le_length [of ls 0] by auto
qed simp

lemma huffman_construct_spec:
  assumes "\<And>l. l \<in> set ls \<Longrightarrow> l \<le> 15" "length ls \<le> length (h_symbol h)"
  shows "\<exists>left h'. huffman_construct h (map (\<lambda>l. Some (int l)) ls @ junk) (length ls) = Val (left, h') \<and>
     h_count h' = map (\<lambda>l. Some (int (count_list ls l))) [0..<16] \<and> length (h_symbol h') = length (h_symbol h) \<and>
     (0 \<le> left \<longleftrightarrow> kraft_sum ls \<le> 2 ^ 15) \<and> (0 \<le> left \<longrightarrow> tables h' ls) \<and>
     (0 \<le> left \<longrightarrow> left = (if \<forall>l \<in> set ls. l = 0 then 0 else 2 ^ 15 - kraft_sum ls))"
proof -
  let ?count = "map (\<lambda>l. Some (int (count_list ls l))) [0..<16]"
  have "replicate 16 (Some (0::int)) = map (\<lambda>l. Some 0) [0..<16]" by (simp add: map_replicate_const)
  then have cl: "count_loop (replicate (MAXBITS + 1) (Some 0)) (map (\<lambda>l. Some (int l)) ls) = Val ?count"
    using count_loop_counts [OF assms(1), where f = "\<lambda>_. 0"] by simp
  have c0: "arr_get ?count 0 = Val (int (count_list ls 0))" using arr_get_map [of 0 16 "\<lambda>l. Some (int (count_list ls l))"] by simp
  have con: "huffman_construct h (map (\<lambda>l. Some (int l)) ls @ junk) (length ls) =
      (if count_list ls 0 = length ls then Val (0, h\<lparr>h_count := ?count\<rparr>)
       else inf_bind (left_loop (drop 1 ?count) 1) (\<lambda>left.
         if left < 0 then Val (left, h\<lparr>h_count := ?count\<rparr>)
         else inf_bind (inf_bind (offs_loop ?count 1 ((replicate (MAXBITS + 1) None)[1 := Some 0]))
           (\<lambda>offs. symbol_loop 0 (map (\<lambda>l. Some (int l)) ls) offs (h_symbol h)))
             (\<lambda>syms. Val (left, h\<lparr>h_count := ?count, h_symbol := syms\<rparr>))))"
  proof -
    have t: "take (length ls) (map (\<lambda>l. Some (int l)) ls @ junk) = map (\<lambda>l. Some (int l)) ls" by simp
    show ?thesis
      unfolding huffman_construct_def Let_def t cl inf_bind.simps c0 inf_bind_assoc
      by (simp del: MAXBITS_def cong: if_cong)
  qed
  have k: "subscribed ls \<longleftrightarrow> kraft_sum ls \<le> 2 ^ 15" by (rule subscribed_kraft) (rule assms(1))
  have left: "if subscribed ls then left_loop (drop 1 ?count) 1 = Val (2 ^ 15 - kraft_sum ls)
      else \<exists>v<0. left_loop (drop 1 ?count) 1 = Val v" by (rule construct_left) (rule assms(1))
  show ?thesis
  proof (cases "\<forall>l \<in> set ls. l = 0")
    case True
    then have k0: "kraft_sum ls = 0" unfolding kraft_sum_def by (induction ls) auto
    then have "tables (h\<lparr>h_count := ?count\<rparr>) ls" using True k by (auto simp: tables_def)
    then show ?thesis unfolding con count_list_zero using True k0 by simp
  next
    case False
    then have nz: "count_list ls 0 \<noteq> length ls" unfolding count_list_zero .
    show ?thesis
    proof (cases "subscribed ls")
      case True
      obtain syms where syms: "inf_bind (offs_loop ?count 1 ((replicate (MAXBITS + 1) None)[1 := Some 0]))
           (\<lambda>offs. symbol_loop 0 (map (\<lambda>l. Some (int l)) ls) offs (h_symbol h)) = Val syms"
          "length syms = length (h_symbol h)" "\<forall>t < length ls. ls ! t \<noteq> 0 \<longrightarrow> syms ! place ls t = Some (int t)"
        using construct_symbols [OF assms] by blast
      have "arr_get syms (int (place ls t)) = Val (int t)" if "t < length ls" "ls ! t \<noteq> 0" for t
        using that place_bound [OF that] syms(2,3) assms(2) by (simp add: arr_get_def)
      then have "tables (h\<lparr>h_count := ?count, h_symbol := syms\<rparr>) ls"
        using True assms(1) by (auto simp: tables_def place_int)
      moreover have "huffman_construct h (map (\<lambda>l. Some (int l)) ls @ junk) (length ls) =
          Val (2 ^ 15 - kraft_sum ls, h\<lparr>h_count := ?count, h_symbol := syms\<rparr>)"
        unfolding con using nz True k left syms(1) by simp
      ultimately show ?thesis using False True k syms(2) by fastforce
    next
      case n: False
      then obtain v where "v < 0" "left_loop (drop 1 ?count) 1 = Val v" using left by auto
      then have "huffman_construct h (map (\<lambda>l. Some (int l)) ls @ junk) (length ls) = Val (v, h\<lparr>h_count := ?count\<rparr>)"
        unfolding con using nz by simp
      then show ?thesis using \<open>v < 0\<close> n k by simp
    qed
  qed
qed

section \<open>Construction and decoding\<close>

text \<open>
  Property C11 (Huffman codes). For lengths of at most 15 that fit into the symbol array, \<open>huffman_construct\<close> returns a negative
  number exactly if no code has words of these lengths, by the inequality of Kraft, and otherwise what the words leave
  free of the words of 15 bits (0 if there is no word at all). With the tables it has then built, \<open>inflate_decode\<close> returns the
  symbol of every word that the format prescribes, whatever follows it in the stream, and goes on behind the word.
\<close>

theorem huffman_code_roundtrip:
  assumes "\<forall>l \<in> set ls. l \<le> 15" "length ls \<le> length (h_symbol h)"
  shows "\<exists>left h'. huffman_construct h (map (\<lambda>l. Some (int l)) ls @ junk) (length ls) = Val (left, h') \<and>
     (0 \<le> left \<longleftrightarrow> kraft_sum ls \<le> 2 ^ 15) \<and>
     (0 \<le> left \<longrightarrow> left = (if \<forall>l \<in> set ls. l = 0 then 0 else 2 ^ 15 - kraft_sum ls)) \<and>
     (0 \<le> left \<longrightarrow> (\<forall>s y rest. wf_in s \<and> y < length ls \<and> ls ! y \<noteq> 0 \<and> state_bits s = code_word ls y @ rest \<longrightarrow>
        (\<exists>s'. inflate_decode s h' = Val (int y, s') \<and> wf_in s' \<and> state_bits s' = rest)))"
proof -
  have l15: "\<And>l. l \<in> set ls \<Longrightarrow> l \<le> 15" using assms(1) by blast
  obtain left h' where c: "huffman_construct h (map (\<lambda>l. Some (int l)) ls @ junk) (length ls) = Val (left, h')"
      "0 \<le> left \<longleftrightarrow> kraft_sum ls \<le> 2 ^ 15" "0 \<le> left \<Longrightarrow> tables h' ls"
      "0 \<le> left \<Longrightarrow> left = (if \<forall>l \<in> set ls. l = 0 then 0 else 2 ^ 15 - kraft_sum ls)"
    using huffman_construct_spec [OF l15 assms(2), of junk] by blast
  have "\<exists>s'. inflate_decode s h' = Val (int y, s') \<and> wf_in s' \<and> state_bits s' = rest"
    if "0 \<le> left" "wf_in s" "y < length ls" "ls ! y \<noteq> 0" "state_bits s = code_word ls y @ rest" for s y rest
  proof -
    have "subscribed ls" using c(3) [OF that(1)] by (simp add: tables_def)
    then have "huff_decode ls (state_bits s) = Some (y, rest)"
      unfolding that(5) using assms(1) that(3,4) by (intro huff_decode_code_word)
    then show ?thesis using inflate_decode_spec [OF c(3) [OF that(1)] that(2)] by auto
  qed
  then show ?thesis using c by blast
qed

theorem huffman_code_roundtrip_witness:
  "\<exists>left h'. huffman_construct \<lparr>h_count = [], h_symbol = [None, None, None]\<rparr> [Some 1, Some 2, Some 2] 3 = Val (left, h') \<and> left = 0"
proof -
  have "kraft_sum [1, 2, 2] = 2 ^ 15" by (simp add: kraft_sum_def)
  then show ?thesis
    using huffman_code_roundtrip [of "[1, 2, 2]" "\<lparr>h_count = [], h_symbol = [None, None, None]\<rparr>" "[]"]
    by (auto simp: numeral_3_eq_3)
qed

end
