(* ===== verification/Deflate_Inflate.thy ===== *)
theory Deflate_Inflate
  imports Deflate_Tables
begin

text \<open>
  The blocks of a deflate stream: \<open>inflate_codes\<close>, \<open>inflate_fixed\<close>, \<open>inflate_dynamic\<close> and \<open>inflate_raw\<close> of
  \<open>cmd/pseudo/gzip.c\<close>.

  The loops over symbols and over blocks take fuel; a run that needs more is \<open>Spin\<close>. The theory
  \<open>Deflate_Correct\<close> shows that one more than the number of bits of the input is always enough. What the
  destination holds after an error is not modelled: every caller ends the command then.
\<close>

section \<open>Definitions\<close>

text \<open>The tables of \<open>inflate_codes\<close>.\<close>

definition length_base :: "int arr" where
  "length_base = map Some [3, 4, 5, 6, 7, 8, 9, 10, 11, 13, 15, 17, 19, 23, 27, 31, 35, 43, 51, 59, 67, 83, 99, 115, 131,
     163, 195, 227, 258]"

definition length_ext :: "int arr" where
  "length_ext = map Some [0, 0, 0, 0, 0, 0, 0, 0, 1, 1, 1, 1, 2, 2, 2, 2, 3, 3, 3, 3, 4, 4, 4, 4, 5, 5, 5, 5, 0]"

definition dist_base :: "int arr" where
  "dist_base = map Some [1, 2, 3, 4, 5, 7, 9, 13, 17, 25, 33, 49, 65, 97, 129, 193, 257, 385, 513, 769,
     1025, 1537, 2049, 3073, 4097, 6145, 8193, 12289, 16385, 24577]"

definition dist_ext :: "int arr" where
  "dist_ext = map Some [0, 0, 0, 0, 1, 1, 2, 2, 3, 3, 4, 4, 5, 5, 6, 6, 7, 7, 8, 8, 9, 9, 10, 10, 11, 11, 12, 12, 13, 13]"

text \<open>The loop that copies a string of the output.\<close>

fun copy_loop :: "nat \<Rightarrow> int \<Rightarrow> inflate_state \<Rightarrow> inflate_state inf" where
  "copy_loop 0 dist s = Val s"
| "copy_loop (Suc len) dist s =
     (case i_out s of None \<Rightarrow> Undefined
      | Some a \<Rightarrow> inf_bind (arr_get a (int (outcnt s) - dist)) (\<lambda>c. inf_bind (out_put s c) (copy_loop len dist)))"

text \<open>A literal, and a length with its distance; the status is that of a return, 0 if there is none.\<close>

definition codes_literal :: "inflate_state \<Rightarrow> int \<Rightarrow> (int \<times> inflate_state) inf" where
  "codes_literal s symbol =
     (if i_out s \<noteq> None then
        if outcnt s = outlen s then Val (1, s)
        else inf_bind (out_put s (word_of_int symbol)) (\<lambda>s. Val (0, s))
      else Val (0, s\<lparr>outcnt := outcnt s + 1\<rparr>))"

definition codes_match :: "inflate_state \<Rightarrow> int \<Rightarrow> huffman \<Rightarrow> (int \<times> inflate_state) inf" where
  "codes_match s symbol distcode =
     (let symbol = symbol - 257 in
      if symbol \<ge> 29 then Val (-10, s)
      else
        inf_bind (arr_get length_base symbol) (\<lambda>base. inf_bind (arr_get length_ext symbol) (\<lambda>ext.
        inf_bind (inflate_bits s ext) (\<lambda>(x, s).
        let len = base + x in
        inf_bind (inflate_decode s distcode) (\<lambda>(symbol, s).
        if symbol < 0 then Val (symbol, s)
        else
          inf_bind (arr_get dist_base symbol) (\<lambda>base. inf_bind (arr_get dist_ext symbol) (\<lambda>ext.
          inf_bind (inflate_bits s ext) (\<lambda>(x, s).
          let dist = base + x in
          if dist > int (outcnt s) then Val (-11, s)
          else if i_out s \<noteq> None then
            if int (outcnt s) + len > int (outlen s) then Val (1, s)
            else inf_bind (copy_loop (nat len) dist s) (\<lambda>s. Val (0, s))
          else Val (0, s\<lparr>outcnt := outcnt s + nat len\<rparr>)))))))))"

text \<open>
  The loop of \<open>inflate_codes\<close>. After a length its condition reads the symbol of the distance, which is
  never 256: \<open>codes_match\<close> has used it as an index into a table of 30 entries.
\<close>

fun inflate_codes :: "nat \<Rightarrow> inflate_state \<Rightarrow> huffman \<Rightarrow> huffman \<Rightarrow> (int \<times> inflate_state) inf" where
  "inflate_codes 0 s lencode distcode = Spin"
| "inflate_codes (Suc fuel) s lencode distcode =
     inf_bind (inflate_decode s lencode) (\<lambda>(symbol, s).
       if symbol < 0 then Val (symbol, s)
       else if symbol = 256 then Val (0, s)
       else
         inf_bind (if symbol < 256 then codes_literal s symbol else codes_match s symbol distcode) (\<lambda>(err, s).
           if err \<noteq> 0 then Val (err, s) else inflate_codes fuel s lencode distcode))"

text \<open>
  The tables of \<open>inflate_fixed\<close>. They are static and built in the first call; building them again gives the
  same tables.
\<close>

definition fixed_lengths :: "nat list" where
  "fixed_lengths = replicate 144 8 @ replicate 112 9 @ replicate 24 7 @ replicate 8 8"

definition fixed_tables :: "(huffman \<times> huffman) inf" where
  "fixed_tables =
     (let lencode = \<lparr>h_count = replicate (MAXBITS + 1) (Some 0), h_symbol = replicate FIXLCODES (Some 0)\<rparr>;
          distcode = \<lparr>h_count = replicate (MAXBITS + 1) (Some 0), h_symbol = replicate MAXDCODES (Some 0)\<rparr>;
          lengths = map (\<lambda>l. Some (int l)) fixed_lengths
      in
      inf_bind (huffman_construct lencode lengths FIXLCODES) (\<lambda>(_, lencode).
      let lengths = replicate MAXDCODES (Some 5) @ drop MAXDCODES lengths in
      inf_bind (huffman_construct distcode lengths MAXDCODES) (\<lambda>(_, distcode). Val (lencode, distcode))))"

definition inflate_fixed :: "nat \<Rightarrow> inflate_state \<Rightarrow> (int \<times> inflate_state) inf" where
  "inflate_fixed fuel s = inf_bind fixed_tables (\<lambda>(lencode, distcode). inflate_codes fuel s lencode distcode)"

text \<open>The loops of \<open>inflate_dynamic\<close>.\<close>

definition code_order :: "nat list" where
  "code_order = [16, 17, 18, 0, 8, 7, 9, 6, 10, 5, 11, 4, 12, 3, 13, 2, 14, 1, 15]"

fun order_loop :: "nat list \<Rightarrow> inflate_state \<Rightarrow> int arr \<Rightarrow> (int arr \<times> inflate_state) inf" where
  "order_loop [] s lengths = Val (lengths, s)"
| "order_loop (k # order) s lengths =
     inf_bind (inflate_bits s 3) (\<lambda>(v, s). inf_bind (arr_put lengths (int k) v) (\<lambda>lengths. order_loop order s lengths))"

fun zero_loop :: "nat list \<Rightarrow> int arr \<Rightarrow> int arr inf" where
  "zero_loop [] lengths = Val lengths"
| "zero_loop (k # order) lengths = inf_bind (arr_put lengths (int k) 0) (zero_loop order)"

fun fill_loop :: "nat \<Rightarrow> nat \<Rightarrow> int \<Rightarrow> int arr \<Rightarrow> int arr inf" where
  "fill_loop 0 index len lengths = Val lengths"
| "fill_loop (Suc n) index len lengths = inf_bind (arr_put lengths (int index) len) (fill_loop n (index + 1) len)"

lemma inflate_bits_nonneg: "inflate_bits s need = Val (v, s') \<Longrightarrow> 0 \<le> v"
  by (auto simp: inflate_bits_def inf_bind_eq_Val push_bit_eq_mult)

text \<open>The repeat codes: the length that is repeated and how often, or the status of an error.\<close>

definition repeat_code :: "inflate_state \<Rightarrow> int \<Rightarrow> nat \<Rightarrow> int arr \<Rightarrow> (int \<times> int \<times> nat \<times> inflate_state) inf" where
  "repeat_code s symbol index lengths =
     (if symbol = 16 then
        if index = 0 then Val (-5, 0, 1, s)
        else inf_bind (arr_get lengths (int index - 1)) (\<lambda>len.
          inf_bind (inflate_bits s 2) (\<lambda>(v, s). Val (0, len, 3 + nat v, s)))
      else if symbol = 17 then inf_bind (inflate_bits s 3) (\<lambda>(v, s). Val (0, 0, 3 + nat v, s))
      else inf_bind (inflate_bits s 7) (\<lambda>(v, s). Val (0, 0, 11 + nat v, s)))"

lemma repeat_code_positive: "repeat_code s symbol index lengths = Val (err, len, n, s') \<Longrightarrow> 0 < n"
  by (auto simp: repeat_code_def inf_bind_eq_Val split: if_splits)

function length_loop :: "nat \<Rightarrow> nat \<Rightarrow> inflate_state \<Rightarrow> huffman \<Rightarrow> int arr \<Rightarrow> (int \<times> int arr \<times> inflate_state) inf" where
  "length_loop n index s lencode lengths =
     (if index < n then
        inf_bind (inflate_decode s lencode) (\<lambda>(symbol, s).
        if symbol < 0 then Val (symbol, lengths, s)
        else if symbol < 16 then
          inf_bind (arr_put lengths (int index) symbol) (\<lambda>lengths. length_loop n (index + 1) s lencode lengths)
        else
          inf_bind (repeat_code s symbol index lengths) (\<lambda>(err, len, rep, s).
          if err \<noteq> 0 then Val (err, lengths, s)
          else if index + rep > n then Val (-6, lengths, s)
          else inf_bind (fill_loop rep index len lengths) (\<lambda>lengths. length_loop n (index + rep) s lencode lengths)))
      else Val (0, lengths, s))"
  by pat_completeness auto
termination
  by (relation "measure (\<lambda>(n, index, s, lencode, lengths). n - index)") (auto dest: repeat_code_positive)

declare length_loop.simps [simp del]

text \<open>Whether the result of a construction is refused: \<open>err && (err < 0 || n != count[0] + count[1])\<close>.\<close>

definition refused :: "int \<Rightarrow> nat \<Rightarrow> huffman \<Rightarrow> bool inf" where
  "refused err n h =
     (if err = 0 then Val False
      else if err < 0 then Val True
      else inf_bind (arr_get (h_count h) 0) (\<lambda>c0. inf_bind (arr_get (h_count h) 1) (\<lambda>c1. Val (int n \<noteq> c0 + c1))))"

definition inflate_dynamic :: "nat \<Rightarrow> inflate_state \<Rightarrow> (int \<times> inflate_state) inf" where
  "inflate_dynamic fuel s =
     (let lencode = \<lparr>h_count = replicate (MAXBITS + 1) None, h_symbol = replicate MAXLCODES None\<rparr>;
          distcode = \<lparr>h_count = replicate (MAXBITS + 1) None, h_symbol = replicate MAXDCODES None\<rparr>
      in
      inf_bind (inflate_bits s 5) (\<lambda>(v, s). let nlen = nat v + 257 in
      inf_bind (inflate_bits s 5) (\<lambda>(v, s). let ndist = nat v + 1 in
      inf_bind (inflate_bits s 4) (\<lambda>(v, s). let ncode = nat v + 4 in
      if nlen > MAXLCODES \<or> ndist > MAXDCODES then Val (-3, s)
      else
        inf_bind (order_loop (take ncode code_order) s (replicate MAXCODES None)) (\<lambda>(lengths, s).
        inf_bind (zero_loop (drop ncode code_order) lengths) (\<lambda>lengths.
        inf_bind (huffman_construct lencode lengths 19) (\<lambda>(err, lencode).
        if err \<noteq> 0 then Val (-4, s)
        else
          inf_bind (length_loop (nlen + ndist) 0 s lencode lengths) (\<lambda>(err, lengths, s).
          if err \<noteq> 0 then Val (err, s)
          else inf_bind (arr_get lengths 256) (\<lambda>eob.
          if eob = 0 then Val (-9, s)
          else
            inf_bind (huffman_construct lencode lengths nlen) (\<lambda>(err, lencode).
            inf_bind (refused err nlen lencode) (\<lambda>no.
            if no then Val (-7, s)
            else
              inf_bind (huffman_construct distcode (drop nlen lengths) ndist) (\<lambda>(err, distcode).
              inf_bind (refused err ndist distcode) (\<lambda>no.
              if no then Val (-8, s)
              else inflate_codes fuel s lencode distcode)))))))))))))"

text \<open>\<open>inflate_raw\<close>: its loop over the blocks, and what it stores. On a positive error the lengths are not
  stored.\<close>

fun raw_loop :: "nat \<Rightarrow> nat \<Rightarrow> inflate_state \<Rightarrow> (int \<times> inflate_state) inf" where
  "raw_loop fuel 0 s = Spin"
| "raw_loop fuel (Suc blocks) s =
     inf_bind (inflate_bits s 1) (\<lambda>(last, s). inf_bind (inflate_bits s 2) (\<lambda>(type, s).
     inf_bind
       (if type = 0 then inflate_stored s
        else if type = 1 then inflate_fixed fuel s
        else if type = 2 then inflate_dynamic fuel s
        else Val (-1, s)) (\<lambda>(err, s).
     if err \<noteq> 0 then Val (err, s)
     else if last = 0 then raw_loop fuel blocks s
     else Val (err, s))))"

record raw_result =
  r_err :: int
  r_dest :: "byte arr option"
  r_destlen :: nat
  r_sourcelen :: nat

definition inflate_raw :: "byte arr option \<Rightarrow> nat \<Rightarrow> byte list \<Rightarrow> nat \<Rightarrow> raw_result inf" where
  "inflate_raw dest destlen source sourcelen =
     (let s = \<lparr>i_out = dest, outlen = destlen, outcnt = 0, i_in = source, inlen = sourcelen, incnt = 0,
            bitbuf = 0, bitcnt = 0\<rparr>;
          fuel = 8 * sourcelen + 1
      in case raw_loop fuel fuel s of
           Val (err, s) \<Rightarrow>
             if err \<le> 0 then Val \<lparr>r_err = err, r_dest = i_out s, r_destlen = outcnt s, r_sourcelen = incnt s\<rparr>
             else Val \<lparr>r_err = err, r_dest = i_out s, r_destlen = destlen, r_sourcelen = sourcelen\<rparr>
         | Longjmp \<Rightarrow> Val \<lparr>r_err = 2, r_dest = dest, r_destlen = destlen, r_sourcelen = sourcelen\<rparr>
         | Undefined \<Rightarrow> Undefined
         | Spin \<Rightarrow> Spin)"

section \<open>The tables of lengths and distances\<close>

text \<open>
  Four length codes in a row have the same number of extra bits and two distance codes in a row, and each
  code starts where the values of the one before end. The last length code stands for 258 alone, which the code before it
  could also express.
\<close>

definition code_starts :: "int \<Rightarrow> nat list \<Rightarrow> int list" where
  "code_starts first ext = map (\<lambda>i. first + sum_list (map (\<lambda>e. 2 ^ e) (take i ext))) [0..<length ext]"

lemma deflate_tables:
  "length_ext = map (\<lambda>i. Some (if i < 8 \<or> i = 28 then 0 else int i div 4 - 1)) [0..<29]"
  "length_base = map Some (code_starts 3 (map (\<lambda>i. if i < 8 then 0 else i div 4 - 1) [0..<28]) @ [258])"
  "dist_ext = map (\<lambda>i. Some (if i < 4 then 0 else int i div 2 - 1)) [0..<30]"
  "dist_base = map Some (code_starts 1 (map (\<lambda>i. if i < 4 then 0 else i div 2 - 1) [0..<30]))"
  by code_simp+

end
