(* ===== verification/Deflate_Spec.thy ===== *)
theory Deflate_Spec
  imports Deflate_Inflate
begin

text \<open>
  The deflate format as a function from bits to bytes, and the proof that the decoder of \<open>cmd/pseudo/gzip.c\<close>
  implements it, whether it writes its output or only measures it.

  The reference decoder works on the list of the bits and on the output so far. It knows no buffer, no tables
  and no counters; it looks a symbol up by its prescribed word. \<open>None\<close> is the end of the input, and the
  statuses are those of the code, so that the theorem covers every error.
\<close>

section \<open>The reference decoder\<close>

definition read_bits :: "nat \<Rightarrow> bool list \<Rightarrow> (int \<times> bool list) option" where
  "read_bits n bs = (if length bs < n then None else Some (bits_value (take n bs), drop n bs))"

definition read_symbol :: "nat list \<Rightarrow> bool list \<Rightarrow> (int \<times> bool list) option" where
  "read_symbol lens bs =
     (case huff_decode lens bs of Some (y, bs) \<Rightarrow> Some (int y, bs)
      | None \<Rightarrow> if 15 \<le> length bs then Some (-10, bs) else None)"

text \<open>A string of the output again, byte by byte: it may overlap what it produces.\<close>

fun lz_copy :: "nat \<Rightarrow> nat \<Rightarrow> byte list \<Rightarrow> byte list" where
  "lz_copy 0 dist out = out"
| "lz_copy (Suc len) dist out = lz_copy len dist (out @ [out ! (length out - dist)])"

definition literal_spec :: "nat option \<Rightarrow> int \<Rightarrow> bool list \<Rightarrow> byte list \<Rightarrow> (int \<times> bool list \<times> byte list) option" where
  "literal_spec r y bs out =
     Some (if fits_room r (length out + 1) then (0, bs, out @ [word_of_int y]) else (1, bs, out))"

definition match_spec :: "nat option \<Rightarrow> nat list \<Rightarrow> int \<Rightarrow> bool list \<Rightarrow> byte list \<Rightarrow> (int \<times> bool list \<times> byte list) option" where
  "match_spec r dl y bs out =
     (let k = nat (y - 257) in
      if k \<ge> 29 then Some (-10, bs, out)
      else case read_bits (nat (the (length_ext ! k))) bs of None \<Rightarrow> None
      | Some (x, bs) \<Rightarrow>
          let len = the (length_base ! k) + x in
          case read_symbol dl bs of None \<Rightarrow> None
          | Some (d, bs) \<Rightarrow>
              if d < 0 then Some (d, bs, out)
              else case read_bits (nat (the (dist_ext ! nat d))) bs of None \<Rightarrow> None
              | Some (x, bs) \<Rightarrow>
                  let dist = the (dist_base ! nat d) + x in
                  if dist > int (length out) then Some (-11, bs, out)
                  else if \<not> fits_room r (length out + nat len) then Some (1, bs, out)
                  else Some (0, bs, lz_copy (nat len) (nat dist) out))"

lemma read_bits_length: "read_bits n bs = Some (x, bs') \<Longrightarrow> length bs' \<le> length bs"
  by (auto simp: read_bits_def split: if_splits)

lemma huff_decode_length: "huff_decode lens bs = Some (y, bs') \<Longrightarrow> length bs' < length bs"
  by (auto dest!: huff_decode_Some simp: code_word_def)

lemma read_symbol_length: "read_symbol lens bs = Some (y, bs') \<Longrightarrow> length bs' < length bs \<or> y < 0 \<and> bs' = bs"
  by (auto simp: read_symbol_def dest: huff_decode_length split: option.splits if_splits)

lemma read_symbol_length_le: "read_symbol lens bs = Some (y, bs') \<Longrightarrow> length bs' \<le> length bs"
  using read_symbol_length [of lens bs y bs'] by auto

lemma match_spec_length:
  "match_spec r dl y bs out = Some (err, bs', out') \<Longrightarrow> length bs' \<le> length bs"
  by (auto simp: match_spec_def Let_def dest!: read_bits_length read_symbol_length_le
      split: if_splits option.splits prod.splits)

lemma literal_spec_length:
  "literal_spec r y bs out = Some (err, bs', out') \<Longrightarrow> length bs' \<le> length bs"
  by (auto simp: literal_spec_def split: if_splits)

function codes_spec :: "nat option \<Rightarrow> nat list \<Rightarrow> nat list \<Rightarrow> bool list \<Rightarrow> byte list \<Rightarrow> (int \<times> bool list \<times> byte list) option" where
  "codes_spec r ll dl bs out =
     (case read_symbol ll bs of None \<Rightarrow> None
      | Some (y, bs) \<Rightarrow>
          if y < 0 then Some (y, bs, out)
          else if y = 256 then Some (0, bs, out)
          else case (if y < 256 then literal_spec r y bs out else match_spec r dl y bs out) of None \<Rightarrow> None
          | Some (err, bs, out) \<Rightarrow> if err \<noteq> 0 then Some (err, bs, out) else codes_spec r ll dl bs out)"
  by pat_completeness auto
termination
proof (relation "measure (\<lambda>(r, ll, dl, bs, out). length bs)")
qed (fastforce dest: read_symbol_length match_spec_length literal_spec_length split: if_splits)+

declare codes_spec.simps [simp del]

lemma step_spec_length:
  "(if y < 256 then literal_spec r y bs out else match_spec r dl y bs out) = Some (err, bs', out') \<Longrightarrow> length bs' \<le> length bs"
  by (auto dest: match_spec_length literal_spec_length split: if_splits)

lemma codes_spec_length:
  "codes_spec r ll dl bs out = Some (err, bs', out') \<Longrightarrow> length bs' \<le> length bs"
proof (induction bs arbitrary: out rule: measure_induct_rule [of length])
  case (less bs)
  obtain y bs1 where y: "read_symbol ll bs = Some (y, bs1)"
    using less.prems by (auto simp: codes_spec.simps [of r ll dl bs] split: option.splits)
  note le = read_symbol_length_le [OF y] and lt = read_symbol_length [OF y]
  show ?case
  proof (cases "y < 0 \<or> y = 256")
    case True
    then show ?thesis using less.prems y le by (auto simp: codes_spec.simps [of r ll dl bs])
  next
    case False
    then obtain err1 bs2 out2 where
      st: "(if y < 256 then literal_spec r y bs1 out else match_spec r dl y bs1 out) = Some (err1, bs2, out2)"
      and "if err1 \<noteq> 0 then (err, bs', out') = (err1, bs2, out2) else codes_spec r ll dl bs2 out2 = Some (err, bs', out')"
      using less.prems y by (auto simp: codes_spec.simps [of r ll dl bs] split: option.splits if_splits prod.splits)
    then show ?thesis
      using step_spec_length [OF st] less.IH [of bs2 out2] le lt False by (auto split: if_splits)
  qed
qed

text \<open>The lengths of the two codes of a dynamic block, run-length coded with a third code.\<close>

definition length_step :: "int \<Rightarrow> bool list \<Rightarrow> nat list \<Rightarrow> (int \<times> bool list \<times> nat list) option" where
  "length_step y bs acc =
     (if y < 16 then Some (0, bs, [nat y])
      else if y = 16 then
        if acc = [] then Some (-5, bs, [])
        else map_option (\<lambda>(x, bs). (0, bs, replicate (3 + nat x) (last acc))) (read_bits 2 bs)
      else if y = 17 then map_option (\<lambda>(x, bs). (0, bs, replicate (3 + nat x) 0)) (read_bits 3 bs)
      else map_option (\<lambda>(x, bs). (0, bs, replicate (11 + nat x) 0)) (read_bits 7 bs))"

lemma length_step_less:
  assumes "length_step y bs acc = Some (0, bs', ls)" "length acc < n"
  shows "n - (length acc + length ls) < n - length acc"
proof -
  have "0 < length ls" using assms(1) by (auto simp: length_step_def split: if_splits)
  then show ?thesis using assms(2) by linarith
qed

function lengths_spec :: "nat \<Rightarrow> nat list \<Rightarrow> bool list \<Rightarrow> nat list \<Rightarrow> (int \<times> bool list \<times> nat list) option" where
  "lengths_spec n cl bs acc =
     (if length acc < n then
        case read_symbol cl bs of None \<Rightarrow> None
        | Some (y, bs) \<Rightarrow>
            if y < 0 then Some (y, bs, acc)
            else case length_step y bs acc of None \<Rightarrow> None
            | Some (err, bs, ls) \<Rightarrow>
                if err \<noteq> 0 then Some (err, bs, acc)
                else if length acc + length ls > n then Some (-6, bs, acc)
                else lengths_spec n cl bs (acc @ ls)
      else Some (0, bs, acc))"
  by pat_completeness auto
termination
  by (relation "measure (\<lambda>(n, cl, bs, acc). n - length acc)") (auto intro: length_step_less)

declare lengths_spec.simps [simp del]

text \<open>The code lengths of the third code, three bits each in a fixed order, zero if they are not given.\<close>

fun order_spec :: "nat list \<Rightarrow> bool list \<Rightarrow> (nat \<Rightarrow> nat) \<Rightarrow> ((nat \<Rightarrow> nat) \<times> bool list) option" where
  "order_spec [] bs f = Some (f, bs)"
| "order_spec (k # order) bs f =
     (case read_bits 3 bs of None \<Rightarrow> None | Some (x, bs) \<Rightarrow> order_spec order bs (f(k := nat x)))"

text \<open>
  The lengths of a complete code, or of none at all; and those of a code that can be used: it is
  complete, or it has only words of one bit.
\<close>

definition complete :: "nat list \<Rightarrow> bool" where
  "complete ls \<longleftrightarrow> (\<forall>l \<in> set ls. l = 0) \<or> kraft_sum ls = 2 ^ 15"

definition code_ok :: "nat list \<Rightarrow> bool" where
  "code_ok ls \<longleftrightarrow> complete ls \<or> kraft_sum ls \<le> 2 ^ 15 \<and> (\<forall>l \<in> set ls. l \<le> 1)"

text \<open>The header of a dynamic block: the lengths of its two codes.\<close>

definition dynamic_header :: "bool list \<Rightarrow> (int \<times> bool list \<times> nat list \<times> nat list) option" where
  "dynamic_header bs =
     (case read_bits 5 bs of None \<Rightarrow> None | Some (x, bs) \<Rightarrow> let nlen = nat x + 257 in
      case read_bits 5 bs of None \<Rightarrow> None | Some (x, bs) \<Rightarrow> let ndist = nat x + 1 in
      case read_bits 4 bs of None \<Rightarrow> None | Some (x, bs) \<Rightarrow> let ncode = nat x + 4 in
      if nlen > 286 \<or> ndist > 30 then Some (-3, bs, [], [])
      else case order_spec (take ncode code_order) bs (\<lambda>_. 0) of None \<Rightarrow> None
      | Some (f, bs) \<Rightarrow>
          let cl = map f [0..<19] in
          if \<not> complete cl then Some (-4, bs, [], [])
          else case lengths_spec (nlen + ndist) cl bs [] of None \<Rightarrow> None
          | Some (err, bs, ls) \<Rightarrow>
              if err \<noteq> 0 then Some (err, bs, [], [])
              else if ls ! 256 = 0 then Some (-9, bs, [], [])
              else if \<not> code_ok (take nlen ls) then Some (-7, bs, [], [])
              else if \<not> code_ok (drop nlen ls) then Some (-8, bs, [], [])
              else Some (0, bs, take nlen ls, drop nlen ls))"

definition dynamic_spec :: "nat option \<Rightarrow> bool list \<Rightarrow> byte list \<Rightarrow> (int \<times> bool list \<times> byte list) option" where
  "dynamic_spec r bs out =
     (case dynamic_header bs of None \<Rightarrow> None
      | Some (err, bs, ll, dl) \<Rightarrow> if err \<noteq> 0 then Some (err, bs, out) else codes_spec r ll dl bs out)"

lemma dynamic_spec_unfold:
  "dynamic_spec r bs out =
     (case read_bits 5 bs of None \<Rightarrow> None | Some (x, bs) \<Rightarrow> let nlen = nat x + 257 in
      case read_bits 5 bs of None \<Rightarrow> None | Some (x, bs) \<Rightarrow> let ndist = nat x + 1 in
      case read_bits 4 bs of None \<Rightarrow> None | Some (x, bs) \<Rightarrow> let ncode = nat x + 4 in
      if nlen > 286 \<or> ndist > 30 then Some (-3, bs, out)
      else case order_spec (take ncode code_order) bs (\<lambda>_. 0) of None \<Rightarrow> None
      | Some (f, bs) \<Rightarrow>
          let cl = map f [0..<19] in
          if \<not> complete cl then Some (-4, bs, out)
          else case lengths_spec (nlen + ndist) cl bs [] of None \<Rightarrow> None
          | Some (err, bs, ls) \<Rightarrow>
              if err \<noteq> 0 then Some (err, bs, out)
              else if ls ! 256 = 0 then Some (-9, bs, out)
              else if \<not> code_ok (take nlen ls) then Some (-7, bs, out)
              else if \<not> code_ok (drop nlen ls) then Some (-8, bs, out)
              else codes_spec r (take nlen ls) (drop nlen ls) bs out)"
  by (simp add: dynamic_spec_def dynamic_header_def Let_def split: option.split)

definition fixed_spec :: "nat option \<Rightarrow> bool list \<Rightarrow> byte list \<Rightarrow> (int \<times> bool list \<times> byte list) option" where
  "fixed_spec r bs out = codes_spec r fixed_lengths (replicate 30 5) bs out"

function blocks_spec :: "nat option \<Rightarrow> bool list \<Rightarrow> byte list \<Rightarrow> (int \<times> bool list \<times> byte list) option" where
  "blocks_spec r bs out =
     (case read_bits 1 bs of None \<Rightarrow> None | Some (lst, bs1) \<Rightarrow>
      case read_bits 2 bs1 of None \<Rightarrow> None | Some (type, bs2) \<Rightarrow>
      case (if type = 0 then Some (stored_spec r bs2 out)
            else if type = 1 then fixed_spec r bs2 out
            else if type = 2 then dynamic_spec r bs2 out
            else Some (-1, bs2, out)) of None \<Rightarrow> None
      | Some (err, bs3, out) \<Rightarrow>
          if err \<noteq> 0 then Some (err, bs3, out)
          else if lst = 0 then blocks_spec r bs3 out
          else Some (0, bs3, out))"
  by pat_completeness auto

lemma order_spec_length: "order_spec order bs f = Some (g, bs') \<Longrightarrow> length bs' \<le> length bs"
proof (induction order arbitrary: bs f)
  case (Cons k order)
  then show ?case by (fastforce dest: read_bits_length split: option.splits)
qed simp

lemma length_step_length: "length_step y bs acc = Some (err, bs', ls) \<Longrightarrow> length bs' \<le> length bs"
  by (auto simp: length_step_def dest: read_bits_length split: if_splits)

lemma lengths_spec_length: "lengths_spec n cl bs acc = Some (err, bs', ls) \<Longrightarrow> length bs' \<le> length bs"
proof (induction "n - length acc" arbitrary: bs acc rule: less_induct)
  case less
  show ?case
  proof (cases "length acc < n")
    case False
    then show ?thesis using less.prems by (simp add: lengths_spec.simps [of n])
  next
    case True
    obtain y bs1 where y: "read_symbol cl bs = Some (y, bs1)"
      using less.prems True by (auto simp: lengths_spec.simps [of n] split: option.splits)
    note le = read_symbol_length_le [OF y]
    show ?thesis
    proof (cases "y < 0")
      case neg: True
      then show ?thesis using less.prems True y le by (simp add: lengths_spec.simps [of n])
    next
      case pos: False
      then obtain err1 bs2 l where st: "length_step y bs1 acc = Some (err1, bs2, l)"
        using less.prems True y by (auto simp: lengths_spec.simps [of n] split: option.splits)
      note le2 = length_step_length [OF st]
      show ?thesis
      proof (cases "err1 \<noteq> 0 \<or> length acc + length l > n")
        case err: True
        then show ?thesis
          using less.prems True y pos st le le2 by (auto simp: lengths_spec.simps [of n] split: if_splits)
      next
        case ok: False
        then have "lengths_spec n cl bs2 (acc @ l) = Some (err, bs', ls)"
          using less.prems True y pos st by (simp add: lengths_spec.simps [of n cl bs acc])
        moreover have "n - length (acc @ l) < n - length acc" using length_step_less st True ok by simp
        ultimately show ?thesis using less.hyps [of "acc @ l" bs2] le le2 by simp
      qed
    qed
  qed
qed

lemma dynamic_spec_length: "dynamic_spec r bs out = Some (err, bs', out') \<Longrightarrow> length bs' \<le> length bs"
  unfolding dynamic_spec_unfold Let_def
  by (auto dest!: read_bits_length order_spec_length lengths_spec_length codes_spec_length
      split: option.splits if_splits)

lemma stored_spec_length: "stored_spec r bs out = (err, bs', out') \<Longrightarrow> length bs' \<le> length bs"
  by (auto simp: stored_spec_def Let_def split: if_splits)

lemma block_spec_length:
  "(if type = 0 then Some (stored_spec r bs out) else if type = 1 then fixed_spec r bs out
    else if type = 2 then dynamic_spec r bs out else Some (-1, bs, out)) = Some (err, bs', out') \<Longrightarrow> length bs' \<le> length bs"
  by (auto simp: fixed_spec_def dest: stored_spec_length codes_spec_length dynamic_spec_length split: if_splits)

lemma read_bits_positive: "read_bits n bs = Some (x, bs') \<Longrightarrow> 0 < n \<Longrightarrow> length bs' < length bs"
  by (auto simp: read_bits_def split: if_splits)

termination blocks_spec
proof (relation "measure (\<lambda>(r, bs, out). length bs)")
  fix r bs out p lst bs1 q type bs2 t err u bs3 out'
  assume "read_bits 1 bs = Some p" "(lst, bs1) = p" "read_bits 2 bs1 = Some q" "(type, bs2) = q"
    "(if type = 0 then Some (stored_spec r bs2 out) else if type = 1 then fixed_spec r bs2 out
      else if type = 2 then dynamic_spec r bs2 out else Some (-1, bs2, out)) = Some t" "(err, u) = t" "(bs3, out') = u"
  then show "((r, bs3, out'), r, bs, out) \<in> measure (\<lambda>(r, bs, out). length bs)"
    using read_bits_positive [of 1 bs lst bs1] read_bits_length [of 2 bs1 type bs2] block_spec_length [of type r bs2 out err bs3 out']
    by auto
qed simp

declare blocks_spec.simps [simp del]

end
