(* ===== verification/Deflate_Refine.thy ===== *)
theory Deflate_Refine
  imports Deflate_Spec
begin

text \<open>
  The decoder of \<open>cmd/pseudo/gzip.c\<close> implements the reference decoder: every operation, from
  the reading of bits to \<open>inflate_raw\<close>, on every input.
\<close>

section \<open>Bits and symbols\<close>

lemma represents_moves:
  assumes "represents s r bs out" "wf_in (s\<lparr>incnt := k, bitbuf := b, bitcnt := c\<rparr>)"
    "state_bits (s\<lparr>incnt := k, bitbuf := b, bitcnt := c\<rparr>) = bs'"
  shows "represents (s\<lparr>incnt := k, bitbuf := b, bitcnt := c\<rparr>) r bs' out"
  using assms by (simp add: represents_def)

lemma bits_represents:
  assumes "represents s r bs out"
  shows "case read_bits n bs of None \<Rightarrow> inflate_bits s (int n) = Longjmp
     | Some (x, bs') \<Rightarrow> \<exists>s'. inflate_bits s (int n) = Val (x, s') \<and> represents s' r bs' out"
proof -
  have wf: "wf_in s" and bits: "state_bits s = bs" using assms by (auto simp: represents_def)
  show ?thesis
  proof (cases "length bs < n")
    case True
    then show ?thesis using inflate_bits_short [OF wf, of "int n"] bits by (simp add: read_bits_def)
  next
    case False
    then obtain k b c where "inflate_bits s (int n) = Val (bits_value (take n bs), s\<lparr>incnt := k, bitbuf := b, bitcnt := c\<rparr>)"
        "wf_in (s\<lparr>incnt := k, bitbuf := b, bitcnt := c\<rparr>)" "state_bits (s\<lparr>incnt := k, bitbuf := b, bitcnt := c\<rparr>) = drop n bs"
      using inflate_bits_ok [OF wf, of "int n"] bits by auto
    then show ?thesis using False represents_moves [OF assms] by (auto simp: read_bits_def)
  qed
qed

lemma symbol_represents:
  assumes "represents s r bs out" "tables h lens"
  shows "case read_symbol lens bs of None \<Rightarrow> inflate_decode s h = Longjmp
     | Some (y, bs') \<Rightarrow> \<exists>s'. inflate_decode s h = Val (y, s') \<and> (0 \<le> y \<longrightarrow> represents s' r bs' out)"
proof -
  have wf: "wf_in s" and bits: "state_bits s = bs" using assms by (auto simp: represents_def)
  show ?thesis
  proof (cases "huff_decode lens bs")
    case None
    then show ?thesis using inflate_decode_spec [OF assms(2) wf] bits by (auto simp: read_symbol_def)
  next
    case (Some p)
    obtain y bs' where p: "p = (y, bs')" by (cases p)
    then obtain k b c where "inflate_decode s h = Val (int y, s\<lparr>incnt := k, bitbuf := b, bitcnt := c\<rparr>)"
        "wf_in (s\<lparr>incnt := k, bitbuf := b, bitcnt := c\<rparr>)" "state_bits (s\<lparr>incnt := k, bitbuf := b, bitcnt := c\<rparr>) = bs'"
      using inflate_decode_spec [OF assms(2) wf] bits Some by auto
    then show ?thesis using Some p represents_moves [OF assms(1)] by (auto simp: read_symbol_def)
  qed
qed

lemma read_symbol_bound: "read_symbol lens bs = Some (y, bs') \<Longrightarrow> 0 \<le> y \<Longrightarrow> nat y < length lens"
  by (auto simp: read_symbol_def dest: huff_decode_Some split: option.splits if_splits)

lemma read_bits_bound: "read_bits n bs = Some (x, bs') \<Longrightarrow> 0 \<le> x \<and> x < 2 ^ n"
  using bits_value_bound [of "take n bs"] by (auto simp: read_bits_def split: if_splits)

section \<open>Literals and copies\<close>

lemma represents_put:
  assumes "represents s r bs out" "has_out (s\<lparr>i_out := a, outcnt := n\<rparr>) out'" "a = None \<longleftrightarrow> i_out s = None"
  shows "represents (s\<lparr>i_out := a, outcnt := n\<rparr>) r bs out'"
  using assms by (auto simp: represents_def wf_in_def state_bits_def room_def)

lemma represents_count:
  assumes "represents s r bs out" "i_out s = None" "length out' = n"
  shows "represents (s\<lparr>outcnt := n\<rparr>) r bs out'"
  using assms by (auto simp: represents_def wf_in_def state_bits_def room_def has_out_def)

lemma fits_represents:
  assumes "represents s r bs out"
  shows "fits_room (fst r) n \<longleftrightarrow> i_out s = None \<or> n \<le> outlen s" "outcnt s = length out"
  using assms by (auto simp: represents_def room_def fits_room_def has_out_def split: if_splits option.splits)

lemma codes_literal_implements:
  assumes "represents s r bs out"
  shows "implements r (codes_literal s y) (literal_spec (fst r) y bs out)"
proof (cases "i_out s = None")
  case True
  have "represents (s\<lparr>outcnt := outcnt s + 1\<rparr>) r bs (out @ [word_of_int y])"
    using assms True fits_represents(2) [OF assms] by (intro represents_count) auto
  then show ?thesis
    using True fits_represents(1) [OF assms] by (simp add: implements_def literal_spec_def codes_literal_def)
next
  case False
  have out: "has_out s out" "outcnt s = length out" using assms by (auto simp: represents_def has_out_def)
  show ?thesis
  proof (cases "outcnt s = outlen s")
    case True
    then show ?thesis
      using False out fits_represents(1) [OF assms] by (simp add: implements_def literal_spec_def codes_literal_def)
  next
    case room: False
    have le: "length out \<le> outlen s" using out False by (auto simp: has_out_def)
    then obtain a where "out_put s (word_of_int y) = Val (s\<lparr>i_out := Some a, outcnt := outcnt s + 1\<rparr>)"
        "has_out (s\<lparr>i_out := Some a, outcnt := outcnt s + 1\<rparr>) (out @ [word_of_int y])"
      using out_put_ok [OF out(1) False] room out(2) by auto
    moreover from this have "represents (s\<lparr>i_out := Some a, outcnt := outcnt s + 1\<rparr>) r bs (out @ [word_of_int y])"
      using assms False by (intro represents_put) auto
    ultimately show ?thesis
      using False room le out(2) fits_represents(1) [OF assms] by (simp add: implements_def literal_spec_def codes_literal_def)
  qed
qed

lemma length_lz_copy [simp]: "length (lz_copy len dist out) = length out + len"
  by (induction len arbitrary: out) auto

lemma copy_loop_ok:
  assumes "represents s r bs out" "i_out s \<noteq> None" "length out + len \<le> outlen s" "1 \<le> dist" "dist \<le> length out"
  shows "\<exists>s'. copy_loop len (int dist) s = Val s' \<and> represents s' r bs (lz_copy len dist out)"
  using assms
proof (induction len arbitrary: s out)
  case 0
  then show ?case by simp
next
  case (Suc len)
  obtain a where a: "i_out s = Some a" using Suc.prems(2) by auto
  have out: "has_out s out" "outcnt s = length out" using Suc.prems(1) by (auto simp: represents_def has_out_def)
  have a_out: "take (length out) a = map Some out" "length a = outlen s" using out(1) a by (auto simp: has_out_def)
  let ?c = "out ! (length out - dist)"
  have "a ! (length out - dist) = Some ?c"
  proof -
    have "a ! (length out - dist) = take (length out) a ! (length out - dist)" using Suc.prems(4,5) by simp
    then show ?thesis unfolding a_out(1) using Suc.prems(4,5) by simp
  qed
  moreover have "nat (int (length out) - int dist) = length out - dist" using Suc.prems(5) by simp
  ultimately have f: "arr_get a (int (outcnt s) - int dist) = Val ?c"
    using Suc.prems(3-5) a_out(2) out(2) by (simp add: arr_get_def)
  have "length out < outlen s" using Suc.prems(3) by simp
  from out_put_ok [OF out(1) Suc.prems(2) this, of ?c] obtain a' where
    p: "out_put s ?c = Val (s\<lparr>i_out := Some a', outcnt := outcnt s + 1\<rparr>)"
      and ho: "has_out (s\<lparr>i_out := Some a', outcnt := outcnt s + 1\<rparr>) (out @ [?c])" by blast
  have "represents (s\<lparr>i_out := Some a', outcnt := outcnt s + 1\<rparr>) r bs (out @ [?c])"
    using Suc.prems(1,2) ho by (intro represents_put) auto
  from Suc.IH [OF this] show ?case
    using Suc.prems(3-5) a f p by simp
qed

section \<open>Lengths and distances\<close>

lemma arr_get_table: "0 \<le> k \<Longrightarrow> nat k < length xs \<Longrightarrow> arr_get (map Some xs) k = Val (the (map Some xs ! nat k))"
  by (simp add: arr_get_def)

lemma length_tables:
  assumes "0 \<le> k" "k < 29"
  shows "arr_get length_base k = Val (the (length_base ! nat k))" "arr_get length_ext k = Val (the (length_ext ! nat k))"
    "0 \<le> the (length_base ! nat k)" "0 \<le> the (length_ext ! nat k)"
proof -
  have k: "nat k < 29" using assms by simp
  show "arr_get length_base k = Val (the (length_base ! nat k))"
    unfolding length_base_def using assms k by (intro arr_get_table) auto
  show "arr_get length_ext k = Val (the (length_ext ! nat k))"
    unfolding length_ext_def using assms k by (intro arr_get_table) auto
  have "list_all (\<lambda>x. 0 \<le> the x) length_base" "list_all (\<lambda>x. 0 \<le> the x) length_ext"
    by (simp_all add: length_base_def length_ext_def)
  then show "0 \<le> the (length_base ! nat k)" "0 \<le> the (length_ext ! nat k)"
    using k by (auto simp: list_all_length length_base_def length_ext_def)
qed

lemma dist_tables:
  assumes "0 \<le> k" "k < 30"
  shows "arr_get dist_base k = Val (the (dist_base ! nat k))" "arr_get dist_ext k = Val (the (dist_ext ! nat k))"
    "1 \<le> the (dist_base ! nat k)" "0 \<le> the (dist_ext ! nat k)"
proof -
  have k: "nat k < 30" using assms by simp
  show "arr_get dist_base k = Val (the (dist_base ! nat k))"
    unfolding dist_base_def using assms k by (intro arr_get_table) auto
  show "arr_get dist_ext k = Val (the (dist_ext ! nat k))"
    unfolding dist_ext_def using assms k by (intro arr_get_table) auto
  have "list_all (\<lambda>x. 1 \<le> the x) dist_base" "list_all (\<lambda>x. 0 \<le> the x) dist_ext"
    by (simp_all add: dist_base_def dist_ext_def)
  then show "1 \<le> the (dist_base ! nat k)" "0 \<le> the (dist_ext ! nat k)"
    using k by (auto simp: list_all_length dist_base_def dist_ext_def)
qed

text \<open>One step of the code beside one step of the reference decoder.\<close>

lemma implements_bits:
  assumes "represents s r bs out" "0 \<le> need"
    and "\<And>x bs' s'. read_bits (nat need) bs = Some (x, bs') \<Longrightarrow> represents s' r bs' out \<Longrightarrow> implements r (f (x, s')) (g (x, bs'))"
  shows "implements r (inf_bind (inflate_bits s need) f) (case read_bits (nat need) bs of None \<Rightarrow> None | Some p \<Rightarrow> g p)"
proof (cases "read_bits (nat need) bs")
  case None
  then show ?thesis using bits_represents [OF assms(1), of "nat need"] assms(2) by (simp add: implements_def)
next
  case (Some p)
  obtain x bs' where p: "p = (x, bs')" by (cases p)
  then obtain s' where "inflate_bits s need = Val (x, s')" "represents s' r bs' out"
    using bits_represents [OF assms(1), of "nat need"] assms(2) Some by auto
  then show ?thesis using assms(3) Some p by simp
qed

lemma implements_symbol:
  assumes "represents s r bs out" "tables h lens"
    and "\<And>y bs' s'. read_symbol lens bs = Some (y, bs') \<Longrightarrow> (0 \<le> y \<Longrightarrow> represents s' r bs' out) \<Longrightarrow>
      implements r (f (y, s')) (g (y, bs'))"
  shows "implements r (inf_bind (inflate_decode s h) f) (case read_symbol lens bs of None \<Rightarrow> None | Some p \<Rightarrow> g p)"
proof (cases "read_symbol lens bs")
  case None
  then show ?thesis using symbol_represents [OF assms(1,2)] by (simp add: implements_def)
next
  case (Some p)
  obtain y bs' where p: "p = (y, bs')" by (cases p)
  then obtain s' where "inflate_decode s h = Val (y, s')" "0 \<le> y \<longrightarrow> represents s' r bs' out"
    using symbol_represents [OF assms(1,2)] Some by auto
  then show ?thesis using assms(3) Some p by simp
qed

lemma implements_status:
  assumes "implements r m a"
    and "\<And>bs out s. represents s r bs out \<Longrightarrow> a = Some (0, bs, out) \<Longrightarrow> implements r (f (0, s)) (g (0, bs, out))"
    and "\<And>err s bs out. err \<noteq> 0 \<Longrightarrow> f (err, s) = Val (err, s) \<and> (\<exists>bs' out'. g (err, bs, out) = Some (err, bs', out'))"
  shows "implements r (inf_bind m f) (case a of None \<Rightarrow> None | Some p \<Rightarrow> g p)"
proof (cases a)
  case None
  then show ?thesis using assms(1) by (simp add: implements_def)
next
  case (Some p)
  obtain v bs out where p: "p = (v, bs, out)" by (cases p)
  then obtain s where s: "m = Val (v, s)" "v = 0 \<longrightarrow> represents s r bs out" using assms(1) Some by (auto simp: implements_def)
  show ?thesis
  proof (cases "v = 0")
    case True
    then show ?thesis using assms(2) [of s bs out] s Some p by simp
  next
    case False
    then show ?thesis using assms(3) [OF False, of s bs out] s Some p by (auto simp: implements_def)
  qed
qed

lemma implements_error: "v \<noteq> 0 \<Longrightarrow> implements r (Val (v, s)) (Some (v, bs, out))"
  by (simp add: implements_def)

lemma codes_copy_implements:
  assumes "represents s r bs out" "1 \<le> dist" "0 \<le> len"
  shows "implements r
     (if dist > int (outcnt s) then Val (-11, s)
      else if i_out s \<noteq> None then
        if int (outcnt s) + len > int (outlen s) then Val (1, s)
        else inf_bind (copy_loop (nat len) dist s) (\<lambda>s. Val (0, s))
      else Val (0, s\<lparr>outcnt := outcnt s + nat len\<rparr>))
     (if dist > int (length out) then Some (-11, bs, out)
      else if \<not> fits_room (fst r) (length out + nat len) then Some (1, bs, out)
      else Some (0, bs, lz_copy (nat len) (nat dist) out))"
proof -
  note out = fits_represents [OF assms(1)]
  show ?thesis
  proof (cases "dist > int (length out)")
    case True
    then show ?thesis using out(2) by (simp add: implements_def)
  next
    case False
    show ?thesis
    proof (cases "i_out s = None")
      case True
      then have "represents (s\<lparr>outcnt := outcnt s + nat len\<rparr>) r bs (lz_copy (nat len) (nat dist) out)"
        using assms(1) out(2) by (intro represents_count) auto
      then show ?thesis using False True out by (simp add: implements_def)
    next
      case buf: False
      show ?thesis
      proof (cases "length out + nat len \<le> outlen s")
        case True
        have d: "1 \<le> nat dist" "nat dist \<le> length out" using assms(2) False by linarith+
        obtain s' where "copy_loop (nat len) (int (nat dist)) s = Val s'" "represents s' r bs (lz_copy (nat len) (nat dist) out)"
          using copy_loop_ok [OF assms(1) buf True d] by blast
        then show ?thesis using False True buf out assms(2,3) by (simp add: implements_def)
      next
        case full: False
        then show ?thesis using False buf out assms(3) by (simp add: implements_def)
      qed
    qed
  qed
qed

lemma codes_match_implements:
  assumes "represents s r bs out" "tables h dl" "length dl \<le> 30" "256 < y"
  shows "implements r (codes_match s y h) (match_spec (fst r) dl y bs out)"
proof (cases "y - 257 \<ge> 29")
  case True
  then have "nat (y - 257) \<ge> 29" by simp
  then show ?thesis using True by (simp add: codes_match_def match_spec_def implements_def Let_def)
next
  case False
  then have k: "0 \<le> y - 257" "y - 257 < 29" "\<not> nat (y - 257) \<ge> 29" using assms(4) by auto
  note lt = length_tables [OF k(1,2)]
  show ?thesis
    unfolding codes_match_def match_spec_def Let_def using False k(3)
    apply (simp only: if_False lt(1,2) inf_bind.simps)
    apply (rule implements_bits [OF assms(1) lt(4)])
    apply (simp only: prod.case)
    apply (rule implements_symbol [OF _ assms(2)], assumption)
    apply (simp only: prod.case)
    subgoal premises p for x bs1 s1 d bs2 s2
    proof (cases "d < 0")
      case True
      then show ?thesis by (simp add: implements_def)
    next
      case neg: False
      then have d: "0 \<le> d" "d < 30" using read_symbol_bound [OF p(5)] assms(3) by auto
      note dt = dist_tables [OF d]
      show ?thesis
        apply (simp only: neg if_False dt(1,2) inf_bind.simps)
        apply (rule implements_bits [OF p(6) [OF d(1)] dt(4)])
        apply (simp only: prod.case)
        apply (rule codes_copy_implements, assumption)
        using dt(3) lt(3) read_bits_bound [OF p(3)] by (auto dest!: read_bits_bound)
    qed
    done
qed

section \<open>Blocks\<close>

lemma inflate_codes_implements:
  assumes "tables lencode ll" "tables distcode dl" "length dl \<le> 30" "represents s r bs out" "length bs < fuel"
  shows "implements r (inflate_codes fuel s lencode distcode) (codes_spec (fst r) ll dl bs out)"
  using assms(4,5)
proof (induction fuel arbitrary: s bs out)
  case 0
  then show ?case by simp
next
  case (Suc fuel)
  show ?case
    unfolding inflate_codes.simps codes_spec.simps [of "fst r" ll dl bs]
  proof (rule implements_symbol [OF Suc.prems(1) assms(1)], unfold prod.case)
    fix y bs1 s1
    assume y: "read_symbol ll bs = Some (y, bs1)" and rep: "0 \<le> y \<Longrightarrow> represents s1 r bs1 out"
    show "implements r
       (if y < 0 then Val (y, s1) else if y = 256 then Val (0, s1)
        else inf_bind (if y < 256 then codes_literal s1 y else codes_match s1 y distcode)
          (\<lambda>(err, s). if err \<noteq> 0 then Val (err, s) else inflate_codes fuel s lencode distcode))
       (if y < 0 then Some (y, bs1, out) else if y = 256 then Some (0, bs1, out)
        else case (if y < 256 then literal_spec (fst r) y bs1 out else match_spec (fst r) dl y bs1 out) of None \<Rightarrow> None
          | Some (err, bs, out) \<Rightarrow> if err \<noteq> 0 then Some (err, bs, out) else codes_spec (fst r) ll dl bs out)"
    proof (cases "y < 0 \<or> y = 256")
      case True
      then show ?thesis using rep by (auto simp: implements_def)
    next
      case False
      then have y0: "0 \<le> y" by simp
      have step: "implements r (if y < 256 then codes_literal s1 y else codes_match s1 y distcode)
          (if y < 256 then literal_spec (fst r) y bs1 out else match_spec (fst r) dl y bs1 out)"
        using codes_literal_implements [OF rep [OF y0]] codes_match_implements [OF rep [OF y0] assms(2,3)] False by simp
      have "implements r (inf_bind (if y < 256 then codes_literal s1 y else codes_match s1 y distcode)
          (\<lambda>(err, s). if err \<noteq> 0 then Val (err, s) else inflate_codes fuel s lencode distcode))
        (case (if y < 256 then literal_spec (fst r) y bs1 out else match_spec (fst r) dl y bs1 out) of None \<Rightarrow> None
          | Some (err, bs, out) \<Rightarrow> if err \<noteq> 0 then Some (err, bs, out) else codes_spec (fst r) ll dl bs out)"
      proof (rule implements_status [OF step], goal_cases)
        case (1 bs2 out2 s2)
        have "length bs2 \<le> length bs1" using 1(2) by (rule step_spec_length)
        moreover have "length bs1 < length bs" using read_symbol_length [OF y] y0 by auto
        ultimately show ?case using Suc.IH [OF 1(1)] Suc.prems(2) by simp
      qed auto
      then show ?thesis using False by simp
    qed
  qed
qed

lemma fixed_tables_ok: "\<exists>lencode distcode. fixed_tables = Val (lencode, distcode) \<and> tables lencode fixed_lengths \<and> tables distcode (replicate 30 5)"
proof -
  have k: "kraft_sum fixed_lengths = 2 ^ 15" "kraft_sum (replicate 30 5) \<le> 2 ^ 15"
    by (simp_all add: kraft_sum_def fixed_lengths_def sum_list_replicate)
  have len: "length fixed_lengths = FIXLCODES" "length (replicate 30 (5::nat)) = MAXDCODES" by (simp_all add: fixed_lengths_def)
  have l15: "\<And>l. l \<in> set fixed_lengths \<Longrightarrow> l \<le> 15" by (auto simp: fixed_lengths_def)
  let ?lc = "\<lparr>h_count = replicate (MAXBITS + 1) (Some 0), h_symbol = replicate FIXLCODES (Some (0::int))\<rparr>"
  let ?dc = "\<lparr>h_count = replicate (MAXBITS + 1) (Some 0), h_symbol = replicate MAXDCODES (Some (0::int))\<rparr>"
  obtain left lencode where l: "huffman_construct ?lc (map (\<lambda>l. Some (int l)) fixed_lengths) FIXLCODES = Val (left, lencode)"
      "tables lencode fixed_lengths"
    using huffman_construct_spec [OF l15, of fixed_lengths ?lc "[]"] k(1) len(1) by auto
  have "replicate MAXDCODES (Some (5::int)) = map (\<lambda>l. Some (int l)) (replicate 30 5)" by simp
  then obtain left' distcode where d: "huffman_construct ?dc (replicate MAXDCODES (Some 5) @ drop MAXDCODES (map (\<lambda>l. Some (int l)) fixed_lengths)) MAXDCODES = Val (left', distcode)"
      "tables distcode (replicate 30 5)"
    using huffman_construct_spec [of "replicate 30 5" ?dc "drop MAXDCODES (map (\<lambda>l. Some (int l)) fixed_lengths)"] k(2) len(2)
    by auto
  show ?thesis using l d unfolding fixed_tables_def Let_def by auto
qed

lemma inflate_fixed_implements:
  assumes "represents s r bs out" "length bs < fuel"
  shows "implements r (inflate_fixed fuel s) (fixed_spec (fst r) bs out)"
proof -
  obtain lencode distcode where t: "fixed_tables = Val (lencode, distcode)" "tables lencode fixed_lengths" "tables distcode (replicate 30 5)"
    using fixed_tables_ok by blast
  show ?thesis
    unfolding inflate_fixed_def fixed_spec_def t(1) inf_bind.simps prod.case
    by (rule inflate_codes_implements [OF t(2,3) _ assms]) simp
qed

section \<open>Dynamic blocks\<close>

lemma order_loop_ok:
  assumes "represents s r bs out" "length lengths = 316" "\<forall>k \<in> set order. k < 19"
  shows "case order_spec order bs f of None \<Rightarrow> order_loop order s lengths = Longjmp
     | Some (g, bs') \<Rightarrow> \<exists>lengths' s'. order_loop order s lengths = Val (lengths', s') \<and> represents s' r bs' out \<and>
         length lengths' = 316 \<and> (\<forall>k. (k \<in> set order \<longrightarrow> lengths' ! k = Some (int (g k)) \<and> g k < 8) \<and>
           (k \<notin> set order \<longrightarrow> lengths' ! k = lengths ! k \<and> g k = f k))"
  using assms
proof (induction order arbitrary: s bs lengths f)
  case (Cons k order)
  show ?case
  proof (cases "read_bits 3 bs")
    case None
    then show ?thesis using bits_represents [OF Cons.prems(1), of 3] by simp
  next
    case (Some p)
    obtain x bs1 where p: "p = (x, bs1)" by (cases p)
    then obtain s1 where s1: "inflate_bits s 3 = Val (x, s1)" "represents s1 r bs1 out"
      using bits_represents [OF Cons.prems(1), of 3] Some by auto
    have x: "0 \<le> x" "x < 8" using read_bits_bound [of 3 bs x bs1] Some p by auto
    have st: "arr_put lengths (int k) x = Val (lengths[k := Some x])" using Cons.prems(2,3) by (simp add: arr_put_def)
    have "length (lengths[k := Some x]) = 316" "\<forall>k \<in> set order. k < 19" "k < length lengths"
      using Cons.prems(2,3) by auto
    define f' where f': "f' = f(k := nat x)"
    note IH = Cons.IH [OF s1(2) \<open>length (lengths[k := Some x]) = 316\<close> \<open>\<forall>k \<in> set order. k < 19\<close>, of f']
    have spec: "order_spec (k # order) bs f = order_spec order bs1 f'" using Some p f' by simp
    have loop: "order_loop (k # order) s lengths = order_loop order s1 (lengths[k := Some x])" using s1 st by simp
    show ?thesis
    proof (cases "order_spec order bs1 f'")
      case None
      then show ?thesis unfolding spec loop using IH by simp
    next
      case (Some q)
      obtain g bs' where q: "q = (g, bs')" by (cases q)
      then obtain lengths' s' where l: "order_loop order s1 (lengths[k := Some x]) = Val (lengths', s')" "represents s' r bs' out"
          "length lengths' = 316"
          and g: "\<And>j. j \<in> set order \<Longrightarrow> lengths' ! j = Some (int (g j)) \<and> g j < 8"
            "\<And>j. j \<notin> set order \<Longrightarrow> lengths' ! j = lengths[k := Some x] ! j \<and> g j = f' j"
        using IH Some by auto
      have "\<forall>j. (j \<in> set (k # order) \<longrightarrow> lengths' ! j = Some (int (g j)) \<and> g j < 8) \<and>
          (j \<notin> set (k # order) \<longrightarrow> lengths' ! j = lengths ! j \<and> g j = f j)"
      proof (intro allI)
        fix j
        show "(j \<in> set (k # order) \<longrightarrow> lengths' ! j = Some (int (g j)) \<and> g j < 8) \<and>
          (j \<notin> set (k # order) \<longrightarrow> lengths' ! j = lengths ! j \<and> g j = f j)"
          using g(1) [of j] g(2) [of j] x \<open>k < length lengths\<close> by (cases "j \<in> set order") (auto simp: nat_less_iff f')
      qed
      then show ?thesis unfolding spec loop using l q Some by auto
    qed
  qed
qed simp

lemma zero_loop_ok:
  assumes "length lengths = 316" "\<forall>k \<in> set order. k < 19"
  shows "\<exists>lengths'. zero_loop order lengths = Val lengths' \<and> length lengths' = 316 \<and>
     (\<forall>k. lengths' ! k = (if k \<in> set order then Some 0 else lengths ! k))"
  using assms
proof (induction order arbitrary: lengths)
  case (Cons k order)
  have st: "arr_put lengths (int k) 0 = Val (lengths[k := Some 0])" using Cons.prems by (simp add: arr_put_def)
  have "length (lengths[k := Some 0]) = 316" "\<forall>k \<in> set order. k < 19" "k < length lengths" using Cons.prems by auto
  from Cons.IH [OF this(1,2)] show ?case using st \<open>k < length lengths\<close> by (auto simp: nth_list_update)
qed simp

lemma fill_loop_ok:
  "index + n \<le> length lengths \<Longrightarrow>
   fill_loop n index len lengths = Val (take index lengths @ replicate n (Some len) @ drop (index + n) lengths)"
proof (induction n arbitrary: index lengths)
  case (Suc n)
  have "arr_put lengths (int index) len = Val (lengths[index := Some len])" using Suc.prems by (simp add: arr_put_def)
  moreover have "take (Suc index) (lengths[index := Some len]) = take index lengths @ [Some len]"
    using Suc.prems by (simp add: take_Suc_conv_app_nth)
  ultimately show ?case using Suc by (simp add: drop_update_cancel)
qed simp

text \<open>The cells that are filled hold the lengths read so far.\<close>

definition filled :: "int arr \<Rightarrow> nat list \<Rightarrow> bool" where
  "filled lengths acc \<longleftrightarrow> length lengths = 316 \<and> take (length acc) lengths = map (\<lambda>l. Some (int l)) acc \<and> (\<forall>l \<in> set acc. l \<le> 15)"

lemma filled_append:
  assumes "filled lengths acc" "length acc + n \<le> 316" "l \<le> 15"
  shows "filled (take (length acc) lengths @ replicate n (Some (int l)) @ drop (length acc + n) lengths) (acc @ replicate n l)"
  using assms by (auto simp: filled_def)

lemma repeat_code_ok:
  assumes "represents s r bs out" "filled lengths acc" "length acc \<le> 316" "16 \<le> y"
  shows "case length_step y bs acc of None \<Rightarrow> repeat_code s y (length acc) lengths = Longjmp
     | Some (err, bs', ls) \<Rightarrow> \<exists>l n s'. repeat_code s y (length acc) lengths = Val (err, int l, n, s') \<and>
         (err = 0 \<longrightarrow> ls = replicate n l \<and> l \<le> 15 \<and> represents s' r bs' out)"
proof -
  note b2 = bits_represents [OF assms(1), of 2] and b3 = bits_represents [OF assms(1), of 3]
    and b7 = bits_represents [OF assms(1), of 7]
  consider "y = 16" "acc = []" | "y = 16" "acc \<noteq> []" | "y = 17" | "18 \<le> y" using assms(4) by linarith
  then show ?thesis
  proof cases
    case 1
    then show ?thesis by (auto simp: length_step_def repeat_code_def intro: exI [of _ "0::nat"])
  next
    case 2
    have "lengths ! (length acc - 1) = take (length acc) lengths ! (length acc - 1)" using 2 by simp
    also have "\<dots> = Some (int (last acc))" using assms(2) 2 by (simp add: filled_def last_conv_nth)
    finally have "lengths ! (length acc - 1) = Some (int (last acc))" .
    moreover have "nat (int (length acc) - 1) = length acc - 1" by simp
    ultimately have f: "arr_get lengths (int (length acc) - 1) = Val (int (last acc))"
      using 2 assms(2,3) by (auto simp: arr_get_def filled_def Suc_leI)
    have "last acc \<le> 15" using 2 assms(2) by (simp add: filled_def)
    then show ?thesis using 2 b2 f by (auto simp: length_step_def repeat_code_def split: option.splits)
  next
    case 3
    then show ?thesis using b3
      by (auto simp: length_step_def repeat_code_def split: option.splits intro!: exI [of _ "0::nat"])
  next
    case 4
    then show ?thesis using b7
      by (auto simp: length_step_def repeat_code_def split: option.splits intro!: exI [of _ "0::nat"])
  qed
qed

lemma length_loop_ok:
  assumes "tables h cl" "represents s r bs out" "filled lengths acc" "length acc \<le> n" "n \<le> 316"
  shows "case lengths_spec n cl bs acc of None \<Rightarrow> length_loop n (length acc) s h lengths = Longjmp
     | Some (err, bs', ls) \<Rightarrow> \<exists>lengths' s'. length_loop n (length acc) s h lengths = Val (err, lengths', s') \<and>
         (err = 0 \<longrightarrow> represents s' r bs' out \<and> filled lengths' ls \<and> length ls = n)"
  using assms(2-4)
proof (induction "n - length acc" arbitrary: s bs lengths acc rule: less_induct)
  case less
  show ?case
  proof (cases "length acc < n")
    case False
    then show ?thesis using less.prems by (auto simp: lengths_spec.simps [of n] length_loop.simps [of n])
  next
    case lt: True
    note sy = symbol_represents [OF less.prems(1) assms(1)]
    show ?thesis
    proof (cases "read_symbol cl bs")
      case None
      then show ?thesis using sy lt by (simp add: lengths_spec.simps [of n] length_loop.simps [of n])
    next
      case (Some p)
      obtain y bs1 where p: "p = (y, bs1)" by (cases p)
      then obtain s1 where s1: "inflate_decode s h = Val (y, s1)" "0 \<le> y \<Longrightarrow> represents s1 r bs1 out"
        using sy Some by auto
      show ?thesis
      proof (cases "y < 0")
        case True
        then show ?thesis using Some p s1 lt by (auto simp: lengths_spec.simps [of n] length_loop.simps [of n])
      next
        case pos: False
        have spec: "lengths_spec n cl bs acc =
            (case length_step y bs1 acc of None \<Rightarrow> None
             | Some (err, bs, ls) \<Rightarrow> if err \<noteq> 0 then Some (err, bs, acc)
                 else if length acc + length ls > n then Some (-6, bs, acc) else lengths_spec n cl bs (acc @ ls))"
          using Some p pos lt by (simp add: lengths_spec.simps [of n cl bs acc])
        have more: ?thesis
          if ls: "length_step y bs1 acc = Some (0, bs2, replicate m l)" "l \<le> 15" "represents s2 r bs2 out" "length acc + m \<le> n" "0 < m"
            and loop: "length_loop n (length acc) s h lengths = length_loop n (length acc + m) s2 h
                (take (length acc) lengths @ replicate m (Some (int l)) @ drop (length acc + m) lengths)"
          for bs2 m l s2
        proof -
          have fl: "filled (take (length acc) lengths @ replicate m (Some (int l)) @ drop (length acc + m) lengths) (acc @ replicate m l)"
            using less.prems(2) ls assms(5) by (intro filled_append) auto
          have "n - length (acc @ replicate m l) < n - length acc" "length (acc @ replicate m l) \<le> n" using ls lt by simp_all
          note IH = less.hyps [OF this(1) ls(3) fl this(2)]
          have "lengths_spec n cl bs acc = lengths_spec n cl bs2 (acc @ replicate m l)" using ls by (simp add: spec)
          then show ?thesis using IH unfolding loop length_append length_replicate by simp
        qed
        show ?thesis
        proof (cases "y < 16")
          case True
          have acc: "length acc < length lengths" using lt assms(5) less.prems(2) by (simp add: filled_def)
          have "lengths[length acc := Some y] = take (length acc) lengths @ replicate 1 (Some (int (nat y))) @ drop (length acc + 1) lengths"
            using acc pos by (simp add: upd_conv_take_nth_drop)
          then have "length_loop n (length acc) s h lengths = length_loop n (length acc + 1) s1 h
              (take (length acc) lengths @ replicate 1 (Some (int (nat y))) @ drop (length acc + 1) lengths)"
            using lt s1(1) pos True acc by (simp add: length_loop.simps [of n "length acc"] arr_put_def)
          moreover have "length_step y bs1 acc = Some (0, bs1, replicate 1 (nat y))" using True by (simp add: length_step_def)
          ultimately show ?thesis using more [of bs1 1 "nat y" s1] True pos s1(2) lt by simp
        next
          case rep: False
          note rc = repeat_code_ok [OF s1(2) less.prems(2), of y] 
          have y16: "16 \<le> y" "0 \<le> y" "length acc \<le> 316" using rep lt assms(5) by auto
          have loop: "length_loop n (length acc) s h lengths =
              inf_bind (repeat_code s1 y (length acc) lengths) (\<lambda>(err, len, rep, s).
                if err \<noteq> 0 then Val (err, lengths, s)
                else if length acc + rep > n then Val (-6, lengths, s)
                else inf_bind (fill_loop rep (length acc) len lengths) (\<lambda>lengths. length_loop n (length acc + rep) s h lengths))"
            using lt s1(1) pos rep by (simp add: length_loop.simps [of n "length acc"])
          show ?thesis
          proof (cases "length_step y bs1 acc")
            case None
            then show ?thesis using rc y16 by (simp add: spec loop)
          next
            case (Some q)
            obtain err bs2 ls where q: "q = (err, bs2, ls)" by (cases q)
            then obtain l m s2 where r: "repeat_code s1 y (length acc) lengths = Val (err, int l, m, s2)"
                "err = 0 \<Longrightarrow> ls = replicate m l \<and> l \<le> 15 \<and> represents s2 r bs2 out"
              using rc y16 Some by auto
            show ?thesis
            proof (cases "err = 0 \<and> length acc + m \<le> n")
              case True
              have "0 < m" using repeat_code_positive [OF r(1)] .
              moreover have "length_loop n (length acc) s h lengths = length_loop n (length acc + m) s2 h
                  (take (length acc) lengths @ replicate m (Some (int l)) @ drop (length acc + m) lengths)"
                using True r(1) less.prems(2) assms(5) by (simp add: loop fill_loop_ok filled_def)
              ultimately show ?thesis using more [of bs2 m l s2] True r(2) Some q by simp
            next
              case False
              then show ?thesis using Some q r by (auto simp: spec loop)
            qed
          qed
        qed
      qed
    qed
  qed
qed

lemma count_list_le1:
  fixes ls :: "nat list"
  shows "count_list ls 0 + count_list ls 1 = length ls \<longleftrightarrow> (\<forall>l \<in> set ls. l \<le> 1)"
proof (induction ls)
  case (Cons a ls)
  have "count_list ls 0 + count_list ls 1 \<le> length ls" for ls :: "nat list" by (induction ls) auto
  from this [of ls]
  show ?case using Cons by auto
qed simp

lemma construct_refused:
  assumes "\<And>l. l \<in> set ls \<Longrightarrow> l \<le> 15" "length ls \<le> length (h_symbol h)"
  shows "\<exists>err h'. huffman_construct h (map (\<lambda>l. Some (int l)) ls @ junk) (length ls) = Val (err, h') \<and>
     refused err (length ls) h' = Val (\<not> code_ok ls) \<and> (code_ok ls \<longrightarrow> tables h' ls) \<and>
     (err = 0 \<longleftrightarrow> complete ls) \<and> (err = 0 \<longrightarrow> tables h' ls) \<and>
     length (h_symbol h') = length (h_symbol h)"
proof -
  have "\<And>l. l \<in> set ls \<Longrightarrow> l \<le> 15" by (rule assms(1))
  from huffman_construct_spec [OF this assms(2), of junk]
  obtain err h' where c: "huffman_construct h (map (\<lambda>l. Some (int l)) ls @ junk) (length ls) = Val (err, h')"
      "h_count h' = map (\<lambda>l. Some (int (count_list ls l))) [0..<16]" "length (h_symbol h') = length (h_symbol h)"
      "0 \<le> err \<longleftrightarrow> kraft_sum ls \<le> 2 ^ 15" "0 \<le> err \<Longrightarrow> tables h' ls"
      "0 \<le> err \<Longrightarrow> err = (if \<forall>l \<in> set ls. l = 0 then 0 else 2 ^ 15 - kraft_sum ls)" by blast
  have k0: "kraft_sum ls = 0" if "\<forall>l \<in> set ls. l = 0" using that unfolding kraft_sum_def by (induction ls) auto
  have f: "arr_get (h_count h') 0 = Val (int (count_list ls 0))" "arr_get (h_count h') 1 = Val (int (count_list ls 1))"
    unfolding c(2) using arr_get_map [of 0 16 "\<lambda>l. Some (int (count_list ls l))"] arr_get_map [of 1 16 "\<lambda>l. Some (int (count_list ls l))"]
    by simp_all
  have "int (length ls) = int (count_list ls 0) + int (count_list ls 1) \<longleftrightarrow> (\<forall>l \<in> set ls. l \<le> 1)"
    unfolding count_list_le1 [symmetric] by linarith
  then have "refused err (length ls) h' = Val (\<not> code_ok ls)"
    using c(4,6) k0 by (cases "\<forall>l \<in> set ls. l = 0") (auto simp: refused_def f code_ok_def complete_def split: if_splits)
  moreover have "code_ok ls \<Longrightarrow> 0 \<le> err" using c(4) k0 by (auto simp: code_ok_def complete_def)
  moreover have "err = 0 \<longleftrightarrow> complete ls" 
    using c(4,6) k0 by (cases "\<forall>l \<in> set ls. l = 0") (auto simp: complete_def split: if_splits)
  ultimately show ?thesis using c(1,3,5) by auto
qed

end
