(* ===== verification/Deflate_Correct.thy ===== *)
theory Deflate_Correct
  imports Deflate_Refine
begin

text \<open>
  Dynamic blocks, \<open>inflate_raw\<close>, and what follows from the refinement: the decoder
  returns on every input without an undefined access, and its measuring pass and its writing pass agree.
\<close>

section \<open>Dynamic blocks\<close>

lemma code_order_all: "set code_order = {0..<19}" "length code_order = 19"
proof -
  have "list_all (\<lambda>k. k \<in> set code_order) [0..<19]" by code_simp
  then show "set code_order = {0..<19}" by (auto simp: list_all_iff) (auto simp: code_order_def)
qed (simp add: code_order_def)

lemma order_loops_ok:
  assumes "represents s r bs out"
  shows "case order_spec (take n code_order) bs (\<lambda>_. 0) of
     None \<Rightarrow> order_loop (take n code_order) s (replicate MAXCODES None) = Longjmp
   | Some (f, bs') \<Rightarrow> \<exists>lengths s' lengths'. order_loop (take n code_order) s (replicate MAXCODES None) = Val (lengths, s') \<and>
       zero_loop (drop n code_order) lengths = Val lengths' \<and> represents s' r bs' out \<and> length lengths' = 316 \<and>
       (\<exists>junk. lengths' = map (\<lambda>l. Some (int l)) (map f [0..<19]) @ junk) \<and> (\<forall>k. f k < 8)"
proof -
  have len: "length (replicate MAXCODES None) = 316" by simp
  have "set (take n code_order) \<union> set (drop n code_order) = {0..<19}"
    unfolding code_order_all(1) [symmetric] set_append [symmetric] by simp
  then have all: "\<And>k. k < 19 \<longleftrightarrow> k \<in> set (take n code_order) \<or> k \<in> set (drop n code_order)" by auto
  then have lt: "\<forall>k \<in> set (take n code_order). k < 19" "\<forall>k \<in> set (drop n code_order). k < 19" by blast+
  note ol = order_loop_ok [OF assms len lt(1), of "\<lambda>_. 0"]
  show ?thesis
  proof (cases "order_spec (take n code_order) bs (\<lambda>_. 0)")
    case None
    then show ?thesis using ol by simp
  next
    case (Some p)
    obtain f bs' where p: "p = (f, bs')" by (cases p)
    then obtain lengths s' where l: "order_loop (take n code_order) s (replicate MAXCODES None) = Val (lengths, s')"
        "represents s' r bs' out" "length lengths = 316"
        and f: "\<And>k. (k \<in> set (take n code_order) \<longrightarrow> lengths ! k = Some (int (f k)) \<and> f k < 8) \<and>
          (k \<notin> set (take n code_order) \<longrightarrow> f k = 0)"
      using ol Some by auto
    obtain lengths' where z: "zero_loop (drop n code_order) lengths = Val lengths'" "length lengths' = 316"
        "\<And>k. lengths' ! k = (if k \<in> set (drop n code_order) then Some 0 else lengths ! k)"
      using zero_loop_ok [OF l(3) lt(2)] by blast
    have dist: "distinct code_order" by (simp add: code_order_def)
    have "lengths' ! k = Some (int (f k))" if "k < 19" for k
    proof (cases "k \<in> set (drop n code_order)")
      case True
      then have "k \<notin> set (take n code_order)" using set_take_disj_set_drop_if_distinct [OF dist, of n n] by auto
      then show ?thesis using z(3) [of k] True f [of k] by simp
    next
      case False
      then show ?thesis using z(3) [of k] f [of k] all [of k] that by simp
    qed
    then have "take 19 lengths' = map (\<lambda>l. Some (int l)) (map f [0..<19])"
      using z(2) by (intro nth_equalityI) auto
    then have "lengths' = map (\<lambda>l. Some (int l)) (map f [0..<19]) @ drop 19 lengths'"
      by (metis append_take_drop_id)
    moreover have "f k < 8" for k using f [of k] by (cases "k \<in> set (take n code_order)") auto
    ultimately show ?thesis using Some p l z by auto
  qed
qed

lemma filled_split:
  assumes "filled lengths ls" "length ls = n + m"
  shows "lengths = map (\<lambda>l. Some (int l)) (take n ls) @ drop n lengths"
    and "drop n lengths = map (\<lambda>l. Some (int l)) (drop n ls) @ drop (n + m) lengths"
proof -
  let ?f = "map (\<lambda>l. Some (int l))"
  have t: "take (n + m) lengths = ?f ls" using assms by (simp add: filled_def)
  have "lengths = take (n + m) lengths @ drop (n + m) lengths" by simp
  also have "take (n + m) lengths = ?f (take n ls) @ ?f (drop n ls)" unfolding t by (simp flip: map_append)
  finally have e: "lengths = ?f (take n ls) @ ?f (drop n ls) @ drop (n + m) lengths" by simp
  have n: "length (?f (take n ls)) = n" using assms(2) by simp
  show d: "drop n lengths = ?f (drop n ls) @ drop (n + m) lengths"
    by (subst e) (simp add: n assms(2))
  show "lengths = ?f (take n ls) @ drop n lengths" unfolding d by (rule e)
qed

lemma dynamic_codes_implements:
  assumes "represents s r bs out" "filled lengths ls" "length ls = nlen + ndist" "257 \<le> nlen" "nlen \<le> 286" "ndist \<le> 30"
    "length bs < fuel" "length (h_symbol lencode) = 286" "length (h_symbol distcode) = 30"
  shows "implements r
     (inf_bind (arr_get lengths 256) (\<lambda>eob.
        if eob = 0 then Val (-9, s)
        else
          inf_bind (huffman_construct lencode lengths nlen) (\<lambda>(err, lencode).
          inf_bind (refused err nlen lencode) (\<lambda>no.
          if no then Val (-7, s)
          else
            inf_bind (huffman_construct distcode (drop nlen lengths) ndist) (\<lambda>(err, distcode).
            inf_bind (refused err ndist distcode) (\<lambda>no.
            if no then Val (-8, s)
            else inflate_codes fuel s lencode distcode))))))
     (if ls ! 256 = 0 then Some (-9, bs, out)
      else if \<not> code_ok (take nlen ls) then Some (-7, bs, out)
      else if \<not> code_ok (drop nlen ls) then Some (-8, bs, out)
      else codes_spec (fst r) (take nlen ls) (drop nlen ls) bs out)"
proof -
  have "lengths ! 256 = take (length ls) lengths ! 256" using assms(3,4) by simp
  also have "\<dots> = Some (int (ls ! 256))" using assms(2-4) by (simp add: filled_def)
  finally have f: "arr_get lengths 256 = Val (int (ls ! 256))" using assms(2) by (simp add: arr_get_def filled_def)
  have l15: "\<And>l. l \<in> set (take nlen ls) \<Longrightarrow> l \<le> 15" "\<And>l. l \<in> set (drop nlen ls) \<Longrightarrow> l \<le> 15"
    using assms(2) by (auto simp: filled_def dest: in_set_takeD in_set_dropD)
  have len: "length (take nlen ls) = nlen" "length (drop nlen ls) = ndist" using assms(3) by auto
  note sp = filled_split [OF assms(2,3)]
  have "length (take nlen ls) \<le> length (h_symbol lencode)" using len assms(5,8) by simp
  from construct_refused [OF l15(1) this, of "drop nlen lengths"] obtain err h where
    l: "huffman_construct lencode lengths nlen = Val (err, h)" "refused err nlen h = Val (\<not> code_ok (take nlen ls))"
      "code_ok (take nlen ls) \<Longrightarrow> tables h (take nlen ls)"
    unfolding len sp(1) [symmetric] by blast
  have "length (drop nlen ls) \<le> length (h_symbol distcode)" using len assms(6,9) by simp
  from construct_refused [OF l15(2) this, of "drop (nlen + ndist) lengths"] obtain err' h' where
    d: "huffman_construct distcode (drop nlen lengths) ndist = Val (err', h')" "refused err' ndist h' = Val (\<not> code_ok (drop nlen ls))"
      "code_ok (drop nlen ls) \<Longrightarrow> tables h' (drop nlen ls)"
    unfolding len sp(2) [symmetric] by blast
  have "implements r (inflate_codes fuel s h h') (codes_spec (fst r) (take nlen ls) (drop nlen ls) bs out)"
    if "code_ok (take nlen ls)" "code_ok (drop nlen ls)"
    using inflate_codes_implements [OF l(3) [OF that(1)] d(3) [OF that(2)] _ assms(1,7)] len(2) assms(6) by simp
  then show ?thesis by (simp add: f l(1,2) d(1,2) implements_error)
qed

lemma dynamic_header_implements:
  assumes "represents s r bs out" "length bs < fuel" "257 \<le> nlen" "nlen \<le> 286" "ndist \<le> 30"
    and "length (h_symbol lencode) = 286" "length (h_symbol distcode) = 30"
  shows "implements r
     (inf_bind (order_loop (take ncode code_order) s (replicate MAXCODES None)) (\<lambda>(lengths, s).
        inf_bind (zero_loop (drop ncode code_order) lengths) (\<lambda>lengths.
        inf_bind (huffman_construct lencode lengths 19) (\<lambda>(err, lencode).
        if err \<noteq> 0 then Val (-4, s)
        else
          inf_bind (length_loop (nlen + ndist) 0 s lencode lengths) (\<lambda>(err, lengths, s).
          if err \<noteq> 0 then Val (err, s)
          else inf_bind (arr_get lengths 256) (\<lambda>eob.
          if eob = 0 then Val (-9, s)
          else
            inf_bind (huffman_construct lencode lengths nlen) (\<lambda>(err, lencode).
            inf_bind (refused err nlen lencode) (\<lambda>no.
            if no then Val (-7, s)
            else
              inf_bind (huffman_construct distcode (drop nlen lengths) ndist) (\<lambda>(err, distcode).
              inf_bind (refused err ndist distcode) (\<lambda>no.
              if no then Val (-8, s)
              else inflate_codes fuel s lencode distcode))))))))))
     (case order_spec (take ncode code_order) bs (\<lambda>_. 0) of None \<Rightarrow> None
      | Some (f, bs) \<Rightarrow>
          if \<not> complete (map f [0..<19]) then Some (-4, bs, out)
          else case lengths_spec (nlen + ndist) (map f [0..<19]) bs [] of None \<Rightarrow> None
          | Some (err, bs, ls) \<Rightarrow>
              if err \<noteq> 0 then Some (err, bs, out)
              else if ls ! 256 = 0 then Some (-9, bs, out)
              else if \<not> code_ok (take nlen ls) then Some (-7, bs, out)
              else if \<not> code_ok (drop nlen ls) then Some (-8, bs, out)
              else codes_spec (fst r) (take nlen ls) (drop nlen ls) bs out)"
    (is "implements r ?run ?spec")
proof (cases "order_spec (take ncode code_order) bs (\<lambda>_. 0)")
  case None
  then show ?thesis using order_loops_ok [OF assms(1), of ncode] by (simp add: implements_def)
next
  case (Some p)
  obtain f bs1 where p: "p = (f, bs1)" by (cases p)
  then obtain lengths s1 lengths1 junk where o: "order_loop (take ncode code_order) s (replicate MAXCODES None) = Val (lengths, s1)"
      "zero_loop (drop ncode code_order) lengths = Val lengths1" "represents s1 r bs1 out" "length lengths1 = 316"
      "lengths1 = map (\<lambda>l. Some (int l)) (map f [0..<19]) @ junk" "\<And>k. f k < 8"
    using order_loops_ok [OF assms(1), of ncode] Some by auto
  let ?cl = "map f [0..<19]"
  have l15: "\<And>l. l \<in> set ?cl \<Longrightarrow> l \<le> 15" using o(6) by (fastforce intro: less_imp_le less_trans)
  have "length ?cl \<le> length (h_symbol lencode)" using assms(6) by simp
  from construct_refused [OF l15 this, of junk] obtain err h where
    c: "huffman_construct lencode lengths1 19 = Val (err, h)"
      "err = 0 \<longleftrightarrow> complete ?cl" "err = 0 \<Longrightarrow> tables h ?cl" "length (h_symbol h) = 286"
    unfolding o(5) [symmetric] by (auto simp: assms(6))
  have le1: "length bs1 \<le> length bs" using Some p by (auto dest: order_spec_length)
  show ?thesis
  proof (cases "err = 0")
    case False
    then show ?thesis using Some p o(1,2) c(1,2) by (simp add: implements_error)
  next
    case True
    have fill: "filled lengths1 []" using o(4) by (simp add: filled_def)
    have n: "length [] \<le> nlen + ndist" "nlen + ndist \<le> 316" using assms(4,5) by auto
    note ll = length_loop_ok [OF c(3) [OF True] o(3) fill n]
    show ?thesis
    proof (cases "lengths_spec (nlen + ndist) ?cl bs1 []")
      case None
      then show ?thesis using Some p o(1,2) c(1,2) True ll by (simp add: implements_def)
    next
      case sm: (Some q)
      obtain e bs2 ls where q: "q = (e, bs2, ls)" by (cases q)
      then obtain lengths2 s2 where l: "length_loop (nlen + ndist) 0 s1 h lengths1 = Val (e, lengths2, s2)"
          "e = 0 \<Longrightarrow> represents s2 r bs2 out \<and> filled lengths2 ls \<and> length ls = nlen + ndist"
        using ll sm by auto
      have le2: "length bs2 < fuel" using lengths_spec_length sm q le1 assms(2) by fastforce
      show ?thesis
      proof (cases "e = 0")
        case e: True
        show ?thesis
          using dynamic_codes_implements [of s2 r bs2 out lengths2 ls nlen ndist fuel h distcode] l(2) [OF e] le2 assms(3-7) c(4)
            Some p o(1,2) c(1,2) True sm q l(1) e
          by (simp)
      next
        case False
        then show ?thesis using Some p o(1,2) c(1,2) True sm q l(1) by (simp add: implements_error)
      qed
    qed
  qed
qed

lemma inflate_dynamic_implements:
  assumes "represents s r bs out" "length bs < fuel"
  shows "implements r (inflate_dynamic fuel s) (dynamic_spec (fst r) bs out)"
proof -
  have n5: "nat 5 = 5" "nat 4 = 4" by simp_all
  show ?thesis
    unfolding inflate_dynamic_def dynamic_spec_unfold Let_def
    apply (rule implements_bits [OF assms(1), of 5, unfolded n5], simp, simp only: prod.case)
    apply (rule implements_bits [of _ _ _ _ 5, unfolded n5], assumption, simp, simp only: prod.case)
    apply (rule implements_bits [of _ _ _ _ 4, unfolded n5], assumption, simp, simp only: prod.case)
    subgoal premises p for x1 bs1 s1 x2 bs2 s2 x3 bs3 s3
    proof (cases "nat x1 + 257 > 286 \<or> nat x2 + 1 > 30")
      case True
      then show ?thesis by (simp add: implements_error)
    next
      case False
      have "length bs3 < fuel"
        using p(1,3,5) assms(2) by (auto dest!: read_bits_length)
      then show ?thesis
        using dynamic_header_implements [OF p(6), of fuel "nat x1 + 257" "nat x2 + 1"] False by simp
    qed
    done
qed

section \<open>The whole stream\<close>

lemma raw_loop_implements:
  assumes "represents s r bs out" "length bs < fuel" "length bs < blocks"
  shows "implements r (raw_loop fuel blocks s) (blocks_spec (fst r) bs out)"
  using assms
proof (induction blocks arbitrary: s bs out)
  case 0
  then show ?case by simp
next
  case (Suc blocks)
  have n12: "nat 1 = 1" "nat 2 = 2" by simp_all
  show ?case
    unfolding raw_loop.simps blocks_spec.simps [of "fst r" bs]
  proof (rule implements_bits [OF Suc.prems(1), of 1, unfolded n12], simp, unfold prod.case)
    fix x bs1 s1
    assume x: "read_bits 1 bs = Some (x, bs1)" and s1: "represents s1 r bs1 out"
    show "implements r
       (inf_bind (inflate_bits s1 2) (\<lambda>(type, s).
         inf_bind (if type = 0 then inflate_stored s else if type = 1 then inflate_fixed fuel s
             else if type = 2 then inflate_dynamic fuel s else Val (- 1, s))
           (\<lambda>(err, s). if err \<noteq> 0 then Val (err, s) else if x = 0 then raw_loop fuel blocks s else Val (err, s))))
       (case read_bits 2 bs1 of None \<Rightarrow> None | Some (type, bs2) \<Rightarrow>
         case (if type = 0 then Some (stored_spec (fst r) bs2 out) else if type = 1 then fixed_spec (fst r) bs2 out
               else if type = 2 then dynamic_spec (fst r) bs2 out else Some (-1, bs2, out)) of None \<Rightarrow> None
         | Some (err, bs3, out) \<Rightarrow> if err \<noteq> 0 then Some (err, bs3, out) else if x = 0 then blocks_spec (fst r) bs3 out else Some (0, bs3, out))"
    proof (rule implements_bits [OF s1, of 2, unfolded n12], simp, unfold prod.case)
      fix type bs2 s2
      assume type: "read_bits 2 bs1 = Some (type, bs2)" and s2: "represents s2 r bs2 out"
      have len: "length bs2 < length bs" "length bs2 < fuel"
        using read_bits_positive [OF x] read_bits_length [OF type] Suc.prems(2) by auto
      have block: "implements r (if type = 0 then inflate_stored s2 else if type = 1 then inflate_fixed fuel s2
             else if type = 2 then inflate_dynamic fuel s2 else Val (- 1, s2))
          (if type = 0 then Some (stored_spec (fst r) bs2 out) else if type = 1 then fixed_spec (fst r) bs2 out
               else if type = 2 then dynamic_spec (fst r) bs2 out else Some (-1, bs2, out))"
        using inflate_stored_implements [OF s2] inflate_fixed_implements [OF s2 len(2)] inflate_dynamic_implements [OF s2 len(2)]
        by (simp add: implements_error)
      show "implements r
          (inf_bind (if type = 0 then inflate_stored s2 else if type = 1 then inflate_fixed fuel s2
             else if type = 2 then inflate_dynamic fuel s2 else Val (- 1, s2))
           (\<lambda>(err, s). if err \<noteq> 0 then Val (err, s) else if x = 0 then raw_loop fuel blocks s else Val (err, s)))
         (case (if type = 0 then Some (stored_spec (fst r) bs2 out) else if type = 1 then fixed_spec (fst r) bs2 out
               else if type = 2 then dynamic_spec (fst r) bs2 out else Some (-1, bs2, out)) of None \<Rightarrow> None
         | Some (err, bs3, out) \<Rightarrow> if err \<noteq> 0 then Some (err, bs3, out) else if x = 0 then blocks_spec (fst r) bs3 out else Some (0, bs3, out))"
      proof (rule implements_status [OF block], goal_cases)
        case (1 bs3 out3 s3)
        have "length bs3 \<le> length bs2" using 1(2) by (rule block_spec_length)
        then have "length bs3 < fuel" "length bs3 < blocks" using len Suc.prems(2,3) by auto
        from Suc.IH [OF 1(1) this] 1(1) show ?case by (auto simp: implements_def)
      qed auto
    qed
  qed
qed

text \<open>The stream in \<open>src\<close>: its status, the bytes that it stands for and the number of bytes that it takes.\<close>

definition inflate_spec :: "nat option \<Rightarrow> byte list \<Rightarrow> int \<times> byte list \<times> nat" where
  "inflate_spec r src =
     (case blocks_spec r (concat (map byte_bits src)) [] of
        None \<Rightarrow> (2, [], 0)
      | Some (err, bs, out) \<Rightarrow> (err, out, length src - length bs div 8))"

lemma represents_consumed:
  assumes "represents s r bs out"
  shows "incnt s = inlen s - length bs div 8"
proof -
  have "length bs = nat (bitcnt s) + 8 * (inlen s - incnt s)" "nat (bitcnt s) < 8" "incnt s \<le> inlen s"
    using assms by (auto simp: represents_def wf_in_def state_bits_def)
  then show ?thesis by simp
qed

lemma inflate_raw_spec:
  assumes "sourcelen \<le> length source" "\<And>a. dest = Some a \<Longrightarrow> length a = destlen"
    and "inflate_spec (map_option length dest) (take sourcelen source) = (err, out, used)"
  shows "\<exists>res. inflate_raw dest destlen source sourcelen = Val res \<and> r_err res = err \<and>
     (err = 0 \<longrightarrow> r_destlen res = length out \<and> r_sourcelen res = used \<and>
       (case dest of None \<Rightarrow> r_dest res = None
        | Some _ \<Rightarrow> \<exists>a. r_dest res = Some a \<and> length a = destlen \<and> take (length out) a = map Some out))"
proof -
  let ?s = "\<lparr>i_out = dest, outlen = destlen, outcnt = 0, i_in = source, inlen = sourcelen, incnt = 0, bitbuf = 0, bitcnt = 0\<rparr>"
  let ?bs = "concat (map byte_bits (take sourcelen source))" and ?r = "(map_option length dest, sourcelen)" and ?f = "8 * sourcelen + 1"
  have r: "room ?s = ?r" using assms(2) by (cases dest) (auto simp: room_def)
  have "represents ?s ?r ?bs []"
    using assms(1,2) r by (auto simp: represents_def wf_in_def state_bits_rest rest_def has_out_def int_bits_def)
  moreover have "length ?bs < ?f" by simp
  ultimately have imp: "implements ?r (raw_loop ?f ?f ?s) (blocks_spec (fst ?r) ?bs [])" by (intro raw_loop_implements)
  show ?thesis
  proof (cases "blocks_spec (fst ?r) ?bs []")
    case None
    then show ?thesis
      using imp assms(3) by (auto simp: implements_def inflate_raw_def inflate_spec_def)
  next
    case (Some p)
    obtain e bs' o' where p: "p = (e, bs', o')" by (cases p)
    then obtain s' where s': "raw_loop ?f ?f ?s = Val (e, s')" "e = 0 \<Longrightarrow> represents s' ?r bs' o'"
      using imp Some by (auto simp: implements_def)
    have eq: "e = err" "o' = out" "used = length (take sourcelen source) - length bs' div 8"
      using assms(3) Some p by (auto simp: inflate_spec_def)
    show ?thesis
    proof (cases "err = 0")
      case False
      then show ?thesis using s'(1) eq(1) by (auto simp: inflate_raw_def)
    next
      case True
      then have rep: "represents s' ?r bs' out" using s'(2) eq by simp
      have "incnt s' = used" using represents_consumed [OF rep] rep eq(3) assms(1) by (simp add: represents_def room_def)
      moreover have "inflate_raw dest destlen source sourcelen =
          Val \<lparr>r_err = 0, r_dest = i_out s', r_destlen = outcnt s', r_sourcelen = incnt s'\<rparr>"
        using s'(1) eq(1) True by (simp add: inflate_raw_def)
      moreover have "i_out s' = None \<longleftrightarrow> dest = None" "dest \<noteq> None \<Longrightarrow> outlen s' = destlen"
        using rep assms(2) by (auto simp: represents_def room_def split: if_splits)
      ultimately show ?thesis
        using True rep by (auto simp: represents_def has_out_def split: option.splits)
    qed
  qed
qed

text \<open>
  Property C2 (\<open>inflate_raw\<close> implements the format). For every source and every length within it, with a buffer or without,
  \<open>inflate_raw\<close> returns; it reads and writes no cell outside its arrays and none that was not written before. It returns the status
  of the reference decoder: 0, the negative error, 1 if the buffer is too small or 2 if the input ends too early. On 0
  it stores the length of the output and how much of the source the stream takes, and the buffer begins with the output.
\<close>

theorem inflate_raw_refines:
  assumes "sourcelen \<le> length source" "\<forall>a. dest = Some a \<longrightarrow> length a = destlen"
    and "inflate_spec (map_option length dest) (take sourcelen source) = (err, out, used)"
  shows "\<exists>res. inflate_raw dest destlen source sourcelen = Val res \<and> r_err res = err \<and>
     (err = 0 \<longrightarrow> r_destlen res = length out \<and> r_sourcelen res = used \<and>
       (case dest of None \<Rightarrow> r_dest res = None
        | Some _ \<Rightarrow> \<exists>a. r_dest res = Some a \<and> length a = destlen \<and> take (length out) a = map Some out))"
  using inflate_raw_spec [OF assms(1) _ assms(3)] assms(2) by blast

theorem inflate_raw_refines_witness:
  "\<exists>res. inflate_raw (Some [None, None]) 2 [1, 1, 0, 254, 255, 65, 7] 7 = Val res \<and> r_err res = 0 \<and> r_destlen res = 1"
proof -
  have "inflate_spec (map_option length (Some [None, None] :: byte arr option)) (take 7 [1, 1, 0, 254, 255, 65, 7]) = (0, [65], 6)"
    by code_simp
  from inflate_raw_refines [OF _ _ this, of 2] show ?thesis by auto
qed

end
