(* ===== verification/Deflate_Passes.thy ===== *)
theory Deflate_Passes
  imports Deflate_Correct
begin

text \<open>
  The two passes of \<open>gunzip\<close> over a stream, and the streams that the reference decoder accepts: an encoder for literals and
  copies whose every output the decoder reads back.
\<close>

section \<open>A stream in a buffer that is large enough\<close>

text \<open>A step that succeeds without a limit succeeds in every buffer that holds what it puts out.\<close>

definition room_enough :: "(nat option \<Rightarrow> byte list \<Rightarrow> (int \<times> bool list \<times> byte list) option) \<Rightarrow> bool" where
  "room_enough f \<longleftrightarrow> (\<forall>out bs' out' m. f None out = Some (0, bs', out') \<longrightarrow>
     length out \<le> length out' \<and> (length out' \<le> m \<longrightarrow> f (Some m) out = Some (0, bs', out')))"

lemma room_enoughD:
  assumes "room_enough f" "f None out = Some (0, bs', out')"
  shows "length out \<le> length out'" "length out' \<le> m \<Longrightarrow> f (Some m) out = Some (0, bs', out')"
  using assms by (auto simp: room_enough_def)

lemma room_enoughI:
  assumes "\<And>out bs' out'. f None out = Some (0, bs', out') \<Longrightarrow> length out \<le> length out'"
    "\<And>out bs' out' m. f None out = Some (0, bs', out') \<Longrightarrow> length out' \<le> m \<Longrightarrow> f (Some m) out = Some (0, bs', out')"
  shows "room_enough f"
  using assms unfolding room_enough_def by blast

lemma room_enough_literal: "room_enough (\<lambda>r. literal_spec r y bs)"
  by (rule room_enoughI) (auto simp: literal_spec_def fits_room_def split: if_splits)

lemma room_enough_match: "room_enough (\<lambda>r. match_spec r dl y bs)"
  by (rule room_enoughI)
    (auto simp: match_spec_def fits_room_def Let_def read_symbol_def split: if_splits option.splits)

lemma length_bits_bytes: "length bs = 8 * n \<Longrightarrow> length (bits_bytes bs) = n"
proof (induction n arbitrary: bs)
  case 0
  then show ?case by (simp add: bits_bytes.simps)
next
  case (Suc n)
  then have "bs \<noteq> []" "length (drop 8 bs) = 8 * n" by auto
  then show ?case using Suc.IH by (simp add: bits_bytes.simps [of bs])
qed

lemma stored_spec_ok:
  fixes bs :: "bool list"
  defines "b \<equiv> drop (length bs mod 8) bs"
  defines "n \<equiv> nat (bits_value (take 16 b))"
  assumes "stored_spec None bs out = (0, bs', out')"
  shows "length out' = length out + n" "stored_spec r bs out = (if fits_room r (length out + n) then (0, bs', out') else (1, drop 32 b, out))"
proof -
  have c: "\<not> length b < 32" "bits_value (take 16 (drop 16 b)) = 65535 - bits_value (take 16 b)" "\<not> length (drop 32 b) < 8 * n"
      "bs' = drop (8 * n) (drop 32 b)" "out' = out @ bits_bytes (take (8 * n) (drop 32 b))"
    using assms(3) unfolding stored_spec_def Let_def b_def [symmetric] n_def [symmetric] by (auto simp: fits_room_def split: if_splits)
  show "length out' = length out + n" using c(3,5) by (simp add: length_bits_bytes)
  show "stored_spec r bs out = (if fits_room r (length out + n) then (0, bs', out') else (1, drop 32 b, out))"
    unfolding stored_spec_def Let_def b_def [symmetric] n_def [symmetric] using c by simp
qed

lemma room_enough_stored: "room_enough (\<lambda>r out. Some (stored_spec r bs out))"
  by (rule room_enoughI) (simp_all add: stored_spec_ok fits_room_def)

lemma codes_spec_step:
  "read_symbol ll bs = Some (y, bs1) \<Longrightarrow> \<not> (y < 0 \<or> y = 256) \<Longrightarrow>
   codes_spec r ll dl bs out =
     (case (if y < 256 then literal_spec r y bs1 out else match_spec r dl y bs1 out) of None \<Rightarrow> None
      | Some (err, bs, out) \<Rightarrow> if err \<noteq> 0 then Some (err, bs, out) else codes_spec r ll dl bs out)"
  by (subst codes_spec.simps) simp

lemma room_enough_codes: "room_enough (\<lambda>r. codes_spec r ll dl bs)"
proof (induction bs rule: measure_induct_rule [of length])
  case (less bs)
  show ?case
  proof (cases "read_symbol ll bs")
    case None
    then show ?thesis by (auto simp: codes_spec.simps [of _ ll dl bs] intro!: room_enoughI)
  next
    case (Some p)
    obtain y bs1 where p: "p = (y, bs1)" by (cases p)
    show ?thesis
    proof (cases "y < 0 \<or> y = 256")
      case True
      then show ?thesis using Some p by (auto simp: codes_spec.simps [of _ ll dl bs] intro!: room_enoughI)
    next
      case False
      let ?st = "\<lambda>r out. if y < 256 then literal_spec r y bs1 out else match_spec r dl y bs1 out"
      note step = codes_spec_step [OF _ False, of ll bs bs1] Some p
      have lt: "length bs1 < length bs" using read_symbol_length [of ll bs y bs1] Some p False by auto
      have st: "room_enough ?st" using room_enough_literal room_enough_match by (cases "y < 256") auto
      have IH: "room_enough (\<lambda>r. codes_spec r ll dl bs2)" if "?st None out = Some (0, bs2, out2)" for bs2 out out2
        using less.IH step_spec_length [OF that] lt by simp
      have split: "\<exists>bs2 out2. ?st None out = Some (0, bs2, out2) \<and> codes_spec None ll dl bs2 out2 = Some (0, bs', out')"
        if "codes_spec None ll dl bs out = Some (0, bs', out')" for out bs' out'
        using that step by (auto split: option.splits if_splits)
      show ?thesis
      proof (rule room_enoughI)
        fix out bs' out'
        assume "codes_spec None ll dl bs out = Some (0, bs', out')"
        from split [OF this] obtain bs2 out2 where
          s: "?st None out = Some (0, bs2, out2)" "codes_spec None ll dl bs2 out2 = Some (0, bs', out')" by blast
        show le: "length out \<le> length out'"
          using room_enoughD(1) [OF st s(1)] room_enoughD(1) [OF IH [OF s(1)] s(2)] by simp
        fix m
        assume m: "length out' \<le> m"
        have "?st (Some m) out = Some (0, bs2, out2)"
          using room_enoughD(2) [OF st s(1), of m] room_enoughD(1) [OF IH [OF s(1)] s(2)] m by simp
        then show "codes_spec (Some m) ll dl bs out = Some (0, bs', out')"
          using room_enoughD(2) [OF IH [OF s(1)] s(2) m] step by simp
      qed
    qed
  qed
qed

lemma room_enough_fixed: "room_enough (\<lambda>r. fixed_spec r bs)"
  unfolding fixed_spec_def by (rule room_enough_codes)

lemma room_enough_dynamic: "room_enough (\<lambda>r. dynamic_spec r bs)"
proof (cases "dynamic_header bs")
  case None
  then show ?thesis by (simp add: dynamic_spec_def room_enough_def)
next
  case (Some p)
  obtain err bs' ll dl where p: "p = (err, bs', ll, dl)" by (cases p)
  show ?thesis
    using Some p room_enough_codes [of ll dl bs'] by (cases "err = 0") (auto simp: dynamic_spec_def room_enough_def)
qed

lemma room_enough_blocks: "room_enough (\<lambda>r. blocks_spec r bs)"
proof (induction bs rule: measure_induct_rule [of length])
  case (less bs)
  let ?bl = "\<lambda>type bs2 r out. if type = (0::int) then Some (stored_spec r bs2 out) else if type = 1 then fixed_spec r bs2 out
      else if type = 2 then dynamic_spec r bs2 out else Some (-1, bs2, out)"
  have bl: "room_enough (?bl type bs2)" for type bs2
    using room_enough_stored room_enough_fixed room_enough_dynamic
    by (cases "type = 0"; cases "type = 1"; cases "type = 2") (auto simp: room_enough_def)
  show ?case
  proof (rule room_enoughI)
    fix out bs' out'
    assume a: "blocks_spec None bs out = Some (0, bs', out')"
    then obtain x bs1 type bs2 where r: "read_bits 1 bs = Some (x, bs1)" "read_bits 2 bs1 = Some (type, bs2)"
      by (subst (asm) blocks_spec.simps) (auto split: option.splits)
    have u: "blocks_spec r bs out = (case ?bl type bs2 r out of None \<Rightarrow> None
        | Some (err, bs3, out) \<Rightarrow> if err \<noteq> 0 then Some (err, bs3, out)
            else if x = 0 then blocks_spec r bs3 out else Some (0, bs3, out))" for r out
      unfolding blocks_spec.simps [of r bs out] r option.case prod.case ..
    obtain bs3 out3 where b: "?bl type bs2 None out = Some (0, bs3, out3)"
        "if x = 0 then blocks_spec None bs3 out3 = Some (0, bs', out') else (bs', out') = (bs3, out3)"
      using a unfolding u by (auto split: option.splits if_splits)
    have lt: "length bs3 < length bs"
      using block_spec_length [OF b(1)] read_bits_positive [OF r(1)] read_bits_length [OF r(2)] by simp
    note IH = less.IH [OF lt]
    have le3: "length out3 \<le> length out'" using b(2) room_enoughD(1) [OF IH] by (auto split: if_splits)
    show "length out \<le> length out'" using room_enoughD(1) [OF bl b(1)] le3 by simp
    fix m
    assume m: "length out' \<le> m"
    have "?bl type bs2 (Some m) out = Some (0, bs3, out3)" using room_enoughD(2) [OF bl b(1), of m] le3 m by simp
    then show "blocks_spec (Some m) bs out = Some (0, bs', out')"
      unfolding u using b(2) room_enoughD(2) [OF IH _ m] by (auto split: if_splits)
  qed
qed

lemma inflate_spec_room:
  assumes "inflate_spec None src = (0, out, used)" "length out \<le> m"
  shows "inflate_spec (Some m) src = (0, out, used)"
proof -
  obtain bs where b: "blocks_spec None (concat (map byte_bits src)) [] = Some (0, bs, out)" "used = length src - length bs div 8"
    using assms(1) by (auto simp: inflate_spec_def split: option.splits)
  then show ?thesis
    using room_enoughD(2) [OF room_enough_blocks b(1) assms(2)] by (simp add: inflate_spec_def)
qed

section \<open>Streams of literals and copies\<close>

text \<open>
  What a compressor hands to the encoder, what it stands for, and its encoding with two given codes. Lengths and
  distances are sent as the last entry of their table that is not larger, and the difference.
\<close>

datatype token = Literal byte | Copy nat nat

fun expand :: "token list \<Rightarrow> byte list \<Rightarrow> byte list" where
  "expand [] out = out"
| "expand (Literal c # ts) out = expand ts (out @ [c])"
| "expand (Copy len dist # ts) out = expand ts (lz_copy len dist out)"

definition table_index :: "int arr \<Rightarrow> nat \<Rightarrow> nat" where
  "table_index tab v = last (filter (\<lambda>k. the (tab ! k) \<le> int v) [0..<length tab])"

definition length_index :: "nat \<Rightarrow> nat" where
  "length_index = table_index length_base"

definition dist_index :: "nat \<Rightarrow> nat" where
  "dist_index = table_index dist_base"

definition encode_field :: "int arr \<Rightarrow> int arr \<Rightarrow> nat \<Rightarrow> bool list" where
  "encode_field tab ext v =
     (let k = table_index tab v in int_bits (nat (the (ext ! k))) (int v - the (tab ! k)))"

fun encode_token :: "nat list \<Rightarrow> nat list \<Rightarrow> token \<Rightarrow> bool list" where
  "encode_token ll dl (Literal c) = code_word ll (unat c)"
| "encode_token ll dl (Copy len dist) =
     code_word ll (257 + length_index len) @ encode_field length_base length_ext len @
     code_word dl (dist_index dist) @ encode_field dist_base dist_ext dist"

definition encode_block :: "nat list \<Rightarrow> nat list \<Rightarrow> token list \<Rightarrow> bool list" where
  "encode_block ll dl ts = concat (map (encode_token ll dl) ts) @ code_word ll 256"

text \<open>Tokens that can be sent when \<open>n\<close> bytes are out: the codes have words for them, and copies stay in the window.\<close>

fun tokens_ok :: "nat list \<Rightarrow> nat list \<Rightarrow> nat \<Rightarrow> token list \<Rightarrow> bool" where
  "tokens_ok ll dl n [] \<longleftrightarrow> True"
| "tokens_ok ll dl n (Literal c # ts) \<longleftrightarrow> ll ! unat c \<noteq> 0 \<and> tokens_ok ll dl (n + 1) ts"
| "tokens_ok ll dl n (Copy len dist # ts) \<longleftrightarrow>
     3 \<le> len \<and> len \<le> 258 \<and> 1 \<le> dist \<and> dist \<le> 32768 \<and> dist \<le> n \<and>
     ll ! (257 + length_index len) \<noteq> 0 \<and> dl ! dist_index dist \<noteq> 0 \<and> tokens_ok ll dl (n + len) ts"

definition codes_ok :: "nat list \<Rightarrow> nat list \<Rightarrow> bool" where
  "codes_ok ll dl \<longleftrightarrow> 286 \<le> length ll \<and> length dl = 30 \<and> ll ! 256 \<noteq> 0 \<and> subscribed ll \<and> subscribed dl \<and>
     (\<forall>l \<in> set ll. l \<le> 15) \<and> (\<forall>l \<in> set dl. l \<le> 15)"

lemma read_symbol_code_word:
  "subscribed lens \<Longrightarrow> \<forall>l \<in> set lens. l \<le> 15 \<Longrightarrow> s < length lens \<Longrightarrow> lens ! s \<noteq> 0 \<Longrightarrow>
   read_symbol lens (code_word lens s @ bs) = Some (int s, bs)"
  by (simp add: read_symbol_def huff_decode_code_word)

lemma read_bits_int_bits:
  "0 \<le> v \<Longrightarrow> v < 2 ^ n \<Longrightarrow> read_bits n (int_bits n v @ bs) = Some (v, bs)"
  by (simp add: read_bits_def bits_value_int_bits take_bit_int_eq_self)

lemma sorted_last: "sorted xs \<Longrightarrow> k \<in> set xs \<Longrightarrow> k \<le> last xs"
  by (induction xs rule: rev_induct) (auto simp: sorted_append)

lemma table_index_bound:
  assumes "0 < length tab" "the (tab ! 0) \<le> int v"
  shows "table_index tab v < length tab" "the (tab ! table_index tab v) \<le> int v"
    "table_index tab v + 1 < length tab \<Longrightarrow> int v < the (tab ! (table_index tab v + 1))"
proof -
  let ?f = "filter (\<lambda>k. the (tab ! k) \<le> int v) [0..<length tab]"
  have "0 \<in> set ?f" using assms by simp
  then have ne: "?f \<noteq> []" by (metis empty_iff empty_set)
  then have "last ?f \<in> set ?f" by (rule last_in_set)
  then show "table_index tab v < length tab" "the (tab ! table_index tab v) \<le> int v" by (auto simp: table_index_def)
  have "sorted ?f" by (rule sorted_wrt_filter) simp
  then have last: "k \<le> last ?f" if "k \<in> set ?f" for k
    using that by (rule sorted_last)
  show "int v < the (tab ! (table_index tab v + 1))" if "table_index tab v + 1 < length tab"
  proof (rule ccontr)
    assume "\<not> int v < the (tab ! (table_index tab v + 1))"
    then have "table_index tab v + 1 \<in> set ?f" using that by auto
    from last [OF this] show False by (simp add: table_index_def)
  qed
qed

lemma encode_field_read:
  assumes "0 < length tab" "the (tab ! 0) \<le> int v" "int v < the (last tab) + 2 ^ nat (the (ext ! (length tab - 1)))"
    and "list_all (\<lambda>k. the (tab ! (k + 1)) \<le> the (tab ! k) + 2 ^ nat (the (ext ! k))) [0..<length tab - 1]"
  shows "read_bits (nat (the (ext ! table_index tab v))) (encode_field tab ext v @ bs) =
     Some (int v - the (tab ! table_index tab v), bs)"
proof -
  let ?k = "table_index tab v"
  note k = table_index_bound [OF assms(1,2)]
  have "int v < the (tab ! ?k) + 2 ^ nat (the (ext ! ?k))"
  proof (cases "?k + 1 < length tab")
    case True
    then have "the (tab ! (?k + 1)) \<le> the (tab ! ?k) + 2 ^ nat (the (ext ! ?k))"
      using assms(4) by (auto simp: list_all_iff)
    then show ?thesis using k(3) [OF True] by simp
  next
    case False
    then have "?k = length tab - 1" using k(1) by simp
    then show ?thesis using assms(1,3) by (simp add: last_conv_nth)
  qed
  then show ?thesis unfolding encode_field_def Let_def using k(2) by (intro read_bits_int_bits) auto
qed

lemma length_field:
  assumes "3 \<le> len" "len \<le> 258"
  shows "length_index len < 29"
    and "read_bits (nat (the (length_ext ! length_index len))) (encode_field length_base length_ext len @ bs) =
       Some (int len - the (length_base ! length_index len), bs)"
proof -
  have t: "0 < length length_base" "the (length_base ! 0) \<le> int len"
    "int len < the (last length_base) + 2 ^ nat (the (length_ext ! (length length_base - 1)))"
    using assms by (simp_all add: length_base_def length_ext_def)
  show "length_index len < 29" using table_index_bound(1) [OF t(1,2)] by (simp add: length_index_def length_base_def)
  have "list_all (\<lambda>k. the (length_base ! (k + 1)) \<le> the (length_base ! k) + 2 ^ nat (the (length_ext ! k))) [0..<length length_base - 1]"
    by code_simp
  from encode_field_read [OF t this]
  show "read_bits (nat (the (length_ext ! length_index len))) (encode_field length_base length_ext len @ bs) =
       Some (int len - the (length_base ! length_index len), bs)" by (simp add: length_index_def)
qed

lemma dist_field:
  assumes "1 \<le> dist" "dist \<le> 32768"
  shows "dist_index dist < 30"
    and "read_bits (nat (the (dist_ext ! dist_index dist))) (encode_field dist_base dist_ext dist @ bs) =
       Some (int dist - the (dist_base ! dist_index dist), bs)"
proof -
  have t: "0 < length dist_base" "the (dist_base ! 0) \<le> int dist"
    "int dist < the (last dist_base) + 2 ^ nat (the (dist_ext ! (length dist_base - 1)))"
    using assms by (simp_all add: dist_base_def dist_ext_def)
  show "dist_index dist < 30" using table_index_bound(1) [OF t(1,2)] by (simp add: dist_index_def dist_base_def)
  have "list_all (\<lambda>k. the (dist_base ! (k + 1)) \<le> the (dist_base ! k) + 2 ^ nat (the (dist_ext ! k))) [0..<length dist_base - 1]"
    by code_simp
  from encode_field_read [OF t this]
  show "read_bits (nat (the (dist_ext ! dist_index dist))) (encode_field dist_base dist_ext dist @ bs) =
       Some (int dist - the (dist_base ! dist_index dist), bs)" by (simp add: dist_index_def)
qed

lemma match_spec_copy:
  assumes "codes_ok ll dl" "3 \<le> len" "len \<le> 258" "1 \<le> dist" "dist \<le> 32768" "dist \<le> length out" "dl ! dist_index dist \<noteq> 0"
  shows "match_spec None dl (257 + int (length_index len))
     (encode_field length_base length_ext len @ code_word dl (dist_index dist) @ encode_field dist_base dist_ext dist @ bs) out =
     Some (0, bs, lz_copy len dist out)"
proof -
  have dl: "subscribed dl" "\<forall>l \<in> set dl. l \<le> 15" "dist_index dist < length dl"
    using assms(1) dist_field(1) [OF assms(4,5)] by (auto simp: codes_ok_def)
  note sy = read_symbol_code_word [OF dl assms(7)]
  have k: "nat (257 + int (length_index len) - 257) = length_index len" by simp
  show ?thesis
    unfolding match_spec_def Let_def k
    using length_field [OF assms(2,3)] dist_field(2) [OF assms(4,5)] sy assms(6) by (simp add: fits_room_def)
qed

lemma codes_spec_tokens:
  assumes "codes_ok ll dl" "tokens_ok ll dl (length out) ts"
  shows "codes_spec None ll dl (encode_block ll dl ts @ bs) out = Some (0, bs, expand ts out)"
  using assms(2)
proof (induction ts arbitrary: out)
  case Nil
  have "read_symbol ll (code_word ll 256 @ bs) = Some (int 256, bs)"
    using assms(1) by (intro read_symbol_code_word) (auto simp: codes_ok_def)
  then show ?case by (subst codes_spec.simps) (simp add: encode_block_def)
next
  case (Cons t ts)
  let ?bs = "encode_block ll dl ts @ bs"
  have ll: "subscribed ll" "\<forall>l \<in> set ll. l \<le> 15" "286 \<le> length ll" using assms(1) by (auto simp: codes_ok_def)
  have enc: "encode_block ll dl (t # ts) @ bs = encode_token ll dl t @ ?bs" by (simp add: encode_block_def)
  show ?case
  proof (cases t)
    case (Literal c)
    have c: "unat c < 256" by (rule unat_byte_less)
    have "read_symbol ll (code_word ll (unat c) @ ?bs) = Some (int (unat c), ?bs)"
      using ll c Cons.prems Literal by (intro read_symbol_code_word) auto
    moreover have "\<not> (int (unat c) < 0 \<or> int (unat c) = 256)" "int (unat c) < 256" using c by linarith+
    ultimately have "codes_spec None ll dl (code_word ll (unat c) @ ?bs) out = codes_spec None ll dl ?bs (out @ [c])"
      by (subst codes_spec_step) (auto simp: literal_spec_def fits_room_def)
    then show ?thesis unfolding enc unfolding Literal using Cons.IH [of "out @ [c]"] Cons.prems Literal by simp
  next
    case (Copy len dist)
    let ?bs1 = "encode_field length_base length_ext len @ code_word dl (dist_index dist) @ encode_field dist_base dist_ext dist @ ?bs"
    have ok: "3 \<le> len" "len \<le> 258" "1 \<le> dist" "dist \<le> 32768" "dist \<le> length out" "dl ! dist_index dist \<noteq> 0"
      "ll ! (257 + length_index len) \<noteq> 0" "tokens_ok ll dl (length (lz_copy len dist out)) ts"
      using Cons.prems Copy by auto
    have "read_symbol ll (code_word ll (257 + length_index len) @ ?bs1) = Some (int (257 + length_index len), ?bs1)"
      using ll ok(7) length_field(1) [OF ok(1,2)] by (intro read_symbol_code_word) auto
    from codes_spec_step [OF this, of None dl out] match_spec_copy [OF assms(1) ok(1-6), of ?bs] Cons.IH [OF ok(8)]
    show ?thesis unfolding enc unfolding Copy by simp
  qed
qed

lemma bits_bytes_pad: "\<exists>pad. concat (map byte_bits (bits_bytes bs)) = bs @ pad"
proof (induction bs rule: bits_bytes.induct)
  case (1 bs)
  show ?case
  proof (cases "bs = []")
    case True
    then show ?thesis by (simp add: bits_bytes.simps)
  next
    case False
    have "uint (word_of_int (bits_value (take 8 bs)) :: byte) = bits_value (take 8 bs)"
    proof -
      have "bits_value (take 8 bs) < 2 ^ 8"
      proof -
        have "length (take 8 bs) \<le> 8" by simp
        from power_increasing [OF this, of "2 :: int"] bits_value_bound [of "take 8 bs"] show ?thesis by linarith
      qed
      then show ?thesis using bits_value_bound [of "take 8 bs"] by (simp add: uint_word_of_int)
    qed
    then have b: "byte_bits (word_of_int (bits_value (take 8 bs))) = int_bits 8 (bits_value (take 8 bs))" by (simp add: byte_bits_int)
    show ?thesis
    proof (cases "8 \<le> length bs")
      case True
      then have "int_bits 8 (bits_value (take 8 bs)) = take 8 bs" using int_bits_bits_value [of "take 8 bs"] by simp
      then show ?thesis using 1 [OF False] False b by (subst bits_bytes.simps) (auto simp flip: append_assoc)
    next
      case short: False
      then have "take 8 bs = bs" by simp
      moreover have "take (length bs) (int_bits 8 (bits_value bs)) = bs"
        using short int_bits_bits_value [of bs] by (simp add: int_bits_take)
      ultimately show ?thesis
        using False b short by (subst bits_bytes.simps) (simp add: bits_bytes.simps [of "[]"], metis append_take_drop_id)
    qed
  qed
qed

lemma fixed_codes_ok: "codes_ok fixed_lengths (replicate 30 5)"
proof -
  have l15: "\<And>l. l \<in> set fixed_lengths \<Longrightarrow> l \<le> 15" by (auto simp: fixed_lengths_def)
  have "kraft_sum fixed_lengths = 2 ^ 15" "kraft_sum (replicate 30 5) \<le> 2 ^ 15"
    by (simp_all add: kraft_sum_def fixed_lengths_def sum_list_replicate)
  then have "subscribed fixed_lengths" "subscribed (replicate 30 5)"
    using subscribed_kraft [OF l15] subscribed_kraft [of "replicate 30 5"] by auto
  moreover have "fixed_lengths ! 256 \<noteq> 0" by (simp add: fixed_lengths_def nth_append)
  ultimately show ?thesis using l15 by (simp add: codes_ok_def) (simp add: fixed_lengths_def)
qed

text \<open>A stream of one final block with the fixed codes.\<close>

definition encode_fixed :: "token list \<Rightarrow> byte list" where
  "encode_fixed ts = bits_bytes ([True, True, False] @ encode_block fixed_lengths (replicate 30 5) ts)"

lemma inflate_spec_fixed:
  assumes "tokens_ok fixed_lengths (replicate 30 5) 0 ts"
  shows "\<exists>used. inflate_spec None (encode_fixed ts) = (0, expand ts [], used)"
proof -
  let ?e = "encode_block fixed_lengths (replicate 30 5) ts"
  obtain pad where pad: "concat (map byte_bits (encode_fixed ts)) = [True, True, False] @ ?e @ pad"
    using bits_bytes_pad [of "[True, True, False] @ ?e"] by (auto simp: encode_fixed_def)
  have r: "read_bits 1 ([True, True, False] @ ?e @ pad) = Some (1, [True, False] @ ?e @ pad)"
    "read_bits 2 ([True, False] @ ?e @ pad) = Some (1, ?e @ pad)"
    by (simp_all add: read_bits_def bits_value_def numeral_2_eq_2)
  have "fixed_spec None (?e @ pad) [] = Some (0, pad, expand ts [])"
    unfolding fixed_spec_def using codes_spec_tokens [OF fixed_codes_ok, of "[]" ts pad] assms by simp
  then have "blocks_spec None ([True, True, False] @ ?e @ pad) [] = Some (0, pad, expand ts [])"
    unfolding blocks_spec.simps [of None "[True, True, False] @ ?e @ pad"] r option.case prod.case by simp
  then show ?thesis by (simp only: inflate_spec_def pad option.case prod.case) blast
qed

text \<open>
  Property C12 (the decoder reads every stream of literals and copies). Take any sequence of literals and copies, the copies with
  lengths from 3 to 258 and distances from 1 to 32768 that do not reach before the start of the output, and encode it with the fixed
  codes in one final block. \<open>inflate_raw\<close> without a buffer returns 0 and the length of what the sequence stands for, and with
  a buffer of that length it returns 0 and fills the buffer with it, overlapping copies included. It makes no undefined access.
\<close>

theorem inflate_reads_tokens:
  assumes "tokens_ok fixed_lengths (replicate 30 5) 0 ts"
  defines "src \<equiv> encode_fixed ts" and "out \<equiv> expand ts []"
  shows "(\<exists>res. inflate_raw None 0 src (length src) = Val res \<and> r_err res = 0 \<and> r_destlen res = length out) \<and>
     (\<exists>res. inflate_raw (Some (replicate (length out) None)) (length out) src (length src) = Val res \<and>
        r_err res = 0 \<and> r_dest res = Some (map Some out))"
proof -
  obtain used where sp: "inflate_spec None src = (0, out, used)"
    using inflate_spec_fixed [OF assms(1)] unfolding src_def out_def by blast
  have "inflate_spec (Some (length out)) src = (0, out, used)" using inflate_spec_room [OF sp] by simp
  with sp show ?thesis
    using inflate_raw_spec [of "length src" src None 0 0 out used]
      inflate_raw_spec [of "length src" src "Some (replicate (length out) None)" "length out" 0 out used]
    by auto
qed

theorem inflate_reads_tokens_witness:
  "\<exists>res. inflate_raw (Some (replicate 7 None)) 7 (encode_fixed [Literal 97, Literal 98, Copy 5 2])
       (length (encode_fixed [Literal 97, Literal 98, Copy 5 2])) = Val res \<and>
     r_err res = 0 \<and> r_dest res = Some (map Some [97, 98, 97, 98, 97, 98, 97])"
proof -
  have "length_index 5 = 2" "dist_index 2 = 1" by code_simp+
  then have ok: "tokens_ok fixed_lengths (replicate 30 5) 0 [Literal 97, Literal 98, Copy 5 2]"
    by (simp add: fixed_lengths_def nth_append)
  have "expand [Literal 97, Literal 98, Copy 5 2] [] = [97, 98, 97, 98, 97, 98, 97]" by (simp add: numeral_eq_Suc)
  with inflate_reads_tokens [OF ok] show ?thesis by simp
qed

end
