(* ===== verification/Gzip_Crc.thy ===== *)
theory Gzip_Crc
  imports Aruu_Base
begin

text \<open>
  The checksum of \<open>cmd/pseudo/gzip.c\<close>, \<open>crc32_init\<close> and \<open>crc32_update\<close>, and the four-byte numbers
  around it. The table-driven update is shown to be the division by the polynomial, one bit of the message
  at a time.
\<close>

section \<open>Definitions\<close>

definition crc32_step :: "u32 \<Rightarrow> u32" where
  "crc32_step c = (if c AND 1 \<noteq> 0 then 0xedb88320 XOR drop_bit 1 c else drop_bit 1 c)"

text \<open>\<open>crc32_init\<close>: the entries of \<open>crc32_table\<close>.\<close>

definition crc32_table :: "u32 list" where
  "crc32_table = map (\<lambda>n. (crc32_step ^^ 8) (of_nat n)) [0..<256]"

definition crc32_update :: "u32 \<Rightarrow> byte list \<Rightarrow> u32" where
  "crc32_update crc buf =
     NOT (fold (\<lambda>b crc. crc32_table ! unat ((crc XOR ucast b) AND 0xff) XOR drop_bit 8 crc) buf (NOT crc))"

definition get_le32 :: "byte list \<Rightarrow> u32" where
  "get_le32 p = ucast (p ! 0) OR push_bit 8 (ucast (p ! 1)) OR push_bit 16 (ucast (p ! 2)) OR push_bit 24 (ucast (p ! 3))"

definition put_le32 :: "u32 \<Rightarrow> byte list" where
  "put_le32 v = [ucast (v AND 0xff), ucast (drop_bit 8 v AND 0xff), ucast (drop_bit 16 v AND 0xff), ucast (drop_bit 24 v AND 0xff)]"

section \<open>The checksum bit by bit\<close>

text \<open>The register after one more bit of the message.\<close>

definition crc_bit :: "u32 \<Rightarrow> bool \<Rightarrow> u32" where
  "crc_bit reg b = (if bit reg 0 \<noteq> b then 0xedb88320 XOR drop_bit 1 reg else drop_bit 1 reg)"

definition crc_spec :: "u32 \<Rightarrow> byte list \<Rightarrow> u32" where
  "crc_spec crc buf = NOT (foldl crc_bit (NOT crc) (concat (map (\<lambda>b. map (bit b) [0..<8]) buf)))"

lemma get_put_le32: "get_le32 (put_le32 v @ r) = v"
proof -
  have m: "(0xff :: u32) = mask 8" by (simp add: mask_eq_exp_minus_1)
  show ?thesis
  proof (rule bit_word_eqI)
    fix n assume "n < LENGTH(32)"
    then consider "n < 8" | "8 \<le> n" "n < 16" | "16 \<le> n" "n < 24" | "24 \<le> n" "n < 32" by fastforce
    then show "bit (get_le32 (put_le32 v @ r)) n = bit v n"
      unfolding get_le32_def put_le32_def m by cases (auto simp: bit_simps)
  qed
qed

lemma length_put_le32 [simp]: "length (put_le32 v) = 4"
  by (simp add: put_le32_def)

lemma and_one_bit: "c AND 1 \<noteq> 0 \<longleftrightarrow> bit c 0" for c :: u32
  by (simp add: and_one_eq bit_0 odd_iff_mod_2_eq_one)

lemma crc32_step_xor: "crc32_step (a XOR b) = crc32_step a XOR crc32_step b"
  by (auto simp: crc32_step_def and_one_bit bit_xor_iff xor.assoc xor.left_commute xor.commute)

lemma crc32_steps_xor: "(crc32_step ^^ n) (a XOR b) = (crc32_step ^^ n) a XOR (crc32_step ^^ n) b"
  by (induction n) (simp_all add: crc32_step_xor)

text \<open>While the low bits are zero, a step only shifts.\<close>

lemma crc32_steps_shift: "n \<le> 32 \<Longrightarrow> (\<And>k. k < n \<Longrightarrow> \<not> bit x k) \<Longrightarrow> (crc32_step ^^ n) x = drop_bit n x"
proof (induction n)
  case (Suc n)
  then have e: "(crc32_step ^^ n) x = drop_bit n x" by simp
  have "\<not> bit (drop_bit n x) 0" using Suc.prems by (simp add: bit_drop_bit_eq)
  then have "crc32_step (drop_bit n x) = drop_bit (Suc n) x"
    unfolding crc32_step_def and_one_bit by (simp add: drop_bit_drop_bit)
  then show ?case by (simp add: e)
qed simp

lemma crc32_table_step: "crc32_table ! unat (x AND 0xff) XOR drop_bit 8 x = (crc32_step ^^ 8) x"
proof -
  have m: "(0xff :: u32) = mask 8" by (simp add: mask_eq_exp_minus_1)
  have "unat (x AND 0xff) < 256"
    unfolding m using take_bit_nat_less_exp [of 8 "unat x"] by (simp add: take_bit_eq_mask [symmetric] unsigned_take_bit_eq)
  then have "crc32_table ! unat (x AND 0xff) = (crc32_step ^^ 8) (x AND 0xff)"
    by (simp add: crc32_table_def)
  moreover have "(crc32_step ^^ 8) (push_bit 8 (drop_bit 8 x)) = drop_bit 8 x"
  proof -
    have "(crc32_step ^^ 8) (push_bit 8 (drop_bit 8 x)) = drop_bit 8 (push_bit 8 (drop_bit 8 x))"
      by (rule crc32_steps_shift) (auto simp: bit_simps)
    also have "\<dots> = drop_bit 8 x" by (rule bit_word_eqI) (auto simp: bit_simps dest: bit_imp_le_length)
    finally show ?thesis .
  qed
  moreover have "x = (x AND 0xff) XOR push_bit 8 (drop_bit 8 x)"
    unfolding m by (rule bit_word_eqI) (auto simp: bit_simps)
  ultimately show ?thesis by (metis crc32_steps_xor)
qed

lemma crc_bit_step: "crc_bit reg b = crc32_step (reg XOR of_bool b)"
proof -
  have "((reg XOR of_bool b) AND 1 \<noteq> 0) = (bit reg 0 \<noteq> b)"
    unfolding and_one_bit by (cases b) (auto simp: bit_xor_iff)
  moreover have "drop_bit 1 (reg XOR of_bool b) = drop_bit 1 reg" by (cases b) (simp_all)
  ultimately show ?thesis by (simp add: crc_bit_def crc32_step_def)
qed

lemma crc_bits_steps:
  fixes u :: u32
  assumes "n \<le> 32"
  shows "foldl crc_bit reg (map (bit u) [0..<n]) = (crc32_step ^^ n) (reg XOR take_bit n u)"
  using assms
proof (induction n)
  case (Suc n)
  have t: "take_bit (Suc n) u = take_bit n u XOR push_bit n (of_bool (bit u n))"
    by (rule bit_word_eqI) (auto simp: bit_simps less_Suc_eq)
  have "(crc32_step ^^ n) (push_bit n (of_bool (bit u n))) = drop_bit n (push_bit n (of_bool (bit u n)))"
    using Suc.prems by (intro crc32_steps_shift) (auto simp: bit_simps)
  also have "\<dots> = of_bool (bit u n)" using Suc.prems by (auto intro!: bit_word_eqI simp: bit_simps)
  finally have "(crc32_step ^^ n) (reg XOR take_bit (Suc n) u) = (crc32_step ^^ n) (reg XOR take_bit n u) XOR of_bool (bit u n)"
    unfolding t by (simp add: crc32_steps_xor xor.assoc [symmetric])
  then show ?case using Suc by (simp add: crc_bit_step)
qed simp

lemma crc_byte: "foldl crc_bit reg (map (bit b) [0..<8]) = crc32_table ! unat ((reg XOR ucast b) AND 0xff) XOR drop_bit 8 (reg XOR ucast b)"
  for b :: byte
proof -
  have "map (bit b) [0..<8] = map (bit (ucast b :: u32)) [0..<8]" by (simp add: bit_simps)
  moreover have "take_bit 8 (ucast b :: u32) = ucast b" by (rule bit_word_eqI) (auto simp: bit_simps dest: bit_imp_le_length)
  ultimately show ?thesis using crc_bits_steps [of 8 reg "ucast b"] by (simp only: crc32_table_step)
qed

lemma crc32_update_bits: "crc32_update crc buf = crc_spec crc buf"
proof -
  have "drop_bit 8 (reg XOR ucast b) = drop_bit 8 reg" for reg :: u32 and b :: byte
    by (rule bit_word_eqI) (auto simp: bit_simps dest: bit_imp_le_length)
  then have "fold (\<lambda>b crc. crc32_table ! unat ((crc XOR ucast b) AND 0xff) XOR drop_bit 8 crc) buf reg =
      foldl crc_bit reg (concat (map (\<lambda>b. map (bit b) [0..<8]) buf))" for reg
    by (induction buf arbitrary: reg) (simp_all add: crc_byte del: upt_rec_numeral)
  then show ?thesis by (simp add: crc32_update_def crc_spec_def)
qed

lemma crc32_update_append: "crc32_update (crc32_update crc a) b = crc32_update crc (a @ b)"
  by (simp add: crc32_update_def)

text \<open>
  The table-driven \<open>crc32_update\<close> is the remainder of the message by the polynomial, one bit
  at a time, the least significant bit of each byte first; and the checksum of a message may be computed in
  pieces.
\<close>

lemma crc32_is_division:
  "crc32_update crc buf = crc_spec crc buf \<and> crc32_update (crc32_update crc a) b = crc32_update crc (a @ b)"
  by (rule conjI [OF crc32_update_bits crc32_update_append])

end
