(* ===== verification/Cmd_Gzip.thy ===== *)
theory Cmd_Gzip
  imports Deflate_Passes Gzip_Crc Aruu_Arg Libutil_String
begin

text \<open>
  The command \<open>gzip\<close>, \<open>cmd/pseudo/gzip.c\<close>: the gzip format around the deflate stream and the
  \<open>main\<close> that replaces files.

  A file is the list of its bytes. \<open>gunzip\<close> returns what it writes, or the message with which \<open>eprintf\<close> ends
  the command; reads outside the input are \<open>Undefined\<close>. The file system is a map from names to
  contents with two predicates for the calls that may fail, opening for writing and removing; that
  reads and writes of an open file fail is not modelled.
\<close>

section \<open>Definitions\<close>

datatype gz_error = Not_Gzip | Bad_Method | Truncated_Header | Corrupt_Data | Crc_Mismatch | Size_Mismatch

text \<open>
  Reading a stream to its end into an array that doubles when it is full; \<open>fread\<close> gives as many bytes as
  asked for unless the stream ends.
\<close>

function read_all_loop :: "nat \<Rightarrow> byte list \<Rightarrow> byte list \<Rightarrow> byte list" where
  "read_all_loop cap buf fp =
     (let n = length buf; cap = (if n = cap then cap * 2 else cap); r = min (cap - n) (length fp)
      in if r = 0 then buf else read_all_loop cap (buf @ take r fp) (drop r fp))"
  by pat_completeness auto
termination
  by (relation "measure (\<lambda>(cap, buf, fp). length fp)") (auto split: if_splits)

declare read_all_loop.simps [simp del]

definition read_all :: "byte list \<Rightarrow> byte list" where
  "read_all fp = read_all_loop (2 ^ 16) [] fp"

text \<open>The loop over a file name or a comment: \<open>while (pos < inlen && in[pos] != 0) pos++\<close>.\<close>

function skip_name :: "byte list \<Rightarrow> nat \<Rightarrow> nat" where
  "skip_name inp pos = (if pos < length inp \<and> inp ! pos \<noteq> 0 then skip_name inp (pos + 1) else pos)"
  by pat_completeness auto
termination
  by (relation "measure (\<lambda>(inp, pos). length inp - pos)") auto

declare skip_name.simps [simp del]

text \<open>The flags of the header; a read of the input.\<close>

definition GZ_FHCRC :: u32 where "GZ_FHCRC = push_bit 1 1"
definition GZ_FEXTRA :: u32 where "GZ_FEXTRA = push_bit 2 1"
definition GZ_FNAME :: u32 where "GZ_FNAME = push_bit 3 1"
definition GZ_FCOMMENT :: u32 where "GZ_FCOMMENT = push_bit 4 1"

definition byte_at :: "byte list \<Rightarrow> nat \<Rightarrow> byte inf" where
  "byte_at inp i = (if i < length inp then Val (inp ! i) else Undefined)"

text \<open>The field behind \<open>GZ_FEXTRA\<close>: the position behind it, or the message.\<close>

definition skip_extra :: "byte list \<Rightarrow> nat \<Rightarrow> (gz_error + nat) inf" where
  "skip_extra inp pos =
     (if pos + 2 > length inp then Val (Inl Truncated_Header)
      else
        inf_bind (byte_at inp pos) (\<lambda>lo. inf_bind (byte_at inp (pos + 1)) (\<lambda>hi.
        Val (Inr (pos + (2 + unat (ucast lo OR push_bit 8 (ucast hi) :: u32)))))))"

text \<open>The header up to the compressed data: its length, or the message.\<close>

definition gunzip_header :: "byte list \<Rightarrow> (gz_error + nat) inf" where
  "gunzip_header inp =
     (if length inp < 18 then Val (Inl Not_Gzip)
      else inf_bind (byte_at inp 0) (\<lambda>c. if c \<noteq> 0x1f then Val (Inl Not_Gzip)
      else inf_bind (byte_at inp 1) (\<lambda>c. if c \<noteq> 0x8b then Val (Inl Not_Gzip)
      else inf_bind (byte_at inp 2) (\<lambda>c. if c \<noteq> 8 then Val (Inl Bad_Method)
      else inf_bind (byte_at inp 3) (\<lambda>c.
        let flg = ucast c :: u32; pos = 10 in
        inf_bind (if flg AND GZ_FEXTRA \<noteq> 0 then skip_extra inp pos else Val (Inr pos)) (\<lambda>r.
        case r of Inl e \<Rightarrow> Val (Inl e)
        | Inr pos \<Rightarrow>
            let pos = (if flg AND GZ_FNAME \<noteq> 0 then skip_name inp pos + 1 else pos);
                pos = (if flg AND GZ_FCOMMENT \<noteq> 0 then skip_name inp pos + 1 else pos);
                pos = (if flg AND GZ_FHCRC \<noteq> 0 then pos + 2 else pos)
            in if pos + 8 > length inp then Val (Inl Truncated_Header) else Val (Inr pos)))))))"

text \<open>The bytes of an array that are read by \<open>crc32_update\<close> and \<open>fwrite\<close>.\<close>

definition read_cells :: "byte arr \<Rightarrow> nat \<Rightarrow> byte list inf" where
  "read_cells a n = (if n \<le> length a \<and> None \<notin> set (take n a) then Val (map the (take n a)) else Undefined)"

definition gunzip :: "byte list \<Rightarrow> (gz_error + byte list) inf" where
  "gunzip inp =
     inf_bind (gunzip_header inp) (\<lambda>h. case h of Inl e \<Rightarrow> Val (Inl e)
      | Inr hdr \<Rightarrow>
          let srclen = length inp - hdr - 8 in
          inf_bind (inflate_raw None 0 (drop hdr inp) srclen) (\<lambda>res.
          if r_err res \<noteq> 0 then Val (Inl Corrupt_Data)
          else
            let destlen = (if r_destlen res \<noteq> 0 then r_destlen res else 1) in
            inf_bind (inflate_raw (Some (replicate destlen None)) destlen (drop hdr inp) srclen) (\<lambda>res.
            if r_err res \<noteq> 0 then Val (Inl Corrupt_Data)
            else if hdr + r_sourcelen res + 8 > length inp then Undefined
            else
              let want_crc = get_le32 (drop (hdr + r_sourcelen res) inp);
                  want_isize = get_le32 (drop (hdr + r_sourcelen res + 4) inp)
              in inf_bind (read_cells (the (r_dest res)) (r_destlen res)) (\<lambda>dest.
              if crc32_update 0 dest \<noteq> want_crc then Val (Inl Crc_Mismatch)
              else if of_nat (r_destlen res) \<noteq> want_isize then Val (Inl Size_Mismatch)
              else Val (Inr dest)))))"

function write_blocks :: "byte list \<Rightarrow> byte list" where
  "write_blocks inp =
     (if length inp > 0 then
        let chunk = (if length inp > 65535 then 65535 else length inp);
            c = of_nat chunk :: u64
        in [if chunk = length inp then 1 else 0, ucast (c AND 0xff), ucast (drop_bit 8 c AND 0xff),
            ucast (NOT c AND 0xff), ucast (drop_bit 8 (NOT c) AND 0xff)] @ take chunk inp @ write_blocks (drop chunk inp)
      else [])"
  by pat_completeness auto
termination
  by (relation "measure length") auto

declare write_blocks.simps [simp del]

definition gzip_write_stored :: "byte list \<Rightarrow> byte list" where
  "gzip_write_stored inp = (if length inp = 0 then [1, 0, 0, 0, 0] else write_blocks inp)"

definition gzip_compress :: "byte list \<Rightarrow> byte list option \<Rightarrow> byte list" where
  "gzip_compress inp name =
     [0x1f, 0x8b, 8, if name \<noteq> None then 8 else 0] @ put_le32 0 @ [0, 255] @
     (case name of None \<Rightarrow> [] | Some s \<Rightarrow> s @ [0]) @
     gzip_write_stored inp @ put_le32 (crc32_update 0 inp) @ put_le32 (of_nat (length inp))"

definition gz_suffix :: "byte list" where
  "gz_suffix = bytes ''.gz''"

definition strip_gz_suffix :: "byte list \<Rightarrow> byte list option" where
  "strip_gz_suffix name =
     (let n = length name in if n > 3 \<and> drop (n - 3) name = gz_suffix then Some (take (n - 3) name) else None)"

text \<open>What \<open>outname\<close> holds after \<open>strlcpy\<close> and after \<open>strlcat\<close>.\<close>

definition outname_copy :: "byte list \<Rightarrow> byte list option" where
  "outname_copy name = map_option (\<lambda>(b, _). cstr b) (strlcpy (replicate 4096 0) (cmem name) 4096)"

definition outname_gz :: "byte list \<Rightarrow> byte list option" where
  "outname_gz name =
     (case strlcpy (replicate 4096 0) (cmem name) 4096 of None \<Rightarrow> None
      | Some (b, _) \<Rightarrow> map_option (\<lambda>(b, _). cstr b) (strlcat b (cmem gz_suffix) 4096))"

record gz_sys =
  files :: "byte list \<Rightarrow> byte list option"
  std_out :: "byte list"
  warned :: "byte list list"

datatype gz_exit = Return | Gz_Usage | Gz_Message gz_error | Unknown_Suffix | No_Output | Run_Undefined

text \<open>One turn of the loop over the operands: the state after it and, if the command ends there, how.\<close>

definition gz_remove :: "(byte list \<Rightarrow> bool) \<Rightarrow> bool \<Rightarrow> byte list \<Rightarrow> gz_sys \<Rightarrow> gz_sys" where
  "gz_remove can_unlink kflag name sys =
     (if kflag then sys
      else if can_unlink name then sys\<lparr>files := (files sys)(name := None)\<rparr>
      else sys\<lparr>warned := warned sys @ [name]\<rparr>)"

definition gz_file :: "(byte list \<Rightarrow> bool) \<Rightarrow> (byte list \<Rightarrow> bool) \<Rightarrow> byte set \<Rightarrow> byte list \<Rightarrow> gz_sys \<Rightarrow> gz_sys \<times> gz_exit option" where
  "gz_file can_write can_unlink opts name sys =
     (case files sys name of None \<Rightarrow> (sys\<lparr>warned := warned sys @ [name]\<rparr>, None)
      | Some fp \<Rightarrow>
          let buf = read_all fp in
          if 0x64 \<in> opts then
            if 0x63 \<in> opts then
              case gunzip buf of Val (Inr out) \<Rightarrow> (sys\<lparr>std_out := std_out sys @ out\<rparr>, None)
              | Val (Inl e) \<Rightarrow> (sys, Some (Gz_Message e)) | _ \<Rightarrow> (sys, Some Run_Undefined)
            else
              case strip_gz_suffix name of None \<Rightarrow> (sys, Some Unknown_Suffix)
              | Some stripped \<Rightarrow>
                  case outname_copy stripped of None \<Rightarrow> (sys, Some Run_Undefined)
                  | Some outname \<Rightarrow>
                      if \<not> can_write outname then (sys, Some No_Output)
                      else
                        let opened = sys\<lparr>files := (files sys)(outname \<mapsto> [])\<rparr> in
                        case gunzip buf of
                          Val (Inr out) \<Rightarrow>
                            (gz_remove can_unlink (0x6b \<in> opts) name (opened\<lparr>files := (files opened)(outname \<mapsto> out)\<rparr>), None)
                        | Val (Inl e) \<Rightarrow> (opened, Some (Gz_Message e))
                        | _ \<Rightarrow> (opened, Some Run_Undefined)
          else
            if 0x63 \<in> opts then (sys\<lparr>std_out := std_out sys @ gzip_compress buf None\<rparr>, None)
            else
              case outname_gz name of None \<Rightarrow> (sys, Some Run_Undefined)
              | Some outname \<Rightarrow>
                  if \<not> can_write outname then (sys, Some No_Output)
                  else
                    (gz_remove can_unlink (0x6b \<in> opts) name
                       (sys\<lparr>files := (files sys)(outname \<mapsto> gzip_compress buf (if 0x6e \<in> opts then None else Some name))\<rparr>), None))"

fun gz_files :: "(byte list \<Rightarrow> bool) \<Rightarrow> (byte list \<Rightarrow> bool) \<Rightarrow> byte set \<Rightarrow> byte list list \<Rightarrow> gz_sys \<Rightarrow> gz_sys \<times> gz_exit" where
  "gz_files can_write can_unlink opts [] sys = (sys, Return)"
| "gz_files can_write can_unlink opts (name # argv) sys =
     (case gz_file can_write can_unlink opts name sys of
        (sys, Some e) \<Rightarrow> (sys, e)
      | (sys, None) \<Rightarrow> gz_files can_write can_unlink opts argv sys)"

definition gz_switch :: "byte \<Rightarrow> arg_kind" where
  "gz_switch c = (if c \<in> set (bytes ''cdfkn123456789'') then Flag else Default)"

definition gzip_main ::
  "(byte list \<Rightarrow> bool) \<Rightarrow> (byte list \<Rightarrow> bool) \<Rightarrow> byte list \<Rightarrow> byte list list \<Rightarrow> gz_sys \<Rightarrow> gz_sys \<times> gz_exit" where
  "gzip_main can_write can_unlink inp argv sys =
     (case arg_loop gz_switch argv of None \<Rightarrow> (sys, Gz_Usage)
      | Some (os, argv) \<Rightarrow>
          let opts = fst ` set os in
          if argv = [] then
            let buf = read_all inp in
            if 0x64 \<in> opts then
              case gunzip buf of Val (Inr out) \<Rightarrow> (sys\<lparr>std_out := std_out sys @ out\<rparr>, Return)
              | Val (Inl e) \<Rightarrow> (sys, Gz_Message e) | _ \<Rightarrow> (sys, Run_Undefined)
            else (sys\<lparr>std_out := std_out sys @ gzip_compress buf None\<rparr>, Return)
          else gz_files can_write can_unlink opts argv sys)"

section \<open>What \<open>gunzip\<close> accepts\<close>

lemma read_all_loop_result: "length buf \<le> cap \<Longrightarrow> 0 < cap \<Longrightarrow> read_all_loop cap buf fp = buf @ fp"
proof (induction cap buf fp rule: read_all_loop.induct)
  case (1 cap buf fp)
  let ?cap = "if length buf = cap then cap * 2 else cap"
  have "length buf < ?cap" using 1(2,3) by auto
  then show ?case
    using 1(1) [OF refl refl refl] by (subst read_all_loop.simps) (auto simp: Let_def min_def split: if_splits)
qed

lemma read_all_result [simp]: "read_all fp = fp"
  by (simp add: read_all_def read_all_loop_result)

text \<open>
  The format of a member (RFC 1952), on the list of its bytes: two bytes that identify it, the method, the flags,
  six bytes that are not looked at, and then the fields the flags announce: an extra field behind its
  length, a name and a comment that end with a zero byte, and a checksum of two bytes. What follows is
  the compressed data and a trailer of eight bytes.
\<close>

fun le_value :: "byte list \<Rightarrow> nat" where
  "le_value [] = 0"
| "le_value (b # bs) = unat b + 256 * le_value bs"

definition behind_string :: "byte list \<Rightarrow> byte list" where
  "behind_string r = drop 1 (dropWhile (\<lambda>b. b \<noteq> 0) r)"

definition behind_fields :: "byte \<Rightarrow> byte list \<Rightarrow> byte list" where
  "behind_fields flg r =
     (let r = (if bit flg 2 then drop (le_value (take 2 r)) (drop 2 r) else r);
          r = (if bit flg 3 then behind_string r else r);
          r = (if bit flg 4 then behind_string r else r)
      in if bit flg 1 then drop 2 r else r)"

definition member_body :: "byte list \<Rightarrow> gz_error + byte list" where
  "member_body inp =
     (if length inp < 18 then Inl Not_Gzip
      else case inp of
        id1 # id2 # cm # flg # xs \<Rightarrow>
          if [id1, id2] \<noteq> [0x1f, 0x8b] then Inl Not_Gzip
          else if cm \<noteq> 8 then Inl Bad_Method
          else let r = behind_fields flg (drop 6 xs) in if length r < 8 then Inl Truncated_Header else Inr r
      | _ \<Rightarrow> Inl Not_Gzip)"

lemma flag_bit: "(ucast flg :: u32) AND push_bit n 1 \<noteq> 0 \<longleftrightarrow> n < 32 \<and> bit (flg :: byte) n"
proof -
  have "(ucast flg :: u32) AND push_bit n 1 \<noteq> 0 \<longleftrightarrow> (\<exists>m. bit ((ucast flg :: u32) AND push_bit n 1) m)"
    by (metis bit_0_eq bit_eq_iff bot_apply bot_bool_def)
  also have "\<dots> \<longleftrightarrow> n < 32 \<and> bit flg n" by (auto simp: bit_simps dest: bit_imp_le_length)
  finally show ?thesis .
qed

lemma drop_skip_name: "drop (skip_name inp pos) inp = dropWhile (\<lambda>b. b \<noteq> 0) (drop pos inp)"
proof (induction inp pos rule: skip_name.induct)
  case (1 inp pos)
  show ?case
  proof (cases "pos < length inp")
    case True
    then have "drop pos inp = inp ! pos # drop (Suc pos) inp" by (simp add: Cons_nth_drop_Suc)
    then show ?thesis using 1 True by (subst skip_name.simps) auto
  qed (simp add: skip_name.simps)
qed

lemma drop_behind_string: "drop (skip_name inp pos + 1) inp = behind_string (drop pos inp)"
proof -
  have "drop (skip_name inp pos + 1) inp = drop 1 (drop (skip_name inp pos) inp)" by simp
  then show ?thesis unfolding behind_string_def drop_skip_name .
qed

lemma skip_extra_result:
  assumes "12 \<le> length inp"
  shows "\<exists>pos. skip_extra inp 10 = Val (Inr pos) \<and> drop pos inp = drop (le_value (take 2 (drop 10 inp))) (drop 12 inp)"
proof -
  have "drop 10 inp = inp ! 10 # drop 11 inp" "drop 11 inp = inp ! 11 # drop 12 inp"
    using assms Cons_nth_drop_Suc [of 10 inp] Cons_nth_drop_Suc [of 11 inp] by simp_all
  then have "le_value (take 2 (drop 10 inp)) = unat (inp ! 10) + 256 * unat (inp ! 11)" by (simp add: numeral_2_eq_2)
  moreover have "unat (ucast (inp ! 10) OR push_bit 8 (ucast (inp ! 11)) :: u32) = unat (inp ! 10) + 256 * unat (inp ! 11)"
    using stored_length(1) [of "inp ! 10" "inp ! 11"] by (simp add: stored_len_def)
  ultimately show ?thesis
    using assms by (simp add: skip_extra_def byte_at_def add.commute)
qed

lemma gz_flags:
  "(ucast flg :: u32) AND GZ_FHCRC \<noteq> 0 \<longleftrightarrow> bit (flg :: byte) 1" "(ucast flg :: u32) AND GZ_FEXTRA \<noteq> 0 \<longleftrightarrow> bit flg 2"
  "(ucast flg :: u32) AND GZ_FNAME \<noteq> 0 \<longleftrightarrow> bit flg 3" "(ucast flg :: u32) AND GZ_FCOMMENT \<noteq> 0 \<longleftrightarrow> bit flg 4"
  unfolding GZ_FHCRC_def GZ_FEXTRA_def GZ_FNAME_def GZ_FCOMMENT_def flag_bit by simp_all

lemma gunzip_header_member:
  "\<exists>h. gunzip_header inp = Val h \<and>
     (case member_body inp of Inl e \<Rightarrow> h = Inl e
      | Inr r \<Rightarrow> \<exists>hdr. h = Inr hdr \<and> r = drop hdr inp \<and> hdr + 8 \<le> length inp)"
proof (cases "length inp < 18")
  case True
  then show ?thesis by (simp add: gunzip_header_def member_body_def)
next
  case False
  then have "4 \<le> length inp" by simp
  then obtain id1 id2 cm flg xs where inp: "inp = id1 # id2 # cm # flg # xs"
    by (auto simp: numeral_eq_Suc Suc_le_length_iff)
  have reads: "byte_at inp 0 = Val id1" "byte_at inp 1 = Val id2" "byte_at inp 2 = Val cm" "byte_at inp 3 = Val flg"
    by (simp_all add: inp byte_at_def numeral_3_eq_3)
  have d0: "drop 6 xs = drop 10 inp" by (simp add: inp numeral_eq_Suc)
  have "\<exists>p. (if bit flg 2 then skip_extra inp 10 else Val (Inr 10)) = Val (Inr p) \<and>
      drop p inp = (if bit flg 2 then drop (le_value (take 2 (drop 10 inp))) (drop 2 (drop 10 inp)) else drop 10 inp)"
    using skip_extra_result [of inp] False by auto
  then obtain p1 where p1: "(if bit flg 2 then skip_extra inp 10 else Val (Inr 10)) = Val (Inr p1)"
      "drop p1 inp = (if bit flg 2 then drop (le_value (take 2 (drop 10 inp))) (drop 2 (drop 10 inp)) else drop 10 inp)" by blast
  define p2 where "p2 = (if bit flg 3 then skip_name inp p1 + 1 else p1)"
  define p3 where "p3 = (if bit flg 4 then skip_name inp p2 + 1 else p2)"
  define p4 where "p4 = (if bit flg 1 then p3 + 2 else p3)"
  have "drop p2 inp = (if bit flg 3 then behind_string (drop p1 inp) else drop p1 inp)"
    using drop_behind_string by (simp add: p2_def)
  moreover have "drop p3 inp = (if bit flg 4 then behind_string (drop p2 inp) else drop p2 inp)"
    using drop_behind_string by (simp add: p3_def)
  moreover have "drop p4 inp = (if bit flg 1 then drop 2 (drop p3 inp) else drop p3 inp)" by (simp add: p4_def add.commute)
  ultimately have fields: "behind_fields flg (drop 6 xs) = drop p4 inp"
    unfolding behind_fields_def d0 Let_def p1(2) by (simp only:)
  have "gunzip_header inp =
      (if id1 \<noteq> 0x1f then Val (Inl Not_Gzip) else if id2 \<noteq> 0x8b then Val (Inl Not_Gzip) else if cm \<noteq> 8 then Val (Inl Bad_Method)
       else if p4 + 8 > length inp then Val (Inl Truncated_Header) else Val (Inr p4))"
    unfolding gunzip_header_def reads inf_bind.simps Let_def gz_flags p1(1) p2_def [symmetric] p3_def [symmetric] p4_def [symmetric] sum.case
    using False by simp
  moreover have "member_body inp =
      (if id1 \<noteq> 0x1f \<or> id2 \<noteq> 0x8b then Inl Not_Gzip else if cm \<noteq> 8 then Inl Bad_Method
       else if p4 + 8 > length inp then Inl Truncated_Header else Inr (drop p4 inp))"
  proof -
    have "length (drop p4 inp) < 8 \<longleftrightarrow> p4 + 8 > length inp" using False by auto
    then show ?thesis
      using False fields inp by (simp add: member_body_def Let_def)
  qed
  ultimately show ?thesis by auto
qed

lemma gunzip_header_member_cases:
  "member_body inp = Inl e \<Longrightarrow> gunzip_header inp = Val (Inl e)"
  "member_body inp = Inr r \<Longrightarrow> \<exists>hdr. gunzip_header inp = Val (Inr hdr) \<and> r = drop hdr inp \<and> hdr + 8 \<le> length inp"
  using gunzip_header_member [of inp] by auto

text \<open>The numbers of the trailer.\<close>

lemma get_le32_value:
  assumes "4 \<le> length p"
  shows "unat (get_le32 p) = le_value (take 4 p)"
proof -
  obtain a b c d r where p: "p = a # b # c # d # r" using assms by (auto simp: numeral_eq_Suc Suc_le_length_iff)
  have pair: "uint x OR push_bit 8 y = uint x + 256 * y" if "0 \<le> y" for x :: byte and y :: int
    using push_or_eq_add [of "uint x" 8 y] unsigned_less [of x, where 'a = int] that by (simp add: or.commute)
  have "uint (get_le32 p) = uint a OR push_bit 8 (uint b OR push_bit 8 (uint c OR push_bit 8 (uint d)))"
    unfolding p get_le32_def by (rule bit_eqI) (auto simp: bit_simps dest: bit_imp_le_length)
  also have "\<dots> = uint a + 256 * (uint b + 256 * (uint c + 256 * uint d))"
    by (simp add: pair)
  finally have "int (unat (get_le32 p)) = int (unat a + 256 * (unat b + 256 * (unat c + 256 * unat d)))" by simp
  then have "unat (get_le32 p) = unat a + 256 * (unat b + 256 * (unat c + 256 * unat d))" by (simp only: of_nat_eq_iff)
  moreover have "take 4 p = [a, b, c, d]" by (simp add: p numeral_eq_Suc)
  ultimately show ?thesis by simp
qed

lemma inflate_spec_used: "inflate_spec r src = (err, out, used) \<Longrightarrow> used \<le> length src"
  by (auto simp: inflate_spec_def split: option.splits)

lemma read_cells_map: "take n a = map Some out \<Longrightarrow> n = length out \<Longrightarrow> n \<le> length a \<Longrightarrow> read_cells a n = Val out"
  by (simp add: read_cells_def comp_def)

text \<open>The result of \<open>gunzip\<close> after a good header, by what the stream in it stands for.\<close>

lemma gunzip_body:
  assumes hdr: "gunzip_header inp = Val (Inr hdr)" "hdr + 8 \<le> length inp"
    and spec: "inflate_spec None (take (length inp - hdr - 8) (drop hdr inp)) = (err, out, used)"
  shows "gunzip inp = Val
     (if err \<noteq> 0 then Inl Corrupt_Data
      else if crc32_update 0 out \<noteq> get_le32 (drop (hdr + used) inp) then Inl Crc_Mismatch
      else if of_nat (length out) \<noteq> get_le32 (drop (hdr + used + 4) inp) then Inl Size_Mismatch
      else Inr out)"
proof -
  let ?n = "length inp - hdr - 8" and ?src = "drop hdr inp"
  have n: "?n \<le> length ?src" by simp
  have "inflate_spec (map_option length (None :: byte arr option)) (take ?n ?src) = (err, out, used)" using spec by simp
  from inflate_raw_spec [OF n _ this, of 0] obtain res where
    r: "inflate_raw None 0 ?src ?n = Val res" "r_err res = err" "err = 0 \<Longrightarrow> r_destlen res = length out" by auto
  show ?thesis
  proof (cases "err = 0")
    case False
    then show ?thesis using hdr r by (simp add: gunzip_def)
  next
    case True
    let ?m = "if r_destlen res \<noteq> 0 then r_destlen res else 1" let ?d = "Some (replicate ?m None) :: byte arr option"
    have "inflate_spec (map_option length ?d) (take ?n ?src) = (0, out, used)"
      using inflate_spec_room [of "take ?n ?src" out used ?m] spec True r(3) by simp
    from inflate_raw_spec [OF n _ this, of ?m] obtain res' a where
      r': "inflate_raw ?d ?m ?src ?n = Val res'" "r_err res' = 0" "r_destlen res' = length out" "r_sourcelen res' = used"
        "r_dest res' = Some a" "length a = ?m" "take (length out) a = map Some out" by auto
    have used: "\<not> hdr + used + 8 > length inp"
      using inflate_spec_used [OF spec] hdr(2) by simp
    have "read_cells a (length out) = Val out" using r'(6,7) r(3) True by (intro read_cells_map) auto
    then show ?thesis
      using hdr r r' True used unfolding gunzip_def by (simp add: Let_def)
  qed
qed

section \<open>What \<open>gzip_compress\<close> writes\<close>

lemma block_header_bytes:
  fixes n :: nat
  assumes "n < 65536"
  defines "c \<equiv> of_nat n :: u64"
  shows "unat (ucast (c AND 0xff) :: byte) + 256 * unat (ucast (drop_bit 8 c AND 0xff) :: byte) = n"
    and "ucast (NOT c AND 0xff) = NOT (ucast (c AND 0xff) :: byte)"
    and "ucast (drop_bit 8 (NOT c) AND 0xff) = NOT (ucast (drop_bit 8 c AND 0xff) :: byte)"
proof -
  have m: "(0xff :: u64) = mask 8" by (simp add: mask_eq_exp_minus_1)
  have n: "unat c = n" using assms(1) by (simp add: c_def unat_of_nat take_bit_nat_eq_self_iff)
  have "unat (ucast (c AND 0xff) :: byte) = n mod 256" "unat (ucast (drop_bit 8 c AND 0xff) :: byte) = n div 256 mod 256"
    using n by (simp_all add: m take_bit_eq_mask [symmetric] unsigned_ucast_eq unsigned_take_bit_eq unat_drop_bit_eq take_bit_eq_mod drop_bit_eq_div unat_mod unat_div)
  moreover have "n div 256 mod 256 = n div 256" using assms(1) by (simp add: less_mult_imp_div_less)
  ultimately show "unat (ucast (c AND 0xff) :: byte) + 256 * unat (ucast (drop_bit 8 c AND 0xff) :: byte) = n" by simp
  show "ucast (NOT c AND 0xff) = NOT (ucast (c AND 0xff) :: byte)"
    unfolding m by (rule bit_word_eqI) (auto simp: bit_simps)
  show "ucast (drop_bit 8 (NOT c) AND 0xff) = NOT (ucast (drop_bit 8 c AND 0xff) :: byte)"
    unfolding m by (rule bit_word_eqI) (auto simp: bit_simps)
qed

lemma stored_block_spec:
  assumes "length p \<le> 65535" "x = 0 \<or> x = 1"
  defines "c \<equiv> of_nat (length p) :: u64"
  shows "blocks_spec None (concat (map byte_bits ([x, ucast (c AND 0xff), ucast (drop_bit 8 c AND 0xff),
            ucast (NOT c AND 0xff), ucast (drop_bit 8 (NOT c) AND 0xff)] @ p @ q))) out =
     (if x = 0 then blocks_spec None (concat (map byte_bits q)) (out @ p) else Some (0, concat (map byte_bits q), out @ p))"
proof -
  let ?b0 = "ucast (c AND 0xff) :: byte" and ?b1 = "ucast (drop_bit 8 c AND 0xff) :: byte"
  let ?rest = "concat (map byte_bits (?b0 # ?b1 # NOT ?b0 # NOT ?b1 # p @ q))"
  have n: "length p < 65536" using assms(1) by simp
  note h = block_header_bytes [OF n, folded c_def]
  have bx: "byte_bits x = [x = 1, False, False] @ replicate 5 False"
    using assms(2) by (auto simp: byte_bits_def upt_rec [of 0] bit_1_iff numeral_eq_Suc)
  have all: "concat (map byte_bits ([x, ucast (c AND 0xff), ucast (drop_bit 8 c AND 0xff),
            ucast (NOT c AND 0xff), ucast (drop_bit 8 (NOT c) AND 0xff)] @ p @ q)) = [x = 1, False, False] @ replicate 5 False @ ?rest"
    unfolding h(2,3) by (simp add: bx)
  have r1: "read_bits 1 ([x = 1, False, False] @ replicate 5 False @ ?rest) = Some (of_bool (x = 1), [False, False] @ replicate 5 False @ ?rest)"
    by (simp add: read_bits_def bits_value_def)
  have r2: "read_bits 2 ([False, False] @ replicate 5 False @ ?rest) = Some (0, replicate 5 False @ ?rest)"
    by (simp add: read_bits_def bits_value_def numeral_2_eq_2)
  have "length (replicate 5 False) < 8" by simp
  from stored_spec_bytes [OF this, of None ?b0 ?b1 "NOT ?b0" "NOT ?b1" "p @ q" out]
  have st: "stored_spec None (replicate 5 False @ ?rest) out = (0, concat (map byte_bits q), out @ p)"
    unfolding h(1) by (simp add: fits_room_def)
  show ?thesis
    unfolding all blocks_spec.simps [of None "[x = 1, False, False] @ replicate 5 False @ ?rest"] r1 option.case prod.case r2
      if_P [OF refl] st
    using assms(2) by auto
qed

lemma write_blocks_spec: "inp \<noteq> [] \<Longrightarrow> blocks_spec None (concat (map byte_bits (write_blocks inp))) out = Some (0, [], out @ inp)"
proof (induction inp arbitrary: out rule: measure_induct_rule [of length])
  case (less inp)
  show ?case
  proof (cases "length inp > 65535")
    case False
    have "write_blocks [] = []" by (simp add: write_blocks.simps)
    with stored_block_spec [of inp 1 "[]" out] False less.prems show ?thesis
      by (subst write_blocks.simps) (simp add: Let_def)
  next
    case True
    let ?p = "take 65535 inp" and ?q = "drop 65535 inp"
    have p: "length ?p = 65535" using True by simp
    have "blocks_spec None (concat (map byte_bits (write_blocks ?q))) (out @ ?p) = Some (0, [], (out @ ?p) @ ?q)"
      using True by (intro less.IH) auto
    with stored_block_spec [of ?p 0 "write_blocks ?q" out] True p less.prems show ?thesis
      by (subst write_blocks.simps) (simp add: Let_def)
  qed
qed

text \<open>The parts of a compressed file.\<close>

definition gz_header :: "byte list option \<Rightarrow> byte list" where
  "gz_header name = [0x1f, 0x8b, 8, if name \<noteq> None then 8 else 0, 0, 0, 0, 0, 0, 255] @
     (case name of None \<Rightarrow> [] | Some s \<Rightarrow> s @ [0])"

lemma gzip_compress_parts:
  "gzip_compress m name = gz_header name @ gzip_write_stored m @ put_le32 (crc32_update 0 m) @ put_le32 (of_nat (length m))"
  by (simp add: gzip_compress_def gz_header_def put_le32_def)

lemma length_gzip_write_stored: "5 \<le> length (gzip_write_stored m)"
  by (simp add: gzip_write_stored_def write_blocks.simps [of m] Let_def)

lemma member_body_compress:
  assumes "\<forall>s. name = Some s \<longrightarrow> nonul s"
  shows "member_body (gzip_compress m name) = Inr (gzip_write_stored m @ put_le32 (crc32_update 0 m) @ put_le32 (of_nat (length m)))"
proof -
  let ?t = "gzip_write_stored m @ put_le32 (crc32_update 0 m) @ put_le32 (of_nat (length m))"
  have t: "13 \<le> length ?t" using length_gzip_write_stored [of m] by simp
  have "behind_fields 0 ?t = ?t" by (simp add: behind_fields_def)
  moreover have "behind_fields 8 (s @ 0 # ?t) = ?t" if "nonul s" for s
  proof -
    have "bit (8 :: byte) n \<longleftrightarrow> n = 3" for n
    proof -
      have "(8 :: byte) = 2 ^ 3" by simp
      then show ?thesis by (simp only: bit_exp_iff possible_bit_word) auto
    qed
    moreover have "dropWhile (\<lambda>b. b \<noteq> 0) (s @ 0 # ?t) = 0 # ?t" using that by (induction s) simp_all
    then have "behind_string (s @ 0 # ?t) = ?t" by (simp add: behind_string_def)
    ultimately show ?thesis by (simp add: behind_fields_def)
  qed
  ultimately show ?thesis
    using assms t unfolding gzip_compress_parts by (cases name) (simp_all add: gz_header_def member_body_def Let_def)
qed

lemma gunzip_header_compress:
  assumes "\<forall>s. name = Some s \<longrightarrow> nonul s"
  shows "gunzip_header (gzip_compress m name) = Val (Inr (length (gz_header name)))" "length (gz_header name) + 8 \<le> length (gzip_compress m name)"
proof -
  let ?t = "gzip_write_stored m @ put_le32 (crc32_update 0 m) @ put_le32 (of_nat (length m))"
  obtain hdr where h: "gunzip_header (gzip_compress m name) = Val (Inr hdr)" "?t = drop hdr (gzip_compress m name)" "hdr + 8 \<le> length (gzip_compress m name)"
    using gunzip_header_member_cases(2) [OF member_body_compress [OF assms]] by blast
  have "length ?t = length (gzip_compress m name) - hdr" unfolding h(2) by simp
  then have "hdr = length (gz_header name)" using h(3) unfolding gzip_compress_parts by simp
  then show "gunzip_header (gzip_compress m name) = Val (Inr (length (gz_header name)))" "length (gz_header name) + 8 \<le> length (gzip_compress m name)"
    using h by simp_all
qed

lemma stored_inflate_spec: "m \<noteq> [] \<Longrightarrow> inflate_spec None (gzip_write_stored m) = (0, m, length (gzip_write_stored m))"
  using write_blocks_spec [of m "[]"] by (simp add: inflate_spec_def gzip_write_stored_def)

lemma stored_inflate_empty: "\<exists>out used. inflate_spec None (gzip_write_stored []) = (-2, out, used)"
proof -
  have "fst (inflate_spec None (gzip_write_stored [])) = -2" by code_simp
  then show ?thesis by (metis fst_conv prod.exhaust)
qed

lemma gzip_compress_split:
  fixes m :: "byte list" and name :: "byte list option"
  assumes "\<forall>s. name = Some s \<longrightarrow> nonul s"
  defines "z \<equiv> gzip_compress m name" and "h \<equiv> length (gz_header name)" and "st \<equiv> gzip_write_stored m"
  shows "take (length z - h - 8) (drop h z) = st" "drop (h + length st) z = put_le32 (crc32_update 0 m) @ put_le32 (of_nat (length m))"
    "drop (h + length st + 4) z = put_le32 (of_nat (length m))"
proof -
  have z: "z = gz_header name @ st @ put_le32 (crc32_update 0 m) @ put_le32 (of_nat (length m))"
    unfolding z_def st_def by (rule gzip_compress_parts)
  have d: "drop h z = st @ put_le32 (crc32_update 0 m) @ put_le32 (of_nat (length m))" by (simp add: z h_def)
  have "length z - h - 8 = length st" by (simp add: z h_def)
  then show "take (length z - h - 8) (drop h z) = st" by (simp add: d)
  show e: "drop (h + length st) z = put_le32 (crc32_update 0 m) @ put_le32 (of_nat (length m))"
  proof -
    have "drop (h + length st) z = drop (length st) (drop h z)" by (simp add: add.commute)
    then show ?thesis unfolding d by simp
  qed
  have "drop (h + length st + 4) z = drop 4 (drop (h + length st) z)" by (simp add: add.commute)
  then show "drop (h + length st + 4) z = put_le32 (of_nat (length m))" unfolding e by simp
qed

lemma gunzip_gzip:
  assumes "\<forall>s. name = Some s \<longrightarrow> nonul s"
  shows "gunzip (gzip_compress m name) = Val (if m = [] then Inl Corrupt_Data else Inr m)"
proof -
  note h = gunzip_header_compress [OF assms, of m] and sp = gzip_compress_split [OF assms, of m]
  show ?thesis
  proof (cases "m = []")
    case True
    obtain out used where "inflate_spec None (gzip_write_stored m) = (-2, out, used)" using stored_inflate_empty True by blast
    from gunzip_body [OF h, unfolded sp(1), OF this] show ?thesis using True by simp
  next
    case False
    have "get_le32 (put_le32 v) = v" for v using get_put_le32 [of v "[]"] by simp
    then show ?thesis
      using gunzip_body [OF h, unfolded sp(1), OF stored_inflate_spec [OF False]] False
      unfolding sp(2,3) by (simp add: get_put_le32)
  qed
qed

section \<open>Replacing files\<close>

lemma nonul_gz_suffix [simp]: "nonul gz_suffix" "length gz_suffix = 3"
  by (simp_all add: gz_suffix_def bytes_def)

lemma outname_copy_result: "nonul name \<Longrightarrow> outname_copy name = Some (take 4095 name)"
  using strlcpy_result [of name 4096 "replicate 4096 0" "[]"] cstr_buf_write [of "[]" "take 4095 name" "replicate 4096 0"]
  by (auto simp: outname_copy_def nonul_def dest: in_set_takeD)

lemma outname_gz_result:
  assumes "nonul name"
  shows "outname_gz name = Some (take 4095 (name @ gz_suffix))"
proof -
  let ?d = "take 4095 name" and ?e = "drop (Suc (length (take 4095 name))) (replicate 4096 (0 :: byte))"
  have d: "nonul ?d" "length ?d \<le> 4095" using assms by (auto simp: nonul_def dest: in_set_takeD)
  have "strlcpy (replicate 4096 0) (cmem name) 4096 = Some (?d @ 0 # ?e, length name)"
    using strlcpy_result [of name 4096 "replicate 4096 0" "[]"] assms by (simp add: buf_write_def)
  moreover have "strlcat (?d @ 0 # ?e) (cmem gz_suffix) 4096 =
      Some (buf_write (?d @ 0 # ?e) (length ?d) (take (4096 - length ?d - 1) gz_suffix @ [0]), min 4096 (length ?d) + 3)"
    using strlcat_result [of ?d gz_suffix 4096 ?e "[]"] d by simp
  moreover have "nonul (take (4096 - length ?d - 1) gz_suffix)"
    using nonul_gz_suffix(1) unfolding nonul_def by (blast dest: in_set_takeD)
  then have "cstr (buf_write (?d @ 0 # ?e) (length ?d) (take (4096 - length ?d - 1) gz_suffix @ [0])) =
      ?d @ take (4096 - length ?d - 1) gz_suffix"
    by (rule cstr_buf_write [OF d(1)])
  moreover have "take (4096 - length ?d - 1) gz_suffix = take (4095 - length name) gz_suffix"
    by (cases "length name \<le> 4095") simp_all
  ultimately show ?thesis by (simp add: outname_gz_def)
qed

lemma strip_gz_suffix_append: "name \<noteq> [] \<Longrightarrow> strip_gz_suffix (name @ gz_suffix) = Some name"
  by (simp add: strip_gz_suffix_def Let_def)

lemma gzip_main_one:
  assumes "hd name \<noteq> 0x2d" "files sys name = Some m" "nonul name" "can_write (take 4095 (name @ gz_suffix))" "can_unlink name"
  shows "gzip_main can_write can_unlink inp [name] sys =
    (sys\<lparr>files := (files sys)(take 4095 (name @ gz_suffix) \<mapsto> gzip_compress m (Some name), name := None)\<rparr>, Return)"
  using assms by (simp add: gzip_main_def arg_loop_operand gz_file_def outname_gz_result gz_remove_def del: arg_loop.simps)

lemma gunzip_main_one:
  assumes "name \<noteq> []" "hd name \<noteq> 0x2d" "nonul name" "length name \<le> 4095" "files sys (name @ gz_suffix) = Some z"
    "gunzip z = Val (Inr m)" "can_write name" "can_unlink (name @ gz_suffix)"
  shows "gzip_main can_write can_unlink inp [bytes ''-d'', name @ gz_suffix] sys =
    (sys\<lparr>files := (files sys)(name \<mapsto> m, name @ gz_suffix := None)\<rparr>, Return)"
proof -
  have "arg_loop gz_switch [name @ gz_suffix] = Some ([], [name @ gz_suffix])"
    using assms(1,2) by (intro arg_loop_operand) simp
  then have "arg_loop gz_switch [bytes ''-d'', name @ gz_suffix] = Some ([(0x64, None)], [name @ gz_suffix])"
    unfolding arg_loop.simps(2) [of gz_switch "bytes ''-d''"] by (simp add: bytes_def gz_switch_def del: arg_loop.simps)
  then show ?thesis
    using assms by (simp add: gzip_main_def gz_file_def strip_gz_suffix_append outname_copy_result gz_remove_def del: arg_loop.simps)
qed

section \<open>Properties\<close>

text \<open>
  Property C10 (what \<open>gunzip\<close> decides). On every input, however short or damaged, \<open>gunzip\<close> ends without
  reading or writing outside its arrays, and its result is that of the format: the input is not a member, its
  method is not known or its header is too long for it; or the reference decoder does not accept the stream
  before the trailer; or the first number of the trailer is not the checksum of the decoded bytes, or the second
  not their number modulo \<open>2\<^sup>3\<^sup>2\<close>; and else it is the decoded bytes.
\<close>

theorem gunzip_decides:
  "gunzip inp = Val
     (case member_body inp of Inl e \<Rightarrow> Inl e
      | Inr r \<Rightarrow>
          case inflate_spec None (take (length r - 8) r) of (err, out, used) \<Rightarrow>
            if err \<noteq> 0 then Inl Corrupt_Data
            else if unat (crc_spec 0 out) \<noteq> le_value (take 4 (drop used r)) then Inl Crc_Mismatch
            else if length out mod 2 ^ 32 \<noteq> le_value (take 4 (drop 4 (drop used r))) then Inl Size_Mismatch
            else Inr out)"
proof (cases "member_body inp")
  case (Inl e)
  then show ?thesis by (simp add: gunzip_def gunzip_header_member_cases(1))
next
  case (Inr r)
  then obtain hdr where hdr: "gunzip_header inp = Val (Inr hdr)" "r = drop hdr inp" "hdr + 8 \<le> length inp"
    using gunzip_header_member_cases(2) by blast
  obtain err out used where spec: "inflate_spec None (take (length r - 8) r) = (err, out, used)" using prod_cases3 by blast
  then have body: "inflate_spec None (take (length inp - hdr - 8) (drop hdr inp)) = (err, out, used)" by (simp add: hdr(2))
  have len: "used + 8 \<le> length r" using inflate_spec_used [OF spec] hdr(2,3) by simp
  have crc: "drop (hdr + used) inp = drop used r" and isize: "drop (hdr + used + 4) inp = drop 4 (drop used r)"
    unfolding hdr(2) drop_drop by (simp_all only: ac_simps)
  have "crc32_update 0 out = get_le32 (drop (hdr + used) inp) \<longleftrightarrow> unat (crc_spec 0 out) = unat (get_le32 (drop used r))"
    unfolding crc crc32_update_bits by (rule word_unat_eq_iff)
  also have "unat (get_le32 (drop used r)) = le_value (take 4 (drop used r))" using len by (intro get_le32_value) simp
  finally have "crc32_update 0 out = get_le32 (drop (hdr + used) inp) \<longleftrightarrow> unat (crc_spec 0 out) = le_value (take 4 (drop used r))" .
  moreover have "of_nat (length out) = get_le32 (drop (hdr + used + 4) inp) \<longleftrightarrow> length out mod 2 ^ 32 = le_value (take 4 (drop 4 (drop used r)))"
  proof -
    have "unat (of_nat (length out) :: u32) = length out mod 2 ^ 32" by (simp add: unat_of_nat take_bit_eq_mod)
    moreover have "unat (get_le32 (drop 4 (drop used r))) = le_value (take 4 (drop 4 (drop used r)))" using len by (intro get_le32_value) simp
    ultimately show ?thesis unfolding isize word_unat_eq_iff by (simp only:)
  qed
  ultimately show ?thesis
    using gunzip_body [OF hdr(1,3) body] Inr spec by simp
qed

text \<open>
  Property C5 (gzip round trip). For a file that is not empty \<open>gzip name\<close> replaces the file by
  \<open>name.gz\<close>, and \<open>gzip -d name.gz\<close> then gives back the file system of before: the bytes of the file, and
  nothing else changed. The name is short enough for the buffer with its suffix, the system lets both files
  be written and removed, and \<open>name.gz\<close> did not exist.
\<close>

theorem gzip_main_roundtrip:
  assumes "name \<noteq> []" "hd name \<noteq> 0x2d" "nonul name" "length name \<le> 4092"
    and "files sys name = Some m" "m \<noteq> []" "files sys (name @ gz_suffix) = None"
    and "can_write name" "can_unlink name" "can_write (name @ gz_suffix)" "can_unlink (name @ gz_suffix)"
  shows "\<exists>sys'. gzip_main can_write can_unlink inp [name] sys = (sys', Return) \<and>
     files sys' name = None \<and> files sys' (name @ gz_suffix) = Some (gzip_compress m (Some name)) \<and>
     gzip_main can_write can_unlink inp' [bytes ''-d'', name @ gz_suffix] sys' = (sys, Return)"
proof -
  let ?o = "name @ gz_suffix" and ?z = "gzip_compress m (Some name)"
  let ?s = "sys\<lparr>files := (files sys)(?o \<mapsto> ?z, name := None)\<rparr>"
  have ne: "?o \<noteq> name" by (simp add: gz_suffix_def bytes_def)
  have t: "take 4095 ?o = ?o" using assms(4) by simp
  have 1: "gzip_main can_write can_unlink inp [name] sys = (?s, Return)"
    using gzip_main_one [of name sys m can_write can_unlink inp] assms unfolding t by simp
  have "gunzip ?z = Val (Inr m)" using gunzip_gzip [of "Some name" m] assms by simp
  then have "gzip_main can_write can_unlink inp' [bytes ''-d'', ?o] ?s =
      (?s\<lparr>files := (files ?s)(name \<mapsto> m, ?o := None)\<rparr>, Return)"
    using assms ne by (intro gunzip_main_one) auto
  moreover have "(files ?s)(name \<mapsto> m, ?o := None) = files sys" using assms ne by auto
  ultimately show ?thesis using 1 ne by (intro exI [of _ ?s]) simp
qed

theorem gzip_main_roundtrip_witness:
  "let name = bytes ''notes''; sys = \<lparr>files = [name \<mapsto> [1, 2, 3]], std_out = [], warned = []\<rparr> in
   \<exists>sys'. gzip_main (\<lambda>_. True) (\<lambda>_. True) [] [name] sys = (sys', Return) \<and>
     files sys' name = None \<and> files sys' (name @ gz_suffix) = Some (gzip_compress [1, 2, 3] (Some name)) \<and>
     gzip_main (\<lambda>_. True) (\<lambda>_. True) [] [bytes ''-d'', name @ gz_suffix] sys' = (sys, Return)"
  unfolding Let_def by (rule gzip_main_roundtrip) (simp_all add: bytes_def gz_suffix_def)

text \<open>
  Property C40 (gzip of the empty file). The block \<open>gzip_write_stored\<close> writes for an empty input
  does not hold the complement of its length, so \<open>gzip -d\<close> refuses what \<open>gzip\<close> wrote: standard input that
  is empty, compressed and decompressed again, ends with the message about corrupt data. Every other input
  comes back.
\<close>

theorem gzip_stdin_roundtrip:
  "\<exists>z. gzip_main can_write can_unlink m [] sys = (sys\<lparr>std_out := std_out sys @ z\<rparr>, Return) \<and>
     gzip_main can_write can_unlink z [bytes ''-d''] sys =
       (if m = [] then (sys, Gz_Message Corrupt_Data) else (sys\<lparr>std_out := std_out sys @ m\<rparr>, Return))"
proof -
  have "gunzip (gzip_compress m None) = Val (if m = [] then Inl Corrupt_Data else Inr m)" by (rule gunzip_gzip) simp
  moreover have "arg_loop gz_switch [bytes ''-d''] = Some ([(0x64, None)], [])" by (simp add: bytes_def gz_switch_def)
  ultimately show ?thesis
    by (intro exI [of _ "gzip_compress m None"]) (simp add: gzip_main_def)
qed

text \<open>
  For a name of 4095 bytes nothing of the suffix fits_room into
  \<open>outname\<close>, and \<open>main\<close> does not look at what \<open>strlcat\<close> returns: the compressed data is written over the
  file itself, which is then removed. The command reports no error and the contents are gone.
\<close>

lemma gzip_long_name_loses:
  assumes "hd name \<noteq> 0x2d" "nonul name" "length name = 4095" "files sys name = Some m" "can_write name" "can_unlink name"
  shows "gzip_main can_write can_unlink inp [name] sys = (sys\<lparr>files := (files sys)(name := None)\<rparr>, Return)"
  using gzip_main_one [of name sys m can_write can_unlink inp] assms by simp

end
