(* ===== verification/Diff_Lines.thy ===== *)
theory Diff_Lines
  imports Libutil_Num "HOL-Library.Sublist"
begin

text \<open>
  Files as lines: \<open>read_all\<close>, \<open>split_lines\<close>, \<open>diff_load\<close> and \<open>lines_equal\<close> of
  \<open>shared/libutil/diffutil.c\<close>, with the types of \<open>shared/diffutil.h\<close>.

  A line is the list of its bytes, which stands for the pointer and the length. The array of lines of a
  file has one more entry than the file has lines, whose length is 0; an access behind that is \<open>None\<close>. A
  file that can be opened is given by its contents and whether reading it ends with an error. Memory
  that is freed is not modelled.
\<close>

section \<open>Definitions\<close>

record difffile =
  d_lines :: "byte list list"
  nlines :: nat

datatype diffformat = DIFF_NORMAL | DIFF_UNIFIED | DIFF_CONTEXT | DIFF_ED | DIFF_RCSED | DIFF_BRIEF

record diffopts =
  o_format :: diffformat
  o_context :: nat
  ignore_case :: bool
  ignore_blanks :: bool
  strip_cr :: bool
  treat_binary :: bool

definition line_at :: "difffile \<Rightarrow> nat \<Rightarrow> byte list option" where
  "line_at f i = (if i < length (d_lines f) then Some (d_lines f ! i) else None)"

text \<open>The loop of \<open>read_all\<close>: pieces of at most 8192 bytes are copied into an array that grows.\<close>

function read_pieces :: "byte list \<Rightarrow> byte list \<Rightarrow> nat \<Rightarrow> byte list \<times> nat" where
  "read_pieces fp dat cap =
     (let buf = take 8192 fp; n = length buf in
      if n > 0 then
        let cap = (if length dat + n > cap then (length dat + n) * 2 + 64 else cap)
        in read_pieces (drop 8192 fp) (dat @ buf) cap
      else (dat, cap))"
  by pat_completeness auto
termination
  by (relation "measure (\<lambda>(fp, dat, cap). length fp)") auto

declare read_pieces.simps [simp del]

definition diff_read_all :: "byte list \<times> bool \<Rightarrow> byte list option" where
  "diff_read_all fp = (if snd fp then None else Some (fst (read_pieces (fst fp) [] 0)))"

text \<open>
  The second loop of \<open>split_lines\<close>: the array has as many entries as the first loop counted, and \<open>cur\<close>
  holds the bytes from \<open>start\<close> on.
\<close>

fun split_fill :: "byte list \<Rightarrow> byte list \<Rightarrow> byte list list \<Rightarrow> nat \<Rightarrow> (byte list list \<times> nat \<times> byte list) option" where
  "split_fill [] cur lines i = Some (lines, i, cur)"
| "split_fill (c # dat) cur lines i =
     (if c = 0x0a then if i < length lines then split_fill dat [] (lines[i := cur]) (i + 1) else None
      else split_fill dat (cur @ [c]) lines i)"

definition diff_split_lines :: "byte list \<Rightarrow> (byte list list \<times> nat) option" where
  "diff_split_lines dat =
     (let n = length (filter (\<lambda>c. c = 0x0a) dat);
          n = (if length dat > 0 \<and> last dat \<noteq> 0x0a then n + 1 else n)
      in if n = 0 then Some ([], 0)
         else case split_fill dat [] (replicate n []) 0 of None \<Rightarrow> None
           | Some (lines, i, cur) \<Rightarrow>
               if cur \<noteq> [] then if i < length lines then Some (lines[i := cur], i + 1) else None
               else Some (lines, i))"

datatype diff_error = Open_Error "byte list" | Read_Error "byte list" | Memory_Error

definition diff_load ::
  "(byte list \<Rightarrow> (byte list \<times> bool) option) \<Rightarrow> byte list \<times> bool \<Rightarrow> byte list \<Rightarrow> (diff_error + difffile) \<times> byte list \<times> bool" where
  "diff_load fs inp path =
     (case if path = [0x2d] then Some inp else fs path of None \<Rightarrow> (Inl (Open_Error path), inp)
      | Some fp \<Rightarrow>
          (case diff_read_all fp of None \<Rightarrow> Inl (Read_Error path)
           | Some dat \<Rightarrow>
               if length dat = 0 then Inr \<lparr>d_lines = [[]], nlines = 0\<rparr>
               else case diff_split_lines dat of None \<Rightarrow> Inl Memory_Error
                 | Some (lines, n) \<Rightarrow> Inr \<lparr>d_lines = take n lines @ [[]], nlines = n\<rparr>,
           if path = [0x2d] then ([], snd inp) else inp))"

definition tolower :: "byte \<Rightarrow> byte" where
  "tolower c = (if 0x41 \<le> c \<and> c \<le> 0x5a then c + 0x20 else c)"

definition same_char :: "bool \<Rightarrow> byte \<Rightarrow> byte \<Rightarrow> bool" where
  "same_char icase a b \<longleftrightarrow> (if icase then tolower a = tolower b else a = b)"

text \<open>The first loop of \<open>lines_equal\<close>, on what is left of the lines; \<open>None\<close> is the return of 0 inside it.\<close>

function blanks_loop :: "bool \<Rightarrow> byte list \<Rightarrow> byte list \<Rightarrow> (byte list \<times> byte list) option" where
  "blanks_loop icase a b =
     (if a \<noteq> [] \<and> b \<noteq> [] then
        let a = dropWhile isspace a; b = dropWhile isspace b in
        if a = [] \<or> b = [] then Some (a, b)
        else if \<not> same_char icase (hd a) (hd b) then None
        else blanks_loop icase (tl a) (tl b)
      else Some (a, b))"
  by pat_completeness auto
termination
proof (relation "measure (\<lambda>(icase, a, b). length a)", goal_cases)
  case (2 icase a b x y)
  then have "length (dropWhile isspace a) \<le> length a" "dropWhile isspace a \<noteq> []" by (simp_all add: length_dropWhile_le)
  then show ?case using 2 by (cases "dropWhile isspace a") auto
qed simp

declare blanks_loop.simps [simp del]

definition lines_equal :: "byte list \<Rightarrow> byte list \<Rightarrow> diffopts option \<Rightarrow> bool" where
  "lines_equal a b opts =
     (case opts of
        Some op \<Rightarrow>
          if ignore_blanks op then
            case blanks_loop (ignore_case op) a b of None \<Rightarrow> False
            | Some (a, b) \<Rightarrow> dropWhile isspace a = [] \<and> dropWhile isspace b = []
          else if ignore_case op then
            if length a \<noteq> length b then False else list_all (\<lambda>(x, y). tolower x = tolower y) (zip a b)
          else if length a \<noteq> length b then False else a = b
      | None \<Rightarrow> if length a \<noteq> length b then False else a = b)"

section \<open>Loading\<close>

text \<open>The lines of a text, without their newlines.\<close>

definition text_lines :: "byte list \<Rightarrow> byte list list" where
  "text_lines s = map (\<lambda>l. if l \<noteq> [] \<and> last l = 0x0a then butlast l else l) (split_lines s)"

definition file_of :: "byte list list \<Rightarrow> difffile" where
  "file_of ls = \<lparr>d_lines = ls @ [[]], nlines = length ls\<rparr>"

lemma read_pieces_result: "fst (read_pieces fp dat cap) = dat @ fp"
proof (induction fp dat cap rule: read_pieces.induct)
  case (1 fp dat cap)
  then show ?case by (subst read_pieces.simps) (auto simp: Let_def)
qed

text \<open>The complete lines of a text that starts with \<open>cur\<close>, and what follows the last newline.\<close>

fun split_acc :: "byte list \<Rightarrow> byte list \<Rightarrow> byte list list \<times> byte list" where
  "split_acc [] cur = ([], cur)"
| "split_acc (c # dat) cur = (if c = 0x0a then apfst ((#) cur) (split_acc dat []) else split_acc dat (cur @ [c]))"

lemma length_split_acc: "length (fst (split_acc dat cur)) = length (filter (\<lambda>c. c = 0x0a) dat)"
  by (induction dat arbitrary: cur) auto

lemma split_fill_result:
  assumes "length (fst (split_acc dat cur)) \<le> k"
  shows "split_fill dat cur (pre @ replicate k []) (length pre) =
     Some (pre @ fst (split_acc dat cur) @ replicate (k - length (fst (split_acc dat cur))) [],
       length pre + length (fst (split_acc dat cur)), snd (split_acc dat cur))"
  using assms
proof (induction dat arbitrary: cur pre k)
  case (Cons c dat)
  show ?case
  proof (cases "c = 0x0a")
    case True
    then obtain k' where k: "k = Suc k'" using Cons.prems by (cases k) auto
    have "length (fst (split_acc dat [])) \<le> k'" using Cons.prems True k by simp
    from Cons.IH [OF this, of "pre @ [cur]"] show ?thesis using True by (simp add: k)
  qed (use Cons in simp)
qed simp

lemma split_acc_rest: "snd (split_acc dat cur) = [] \<longleftrightarrow> (if dat = [] then cur = [] else last dat = 0x0a)"
proof (induction dat arbitrary: cur)
  case (Cons c dat)
  then show ?case by (cases "dat = []") (simp_all add: apfst_def)
qed simp

lemma text_lines_line: "0x0a \<notin> set cur \<Longrightarrow> text_lines (cur @ 0x0a # dat) = cur # text_lines dat"
  by (simp add: text_lines_def split_lines_line)

lemma split_lines_single: "0x0a \<notin> set cur \<Longrightarrow> split_lines cur = (if cur = [] then [] else [cur])"
  by (induction cur) auto

lemma text_lines_split_acc:
  "0x0a \<notin> set cur \<Longrightarrow> text_lines (cur @ dat) = fst (split_acc dat cur) @ (if snd (split_acc dat cur) = [] then [] else [snd (split_acc dat cur)])"
proof (induction dat arbitrary: cur)
  case Nil
  have "last cur \<noteq> 0x0a" if "cur \<noteq> []" using Nil last_in_set [OF that] by metis
  then show ?case using Nil by (simp add: text_lines_def split_lines_single)
next
  case (Cons c dat)
  show ?case
  proof (cases "c = 0x0a")
    case True
    with Cons.IH [of "[]"] Cons.prems show ?thesis by (simp add: text_lines_line)
  next
    case False
    with Cons.IH [of "cur @ [c]"] Cons.prems show ?thesis by simp
  qed
qed

lemma diff_split_lines_result:
  assumes "dat \<noteq> []"
  shows "diff_split_lines dat = Some (text_lines dat, length (text_lines dat))"
proof -
  let ?ls = "fst (split_acc dat [])" and ?r = "snd (split_acc dat [])"
  let ?n = "if ?r = [] then length ?ls else length ?ls + 1"
  have n: "(let n = length (filter (\<lambda>c. c = 0x0a) dat) in if length dat > 0 \<and> last dat \<noteq> 0x0a then n + 1 else n) = ?n"
    using assms split_acc_rest [of dat "[]"] by (simp add: length_split_acc)
  have t: "text_lines dat = ?ls @ (if ?r = [] then [] else [?r])" using text_lines_split_acc [of "[]" dat] by simp
  have "?n \<noteq> 0"
    using assms split_acc_rest [of dat "[]"] by (cases dat) (auto simp: length_split_acc filter_empty_conv simp del: split_acc.simps dest: last_in_set)
  moreover have "split_fill dat [] (replicate ?n []) 0 = Some (?ls @ replicate (?n - length ?ls) [], length ?ls, ?r)"
    using split_fill_result [of dat "[]" ?n "[]"] by simp
  ultimately show ?thesis
    using n unfolding diff_split_lines_def t by (auto simp: Let_def)
qed

lemma diff_load_result:
  assumes "path \<noteq> [0x2d]" "fs path = Some (dat, False)"
  shows "diff_load fs inp path = (Inr (file_of (text_lines dat)), inp)"
proof -
  have "text_lines [] = []" by (simp add: text_lines_def)
  then show ?thesis
    using assms diff_split_lines_result [of dat]
    by (cases "dat = []") (auto simp: diff_load_def diff_read_all_def read_pieces_result file_of_def)
qed

section \<open>Equality of lines\<close>

text \<open>The part of a line that the options look at.\<close>

definition line_norm :: "diffopts option \<Rightarrow> byte list \<Rightarrow> byte list" where
  "line_norm opts l = (case opts of None \<Rightarrow> l
     | Some op \<Rightarrow> map (\<lambda>c. if ignore_case op then tolower c else c) (if ignore_blanks op then filter (\<lambda>c. \<not> isspace c) l else l))"

lemma filter_dropWhile_isspace: "filter (\<lambda>c. \<not> isspace c) (dropWhile isspace l) = filter (\<lambda>c. \<not> isspace c) l"
  by (induction l) auto

lemma dropWhile_isspace_Nil: "dropWhile isspace l = [] \<longleftrightarrow> filter (\<lambda>c. \<not> isspace c) l = []"
  by (simp add: dropWhile_eq_Nil_conv filter_empty_conv)

lemma blanks_loop_norm:
  "(case blanks_loop icase a b of None \<Rightarrow> False | Some (a, b) \<Rightarrow> dropWhile isspace a = [] \<and> dropWhile isspace b = []) \<longleftrightarrow>
     list_all2 (same_char icase) (filter (\<lambda>c. \<not> isspace c) a) (filter (\<lambda>c. \<not> isspace c) b)"
proof (induction icase a b rule: blanks_loop.induct)
  case (1 icase a b)
  let ?f = "filter (\<lambda>c. \<not> isspace c)" and ?a = "dropWhile isspace a" and ?b = "dropWhile isspace b"
  show ?case
  proof (cases "?a = [] \<or> ?b = []")
    case True
    have step: "blanks_loop icase a b = (if a \<noteq> [] \<and> b \<noteq> [] then Some (?a, ?b) else Some (a, b))"
      using True by (subst blanks_loop.simps) (simp add: Let_def)
    have "?f a = [] \<or> ?f b = []" using True by (simp only: dropWhile_isspace_Nil)
    moreover have "?f (dropWhile isspace a) = ?f a" "?f (dropWhile isspace b) = ?f b" by (rule filter_dropWhile_isspace)+
    ultimately show ?thesis
      unfolding step by (cases "a \<noteq> [] \<and> b \<noteq> []") (auto simp only: dropWhile_isspace_Nil if_True if_False option.case prod.case list_all2_Nil list_all2_Nil2 simp_thms)
  next
    case False
    then obtain x u y v where uv: "?a = x # u" "?b = y # v" by (meson neq_Nil_conv)
    then have ne: "a \<noteq> []" "b \<noteq> []" "\<not> isspace x" "\<not> isspace y" using hd_dropWhile [of isspace a] hd_dropWhile [of isspace b] by auto
    have f: "?f a = x # ?f u" "?f b = y # ?f v"
      using filter_dropWhile_isspace [of a] filter_dropWhile_isspace [of b] uv ne by simp_all
    have step: "blanks_loop icase a b = (if same_char icase x y then blanks_loop icase u v else None)"
      using uv ne by (subst blanks_loop.simps) (simp add: Let_def)
    have "same_char icase x y \<Longrightarrow>
        (case blanks_loop icase u v of None \<Rightarrow> False | Some (a, b) \<Rightarrow> dropWhile isspace a = [] \<and> dropWhile isspace b = []) \<longleftrightarrow>
        list_all2 (same_char icase) (?f u) (?f v)"
      using 1 [OF _ refl refl] uv ne by simp
    then show ?thesis unfolding step f by simp
  qed
qed

lemma list_all2_same_char:
  "list_all2 (same_char icase) a b \<longleftrightarrow>
     map (\<lambda>c. if icase then tolower c else c) a = map (\<lambda>c. if icase then tolower c else c) b"
  by (auto simp: list_all2_conv_all_nth same_char_def list_eq_iff_nth_eq)

lemma lines_equal_norm: "lines_equal a b opts \<longleftrightarrow> line_norm opts a = line_norm opts b"
proof (cases opts)
  case None
  then show ?thesis by (auto simp: lines_equal_def line_norm_def)
next
  case (Some op)
  have "length a = length b \<Longrightarrow> list_all (\<lambda>(x, y). tolower x = tolower y) (zip a b) \<longleftrightarrow> map tolower a = map tolower b"
    by (auto simp: list_all_length list_eq_iff_nth_eq)
  moreover have "length a \<noteq> length b \<Longrightarrow> map tolower a \<noteq> map tolower b" by (metis length_map)
  ultimately show ?thesis
    using blanks_loop_norm [of "ignore_case op" a b] Some
    by (auto simp: lines_equal_def line_norm_def list_all2_same_char split: if_splits)
qed

end
