(* ===== verification/Diff_Compute.thy ===== *)
theory Diff_Compute
  imports Diff_Lines
begin

unbundle bit_operations_syntax

text \<open>
  The difference of two files: \<open>diff_compute\<close> of \<open>shared/libutil/diffutil.c\<close>, and \<open>diff_looks_binary\<close>.

  The table of the longest common subsequences is one array, written in the order of the two loops. The
  arrays \<open>xs\<close> and \<open>ys\<close> are the list of their pairs; the code reads them from the end, so the loops that
  build the hunks run over the reversed list. A step of the trace with \<open>j\<close> equal to 0, where the code would
  wrap around, is \<open>None\<close>.
\<close>

section \<open>Definitions\<close>

record lcs_cell =
  diag :: nat
  up :: bool
  left :: bool

record diffrange =
  rng_from :: nat
  rng_to :: nat

record diffhunk =
  h_old :: diffrange
  h_new :: diffrange

definition default_opts :: diffopts where
  "default_opts = \<lparr>o_format = DIFF_NORMAL, o_context = 3, ignore_case = False, ignore_blanks = False,
     strip_cr = False, treat_binary = False\<rparr>"

text \<open>The body of the two loops that fill the table.\<close>

definition lcs_step :: "difffile \<Rightarrow> difffile \<Rightarrow> diffopts \<Rightarrow> nat \<Rightarrow> lcs_cell list \<Rightarrow> nat \<Rightarrow> nat \<Rightarrow> lcs_cell" where
  "lcs_step old new opts m c i j =
     (if i = 0 \<and> j = 0 then (c ! (i * (m + 1) + j))\<lparr>diag := 0\<rparr>
      else if i > 0 \<and> j > 0 \<and> lines_equal (d_lines old ! (i - 1)) (d_lines new ! (j - 1)) (Some opts) then
        \<lparr>diag = diag (c ! ((i - 1) * (m + 1) + (j - 1))) + 1, up = False, left = False\<rparr>
      else if i > 0 \<and> (j = 0 \<or> diag (c ! ((i - 1) * (m + 1) + j)) \<ge> diag (c ! (i * (m + 1) + (j - 1)))) then
        \<lparr>diag = diag (c ! ((i - 1) * (m + 1) + j)), up = True, left = False\<rparr>
      else \<lparr>diag = diag (c ! (i * (m + 1) + (j - 1))), up = False, left = True\<rparr>)"

definition lcs_table :: "difffile \<Rightarrow> difffile \<Rightarrow> diffopts \<Rightarrow> lcs_cell list" where
  "lcs_table old new opts =
     (let n = nlines old; m = nlines new in
      fold (\<lambda>i. fold (\<lambda>j c. c[i * (m + 1) + j := lcs_step old new opts m c i j]) [0..<m + 1]) [0..<n + 1]
        (replicate ((n + 1) * (m + 1)) \<lparr>diag = 0, up = False, left = False\<rparr>))"

text \<open>The trace from the last cell back to the first, and what it appends to \<open>xs\<close> and \<open>ys\<close>.\<close>

function back_loop ::
  "difffile \<Rightarrow> difffile \<Rightarrow> diffopts \<Rightarrow> lcs_cell list \<Rightarrow> nat \<Rightarrow> nat \<Rightarrow> (nat \<times> nat) list \<Rightarrow> (nat \<times> nat) list option" where
  "back_loop old new opts c i j xys =
     (if i > 0 \<or> j > 0 then
        if i > 0 \<and> j > 0 \<and> lines_equal (d_lines old ! (i - 1)) (d_lines new ! (j - 1)) (Some opts) then
          back_loop old new opts c (i - 1) (j - 1) (xys @ [(0, 0)])
        else if i > 0 \<and> up (c ! (i * (nlines new + 1) + j)) then back_loop old new opts c (i - 1) j (xys @ [(1, 0)])
        else if j > 0 then back_loop old new opts c i (j - 1) (xys @ [(0, 2)])
        else None
      else Some xys)"
  by pat_completeness auto
termination
  by (relation "measure (\<lambda>(old, new, opts, c, i, j, xys). i + j)") auto

declare back_loop.simps [simp del]

text \<open>The inner loop of the last part: a run of lines that were removed or added.\<close>

fun run_loop :: "(nat \<times> nat) list \<Rightarrow> nat \<Rightarrow> nat \<Rightarrow> (nat \<times> nat) list \<times> nat \<times> nat" where
  "run_loop [] hto vto = ([], hto, vto)"
| "run_loop ((x, y) # xys) hto vto =
     (if x OR y = 0 then ((x, y) # xys, hto, vto)
      else run_loop xys (if x = 1 then hto + 1 else hto) (if y = 2 then vto + 1 else vto))"

lemma run_loop_length: "length (fst (run_loop xys h v)) \<le> length xys"
proof (induction xys h v rule: run_loop.induct)
  case (2 x y xys h v)
  then show ?case by (cases "x OR y = 0") (auto intro: le_SucI)
qed simp

lemma run_loop_shorter: "run_loop xys h v = (rest, w) \<Longrightarrow> length rest \<le> length xys"
  using run_loop_length [of xys h v] by simp

function hunk_loop :: "(nat \<times> nat) list \<Rightarrow> nat \<Rightarrow> nat \<Rightarrow> diffhunk list \<Rightarrow> diffhunk list" where
  "hunk_loop [] i j hunks = hunks"
| "hunk_loop ((x, y) # xys) i j hunks =
     (if x OR y = 0 then hunk_loop xys (i + 1) (j + 1) hunks
      else
        let (rest, hto, vto) = run_loop ((x, y) # xys) i j in
        hunk_loop rest hto vto
          (hunks @ [\<lparr>h_old = \<lparr>rng_from = i, rng_to = hto\<rparr>, h_new = \<lparr>rng_from = j, rng_to = vto\<rparr>\<rparr>]))"
  by pat_completeness auto
termination
proof (relation "measure (\<lambda>(xys, i, j, hunks). length xys)", goal_cases)
  case (3 x y xys i j hunks z rest w hto vto)
  then have "run_loop xys (if x = 1 then i + 1 else i) (if y = 2 then j + 1 else j) = (rest, w)" by simp
  from run_loop_shorter [OF this] show ?case by simp
qed auto

definition diff_compute :: "difffile \<Rightarrow> difffile \<Rightarrow> diffopts option \<Rightarrow> diffhunk list option" where
  "diff_compute old new opts =
     (let opts = (case opts of None \<Rightarrow> default_opts | Some op \<Rightarrow> op) in
      if nlines old = 0 \<and> nlines new = 0 then Some []
      else
        map_option (\<lambda>xys. hunk_loop (rev xys) 0 0 [])
          (back_loop old new opts (lcs_table old new opts) (nlines old) (nlines new) []))"

fun binary_loop :: "byte list list \<Rightarrow> nat \<Rightarrow> bool" where
  "binary_loop [] scan = False"
| "binary_loop (l # ls) scan =
     (if scan = 0 then False
      else let n = (if length l < scan then length l else scan) in
        if 0 \<in> set (take n l) then True else binary_loop ls (scan - n))"

definition diff_looks_binary :: "difffile \<Rightarrow> bool" where
  "diff_looks_binary df = binary_loop (take (nlines df) (d_lines df)) 4096"

section \<open>The table\<close>

text \<open>The length of the longest common subsequence of the first \<open>i\<close> and the first \<open>j\<close> elements.\<close>

fun lcs_len :: "(nat \<Rightarrow> nat \<Rightarrow> bool) \<Rightarrow> nat \<Rightarrow> nat \<Rightarrow> nat" where
  "lcs_len eq 0 j = 0"
| "lcs_len eq (Suc i) 0 = 0"
| "lcs_len eq (Suc i) (Suc j) = (if eq i j then lcs_len eq i j + 1 else max (lcs_len eq i (Suc j)) (lcs_len eq (Suc i) j))"

lemma lcs_len_0 [simp]: "lcs_len eq i 0 = 0"
  by (cases i) simp_all

definition lcs_up :: "(nat \<Rightarrow> nat \<Rightarrow> bool) \<Rightarrow> nat \<Rightarrow> nat \<Rightarrow> bool" where
  "lcs_up eq i j \<longleftrightarrow> i > 0 \<and> (j = 0 \<or> \<not> eq (i - 1) (j - 1) \<and> lcs_len eq i (j - 1) \<le> lcs_len eq (i - 1) j)"

definition cell_spec :: "(nat \<Rightarrow> nat \<Rightarrow> bool) \<Rightarrow> nat \<Rightarrow> nat \<Rightarrow> lcs_cell \<Rightarrow> bool" where
  "cell_spec eq i j x \<longleftrightarrow> diag x = lcs_len eq i j \<and> up x = lcs_up eq i j"

definition table_upto :: "(nat \<Rightarrow> nat \<Rightarrow> bool) \<Rightarrow> nat \<Rightarrow> nat \<Rightarrow> nat \<Rightarrow> lcs_cell list \<Rightarrow> bool" where
  "table_upto eq n m p c \<longleftrightarrow> length c = (n + 1) * (m + 1) \<and>
     (p = 0 \<longrightarrow> c = replicate ((n + 1) * (m + 1)) \<lparr>diag = 0, up = False, left = False\<rparr>) \<and>
     (\<forall>i j. j \<le> m \<longrightarrow> i * (m + 1) + j < p \<longrightarrow> cell_spec eq i j (c ! (i * (m + 1) + j)))"

lemma cell_index_inj:
  fixes i j i' j' m :: nat
  assumes "i * (m + 1) + j = i' * (m + 1) + j'" "j \<le> m" "j' \<le> m"
  shows "i = i' \<and> j = j'"
proof -
  have "(i * (m + 1) + j) div (m + 1) = i" "(i' * (m + 1) + j') div (m + 1) = i'" using assms(2,3) by (simp_all add: div_mult_self3 del: mult_Suc_right)
  then have "i = i'" using assms(1) by simp
  then show ?thesis using assms(1) by simp
qed

lemma cell_index_bound: "i \<le> n \<Longrightarrow> j \<le> m \<Longrightarrow> i * (m + 1) + j < (n + 1) * (m + 1)" for i j n m :: nat
proof -
  assume "i \<le> n" "j \<le> m"
  then have "i * (m + 1) + j < (i + 1) * (m + 1)" by simp
  also have "\<dots> \<le> (n + 1) * (m + 1)" using \<open>i \<le> n\<close> by (intro mult_le_mono1) simp
  finally show ?thesis .
qed

abbreviation eq_at :: "difffile \<Rightarrow> difffile \<Rightarrow> diffopts \<Rightarrow> nat \<Rightarrow> nat \<Rightarrow> bool" where
  "eq_at old new opts \<equiv> \<lambda>i j. lines_equal (d_lines old ! i) (d_lines new ! j) (Some opts)"

lemma lcs_len_step:
  "i > 0 \<Longrightarrow> j > 0 \<Longrightarrow> lcs_len eq i j =
     (if eq (i - 1) (j - 1) then lcs_len eq (i - 1) (j - 1) + 1 else max (lcs_len eq (i - 1) j) (lcs_len eq i (j - 1)))"
  by (cases i; cases j) simp_all

lemma lcs_len_cong:
  "(\<And>i j. i < n \<Longrightarrow> j < m \<Longrightarrow> eq i j = eq' i j) \<Longrightarrow> i \<le> n \<Longrightarrow> j \<le> m \<Longrightarrow> lcs_len eq i j = lcs_len eq' i j"
  by (induction eq i j rule: lcs_len.induct) auto

lemma lcs_step_spec:
  assumes t: "table_upto (eq_at old new opts) n m (i * (m + 1) + j) c" and ij: "i \<le> n" "j \<le> m"
  shows "cell_spec (eq_at old new opts) i j (lcs_step old new opts m c i j)"
proof -
  let ?eq = "eq_at old new opts" and ?at = "\<lambda>i j. c ! (i * (m + 1) + j)"
  have at: "diag (?at i' j') = lcs_len ?eq i' j'" if "j' \<le> m" "i' * (m + 1) + j' < i * (m + 1) + j" for i' j'
    using t that by (auto simp: table_upto_def cell_spec_def)
  have prev: "diag (?at (i - 1) j) = lcs_len ?eq (i - 1) j" "diag (?at (i - 1) (j - 1)) = lcs_len ?eq (i - 1) (j - 1)" if "i > 0"
  proof -
    obtain i0 where i0: "i = Suc i0" using \<open>i > 0\<close> by (cases i) simp_all
    have "i0 * (m + 1) + j < i * (m + 1) + j" "i0 * (m + 1) + (j - 1) < i * (m + 1) + j" by (simp_all add: i0)
    with at [of j i0] at [of "j - 1" i0] ij show "diag (?at (i - 1) j) = lcs_len ?eq (i - 1) j" "diag (?at (i - 1) (j - 1)) = lcs_len ?eq (i - 1) (j - 1)"
      by (simp_all add: i0 del: mult_Suc_right)
  qed
  have here: "diag (?at i (j - 1)) = lcs_len ?eq i (j - 1)" if "j > 0"
    by (rule at) (use that ij in simp_all)
  consider (zero) "i = 0" "j = 0" | (row) "i = 0" "j > 0" | (col) "i > 0" "j = 0" | (mid) "i > 0" "j > 0" by blast
  then show ?thesis
  proof cases
    case zero
    then have "c ! 0 = \<lparr>diag = 0, up = False, left = False\<rparr>" using t by (simp add: table_upto_def)
    then show ?thesis using zero by (simp add: lcs_step_def cell_spec_def lcs_up_def)
  next
    case row
    then show ?thesis using here by (simp add: lcs_step_def cell_spec_def lcs_up_def)
  next
    case col
    then show ?thesis using prev by (simp add: lcs_step_def cell_spec_def lcs_up_def)
  next
    case mid
    then show ?thesis
      using prev here lcs_len_step [of i j ?eq] unfolding lcs_step_def cell_spec_def lcs_up_def by (simp add: max_def)
  qed
qed

lemma table_upto_step:
  assumes t: "table_upto (eq_at old new opts) n m (i * (m + 1) + j) c" and ij: "i \<le> n" "j \<le> m"
  shows "table_upto (eq_at old new opts) n m (i * (m + 1) + (j + 1)) (c[i * (m + 1) + j := lcs_step old new opts m c i j])"
proof -
  let ?p = "i * (m + 1) + j" and ?x = "lcs_step old new opts m c i j"
  have len: "length c = (n + 1) * (m + 1)" using t by (simp add: table_upto_def)
  have p: "?p < length c" unfolding len by (rule cell_index_bound [OF ij])
  have "cell_spec (eq_at old new opts) i' j' (c[?p := ?x] ! (i' * (m + 1) + j'))"
    if h: "j' \<le> m" "i' * (m + 1) + j' < ?p + 1" for i' j'
  proof (cases "i' * (m + 1) + j' = ?p")
    case True
    then have "i' = i" "j' = j" using cell_index_inj [OF True h(1) ij(2)] by simp_all
    then show ?thesis using lcs_step_spec [OF t ij] p by simp
  next
    case False
    then show ?thesis using t h by (simp add: table_upto_def)
  qed
  then show ?thesis using len by (simp add: table_upto_def)
qed

lemma fold_upt_Suc: "fold f [0..<Suc k] x = f k (fold f [0..<k] x)"
  by simp

lemma lcs_table_spec:
  assumes "i \<le> nlines old" "j \<le> nlines new"
  shows "cell_spec (eq_at old new opts) i j (lcs_table old new opts ! (i * (nlines new + 1) + j))"
proof -
  define n m where "n = nlines old" and "m = nlines new"
  let ?eq = "eq_at old new opts"
  let ?row = "\<lambda>i k. fold (\<lambda>j c. c[i * (m + 1) + j := lcs_step old new opts m c i j]) [0..<k]"
  have row: "table_upto ?eq n m (i * (m + 1) + k) (?row i k c)"
    if "table_upto ?eq n m (i * (m + 1)) c" "i \<le> n" "k \<le> m + 1" for i k c
    using that
  proof (induction k)
    case (Suc k)
    then have "table_upto ?eq n m (i * (m + 1) + k) (?row i k c)" "k \<le> m" by simp_all
    from table_upto_step [OF this(1) Suc.prems(2) this(2)] show ?case by (simp del: mult_Suc_right)
  qed simp
  let ?zero = "replicate ((n + 1) * (m + 1)) \<lparr>diag = 0, up = False, left = False\<rparr>"
  have all: "table_upto ?eq n m (k * (m + 1)) (fold (\<lambda>i. ?row i (m + 1)) [0..<k] ?zero)" if "k \<le> n + 1" for k
    using that
  proof (induction k)
    case 0
    then show ?case by (simp add: table_upto_def)
  next
    case (Suc k)
    let ?c = "fold (\<lambda>i. ?row i (m + 1)) [0..<k] ?zero"
    have "table_upto ?eq n m (k * (m + 1) + (m + 1)) (?row k (m + 1) ?c)" by (rule row [OF Suc.IH]) (use Suc.prems in simp_all)
    moreover have "k * (m + 1) + (m + 1) = Suc k * (m + 1)" by simp
    moreover have "fold (\<lambda>i. ?row i (m + 1)) [0..<Suc k] ?zero = ?row k (m + 1) ?c"
      by (rule fold_upt_Suc)
    ultimately show ?case by (simp only:)
  qed
  have "i * (m + 1) + j < (n + 1) * (m + 1)" using cell_index_bound [of i n j m] assms by (simp add: n_def m_def)
  with all [of "n + 1"] assms show ?thesis
    unfolding lcs_table_def Let_def table_upto_def n_def [symmetric] m_def [symmetric] by blast
qed

section \<open>The trace\<close>

text \<open>A script that turns one list into another: lines are kept, removed or added.\<close>

inductive script :: "('a \<Rightarrow> 'a \<Rightarrow> bool) \<Rightarrow> (nat \<times> nat) list \<Rightarrow> 'a list \<Rightarrow> 'a list \<Rightarrow> bool" for R where
  script_end: "script R [] [] []"
| script_keep: "script R xys us vs \<Longrightarrow> R u v \<Longrightarrow> script R ((0, 0) # xys) (u # us) (v # vs)"
| script_remove: "script R xys us vs \<Longrightarrow> script R ((1, 0) # xys) (u # us) vs"
| script_add: "script R xys us vs \<Longrightarrow> script R ((0, 2) # xys) us (v # vs)"

inductive_cases script_cases:
  "script R [] us vs" "script R ((0, 0) # xys) us vs" "script R ((x, y) # xys) us vs"

lemma script_snoc:
  assumes "script R xys us vs"
  shows "R u v \<Longrightarrow> script R (xys @ [(0, 0)]) (us @ [u]) (vs @ [v])"
    and "script R (xys @ [(1, 0)]) (us @ [u]) vs"
    and "script R (xys @ [(0, 2)]) us (vs @ [v])"
  using assms by (induction) (auto intro: script.intros simp del: One_nat_def)

definition kept :: "(nat \<times> nat) list \<Rightarrow> nat" where
  "kept xys = length (filter (\<lambda>p. p = (0, 0)) xys)"

lemma kept_simps [simp]:
  "kept [] = 0" "kept ((0, 0) # xys) = kept xys + 1" "x OR y \<noteq> 0 \<Longrightarrow> kept ((x, y) # xys) = kept xys"
  "kept (xys @ xys') = kept xys + kept xys'" "kept (rev xys) = kept xys"
  by (auto simp: kept_def rev_filter [symmetric])

lemma back_loop_script:
  assumes "i \<le> length us" "j \<le> length vs" "\<forall>i \<le> length us. \<forall>j \<le> length vs. cell_spec eq i j (c ! (i * (nlines new + 1) + j))"
    and eq: "\<forall>i < length us. \<forall>j < length vs. eq_at old new opts i j = eq i j" "\<forall>i < length us. \<forall>j < length vs. eq i j = R (us ! i) (vs ! j)"
  shows "\<exists>w. back_loop old new opts c i j xys = Some (xys @ w) \<and> script R (rev w) (take i us) (take j vs) \<and> kept w = lcs_len eq i j"
  using assms(1,2)
proof (induction "i + j" arbitrary: i j xys rule: less_induct)
  case less
  have cell: "up (c ! (i * (nlines new + 1) + j)) = lcs_up eq i j" using assms(3) less.prems by (simp add: cell_spec_def)
  have ti: "i > 0 \<Longrightarrow> take i us = take (i - 1) us @ [us ! (i - 1)]" "j > 0 \<Longrightarrow> take j vs = take (j - 1) vs @ [vs ! (j - 1)]"
    using less.prems take_Suc_conv_app_nth [of "i - 1" us] take_Suc_conv_app_nth [of "j - 1" vs] by auto
  have e: "i > 0 \<Longrightarrow> j > 0 \<Longrightarrow> eq_at old new opts (i - 1) (j - 1) = eq (i - 1) (j - 1)" "i > 0 \<Longrightarrow> j > 0 \<Longrightarrow> eq (i - 1) (j - 1) = R (us ! (i - 1)) (vs ! (j - 1))"
    using eq less.prems by simp_all
  have le: "i - 1 \<le> length us" "j - 1 \<le> length vs" using less.prems by simp_all
  consider (zero) "i = 0" "j = 0" | (same) "i > 0" "j > 0" "eq (i - 1) (j - 1)" | (up) "lcs_up eq i j"
    | (left) "j > 0" "i > 0 \<longrightarrow> \<not> eq (i - 1) (j - 1)" "\<not> lcs_up eq i j"
    by (cases "lcs_up eq i j"; cases "i = 0"; cases "j = 0"; cases "eq (i - 1) (j - 1)") (auto simp: lcs_up_def)
  then show ?case
  proof cases
    case zero
    then show ?thesis by (intro exI [of _ "[]"]) (simp add: back_loop.simps script_end)
  next
    case same
    have "back_loop old new opts c i j xys = back_loop old new opts c (i - 1) (j - 1) (xys @ [(0, 0)])"
      using same e by (subst back_loop.simps) simp
    moreover from less.hyps [of "i - 1" "j - 1" "xys @ [(0, 0)]", OF _ le] same obtain w where
      "back_loop old new opts c (i - 1) (j - 1) (xys @ [(0, 0)]) = Some ((xys @ [(0, 0)]) @ w)"
      "script R (rev w) (take (i - 1) us) (take (j - 1) vs)" "kept w = lcs_len eq (i - 1) (j - 1)" by auto
    ultimately show ?thesis
      using same e script_snoc(1) [of R "rev w" "take (i - 1) us" "take (j - 1) vs" "us ! (i - 1)" "vs ! (j - 1)"] lcs_len_step [of i j eq]
      by (intro exI [of _ "(0, 0) # w"]) (simp add: ti)
  next
    case up
    then have i: "i > 0" "j > 0 \<longrightarrow> \<not> eq (i - 1) (j - 1)" by (auto simp: lcs_up_def)
    have "back_loop old new opts c i j xys = back_loop old new opts c (i - 1) j (xys @ [(1, 0)])"
      using i e up cell by (subst back_loop.simps) auto
    moreover from less.hyps [of "i - 1" j "xys @ [(1, 0)]", OF _ le(1) less.prems(2)] i obtain w where
      "back_loop old new opts c (i - 1) j (xys @ [(1, 0)]) = Some ((xys @ [(1, 0)]) @ w)"
      "script R (rev w) (take (i - 1) us) (take j vs)" "kept w = lcs_len eq (i - 1) j" by auto
    moreover have "lcs_len eq i j = lcs_len eq (i - 1) j"
      using up i lcs_len_step [of i j eq] by (cases "j = 0") (auto simp: lcs_up_def)
    ultimately show ?thesis
      using i script_snoc(2) [of R "rev w" "take (i - 1) us" "take j vs" "us ! (i - 1)"]
      by (intro exI [of _ "(1, 0) # w"]) (simp add: ti(1))
  next
    case left
    have "back_loop old new opts c i j xys = back_loop old new opts c i (j - 1) (xys @ [(0, 2)])"
      using left e cell by (subst back_loop.simps) auto
    moreover from less.hyps [of i "j - 1" "xys @ [(0, 2)]", OF _ less.prems(1) le(2)] left obtain w where
      "back_loop old new opts c i (j - 1) (xys @ [(0, 2)]) = Some ((xys @ [(0, 2)]) @ w)"
      "script R (rev w) (take i us) (take (j - 1) vs)" "kept w = lcs_len eq i (j - 1)" by auto
    moreover have "lcs_len eq i j = lcs_len eq i (j - 1)"
      using left lcs_len_step [of i j eq] by (cases "i = 0") (auto simp: lcs_up_def max_def)
    ultimately show ?thesis
      using left script_snoc(3) [of R "rev w" "take i us" "take (j - 1) vs" "vs ! (j - 1)"]
      by (intro exI [of _ "(0, 2) # w"]) (simp add: ti(2))
  qed
qed

section \<open>The hunks\<close>

definition del :: "diffhunk \<Rightarrow> nat" where
  "del h = rng_to (h_old h) - rng_from (h_old h)"

text \<open>
  What hunks of files with \<open>n\<close> and \<open>m\<close> lines have to satisfy from the lines \<open>i\<close> and \<open>j\<close> on: each one removes
  or adds something, as many lines lie before it on both sides, and there is at least one line between two
  of them.
\<close>

fun hunks_ok :: "nat \<Rightarrow> nat \<Rightarrow> nat \<Rightarrow> nat \<Rightarrow> diffhunk list \<Rightarrow> bool" where
  "hunks_ok n m i j [] \<longleftrightarrow> i \<le> n \<and> j \<le> m \<and> n + j = m + i"
| "hunks_ok n m i j (h # hs) \<longleftrightarrow>
     i \<le> rng_from (h_old h) \<and> rng_from (h_old h) + j = rng_from (h_new h) + i \<and>
     rng_from (h_old h) \<le> rng_to (h_old h) \<and> rng_to (h_old h) \<le> n \<and>
     rng_from (h_new h) \<le> rng_to (h_new h) \<and> rng_to (h_new h) \<le> m \<and>
     (rng_from (h_old h) < rng_to (h_old h) \<or> rng_from (h_new h) < rng_to (h_new h)) \<and>
     (case hs of [] \<Rightarrow> True | h' # _ \<Rightarrow> rng_to (h_old h) < rng_from (h_old h')) \<and>
     hunks_ok n m (rng_to (h_old h)) (rng_to (h_new h)) hs"

text \<open>The first list with the hunks applied, from element \<open>i\<close> on.\<close>

definition segment :: "nat \<Rightarrow> nat \<Rightarrow> 'a list \<Rightarrow> 'a list" where
  "segment i j xs = drop i (take j xs)"

fun patched :: "'a list \<Rightarrow> 'a list \<Rightarrow> nat \<Rightarrow> diffhunk list \<Rightarrow> 'a list" where
  "patched us vs i [] = drop i us"
| "patched us vs i (h # hs) =
     segment i (rng_from (h_old h)) us @ segment (rng_from (h_new h)) (rng_to (h_new h)) vs @ patched us vs (rng_to (h_old h)) hs"

lemma script_drop_keep:
  assumes "script R ((0, 0) # xys) (drop i us) (drop j vs)"
  shows "i < length us" "j < length vs" "R (us ! i) (vs ! j)" "script R xys (drop (Suc i) us) (drop (Suc j) vs)"
proof -
  from assms obtain u us' v vs' where d: "drop i us = u # us'" "drop j vs = v # vs'" "R u v" "script R xys us' vs'"
    by (auto elim: script_cases)
  then show ij: "i < length us" "j < length vs" by (metis drop_all leI list.distinct(1))+
  show "R (us ! i) (vs ! j)" "script R xys (drop (Suc i) us) (drop (Suc j) vs)"
    using d ij by (simp_all add: Cons_nth_drop_Suc [symmetric])
qed

lemma run_loop_script:
  assumes "script R xys (drop i us) (drop j vs)" "run_loop xys i j = (rest, h, v)" "i \<le> length us" "j \<le> length vs"
  shows "script R rest (drop h us) (drop v vs) \<and> i \<le> h \<and> h \<le> length us \<and> j \<le> v \<and> v \<le> length vs \<and>
     kept rest = kept xys \<and> (rest = [] \<or> hd rest = (0, 0)) \<and> (rest = xys \<or> i < h \<or> j < v)"
  using assms
proof (induction xys i j rule: run_loop.induct)
  case (2 x y xys i j)
  from 2(2) consider "x = 0" "y = 0"
    | (rem) u us' where "x = 1" "y = 0" "drop i us = u # us'" "script R xys us' (drop j vs)"
    | (add) w vs' where "x = 0" "y = 2" "drop j vs = w # vs'" "script R xys (drop i us) vs'"
    by (auto elim: script_cases(3))
  then show ?case
  proof cases
    case 1
    then show ?thesis using 2 by auto
  next
    case rem
    then have i: "i < length us" "drop (Suc i) us = us'"
      by (metis drop_all leI list.distinct(1), metis drop_Suc list.sel(3) tl_drop)
    have "x OR y \<noteq> 0" using rem by simp
    with 2(1) 2(3,5) rem i show ?thesis by fastforce
  next
    case add
    then have j: "j < length vs" "drop (Suc j) vs = vs'"
      by (metis drop_all leI list.distinct(1), metis drop_Suc list.sel(3) tl_drop)
    have "x OR y \<noteq> 0" using add by simp
    with 2(1) 2(3,4) add j show ?thesis by fastforce
  qed
qed auto

lemma hunks_ok_back: "hunks_ok n m (Suc i) (Suc j) hs \<Longrightarrow> hunks_ok n m i j hs"
  by (cases hs) auto

lemma patched_Suc:
  assumes "i < length us" "hunks_ok (length us) m (Suc i) j hs"
  shows "patched us vs i hs = us ! i # patched us vs (Suc i) hs"
proof (cases hs)
  case Nil
  then show ?thesis using assms(1) by (simp add: Cons_nth_drop_Suc)
next
  case (Cons h hs')
  then have "Suc i \<le> rng_from (h_old h)" "rng_from (h_old h) \<le> length us" using assms(2) by auto
  then have "segment i (rng_from (h_old h)) us = us ! i # segment (Suc i) (rng_from (h_old h)) us"
    by (simp add: segment_def Cons_nth_drop_Suc [symmetric])
  then show ?thesis by (simp add: Cons)
qed

lemma segment_drop: "i \<le> j \<Longrightarrow> segment i j xs @ drop j xs = drop i xs"
  by (metis append_take_drop_id drop_append drop_take le_add_diff_inverse length_drop drop_drop segment_def take_drop add.commute)

lemma hunk_loop_script:
  assumes "script R xys (drop i us) (drop j vs)" "i \<le> length us" "j \<le> length vs" "reflp R"
  shows "\<exists>hs. hunk_loop xys i j hunks = hunks @ hs \<and> hunks_ok (length us) (length vs) i j hs \<and>
     list_all2 R (patched us vs i hs) (drop j vs) \<and> kept xys + sum_list (map del hs) + i = length us \<and>
     (xys = [] \<longrightarrow> hs = []) \<and> (\<forall>h hs'. xys \<noteq> [] \<longrightarrow> hd xys = (0, 0) \<longrightarrow> hs = h # hs' \<longrightarrow> i < rng_from (h_old h))"
  using assms(1-3)
proof (induction xys i j hunks rule: hunk_loop.induct)
  case (1 i j hunks)
  then have "drop i us = []" "drop j vs = []" by (auto elim: script_cases)
  then show ?case using 1 by auto
next
  case (2 x y xys i j hunks)
  show ?case
  proof (cases "x OR y = 0")
    case True
    then have xy: "x = 0" "y = 0" by (simp_all add: or_eq_0_iff)
    note k = script_drop_keep [OF 2(3) [unfolded xy]]
    from 2(1) [OF True _ _ _] k obtain hs where hs: "hunk_loop xys (Suc i) (Suc j) hunks = hunks @ hs"
      "hunks_ok (length us) (length vs) (Suc i) (Suc j) hs" "list_all2 R (patched us vs (Suc i) hs) (drop (Suc j) vs)"
      "kept xys + sum_list (map del hs) + Suc i = length us" by auto
    have "list_all2 R (patched us vs i hs) (drop j vs)"
      unfolding patched_Suc [OF k(1) hs(2)] using hs(3) k(2,3) by (simp add: Cons_nth_drop_Suc [symmetric])
    then show ?thesis
      using hs hunks_ok_back [OF hs(2)] by (intro exI [of _ hs]) (auto simp: xy)
  next
    case False
    obtain rest hto vto where r: "run_loop ((x, y) # xys) i j = (rest, hto, vto)" by (metis prod_cases3)
    note rl = run_loop_script [OF 2(3) r 2(4,5)]
    have adv: "i < hto \<or> j < vto" using rl False by auto
    let ?h = "\<lparr>h_old = \<lparr>rng_from = i, rng_to = hto\<rparr>, h_new = \<lparr>rng_from = j, rng_to = vto\<rparr>\<rparr>"
    from 2(2) [OF False r [symmetric] refl] rl obtain hs where hs: "hunk_loop rest hto vto (hunks @ [?h]) = (hunks @ [?h]) @ hs"
      "hunks_ok (length us) (length vs) hto vto hs" "list_all2 R (patched us vs hto hs) (drop vto vs)"
      "kept rest + sum_list (map del hs) + hto = length us" "rest = [] \<longrightarrow> hs = []"
      "\<forall>h hs'. rest \<noteq> [] \<longrightarrow> hd rest = (0, 0) \<longrightarrow> hs = h # hs' \<longrightarrow> hto < rng_from (h_old h)" by auto
    have "hunk_loop ((x, y) # xys) i j hunks = hunks @ ?h # hs" using False r hs(1) by simp
    moreover have "hunks_ok (length us) (length vs) i j (?h # hs)"
      using rl adv hs by (auto split: list.split)
    moreover have "list_all2 R (patched us vs i (?h # hs)) (drop j vs)"
    proof -
      have "list_all2 R (segment j vto vs) (segment j vto vs)" using assms(4) by (auto simp: list.rel_refl reflp_def)
      then have "list_all2 R (segment j vto vs @ patched us vs hto hs) (segment j vto vs @ drop vto vs)"
        using hs(3) by (rule list_all2_appendI)
      then show ?thesis using rl segment_drop [of j vto vs] by (simp add: segment_def)
    qed
    moreover have "kept ((x, y) # xys) + sum_list (map del (?h # hs)) + i = length us"
      using rl hs(4) False by (simp add: del_def)
    moreover have "(x, y) \<noteq> (0, 0)" using False by auto
    ultimately show ?thesis by (intro exI [of _ "?h # hs"]) auto
  qed
qed

section \<open>Common subsequences\<close>

lemma subseq_snoc_cases:
  assumes "subseq u (xs @ [x])"
  obtains "subseq u xs" | u' where "u = u' @ [x]" "subseq u' xs"
proof -
  from assms obtain u1 u2 where u: "u = u1 @ u2" "subseq u1 xs" "subseq u2 [x]" by (rule subseq_appendE)
  then have "u2 = [] \<or> u2 = [x]" by (cases u2) (auto split: if_splits)
  with u that show thesis by auto
qed

lemma lcs_len_upper:
  assumes "subseq u (take i us)" "subseq v (take j vs)" "list_all2 R u v" "i \<le> length us" "j \<le> length vs"
    and "\<forall>i < length us. \<forall>j < length vs. eq i j = R (us ! i) (vs ! j)"
  shows "length u \<le> lcs_len eq i j"
  using assms
proof (induction eq i j arbitrary: u v rule: lcs_len.induct)
  case (3 eq i j)
  have su: "subseq u (take i us @ [us ! i])" and sv: "subseq v (take j vs @ [vs ! j])"
    using 3(4,5,7,8) by (simp_all add: take_Suc_conv_app_nth)
  show ?case
  proof (cases "eq i j")
    case True
    have "subseq (butlast u) (take i us)"
      using su by (cases rule: subseq_snoc_cases) (auto intro: subseq_order.order_trans [of _ u] simp: butlast_conv_take)
    moreover have "subseq (butlast v) (take j vs)"
      using sv by (cases rule: subseq_snoc_cases) (auto intro: subseq_order.order_trans [of _ v] simp: butlast_conv_take)
    moreover have "list_all2 R (butlast u) (butlast v)"
      using 3(6) by (auto simp: list_all2_conv_all_nth nth_butlast)
    ultimately have "length (butlast u) \<le> lcs_len eq i j"
      by (rule 3(1) [OF True]) (use 3(7-9) in simp_all)
    then show ?thesis using True by simp
  next
    case False
    consider (u) "subseq u (take i us)" | (v) "subseq v (take j vs)" | (both) u' v' where "u = u' @ [us ! i]" "v = v' @ [vs ! j]"
      using subseq_snoc_cases [OF su, of thesis] subseq_snoc_cases [OF sv, of thesis] by blast
    then show ?thesis
    proof cases
      case u
      then show ?thesis using 3(2) [OF False u 3(5,6)] 3(7-9) False by simp
    next
      case v
      then show ?thesis using 3(3) [OF False 3(4) v 3(6)] 3(7-9) False by simp
    next
      case both
      then have "R (us ! i) (vs ! j)" using 3(6) list_all2_lengthD [OF 3(6)] by (simp add: list_all2_append)
      then show ?thesis using False 3(7-9) by simp
    qed
  qed
qed (auto dest!: list_all2_lengthD list_emb_length)

section \<open>The result of \<open>diff_compute\<close>\<close>

definition used_opts :: "diffopts option \<Rightarrow> diffopts" where
  "used_opts opts = (case opts of None \<Rightarrow> default_opts | Some op \<Rightarrow> op)"

lemma diff_compute_result:
  fixes us vs opts
  defines "norm \<equiv> line_norm (Some (used_opts opts))"
  defines "eq \<equiv> \<lambda>i j. norm (us ! i) = norm (vs ! j)"
  shows "\<exists>hs. diff_compute (file_of us) (file_of vs) opts = Some hs \<and> hunks_ok (length us) (length vs) 0 0 hs \<and>
     map norm (patched us vs 0 hs) = map norm vs \<and>
     lcs_len eq (length us) (length vs) + sum_list (map del hs) = length us"
proof (cases "us = [] \<and> vs = []")
  case True
  then show ?thesis by (simp add: diff_compute_def file_of_def)
next
  case False
  let ?o = "used_opts opts" and ?old = "file_of us" and ?new = "file_of vs" and ?R = "\<lambda>a b. norm a = norm b"
  let ?c = "lcs_table ?old ?new ?o"
  have sizes: "nlines ?old = length us" "nlines ?new = length vs" by (simp_all add: file_of_def)
  have eq: "eq_at ?old ?new ?o i j = eq i j" if "i < length us" "j < length vs" for i j
    using that by (simp add: file_of_def nth_append lines_equal_norm eq_def norm_def)
  have len: "lcs_len (eq_at ?old ?new ?o) i j = lcs_len eq i j" if "i \<le> length us" "j \<le> length vs" for i j
    by (rule lcs_len_cong [OF eq that])
  have cells: "cell_spec eq i j (?c ! (i * (nlines ?new + 1) + j))" if "i \<le> length us" "j \<le> length vs" for i j
  proof -
    have "eq_at ?old ?new ?o (i - 1) (j - 1) = eq (i - 1) (j - 1)" if "i > 0" "j > 0"
      by (rule eq) (use that \<open>i \<le> length us\<close> \<open>j \<le> length vs\<close> in linarith)+
    moreover have "lcs_len (eq_at ?old ?new ?o) i (j - 1) = lcs_len eq i (j - 1)"
      "lcs_len (eq_at ?old ?new ?o) (i - 1) j = lcs_len eq (i - 1) j" by (rule len; use that in simp)+
    ultimately have "lcs_up (eq_at ?old ?new ?o) i j = lcs_up eq i j" unfolding lcs_up_def by (cases "i > 0"; cases "j > 0") simp_all
    then show ?thesis
      using lcs_table_spec [of i ?old j ?new ?o] that sizes len [OF that] by (simp add: cell_spec_def)
  qed
  have "\<exists>w. back_loop ?old ?new ?o ?c (length us) (length vs) [] = Some ([] @ w) \<and>
      script ?R (rev w) (take (length us) us) (take (length vs) vs) \<and> kept w = lcs_len eq (length us) (length vs)"
    by (rule back_loop_script) (use cells eq in \<open>auto simp: eq_def\<close>)
  then obtain w where w: "back_loop ?old ?new ?o ?c (length us) (length vs) [] = Some w"
    "script ?R (rev w) us vs" "kept w = lcs_len eq (length us) (length vs)" by auto
  have "\<exists>hs. hunk_loop (rev w) 0 0 [] = [] @ hs \<and> hunks_ok (length us) (length vs) 0 0 hs \<and>
     list_all2 ?R (patched us vs 0 hs) (drop 0 vs) \<and> kept (rev w) + sum_list (map del hs) + 0 = length us \<and>
     (rev w = [] \<longrightarrow> hs = []) \<and> (\<forall>h hs'. rev w \<noteq> [] \<longrightarrow> hd (rev w) = (0, 0) \<longrightarrow> hs = h # hs' \<longrightarrow> 0 < rng_from (h_old h))"
    by (rule hunk_loop_script) (use w(2) in \<open>auto simp: reflp_def\<close>)
  then obtain hs where hs: "hunk_loop (rev w) 0 0 [] = hs" "hunks_ok (length us) (length vs) 0 0 hs"
     "list_all2 ?R (patched us vs 0 hs) vs" "kept w + sum_list (map del hs) = length us" by auto
  have "diff_compute ?old ?new opts = Some hs"
    using False w(1) hs(1) unfolding diff_compute_def used_opts_def [symmetric] Let_def sizes by auto
  moreover have "map norm (patched us vs 0 hs) = map norm vs"
    using hs(3) by (simp add: list_all2_conv_all_nth list_eq_iff_nth_eq)
  ultimately show ?thesis using hs w(3) by auto
qed

lemma hunks_ok_balance:
  "hunks_ok n m i j hs \<Longrightarrow> n + j + sum_list (map (\<lambda>h. rng_to (h_new h) - rng_from (h_new h)) hs) = m + i + sum_list (map del hs)"
  by (induction hs arbitrary: i j) (force simp: del_def)+

lemma hunks_ok_empty:
  assumes "hunks_ok n n 0 0 hs" "sum_list (map del hs) = 0"
  shows "hs = []"
proof (cases hs)
  case (Cons h hs')
  have "sum_list (map (\<lambda>h. rng_to (h_new h) - rng_from (h_new h)) hs) = 0"
    using hunks_ok_balance [OF assms(1)] assms(2) by simp
  then show ?thesis using Cons assms by (auto simp: del_def)
qed simp

lemma diff_compute_same: "diff_compute (file_of us) (file_of us) opts = Some []"
proof -
  let ?n = "line_norm (Some (used_opts opts))" let ?eq = "\<lambda>i j. ?n (us ! i) = ?n (us ! j)"
  have "length us \<le> lcs_len ?eq (length us) (length us)"
    by (rule lcs_len_upper [where u = us and v = us and R = "\<lambda>a b. ?n a = ?n b" and us = us and vs = us]) (auto simp: list.rel_refl)
  moreover obtain hs where hs: "diff_compute (file_of us) (file_of us) opts = Some hs" "hunks_ok (length us) (length us) 0 0 hs"
    "lcs_len ?eq (length us) (length us) + sum_list (map del hs) = length us" using diff_compute_result by blast
  ultimately have "sum_list (map del hs) = 0" by linarith
  with hs hunks_ok_empty [OF hs(2)] show ?thesis by simp
qed

text \<open>The lines between the hunks are the same on both sides.\<close>

fun gaps_same :: "'a list \<Rightarrow> 'a list \<Rightarrow> nat \<Rightarrow> nat \<Rightarrow> diffhunk list \<Rightarrow> bool" where
  "gaps_same us vs i j [] \<longleftrightarrow> drop i us = drop j vs"
| "gaps_same us vs i j (h # hs) \<longleftrightarrow> segment i (rng_from (h_old h)) us = segment j (rng_from (h_new h)) vs \<and>
     gaps_same us vs (rng_to (h_old h)) (rng_to (h_new h)) hs"

lemma segment_append: "i \<le> j \<Longrightarrow> j \<le> k \<Longrightarrow> k \<le> length xs \<Longrightarrow> segment i j xs @ segment j k xs = segment i k xs"
  using segment_drop [of i j "take k xs"] by (simp add: segment_def min_def)

lemma gaps_same_patched:
  "hunks_ok (length us) (length vs) i j hs \<Longrightarrow> patched us vs i hs = drop j vs \<Longrightarrow> gaps_same us vs i j hs"
proof (induction hs arbitrary: i j)
  case (Cons h hs)
  let ?a = "rng_from (h_old h)" and ?b = "rng_from (h_new h)" and ?c = "rng_to (h_new h)"
  have b: "j \<le> ?b" "?b \<le> ?c" "i \<le> ?a" "?a \<le> length us" "?c \<le> length vs" "?a - i = ?b - j" using Cons.prems(1) by auto
  have "drop j vs = segment j ?b vs @ segment ?b ?c vs @ drop ?c vs"
    using segment_drop [of j ?b vs] segment_drop [of ?b ?c vs] b by simp
  moreover have "length (segment i ?a us) = length (segment j ?b vs)" using b by (simp add: segment_def)
  ultimately have "segment i ?a us = segment j ?b vs" "patched us vs (rng_to (h_old h)) hs = drop ?c vs"
    using Cons.prems(2) by auto
  then show ?case using Cons by auto
qed simp

lemma line_norm_exact: "\<not> ignore_case op \<Longrightarrow> \<not> ignore_blanks op \<Longrightarrow> line_norm (Some op) = id"
  by (auto simp: line_norm_def)

lemma diff_compute_exact:
  assumes "\<not> ignore_case op" "\<not> ignore_blanks op"
  shows "\<exists>hs. diff_compute (file_of us) (file_of vs) (Some op) = Some hs \<and> hunks_ok (length us) (length vs) 0 0 hs \<and>
     gaps_same us vs 0 0 hs \<and> (hs = [] \<longleftrightarrow> us = vs)"
proof -
  have op: "used_opts (Some op) = op" by (simp add: used_opts_def)
  obtain hs where hs: "diff_compute (file_of us) (file_of vs) (Some op) = Some hs" "hunks_ok (length us) (length vs) 0 0 hs"
    "patched us vs 0 hs = vs"
    using diff_compute_result [of us vs "Some op"] unfolding op line_norm_exact [OF assms] by auto
  have "hs = [] \<longleftrightarrow> us = vs"
    using hs diff_compute_same [of us "Some op"] by auto
  with hs gaps_same_patched [of us vs 0 0 hs] show ?thesis by auto
qed

lemma diff_compute_longest:
  assumes "diff_compute (file_of us) (file_of vs) opts = Some hs"
    and "subseq u us" "subseq v vs" "map (line_norm (Some (used_opts opts))) u = map (line_norm (Some (used_opts opts))) v"
  shows "length u + sum_list (map del hs) \<le> length us"
proof -
  let ?n = "line_norm (Some (used_opts opts))" let ?eq = "\<lambda>i j. ?n (us ! i) = ?n (vs ! j)"
  have "list_all2 (\<lambda>a b. ?n a = ?n b) u v" using assms(4) by (auto simp: list_all2_conv_all_nth list_eq_iff_nth_eq)
  then have "length u \<le> lcs_len ?eq (length us) (length vs)"
    using assms(2,3) by (intro lcs_len_upper [where u = u and v = v]) auto
  then show ?thesis using diff_compute_result [of us vs opts] assms(1) by auto
qed

text \<open>
  Property C13 (the hunks are a shortest difference). For any two files and any options, \<open>diff_compute\<close> returns
  hunks that lie inside the files, in order, each of them not empty, with the same number of lines between
  two of them in both files and at least one; the first file with the hunks applied is, up to what the
  options ignore, the second file; and the lines of the first file that the hunks do not remove are a longest
  common subsequence: no two subsequences of the files that are equal up to what the options ignore are longer.
\<close>

theorem diff_compute_correct:
  "\<exists>hs. diff_compute (file_of us) (file_of vs) opts = Some hs \<and> hunks_ok (length us) (length vs) 0 0 hs \<and>
     map (line_norm (Some (used_opts opts))) (patched us vs 0 hs) = map (line_norm (Some (used_opts opts))) vs \<and>
     (\<forall>u v. subseq u us \<and> subseq v vs \<and> map (line_norm (Some (used_opts opts))) u = map (line_norm (Some (used_opts opts))) v \<longrightarrow>
       length u + sum_list (map del hs) \<le> length us)"
  using diff_compute_result diff_compute_longest by meson

theorem diff_compute_correct_witness:
  "let us = map bytes [''a'', ''b'', ''c'']; vs = map bytes [''a'', ''x'', ''c''] in
   \<exists>hs. diff_compute (file_of us) (file_of vs) None = Some hs \<and> 2 + sum_list (map del hs) \<le> 3"
proof -
  let ?us = "map bytes [''a'', ''b'', ''c'']" and ?vs = "map bytes [''a'', ''x'', ''c'']" and ?u = "map bytes [''a'', ''c'']"
  have sub: "subseq ?u ?us" "subseq ?u ?vs" by code_simp+
  obtain hs where hs: "diff_compute (file_of ?us) (file_of ?vs) None = Some hs"
    "\<forall>u v. subseq u ?us \<and> subseq v ?vs \<and> map (line_norm (Some (used_opts None))) u = map (line_norm (Some (used_opts None))) v \<longrightarrow>
       length u + sum_list (map del hs) \<le> length ?us"
    using diff_compute_correct [of ?us ?vs None] by blast
  have "length ?u + sum_list (map del hs) \<le> length ?us" using hs(2) sub by blast
  then show ?thesis using hs(1) by (simp add: Let_def)
qed

end
