(* ===== verification/Diff_Format.thy ===== *)
theory Diff_Format
  imports Diff_Compute
begin

text \<open>
  Printing a difference: the formatters of \<open>shared/libutil/diffutil.c\<close>.

  A formatter gives the bytes it writes, or \<open>None\<close> if it reads behind the array of lines. A difference of two
  positions wraps around at 64 bits.
\<close>

section \<open>Definitions\<close>

text \<open>Parts written one after the other.\<close>

definition cat :: "byte list option list \<Rightarrow> byte list option" where
  "cat parts = (if None \<in> set parts then None else Some (concat (map the parts)))"

definition size_sub :: "nat \<Rightarrow> nat \<Rightarrow> nat" where
  "size_sub a b = (if b \<le> a then a - b else 2 ^ 64 - (b - a))"

definition print_range :: "nat \<Rightarrow> nat \<Rightarrow> byte list" where
  "print_range fr to = (if size_sub to fr \<le> 1 then dec (fr + 1) else dec (fr + 1) @ bytes '','' @ dec to)"

definition print_lines :: "difffile \<Rightarrow> nat \<Rightarrow> nat \<Rightarrow> byte list \<Rightarrow> byte list option" where
  "print_lines f fr to mark = cat (map (\<lambda>i. map_option (\<lambda>l. mark @ l @ [0x0a]) (line_at f i)) [fr..<to])"

definition hunk_op :: "diffhunk \<Rightarrow> byte list" where
  "hunk_op h =
     (let oldn = size_sub (rng_to (h_old h)) (rng_from (h_old h)); newn = size_sub (rng_to (h_new h)) (rng_from (h_new h))
      in if oldn = 0 then bytes ''a'' else if newn = 0 then bytes ''d'' else bytes ''c'')"

definition normal_hunk :: "difffile \<Rightarrow> difffile \<Rightarrow> diffhunk \<Rightarrow> byte list option" where
  "normal_hunk old new h =
     (let oldn = size_sub (rng_to (h_old h)) (rng_from (h_old h)); newn = size_sub (rng_to (h_new h)) (rng_from (h_new h));
          removed = print_lines old (rng_from (h_old h)) (rng_to (h_old h)) (bytes ''<'');
          added = print_lines new (rng_from (h_new h)) (rng_to (h_new h)) (bytes ''>'')
      in cat ([Some (print_range (rng_from (h_old h)) (rng_to (h_old h)) @ hunk_op h @
               print_range (rng_from (h_new h)) (rng_to (h_new h)) @ [0x0a])] @
           (if oldn \<noteq> 0 \<and> newn \<noteq> 0 then [removed, Some (bytes ''---'' @ [0x0a]), added]
            else if oldn \<noteq> 0 then [removed] else [added])))"

definition diff_normal :: "diffhunk list \<Rightarrow> difffile \<Rightarrow> difffile \<Rightarrow> byte list option" where
  "diff_normal hunks old new = cat (map (normal_hunk old new) hunks)"

text \<open>The lines before and behind a hunk that are printed with it.\<close>

definition ctx_from :: "nat \<Rightarrow> diffrange \<Rightarrow> nat" where
  "ctx_from ctx r = (if rng_from r < ctx then 0 else rng_from r - ctx)"

definition ctx_to :: "nat \<Rightarrow> difffile \<Rightarrow> diffrange \<Rightarrow> nat" where
  "ctx_to ctx f r = (if rng_to r + ctx > nlines f then nlines f else rng_to r + ctx)"

definition emit_unified_hunk :: "difffile \<Rightarrow> difffile \<Rightarrow> nat \<Rightarrow> diffhunk \<Rightarrow> byte list option" where
  "emit_unified_hunk old new ctx h =
     (let oldfrom = ctx_from ctx (h_old h); oldto = ctx_to ctx old (h_old h);
          newfrom = ctx_from ctx (h_new h); newto = ctx_to ctx new (h_new h);
          head =
            (if size_sub oldto oldfrom \<le> 1 then
               bytes ''@@ -'' @ dec (oldfrom + 1) @ bytes '' +'' @ dec (newfrom + 1) @ bytes '','' @ dec (size_sub newto newfrom)
             else if size_sub newto newfrom \<le> 1 then
               bytes ''@@ -'' @ dec (oldfrom + 1) @ bytes '','' @ dec (size_sub oldto oldfrom) @ bytes '' +'' @ dec (newfrom + 1)
             else
               bytes ''@@ -'' @ dec (oldfrom + 1) @ bytes '','' @ dec (size_sub oldto oldfrom) @
               bytes '' +'' @ dec (newfrom + 1) @ bytes '','' @ dec (size_sub newto newfrom))
      in cat [Some (head @ bytes '' @@'' @ [0x0a]),
           print_lines old oldfrom (rng_from (h_old h)) (bytes '' ''),
           print_lines old (rng_from (h_old h)) (rng_to (h_old h)) (bytes ''-''),
           print_lines new (rng_from (h_new h)) (rng_to (h_new h)) (bytes ''+''),
           print_lines old (rng_to (h_old h)) oldto (bytes '' '')])"

definition label_line :: "string \<Rightarrow> byte list option \<Rightarrow> byte list" where
  "label_line pre label = (case label of None \<Rightarrow> [] | Some l \<Rightarrow> bytes pre @ l @ [0x0a])"

definition format_unified ::
  "diffhunk list \<Rightarrow> difffile \<Rightarrow> difffile \<Rightarrow> byte list option \<Rightarrow> byte list option \<Rightarrow> nat \<Rightarrow> byte list option" where
  "format_unified hunks old new oldlabel newlabel ctx =
     cat (Some (label_line ''--- '' oldlabel @ label_line ''+++ '' newlabel) # map (emit_unified_hunk old new ctx) hunks)"

definition context_side :: "difffile \<Rightarrow> nat \<Rightarrow> diffrange \<Rightarrow> string \<Rightarrow> string \<Rightarrow> string \<Rightarrow> byte list option" where
  "context_side f ctx r open_mark close_mark mark =
     (let fr = ctx_from ctx r; to = ctx_to ctx f r in
      cat [Some (bytes open_mark @ (if size_sub to fr \<le> 1 then dec (fr + 1) else dec (fr + 1) @ bytes '','' @ dec (size_sub to fr)) @
             bytes close_mark @ [0x0a]),
        print_lines f fr (rng_from r) (bytes '' ''), print_lines f (rng_from r) (rng_to r) (bytes mark),
        print_lines f (rng_to r) to (bytes '' '')])"

definition emit_context_hunk :: "difffile \<Rightarrow> difffile \<Rightarrow> nat \<Rightarrow> diffhunk \<Rightarrow> byte list option" where
  "emit_context_hunk old new ctx h =
     cat [Some (bytes ''***************'' @ [0x0a]), context_side old ctx (h_old h) ''*** '' '' ****'' ''-'',
       context_side new ctx (h_new h) ''--- '' '' ----'' ''+'']"

definition format_context ::
  "diffhunk list \<Rightarrow> difffile \<Rightarrow> difffile \<Rightarrow> byte list option \<Rightarrow> byte list option \<Rightarrow> nat \<Rightarrow> byte list option" where
  "format_context hunks old new oldlabel newlabel ctx =
     cat (Some (label_line ''*** '' oldlabel @ label_line ''--- '' newlabel) # map (emit_context_hunk old new ctx) hunks)"

definition ed_line :: "byte list \<Rightarrow> byte list" where
  "ed_line l = (if l = bytes ''.'' then bytes ''..'' else if length l = 0 then bytes ''.'' else l) @ [0x0a]"

definition ed_hunk :: "difffile \<Rightarrow> diffhunk \<Rightarrow> byte list option" where
  "ed_hunk new h =
     cat ([Some (print_range (rng_from (h_old h)) (rng_to (h_old h)) @ hunk_op h @ [0x0a])] @
       (if hunk_op h = bytes ''a'' \<or> hunk_op h = bytes ''c'' then
          map (\<lambda>j. map_option ed_line (line_at new j)) [rng_from (h_new h)..<rng_to (h_new h)] @ [Some (bytes ''.'' @ [0x0a])]
        else []))"

definition diff_ed :: "diffhunk list \<Rightarrow> difffile \<Rightarrow> byte list option" where
  "diff_ed hunks new = cat (map (ed_hunk new) hunks)"

definition diff_format ::
  "diffhunk list \<Rightarrow> difffile \<Rightarrow> difffile \<Rightarrow> byte list option \<Rightarrow> byte list option \<Rightarrow> diffopts option \<Rightarrow> (byte list \<times> int) option" where
  "diff_format hunks old new oldlabel newlabel opts =
     (let opts = (case opts of None \<Rightarrow> default_opts | Some op \<Rightarrow> op);
          ctx = (if o_context opts \<noteq> 0 then o_context opts else 3)
      in case o_format opts of
           DIFF_NORMAL \<Rightarrow> map_option (\<lambda>s. (s, 0)) (diff_normal hunks old new)
         | DIFF_UNIFIED \<Rightarrow> map_option (\<lambda>s. (s, 0)) (format_unified hunks old new oldlabel newlabel ctx)
         | DIFF_CONTEXT \<Rightarrow> map_option (\<lambda>s. (s, 0)) (format_context hunks old new oldlabel newlabel ctx)
         | DIFF_ED \<Rightarrow> map_option (\<lambda>s. (s, 0)) (diff_ed hunks new)
         | DIFF_RCSED \<Rightarrow> map_option (\<lambda>s. (s, 0)) (diff_ed hunks new)
         | DIFF_BRIEF \<Rightarrow> Some ([], if length hunks > 0 then 1 else 0))"

section \<open>Reading inside the files\<close>

lemma cat_Some: "cat (map Some parts) = Some (concat parts)"
  by (simp add: cat_def comp_def)

lemma cat_Cons: "cat (p # ps) = (case p of None \<Rightarrow> None | Some s \<Rightarrow> map_option ((@) s) (cat ps))"
  by (auto simp: cat_def split: option.split)

lemma cat_Nil [simp]: "cat [] = Some []"
  by (simp add: cat_def)

lemma cat_append: "cat (ps @ qs) = (case cat ps of None \<Rightarrow> None | Some s \<Rightarrow> map_option ((@) s) (cat qs))"
  by (auto simp: cat_def)

lemma line_at_file: "i < length ls \<Longrightarrow> line_at (file_of ls) i = Some (ls ! i)"
  by (simp add: line_at_def file_of_def nth_append)

lemma map_nth_segment: "to \<le> length ls \<Longrightarrow> map (\<lambda>i. g (ls ! i)) [fr..<to] = map g (segment fr to ls)"
  by (auto intro!: nth_equalityI simp: segment_def)

lemma print_lines_file:
  assumes "to \<le> length ls"
  shows "print_lines (file_of ls) fr to mark = Some (concat (map (\<lambda>l. mark @ l @ [0x0a]) (segment fr to ls)))"
proof -
  have "map (\<lambda>i. map_option (\<lambda>l. mark @ l @ [0x0a]) (line_at (file_of ls) i)) [fr..<to] =
      map Some (map (\<lambda>i. mark @ ls ! i @ [0x0a]) [fr..<to])"
    using assms by (auto simp: line_at_file)
  then show ?thesis
    unfolding print_lines_def using map_nth_segment [OF assms, of "\<lambda>l. mark @ l @ [0x0a]" fr] by (simp only: cat_Some)
qed

lemma hunks_ok_bounds:
  "hunks_ok n m i j hs \<Longrightarrow> h \<in> set hs \<Longrightarrow>
     rng_from (h_old h) \<le> rng_to (h_old h) \<and> rng_to (h_old h) \<le> n \<and> rng_from (h_new h) \<le> rng_to (h_new h) \<and> rng_to (h_new h) \<le> m"
  by (induction hs arbitrary: i j) auto

lemma cat_returns: "(\<forall>p \<in> set ps. p \<noteq> None) \<Longrightarrow> cat ps \<noteq> None"
  by (auto simp: cat_def)

lemma print_lines_returns: "to \<le> length ls \<Longrightarrow> print_lines (file_of ls) fr to mark \<noteq> None"
  by (simp add: print_lines_file)

lemma ctx_to_bound: "ctx_to ctx (file_of ls) r \<le> length ls"
  by (simp add: ctx_to_def file_of_def)

text \<open>
  Whatever the format, the labels and the number of lines
  of context, printing the hunks \<open>diff_compute\<close> found reads only lines that the files have.
\<close>

lemma diff_format_safe:
  assumes "diff_compute (file_of us) (file_of vs) opts' = Some hs"
  shows "diff_format hs (file_of us) (file_of vs) oldlabel newlabel opts \<noteq> None"
proof -
  have "hunks_ok (length us) (length vs) 0 0 hs" using diff_compute_result [of us vs opts'] assms by auto
  note b = hunks_ok_bounds [OF this]
  have "h \<in> set hs \<Longrightarrow> normal_hunk (file_of us) (file_of vs) h \<noteq> None" for h
    unfolding normal_hunk_def Let_def by (rule cat_returns) (use b [of h] in \<open>auto simp: print_lines_file\<close>)
  moreover have "h \<in> set hs \<Longrightarrow> emit_unified_hunk (file_of us) (file_of vs) ctx h \<noteq> None" for h ctx
    unfolding emit_unified_hunk_def Let_def by (rule cat_returns) (use b [of h] ctx_to_bound in \<open>auto simp: print_lines_file\<close>)
  moreover have "rng_from r \<le> rng_to r \<Longrightarrow> rng_to r \<le> length ls \<Longrightarrow> context_side (file_of ls) ctx r p q m \<noteq> None" for r ls ctx p q m
    unfolding context_side_def Let_def by (rule cat_returns) (use ctx_to_bound in \<open>auto simp: print_lines_file\<close>)
  then have "h \<in> set hs \<Longrightarrow> emit_context_hunk (file_of us) (file_of vs) ctx h \<noteq> None" for h ctx
    unfolding emit_context_hunk_def by (intro cat_returns) (use b [of h] in auto)
  moreover have "h \<in> set hs \<Longrightarrow> ed_hunk (file_of vs) h \<noteq> None" for h
    unfolding ed_hunk_def by (rule cat_returns) (use b [of h] in \<open>auto simp: line_at_file\<close>)
  ultimately have "diff_normal hs (file_of us) (file_of vs) \<noteq> None" "format_unified hs (file_of us) (file_of vs) oldlabel newlabel ctx \<noteq> None"
    "format_context hs (file_of us) (file_of vs) oldlabel newlabel ctx \<noteq> None" "diff_ed hs (file_of vs) \<noteq> None" for ctx
    unfolding diff_normal_def format_unified_def format_context_def diff_ed_def by (intro cat_returns; auto)+
  then show ?thesis
    unfolding diff_format_def used_opts_def [symmetric] Let_def by (cases "o_format (used_opts opts)") auto
qed

section \<open>The sides of a unified hunk\<close>

lemma segment_suffix:
  assumes "segment a b xs = segment c d ys" "b - a = d - c" "k \<le> b - a" "a \<le> b" "c \<le> d"
  shows "segment (b - k) b xs = segment (d - k) d ys"
proof -
  have "b - a - k + a = b - k" "b - a - k + c = d - k" using assms(2-5) by linarith+
  then have "segment (b - k) b xs = drop (b - a - k) (segment a b xs)" "segment (d - k) d ys = drop (b - a - k) (segment c d ys)"
    by (simp_all only: segment_def drop_drop)
  then show ?thesis using assms(1) by simp
qed

lemma segment_prefix:
  assumes "segment a b xs = segment c d ys" "b - a = d - c" "k \<le> b - a"
  shows "segment a (a + k) xs = segment c (c + k) ys"
proof -
  have "segment a (a + k) xs = take k (segment a b xs)" "segment c (c + k) ys = take k (segment c d ys)"
    using assms(2,3) by (simp_all add: segment_def drop_take)
  then show ?thesis using assms(1) by simp
qed

text \<open>Where the lines before a hunk start.\<close>

definition ends :: "nat \<Rightarrow> nat \<Rightarrow> diffhunk list \<Rightarrow> nat \<times> nat" where
  "ends i j hs = (if hs = [] then (i, j) else (rng_to (h_old (last hs)), rng_to (h_new (last hs))))"

lemma hunks_split:
  "hunks_ok n m i j (hs @ hs') \<Longrightarrow> hunks_ok n m (fst (ends i j hs)) (snd (ends i j hs)) hs'"
  "gaps_same us vs i j (hs @ hs') \<Longrightarrow> gaps_same us vs (fst (ends i j hs)) (snd (ends i j hs)) hs'"
  by (induction hs arbitrary: i j) (auto simp: ends_def split: if_splits)

lemma context_before:
  assumes "hunks_ok n m p q (h # hs)" "gaps_same us vs p q (h # hs)" "p = 0 \<and> q = 0 \<or> p + ctx \<le> rng_from (h_old h)"
  shows "segment (ctx_from ctx (h_old h)) (rng_from (h_old h)) us = segment (ctx_from ctx (h_new h)) (rng_from (h_new h)) vs"
proof -
  let ?a = "rng_from (h_old h)" and ?b = "rng_from (h_new h)"
  have g: "segment p ?a us = segment q ?b vs" "p \<le> ?a" "?a + q = ?b + p" using assms(1,2) by auto
  then have d: "?a - p = ?b - q" "q \<le> ?b" by auto
  show ?thesis
  proof (cases "?a < ctx")
    case True
    then have "p = 0" "q = 0" "?b < ctx" using assms(3) g by auto
    then show ?thesis using g True by (simp add: ctx_from_def)
  next
    case False
    then have "ctx \<le> ?a - p" "\<not> ?b < ctx" using assms(3) g by auto
    then show ?thesis using segment_suffix [OF g(1) d(1) _ g(2) d(2), of ctx] False by (simp add: ctx_from_def)
  qed
qed

lemma context_behind:
  assumes "hunks_ok (length us) (length vs) (rng_to (h_old h)) (rng_to (h_new h)) hs" "gaps_same us vs (rng_to (h_old h)) (rng_to (h_new h)) hs"
    "case hs of [] \<Rightarrow> True | g # _ \<Rightarrow> rng_to (h_old h) + ctx \<le> rng_from (h_old g)"
  shows "segment (rng_to (h_old h)) (ctx_to ctx (file_of us) (h_old h)) us = segment (rng_to (h_new h)) (ctx_to ctx (file_of vs) (h_new h)) vs"
proof -
  let ?a = "rng_to (h_old h)" and ?b = "rng_to (h_new h)" and ?n = "length us" and ?m = "length vs"
  have size: "nlines (file_of us) = ?n" "nlines (file_of vs) = ?m" by (simp_all add: file_of_def)
  show ?thesis
  proof (cases hs)
    case Nil
    then have b: "?n - ?a = ?m - ?b" "?a \<le> ?n" "?b \<le> ?m" "segment ?a ?n us = segment ?b ?m vs" using assms(1,2) by (auto simp: segment_def)
    have "ctx_to ctx (file_of us) (h_old h) = ?a + min ctx (?n - ?a)" "ctx_to ctx (file_of vs) (h_new h) = ?b + min ctx (?n - ?a)"
      using b by (auto simp: ctx_to_def size)
    then show ?thesis using segment_prefix [OF b(4,1), of "min ctx (?n - ?a)"] by simp
  next
    case (Cons g hs')
    let ?c = "rng_from (h_old g)" and ?d = "rng_from (h_new g)"
    have b: "?c - ?a = ?d - ?b" "?a + ctx \<le> ?c" "?c \<le> ?n" "?d \<le> ?m" "segment ?a ?c us = segment ?b ?d vs"
      using assms Cons by auto
    have "?c + ?b = ?d + ?a" using assms(1) Cons by simp
    then have "?b + ctx \<le> ?m" using b(2,4) by linarith
    then have "ctx_to ctx (file_of us) (h_old h) = ?a + ctx" "ctx_to ctx (file_of vs) (h_new h) = ?b + ctx"
      using b by (auto simp: ctx_to_def size)
    then show ?thesis using segment_prefix [OF b(5,1), of ctx] b(2) by simp
  qed
qed

text \<open>The marked lines of a unified hunk, and the two files they stand for.\<close>

definition unified_body :: "byte list list \<Rightarrow> byte list list \<Rightarrow> nat \<Rightarrow> diffhunk \<Rightarrow> (byte \<times> byte list) list" where
  "unified_body us vs ctx h =
     map (Pair 0x20) (segment (ctx_from ctx (h_old h)) (rng_from (h_old h)) us) @
     map (Pair 0x2d) (segment (rng_from (h_old h)) (rng_to (h_old h)) us) @
     map (Pair 0x2b) (segment (rng_from (h_new h)) (rng_to (h_new h)) vs) @
     map (Pair 0x20) (segment (rng_to (h_old h)) (ctx_to ctx (file_of us) (h_old h)) us)"

definition old_side :: "(byte \<times> byte list) list \<Rightarrow> byte list list" where
  "old_side body = map snd (filter (\<lambda>(c, l). c \<noteq> 0x2b) body)"

definition new_side :: "(byte \<times> byte list) list \<Rightarrow> byte list list" where
  "new_side body = map snd (filter (\<lambda>(c, l). c \<noteq> 0x2d) body)"

lemma side_simps [simp]:
  "old_side (map (Pair c) ls) = (if c = 0x2b then [] else ls)" "old_side (a @ b) = old_side a @ old_side b"
  "new_side (map (Pair c) ls) = (if c = 0x2d then [] else ls)" "new_side (a @ b) = new_side a @ new_side b"
  by (induction ls) (auto simp: old_side_def new_side_def)

text \<open>The first line of a unified hunk; one of its numbers of lines is left out if it is at most one.\<close>

definition announced :: "bool \<Rightarrow> nat \<Rightarrow> nat \<Rightarrow> byte list" where
  "announced short first n = dec first @ (if short then [] else bytes '','' @ dec n)"

definition unified_head :: "nat \<Rightarrow> nat \<Rightarrow> nat \<Rightarrow> nat \<Rightarrow> byte list" where
  "unified_head first n first' n' =
     bytes ''@@ -'' @ announced (n \<le> 1) first n @ bytes '' +'' @ announced (1 < n \<and> n' \<le> 1) first' n' @ bytes '' @@'' @ [0x0a]"

lemma emit_unified_body:
  assumes "rng_from (h_old h) \<le> rng_to (h_old h)" "rng_to (h_old h) \<le> length us" "rng_from (h_new h) \<le> rng_to (h_new h)" "rng_to (h_new h) \<le> length vs"
  shows "emit_unified_hunk (file_of us) (file_of vs) ctx h =
     Some (unified_head (ctx_from ctx (h_old h) + 1) (ctx_to ctx (file_of us) (h_old h) - ctx_from ctx (h_old h))
         (ctx_from ctx (h_new h) + 1) (ctx_to ctx (file_of vs) (h_new h) - ctx_from ctx (h_new h)) @
       concat (map (\<lambda>(c, l). c # l @ [0x0a]) (unified_body us vs ctx h)))"
proof -
  have le: "ctx_from ctx r \<le> ctx_to ctx (file_of ls) r" if "rng_from r \<le> rng_to r" "rng_to r \<le> length ls" for r ls
    using that by (auto simp: ctx_from_def ctx_to_def file_of_def)
  have "size_sub (ctx_to ctx (file_of us) (h_old h)) (ctx_from ctx (h_old h)) = ctx_to ctx (file_of us) (h_old h) - ctx_from ctx (h_old h)"
    "size_sub (ctx_to ctx (file_of vs) (h_new h)) (ctx_from ctx (h_new h)) = ctx_to ctx (file_of vs) (h_new h) - ctx_from ctx (h_new h)"
    using le assms by (simp_all add: size_sub_def)
  then show ?thesis
    using assms ctx_to_bound [of ctx us "h_old h"]
    by (simp add: emit_unified_hunk_def Let_def cat_Cons print_lines_file unified_body_def unified_head_def announced_def bytes_def comp_def)
qed



end
