(* ===== verification/Cmd_Diff3.thy ===== *)
theory Cmd_Diff3
  imports Diff_Format Aruu_Arg "HOL-Library.Multiset"
begin

text \<open>
  The command \<open>diff3\<close>, \<open>cmd/pseudo/diff3.c\<close>, built with \<open>FEATURE_DIFF3_MERGE\<close>: three files are compared with the
  functions of \<open>diffutil.c\<close>, the second file being the common ancestor.

  The formatters give what they write; a read behind the array of lines is \<open>None\<close>. Positions are natural
  numbers, and their differences wrap around at 64 bits. Messages are left out.
\<close>

section \<open>Definitions\<close>

datatype hunk_kind = HUNK_NONE | HUNK_TYPE1 | HUNK_TYPE2 | HUNK_TYPE3

record three_hunk =
  kind :: hunk_kind
  r1 :: diffrange
  r2 :: diffrange
  r3 :: diffrange
  dup :: bool

definition convert_hunks :: "diffhunk list \<Rightarrow> diffhunk list" where
  "convert_hunks inp = map (\<lambda>h.
     \<lparr>h_old = \<lparr>rng_from = rng_from (h_old h), rng_to = rng_to (h_old h)\<rparr>,
      h_new = \<lparr>rng_from = rng_from (h_new h), rng_to = rng_to (h_new h)\<rparr>\<rparr>) inp"

fun same_loop :: "difffile \<Rightarrow> nat \<Rightarrow> difffile \<Rightarrow> nat \<Rightarrow> nat \<Rightarrow> bool option" where
  "same_loop a i b j 0 = Some True"
| "same_loop a i b j (Suc n) =
     (case line_at a i of None \<Rightarrow> None
      | Some x \<Rightarrow>
          (case line_at b j of None \<Rightarrow> None
           | Some y \<Rightarrow> if length x \<noteq> length y then Some False else if x \<noteq> y then Some False else same_loop a (i + 1) b (j + 1) n))"

definition region_same :: "difffile \<Rightarrow> diffrange \<Rightarrow> difffile \<Rightarrow> diffrange \<Rightarrow> bool option" where
  "region_same a ra b rb =
     (if size_sub (rng_to ra) (rng_from ra) \<noteq> size_sub (rng_to rb) (rng_from rb) then Some False
      else same_loop a (rng_from ra) b (rng_from rb) (size_sub (rng_to ra) (rng_from ra)))"

text \<open>The regions of a hunk of the third kind, in which both sides changed the ancestor.\<close>

definition overlap_hunk :: "difffile \<Rightarrow> difffile \<Rightarrow> diffhunk \<Rightarrow> diffhunk \<Rightarrow> three_hunk option" where
  "overlap_hunk f1 f3 d13 d23 =
     (let a1 = rng_from (h_new d13); a2 = rng_to (h_new d13); b1 = rng_from (h_old d23); b2 = rng_to (h_old d23);
          extra_pre = (if a1 > b1 then a1 - b1 else b1 - a1);
          extra_post = (if a2 > b2 then a2 - b2 else b2 - a2);
          r1 = (if a1 \<ge> b1 then
                  \<lparr>rng_from = size_sub (rng_from (h_old d13)) extra_pre, rng_to = rng_to (h_old d13) + extra_post\<rparr>
                else \<lparr>rng_from = rng_from (h_old d13), rng_to = rng_to (h_old d13) + (extra_pre + extra_post)\<rparr>);
          r3 = (if b1 \<ge> a1 then
                  \<lparr>rng_from = size_sub (rng_from (h_new d23)) extra_pre, rng_to = rng_to (h_new d23) + extra_post\<rparr>
                else \<lparr>rng_from = rng_from (h_new d23), rng_to = rng_to (h_new d23) + (extra_pre + extra_post)\<rparr>)
      in map_option (\<lambda>d.
           \<lparr>kind = HUNK_TYPE3, r1 = r1, r2 = \<lparr>rng_from = (if a1 < b1 then a1 else b1), rng_to = (if a2 > b2 then a2 else b2)\<rparr>,
            r3 = r3, dup = d\<rparr>)
         (region_same f1 r1 f3 r3))"

function merge_loop ::
  "difffile \<Rightarrow> difffile \<Rightarrow> diffhunk list \<Rightarrow> diffhunk list \<Rightarrow> three_hunk list \<Rightarrow> three_hunk list option" where
  "merge_loop f1 f3 d13 d23 hs =
     (if d13 \<noteq> [] \<or> d23 \<noteq> [] then
        let have1 = (d13 \<noteq> []); have2 = (d23 \<noteq> []);
            a1 = (if have1 then rng_from (h_new (hd d13)) else 0); a2 = (if have1 then rng_to (h_new (hd d13)) else 0);
            b1 = (if have2 then rng_from (h_old (hd d23)) else 0); b2 = (if have2 then rng_to (h_old (hd d23)) else 0)
        in if have1 \<and> (\<not> have2 \<or> a2 \<le> b1) then
             merge_loop f1 f3 (tl d13) d23
               (hs @ [\<lparr>kind = HUNK_TYPE1, r1 = h_old (hd d13), r2 = h_new (hd d13), r3 = h_new (hd d13), dup = False\<rparr>])
           else if have2 \<and> (\<not> have1 \<or> b2 < a1) then
             merge_loop f1 f3 d13 (tl d23)
               (hs @ [\<lparr>kind = HUNK_TYPE2, r1 = h_old (hd d23), r2 = h_old (hd d23), r3 = h_new (hd d23), dup = False\<rparr>])
           else
             case overlap_hunk f1 f3 (hd d13) (hd d23) of None \<Rightarrow> None
             | Some h \<Rightarrow> merge_loop f1 f3 (tl d13) (tl d23) (hs @ [h])
      else Some hs)"
  by pat_completeness auto
termination
  by (relation "measure (\<lambda>(f1, f3, d13, d23, hs). length d13 + length d23)") (auto simp: neq_Nil_conv)

declare merge_loop.simps [simp del]

definition merge_hunks :: "difffile \<Rightarrow> difffile \<Rightarrow> difffile \<Rightarrow> diffhunk list \<Rightarrow> diffhunk list \<Rightarrow> three_hunk list option" where
  "merge_hunks f1 f2 f3 d13 d23 = merge_loop f1 f3 d13 d23 []"

definition diff3_lines :: "difffile \<Rightarrow> nat \<Rightarrow> nat \<Rightarrow> byte list option" where
  "diff3_lines f fr to = print_lines f fr to []"

definition print_range_cmd :: "nat \<Rightarrow> nat \<Rightarrow> byte list \<Rightarrow> byte list" where
  "print_range_cmd fr to cmd =
     (if to \<le> fr then dec (if fr = 0 then 0 else fr) @ bytes ''a'' @ [0x0a]
      else dec (fr + 1) @ (if size_sub to fr > 1 then bytes '','' @ dec to else []) @ cmd @ [0x0a])"

definition where_line :: "string \<Rightarrow> diffrange \<Rightarrow> string \<Rightarrow> byte list" where
  "where_line file r cmd =
     bytes file @ dec (rng_from r + 1) @ (if size_sub (rng_to r) (rng_from r) > 1 then bytes '','' @ dec (rng_to r) else []) @
     bytes cmd @ [0x0a]"

definition diff3_normal_hunk :: "difffile \<Rightarrow> difffile \<Rightarrow> three_hunk \<Rightarrow> byte list option" where
  "diff3_normal_hunk f1 f3 h =
     (let tag = (case kind h of HUNK_TYPE1 \<Rightarrow> ''1'' | HUNK_TYPE2 \<Rightarrow> ''2'' | HUNK_TYPE3 \<Rightarrow> if dup h then ''3'' else '''' | HUNK_NONE \<Rightarrow> '''')
      in cat (Some (bytes ''===='' @ bytes tag @ [0x0a]) #
           (case kind h of
              HUNK_TYPE1 \<Rightarrow> [Some (where_line ''1:'' (r1 h) ''a'' @ where_line ''3:'' (r3 h) ''a''),
                diff3_lines f1 (rng_from (r1 h)) (rng_to (r1 h))]
            | HUNK_TYPE2 \<Rightarrow> [Some (where_line ''2:'' (r2 h) ''a'' @ where_line ''3:'' (r3 h) ''a''),
                diff3_lines f3 (rng_from (r3 h)) (rng_to (r3 h))]
            | _ \<Rightarrow> [Some (where_line ''1:'' (r1 h) ''c'' @ where_line ''2:'' (r2 h) ''c'' @ where_line ''3:'' (r3 h) ''c''),
                diff3_lines f1 (rng_from (r1 h)) (rng_to (r1 h)), diff3_lines f3 (rng_from (r3 h)) (rng_to (r3 h))])))"

definition diff3_normal :: "three_hunk list \<Rightarrow> difffile \<Rightarrow> difffile \<Rightarrow> byte list option" where
  "diff3_normal hs f1 f3 = cat (map (diff3_normal_hunk f1 f3) hs)"

definition diff3_ed_hunk :: "bool \<Rightarrow> bool \<Rightarrow> difffile \<Rightarrow> difffile \<Rightarrow> three_hunk \<Rightarrow> byte list option" where
  "diff3_ed_hunk overlap_only show_all f2 f3 h =
     (if kind h = HUNK_TYPE1 then
        if rng_to (r1 h) = rng_from (r1 h) then
          cat [Some (print_range_cmd (rng_from (r2 h)) (rng_from (r2 h)) (bytes ''a'')),
            diff3_lines f2 (rng_from (r2 h)) (rng_from (r2 h)), Some (bytes ''.'' @ [0x0a])]
        else
          cat [Some (print_range_cmd (rng_from (r2 h)) (rng_to (r2 h)) (bytes ''c'')),
            diff3_lines f2 (rng_from (r1 h)) (rng_to (r1 h)), Some (bytes ''.'' @ [0x0a])]
      else if kind h = HUNK_TYPE2 then
        cat [Some (print_range_cmd (rng_from (r2 h)) (rng_to (r2 h)) (bytes ''c'')),
          diff3_lines f3 (rng_from (r3 h)) (rng_to (r3 h)), Some (bytes ''.'' @ [0x0a])]
      else if dup h then
        cat [Some (print_range_cmd (rng_from (r2 h)) (rng_to (r2 h)) (bytes ''c'')),
          diff3_lines f2 (rng_from (r1 h)) (rng_to (r1 h)), Some (bytes ''.'' @ [0x0a])]
      else if overlap_only then Some []
      else if show_all then
        cat [Some (print_range_cmd (rng_from (r2 h)) (rng_to (r2 h)) (bytes ''c'')),
          diff3_lines f3 (rng_from (r3 h)) (rng_to (r3 h)), Some (bytes ''.'' @ [0x0a])]
      else Some [])"

definition diff3_ed :: "three_hunk list \<Rightarrow> bool \<Rightarrow> bool \<Rightarrow> difffile \<Rightarrow> difffile \<Rightarrow> byte list option" where
  "diff3_ed hs overlap_only show_all f2 f3 = cat (map (diff3_ed_hunk overlap_only show_all f2 f3) (rev hs))"

definition merge_hunk_text :: "byte list list \<Rightarrow> difffile \<Rightarrow> difffile \<Rightarrow> difffile \<Rightarrow> three_hunk \<Rightarrow> byte list option" where
  "merge_hunk_text labels f1 f2 f3 h =
     (let l1 = (if length labels \<ge> 1 then labels ! 0 else bytes ''file1'');
          l2 = (if length labels \<ge> 2 then labels ! 1 else bytes ''file2'');
          l3 = (if length labels \<ge> 3 then labels ! 2 else bytes ''file3'')
      in if kind h = HUNK_TYPE1 then diff3_lines f1 (rng_from (r1 h)) (rng_to (r1 h))
         else if kind h = HUNK_TYPE2 then diff3_lines f3 (rng_from (r3 h)) (rng_to (r3 h))
         else if dup h then diff3_lines f1 (rng_from (r1 h)) (rng_to (r1 h))
         else
           cat [Some (bytes ''<<<<<<< '' @ l1 @ [0x0a]), diff3_lines f1 (rng_from (r1 h)) (rng_to (r1 h)),
             Some (bytes ''||||||| '' @ l2 @ [0x0a]), diff3_lines f2 (rng_from (r2 h)) (rng_to (r2 h)),
             Some (bytes ''======='' @ [0x0a]), diff3_lines f3 (rng_from (r3 h)) (rng_to (r3 h)),
             Some (bytes ''>>>>>>> '' @ l3 @ [0x0a])])"

fun merge_text :: "byte list list \<Rightarrow> difffile \<Rightarrow> difffile \<Rightarrow> difffile \<Rightarrow> nat \<Rightarrow> three_hunk list \<Rightarrow> byte list option" where
  "merge_text labels f1 f2 f3 cursor [] = diff3_lines f2 cursor (nlines f2)"
| "merge_text labels f1 f2 f3 cursor (h # hs) =
     cat [diff3_lines f2 cursor (rng_from (r2 h)), merge_hunk_text labels f1 f2 f3 h,
       merge_text labels f1 f2 f3 (rng_to (r2 h)) hs]"

definition format_merge :: "byte list list \<Rightarrow> three_hunk list \<Rightarrow> difffile \<Rightarrow> difffile \<Rightarrow> difffile \<Rightarrow> byte list option" where
  "format_merge labels hs f1 f2 f3 = merge_text labels f1 f2 f3 0 hs"

definition diff3_switch :: "byte \<Rightarrow> arg_kind" where
  "diff3_switch c = (if c \<in> set (bytes ''3aAeEimTxX'') then Flag else if c = 0x4c then Earg else Default)"

definition diff3_opts :: "bool \<Rightarrow> diffopts" where
  "diff3_opts iflag = \<lparr>o_format = DIFF_NORMAL, o_context = 3, ignore_case = iflag, ignore_blanks = False,
     strip_cr = False, treat_binary = False\<rparr>"

text \<open>What follows the reading of the files: the output and the exit status.\<close>

definition diff3_files :: "byte set \<Rightarrow> byte list list \<Rightarrow> difffile \<Rightarrow> difffile \<Rightarrow> difffile \<Rightarrow> (byte list \<times> int) option" where
  "diff3_files opts labels f1 f2 f3 =
     (let dopts = diff3_opts (0x69 \<in> opts)
      in case (diff_compute f1 f2 (Some dopts), diff_compute f2 f3 (Some dopts)) of
           (Some raw13, Some raw23) \<Rightarrow>
             (case merge_hunks f1 f2 f3 (convert_hunks raw13) (convert_hunks raw23) of None \<Rightarrow> None
              | Some hs \<Rightarrow>
                  if length hs = 0 then Some ([], 0)
                  else if 0x6d \<in> opts then
                    map_option (\<lambda>out. (out, if \<exists>h \<in> set hs. kind h = HUNK_TYPE3 \<and> \<not> dup h then 1 else 0))
                      (format_merge labels hs f1 f2 f3)
                  else if 0x65 \<in> opts \<or> 0x45 \<in> opts then
                    map_option (\<lambda>out. (out, 1)) (diff3_ed hs (0x45 \<in> opts \<and> 0x65 \<notin> opts) False f2 f3)
                  else if 0x78 \<in> opts then map_option (\<lambda>out. (out, 1)) (diff3_ed hs True False f2 f3)
                  else if 0x58 \<in> opts then map_option (\<lambda>out. (out, 1)) (diff3_ed hs False True f2 f3)
                  else if 0x41 \<in> opts \<or> 0x33 \<in> opts then map_option (\<lambda>out. (out, 1)) (diff3_ed hs False True f2 f3)
                  else map_option (\<lambda>out. (out, 1)) (diff3_normal hs f1 f3))
         | _ \<Rightarrow> None)"

definition diff3_main ::
  "(byte list \<Rightarrow> (byte list \<times> bool) option) \<Rightarrow> byte list \<times> bool \<Rightarrow> bool \<Rightarrow> byte list list \<Rightarrow> (byte list \<times> int) option" where
  "diff3_main fs inp shut argv =
     (case arg_loop diff3_switch argv of None \<Rightarrow> Some ([], 1)
      | Some (os, argv) \<Rightarrow>
          let opts = fst ` set os; labels = List.map_filter snd os in
          if length labels > 3 \<or> length argv \<noteq> 3 then Some ([], 1)
          else
            (case diff_load fs inp (argv ! 0) of (Inl _, _) \<Rightarrow> Some ([], 2)
             | (Inr f1, inp) \<Rightarrow>
                 (case diff_load fs inp (argv ! 1) of (Inl _, _) \<Rightarrow> Some ([], 2)
                  | (Inr f2, inp) \<Rightarrow>
                      (case diff_load fs inp (argv ! 2) of (Inl _, _) \<Rightarrow> Some ([], 2)
                       | (Inr f3, inp) \<Rightarrow>
                           map_option (\<lambda>(out, ret). (out, if shut then 2 else ret)) (diff3_files opts labels f1 f2 f3)))))"

section \<open>Merging edits of the ancestor\<close>

text \<open>An edit replaces the lines between two positions; edits are applied in the order of a list.\<close>

type_synonym edit = "nat \<times> nat \<times> byte list list"

fun apply_edits :: "byte list list \<Rightarrow> nat \<Rightarrow> edit list \<Rightarrow> byte list list" where
  "apply_edits vs i [] = drop i vs"
| "apply_edits vs i ((fr, to, ls) # es) = segment i fr vs @ ls @ apply_edits vs to es"

definition left_edit :: "byte list list \<Rightarrow> diffhunk \<Rightarrow> edit" where
  "left_edit us h = (rng_from (h_new h), rng_to (h_new h), segment (rng_from (h_old h)) (rng_to (h_old h)) us)"

definition right_edit :: "byte list list \<Rightarrow> diffhunk \<Rightarrow> edit" where
  "right_edit ws h = (rng_from (h_old h), rng_to (h_old h), segment (rng_from (h_new h)) (rng_to (h_new h)) ws)"

definition left_hunk :: "diffhunk \<Rightarrow> three_hunk" where
  "left_hunk h = \<lparr>kind = HUNK_TYPE1, r1 = h_old h, r2 = h_new h, r3 = h_new h, dup = False\<rparr>"

definition right_hunk :: "diffhunk \<Rightarrow> three_hunk" where
  "right_hunk h = \<lparr>kind = HUNK_TYPE2, r1 = h_old h, r2 = h_old h, r3 = h_new h, dup = False\<rparr>"

definition unlines :: "byte list list \<Rightarrow> byte list" where
  "unlines ls = concat (map (\<lambda>l. l @ [0x0a]) ls)"

lemma unlines_append [simp]: "unlines (xs @ ys) = unlines xs @ unlines ys"
  by (simp add: unlines_def)

lemma convert_hunks_id [simp]: "convert_hunks hs = hs"
  by (auto intro!: map_idI simp: convert_hunks_def)

lemma diff3_lines_file: "to \<le> length ls \<Longrightarrow> diff3_lines (file_of ls) fr to = Some (unlines (segment fr to ls))"
  by (simp add: diff3_lines_def print_lines_file unlines_def)

lemma segment_end [simp]: "segment i (length xs) xs = drop i xs"
  by (simp add: segment_def)

definition edit_of :: "byte list list \<Rightarrow> byte list list \<Rightarrow> three_hunk \<Rightarrow> edit" where
  "edit_of us ws k = (rng_from (r2 k), rng_to (r2 k),
     if kind k = HUNK_TYPE1 then segment (rng_from (r1 k)) (rng_to (r1 k)) us else segment (rng_from (r3 k)) (rng_to (r3 k)) ws)"

lemma edit_of_hunk [simp]: "edit_of us ws (left_hunk h) = left_edit us h" "edit_of us ws (right_hunk h) = right_edit ws h"
  by (simp_all add: edit_of_def left_hunk_def right_hunk_def left_edit_def right_edit_def)

definition plain_hunk :: "nat \<Rightarrow> nat \<Rightarrow> nat \<Rightarrow> three_hunk \<Rightarrow> bool" where
  "plain_hunk n m l k \<longleftrightarrow> rng_from (r2 k) \<le> m \<and>
     (kind k = HUNK_TYPE1 \<and> rng_to (r1 k) \<le> n \<or> kind k = HUNK_TYPE2 \<and> rng_to (r3 k) \<le> l)"

lemma merge_text_edits:
  "\<forall>k \<in> set ks. plain_hunk (length us) (length vs) (length ws) k \<Longrightarrow>
   merge_text labels (file_of us) (file_of vs) (file_of ws) i ks = Some (unlines (apply_edits vs i (map (edit_of us ws) ks)))"
proof (induction ks arbitrary: i)
  case Nil
  have "nlines (file_of vs) = length vs" by (simp add: file_of_def)
  then show ?case using diff3_lines_file [of "length vs" vs i] by simp
next
  case (Cons k ks)
  then have "merge_hunk_text labels (file_of us) (file_of vs) (file_of ws) k = Some (unlines (snd (snd (edit_of us ws k))))"
    by (auto simp: merge_hunk_text_def plain_hunk_def edit_of_def diff3_lines_file)
  then show ?case
    using Cons by (simp add: plain_hunk_def cat_Cons diff3_lines_file edit_of_def)
qed

lemma hunks_ok_above:
  assumes "hunks_ok n m i j hs" "case hs of [] \<Rightarrow> True | h # _ \<Rightarrow> i < rng_from (h_old h)" "h \<in> set hs"
  shows "i < rng_from (h_old h) \<and> j < rng_from (h_new h)"
  using assms
proof (induction hs arbitrary: i j)
  case (Cons g hs)
  show ?case
  proof (cases "h = g")
    case True
    then show ?thesis using Cons.prems by simp
  next
    case False
    have "rng_to (h_old g) < rng_from (h_old h) \<and> rng_to (h_new g) < rng_from (h_new h)"
      by (rule Cons.IH) (use Cons.prems False in \<open>auto split: list.splits\<close>)
    then show ?thesis using Cons.prems(1) by simp
  qed
qed simp

definition before_left :: "diffhunk \<Rightarrow> diffhunk \<Rightarrow> bool" where
  "before_left h h' \<longleftrightarrow> rng_to (h_new h) < rng_from (h_new h')"

definition before_right :: "diffhunk \<Rightarrow> diffhunk \<Rightarrow> bool" where
  "before_right h h' \<longleftrightarrow> rng_to (h_old h) < rng_from (h_old h')"

lemma hunks_ok_sorted:
  "hunks_ok n m i j hs \<Longrightarrow> sorted_wrt before_left hs \<and> sorted_wrt before_right hs"
proof (induction hs arbitrary: i j)
  case (Cons h hs)
  then have "\<forall>h' \<in> set hs. rng_to (h_old h) < rng_from (h_old h') \<and> rng_to (h_new h) < rng_from (h_new h')"
    using hunks_ok_above [of n m "rng_to (h_old h)" "rng_to (h_new h)" hs] by simp
  then show ?case using Cons by (auto simp: before_left_def before_right_def)
qed simp

text \<open>Two changes of the ancestor are apart if there is a line between them.\<close>

definition apart :: "diffhunk \<Rightarrow> diffhunk \<Rightarrow> bool" where
  "apart h g \<longleftrightarrow> rng_to (h_new h) < rng_from (h_old g) \<or> rng_to (h_old g) < rng_from (h_new h)"

lemma merge_loop_left: "merge_loop f1 f3 d13 [] hs = Some (hs @ map left_hunk d13)"
  by (induction d13 arbitrary: hs) (simp_all add: merge_loop.simps [of f1 f3 "_ # _"] merge_loop.simps [of f1 f3 "[]"] left_hunk_def)

lemma merge_loop_right: "merge_loop f1 f3 [] d23 hs = Some (hs @ map right_hunk d23)"
  by (induction d23 arbitrary: hs) (simp_all add: merge_loop.simps [of f1 f3 "[]"] right_hunk_def)

lemma hunk_position [simp]: "r2 (left_hunk h) = h_new h" "r2 (right_hunk h) = h_old h"
  by (simp_all add: left_hunk_def right_hunk_def)

lemma before_sorted:
  "sorted_wrt before_left hs \<Longrightarrow> \<forall>h \<in> set hs. rng_from (h_new h) \<le> rng_to (h_new h) \<Longrightarrow> sorted (map (\<lambda>h. rng_from (h_new h)) hs)"
  "sorted_wrt before_right hs \<Longrightarrow> \<forall>h \<in> set hs. rng_from (h_old h) \<le> rng_to (h_old h) \<Longrightarrow> sorted (map (\<lambda>h. rng_from (h_old h)) hs)"
  by (induction hs) (force simp: before_left_def before_right_def)+

definition merged :: "diffhunk list \<Rightarrow> diffhunk list \<Rightarrow> three_hunk list \<Rightarrow> bool" where
  "merged d13 d23 ks \<longleftrightarrow> mset ks = mset (map left_hunk d13) + mset (map right_hunk d23) \<and> sorted (map (\<lambda>k. rng_from (r2 k)) ks)"

lemma merged_set: "merged d13 d23 ks \<Longrightarrow> set ks = left_hunk ` set d13 \<union> right_hunk ` set d23"
  unfolding merged_def by (metis mset_append set_append set_map mset_eq_setD)

lemma merge_loop_apart:
  assumes "sorted_wrt before_left d13" "sorted_wrt before_right d23" "\<forall>h \<in> set d13. \<forall>g \<in> set d23. apart h g"
    "\<forall>h \<in> set d13. rng_from (h_new h) \<le> rng_to (h_new h)" "\<forall>g \<in> set d23. rng_from (h_old g) \<le> rng_to (h_old g)"
  shows "\<exists>ks. merge_loop f1 f3 d13 d23 hs = Some (hs @ ks) \<and> merged d13 d23 ks"
  using assms
proof (induction d13 arbitrary: d23 hs)
  case Nil
  have "sorted (map (\<lambda>g. rng_from (h_old g)) d23)" by (rule before_sorted(2)) (use Nil in auto)
  then show ?case by (simp add: merge_loop_right merged_def comp_def)
next
  case (Cons h d13)
  note IH1 = Cons.IH
  show ?case using Cons.prems
  proof (induction d23 arbitrary: hs)
    case Nil
    have "sorted (map (\<lambda>g. rng_from (h_new g)) (h # d13))" by (rule before_sorted(1)) (use Nil in auto)
    then show ?case by (simp only: merge_loop_left merged_def) (simp add: comp_def)
  next
    case (Cons g d23)
    let ?a1 = "rng_from (h_new h)" and ?a2 = "rng_to (h_new h)" and ?b1 = "rng_from (h_old g)" and ?b2 = "rng_to (h_old g)"
    have bl: "?a2 < rng_from (h_new h')" if "h' \<in> set d13" for h' using Cons.prems(1) that by (auto simp: before_left_def)
    have br: "?b2 < rng_from (h_old g')" if "g' \<in> set d23" for g' using Cons.prems(2) that by (auto simp: before_right_def)
    have le: "?a1 \<le> ?a2" "?b1 \<le> ?b2" using Cons.prems(4,5) by simp_all
    show ?case
    proof (cases "?a2 \<le> ?b1")
      case True
      have "merge_loop f1 f3 (h # d13) (g # d23) hs = merge_loop f1 f3 d13 (g # d23) (hs @ [left_hunk h])"
        using True by (subst merge_loop.simps) (simp add: left_hunk_def)
      moreover obtain ks where ks: "merge_loop f1 f3 d13 (g # d23) (hs @ [left_hunk h]) = Some ((hs @ [left_hunk h]) @ ks)" "merged d13 (g # d23) ks"
        using IH1 [of "g # d23" "hs @ [left_hunk h]"] Cons.prems by auto
      moreover have "\<forall>k \<in> set ks. ?a1 \<le> rng_from (r2 k)"
        using merged_set [OF ks(2)] bl br le True by fastforce
      ultimately show ?thesis by (intro exI [of _ "left_hunk h # ks"]) (auto simp: merged_def)
    next
      case False
      then have lt: "?b2 < ?a1" using Cons.prems(3) le by (auto simp: apart_def)
      have "merge_loop f1 f3 (h # d13) (g # d23) hs = merge_loop f1 f3 (h # d13) d23 (hs @ [right_hunk g])"
        using False lt by (subst merge_loop.simps) (simp add: right_hunk_def)
      moreover obtain ks where ks: "merge_loop f1 f3 (h # d13) d23 (hs @ [right_hunk g]) = Some ((hs @ [right_hunk g]) @ ks)" "merged (h # d13) d23 ks"
        using Cons.IH [of "hs @ [right_hunk g]"] Cons.prems by auto
      moreover have "\<forall>k \<in> set ks. ?b1 \<le> rng_from (r2 k)"
        using merged_set [OF ks(2)] bl br le lt by fastforce
      ultimately show ?thesis by (intro exI [of _ "right_hunk g # ks"]) (auto simp: merged_def)
    qed
  qed
qed

section \<open>What \<open>diff3 -m\<close> prints\<close>

lemma apply_left_edits:
  "hunks_ok (length us) (length vs) i j hs \<Longrightarrow> gaps_same us vs i j hs \<Longrightarrow> apply_edits vs j (map (left_edit us) hs) = drop i us"
proof (induction hs arbitrary: i j)
  case (Cons h hs)
  let ?a = "rng_from (h_old h)" and ?b = "rng_to (h_old h)"
  have "segment i ?a us @ segment ?a ?b us @ drop ?b us = drop i us"
    using Cons.prems(1) segment_drop [of i ?a us] segment_drop [of ?a ?b us] by simp
  moreover have "apply_edits vs (rng_to (h_new h)) (map (left_edit us) hs) = drop ?b us"
    by (rule Cons.IH) (use Cons.prems in simp_all)
  ultimately show ?case using Cons.prems by (simp add: left_edit_def [of us h])
qed simp

lemma apply_right_edits:
  "hunks_ok (length vs) (length ws) i j hs \<Longrightarrow> gaps_same vs ws i j hs \<Longrightarrow> apply_edits vs i (map (right_edit ws) hs) = drop j ws"
proof (induction hs arbitrary: i j)
  case (Cons h hs)
  let ?a = "rng_from (h_new h)" and ?b = "rng_to (h_new h)"
  have "j \<le> ?a" using Cons.prems(1) by simp
  then have "segment j ?a ws @ segment ?a ?b ws @ drop ?b ws = drop j ws"
    using Cons.prems(1) segment_drop [of j ?a ws] segment_drop [of ?a ?b ws] by simp
  moreover have "apply_edits vs (rng_to (h_old h)) (map (right_edit ws) hs) = drop ?b ws"
    by (rule Cons.IH) (use Cons.prems in simp_all)
  ultimately show ?case using Cons.prems by (simp add: right_edit_def [of ws h])
qed simp

lemma plain_hunks:
  assumes "hunks_ok (length us) (length vs) 0 0 d13" "hunks_ok (length vs) (length ws) 0 0 d23"
    "set ks \<subseteq> left_hunk ` set d13 \<union> right_hunk ` set d23"
  shows "\<forall>k \<in> set ks. plain_hunk (length us) (length vs) (length ws) k \<and> kind k \<noteq> HUNK_TYPE3"
  using assms hunks_ok_bounds [OF assms(1)] hunks_ok_bounds [OF assms(2)]
  by (fastforce simp: plain_hunk_def left_hunk_def right_hunk_def)

text \<open>The output for hunks without overlaps.\<close>

lemma diff3_files_plain:
  assumes raw: "diff_compute (file_of us) (file_of vs) (Some (diff3_opts False)) = Some d13"
      "diff_compute (file_of vs) (file_of ws) (Some (diff3_opts False)) = Some d23"
    and m: "merge_loop (file_of us) (file_of ws) d13 d23 [] = Some ks" "set ks \<subseteq> left_hunk ` set d13 \<union> right_hunk ` set d23"
  shows "diff3_files {0x6d} labels (file_of us) (file_of vs) (file_of ws) =
     Some (if ks = [] then [] else unlines (apply_edits vs 0 (map (edit_of us ws) ks)), 0)"
proof -
  have ex: "\<not> ignore_case (diff3_opts False)" "\<not> ignore_blanks (diff3_opts False)" by (simp_all add: diff3_opts_def)
  have "hunks_ok (length us) (length vs) 0 0 d13" "hunks_ok (length vs) (length ws) 0 0 d23"
    using diff_compute_exact [OF ex] raw by (metis option.inject)+
  from plain_hunks [OF this m(2)] have p: "\<forall>k \<in> set ks. plain_hunk (length us) (length vs) (length ws) k" "\<not> (\<exists>k \<in> set ks. kind k = HUNK_TYPE3 \<and> \<not> dup k)"
    by blast+
  show ?thesis
    using p raw m(1) by (auto simp: diff3_files_def merge_hunks_def format_merge_def merge_text_edits)
qed

lemma diff3_files_one_side:
  "diff3_files {0x6d} labels (file_of us) (file_of vs) (file_of vs) = Some (if us = vs then [] else unlines us, 0)"
  "diff3_files {0x6d} labels (file_of vs) (file_of vs) (file_of ws) = Some (if ws = vs then [] else unlines ws, 0)"
proof -
  have ex: "\<not> ignore_case (diff3_opts False)" "\<not> ignore_blanks (diff3_opts False)" by (simp_all add: diff3_opts_def)
  obtain hs where hs: "diff_compute (file_of us) (file_of vs) (Some (diff3_opts False)) = Some hs" "hunks_ok (length us) (length vs) 0 0 hs"
    "gaps_same us vs 0 0 hs" "hs = [] \<longleftrightarrow> us = vs" using diff_compute_exact [OF ex] by blast
  show "diff3_files {0x6d} labels (file_of us) (file_of vs) (file_of vs) = Some (if us = vs then [] else unlines us, 0)"
    using diff3_files_plain [OF hs(1) diff_compute_same merge_loop_left, of labels] hs(4) apply_left_edits [OF hs(2,3)] by (simp add: comp_def)
  obtain hs where hs: "diff_compute (file_of vs) (file_of ws) (Some (diff3_opts False)) = Some hs" "hunks_ok (length vs) (length ws) 0 0 hs"
    "gaps_same vs ws 0 0 hs" "hs = [] \<longleftrightarrow> vs = ws" using diff_compute_exact [OF ex] by blast
  show "diff3_files {0x6d} labels (file_of vs) (file_of vs) (file_of ws) = Some (if ws = vs then [] else unlines ws, 0)"
    using diff3_files_plain [OF diff_compute_same hs(1) merge_loop_right, of labels] hs(4) apply_right_edits [OF hs(2,3)] by (simp add: comp_def eq_commute [of ws vs])
qed

lemma diff3_main_merge:
  assumes "hd a \<noteq> 0x2d" "a \<noteq> []" "b \<noteq> [0x2d]" "c \<noteq> [0x2d]" "fs a = Some (x, False)" "fs b = Some (y, False)" "fs c = Some (z, False)"
  shows "diff3_main fs inp False [bytes ''-m'', a, b, c] =
     diff3_files {0x6d} [] (file_of (text_lines x)) (file_of (text_lines y)) (file_of (text_lines z))"
proof -
  have "arg_loop diff3_switch [a, b, c] = Some ([], [a, b, c])" using assms(1) by (rule arg_loop_operand)
  then have "arg_loop diff3_switch [bytes ''-m'', a, b, c] = Some ([(0x6d, None)], [a, b, c])"
    unfolding arg_loop.simps(2) [of diff3_switch "bytes ''-m''"] by (simp add: bytes_def diff3_switch_def del: arg_loop.simps)
  moreover have "a \<noteq> [0x2d]" using assms(1) by auto
  ultimately show ?thesis
    using assms by (simp add: diff3_main_def diff_load_result List.map_filter_simps case_prod_beta' option.map_ident del: arg_loop.simps)
qed

text \<open>
  If the third file has the contents of the second, the common
  ancestor, \<open>diff3 -m\<close> prints the lines of the first file, and if the first has the contents of the second it
  prints those of the third, both without a conflict. But if the changed file has the same lines as the ancestor
  too, it prints nothing at all, because \<open>main\<close> skips the output when there is no hunk.
\<close>

lemma diff3_merge_one_side:
  assumes "hd a \<noteq> 0x2d" "a \<noteq> []" "b \<noteq> [0x2d]" "c \<noteq> [0x2d]"
    and "fs a = Some (x, False)" "fs b = Some (y, False)" "fs c = Some (z, False)"
  shows "(z = y \<longrightarrow> diff3_main fs inp False [bytes ''-m'', a, b, c] =
       Some (if text_lines x = text_lines y then [] else unlines (text_lines x), 0)) \<and>
     (x = y \<longrightarrow> diff3_main fs inp False [bytes ''-m'', a, b, c] =
       Some (if text_lines z = text_lines y then [] else unlines (text_lines z), 0))"
  using diff3_main_merge [of a b c fs x y z inp] assms by (simp add: diff3_files_one_side)

text \<open>
  Property C19 (a merge of changes that are apart). If there is a line of the common ancestor between any change
  of the first file and any change of the third, and there is a change, \<open>diff3 -m\<close> prints the ancestor with the changes of both sides
  applied in the order of their positions, and reports no conflict.
\<close>

theorem diff3_merge_apart:
  assumes "diff_compute (file_of us) (file_of vs) (Some (diff3_opts False)) = Some d13"
    and "diff_compute (file_of vs) (file_of ws) (Some (diff3_opts False)) = Some d23"
    and "\<forall>h \<in> set d13. \<forall>g \<in> set d23. apart h g" "us \<noteq> vs \<or> vs \<noteq> ws"
  shows "\<exists>es. mset es = mset (map (left_edit us) d13) + mset (map (right_edit ws) d23) \<and> sorted (map fst es) \<and>
     diff3_files {0x6d} labels (file_of us) (file_of vs) (file_of ws) = Some (unlines (apply_edits vs 0 es), 0)"
proof -
  have ex: "\<not> ignore_case (diff3_opts False)" "\<not> ignore_blanks (diff3_opts False)" by (simp_all add: diff3_opts_def)
  have ok: "hunks_ok (length us) (length vs) 0 0 d13" "hunks_ok (length vs) (length ws) 0 0 d23"
    "d13 = [] \<longleftrightarrow> us = vs" "d23 = [] \<longleftrightarrow> vs = ws"
    using diff_compute_exact [OF ex] assms(1,2) by (metis option.inject)+
  obtain ks where ks: "merge_loop (file_of us) (file_of ws) d13 d23 [] = Some ks" "merged d13 d23 ks"
    using merge_loop_apart [of d13 d23 "file_of us" "file_of ws" "[]"] hunks_ok_sorted [OF ok(1)] hunks_ok_sorted [OF ok(2)]
      hunks_ok_bounds [OF ok(1)] hunks_ok_bounds [OF ok(2)] assms(3) by auto
  have set_ks: "set ks \<subseteq> left_hunk ` set d13 \<union> right_hunk ` set d23" using merged_set [OF ks(2)] by simp
  have "mset ks \<noteq> {#}" using ks(2) assms(4) ok(3,4) by (auto simp: merged_def)
  then have "ks \<noteq> []" by auto
  let ?es = "map (edit_of us ws) ks"
  have "mset ?es = image_mset (edit_of us ws) (mset (map left_hunk d13) + mset (map right_hunk d23))"
    using ks(2) by (simp add: merged_def)
  then have "mset ?es = mset (map (left_edit us) d13) + mset (map (right_edit ws) d23)"
    by (simp add: multiset.map_comp comp_def)
  moreover have "sorted (map fst ?es)" using ks(2) by (simp add: merged_def comp_def edit_of_def)
  ultimately show ?thesis
    using diff3_files_plain [OF assms(1,2) ks(1) set_ks, of labels] \<open>ks \<noteq> []\<close> by (intro exI [of _ ?es]) simp
qed

theorem diff3_merge_apart_witness:
  "let us = map bytes [''x'', ''b'', ''c'']; vs = map bytes [''a'', ''b'', ''c'']; ws = map bytes [''a'', ''b'', ''z''] in
   \<exists>es. mset es = {#(0, 1, [bytes ''x'']), (2, 3, [bytes ''z''])#} \<and> sorted (map fst es) \<and>
     diff3_files {0x6d} [] (file_of us) (file_of vs) (file_of ws) = Some (unlines (apply_edits vs 0 es), 0)"
proof -
  let ?us = "map bytes [''x'', ''b'', ''c'']" and ?vs = "map bytes [''a'', ''b'', ''c'']" and ?ws = "map bytes [''a'', ''b'', ''z'']"
  let ?h = "\<lambda>a b. \<lparr>h_old = \<lparr>rng_from = a, rng_to = b\<rparr>, h_new = \<lparr>rng_from = a, rng_to = b\<rparr>\<rparr>"
  have "diff_compute (file_of ?us) (file_of ?vs) (Some (diff3_opts False)) = Some [?h 0 1]"
    "diff_compute (file_of ?vs) (file_of ?ws) (Some (diff3_opts False)) = Some [?h 2 3]"
    "left_edit ?us (?h 0 1) = (0, 1, [bytes ''x''])" "right_edit ?ws (?h 2 3) = (2, 3, [bytes ''z''])" "?us \<noteq> ?vs" "apart (?h 0 1) (?h 2 3)"
    by code_simp+
  then show ?thesis
    using diff3_merge_apart [of ?us ?vs "[?h 0 1]" ?ws "[?h 2 3]" "[]"] unfolding Let_def
    by (simp only: list.set ball_simps list.map mset.simps simp_thms) (simp add: add_mset_commute)
qed

lemma diff_compute_delete:
  "diff_compute (file_of [l]) (file_of []) opts = Some [\<lparr>h_old = \<lparr>rng_from = 0, rng_to = 1\<rparr>, h_new = \<lparr>rng_from = 0, rng_to = 0\<rparr>\<rparr>]"
  by (simp add: diff_compute_def file_of_def lcs_table_def lcs_step_def back_loop.simps)

lemma diff_compute_insert:
  "diff_compute (file_of []) (file_of [l]) opts = Some [\<lparr>h_old = \<lparr>rng_from = 0, rng_to = 0\<rparr>, h_new = \<lparr>rng_from = 0, rng_to = 1\<rparr>\<rparr>]"
  by (simp add: diff_compute_def file_of_def lcs_table_def lcs_step_def back_loop.simps)

text \<open>
  Merges that go wrong. A line that both sides add at the same place is printed twice, without a
  conflict, since two changes without lines of the ancestor never overlap for \<open>merge_hunks\<close>. If the first
  file lacks all three lines of the ancestor and the third has changed one of them, the region of the first file is
  made larger by lines that only the ancestor has, and printing it reads behind the array.
\<close>

lemma diff3_merge_faults:
  "diff3_files {0x6d} labels (file_of [l]) (file_of []) (file_of [l]) = Some (unlines [l, l], 0) \<and>
   diff3_files {0x6d} labels (file_of []) (file_of (map bytes [''a'', ''b'', ''c''])) (file_of (map bytes [''x'', ''b'', ''c''])) = None"
proof (rule conjI)
  let ?h = "\<lparr>h_old = \<lparr>rng_from = 0, rng_to = 1\<rparr>, h_new = \<lparr>rng_from = 0, rng_to = 0\<rparr>\<rparr>"
  let ?g = "\<lparr>h_old = \<lparr>rng_from = 0, rng_to = 0\<rparr>, h_new = \<lparr>rng_from = 0, rng_to = 1\<rparr>\<rparr>"
  have "merge_loop (file_of [l]) (file_of [l]) [?h] [?g] [] = Some [left_hunk ?h, right_hunk ?g]"
    by (subst merge_loop.simps) (simp add: merge_loop_right left_hunk_def)
  from diff3_files_plain [OF diff_compute_delete diff_compute_insert this, of labels]
  show "diff3_files {0x6d} labels (file_of [l]) (file_of []) (file_of [l]) = Some (unlines [l, l], 0)"
    by (simp add: edit_of_def left_hunk_def right_hunk_def segment_def)
  let ?us = "[]" and ?vs = "map bytes [''a'', ''b'', ''c'']" and ?ws = "map bytes [''x'', ''b'', ''c'']"
  let ?d = "\<lparr>h_old = \<lparr>rng_from = 0, rng_to = 0\<rparr>, h_new = \<lparr>rng_from = 0, rng_to = 3\<rparr>\<rparr>"
  let ?e = "\<lparr>h_old = \<lparr>rng_from = 0, rng_to = 1\<rparr>, h_new = \<lparr>rng_from = 0, rng_to = 1\<rparr>\<rparr>"
  let ?k = "\<lparr>kind = HUNK_TYPE3, r1 = \<lparr>rng_from = 0, rng_to = 2\<rparr>, r2 = \<lparr>rng_from = 0, rng_to = 3\<rparr>,
    r3 = \<lparr>rng_from = 0, rng_to = 3\<rparr>, dup = False\<rparr>"
  have "diff_compute (file_of ?us) (file_of ?vs) (Some (diff3_opts False)) = Some [?d]"
    "diff_compute (file_of ?vs) (file_of ?ws) (Some (diff3_opts False)) = Some [?e]"
    "merge_loop (file_of ?us) (file_of ?ws) [?d] [?e] [] = Some [?k]" "diff3_lines (file_of ?us) 0 2 = None" "diff3_lines (file_of ?vs) 0 0 = Some []"
    by code_simp+
  then show "diff3_files {0x6d} labels (file_of []) (file_of ?vs) (file_of ?ws) = None"
    by (simp add: diff3_files_def merge_hunks_def format_merge_def merge_hunk_text_def cat_Cons del: list.map)
qed

end
