(* ===== verification/Blake3_Core.thy ===== *)
theory Blake3_Core
  imports Aruu_Base
begin

text \<open>
  The portable compression function of \<open>shared/libblake3/blake3.c\<close>: words and bytes, the quarter round,
  the seven rounds, the two ways to close a compression, and hashing of several inputs of full blocks.

  The arrays \<open>uint32_t[8]\<close> and \<open>uint32_t[16]\<close> are lists of words, byte arrays are byte lists; a function
  that writes through a pointer returns the array it writes. The reference definitions at the end follow
  the BLAKE3 specification, where the message words are permuted between two rounds instead of being
  selected by a schedule.
\<close>

section \<open>Definitions\<close>

abbreviation (input) BLAKE3_KEY_LEN :: nat where "BLAKE3_KEY_LEN \<equiv> 32"
abbreviation (input) BLAKE3_OUT_LEN :: nat where "BLAKE3_OUT_LEN \<equiv> 32"
abbreviation (input) BLAKE3_BLOCK_LEN :: nat where "BLAKE3_BLOCK_LEN \<equiv> 64"
abbreviation (input) BLAKE3_CHUNK_LEN :: nat where "BLAKE3_CHUNK_LEN \<equiv> 1024"

definition CHUNK_START :: byte where "CHUNK_START = 1"

definition CHUNK_END :: byte where "CHUNK_END = 2"

definition PARENT :: byte where "PARENT = 4"

definition ROOT :: byte where "ROOT = 8"

definition KEYED_HASH :: byte where "KEYED_HASH = 16"

definition DERIVE_KEY_CONTEXT :: byte where "DERIVE_KEY_CONTEXT = 32"

definition DERIVE_KEY_MATERIAL :: byte where "DERIVE_KEY_MATERIAL = 64"

definition IV :: "u32 list" where
  "IV = [0x6A09E667, 0xBB67AE85, 0x3C6EF372, 0xA54FF53A, 0x510E527F, 0x9B05688C, 0x1F83D9AB, 0x5BE0CD19]"

definition MSG_SCHEDULE :: "nat list list" where
  "MSG_SCHEDULE =
    [[0, 1, 2, 3, 4, 5, 6, 7, 8, 9, 10, 11, 12, 13, 14, 15],
     [2, 6, 3, 10, 7, 0, 4, 13, 1, 11, 12, 5, 9, 14, 15, 8],
     [3, 4, 10, 12, 13, 2, 7, 14, 6, 5, 9, 0, 11, 15, 8, 1],
     [10, 7, 12, 9, 14, 3, 13, 15, 4, 0, 11, 2, 5, 8, 1, 6],
     [12, 13, 9, 11, 15, 10, 14, 8, 7, 2, 5, 3, 0, 1, 6, 4],
     [9, 14, 11, 5, 8, 12, 15, 1, 13, 3, 0, 10, 2, 6, 4, 7],
     [11, 15, 5, 0, 1, 9, 8, 6, 14, 10, 2, 12, 3, 4, 7, 13]]"

definition load32 :: "byte list \<Rightarrow> u32" where
  "load32 p = push_bit 0 (ucast (p ! 0)) OR push_bit 8 (ucast (p ! 1)) OR push_bit 16 (ucast (p ! 2)) OR
     push_bit 24 (ucast (p ! 3))"

definition store32 :: "u32 \<Rightarrow> byte list" where
  "store32 w = [ucast (drop_bit 0 w), ucast (drop_bit 8 w), ucast (drop_bit 16 w), ucast (drop_bit 24 w)]"

definition store_cv_words :: "u32 list \<Rightarrow> byte list" where
  "store_cv_words cv_words = concat (map (\<lambda>i. store32 (cv_words ! i)) [0..<8])"

definition counter_low :: "u64 \<Rightarrow> u32" where
  "counter_low counter = ucast counter"

definition counter_high :: "u64 \<Rightarrow> u32" where
  "counter_high counter = ucast (drop_bit 32 counter)"

definition rotr32 :: "u32 \<Rightarrow> nat \<Rightarrow> u32" where
  "rotr32 w c = drop_bit c w OR push_bit (32 - c) w"

definition g_portable :: "u32 list \<Rightarrow> nat \<Rightarrow> nat \<Rightarrow> nat \<Rightarrow> nat \<Rightarrow> u32 \<Rightarrow> u32 \<Rightarrow> u32 list" where
  "g_portable state a b c d x y =
     (let state = state[a := state ! a + state ! b + x];
          state = state[d := rotr32 (state ! d XOR state ! a) 16];
          state = state[c := state ! c + state ! d];
          state = state[b := rotr32 (state ! b XOR state ! c) 12];
          state = state[a := state ! a + state ! b + y];
          state = state[d := rotr32 (state ! d XOR state ! a) 8];
          state = state[c := state ! c + state ! d]
      in state[b := rotr32 (state ! b XOR state ! c) 7])"

definition round_fn_portable :: "u32 list \<Rightarrow> u32 list \<Rightarrow> nat \<Rightarrow> u32 list" where
  "round_fn_portable state msg round =
     (let schedule = MSG_SCHEDULE ! round;
          state = g_portable state 0 4 8 12 (msg ! (schedule ! 0)) (msg ! (schedule ! 1));
          state = g_portable state 1 5 9 13 (msg ! (schedule ! 2)) (msg ! (schedule ! 3));
          state = g_portable state 2 6 10 14 (msg ! (schedule ! 4)) (msg ! (schedule ! 5));
          state = g_portable state 3 7 11 15 (msg ! (schedule ! 6)) (msg ! (schedule ! 7));
          state = g_portable state 0 5 10 15 (msg ! (schedule ! 8)) (msg ! (schedule ! 9));
          state = g_portable state 1 6 11 12 (msg ! (schedule ! 10)) (msg ! (schedule ! 11));
          state = g_portable state 2 7 8 13 (msg ! (schedule ! 12)) (msg ! (schedule ! 13))
      in g_portable state 3 4 9 14 (msg ! (schedule ! 14)) (msg ! (schedule ! 15)))"

definition load_block :: "byte list \<Rightarrow> u32 list" where
  "load_block block = map (\<lambda>i. load32 (drop (4 * i) block)) [0..<16]"

definition init_state :: "u32 list \<Rightarrow> byte \<Rightarrow> u64 \<Rightarrow> byte \<Rightarrow> u32 list" where
  "init_state cv block_len counter flags =
     [cv ! 0, cv ! 1, cv ! 2, cv ! 3, cv ! 4, cv ! 5, cv ! 6, cv ! 7, IV ! 0, IV ! 1, IV ! 2, IV ! 3,
      counter_low counter, counter_high counter, ucast block_len, ucast flags]"

definition compress_pre_portable :: "u32 list \<Rightarrow> byte list \<Rightarrow> byte \<Rightarrow> u64 \<Rightarrow> byte \<Rightarrow> u32 list" where
  "compress_pre_portable cv block block_len counter flags =
     (let block_words = load_block block;
          state = init_state cv block_len counter flags;
          state = round_fn_portable state block_words 0;
          state = round_fn_portable state block_words 1;
          state = round_fn_portable state block_words 2;
          state = round_fn_portable state block_words 3;
          state = round_fn_portable state block_words 4;
          state = round_fn_portable state block_words 5
      in round_fn_portable state block_words 6)"

definition blake3_compress_in_place_portable ::
  "u32 list \<Rightarrow> byte list \<Rightarrow> byte \<Rightarrow> u64 \<Rightarrow> byte \<Rightarrow> u32 list" where
  "blake3_compress_in_place_portable cv block block_len counter flags =
     (let state = compress_pre_portable cv block block_len counter flags
      in map (\<lambda>i. state ! i XOR state ! (i + 8)) [0..<8])"

definition blake3_compress_xof_portable ::
  "u32 list \<Rightarrow> byte list \<Rightarrow> byte \<Rightarrow> u64 \<Rightarrow> byte \<Rightarrow> byte list" where
  "blake3_compress_xof_portable cv block block_len counter flags =
     (let state = compress_pre_portable cv block block_len counter flags
      in concat (map (\<lambda>i. store32 (state ! i XOR state ! (i + 8))) [0..<8]) @
         concat (map (\<lambda>i. store32 (state ! (i + 8) XOR cv ! i)) [0..<8]))"

text \<open>The loop of \<open>hash_one_portable\<close>: the chaining value after the remaining blocks.\<close>

fun hash_one_loop ::
  "(u32 list \<Rightarrow> byte list \<Rightarrow> byte \<Rightarrow> u64 \<Rightarrow> byte \<Rightarrow> u32 list) \<Rightarrow> byte list \<Rightarrow> nat \<Rightarrow> u64 \<Rightarrow> byte \<Rightarrow> byte \<Rightarrow>
     byte \<Rightarrow> u32 list \<Rightarrow> u32 list" where
  "hash_one_loop compress input 0 counter flags flags_end block_flags cv = cv"
| "hash_one_loop compress input (Suc blocks) counter flags flags_end block_flags cv =
     (let block_flags = (if Suc blocks = 1 then block_flags OR flags_end else block_flags)
      in hash_one_loop compress (drop 64 input) blocks counter flags flags_end flags
           (compress cv (take 64 input) 64 counter block_flags))"

definition hash_one_portable ::
  "byte list \<Rightarrow> nat \<Rightarrow> u32 list \<Rightarrow> u64 \<Rightarrow> byte \<Rightarrow> byte \<Rightarrow> byte \<Rightarrow> byte list" where
  "hash_one_portable input blocks key counter flags flags_start flags_end =
     store_cv_words (hash_one_loop blake3_compress_in_place_portable input blocks counter flags flags_end
       (flags OR flags_start) key)"

text \<open>The outputs, one of 32 bytes for every input, in the order of the array \<open>out\<close>.\<close>

fun blake3_hash_many_portable ::
  "byte list list \<Rightarrow> nat \<Rightarrow> u32 list \<Rightarrow> u64 \<Rightarrow> bool \<Rightarrow> byte \<Rightarrow> byte \<Rightarrow> byte \<Rightarrow> byte list list" where
  "blake3_hash_many_portable [] blocks key counter increment_counter flags flags_start flags_end = []"
| "blake3_hash_many_portable (i # inputs) blocks key counter increment_counter flags flags_start flags_end =
     hash_one_portable i blocks key counter flags flags_start flags_end #
     blake3_hash_many_portable inputs blocks key (if increment_counter then counter + 1 else counter)
       increment_counter flags flags_start flags_end"

section \<open>Reference definitions\<close>

text \<open>
  The specification's compression function: seven rounds on a message that is permuted behind each of
  the first six.
\<close>

definition msg_permutation :: "nat list" where
  "msg_permutation = [2, 6, 3, 10, 7, 0, 4, 13, 1, 11, 12, 5, 9, 14, 15, 8]"

definition permute :: "u32 list \<Rightarrow> u32 list" where
  "permute m = map (\<lambda>i. m ! i) msg_permutation"

definition spec_round :: "u32 list \<Rightarrow> u32 list \<Rightarrow> u32 list" where
  "spec_round st m = fold (\<lambda>((a, b, c, d), i) st. g_portable st a b c d (m ! (2 * i)) (m ! (2 * i + 1)))
     (zip [(0, 4, 8, 12), (1, 5, 9, 13), (2, 6, 10, 14), (3, 7, 11, 15),
           (0, 5, 10, 15), (1, 6, 11, 12), (2, 7, 8, 13), (3, 4, 9, 14)] [0..<8]) st"

fun spec_rounds :: "nat \<Rightarrow> u32 list \<Rightarrow> u32 list \<Rightarrow> u32 list" where
  "spec_rounds 0 st m = st"
| "spec_rounds (Suc n) st m = spec_rounds n (spec_round st m) (permute m)"

section \<open>The schedule\<close>

lemma length_g [simp]: "length (g_portable st a b c d x y) = length st"
  by (simp add: g_portable_def Let_def)

lemma length_round_fn [simp]: "length (round_fn_portable st m r) = length st"
  by (simp add: round_fn_portable_def Let_def)

lemma length_compress_pre [simp]: "length (compress_pre_portable cv block bl ctr fl) = 16"
  by (simp add: compress_pre_portable_def init_state_def Let_def)

lemma length_load_block [simp]: "length (load_block b) = 16"
  by (simp add: load_block_def)

lemma length_store32 [simp]: "length (store32 w) = 4"
  by (simp add: store32_def)

lemma length_store_cv_words [simp]: "length (store_cv_words cv) = 32"
  by (simp add: store_cv_words_def length_concat comp_def sum_list_triv)

lemma length_compress_in_place [simp]: "length (blake3_compress_in_place_portable cv b bl ctr fl) = 8"
  by (simp add: blake3_compress_in_place_portable_def Let_def)

lemma length_compress_xof [simp]: "length (blake3_compress_xof_portable cv b bl ctr fl) = 64"
  by (simp add: blake3_compress_xof_portable_def Let_def length_concat comp_def sum_list_triv)

lemma length_permute [simp]: "length (permute m) = 16"
  by (simp add: permute_def msg_permutation_def)

lemma round_fn_is_spec_round:
  assumes "\<forall>i < 16. m' ! i = m ! (MSG_SCHEDULE ! r ! i)"
  shows "round_fn_portable st m r = spec_round st m'"
proof -
  have "[0..<8] = [0, 1, 2, 3, 4, 5, 6, 7 :: nat]" by code_simp
  then show ?thesis
    using assms by (simp add: round_fn_portable_def spec_round_def Let_def)
qed

lemma schedule_step:
  assumes "\<forall>i < 16. m' ! i = m ! (MSG_SCHEDULE ! r ! i)" "r < 6"
  shows "\<forall>i < 16. permute m' ! i = m ! (MSG_SCHEDULE ! Suc r ! i)"
proof -
  have s: "list_all (\<lambda>r. list_all (\<lambda>i. msg_permutation ! i < 16 \<and>
      MSG_SCHEDULE ! r ! (msg_permutation ! i) = MSG_SCHEDULE ! Suc r ! i) [0..<16]) [0..<6]"
    by code_simp
  have l: "length msg_permutation = 16" by (simp add: msg_permutation_def)
  show ?thesis
  proof (intro allI impI)
    fix i :: nat assume i: "i < 16"
    then have "msg_permutation ! i < 16" "MSG_SCHEDULE ! r ! (msg_permutation ! i) = MSG_SCHEDULE ! Suc r ! i"
      using s assms(2) by (simp_all add: list_all_iff)
    then show "permute m' ! i = m ! (MSG_SCHEDULE ! Suc r ! i)"
      using assms(1) i l by (simp add: permute_def)
  qed
qed

text \<open>The seven rounds with the schedule are the rounds of the specification.\<close>

lemma compress_pre_is_spec:
  "compress_pre_portable cv block bl ctr fl = spec_rounds 7 (init_state cv bl ctr fl) (load_block block)"
proof -
  let ?m = "load_block block"
  let ?p = "\<lambda>n. (permute ^^ n) ?m"
  have 0: "\<forall>i < 16. ?p 0 ! i = ?m ! (MSG_SCHEDULE ! 0 ! i)"
    by (simp add: MSG_SCHEDULE_def less_Suc_eq numeral_eq_Suc)
  have p: "\<forall>i < 16. ?p r ! i = ?m ! (MSG_SCHEDULE ! r ! i)" if "r \<le> 6" for r
    using that
  proof (induction r)
    case (Suc r)
    then show ?case using schedule_step [of "?p r" ?m r] by simp
  qed (use 0 in simp)
  have r: "round_fn_portable st ?m r = spec_round st (?p r)" if "r \<le> 6" for st r
    using p [OF that] by (rule round_fn_is_spec_round)
  show ?thesis
    unfolding compress_pre_portable_def Let_def
    using r [of 0] r [of 1] r [of 2] r [of 3] r [of 4] r [of 5] r [of 6]
    by (simp add: numeral_eq_Suc)
qed

text \<open>
  Property C38 (equivalence). The portable compression, which selects the message words by the table
  \<open>MSG_SCHEDULE\<close>, is the one of the BLAKE3 specification, which permutes the words behind every round: the
  two halves of the state behind seven rounds are combined, and the second one with the old chaining
  value in the extended output.
\<close>

theorem compress_follows_specification:
  "let st = spec_rounds 7 (init_state cv block_len counter flags) (load_block block)
   in blake3_compress_in_place_portable cv block block_len counter flags = map2 (XOR) (take 8 st) (drop 8 st) \<and>
      (length cv = 8 \<longrightarrow> blake3_compress_xof_portable cv block block_len counter flags =
         concat (map store32 (map2 (XOR) (take 8 st) (drop 8 st) @ map2 (XOR) (drop 8 st) cv)))"
proof -
  define st where "st = compress_pre_portable cv block block_len counter flags"
  have l: "length st = 16" by (simp add: st_def)
  have a: "map (\<lambda>i. st ! i XOR st ! (i + 8)) [0..<8] = map2 (XOR) (take 8 st) (drop 8 st)"
    using l by (intro nth_equalityI) (simp_all add: add.commute)
  have b: "map (\<lambda>i. st ! (i + 8) XOR cv ! i) [0..<8] = map2 (XOR) (drop 8 st) cv" if "length cv = 8"
    using l that by (intro nth_equalityI) (simp_all add: add.commute)
  have m: "concat (map (\<lambda>i. store32 (f i)) [0..<8]) = concat (map store32 (map f [0..<8]))" for f
    by (simp add: comp_def)
  show ?thesis
    unfolding compress_pre_is_spec [symmetric] Let_def st_def [symmetric]
      blake3_compress_in_place_portable_def blake3_compress_xof_portable_def m
    using a b by simp
qed

theorem compress_follows_specification_witness:
  "length IV = 8 \<and> blake3_compress_xof_portable IV (replicate 64 0) 64 0 0 =
     (let st = spec_rounds 7 (init_state IV 64 0 0) (load_block (replicate 64 0))
      in concat (map store32 (map2 (XOR) (take 8 st) (drop 8 st) @ map2 (XOR) (drop 8 st) IV)))"
proof -
  have "length IV = 8" by (simp add: IV_def)
  then show ?thesis
    using compress_follows_specification [of IV 64 0 0 "replicate 64 0"] by (simp only: Let_def simp_thms)
qed

end
