(* ===== verification/Simd_Vec.thy ===== *)
theory Simd_Vec
  imports Blake3_Core
begin

text \<open>
  The x86 vector intrinsics that \<open>shared/libblake3/blake3.c\<close> uses, as their documentation describes them.
  A register of type \<open>__m128i\<close>, \<open>__m256i\<close> or \<open>__m512i\<close> is the list of its 4, 8 or 16 words of 32 bits,
  the lowest first; memory is a list of bytes, and words in memory are little-endian. Where an intrinsic
  treats the register as bytes or as words of 16 bits, it is split and joined again. The wider forms of
  the unpack and shuffle instructions work on each group of 128 bits alone.
\<close>

section \<open>Definitions\<close>

type_synonym vec = "u32 list"

text \<open>Loads and stores, and the values of the \<open>set\<close> intrinsics, which name the highest word first.\<close>

fun words_of :: "byte list \<Rightarrow> vec" where
  "words_of (a # b # c # d # r) = load32 [a, b, c, d] # words_of r"
| "words_of _ = []"

definition bytes_of :: "vec \<Rightarrow> byte list" where
  "bytes_of v = concat (map store32 v)"

definition loadu :: "nat \<Rightarrow> byte list \<Rightarrow> vec" where
  "loadu n src = map (\<lambda>i. load32 (drop (4 * i) src)) [0..<n]"

definition set1_epi32 :: "nat \<Rightarrow> u32 \<Rightarrow> vec" where
  "set1_epi32 n x = replicate n x"

definition set_epi32 :: "u32 list \<Rightarrow> vec" where
  "set_epi32 ws = rev ws"

definition setr_epi32 :: "u32 list \<Rightarrow> vec" where
  "setr_epi32 ws = ws"

text \<open>Arithmetic and logic on the words of two registers.\<close>

definition add_epi32 :: "vec \<Rightarrow> vec \<Rightarrow> vec" where
  "add_epi32 a b = map2 (+) a b"

definition sub_epi32 :: "vec \<Rightarrow> vec \<Rightarrow> vec" where
  "sub_epi32 a b = map2 (-) a b"

definition and_si :: "vec \<Rightarrow> vec \<Rightarrow> vec" where
  "and_si a b = map2 (AND) a b"

definition or_si :: "vec \<Rightarrow> vec \<Rightarrow> vec" where
  "or_si a b = map2 (OR) a b"

definition xor_si :: "vec \<Rightarrow> vec \<Rightarrow> vec" where
  "xor_si a b = map2 (XOR) a b"

definition andnot_si :: "vec \<Rightarrow> vec \<Rightarrow> vec" where
  "andnot_si a b = map2 (\<lambda>x y. NOT x AND y) a b"

definition cmpgt_epi32 :: "vec \<Rightarrow> vec \<Rightarrow> vec" where
  "cmpgt_epi32 a b = map2 (\<lambda>x y. if sint y < sint x then - 1 else 0) a b"

definition srli_epi32 :: "vec \<Rightarrow> nat \<Rightarrow> vec" where
  "srli_epi32 a n = map (drop_bit n) a"

definition slli_epi32 :: "vec \<Rightarrow> nat \<Rightarrow> vec" where
  "slli_epi32 a n = map (push_bit n) a"

definition ror_epi32 :: "vec \<Rightarrow> nat \<Rightarrow> vec" where
  "ror_epi32 a n = map (word_rotr n) a"

text \<open>Words of 16 bits.\<close>

definition epi16_of :: "vec \<Rightarrow> u16 list" where
  "epi16_of v = concat (map (\<lambda>w. [ucast w, ucast (drop_bit 16 w)]) v)"

fun of_epi16 :: "u16 list \<Rightarrow> vec" where
  "of_epi16 (a # b # r) = (ucast a OR push_bit 16 (ucast b)) # of_epi16 r"
| "of_epi16 _ = []"

definition imm2 :: "nat \<Rightarrow> nat \<Rightarrow> nat" where
  "imm2 imm i = imm div 4 ^ i mod 4"

definition shufflelo_epi16 :: "vec \<Rightarrow> nat \<Rightarrow> vec" where
  "shufflelo_epi16 v imm =
     (let h = epi16_of v in of_epi16 (map (\<lambda>i. h ! imm2 imm i) [0, 1, 2, 3] @ drop 4 h))"

definition shufflehi_epi16 :: "vec \<Rightarrow> nat \<Rightarrow> vec" where
  "shufflehi_epi16 v imm =
     (let h = epi16_of v in of_epi16 (take 4 h @ map (\<lambda>i. h ! (4 + imm2 imm i)) [0, 1, 2, 3]))"

definition set_epi16 :: "u16 list \<Rightarrow> vec" where
  "set_epi16 hs = of_epi16 (rev hs)"

definition set1_epi16 :: "u16 \<Rightarrow> vec" where
  "set1_epi16 x = of_epi16 (replicate 8 x)"

definition cmpeq_epi16 :: "vec \<Rightarrow> vec \<Rightarrow> vec" where
  "cmpeq_epi16 a b = of_epi16 (map2 (\<lambda>x y. if x = y then - 1 else 0) (epi16_of a) (epi16_of b))"

definition blend_epi16 :: "vec \<Rightarrow> vec \<Rightarrow> nat \<Rightarrow> vec" where
  "blend_epi16 a b imm =
     of_epi16 (map (\<lambda>i. if imm div 2 ^ i mod 2 = 1 then epi16_of b ! i else epi16_of a ! i) [0, 1, 2, 3, 4, 5, 6, 7])"

text \<open>Bytes: the index is taken modulo 16 in each group of 16 bytes, and its high bit gives zero.\<close>

definition shuffle_group_epi8 :: "byte list \<Rightarrow> byte list \<Rightarrow> byte list" where
  "shuffle_group_epi8 x m = map (\<lambda>i. if 128 \<le> unat i then 0 else x ! (unat i mod 16)) m"

definition shuffle_epi8 :: "vec \<Rightarrow> byte list \<Rightarrow> vec" where
  "shuffle_epi8 v m = words_of (shuffle_group_epi8 (bytes_of v) m)"

definition shuffle256_epi8 :: "vec \<Rightarrow> byte list \<Rightarrow> vec" where
  "shuffle256_epi8 v m =
     words_of (shuffle_group_epi8 (take 16 (bytes_of v)) (take 16 m) @
       shuffle_group_epi8 (drop 16 (bytes_of v)) (drop 16 m))"

text \<open>Shuffles of words; \<open>_MM_SHUFFLE\<close> packs four indices.\<close>

definition MM_SHUFFLE :: "nat \<Rightarrow> nat \<Rightarrow> nat \<Rightarrow> nat \<Rightarrow> nat" where
  "MM_SHUFFLE z y x w = z * 64 + y * 16 + x * 4 + w"

definition shuffle_epi32 :: "vec \<Rightarrow> nat \<Rightarrow> vec" where
  "shuffle_epi32 a imm = [a ! imm2 imm 0, a ! imm2 imm 1, a ! imm2 imm 2, a ! imm2 imm 3]"

definition shuffle_ps :: "vec \<Rightarrow> vec \<Rightarrow> nat \<Rightarrow> vec" where
  "shuffle_ps a b imm = [a ! imm2 imm 0, a ! imm2 imm 1, b ! imm2 imm 2, b ! imm2 imm 3]"

text \<open>An operation on every group of four words.\<close>

fun groups2 :: "(vec \<Rightarrow> vec \<Rightarrow> vec) \<Rightarrow> vec \<Rightarrow> vec \<Rightarrow> vec" where
  "groups2 f (a # b # c # d # r) (a' # b' # c' # d' # r') = f [a, b, c, d] [a', b', c', d'] @ groups2 f r r'"
| "groups2 f _ _ = []"

definition unpacklo_epi32 :: "vec \<Rightarrow> vec \<Rightarrow> vec" where
  "unpacklo_epi32 a b = groups2 (\<lambda>x y. [x ! 0, y ! 0, x ! 1, y ! 1]) a b"

definition unpackhi_epi32 :: "vec \<Rightarrow> vec \<Rightarrow> vec" where
  "unpackhi_epi32 a b = groups2 (\<lambda>x y. [x ! 2, y ! 2, x ! 3, y ! 3]) a b"

definition unpacklo_epi64 :: "vec \<Rightarrow> vec \<Rightarrow> vec" where
  "unpacklo_epi64 a b = groups2 (\<lambda>x y. [x ! 0, x ! 1, y ! 0, y ! 1]) a b"

definition unpackhi_epi64 :: "vec \<Rightarrow> vec \<Rightarrow> vec" where
  "unpackhi_epi64 a b = groups2 (\<lambda>x y. [x ! 2, x ! 3, y ! 2, y ! 3]) a b"

definition group4 :: "vec \<Rightarrow> nat \<Rightarrow> vec" where
  "group4 v i = take 4 (drop (4 * i) v)"

definition permute2x128 :: "vec \<Rightarrow> vec \<Rightarrow> nat \<Rightarrow> vec" where
  "permute2x128 a b imm =
     (let sel = (\<lambda>c. if c div 8 mod 2 = 1 then replicate 4 0 else group4 (a @ b) (c mod 4))
      in sel (imm mod 16) @ sel (imm div 16 mod 16))"

definition shuffle_i32x4 :: "vec \<Rightarrow> vec \<Rightarrow> nat \<Rightarrow> vec" where
  "shuffle_i32x4 a b imm =
     group4 a (imm2 imm 0) @ group4 a (imm2 imm 1) @ group4 b (imm2 imm 2) @ group4 b (imm2 imm 3)"

definition castsi512_si256 :: "vec \<Rightarrow> vec" where
  "castsi512_si256 v = take 8 v"

text \<open>A masked store of eight words writes the words whose mask bit is set, and leaves the other bytes.\<close>

definition mask_storeu_epi32 :: "byte list \<Rightarrow> byte \<Rightarrow> vec \<Rightarrow> byte list" where
  "mask_storeu_epi32 old k v =
     concat (map (\<lambda>i. if bit k i then store32 (v ! i) else take 4 (drop (4 * i) old)) [0, 1, 2, 3, 4, 5, 6, 7])"

end
