(* ===== verification/Blake3_Simd.thy ===== *)
theory Blake3_Simd
  imports Simd_Vec
begin

text \<open>
  The vector kernels of \<open>shared/libblake3/blake3.c\<close> for SSE2, SSE4.1, AVX2 and AVX-512. The source has one
  copy of every routine for each instruction set; the copies differ in their helper functions only. What
  they share is written once here, over the record \<open>kernel\<close> of an instruction set's helpers, and each
  routine of the source is this definition at its own helpers. Where a copy differs in its body (the
  message vectors of the AVX-512 compression, the transpositions of its narrow kernels) it has a
  definition of its own.

  Two layouts are used. A single compression keeps the state of 16 words in four rows of four words. The
  kernels that hash several inputs at once keep word \<open>i\<close> of every input's state in the vector \<open>i\<close>.
  The outputs of the \<open>hash_many\<close> functions are a list of 32 bytes for every input. \<open>increment_counter\<close> is
  0 or 1 in every call and is a \<open>bool\<close> here; prefetching is left out.
\<close>

section \<open>Kernels\<close>

record kernel =
  k_add :: "vec \<Rightarrow> vec \<Rightarrow> vec"
  k_xor :: "vec \<Rightarrow> vec \<Rightarrow> vec"
  k_rot16 :: "vec \<Rightarrow> vec"
  k_rot12 :: "vec \<Rightarrow> vec"
  k_rot8 :: "vec \<Rightarrow> vec"
  k_rot7 :: "vec \<Rightarrow> vec"
  k_set1 :: "u32 \<Rightarrow> vec"
  k_load_counters :: "u64 \<Rightarrow> bool \<Rightarrow> vec \<times> vec"
  k_transpose_msg_vecs :: "byte list list \<Rightarrow> nat \<Rightarrow> vec list"

subsection \<open>One compression\<close>

type_synonym rows = "vec \<times> vec \<times> vec \<times> vec"

definition g1_vec :: "kernel \<Rightarrow> rows \<Rightarrow> vec \<Rightarrow> rows" where
  "g1_vec K rows m =
     (let (row0, row1, row2, row3) = rows;
          row0 = k_add K (k_add K row0 m) row1;
          row3 = k_xor K row3 row0;
          row3 = k_rot16 K row3;
          row2 = k_add K row2 row3;
          row1 = k_xor K row1 row2;
          row1 = k_rot12 K row1
      in (row0, row1, row2, row3))"

definition g2_vec :: "kernel \<Rightarrow> rows \<Rightarrow> vec \<Rightarrow> rows" where
  "g2_vec K rows m =
     (let (row0, row1, row2, row3) = rows;
          row0 = k_add K (k_add K row0 m) row1;
          row3 = k_xor K row3 row0;
          row3 = k_rot8 K row3;
          row2 = k_add K row2 row3;
          row1 = k_xor K row1 row2;
          row1 = k_rot7 K row1
      in (row0, row1, row2, row3))"

definition diagonalize :: "rows \<Rightarrow> rows" where
  "diagonalize rows =
     (let (row0, row1, row2, row3) = rows;
          row0 = shuffle_epi32 row0 (MM_SHUFFLE 2 1 0 3);
          row3 = shuffle_epi32 row3 (MM_SHUFFLE 1 0 3 2);
          row2 = shuffle_epi32 row2 (MM_SHUFFLE 0 3 2 1)
      in (row0, row1, row2, row3))"

definition undiagonalize :: "rows \<Rightarrow> rows" where
  "undiagonalize rows =
     (let (row0, row1, row2, row3) = rows;
          row0 = shuffle_epi32 row0 (MM_SHUFFLE 0 3 2 1);
          row3 = shuffle_epi32 row3 (MM_SHUFFLE 1 0 3 2);
          row2 = shuffle_epi32 row2 (MM_SHUFFLE 2 1 0 3)
      in (row0, row1, row2, row3))"

text \<open>The message vectors \<open>t0\<close> to \<open>t3\<close> of the first round, from the block, and of each later round, from
  those of the round before.\<close>

definition msg_first :: "rows \<Rightarrow> rows" where
  "msg_first m =
     (let (m0, m1, m2, m3) = m;
          t0 = shuffle_ps m0 m1 (MM_SHUFFLE 2 0 2 0);
          t1 = shuffle_ps m0 m1 (MM_SHUFFLE 3 1 3 1);
          t2 = shuffle_ps m2 m3 (MM_SHUFFLE 2 0 2 0);
          t2 = shuffle_epi32 t2 (MM_SHUFFLE 2 1 0 3);
          t3 = shuffle_ps m2 m3 (MM_SHUFFLE 3 1 3 1);
          t3 = shuffle_epi32 t3 (MM_SHUFFLE 2 1 0 3)
      in (t0, t1, t2, t3))"

definition msg_next :: "(vec \<Rightarrow> vec \<Rightarrow> nat \<Rightarrow> vec) \<Rightarrow> rows \<Rightarrow> rows" where
  "msg_next blend m =
     (let (m0, m1, m2, m3) = m;
          t0 = shuffle_ps m0 m1 (MM_SHUFFLE 3 1 1 2);
          t0 = shuffle_epi32 t0 (MM_SHUFFLE 0 3 2 1);
          t1 = shuffle_ps m2 m3 (MM_SHUFFLE 3 3 2 2);
          tt = shuffle_epi32 m0 (MM_SHUFFLE 0 0 3 3);
          t1 = blend tt t1 0xCC;
          t2 = unpacklo_epi64 m3 m1;
          tt = blend t2 m2 0xC0;
          t2 = shuffle_epi32 tt (MM_SHUFFLE 1 3 2 0);
          t3 = unpackhi_epi32 m1 m3;
          tt = unpacklo_epi32 m2 t3;
          t3 = shuffle_epi32 tt (MM_SHUFFLE 0 1 3 2)
      in (t0, t1, t2, t3))"

text \<open>The message vectors of a later round in \<open>compress_pre_avx512\<close>.\<close>

definition msg_next_avx512 :: "rows \<Rightarrow> rows" where
  "msg_next_avx512 m =
     (let (m0, m1, m2, m3) = m;
          t0 = shuffle_ps m0 m1 (MM_SHUFFLE 3 1 1 2);
          t0 = shuffle_epi32 t0 (MM_SHUFFLE 0 3 2 1);
          t1 = shuffle_ps m2 m3 (MM_SHUFFLE 3 3 2 2);
          t1 = blend_epi16 m0 t1 0xCC;
          t2 = unpacklo_epi64 m3 m1;
          t2 = blend_epi16 t2 m2 0xC0;
          t2 = shuffle_epi32 t2 (MM_SHUFFLE 1 3 2 0);
          t3 = unpackhi_epi32 m1 m3;
          t3 = unpacklo_epi32 m2 t3;
          t3 = shuffle_epi32 t3 (MM_SHUFFLE 0 1 3 2)
      in (t0, t1, t2, t3))"

definition rows_round :: "kernel \<Rightarrow> rows \<Rightarrow> rows \<Rightarrow> rows" where
  "rows_round K rows t =
     (let (t0, t1, t2, t3) = t;
          rows = g1_vec K rows t0;
          rows = g2_vec K rows t1;
          rows = diagonalize rows;
          rows = g1_vec K rows t2;
          rows = g2_vec K rows t3
      in undiagonalize rows)"

text \<open>A load of four words from the array \<open>cv\<close>, which the source casts to bytes.\<close>

definition load_words :: "u32 list \<Rightarrow> nat \<Rightarrow> vec" where
  "load_words cv i = [cv ! i, cv ! (i + 1), cv ! (i + 2), cv ! (i + 3)]"

definition compress_pre_vec ::
  "kernel \<Rightarrow> (rows \<Rightarrow> rows) \<Rightarrow> u32 list \<Rightarrow> byte list \<Rightarrow> byte \<Rightarrow> u64 \<Rightarrow> byte \<Rightarrow> rows" where
  "compress_pre_vec K next_msg cv block block_len counter flags =
     (let rows = (load_words cv 0, load_words cv 4,
            setr_epi32 [IV ! 0, IV ! 1, IV ! 2, IV ! 3],
            setr_epi32 [counter_low counter, counter_high counter, ucast block_len, ucast flags]);
          m = (loadu 4 block, loadu 4 (drop 16 block), loadu 4 (drop 32 block), loadu 4 (drop 48 block));
          m = msg_first m; rows = rows_round K rows m;
          m = next_msg m; rows = rows_round K rows m;
          m = next_msg m; rows = rows_round K rows m;
          m = next_msg m; rows = rows_round K rows m;
          m = next_msg m; rows = rows_round K rows m;
          m = next_msg m; rows = rows_round K rows m;
          m = next_msg m
      in rows_round K rows m)"

text \<open>The new chaining value, whose words are written as bytes.\<close>

definition compress_in_place_vec :: "kernel \<Rightarrow> rows \<Rightarrow> u32 list" where
  "compress_in_place_vec K rows =
     (let (r0, r1, r2, r3) = rows in words_of (bytes_of (k_xor K r0 r2) @ bytes_of (k_xor K r1 r3)))"

definition compress_xof_vec :: "kernel \<Rightarrow> u32 list \<Rightarrow> rows \<Rightarrow> byte list" where
  "compress_xof_vec K cv rows =
     (let (r0, r1, r2, r3) = rows
      in bytes_of (k_xor K r0 r2) @ bytes_of (k_xor K r1 r3) @
         bytes_of (k_xor K r2 (load_words cv 0)) @ bytes_of (k_xor K r3 (load_words cv 4)))"

subsection \<open>Several inputs at once\<close>

text \<open>The first and the second half of a round, on the columns and on the diagonals, with the row \<open>s\<close> of
  the schedule.\<close>

definition columns_vec :: "kernel \<Rightarrow> vec list \<Rightarrow> vec list \<Rightarrow> nat list \<Rightarrow> vec list" where
  "columns_vec K v m s =
     (let v = v[0 := k_add K (v ! 0) (m ! (s ! 0))];
          v = v[1 := k_add K (v ! 1) (m ! (s ! 2))];
          v = v[2 := k_add K (v ! 2) (m ! (s ! 4))];
          v = v[3 := k_add K (v ! 3) (m ! (s ! 6))];
          v = v[0 := k_add K (v ! 0) (v ! 4)];
          v = v[1 := k_add K (v ! 1) (v ! 5)];
          v = v[2 := k_add K (v ! 2) (v ! 6)];
          v = v[3 := k_add K (v ! 3) (v ! 7)];
          v = v[12 := k_xor K (v ! 12) (v ! 0)];
          v = v[13 := k_xor K (v ! 13) (v ! 1)];
          v = v[14 := k_xor K (v ! 14) (v ! 2)];
          v = v[15 := k_xor K (v ! 15) (v ! 3)];
          v = v[12 := k_rot16 K (v ! 12)];
          v = v[13 := k_rot16 K (v ! 13)];
          v = v[14 := k_rot16 K (v ! 14)];
          v = v[15 := k_rot16 K (v ! 15)];
          v = v[8 := k_add K (v ! 8) (v ! 12)];
          v = v[9 := k_add K (v ! 9) (v ! 13)];
          v = v[10 := k_add K (v ! 10) (v ! 14)];
          v = v[11 := k_add K (v ! 11) (v ! 15)];
          v = v[4 := k_xor K (v ! 4) (v ! 8)];
          v = v[5 := k_xor K (v ! 5) (v ! 9)];
          v = v[6 := k_xor K (v ! 6) (v ! 10)];
          v = v[7 := k_xor K (v ! 7) (v ! 11)];
          v = v[4 := k_rot12 K (v ! 4)];
          v = v[5 := k_rot12 K (v ! 5)];
          v = v[6 := k_rot12 K (v ! 6)];
          v = v[7 := k_rot12 K (v ! 7)];
          v = v[0 := k_add K (v ! 0) (m ! (s ! 1))];
          v = v[1 := k_add K (v ! 1) (m ! (s ! 3))];
          v = v[2 := k_add K (v ! 2) (m ! (s ! 5))];
          v = v[3 := k_add K (v ! 3) (m ! (s ! 7))];
          v = v[0 := k_add K (v ! 0) (v ! 4)];
          v = v[1 := k_add K (v ! 1) (v ! 5)];
          v = v[2 := k_add K (v ! 2) (v ! 6)];
          v = v[3 := k_add K (v ! 3) (v ! 7)];
          v = v[12 := k_xor K (v ! 12) (v ! 0)];
          v = v[13 := k_xor K (v ! 13) (v ! 1)];
          v = v[14 := k_xor K (v ! 14) (v ! 2)];
          v = v[15 := k_xor K (v ! 15) (v ! 3)];
          v = v[12 := k_rot8 K (v ! 12)];
          v = v[13 := k_rot8 K (v ! 13)];
          v = v[14 := k_rot8 K (v ! 14)];
          v = v[15 := k_rot8 K (v ! 15)];
          v = v[8 := k_add K (v ! 8) (v ! 12)];
          v = v[9 := k_add K (v ! 9) (v ! 13)];
          v = v[10 := k_add K (v ! 10) (v ! 14)];
          v = v[11 := k_add K (v ! 11) (v ! 15)];
          v = v[4 := k_xor K (v ! 4) (v ! 8)];
          v = v[5 := k_xor K (v ! 5) (v ! 9)];
          v = v[6 := k_xor K (v ! 6) (v ! 10)];
          v = v[7 := k_xor K (v ! 7) (v ! 11)];
          v = v[4 := k_rot7 K (v ! 4)];
          v = v[5 := k_rot7 K (v ! 5)];
          v = v[6 := k_rot7 K (v ! 6)]
      in v[7 := k_rot7 K (v ! 7)])"

definition diagonals_vec :: "kernel \<Rightarrow> vec list \<Rightarrow> vec list \<Rightarrow> nat list \<Rightarrow> vec list" where
  "diagonals_vec K v m s =
     (let v = v[0 := k_add K (v ! 0) (m ! (s ! 8))];
          v = v[1 := k_add K (v ! 1) (m ! (s ! 10))];
          v = v[2 := k_add K (v ! 2) (m ! (s ! 12))];
          v = v[3 := k_add K (v ! 3) (m ! (s ! 14))];
          v = v[0 := k_add K (v ! 0) (v ! 5)];
          v = v[1 := k_add K (v ! 1) (v ! 6)];
          v = v[2 := k_add K (v ! 2) (v ! 7)];
          v = v[3 := k_add K (v ! 3) (v ! 4)];
          v = v[15 := k_xor K (v ! 15) (v ! 0)];
          v = v[12 := k_xor K (v ! 12) (v ! 1)];
          v = v[13 := k_xor K (v ! 13) (v ! 2)];
          v = v[14 := k_xor K (v ! 14) (v ! 3)];
          v = v[15 := k_rot16 K (v ! 15)];
          v = v[12 := k_rot16 K (v ! 12)];
          v = v[13 := k_rot16 K (v ! 13)];
          v = v[14 := k_rot16 K (v ! 14)];
          v = v[10 := k_add K (v ! 10) (v ! 15)];
          v = v[11 := k_add K (v ! 11) (v ! 12)];
          v = v[8 := k_add K (v ! 8) (v ! 13)];
          v = v[9 := k_add K (v ! 9) (v ! 14)];
          v = v[5 := k_xor K (v ! 5) (v ! 10)];
          v = v[6 := k_xor K (v ! 6) (v ! 11)];
          v = v[7 := k_xor K (v ! 7) (v ! 8)];
          v = v[4 := k_xor K (v ! 4) (v ! 9)];
          v = v[5 := k_rot12 K (v ! 5)];
          v = v[6 := k_rot12 K (v ! 6)];
          v = v[7 := k_rot12 K (v ! 7)];
          v = v[4 := k_rot12 K (v ! 4)];
          v = v[0 := k_add K (v ! 0) (m ! (s ! 9))];
          v = v[1 := k_add K (v ! 1) (m ! (s ! 11))];
          v = v[2 := k_add K (v ! 2) (m ! (s ! 13))];
          v = v[3 := k_add K (v ! 3) (m ! (s ! 15))];
          v = v[0 := k_add K (v ! 0) (v ! 5)];
          v = v[1 := k_add K (v ! 1) (v ! 6)];
          v = v[2 := k_add K (v ! 2) (v ! 7)];
          v = v[3 := k_add K (v ! 3) (v ! 4)];
          v = v[15 := k_xor K (v ! 15) (v ! 0)];
          v = v[12 := k_xor K (v ! 12) (v ! 1)];
          v = v[13 := k_xor K (v ! 13) (v ! 2)];
          v = v[14 := k_xor K (v ! 14) (v ! 3)];
          v = v[15 := k_rot8 K (v ! 15)];
          v = v[12 := k_rot8 K (v ! 12)];
          v = v[13 := k_rot8 K (v ! 13)];
          v = v[14 := k_rot8 K (v ! 14)];
          v = v[10 := k_add K (v ! 10) (v ! 15)];
          v = v[11 := k_add K (v ! 11) (v ! 12)];
          v = v[8 := k_add K (v ! 8) (v ! 13)];
          v = v[9 := k_add K (v ! 9) (v ! 14)];
          v = v[5 := k_xor K (v ! 5) (v ! 10)];
          v = v[6 := k_xor K (v ! 6) (v ! 11)];
          v = v[7 := k_xor K (v ! 7) (v ! 8)];
          v = v[4 := k_xor K (v ! 4) (v ! 9)];
          v = v[5 := k_rot7 K (v ! 5)];
          v = v[6 := k_rot7 K (v ! 6)];
          v = v[7 := k_rot7 K (v ! 7)]
      in v[4 := k_rot7 K (v ! 4)])"

definition round_fn_vec :: "kernel \<Rightarrow> vec list \<Rightarrow> vec list \<Rightarrow> nat \<Rightarrow> vec list" where
  "round_fn_vec K v m r = diagonals_vec K (columns_vec K v m (MSG_SCHEDULE ! r)) m (MSG_SCHEDULE ! r)"

text \<open>The loop over the blocks, at the block number \<open>block\<close> with \<open>Suc left\<close> or no blocks left.\<close>

primrec hash_blocks ::
  "nat \<Rightarrow> kernel \<Rightarrow> byte list list \<Rightarrow> nat \<Rightarrow> byte \<Rightarrow> byte \<Rightarrow> byte \<Rightarrow> vec \<Rightarrow> vec \<Rightarrow> vec list \<Rightarrow> vec list" where
  "hash_blocks 0 K inputs block flags flags_end block_flags lo hi h = h"
| "hash_blocks (Suc left) K inputs block flags flags_end block_flags lo hi h =
     (let block_flags = (if left = 0 then block_flags OR flags_end else block_flags);
          block_len_vec = k_set1 K 64;
          block_flags_vec = k_set1 K (ucast block_flags);
          msg_vecs = k_transpose_msg_vecs K inputs (block * 64);
          v = [h ! 0, h ! 1, h ! 2, h ! 3, h ! 4, h ! 5, h ! 6, h ! 7,
               k_set1 K (IV ! 0), k_set1 K (IV ! 1), k_set1 K (IV ! 2), k_set1 K (IV ! 3),
               lo, hi, block_len_vec, block_flags_vec];
          v = round_fn_vec K v msg_vecs 0;
          v = round_fn_vec K v msg_vecs 1;
          v = round_fn_vec K v msg_vecs 2;
          v = round_fn_vec K v msg_vecs 3;
          v = round_fn_vec K v msg_vecs 4;
          v = round_fn_vec K v msg_vecs 5;
          v = round_fn_vec K v msg_vecs 6;
          h = map (\<lambda>i. k_xor K (v ! i) (v ! (i + 8))) [0..<8]
      in hash_blocks left K inputs (block + 1) flags flags_end flags lo hi h)"

definition hash_vecs ::
  "kernel \<Rightarrow> byte list list \<Rightarrow> nat \<Rightarrow> u32 list \<Rightarrow> u64 \<Rightarrow> bool \<Rightarrow> byte \<Rightarrow> byte \<Rightarrow> byte \<Rightarrow> vec list" where
  "hash_vecs K inputs blocks key counter increment_counter flags flags_start flags_end =
     (let h = map (\<lambda>i. k_set1 K (key ! i)) [0..<8];
          (lo, hi) = k_load_counters K counter increment_counter
      in hash_blocks blocks K inputs 0 flags flags_end (flags OR flags_start) lo hi h)"

text \<open>The \<open>n\<close> outputs of one kernel call, 32 bytes for every input.\<close>

definition outputs :: "nat \<Rightarrow> byte list \<Rightarrow> byte list list" where
  "outputs n out_bytes = map (\<lambda>i. take 32 (drop (32 * i) out_bytes)) [0..<n]"

text \<open>
  \<open>while (num_inputs >= n)\<close> with a kernel for \<open>n\<close> inputs, where \<open>n\<close> is 4, 8 or 16: the outputs written,
  the inputs left and the counter.
\<close>

function many_loop ::
  "nat \<Rightarrow> (byte list list \<Rightarrow> u64 \<Rightarrow> byte list) \<Rightarrow> byte list list \<Rightarrow> u64 \<Rightarrow> bool \<Rightarrow>
     byte list list \<times> byte list list \<times> u64" where
  "many_loop n hashn inputs counter increment_counter =
     (if n \<le> length inputs \<and> 0 < n then
        let (out_bytes, rest, counter') = many_loop n hashn (drop n inputs)
              (if increment_counter then counter + of_nat n else counter) increment_counter
        in (outputs n (hashn (take n inputs) counter) @ out_bytes, rest, counter')
      else ([], inputs, counter))"
  by pat_completeness auto
termination by (relation "measure (\<lambda>(n, f, inputs, c, i). length inputs)") auto

declare many_loop.simps [simp del]

text \<open>\<open>while (num_inputs > 0)\<close> with a function for one input.\<close>

fun one_loop :: "(byte list \<Rightarrow> u64 \<Rightarrow> byte list) \<Rightarrow> byte list list \<Rightarrow> u64 \<Rightarrow> bool \<Rightarrow> byte list list" where
  "one_loop hash1 [] counter increment_counter = []"
| "one_loop hash1 (i # inputs) counter increment_counter =
     hash1 i counter # one_loop hash1 inputs (if increment_counter then counter + 1 else counter) increment_counter"

section \<open>SSE2\<close>

definition loadu_sse2 :: "byte list \<Rightarrow> vec" where
  "loadu_sse2 src = loadu 4 src"

definition storeu_sse2 :: "vec \<Rightarrow> byte list" where
  "storeu_sse2 src = bytes_of src"

definition addv_sse2 :: "vec \<Rightarrow> vec \<Rightarrow> vec" where
  "addv_sse2 a b = add_epi32 a b"

definition xorv_sse2 :: "vec \<Rightarrow> vec \<Rightarrow> vec" where
  "xorv_sse2 a b = xor_si a b"

definition set1_sse2 :: "u32 \<Rightarrow> vec" where
  "set1_sse2 x = set1_epi32 4 x"

definition rot16_sse2 :: "vec \<Rightarrow> vec" where
  "rot16_sse2 x = shufflehi_epi16 (shufflelo_epi16 x 0xB1) 0xB1"

definition rot12_sse2 :: "vec \<Rightarrow> vec" where
  "rot12_sse2 x = xorv_sse2 (srli_epi32 x 12) (slli_epi32 x (32 - 12))"

definition rot8_sse2 :: "vec \<Rightarrow> vec" where
  "rot8_sse2 x = xorv_sse2 (srli_epi32 x 8) (slli_epi32 x (32 - 8))"

definition rot7_sse2 :: "vec \<Rightarrow> vec" where
  "rot7_sse2 x = xorv_sse2 (srli_epi32 x 7) (slli_epi32 x (32 - 7))"

definition blend_epi16_sse2 :: "vec \<Rightarrow> vec \<Rightarrow> nat \<Rightarrow> vec" where
  "blend_epi16_sse2 a b imm8 =
     (let bits = set_epi16 [0x80, 0x40, 0x20, 0x10, 0x08, 0x04, 0x02, 0x01];
          mask = set1_epi16 (of_nat imm8);
          mask = and_si mask bits;
          mask = cmpeq_epi16 mask bits
      in or_si (and_si mask b) (andnot_si mask a))"

definition transpose_vecs_sse2 :: "vec list \<Rightarrow> vec list" where
  "transpose_vecs_sse2 vecs =
     (let ab_01 = unpacklo_epi32 (vecs ! 0) (vecs ! 1);
          ab_23 = unpackhi_epi32 (vecs ! 0) (vecs ! 1);
          cd_01 = unpacklo_epi32 (vecs ! 2) (vecs ! 3);
          cd_23 = unpackhi_epi32 (vecs ! 2) (vecs ! 3)
      in [unpacklo_epi64 ab_01 cd_01, unpackhi_epi64 ab_01 cd_01,
          unpacklo_epi64 ab_23 cd_23, unpackhi_epi64 ab_23 cd_23])"

definition transpose_msg_vecs_sse2 :: "byte list list \<Rightarrow> nat \<Rightarrow> vec list" where
  "transpose_msg_vecs_sse2 inputs block_offset =
     transpose_vecs_sse2 (map (\<lambda>i. loadu_sse2 (drop (block_offset + 0) (inputs ! i))) [0..<4]) @
     transpose_vecs_sse2 (map (\<lambda>i. loadu_sse2 (drop (block_offset + 16) (inputs ! i))) [0..<4]) @
     transpose_vecs_sse2 (map (\<lambda>i. loadu_sse2 (drop (block_offset + 32) (inputs ! i))) [0..<4]) @
     transpose_vecs_sse2 (map (\<lambda>i. loadu_sse2 (drop (block_offset + 48) (inputs ! i))) [0..<4])"

definition load_counters_sse2 :: "u64 \<Rightarrow> bool \<Rightarrow> vec \<times> vec" where
  "load_counters_sse2 counter increment_counter =
     (let mask = set1_epi32 4 (if increment_counter then - 1 else 0);
          add0 = set_epi32 [3, 2, 1, 0];
          add1 = and_si mask add0;
          l = add_epi32 (set1_epi32 4 (ucast counter)) add1;
          carry = cmpgt_epi32 (xor_si add1 (set1_epi32 4 0x80000000)) (xor_si l (set1_epi32 4 0x80000000));
          h = sub_epi32 (set1_epi32 4 (ucast (drop_bit 32 counter))) carry
      in (l, h))"

definition sse2_kernel :: kernel where
  "sse2_kernel =
     \<lparr>k_add = addv_sse2, k_xor = xorv_sse2, k_rot16 = rot16_sse2, k_rot12 = rot12_sse2,
      k_rot8 = rot8_sse2, k_rot7 = rot7_sse2, k_set1 = set1_sse2,
      k_load_counters = load_counters_sse2, k_transpose_msg_vecs = transpose_msg_vecs_sse2\<rparr>"

definition compress_pre_sse2 :: "u32 list \<Rightarrow> byte list \<Rightarrow> byte \<Rightarrow> u64 \<Rightarrow> byte \<Rightarrow> rows" where
  "compress_pre_sse2 cv block block_len counter flags =
     compress_pre_vec sse2_kernel (msg_next blend_epi16_sse2) cv block block_len counter flags"

definition blake3_compress_in_place_sse2 :: "u32 list \<Rightarrow> byte list \<Rightarrow> byte \<Rightarrow> u64 \<Rightarrow> byte \<Rightarrow> u32 list" where
  "blake3_compress_in_place_sse2 cv block block_len counter flags =
     compress_in_place_vec sse2_kernel (compress_pre_sse2 cv block block_len counter flags)"

definition blake3_compress_xof_sse2 :: "u32 list \<Rightarrow> byte list \<Rightarrow> byte \<Rightarrow> u64 \<Rightarrow> byte \<Rightarrow> byte list" where
  "blake3_compress_xof_sse2 cv block block_len counter flags =
     compress_xof_vec sse2_kernel cv (compress_pre_sse2 cv block block_len counter flags)"

definition round_fn_sse2 :: "vec list \<Rightarrow> vec list \<Rightarrow> nat \<Rightarrow> vec list" where
  "round_fn_sse2 v m r = round_fn_vec sse2_kernel v m r"

definition blake3_hash4_sse2 :: "byte list list \<Rightarrow> nat \<Rightarrow> u32 list \<Rightarrow> u64 \<Rightarrow> bool \<Rightarrow> byte \<Rightarrow> byte \<Rightarrow> byte \<Rightarrow> byte list" where
  "blake3_hash4_sse2 inputs blocks key counter increment_counter flags flags_start flags_end =
     (let h_vecs = hash_vecs sse2_kernel inputs blocks key counter increment_counter flags flags_start flags_end;
          h_vecs = transpose_vecs_sse2 (take 4 h_vecs) @ transpose_vecs_sse2 (drop 4 h_vecs)
      in concat (map (\<lambda>i. storeu_sse2 (h_vecs ! i)) [0, 4, 1, 5, 2, 6, 3, 7]))"

definition hash_one_sse2 :: "byte list \<Rightarrow> nat \<Rightarrow> u32 list \<Rightarrow> u64 \<Rightarrow> byte \<Rightarrow> byte \<Rightarrow> byte \<Rightarrow> byte list" where
  "hash_one_sse2 input blocks key counter flags flags_start flags_end =
     bytes_of (hash_one_loop blake3_compress_in_place_sse2 input blocks counter flags flags_end
       (flags OR flags_start) key)"

definition blake3_hash_many_sse2 :: "byte list list \<Rightarrow> nat \<Rightarrow> u32 list \<Rightarrow> u64 \<Rightarrow> bool \<Rightarrow> byte \<Rightarrow> byte \<Rightarrow> byte \<Rightarrow> byte list list" where
  "blake3_hash_many_sse2 inputs blocks key counter increment_counter flags flags_start flags_end =
     (let (out_bytes, inputs, counter) = many_loop 4
            (\<lambda>is c. blake3_hash4_sse2 is blocks key c increment_counter flags flags_start flags_end)
            inputs counter increment_counter
      in out_bytes @ one_loop (\<lambda>i c. hash_one_sse2 i blocks key c flags flags_start flags_end)
           inputs counter increment_counter)"

section \<open>SSE4.1\<close>

definition loadu_sse41 :: "byte list \<Rightarrow> vec" where
  "loadu_sse41 src = loadu 4 src"

definition storeu_sse41 :: "vec \<Rightarrow> byte list" where
  "storeu_sse41 src = bytes_of src"

definition addv_sse41 :: "vec \<Rightarrow> vec \<Rightarrow> vec" where
  "addv_sse41 a b = add_epi32 a b"

definition xorv_sse41 :: "vec \<Rightarrow> vec \<Rightarrow> vec" where
  "xorv_sse41 a b = xor_si a b"

definition set1_sse41 :: "u32 \<Rightarrow> vec" where
  "set1_sse41 x = set1_epi32 4 x"

definition rot16_sse41 :: "vec \<Rightarrow> vec" where
  "rot16_sse41 x = shuffle_epi8 x (rev [13, 12, 15, 14, 9, 8, 11, 10, 5, 4, 7, 6, 1, 0, 3, 2])"

definition rot12_sse41 :: "vec \<Rightarrow> vec" where
  "rot12_sse41 x = xorv_sse41 (srli_epi32 x 12) (slli_epi32 x (32 - 12))"

definition rot8_sse41 :: "vec \<Rightarrow> vec" where
  "rot8_sse41 x = shuffle_epi8 x (rev [12, 15, 14, 13, 8, 11, 10, 9, 4, 7, 6, 5, 0, 3, 2, 1])"

definition rot7_sse41 :: "vec \<Rightarrow> vec" where
  "rot7_sse41 x = xorv_sse41 (srli_epi32 x 7) (slli_epi32 x (32 - 7))"

definition transpose_vecs_sse41 :: "vec list \<Rightarrow> vec list" where
  "transpose_vecs_sse41 vecs =
     (let ab_01 = unpacklo_epi32 (vecs ! 0) (vecs ! 1);
          ab_23 = unpackhi_epi32 (vecs ! 0) (vecs ! 1);
          cd_01 = unpacklo_epi32 (vecs ! 2) (vecs ! 3);
          cd_23 = unpackhi_epi32 (vecs ! 2) (vecs ! 3)
      in [unpacklo_epi64 ab_01 cd_01, unpackhi_epi64 ab_01 cd_01,
          unpacklo_epi64 ab_23 cd_23, unpackhi_epi64 ab_23 cd_23])"

definition transpose_msg_vecs_sse41 :: "byte list list \<Rightarrow> nat \<Rightarrow> vec list" where
  "transpose_msg_vecs_sse41 inputs block_offset =
     transpose_vecs_sse41 (map (\<lambda>i. loadu_sse41 (drop (block_offset + 0) (inputs ! i))) [0..<4]) @
     transpose_vecs_sse41 (map (\<lambda>i. loadu_sse41 (drop (block_offset + 16) (inputs ! i))) [0..<4]) @
     transpose_vecs_sse41 (map (\<lambda>i. loadu_sse41 (drop (block_offset + 32) (inputs ! i))) [0..<4]) @
     transpose_vecs_sse41 (map (\<lambda>i. loadu_sse41 (drop (block_offset + 48) (inputs ! i))) [0..<4])"

definition load_counters_sse41 :: "u64 \<Rightarrow> bool \<Rightarrow> vec \<times> vec" where
  "load_counters_sse41 counter increment_counter =
     (let mask = set1_epi32 4 (if increment_counter then - 1 else 0);
          add0 = set_epi32 [3, 2, 1, 0];
          add1 = and_si mask add0;
          l = add_epi32 (set1_epi32 4 (ucast counter)) add1;
          carry = cmpgt_epi32 (xor_si add1 (set1_epi32 4 0x80000000)) (xor_si l (set1_epi32 4 0x80000000));
          h = sub_epi32 (set1_epi32 4 (ucast (drop_bit 32 counter))) carry
      in (l, h))"

definition sse41_kernel :: kernel where
  "sse41_kernel =
     \<lparr>k_add = addv_sse41, k_xor = xorv_sse41, k_rot16 = rot16_sse41, k_rot12 = rot12_sse41,
      k_rot8 = rot8_sse41, k_rot7 = rot7_sse41, k_set1 = set1_sse41,
      k_load_counters = load_counters_sse41, k_transpose_msg_vecs = transpose_msg_vecs_sse41\<rparr>"

definition compress_pre_sse41 :: "u32 list \<Rightarrow> byte list \<Rightarrow> byte \<Rightarrow> u64 \<Rightarrow> byte \<Rightarrow> rows" where
  "compress_pre_sse41 cv block block_len counter flags =
     compress_pre_vec sse41_kernel (msg_next blend_epi16) cv block block_len counter flags"

definition blake3_compress_in_place_sse41 :: "u32 list \<Rightarrow> byte list \<Rightarrow> byte \<Rightarrow> u64 \<Rightarrow> byte \<Rightarrow> u32 list" where
  "blake3_compress_in_place_sse41 cv block block_len counter flags =
     compress_in_place_vec sse41_kernel (compress_pre_sse41 cv block block_len counter flags)"

definition blake3_compress_xof_sse41 :: "u32 list \<Rightarrow> byte list \<Rightarrow> byte \<Rightarrow> u64 \<Rightarrow> byte \<Rightarrow> byte list" where
  "blake3_compress_xof_sse41 cv block block_len counter flags =
     compress_xof_vec sse41_kernel cv (compress_pre_sse41 cv block block_len counter flags)"

definition round_fn_sse41 :: "vec list \<Rightarrow> vec list \<Rightarrow> nat \<Rightarrow> vec list" where
  "round_fn_sse41 v m r = round_fn_vec sse41_kernel v m r"

definition blake3_hash4_sse41 :: "byte list list \<Rightarrow> nat \<Rightarrow> u32 list \<Rightarrow> u64 \<Rightarrow> bool \<Rightarrow> byte \<Rightarrow> byte \<Rightarrow> byte \<Rightarrow> byte list" where
  "blake3_hash4_sse41 inputs blocks key counter increment_counter flags flags_start flags_end =
     (let h_vecs = hash_vecs sse41_kernel inputs blocks key counter increment_counter flags flags_start flags_end;
          h_vecs = transpose_vecs_sse41 (take 4 h_vecs) @ transpose_vecs_sse41 (drop 4 h_vecs)
      in concat (map (\<lambda>i. storeu_sse41 (h_vecs ! i)) [0, 4, 1, 5, 2, 6, 3, 7]))"

definition hash_one_sse41 :: "byte list \<Rightarrow> nat \<Rightarrow> u32 list \<Rightarrow> u64 \<Rightarrow> byte \<Rightarrow> byte \<Rightarrow> byte \<Rightarrow> byte list" where
  "hash_one_sse41 input blocks key counter flags flags_start flags_end =
     bytes_of (hash_one_loop blake3_compress_in_place_sse41 input blocks counter flags flags_end
       (flags OR flags_start) key)"

definition blake3_hash_many_sse41 :: "byte list list \<Rightarrow> nat \<Rightarrow> u32 list \<Rightarrow> u64 \<Rightarrow> bool \<Rightarrow> byte \<Rightarrow> byte \<Rightarrow> byte \<Rightarrow> byte list list" where
  "blake3_hash_many_sse41 inputs blocks key counter increment_counter flags flags_start flags_end =
     (let (out_bytes, inputs, counter) = many_loop 4
            (\<lambda>is c. blake3_hash4_sse41 is blocks key c increment_counter flags flags_start flags_end)
            inputs counter increment_counter
      in out_bytes @ one_loop (\<lambda>i c. hash_one_sse41 i blocks key c flags flags_start flags_end)
           inputs counter increment_counter)"

section \<open>AVX2\<close>

definition loadu_avx2 :: "byte list \<Rightarrow> vec" where
  "loadu_avx2 src = loadu 8 src"

definition storeu_avx2 :: "vec \<Rightarrow> byte list" where
  "storeu_avx2 src = bytes_of src"

definition addv_avx2 :: "vec \<Rightarrow> vec \<Rightarrow> vec" where
  "addv_avx2 a b = add_epi32 a b"

definition xorv_avx2 :: "vec \<Rightarrow> vec \<Rightarrow> vec" where
  "xorv_avx2 a b = xor_si a b"

definition set1_avx2 :: "u32 \<Rightarrow> vec" where
  "set1_avx2 x = set1_epi32 8 x"

definition rot16_avx2 :: "vec \<Rightarrow> vec" where
  "rot16_avx2 x = shuffle256_epi8 x (rev
     ([13, 12, 15, 14, 9, 8, 11, 10, 5, 4, 7, 6, 1, 0, 3, 2] @
      [13, 12, 15, 14, 9, 8, 11, 10, 5, 4, 7, 6, 1, 0, 3, 2]))"

definition rot12_avx2 :: "vec \<Rightarrow> vec" where
  "rot12_avx2 x = or_si (srli_epi32 x 12) (slli_epi32 x (32 - 12))"

definition rot8_avx2 :: "vec \<Rightarrow> vec" where
  "rot8_avx2 x = shuffle256_epi8 x (rev
     ([12, 15, 14, 13, 8, 11, 10, 9, 4, 7, 6, 5, 0, 3, 2, 1] @
      [12, 15, 14, 13, 8, 11, 10, 9, 4, 7, 6, 5, 0, 3, 2, 1]))"

definition rot7_avx2 :: "vec \<Rightarrow> vec" where
  "rot7_avx2 x = or_si (srli_epi32 x 7) (slli_epi32 x (32 - 7))"

definition transpose_vecs_avx2 :: "vec list \<Rightarrow> vec list" where
  "transpose_vecs_avx2 vecs =
     (let ab_0145 = unpacklo_epi32 (vecs ! 0) (vecs ! 1);
          ab_2367 = unpackhi_epi32 (vecs ! 0) (vecs ! 1);
          cd_0145 = unpacklo_epi32 (vecs ! 2) (vecs ! 3);
          cd_2367 = unpackhi_epi32 (vecs ! 2) (vecs ! 3);
          ef_0145 = unpacklo_epi32 (vecs ! 4) (vecs ! 5);
          ef_2367 = unpackhi_epi32 (vecs ! 4) (vecs ! 5);
          gh_0145 = unpacklo_epi32 (vecs ! 6) (vecs ! 7);
          gh_2367 = unpackhi_epi32 (vecs ! 6) (vecs ! 7);
          abcd_04 = unpacklo_epi64 ab_0145 cd_0145;
          abcd_15 = unpackhi_epi64 ab_0145 cd_0145;
          abcd_26 = unpacklo_epi64 ab_2367 cd_2367;
          abcd_37 = unpackhi_epi64 ab_2367 cd_2367;
          efgh_04 = unpacklo_epi64 ef_0145 gh_0145;
          efgh_15 = unpackhi_epi64 ef_0145 gh_0145;
          efgh_26 = unpacklo_epi64 ef_2367 gh_2367;
          efgh_37 = unpackhi_epi64 ef_2367 gh_2367
      in [permute2x128 abcd_04 efgh_04 0x20, permute2x128 abcd_15 efgh_15 0x20,
          permute2x128 abcd_26 efgh_26 0x20, permute2x128 abcd_37 efgh_37 0x20,
          permute2x128 abcd_04 efgh_04 0x31, permute2x128 abcd_15 efgh_15 0x31,
          permute2x128 abcd_26 efgh_26 0x31, permute2x128 abcd_37 efgh_37 0x31])"

definition transpose_msg_vecs_avx2 :: "byte list list \<Rightarrow> nat \<Rightarrow> vec list" where
  "transpose_msg_vecs_avx2 inputs block_offset =
     transpose_vecs_avx2 (map (\<lambda>i. loadu_avx2 (drop (block_offset + 0) (inputs ! i))) [0..<8]) @
     transpose_vecs_avx2 (map (\<lambda>i. loadu_avx2 (drop (block_offset + 32) (inputs ! i))) [0..<8])"

definition load_counters_avx2 :: "u64 \<Rightarrow> bool \<Rightarrow> vec \<times> vec" where
  "load_counters_avx2 counter increment_counter =
     (let mask = set1_epi32 8 (if increment_counter then - 1 else 0);
          add0 = set_epi32 [7, 6, 5, 4, 3, 2, 1, 0];
          add1 = and_si mask add0;
          l = add_epi32 (set1_epi32 8 (ucast counter)) add1;
          carry = xor_si add1 (set1_epi32 8 0x80000000);
          comp = xor_si l (set1_epi32 8 0x80000000);
          gt = cmpgt_epi32 carry comp;
          h = sub_epi32 (set1_epi32 8 (ucast (drop_bit 32 counter))) gt
      in (l, h))"

definition avx2_kernel :: kernel where
  "avx2_kernel =
     \<lparr>k_add = addv_avx2, k_xor = xorv_avx2, k_rot16 = rot16_avx2, k_rot12 = rot12_avx2,
      k_rot8 = rot8_avx2, k_rot7 = rot7_avx2, k_set1 = set1_avx2,
      k_load_counters = load_counters_avx2, k_transpose_msg_vecs = transpose_msg_vecs_avx2\<rparr>"

definition round_fn_avx2 :: "vec list \<Rightarrow> vec list \<Rightarrow> nat \<Rightarrow> vec list" where
  "round_fn_avx2 v m r = round_fn_vec avx2_kernel v m r"

definition blake3_hash8_avx2 :: "byte list list \<Rightarrow> nat \<Rightarrow> u32 list \<Rightarrow> u64 \<Rightarrow> bool \<Rightarrow> byte \<Rightarrow> byte \<Rightarrow> byte \<Rightarrow> byte list" where
  "blake3_hash8_avx2 inputs blocks key counter increment_counter flags flags_start flags_end =
     (let h_vecs = hash_vecs avx2_kernel inputs blocks key counter increment_counter flags flags_start flags_end;
          h_vecs = transpose_vecs_avx2 h_vecs
      in concat (map (\<lambda>i. storeu_avx2 (h_vecs ! i)) [0..<8]))"

definition blake3_hash_many_avx2 :: "byte list list \<Rightarrow> nat \<Rightarrow> u32 list \<Rightarrow> u64 \<Rightarrow> bool \<Rightarrow> byte \<Rightarrow> byte \<Rightarrow> byte \<Rightarrow> byte list list" where
  "blake3_hash_many_avx2 inputs blocks key counter increment_counter flags flags_start flags_end =
     (let (out_bytes, inputs, counter) = many_loop 8
            (\<lambda>is c. blake3_hash8_avx2 is blocks key c increment_counter flags flags_start flags_end)
            inputs counter increment_counter
      in out_bytes @ blake3_hash_many_sse41 inputs blocks key counter increment_counter flags flags_start flags_end)"

section \<open>AVX-512\<close>

definition loadu_128_avx512 :: "byte list \<Rightarrow> vec" where
  "loadu_128_avx512 src = loadu 4 src"

definition loadu_256_avx512 :: "byte list \<Rightarrow> vec" where
  "loadu_256_avx512 src = loadu 8 src"

definition loadu_512_avx512 :: "byte list \<Rightarrow> vec" where
  "loadu_512_avx512 src = loadu 16 src"

definition storeu_128_avx512 :: "vec \<Rightarrow> byte list" where
  "storeu_128_avx512 src = bytes_of src"

definition storeu_256_avx512 :: "vec \<Rightarrow> byte list" where
  "storeu_256_avx512 src = bytes_of src"

definition add_128_avx512 :: "vec \<Rightarrow> vec \<Rightarrow> vec" where
  "add_128_avx512 a b = add_epi32 a b"

definition xor_128_avx512 :: "vec \<Rightarrow> vec \<Rightarrow> vec" where
  "xor_128_avx512 a b = xor_si a b"

definition set1_128_avx512 :: "u32 \<Rightarrow> vec" where
  "set1_128_avx512 x = set1_epi32 4 x"

definition rot16_128_avx512 :: "vec \<Rightarrow> vec" where
  "rot16_128_avx512 x = ror_epi32 x 16"

definition rot12_128_avx512 :: "vec \<Rightarrow> vec" where
  "rot12_128_avx512 x = ror_epi32 x 12"

definition rot8_128_avx512 :: "vec \<Rightarrow> vec" where
  "rot8_128_avx512 x = ror_epi32 x 8"

definition rot7_128_avx512 :: "vec \<Rightarrow> vec" where
  "rot7_128_avx512 x = ror_epi32 x 7"

definition add_256_avx512 :: "vec \<Rightarrow> vec \<Rightarrow> vec" where
  "add_256_avx512 a b = add_epi32 a b"

definition xor_256_avx512 :: "vec \<Rightarrow> vec \<Rightarrow> vec" where
  "xor_256_avx512 a b = xor_si a b"

definition set1_256_avx512 :: "u32 \<Rightarrow> vec" where
  "set1_256_avx512 x = set1_epi32 8 x"

definition rot16_256_avx512 :: "vec \<Rightarrow> vec" where
  "rot16_256_avx512 x = ror_epi32 x 16"

definition rot12_256_avx512 :: "vec \<Rightarrow> vec" where
  "rot12_256_avx512 x = ror_epi32 x 12"

definition rot8_256_avx512 :: "vec \<Rightarrow> vec" where
  "rot8_256_avx512 x = ror_epi32 x 8"

definition rot7_256_avx512 :: "vec \<Rightarrow> vec" where
  "rot7_256_avx512 x = ror_epi32 x 7"

definition add_512_avx512 :: "vec \<Rightarrow> vec \<Rightarrow> vec" where
  "add_512_avx512 a b = add_epi32 a b"

definition xor_512_avx512 :: "vec \<Rightarrow> vec \<Rightarrow> vec" where
  "xor_512_avx512 a b = xor_si a b"

definition set1_512_avx512 :: "u32 \<Rightarrow> vec" where
  "set1_512_avx512 x = set1_epi32 16 x"

definition rot16_512_avx512 :: "vec \<Rightarrow> vec" where
  "rot16_512_avx512 x = ror_epi32 x 16"

definition rot12_512_avx512 :: "vec \<Rightarrow> vec" where
  "rot12_512_avx512 x = ror_epi32 x 12"

definition rot8_512_avx512 :: "vec \<Rightarrow> vec" where
  "rot8_512_avx512 x = ror_epi32 x 8"

definition rot7_512_avx512 :: "vec \<Rightarrow> vec" where
  "rot7_512_avx512 x = ror_epi32 x 7"

definition unpack_lo_128_avx512 :: "vec \<Rightarrow> vec \<Rightarrow> vec" where
  "unpack_lo_128_avx512 a b = shuffle_i32x4 a b 0x88"

definition unpack_hi_128_avx512 :: "vec \<Rightarrow> vec \<Rightarrow> vec" where
  "unpack_hi_128_avx512 a b = shuffle_i32x4 a b 0xdd"

definition transpose_vecs_512_avx512 :: "vec list \<Rightarrow> vec list" where
  "transpose_vecs_512_avx512 vecs =
     (let ab_0 = unpacklo_epi32 (vecs ! 0) (vecs ! 1);
          ab_2 = unpackhi_epi32 (vecs ! 0) (vecs ! 1);
          cd_0 = unpacklo_epi32 (vecs ! 2) (vecs ! 3);
          cd_2 = unpackhi_epi32 (vecs ! 2) (vecs ! 3);
          ef_0 = unpacklo_epi32 (vecs ! 4) (vecs ! 5);
          ef_2 = unpackhi_epi32 (vecs ! 4) (vecs ! 5);
          gh_0 = unpacklo_epi32 (vecs ! 6) (vecs ! 7);
          gh_2 = unpackhi_epi32 (vecs ! 6) (vecs ! 7);
          ij_0 = unpacklo_epi32 (vecs ! 8) (vecs ! 9);
          ij_2 = unpackhi_epi32 (vecs ! 8) (vecs ! 9);
          kl_0 = unpacklo_epi32 (vecs ! 10) (vecs ! 11);
          kl_2 = unpackhi_epi32 (vecs ! 10) (vecs ! 11);
          mn_0 = unpacklo_epi32 (vecs ! 12) (vecs ! 13);
          mn_2 = unpackhi_epi32 (vecs ! 12) (vecs ! 13);
          op_0 = unpacklo_epi32 (vecs ! 14) (vecs ! 15);
          op_2 = unpackhi_epi32 (vecs ! 14) (vecs ! 15);
          abcd_0 = unpacklo_epi64 ab_0 cd_0;
          abcd_1 = unpackhi_epi64 ab_0 cd_0;
          abcd_2 = unpacklo_epi64 ab_2 cd_2;
          abcd_3 = unpackhi_epi64 ab_2 cd_2;
          efgh_0 = unpacklo_epi64 ef_0 gh_0;
          efgh_1 = unpackhi_epi64 ef_0 gh_0;
          efgh_2 = unpacklo_epi64 ef_2 gh_2;
          efgh_3 = unpackhi_epi64 ef_2 gh_2;
          ijkl_0 = unpacklo_epi64 ij_0 kl_0;
          ijkl_1 = unpackhi_epi64 ij_0 kl_0;
          ijkl_2 = unpacklo_epi64 ij_2 kl_2;
          ijkl_3 = unpackhi_epi64 ij_2 kl_2;
          mnop_0 = unpacklo_epi64 mn_0 op_0;
          mnop_1 = unpackhi_epi64 mn_0 op_0;
          mnop_2 = unpacklo_epi64 mn_2 op_2;
          mnop_3 = unpackhi_epi64 mn_2 op_2;
          abcdefgh_0 = unpack_lo_128_avx512 abcd_0 efgh_0;
          abcdefgh_1 = unpack_lo_128_avx512 abcd_1 efgh_1;
          abcdefgh_2 = unpack_lo_128_avx512 abcd_2 efgh_2;
          abcdefgh_3 = unpack_lo_128_avx512 abcd_3 efgh_3;
          abcdefgh_4 = unpack_hi_128_avx512 abcd_0 efgh_0;
          abcdefgh_5 = unpack_hi_128_avx512 abcd_1 efgh_1;
          abcdefgh_6 = unpack_hi_128_avx512 abcd_2 efgh_2;
          abcdefgh_7 = unpack_hi_128_avx512 abcd_3 efgh_3;
          ijklmnop_0 = unpack_lo_128_avx512 ijkl_0 mnop_0;
          ijklmnop_1 = unpack_lo_128_avx512 ijkl_1 mnop_1;
          ijklmnop_2 = unpack_lo_128_avx512 ijkl_2 mnop_2;
          ijklmnop_3 = unpack_lo_128_avx512 ijkl_3 mnop_3;
          ijklmnop_4 = unpack_hi_128_avx512 ijkl_0 mnop_0;
          ijklmnop_5 = unpack_hi_128_avx512 ijkl_1 mnop_1;
          ijklmnop_6 = unpack_hi_128_avx512 ijkl_2 mnop_2;
          ijklmnop_7 = unpack_hi_128_avx512 ijkl_3 mnop_3
      in [unpack_lo_128_avx512 abcdefgh_0 ijklmnop_0,
          unpack_lo_128_avx512 abcdefgh_1 ijklmnop_1,
          unpack_lo_128_avx512 abcdefgh_2 ijklmnop_2,
          unpack_lo_128_avx512 abcdefgh_3 ijklmnop_3,
          unpack_lo_128_avx512 abcdefgh_4 ijklmnop_4,
          unpack_lo_128_avx512 abcdefgh_5 ijklmnop_5,
          unpack_lo_128_avx512 abcdefgh_6 ijklmnop_6,
          unpack_lo_128_avx512 abcdefgh_7 ijklmnop_7,
          unpack_hi_128_avx512 abcdefgh_0 ijklmnop_0,
          unpack_hi_128_avx512 abcdefgh_1 ijklmnop_1,
          unpack_hi_128_avx512 abcdefgh_2 ijklmnop_2,
          unpack_hi_128_avx512 abcdefgh_3 ijklmnop_3,
          unpack_hi_128_avx512 abcdefgh_4 ijklmnop_4,
          unpack_hi_128_avx512 abcdefgh_5 ijklmnop_5,
          unpack_hi_128_avx512 abcdefgh_6 ijklmnop_6,
          unpack_hi_128_avx512 abcdefgh_7 ijklmnop_7])"

definition transpose_msg_vecs16_avx512 :: "byte list list \<Rightarrow> nat \<Rightarrow> vec list" where
  "transpose_msg_vecs16_avx512 inputs block_offset =
     transpose_vecs_512_avx512 (map (\<lambda>i. loadu_512_avx512 (drop (block_offset + 0) (inputs ! i))) [0..<16])"

text \<open>These two transpose the first group of their vectors only.\<close>

definition transpose_msg_vecs8_avx512 :: "byte list list \<Rightarrow> nat \<Rightarrow> vec list" where
  "transpose_msg_vecs8_avx512 inputs block_offset =
     transpose_vecs_avx2 (map (\<lambda>i. loadu_256_avx512 (drop (block_offset + 0) (inputs ! i))) [0..<8]) @
     map (\<lambda>i. loadu_256_avx512 (drop (block_offset + 32) (inputs ! i))) [0..<8]"

definition transpose_msg_vecs4_avx512 :: "byte list list \<Rightarrow> nat \<Rightarrow> vec list" where
  "transpose_msg_vecs4_avx512 inputs block_offset =
     transpose_vecs_sse2 (map (\<lambda>i. loadu_128_avx512 (drop (block_offset + 0) (inputs ! i))) [0..<4]) @
     map (\<lambda>i. loadu_128_avx512 (drop (block_offset + 16) (inputs ! i))) [0..<4] @
     map (\<lambda>i. loadu_128_avx512 (drop (block_offset + 32) (inputs ! i))) [0..<4] @
     map (\<lambda>i. loadu_128_avx512 (drop (block_offset + 48) (inputs ! i))) [0..<4]"

definition load_counters16_avx512 :: "u64 \<Rightarrow> bool \<Rightarrow> vec \<times> vec" where
  "load_counters16_avx512 counter increment_counter =
     (let mask = set1_epi32 16 (if increment_counter then - 1 else 0);
          deltas = set_epi32 [15, 14, 13, 12, 11, 10, 9, 8, 7, 6, 5, 4, 3, 2, 1, 0];
          masked_deltas = and_si deltas mask;
          low_words = add_epi32 (set1_epi32 16 (ucast counter)) masked_deltas;
          carries = srli_epi32 (andnot_si low_words (set1_epi32 16 (ucast counter))) 31;
          high_words = add_epi32 (set1_epi32 16 (ucast (drop_bit 32 counter))) carries
      in (low_words, high_words))"

definition load_counters8_avx512 :: "u64 \<Rightarrow> bool \<Rightarrow> vec \<times> vec" where
  "load_counters8_avx512 counter increment_counter =
     (let mask = set1_epi32 8 (if increment_counter then - 1 else 0);
          deltas = set_epi32 [7, 6, 5, 4, 3, 2, 1, 0];
          masked_deltas = and_si mask deltas;
          low_words = add_epi32 (set1_epi32 8 (ucast counter)) masked_deltas;
          carries = srli_epi32 (andnot_si low_words (set1_epi32 8 (ucast counter))) 31;
          high_words = add_epi32 (set1_epi32 8 (ucast (drop_bit 32 counter))) carries
      in (low_words, high_words))"

definition load_counters4_avx512 :: "u64 \<Rightarrow> bool \<Rightarrow> vec \<times> vec" where
  "load_counters4_avx512 counter increment_counter =
     (let mask = set1_epi32 4 (if increment_counter then - 1 else 0);
          deltas = set_epi32 [3, 2, 1, 0];
          masked_deltas = and_si mask deltas;
          low_words = add_epi32 (set1_epi32 4 (ucast counter)) masked_deltas;
          carries = srli_epi32 (andnot_si low_words (set1_epi32 4 (ucast counter))) 31;
          high_words = add_epi32 (set1_epi32 4 (ucast (drop_bit 32 counter))) carries
      in (low_words, high_words))"

definition avx512_kernel16 :: kernel where
  "avx512_kernel16 =
     \<lparr>k_add = add_512_avx512, k_xor = xor_512_avx512, k_rot16 = rot16_512_avx512, k_rot12 = rot12_512_avx512,
      k_rot8 = rot8_512_avx512, k_rot7 = rot7_512_avx512, k_set1 = set1_512_avx512,
      k_load_counters = load_counters16_avx512, k_transpose_msg_vecs = transpose_msg_vecs16_avx512\<rparr>"

definition avx512_kernel8 :: kernel where
  "avx512_kernel8 =
     \<lparr>k_add = add_256_avx512, k_xor = xor_256_avx512, k_rot16 = rot16_256_avx512, k_rot12 = rot12_256_avx512,
      k_rot8 = rot8_256_avx512, k_rot7 = rot7_256_avx512, k_set1 = set1_256_avx512,
      k_load_counters = load_counters8_avx512, k_transpose_msg_vecs = transpose_msg_vecs8_avx512\<rparr>"

definition avx512_kernel4 :: kernel where
  "avx512_kernel4 =
     \<lparr>k_add = add_128_avx512, k_xor = xor_128_avx512, k_rot16 = rot16_128_avx512, k_rot12 = rot12_128_avx512,
      k_rot8 = rot8_128_avx512, k_rot7 = rot7_128_avx512, k_set1 = set1_128_avx512,
      k_load_counters = load_counters4_avx512, k_transpose_msg_vecs = transpose_msg_vecs4_avx512\<rparr>"

definition compress_pre_avx512 :: "u32 list \<Rightarrow> byte list \<Rightarrow> byte \<Rightarrow> u64 \<Rightarrow> byte \<Rightarrow> rows" where
  "compress_pre_avx512 cv block block_len counter flags =
     compress_pre_vec avx512_kernel4 msg_next_avx512 cv block block_len counter flags"

definition blake3_compress_in_place_avx512 :: "u32 list \<Rightarrow> byte list \<Rightarrow> byte \<Rightarrow> u64 \<Rightarrow> byte \<Rightarrow> u32 list" where
  "blake3_compress_in_place_avx512 cv block block_len counter flags =
     compress_in_place_vec avx512_kernel4 (compress_pre_avx512 cv block block_len counter flags)"

definition blake3_compress_xof_avx512 :: "u32 list \<Rightarrow> byte list \<Rightarrow> byte \<Rightarrow> u64 \<Rightarrow> byte \<Rightarrow> byte list" where
  "blake3_compress_xof_avx512 cv block block_len counter flags =
     compress_xof_vec avx512_kernel4 cv (compress_pre_avx512 cv block block_len counter flags)"

definition round_fn4_avx512 :: "vec list \<Rightarrow> vec list \<Rightarrow> nat \<Rightarrow> vec list" where
  "round_fn4_avx512 v m r = round_fn_vec avx512_kernel4 v m r"

definition round_fn8_avx512 :: "vec list \<Rightarrow> vec list \<Rightarrow> nat \<Rightarrow> vec list" where
  "round_fn8_avx512 v m r = round_fn_vec avx512_kernel8 v m r"

definition round_fn16_avx512 :: "vec list \<Rightarrow> vec list \<Rightarrow> nat \<Rightarrow> vec list" where
  "round_fn16_avx512 v m r = round_fn_vec avx512_kernel16 v m r"

text \<open>The mask of the stores is full, so the bytes that were there before do not matter.\<close>

definition blake3_hash16_avx512 :: "byte list list \<Rightarrow> nat \<Rightarrow> u32 list \<Rightarrow> u64 \<Rightarrow> bool \<Rightarrow> byte \<Rightarrow> byte \<Rightarrow> byte \<Rightarrow> byte list" where
  "blake3_hash16_avx512 inputs blocks key counter increment_counter flags flags_start flags_end =
     (let h_vecs = hash_vecs avx512_kernel16 inputs blocks key counter increment_counter flags flags_start flags_end;
          padded = h_vecs @ replicate 8 (set1_512_avx512 0);
          padded = transpose_vecs_512_avx512 padded
      in concat (map (\<lambda>i. mask_storeu_epi32 (replicate 32 0) (- 1) (castsi512_si256 (padded ! i))) [0..<16]))"

definition blake3_hash8_avx512 :: "byte list list \<Rightarrow> nat \<Rightarrow> u32 list \<Rightarrow> u64 \<Rightarrow> bool \<Rightarrow> byte \<Rightarrow> byte \<Rightarrow> byte \<Rightarrow> byte list" where
  "blake3_hash8_avx512 inputs blocks key counter increment_counter flags flags_start flags_end =
     (let h_vecs = hash_vecs avx512_kernel8 inputs blocks key counter increment_counter flags flags_start flags_end;
          h_vecs = transpose_vecs_avx2 h_vecs
      in concat (map (\<lambda>i. storeu_256_avx512 (h_vecs ! i)) [0..<8]))"

definition blake3_hash4_avx512 :: "byte list list \<Rightarrow> nat \<Rightarrow> u32 list \<Rightarrow> u64 \<Rightarrow> bool \<Rightarrow> byte \<Rightarrow> byte \<Rightarrow> byte \<Rightarrow> byte list" where
  "blake3_hash4_avx512 inputs blocks key counter increment_counter flags flags_start flags_end =
     (let h_vecs = hash_vecs avx512_kernel4 inputs blocks key counter increment_counter flags flags_start flags_end;
          h_vecs = transpose_vecs_sse2 (take 4 h_vecs) @ drop 4 h_vecs
      in concat (map (\<lambda>i. storeu_128_avx512 (h_vecs ! i)) [0, 4, 1, 5, 2, 6, 3, 7]))"

definition hash_one_avx512 :: "byte list \<Rightarrow> nat \<Rightarrow> u32 list \<Rightarrow> u64 \<Rightarrow> byte \<Rightarrow> byte \<Rightarrow> byte \<Rightarrow> byte list" where
  "hash_one_avx512 input blocks key counter flags flags_start flags_end =
     bytes_of (hash_one_loop blake3_compress_in_place_avx512 input blocks counter flags flags_end
       (flags OR flags_start) key)"

definition blake3_hash_many_avx512 :: "byte list list \<Rightarrow> nat \<Rightarrow> u32 list \<Rightarrow> u64 \<Rightarrow> bool \<Rightarrow> byte \<Rightarrow> byte \<Rightarrow> byte \<Rightarrow> byte list list" where
  "blake3_hash_many_avx512 inputs blocks key counter increment_counter flags flags_start flags_end =
     (let (out16, inputs, counter) = many_loop 16
            (\<lambda>is c. blake3_hash16_avx512 is blocks key c increment_counter flags flags_start flags_end)
            inputs counter increment_counter;
          (out8, inputs, counter) = many_loop 8
            (\<lambda>is c. blake3_hash8_avx512 is blocks key c increment_counter flags flags_start flags_end)
            inputs counter increment_counter;
          (out4, inputs, counter) = many_loop 4
            (\<lambda>is c. blake3_hash4_avx512 is blocks key c increment_counter flags flags_start flags_end)
            inputs counter increment_counter
      in out16 @ out8 @ out4 @ one_loop (\<lambda>i c. hash_one_avx512 i blocks key c flags flags_start flags_end)
           inputs counter increment_counter)"

end
