(* ===== verification/Blake3_Rows.thy ===== *)
theory Blake3_Rows
  imports Blake3_Simd
begin

text \<open>
  The single compression in rows of four words: whatever the instruction set, it computes the rounds of
  the portable code. The locale \<open>row_kernel\<close> states what a kernel's helpers must do on four words; SSE2 and
  SSE4.1 satisfy it, and the message vectors of AVX-512 do not.
\<close>

section \<open>Bytes and words\<close>

text \<open>Two words are equal when their 32 bits are, checked one by one.\<close>

lemma u32_eqI:
  assumes "list_all (\<lambda>n. bit x n = bit y n) [0, 1, 2, 3, 4, 5, 6, 7, 8, 9, 10, 11, 12, 13, 14, 15, 16, 17, 18, 19,
    20, 21, 22, 23, 24, 25, 26, 27, 28, 29, 30, 31]"
  shows "(x :: u32) = y"
proof (rule bit_word_eqI)
  fix n assume n: "n < LENGTH(32)"
  have "[0..<32] = [0, 1, 2, 3, 4, 5, 6, 7, 8, 9, 10, 11, 12, 13, 14, 15, 16, 17, 18, 19,
    20, 21, 22, 23, 24, 25, 26, 27, 28, 29, 30, 31 :: nat]" by code_simp
  then have "list_all (\<lambda>n. bit x n = bit y n) [0..<32]" using assms by (simp only:)
  then show "bit x n = bit y n" using n by (simp add: list_all_iff)
qed

lemma u32_bit_high: "32 \<le> n \<Longrightarrow> \<not> bit (w :: u32) n"
  by (auto dest: bit_imp_le_length)

lemmas u32_bits = bit_simps u32_bit_high bit_word_rotr_iff

lemma load32_store32 [simp]: "load32 (store32 w) = w"
  by (rule u32_eqI) (simp add: load32_def store32_def u32_bits)

lemma load32_append [simp]: "4 \<le> length p \<Longrightarrow> load32 (p @ q) = load32 p"
  by (auto simp: load32_def nth_append)

lemma words_of_store [simp]: "words_of (store32 w @ p) = w # words_of p"
  using load32_store32 [of w] by (simp add: store32_def)

lemma words_of_bytes_of_append: "words_of (bytes_of v @ p) = v @ words_of p"
  by (induction v) (simp_all add: bytes_of_def)

lemma words_of_bytes_of [simp]: "words_of (bytes_of v) = v"
  using words_of_bytes_of_append [of v "[]"] by simp

lemma bytes_of_simps [simp]:
  "bytes_of [] = []" "bytes_of (a # v) = store32 a @ bytes_of v" "bytes_of (v @ w) = bytes_of v @ bytes_of w"
  by (simp_all add: bytes_of_def)

lemma length_bytes_of [simp]: "length (bytes_of v) = 4 * length v"
  by (induction v) simp_all

lemma store_cv_words_eq: "length cv = 8 \<Longrightarrow> store_cv_words cv = bytes_of cv"
proof -
  assume "length cv = 8"
  then have "map (\<lambda>i. store32 (cv ! i)) [0..<8] = map store32 cv" by (intro nth_equalityI) simp_all
  then show ?thesis by (simp only: store_cv_words_def bytes_of_def)
qed

section \<open>Rotations\<close>

lemma rotr32_xor:
  "drop_bit 12 x XOR push_bit 20 x = rotr32 x 12" "drop_bit 8 x XOR push_bit 24 x = rotr32 x 8"
  "drop_bit 7 x XOR push_bit 25 x = rotr32 x 7"
  by (rule u32_eqI, simp add: rotr32_def u32_bits)+

lemma word_rotr32:
  "word_rotr 16 x = rotr32 x 16" "word_rotr 12 x = rotr32 x 12" "word_rotr 8 x = rotr32 x 8" "word_rotr 7 x = rotr32 x 7"
  by (rule u32_eqI, simp add: rotr32_def u32_bits)+

lemma rot16_bytes: "load32 [ucast (drop_bit 16 w), ucast (drop_bit 24 w), ucast w, ucast (drop_bit 8 w)] = rotr32 w 16"
  by (rule u32_eqI) (simp add: load32_def rotr32_def u32_bits)

lemma rot8_bytes: "load32 [ucast (drop_bit 8 w), ucast (drop_bit 16 w), ucast (drop_bit 24 w), ucast w] = rotr32 w 8"
  by (rule u32_eqI) (simp add: load32_def rotr32_def u32_bits)

lemma rot16_halves: "ucast (ucast (drop_bit 16 w) :: u16) OR push_bit 16 (ucast (ucast w :: u16)) = rotr32 w 16"
  by (rule u32_eqI) (simp add: rotr32_def u32_bits)

lemma join_halves: "ucast (ucast w :: u16) OR push_bit 16 (ucast (ucast (drop_bit 16 w) :: u16)) = (w :: u32)"
  by (rule u32_eqI) (simp add: u32_bits)

text \<open>The rotations of the kernels on vectors of four words.\<close>

lemma imm2_B1: "imm2 0xB1 0 = 1" "imm2 0xB1 (Suc 0) = 0" "imm2 0xB1 2 = 3" "imm2 0xB1 3 = 2"
  by (simp_all add: imm2_def)

lemma rot16_sse2_eq: "rot16_sse2 [a, b, c, d] = map (\<lambda>x. rotr32 x 16) [a, b, c, d]"
  by (simp add: rot16_sse2_def shufflelo_epi16_def shufflehi_epi16_def epi16_of_def Let_def imm2_B1
      rot16_halves join_halves)

lemma rot16_sse41_eq: "rot16_sse41 [a, b, c, d] = map (\<lambda>x. rotr32 x 16) [a, b, c, d]"
  by (simp add: rot16_sse41_def shuffle_epi8_def shuffle_group_epi8_def store32_def rot16_bytes)

lemma rot8_sse41_eq: "rot8_sse41 [a, b, c, d] = map (\<lambda>x. rotr32 x 8) [a, b, c, d]"
  by (simp add: rot8_sse41_def shuffle_epi8_def shuffle_group_epi8_def store32_def rot8_bytes)

section \<open>Blending\<close>

lemma blend_epi16_eq:
  "blend_epi16 [a, b, c, d] [e, f, g, h] 0xCC = [a, f, c, h]" "blend_epi16 [a, b, c, d] [e, f, g, h] 0xC0 = [a, b, c, h]"
  by (simp_all add: blend_epi16_def epi16_of_def join_halves)

text \<open>The masks that \<open>blend_epi16_sse2\<close> computes from its constant.\<close>

lemma blend_mask_sse2:
  "cmpeq_epi16 (and_si (set1_epi16 (of_nat 0xCC)) (set_epi16 [0x80, 0x40, 0x20, 0x10, 0x08, 0x04, 0x02, 0x01]))
     (set_epi16 [0x80, 0x40, 0x20, 0x10, 0x08, 0x04, 0x02, 0x01]) = [0, - 1, 0, - 1]"
  "cmpeq_epi16 (and_si (set1_epi16 (of_nat 0xC0)) (set_epi16 [0x80, 0x40, 0x20, 0x10, 0x08, 0x04, 0x02, 0x01]))
     (set_epi16 [0x80, 0x40, 0x20, 0x10, 0x08, 0x04, 0x02, 0x01]) = [0, 0, 0, - 1]"
  by code_simp+

lemma blend_epi16_sse2_eq:
  "blend_epi16_sse2 [a, b, c, d] [e, f, g, h] 0xCC = [a, f, c, h]"
  "blend_epi16_sse2 [a, b, c, d] [e, f, g, h] 0xC0 = [a, b, c, h]"
  unfolding blend_epi16_sse2_def Let_def blend_mask_sse2 by (simp_all add: and_si_def or_si_def andnot_si_def)

section \<open>The rounds\<close>

definition rows_of :: "u32 list \<Rightarrow> rows" where
  "rows_of st = (load_words st 0, load_words st 4, load_words st 8, load_words st 12)"

text \<open>The vectors of one round's message words, as the four calls of a round use them.\<close>

definition mvecs :: "u32 list \<Rightarrow> rows" where
  "mvecs w = ([w ! 0, w ! 2, w ! 4, w ! 6], [w ! 1, w ! 3, w ! 5, w ! 7],
     [w ! 14, w ! 8, w ! 10, w ! 12], [w ! 15, w ! 9, w ! 11, w ! 13])"

lemma msg_first_block:
  "msg_first (loadu 4 block, loadu 4 (drop 16 block), loadu 4 (drop 32 block), loadu 4 (drop 48 block)) =
     mvecs (load_block block)"
proof -
  have "[0..<4] = [0, 1, 2, 3 :: nat]" by code_simp
  then show ?thesis
    by (simp add: msg_first_def mvecs_def load_block_def loadu_def shuffle_ps_def shuffle_epi32_def imm2_def MM_SHUFFLE_def
        Let_def)
qed

locale row_ops =
  fixes K :: kernel
  assumes add4: "k_add K [a, b, c, d] [e, f, g, h] = [a + e, b + f, c + g, d + h]"
    and xor4: "k_xor K [a, b, c, d] [e, f, g, h] = [a XOR e, b XOR f, c XOR g, d XOR h]"
    and rot4: "k_rot16 K [a, b, c, d] = map (\<lambda>x. rotr32 x 16) [a, b, c, d]"
      "k_rot12 K [a, b, c, d] = map (\<lambda>x. rotr32 x 12) [a, b, c, d]"
      "k_rot8 K [a, b, c, d] = map (\<lambda>x. rotr32 x 8) [a, b, c, d]"
      "k_rot7 K [a, b, c, d] = map (\<lambda>x. rotr32 x 7) [a, b, c, d]"
begin

lemma rows_columns:
  assumes "length st = 16"
  shows "g2_vec K (g1_vec K (rows_of st) [a, c, e, g]) [b, d, f, h] =
    rows_of (g_portable (g_portable (g_portable (g_portable st 0 4 8 12 a b) 1 5 9 13 c d) 2 6 10 14 e f) 3 7 11 15 g h)"
proof -
  obtain s0 s1 s2 s3 s4 s5 s6 s7 s8 s9 s10 s11 s12 s13 s14 s15
    where st: "st = [s0, s1, s2, s3, s4, s5, s6, s7, s8, s9, s10, s11, s12, s13, s14, s15]"
    using assms by (auto simp: length_Suc_conv numeral_eq_Suc)
  show ?thesis
    by (simp add: st rows_of_def load_words_def g1_vec_def g2_vec_def Let_def add4 xor4 rot4 g_portable_def
        add.assoc add.commute add.left_commute)
qed

lemma rows_diagonals:
  assumes "length st = 16"
  shows "undiagonalize (g2_vec K (g1_vec K (diagonalize (rows_of st)) [g, a, c, e]) [h, b, d, f]) =
    rows_of (g_portable (g_portable (g_portable (g_portable st 0 5 10 15 a b) 1 6 11 12 c d) 2 7 8 13 e f) 3 4 9 14 g h)"
proof -
  obtain s0 s1 s2 s3 s4 s5 s6 s7 s8 s9 s10 s11 s12 s13 s14 s15
    where st: "st = [s0, s1, s2, s3, s4, s5, s6, s7, s8, s9, s10, s11, s12, s13, s14, s15]"
    using assms by (auto simp: length_Suc_conv numeral_eq_Suc)
  show ?thesis
    by (simp add: st rows_of_def load_words_def g1_vec_def g2_vec_def diagonalize_def undiagonalize_def shuffle_epi32_def
        imm2_def MM_SHUFFLE_def Let_def add4 xor4 rot4 g_portable_def add.assoc add.commute add.left_commute)
qed

lemma rows_round_eq:
  assumes "length st = 16"
  shows "rows_round K (rows_of st) (mvecs w) = rows_of (spec_round st w)"
proof -
  have "[0..<8] = [0, 1, 2, 3, 4, 5, 6, 7 :: nat]" by code_simp
  then show ?thesis
    using assms by (simp add: rows_round_def mvecs_def spec_round_def Let_def rows_columns rows_diagonals)
qed

lemma compress_in_place_vec_eq:
  "compress_in_place_vec K (rows_of st) = map (\<lambda>i. st ! i XOR st ! (i + 8)) [0..<8]"
proof -
  have "[0..<8] = [0, 1, 2, 3, 4, 5, 6, 7 :: nat]" by code_simp
  then show ?thesis
    by (simp add: compress_in_place_vec_def rows_of_def load_words_def xor4 flip: numeral_2_eq_2)
qed

lemma compress_xof_vec_eq:
  "compress_xof_vec K cv (rows_of st) =
     concat (map (\<lambda>i. store32 (st ! i XOR st ! (i + 8))) [0..<8]) @
     concat (map (\<lambda>i. store32 (st ! (i + 8) XOR cv ! i)) [0..<8])"
proof -
  have "[0..<8] = [0, 1, 2, 3, 4, 5, 6, 7 :: nat]" by code_simp
  then show ?thesis by (simp add: compress_xof_vec_def rows_of_def load_words_def xor4 flip: numeral_2_eq_2)
qed

end

text \<open>Operations that step from one round's message vectors to those of the next.\<close>

locale row_kernel = row_ops +
  fixes next_msg :: "rows \<Rightarrow> rows"
  assumes next_msg: "next_msg (mvecs w) = mvecs (permute w)"
begin

lemma compress_pre_vec_eq:
  "compress_pre_vec K next_msg cv block bl ctr fl = rows_of (compress_pre_portable cv block bl ctr fl)"
proof -
  have r: "rows_of (init_state cv bl ctr fl) = (load_words cv 0, load_words cv 4,
      setr_epi32 [IV ! 0, IV ! 1, IV ! 2, IV ! 3],
      setr_epi32 [counter_low ctr, counter_high ctr, ucast bl, ucast fl])"
    by (simp add: rows_of_def load_words_def init_state_def setr_epi32_def flip: numeral_2_eq_2)
  have l: "length (spec_round st w) = length st" for st w by (simp add: spec_round_def numeral_eq_Suc)
  have "length (init_state cv bl ctr fl) = 16" by (simp add: init_state_def)
  then show ?thesis
    unfolding compress_pre_vec_def Let_def msg_first_block r [symmetric]
    by (simp add: compress_pre_is_spec rows_round_eq next_msg l numeral_eq_Suc)
qed

lemmas compress_eqs = compress_pre_vec_eq compress_in_place_vec_eq compress_xof_vec_eq

end

section \<open>SSE2 and SSE4.1\<close>

lemmas msg_shuffles = msg_next_def Let_def mvecs_def shuffle_ps_def shuffle_epi32_def imm2_def MM_SHUFFLE_def unpacklo_epi64_def
  unpackhi_epi32_def unpacklo_epi32_def blend_epi16_eq blend_epi16_sse2_eq permute_def msg_permutation_def

lemmas word_ops = add_epi32_def xor_si_def srli_epi32_def slli_epi32_def rotr32_xor

interpretation sse2_rows: row_kernel sse2_kernel "msg_next blend_epi16_sse2"
  by unfold_locales
    (simp_all add: sse2_kernel_def addv_sse2_def xorv_sse2_def rot16_sse2_eq rot12_sse2_def rot8_sse2_def rot7_sse2_def
      word_ops msg_shuffles)

interpretation sse41_rows: row_kernel sse41_kernel "msg_next blend_epi16"
  by unfold_locales
    (simp_all add: sse41_kernel_def addv_sse41_def xorv_sse41_def rot16_sse41_eq rot12_sse41_def rot8_sse41_eq rot7_sse41_def
      word_ops msg_shuffles)

lemma compress_sse2:
  "blake3_compress_in_place_sse2 = blake3_compress_in_place_portable"
  "blake3_compress_xof_sse2 = blake3_compress_xof_portable"
  by (simp_all add: fun_eq_iff blake3_compress_in_place_sse2_def blake3_compress_xof_sse2_def compress_pre_sse2_def
      sse2_rows.compress_eqs blake3_compress_in_place_portable_def blake3_compress_xof_portable_def Let_def)

lemma compress_sse41:
  "blake3_compress_in_place_sse41 = blake3_compress_in_place_portable"
  "blake3_compress_xof_sse41 = blake3_compress_xof_portable"
  by (simp_all add: fun_eq_iff blake3_compress_in_place_sse41_def blake3_compress_xof_sse41_def compress_pre_sse41_def
      sse41_rows.compress_eqs blake3_compress_in_place_portable_def blake3_compress_xof_portable_def Let_def)

end
