(* ===== verification/Blake3_Lanes.thy ===== *)
theory Blake3_Lanes
  imports Blake3_Rows
begin

text \<open>
  The kernels that hash several inputs at once: lane \<open>j\<close> of the vectors is the portable state of input \<open>j\<close>.
  The locale \<open>lane_kernel\<close> is the contract of an instruction set's helpers, and its lemmas carry over to
  the whole \<open>hash_many\<close> functions. SSE2, SSE4.1, AVX2 and the kernel of sixteen lanes of AVX-512 satisfy it.
\<close>

section \<open>Lanes\<close>

definition lane :: "nat \<Rightarrow> vec list \<Rightarrow> u32 list" where
  "lane j vs = map (\<lambda>v. v ! j) vs"

definition shaped :: "nat \<Rightarrow> nat \<Rightarrow> vec list \<Rightarrow> bool" where
  "shaped k n vs \<longleftrightarrow> length vs = k \<and> list_all (\<lambda>v. length v = n) vs"

lemma shaped_nth: "shaped k n vs \<Longrightarrow> i < k \<Longrightarrow> length (vs ! i) = n"
  by (simp add: shaped_def list_all_length)

lemma lane_nth: "i < length vs \<Longrightarrow> lane j vs ! i = vs ! i ! j"
  by (simp add: lane_def)

lemma list16E:
  assumes "length v = 16"
  obtains v0 v1 v2 v3 v4 v5 v6 v7 v8 v9 v10 v11 v12 v13 v14 v15
  where "v = [v0, v1, v2, v3, v4, v5, v6, v7, v8, v9, v10, v11, v12, v13, v14, v15]"
  using assms by (auto simp: length_Suc_conv numeral_eq_Suc)

section \<open>Quarter rounds\<close>

text \<open>The four results of a quarter round on words, and on vectors.\<close>

definition quarter :: "u32 \<Rightarrow> u32 \<Rightarrow> u32 \<Rightarrow> u32 \<Rightarrow> u32 \<Rightarrow> u32 \<Rightarrow> u32 \<times> u32 \<times> u32 \<times> u32" where
  "quarter a b c d x y =
     (let a = a + b + x; d = rotr32 (d XOR a) 16; c = c + d; b = rotr32 (b XOR c) 12;
          a = a + b + y; d = rotr32 (d XOR a) 8; c = c + d; b = rotr32 (b XOR c) 7
      in (a, b, c, d))"

definition quarter_vec :: "kernel \<Rightarrow> vec \<Rightarrow> vec \<Rightarrow> vec \<Rightarrow> vec \<Rightarrow> vec \<Rightarrow> vec \<Rightarrow> vec \<times> vec \<times> vec \<times> vec" where
  "quarter_vec K a b c d x y =
     (let a = k_add K (k_add K a x) b; d = k_rot16 K (k_xor K d a); c = k_add K c d; b = k_rot12 K (k_xor K b c);
          a = k_add K (k_add K a y) b; d = k_rot8 K (k_xor K d a); c = k_add K c d; b = k_rot7 K (k_xor K b c)
      in (a, b, c, d))"

abbreviation "q_a q \<equiv> fst q"
abbreviation "q_b q \<equiv> fst (snd q)"
abbreviation "q_c q \<equiv> fst (snd (snd q))"
abbreviation "q_d q \<equiv> snd (snd (snd q))"

lemma g_portable_quarter:
  assumes "distinct [a, b, c, d]" "a < length st" "b < length st" "c < length st" "d < length st"
  shows "g_portable st a b c d x y = (let q = quarter (st ! a) (st ! b) (st ! c) (st ! d) x y
    in st[a := q_a q, b := q_b q, c := q_c q, d := q_d q])"
  using assms by (simp add: g_portable_def quarter_def Let_def) (rule nth_equalityI; auto simp: nth_list_update)

lemma columns_vec_quarters:
  "columns_vec K [v0, v1, v2, v3, v4, v5, v6, v7, v8, v9, v10, v11, v12, v13, v14, v15] m s =
     (let q0 = quarter_vec K v0 v4 v8 v12 (m ! (s ! 0)) (m ! (s ! 1));
          q1 = quarter_vec K v1 v5 v9 v13 (m ! (s ! 2)) (m ! (s ! 3));
          q2 = quarter_vec K v2 v6 v10 v14 (m ! (s ! 4)) (m ! (s ! 5));
          q3 = quarter_vec K v3 v7 v11 v15 (m ! (s ! 6)) (m ! (s ! 7))
      in [q_a q0, q_a q1, q_a q2, q_a q3, q_b q0, q_b q1, q_b q2, q_b q3,
          q_c q0, q_c q1, q_c q2, q_c q3, q_d q0, q_d q1, q_d q2, q_d q3])"
  by (simp add: columns_vec_def quarter_vec_def Let_def cong: let_weak_cong)

lemma diagonals_vec_quarters:
  "diagonals_vec K [v0, v1, v2, v3, v4, v5, v6, v7, v8, v9, v10, v11, v12, v13, v14, v15] m s =
     (let q0 = quarter_vec K v0 v5 v10 v15 (m ! (s ! 8)) (m ! (s ! 9));
          q1 = quarter_vec K v1 v6 v11 v12 (m ! (s ! 10)) (m ! (s ! 11));
          q2 = quarter_vec K v2 v7 v8 v13 (m ! (s ! 12)) (m ! (s ! 13));
          q3 = quarter_vec K v3 v4 v9 v14 (m ! (s ! 14)) (m ! (s ! 15))
      in [q_a q0, q_a q1, q_a q2, q_a q3, q_b q3, q_b q0, q_b q1, q_b q2,
          q_c q2, q_c q3, q_c q0, q_c q1, q_d q1, q_d q2, q_d q3, q_d q0])"
  by (simp add: diagonals_vec_def quarter_vec_def Let_def cong: let_weak_cong)

section \<open>Kernels\<close>

text \<open>The counter of lane \<open>j\<close>.\<close>

definition lane_counter :: "u64 \<Rightarrow> bool \<Rightarrow> nat \<Rightarrow> u64" where
  "lane_counter c inc j = (if inc then c + of_nat j else c)"

locale lane_kernel =
  fixes K :: kernel and n :: nat
  assumes add: "length a = n \<Longrightarrow> length b = n \<Longrightarrow> k_add K a b = map2 (+) a b"
    and xor: "length a = n \<Longrightarrow> length b = n \<Longrightarrow> k_xor K a b = map2 (XOR) a b"
    and rot: "length a = n \<Longrightarrow> k_rot16 K a = map (\<lambda>x. rotr32 x 16) a"
      "length a = n \<Longrightarrow> k_rot12 K a = map (\<lambda>x. rotr32 x 12) a"
      "length a = n \<Longrightarrow> k_rot8 K a = map (\<lambda>x. rotr32 x 8) a"
      "length a = n \<Longrightarrow> k_rot7 K a = map (\<lambda>x. rotr32 x 7) a"
    and set1: "k_set1 K x = replicate n x"
    and counters: "k_load_counters K c inc = (map (\<lambda>j. counter_low (lane_counter c inc j)) [0..<n],
      map (\<lambda>j. counter_high (lane_counter c inc j)) [0..<n])"
    and transpose: "length inputs = n \<Longrightarrow> k_transpose_msg_vecs K inputs off =
      map (\<lambda>i. map (\<lambda>p. load32 (drop (off + 4 * i) p)) inputs) [0..<16]"
begin

lemma op_length [simp]:
  "length a = n \<Longrightarrow> length b = n \<Longrightarrow> length (k_add K a b) = n"
  "length a = n \<Longrightarrow> length b = n \<Longrightarrow> length (k_xor K a b) = n"
  "length a = n \<Longrightarrow> length (k_rot16 K a) = n" "length a = n \<Longrightarrow> length (k_rot12 K a) = n"
  "length a = n \<Longrightarrow> length (k_rot8 K a) = n" "length a = n \<Longrightarrow> length (k_rot7 K a) = n"
  by (simp_all add: add xor rot)

lemma op_nth [simp]:
  "j < n \<Longrightarrow> length a = n \<Longrightarrow> length b = n \<Longrightarrow> k_add K a b ! j = a ! j + b ! j"
  "j < n \<Longrightarrow> length a = n \<Longrightarrow> length b = n \<Longrightarrow> k_xor K a b ! j = a ! j XOR b ! j"
  "j < n \<Longrightarrow> length a = n \<Longrightarrow> k_rot16 K a ! j = rotr32 (a ! j) 16"
  "j < n \<Longrightarrow> length a = n \<Longrightarrow> k_rot12 K a ! j = rotr32 (a ! j) 12"
  "j < n \<Longrightarrow> length a = n \<Longrightarrow> k_rot8 K a ! j = rotr32 (a ! j) 8"
  "j < n \<Longrightarrow> length a = n \<Longrightarrow> k_rot7 K a ! j = rotr32 (a ! j) 7"
  by (simp_all add: add xor rot)

lemma quarter_lane:
  assumes "length a = n" "length b = n" "length c = n" "length d = n" "length x = n" "length y = n"
  shows "length (q_a (quarter_vec K a b c d x y)) = n" "length (q_b (quarter_vec K a b c d x y)) = n"
    "length (q_c (quarter_vec K a b c d x y)) = n" "length (q_d (quarter_vec K a b c d x y)) = n"
    "j < n \<Longrightarrow> quarter (a ! j) (b ! j) (c ! j) (d ! j) (x ! j) (y ! j) =
      (q_a (quarter_vec K a b c d x y) ! j, q_b (quarter_vec K a b c d x y) ! j,
       q_c (quarter_vec K a b c d x y) ! j, q_d (quarter_vec K a b c d x y) ! j)"
  using assms by (simp_all add: quarter_vec_def quarter_def Let_def add.assoc add.commute add.left_commute)

lemma columns_lane:
  assumes "shaped 16 n v" "\<And>k. k < 16 \<Longrightarrow> length (m ! (s ! k)) = n" "j < n"
  shows "shaped 16 n (columns_vec K v m s) \<and> lane j (columns_vec K v m s) =
    g_portable (g_portable (g_portable (g_portable (lane j v)
      0 4 8 12 (m ! (s ! 0) ! j) (m ! (s ! 1) ! j))
      1 5 9 13 (m ! (s ! 2) ! j) (m ! (s ! 3) ! j))
      2 6 10 14 (m ! (s ! 4) ! j) (m ! (s ! 5) ! j))
      3 7 11 15 (m ! (s ! 6) ! j) (m ! (s ! 7) ! j)"
proof -
  obtain v0 v1 v2 v3 v4 v5 v6 v7 v8 v9 v10 v11 v12 v13 v14 v15
    where v: "v = [v0, v1, v2, v3, v4, v5, v6, v7, v8, v9, v10, v11, v12, v13, v14, v15]"
    using assms(1) list16E [of v] unfolding shaped_def by blast
  have l: "length v0 = n" "length v1 = n" "length v2 = n" "length v3 = n" "length v4 = n" "length v5 = n"
    "length v6 = n" "length v7 = n" "length v8 = n" "length v9 = n" "length v10 = n" "length v11 = n"
    "length v12 = n" "length v13 = n" "length v14 = n" "length v15 = n"
    using assms(1) by (simp_all add: v shaped_def)
  show ?thesis
    unfolding v columns_vec_quarters
    using assms(2,3) l by (simp add: Let_def shaped_def lane_def g_portable_quarter quarter_lane)
qed

lemma diagonals_lane:
  assumes "shaped 16 n v" "\<And>k. k < 16 \<Longrightarrow> length (m ! (s ! k)) = n" "j < n"
  shows "shaped 16 n (diagonals_vec K v m s) \<and> lane j (diagonals_vec K v m s) =
    g_portable (g_portable (g_portable (g_portable (lane j v)
      0 5 10 15 (m ! (s ! 8) ! j) (m ! (s ! 9) ! j))
      1 6 11 12 (m ! (s ! 10) ! j) (m ! (s ! 11) ! j))
      2 7 8 13 (m ! (s ! 12) ! j) (m ! (s ! 13) ! j))
      3 4 9 14 (m ! (s ! 14) ! j) (m ! (s ! 15) ! j)"
proof -
  obtain v0 v1 v2 v3 v4 v5 v6 v7 v8 v9 v10 v11 v12 v13 v14 v15
    where v: "v = [v0, v1, v2, v3, v4, v5, v6, v7, v8, v9, v10, v11, v12, v13, v14, v15]"
    using assms(1) list16E [of v] unfolding shaped_def by blast
  have l: "length v0 = n" "length v1 = n" "length v2 = n" "length v3 = n" "length v4 = n" "length v5 = n"
    "length v6 = n" "length v7 = n" "length v8 = n" "length v9 = n" "length v10 = n" "length v11 = n"
    "length v12 = n" "length v13 = n" "length v14 = n" "length v15 = n"
    using assms(1) by (simp_all add: v shaped_def)
  show ?thesis
    unfolding v diagonals_vec_quarters
    using assms(2,3) l by (simp add: Let_def shaped_def lane_def g_portable_quarter quarter_lane)
qed

lemma round_lane:
  assumes "shaped 16 n v" "shaped 16 n m" "r < 7" "j < n"
  shows "shaped 16 n (round_fn_vec K v m r)" "lane j (round_fn_vec K v m r) = round_fn_portable (lane j v) (lane j m) r"
proof -
  let ?s = "MSG_SCHEDULE ! r"
  have "list_all (\<lambda>r. list_all (\<lambda>k. MSG_SCHEDULE ! r ! k < 16) [0..<16]) [0..<7]" by code_simp
  then have s: "?s ! k < 16" if "k < 16" for k using assms(3) that by (simp add: list_all_iff)
  then have m: "length (m ! (?s ! k)) = n" "lane j m ! (?s ! k) = m ! (?s ! k) ! j" if "k < 16" for k
    using that assms(2) by (simp_all add: shaped_nth lane_nth shaped_def)
  note c = columns_lane [OF assms(1) m(1) assms(4)]
  note d = diagonals_lane [OF conjunct1 [OF c] m(1) assms(4)]
  show "shaped 16 n (round_fn_vec K v m r)" using d by (simp add: round_fn_vec_def)
  show "lane j (round_fn_vec K v m r) = round_fn_portable (lane j v) (lane j m) r"
    using c d m by (simp add: round_fn_vec_def round_fn_portable_def Let_def)
qed

lemma rounds_lane:
  assumes "shaped 16 n v" "shaped 16 n m" "j < n"
  defines "w \<equiv> round_fn_vec K (round_fn_vec K (round_fn_vec K (round_fn_vec K (round_fn_vec K (round_fn_vec K
    (round_fn_vec K v m 0) m 1) m 2) m 3) m 4) m 5) m 6"
  shows "shaped 16 n w" "lane j w = round_fn_portable (round_fn_portable (round_fn_portable (round_fn_portable
    (round_fn_portable (round_fn_portable (round_fn_portable (lane j v) (lane j m) 0) (lane j m) 1) (lane j m) 2)
    (lane j m) 3) (lane j m) 4) (lane j m) 5) (lane j m) 6"
  unfolding w_def using assms(1-3) by (simp_all add: round_lane)

lemma lane_transpose:
  assumes "length inputs = n" "j < n" "off + 64 \<le> length (inputs ! j)"
  shows "shaped 16 n (k_transpose_msg_vecs K inputs off)"
    "lane j (k_transpose_msg_vecs K inputs off) = load_block (take 64 (drop off (inputs ! j)))"
proof -
  show "shaped 16 n (k_transpose_msg_vecs K inputs off)"
    using assms(1) by (simp add: transpose shaped_def list_all_iff)
  have "load32 (drop (off + 4 * i) p) = load32 (drop (4 * i) (take 64 (drop off p)))" if "i < 16" "off + 64 \<le> length p" for i p
    using that by (simp add: load32_def add.assoc)
  then show "lane j (k_transpose_msg_vecs K inputs off) = load_block (take 64 (drop off (inputs ! j)))"
    using assms by (simp add: transpose lane_def load_block_def)
qed

lemma hash_blocks_lane:
  assumes "shaped 8 n h" "length inputs = n" "j < n" "64 * (block + left) \<le> length (inputs ! j)"
    and "length lo = n" "length hi = n" "lo ! j = counter_low c" "hi ! j = counter_high c"
  shows "shaped 8 n (hash_blocks left K inputs block flags fe bf lo hi h) \<and>
    lane j (hash_blocks left K inputs block flags fe bf lo hi h) =
      hash_one_loop blake3_compress_in_place_portable (drop (64 * block) (inputs ! j)) left c flags fe bf (lane j h)"
  using assms(1,4)
proof (induction left arbitrary: block bf h)
  case (Suc left)
  define bf' where "bf' = (if left = 0 then bf OR fe else bf)"
  define m where "m = k_transpose_msg_vecs K inputs (block * 64)"
  define v where "v = [h ! 0, h ! 1, h ! 2, h ! 3, h ! 4, h ! 5, h ! 6, h ! 7,
    k_set1 K (IV ! 0), k_set1 K (IV ! 1), k_set1 K (IV ! 2), k_set1 K (IV ! 3), lo, hi, k_set1 K 64, k_set1 K (ucast bf')]"
  define w where "w = round_fn_vec K (round_fn_vec K (round_fn_vec K (round_fn_vec K (round_fn_vec K (round_fn_vec K
    (round_fn_vec K v m 0) m 1) m 2) m 3) m 4) m 5) m 6"
  define h' where "h' = map (\<lambda>i. k_xor K (w ! i) (w ! (i + 8))) [0..<8]"
  let ?b = "take 64 (drop (64 * block) (inputs ! j))"
  have sm: "shaped 16 n m" and lm: "lane j m = load_block ?b"
    using lane_transpose [OF assms(2,3), of "block * 64"] Suc.prems(2) by (simp_all add: m_def mult.commute)
  have sv: "shaped 16 n v"
    using Suc.prems(1) assms(5,6) shaped_nth [OF Suc.prems(1)] by (simp add: v_def shaped_def set1)
  have lv: "lane j v = init_state (lane j h) 64 c bf'"
    using Suc.prems(1) assms(3,7,8)
    by (simp add: v_def lane_def shaped_def init_state_def set1)
  have w: "shaped 16 n w" "lane j w = compress_pre_portable (lane j h) ?b 64 c bf'"
    using rounds_lane [OF sv sm assms(3)] lm lv by (simp_all add: w_def compress_pre_portable_def Let_def)
  have wn: "length (w ! i) = n" "w ! i ! j = lane j w ! i" if "i < 16" for i
    using that w(1) by (simp_all add: shaped_nth lane_nth shaped_def)
  have h': "shaped 8 n h'" using wn(1) by (simp add: h'_def shaped_def list_all_iff)
  have "lane j h' = map (\<lambda>i. w ! i ! j XOR w ! (i + 8) ! j) [0..<8]"
    unfolding h'_def lane_def map_map using wn(1) assms(3) by (intro map_cong) simp_all
  also have "\<dots> = blake3_compress_in_place_portable (lane j h) ?b 64 c bf'"
    by (simp add: blake3_compress_in_place_portable_def Let_def wn(2) w(2))
  finally have lh': "lane j h' = blake3_compress_in_place_portable (lane j h) ?b 64 c bf'" .
  have "hash_blocks (Suc left) K inputs block flags fe bf lo hi h = hash_blocks left K inputs (block + 1) flags fe flags lo hi h'"
    by (simp add: Let_def bf'_def m_def v_def w_def h'_def cong: if_cong)
  moreover have "drop 64 (drop (64 * block) (inputs ! j)) = drop (64 * (block + 1)) (inputs ! j)" by (simp add: add.commute)
  moreover have "64 * (block + 1 + left) \<le> length (inputs ! j)" using Suc.prems(2) by simp
  ultimately show ?case
    using Suc.IH [OF h', of "block + 1" flags] lh' by (simp add: Let_def bf'_def)
qed simp

lemma hash_vecs_lane:
  assumes "length inputs = n" "j < n" "64 * blocks \<le> length (inputs ! j)" "length key = 8"
  shows "shaped 8 n (hash_vecs K inputs blocks key c inc flags fs fe)"
    "store_cv_words (lane j (hash_vecs K inputs blocks key c inc flags fs fe)) =
      hash_one_portable (inputs ! j) blocks key (lane_counter c inc j) flags fs fe"
proof -
  define h where "h = map (\<lambda>i. k_set1 K (key ! i)) [0..<8]"
  have h: "shaped 8 n h" "lane j h = key"
    using assms(2,4) by (auto simp: h_def shaped_def lane_def set1 list_all_iff comp_def intro!: nth_equalityI)
  show "shaped 8 n (hash_vecs K inputs blocks key c inc flags fs fe)"
    "store_cv_words (lane j (hash_vecs K inputs blocks key c inc flags fs fe)) =
      hash_one_portable (inputs ! j) blocks key (lane_counter c inc j) flags fs fe"
    using hash_blocks_lane [OF h(1) assms(1,2), of 0 blocks
        "map (\<lambda>j. counter_low (lane_counter c inc j)) [0..<n]" "map (\<lambda>j. counter_high (lane_counter c inc j)) [0..<n]"
        "lane_counter c inc j" flags fe "flags OR fs"] assms(2,3) h(2)
    by (simp_all add: hash_vecs_def counters Let_def h_def hash_one_portable_def)
qed

end

section \<open>Hashing many inputs\<close>

lemma lane_counter_Suc: "lane_counter (if inc then c + 1 else c) inc j = lane_counter c inc (Suc j)"
  by (simp add: lane_counter_def)

lemma many_portable_map:
  "blake3_hash_many_portable inputs blocks key c inc flags fs fe =
     map (\<lambda>j. hash_one_portable (inputs ! j) blocks key (lane_counter c inc j) flags fs fe) [0..<length inputs]"
proof (induction inputs blocks key c inc flags fs fe rule: blake3_hash_many_portable.induct)
  case (2 i inputs blocks key c inc flags fs fe)
  have "[0..<length (i # inputs)] = 0 # map Suc [0..<length inputs]"
    by (simp add: upt_conv_Cons map_Suc_upt del: upt_Suc)
  then show ?case
    using 2 by (simp add: lane_counter_Suc comp_def del: upt_Suc) (simp add: lane_counter_def)
qed simp

lemma many_portable_append:
  "blake3_hash_many_portable (xs @ ys) blocks key c inc flags fs fe =
     blake3_hash_many_portable xs blocks key c inc flags fs fe @
     blake3_hash_many_portable ys blocks key (lane_counter c inc (length xs)) inc flags fs fe"
  by (induction xs blocks key c inc flags fs fe rule: blake3_hash_many_portable.induct)
    (simp_all add: lane_counter_Suc, simp add: lane_counter_def)

lemma outputs_concat: "list_all (\<lambda>p. length p = 32) ps \<Longrightarrow> outputs (length ps) (concat ps) = ps"
proof (induction ps)
  case (Cons p ps)
  have "outputs (length (p # ps)) (concat (p # ps)) =
      take 32 (p @ concat ps) # map (\<lambda>i. take 32 (drop (32 * Suc i) (p @ concat ps))) [0..<length ps]"
    by (simp add: outputs_def upt_conv_Cons map_Suc_upt [symmetric] comp_def del: upt_Suc)
  also have "\<dots> = p # outputs (length ps) (concat ps)" using Cons.prems by (simp add: outputs_def)
  finally show ?case using Cons by simp
qed (simp add: outputs_def)

lemma many_loop_portable:
  assumes "many_loop n hashn inputs c inc = (out_bytes, rest, c')"
    and "\<And>is c. length is = n \<Longrightarrow> set is \<subseteq> set inputs \<Longrightarrow>
      outputs n (hashn is c) = blake3_hash_many_portable is blocks key c inc flags fs fe"
  shows "blake3_hash_many_portable inputs blocks key c inc flags fs fe =
      out_bytes @ blake3_hash_many_portable rest blocks key c' inc flags fs fe \<and> set rest \<subseteq> set inputs"
  using assms
proof (induction n hashn inputs c inc arbitrary: out_bytes rule: many_loop.induct)
  case (1 n hashn inputs c inc)
  show ?case
  proof (cases "n \<le> length inputs \<and> 0 < n")
    case True
    let ?c = "if inc then c + of_nat n else c"
    obtain o1 where o1: "many_loop n hashn (drop n inputs) ?c inc = (o1, rest, c')"
      "out_bytes = outputs n (hashn (take n inputs) c) @ o1"
      using "1.prems"(1) True by (auto simp: many_loop.simps [of n hashn inputs] split: prod.splits)
    have sub: "set (drop n inputs) \<subseteq> set inputs" "set (take n inputs) \<subseteq> set inputs"
      by (auto dest: in_set_dropD in_set_takeD)
    have "blake3_hash_many_portable (drop n inputs) blocks key ?c inc flags fs fe =
        o1 @ blake3_hash_many_portable rest blocks key c' inc flags fs fe \<and> set rest \<subseteq> set (drop n inputs)"
      using "1.prems"(2) sub(1) by (intro "1.IH" [OF True o1(1)]) blast
    moreover have "outputs n (hashn (take n inputs) c) = blake3_hash_many_portable (take n inputs) blocks key c inc flags fs fe"
      using "1.prems"(2) True sub(2) by simp
    moreover have "blake3_hash_many_portable inputs blocks key c inc flags fs fe =
        blake3_hash_many_portable (take n inputs) blocks key c inc flags fs fe @
        blake3_hash_many_portable (drop n inputs) blocks key ?c inc flags fs fe"
      using many_portable_append [of "take n inputs" "drop n inputs"] True by (simp add: lane_counter_def)
    ultimately show ?thesis using o1(2) sub(1) by auto
  qed (use "1.prems"(1) in \<open>auto simp: many_loop.simps [of n hashn inputs]\<close>)
qed

lemma one_loop_portable:
  "(\<And>i c. i \<in> set inputs \<Longrightarrow> hash1 i c = hash_one_portable i blocks key c flags fs fe) \<Longrightarrow>
     one_loop hash1 inputs c inc = blake3_hash_many_portable inputs blocks key c inc flags fs fe"
  by (induction hash1 inputs c inc rule: one_loop.induct) simp_all

lemma length_hash_one_loop:
  "length key = 8 \<Longrightarrow> length (hash_one_loop blake3_compress_in_place_portable p blocks c fl fe bf key) = 8"
  by (induction blake3_compress_in_place_portable p blocks c fl fe bf key rule: hash_one_loop.induct) (simp_all add: Let_def)

text \<open>A kernel with the store of its outputs.\<close>

locale hash_kernel = lane_kernel +
  fixes store :: "vec list \<Rightarrow> byte list"
  assumes store: "shaped 8 n h \<Longrightarrow> store h = concat (map (\<lambda>j. bytes_of (lane j h)) [0..<n])"
    and n_pos: "0 < n"
begin

lemma store_portable:
  assumes "length inputs = n" "list_all (\<lambda>p. 64 * blocks \<le> length p) inputs" "length key = 8"
  shows "outputs n (store (hash_vecs K inputs blocks key c inc flags fs fe)) =
    blake3_hash_many_portable inputs blocks key c inc flags fs fe"
proof -
  let ?h = "hash_vecs K inputs blocks key c inc flags fs fe"
  have l: "64 * blocks \<le> length (inputs ! j)" if "j < n" for j using assms(1,2) that by (simp add: list_all_length)
  have s: "shaped 8 n ?h" using hash_vecs_lane(1) [OF assms(1) n_pos l [OF n_pos] assms(3)] .
  have b: "bytes_of (lane j ?h) = hash_one_portable (inputs ! j) blocks key (lane_counter c inc j) flags fs fe" if "j < n" for j
  proof -
    have "length (lane j ?h) = 8" using s by (simp add: lane_def shaped_def)
    then show ?thesis
      using hash_vecs_lane(2) [OF assms(1) that l [OF that] assms(3)] by (simp flip: store_cv_words_eq)
  qed
  have "store ?h = concat (blake3_hash_many_portable inputs blocks key c inc flags fs fe)"
    unfolding store [OF s] many_portable_map using b assms(1) by (auto intro!: arg_cong [of _ _ concat])
  then show ?thesis
    using outputs_concat [of "blake3_hash_many_portable inputs blocks key c inc flags fs fe"] assms(1)
    by (simp add: many_portable_map list_all_iff hash_one_portable_def)
qed

lemma many_loop_store:
  assumes "many_loop n (\<lambda>is c. store (hash_vecs K is blocks key c inc flags fs fe)) inputs c inc = (out_bytes, rest, c')"
    and "list_all (\<lambda>p. 64 * blocks \<le> length p) inputs" "length key = 8"
  shows "blake3_hash_many_portable inputs blocks key c inc flags fs fe =
      out_bytes @ blake3_hash_many_portable rest blocks key c' inc flags fs fe"
    "list_all (\<lambda>p. 64 * blocks \<le> length p) rest"
proof -
  have "outputs n (store (hash_vecs K is blocks key c inc flags fs fe)) = blake3_hash_many_portable is blocks key c inc flags fs fe"
    if "length is = n" "set is \<subseteq> set inputs" for "is" c
    using assms(2,3) that by (intro store_portable) (auto simp: list_all_iff)
  then have "blake3_hash_many_portable inputs blocks key c inc flags fs fe =
      out_bytes @ blake3_hash_many_portable rest blocks key c' inc flags fs fe \<and> set rest \<subseteq> set inputs"
    by (rule many_loop_portable [OF assms(1)])
  then show "blake3_hash_many_portable inputs blocks key c inc flags fs fe =
      out_bytes @ blake3_hash_many_portable rest blocks key c' inc flags fs fe"
    "list_all (\<lambda>p. 64 * blocks \<le> length p) rest" using assms(2) by (auto simp: list_all_iff)
qed

end

end
