(* ===== verification/Blake3_Many.thy ===== *)
theory Blake3_Many
  imports Blake3_Lanes
begin

text \<open>
  The kernels against their contract: the vector counters with their carries, the rotations by shuffles
  and the transpositions of every instruction set.
\<close>

section \<open>Counters\<close>

lemma counter_low_add: "counter_low (c + of_nat j) = ucast c + of_nat j"
proof (rule unsigned_word_eqI)
  have "unat (counter_low (c + of_nat j)) = (unat c + j) mod 2 ^ 64 mod 2 ^ 32"
    by (simp add: counter_low_def unsigned_ucast_eq take_bit_eq_mod unat_word_ariths unat_of_nat mod_simps)
  also have "\<dots> = (unat c mod 2 ^ 32 + j) mod 2 ^ 32" by (simp add: mod_mod_cancel mod_simps)
  also have "\<dots> = unat (ucast c + of_nat j :: u32)"
    by (simp add: unsigned_ucast_eq take_bit_eq_mod unat_word_ariths unat_of_nat mod_simps)
  finally show "unat (counter_low (c + of_nat j)) = unat (ucast c + of_nat j :: u32)" .
qed

lemma div_carry:
  assumes "j < N"
  shows "(x + j) div N = x div N + (if x mod N + j < N then 0 else (1 :: nat))"
proof -
  have "x mod N < N" using assms by simp
  then have "x mod N + j - N < N" using assms by linarith
  then have "(x mod N + j) div N = (if x mod N + j < N then 0 else 1)" using assms by (simp add: le_div_geq)
  then show ?thesis using assms by (simp add: div_add1_eq [of x j])
qed

lemma counter_high_carry:
  assumes "j < 2 ^ 32"
  shows "counter_high (c + of_nat j) = counter_high c + (if unat (ucast c :: u32) + j < 2 ^ 32 then 0 else 1)"
proof (rule unsigned_word_eqI)
  have hi: "unat (counter_high d) = unat d div 2 ^ 32" for d
  proof -
    have "unat d < 2 ^ 64" using unsigned_less [of d] by simp
    then have "unat d div 2 ^ 32 < 2 ^ 32" by (simp add: div_less_iff_less_mult)
    then show ?thesis
      unfolding counter_high_def unsigned_ucast_eq unat_drop_bit_eq drop_bit_eq_div by (simp add: take_bit_nat_eq_self unat_div)
  qed
  have "unat (counter_high (c + of_nat j)) = (unat c + j) mod (2 ^ 32 * 2 ^ 32) div 2 ^ 32"
    by (simp add: hi unat_word_ariths unat_of_nat take_bit_eq_mod mod_simps)
  also have "\<dots> = ((unat c + j) div 2 ^ 32) mod 2 ^ 32"
    by (metis drop_bit_eq_div drop_bit_take_bit take_bit_eq_mod power_add diff_add_inverse)
  also have "\<dots> = unat (counter_high c + (if unat (ucast c :: u32) + j < 2 ^ 32 then 0 else 1))"
    unfolding div_carry [OF assms] by (simp add: hi unat_word_ariths unsigned_ucast_eq take_bit_eq_mod)
  finally show "unat (counter_high (c + of_nat j)) = unat (counter_high c + (if unat (ucast c :: u32) + j < 2 ^ 32 then 0 else 1))" .
qed

text \<open>A signed comparison of words whose sign bit is flipped is an unsigned comparison.\<close>

lemma sint_bias: "sint (x XOR 0x80000000 :: u32) = uint x - 2 ^ 31"
proof -
  have "uint (x XOR 0x80000000) = flip_bit 31 (uint x)"
    by (simp add: unsigned_xor_eq flip_bit_eq_xor push_bit_eq_mult)
  then have u: "uint (x XOR 0x80000000) = (if bit (uint x) 31 then uint x - 2 ^ 31 else uint x + 2 ^ 31)"
    by (simp add: flip_bit_eq_if set_bit_eq unset_bit_eq)
  have "take_bit 32 (uint x) = uint x" using unsigned_less [of x] by (simp add: take_bit_int_eq_self_iff)
  then have "take_bit 32 (uint (x XOR 0x80000000) + 2 ^ 31) = uint x"
    unfolding u by (auto simp: take_bit_eq_mod)
  then show ?thesis
    by (simp add: sint_uint signed_take_bit_eq_take_bit_shift)
qed

lemma cmpgt_bias: "sint (x XOR 0x80000000 :: u32) < sint (y XOR 0x80000000 :: u32) \<longleftrightarrow> unat x < unat y"
  by (simp add: sint_bias word_less_nat_alt [symmetric] word_less_def)

text \<open>The carry of a counter's low word, found by comparison or by its highest bit.\<close>

lemma carry_compare:
  assumes "j < 2 ^ 32"
  shows "unat (l + of_nat j :: u32) < j \<longleftrightarrow> \<not> unat l + j < 2 ^ 32"
proof -
  have "unat l < 2 ^ 32" using unsigned_less [of l] by simp
  moreover have "unat (l + of_nat j) = (unat l + j) mod 2 ^ 32"
    using assms by (simp add: unat_word_ariths unat_of_nat take_bit_eq_mod)
  ultimately show ?thesis using assms by (cases "unat l + j < 2 ^ 32") (simp_all add: le_mod_geq not_less)
qed

lemma carry_top_bit:
  assumes "j < 2 ^ 31"
  shows "drop_bit 31 (NOT (l + of_nat j) AND l :: u32) = (if unat l + j < 2 ^ 32 then 0 else 1)"
proof -
  have top: "bit w 31 \<longleftrightarrow> 2 ^ 31 \<le> unat w" for w :: u32
  proof -
    have "unat w < 2 ^ 32" using unsigned_less [of w] by simp
    then have "unat w div 2 ^ 31 mod 2 = (if 2 ^ 31 \<le> unat w then 1 else 0)" by (auto simp: le_div_geq)
    moreover have "bit w 31 \<longleftrightarrow> bit (unat w) 31" by (simp add: bit_unsigned_iff)
    ultimately show ?thesis unfolding bit_iff_odd [of "unat w"] odd_iff_mod_2_eq_one by simp
  qed
  have "drop_bit 31 w = (if bit w 31 then 1 else 0)" for w :: u32
    by (rule u32_eqI) (simp add: u32_bits bit_1_iff)
  moreover have "bit (NOT x AND y) 31 \<longleftrightarrow> \<not> bit x 31 \<and> bit y 31" for x y :: u32 by (simp add: bit_simps)
  ultimately have "drop_bit 31 (NOT x AND y) = (if \<not> 2 ^ 31 \<le> unat x \<and> 2 ^ 31 \<le> unat y then 1 else 0)" for x y :: u32
    by (simp only: top)
  moreover have "unat l < 2 ^ 32" using unsigned_less [of l] by simp
  moreover have "unat (l + of_nat j) = (unat l + j) mod 2 ^ 32"
    using assms by (simp add: unat_word_ariths unat_of_nat take_bit_eq_mod)
  ultimately show ?thesis
    using assms by (cases "unat l + j < 2 ^ 32") (auto simp: le_mod_geq not_less)
qed

text \<open>The words of the counters of every lane, as the comparing and as the masking kernels compute them.\<close>

lemma counters_compare:
  assumes "\<And>j. j \<in> set js \<Longrightarrow> j < 2 ^ 31"
  shows "map (\<lambda>j. ucast c + ((if inc then - 1 else 0) AND of_nat j)) js = map (\<lambda>j. counter_low (lane_counter c inc j)) js"
    "map (\<lambda>j. ucast (drop_bit 32 c) -
        (if sint ((ucast c + ((if inc then - 1 else 0) AND of_nat j)) XOR 0x80000000 :: u32) <
            sint (((if inc then - 1 else 0) AND of_nat j) XOR 0x80000000 :: u32) then - 1 else 0)) js =
      map (\<lambda>j. counter_high (lane_counter c inc j)) js"
proof -
  show "map (\<lambda>j. ucast c + ((if inc then - 1 else 0) AND of_nat j)) js = map (\<lambda>j. counter_low (lane_counter c inc j)) js"
    by (cases inc) (simp_all add: lane_counter_def counter_low_def counter_low_add [unfolded counter_low_def])
  have "ucast (drop_bit 32 c) - (if unat (ucast c + of_nat j :: u32) < unat (of_nat j :: u32) then - 1 else 0) =
      counter_high (c + of_nat j)" if "j \<in> set js" for j
  proof -
    have j: "j < 2 ^ 32" using assms [OF that] by simp
    then have "unat (of_nat j :: u32) = j" by (simp add: unat_of_nat take_bit_nat_eq_self_iff)
    then show ?thesis using carry_compare [OF j, of "ucast c"] counter_high_carry [OF j, of c] by (simp add: counter_high_def)
  qed
  then show "map (\<lambda>j. ucast (drop_bit 32 c) -
        (if sint ((ucast c + ((if inc then - 1 else 0) AND of_nat j)) XOR 0x80000000 :: u32) <
            sint (((if inc then - 1 else 0) AND of_nat j) XOR 0x80000000 :: u32) then - 1 else 0)) js =
      map (\<lambda>j. counter_high (lane_counter c inc j)) js"
    unfolding cmpgt_bias by (cases inc) (simp_all add: lane_counter_def counter_high_def)
qed

lemma counters_mask:
  assumes "\<And>j. j \<in> set js \<Longrightarrow> j < 2 ^ 31"
  shows "map (\<lambda>j. ucast (drop_bit 32 c) +
        drop_bit 31 (NOT (ucast c + ((if inc then - 1 else 0) AND of_nat j)) AND ucast c :: u32)) js =
      map (\<lambda>j. counter_high (lane_counter c inc j)) js"
proof -
  have "ucast (drop_bit 32 c) + drop_bit 31 (NOT (ucast c + of_nat j) AND ucast c :: u32) = counter_high (c + of_nat j)"
    if "j \<in> set js" for j
    using carry_top_bit [OF assms [OF that], of "ucast c"] counter_high_carry [of j c] assms [OF that]
    by (simp add: counter_high_def)
  moreover have "drop_bit 31 (NOT x AND x :: u32) = 0" for x by simp
  ultimately show ?thesis by (cases inc) (simp_all add: lane_counter_def counter_high_def del: drop_bit_and)
qed

text \<open>Vector operations on registers given lane by lane.\<close>

lemma lanewise:
  "and_si (set1_epi32 n x) (map f [0..<n]) = map (\<lambda>j. x AND f j) [0..<n]"
  "and_si (map f [0..<n]) (set1_epi32 n x) = map (\<lambda>j. x AND f j) [0..<n]"
  "add_epi32 (set1_epi32 n x) (map f [0..<n]) = map (\<lambda>j. x + f j) [0..<n]"
  "sub_epi32 (set1_epi32 n x) (map f [0..<n]) = map (\<lambda>j. x - f j) [0..<n]"
  "xor_si (map f [0..<n]) (set1_epi32 n x) = map (\<lambda>j. f j XOR x) [0..<n]"
  "andnot_si (map f [0..<n]) (set1_epi32 n x) = map (\<lambda>j. NOT (f j) AND x) [0..<n]"
  "cmpgt_epi32 (map f [0..<n]) (map g [0..<n]) = map (\<lambda>j. if sint (g j) < sint (f j) then - 1 else 0) [0..<n]"
  "srli_epi32 (map f [0..<n]) k = map (\<lambda>j. drop_bit k (f j)) [0..<n]"
  by (rule nth_equalityI; simp add: and_si_def set1_epi32_def add_epi32_def sub_epi32_def xor_si_def andnot_si_def
      cmpgt_epi32_def srli_epi32_def and.commute)+

lemma set_epi32_deltas:
  "set_epi32 [3, 2, 1, 0] = map of_nat [0..<4]" "set_epi32 [7, 6, 5, 4, 3, 2, 1, 0] = map of_nat [0..<8]"
  "set_epi32 [15, 14, 13, 12, 11, 10, 9, 8, 7, 6, 5, 4, 3, 2, 1, 0] = map of_nat [0..<16]"
  by code_simp+

lemma small_lanes: "j \<in> set [0..<n] \<Longrightarrow> n \<le> 16 \<Longrightarrow> j < 2 ^ 31"
  by simp

lemmas counter_laws = lanewise set_epi32_deltas counters_compare [OF small_lanes] counters_mask [OF small_lanes]

lemma load_counters_compare:
  "load_counters_sse2 c inc = (map (\<lambda>j. counter_low (lane_counter c inc j)) [0..<4], map (\<lambda>j. counter_high (lane_counter c inc j)) [0..<4])"
  "load_counters_sse41 c inc = (map (\<lambda>j. counter_low (lane_counter c inc j)) [0..<4], map (\<lambda>j. counter_high (lane_counter c inc j)) [0..<4])"
  "load_counters_avx2 c inc = (map (\<lambda>j. counter_low (lane_counter c inc j)) [0..<8], map (\<lambda>j. counter_high (lane_counter c inc j)) [0..<8])"
  unfolding load_counters_sse2_def load_counters_sse41_def load_counters_avx2_def Let_def lanewise set_epi32_deltas
  by (simp_all only: counter_laws)

lemma load_counters16:
  "load_counters16_avx512 c inc = (map (\<lambda>j. counter_low (lane_counter c inc j)) [0..<16],
     map (\<lambda>j. counter_high (lane_counter c inc j)) [0..<16])"
  unfolding load_counters16_avx512_def Let_def lanewise set_epi32_deltas
  by (simp_all only: counter_laws)

section \<open>Transpositions\<close>

lemma list4E:
  assumes "length v = 4"
  obtains a b c d where "v = [a, b, c, d]"
  using assms by (auto simp: length_Suc_conv numeral_eq_Suc)

lemma list8E:
  assumes "length v = 8"
  obtains a b c d e f g h where "v = [a, b, c, d, e, f, g, h]"
  using assms by (auto simp: length_Suc_conv numeral_eq_Suc)

lemmas unpack_defs = unpacklo_epi32_def unpackhi_epi32_def unpacklo_epi64_def unpackhi_epi64_def

lemma transpose_sse:
  "transpose_vecs_sse2 [[a0, a1, a2, a3], [b0, b1, b2, b3], [c0, c1, c2, c3], [d0, d1, d2, d3]] =
     [[a0, b0, c0, d0], [a1, b1, c1, d1], [a2, b2, c2, d2], [a3, b3, c3, d3]]"
  "transpose_vecs_sse41 [[a0, a1, a2, a3], [b0, b1, b2, b3], [c0, c1, c2, c3], [d0, d1, d2, d3]] =
     [[a0, b0, c0, d0], [a1, b1, c1, d1], [a2, b2, c2, d2], [a3, b3, c3, d3]]"
  by (simp_all add: transpose_vecs_sse2_def transpose_vecs_sse41_def unpack_defs Let_def)

lemma upt4: "[0..<4] = [0, 1, 2, 3 :: nat]"
  by code_simp

lemma upt8: "[0..<8] = [0, 1, 2, 3, 4, 5, 6, 7 :: nat]"
  by code_simp

lemma upt16: "[0..<16] = [0, 1, 2, 3, 4, 5, 6, 7, 8, 9, 10, 11, 12, 13, 14, 15 :: nat]"
  by code_simp

lemma transpose_msg_sse:
  assumes "length inputs = 4"
  shows "transpose_msg_vecs_sse2 inputs off = map (\<lambda>i. map (\<lambda>p. load32 (drop (off + 4 * i) p)) inputs) [0..<16]"
    "transpose_msg_vecs_sse41 inputs off = map (\<lambda>i. map (\<lambda>p. load32 (drop (off + 4 * i) p)) inputs) [0..<16]"
proof -
  obtain p q r t where i: "inputs = [p, q, r, t]" using list4E [OF assms] by blast
  show "transpose_msg_vecs_sse2 inputs off = map (\<lambda>i. map (\<lambda>p. load32 (drop (off + 4 * i) p)) inputs) [0..<16]"
    "transpose_msg_vecs_sse41 inputs off = map (\<lambda>i. map (\<lambda>p. load32 (drop (off + 4 * i) p)) inputs) [0..<16]"
    by (simp_all add: i transpose_msg_vecs_sse2_def transpose_msg_vecs_sse41_def loadu_sse2_def loadu_sse41_def loadu_def
        upt4 upt16 transpose_sse add.commute)
qed

lemma transpose_avx2:
  "transpose_vecs_avx2 [[a0, a1, a2, a3, a4, a5, a6, a7],
      [b0, b1, b2, b3, b4, b5, b6, b7],
      [c0, c1, c2, c3, c4, c5, c6, c7],
      [d0, d1, d2, d3, d4, d5, d6, d7],
      [e0, e1, e2, e3, e4, e5, e6, e7],
      [f0, f1, f2, f3, f4, f5, f6, f7],
      [g0, g1, g2, g3, g4, g5, g6, g7],
      [h0, h1, h2, h3, h4, h5, h6, h7]] =
     [[a0, b0, c0, d0, e0, f0, g0, h0],
      [a1, b1, c1, d1, e1, f1, g1, h1],
      [a2, b2, c2, d2, e2, f2, g2, h2],
      [a3, b3, c3, d3, e3, f3, g3, h3],
      [a4, b4, c4, d4, e4, f4, g4, h4],
      [a5, b5, c5, d5, e5, f5, g5, h5],
      [a6, b6, c6, d6, e6, f6, g6, h6],
      [a7, b7, c7, d7, e7, f7, g7, h7]]"
  by (simp add: transpose_vecs_avx2_def unpack_defs permute2x128_def group4_def Let_def)

lemma transpose_msg_avx2:
  assumes "length inputs = 8"
  shows "transpose_msg_vecs_avx2 inputs off = map (\<lambda>i. map (\<lambda>p. load32 (drop (off + 4 * i) p)) inputs) [0..<16]"
proof -
  obtain a b c d e f g h where i: "inputs = [a, b, c, d, e, f, g, h]" using list8E [OF assms] by blast
  show ?thesis
    by (simp add: i transpose_msg_vecs_avx2_def loadu_avx2_def loadu_def upt8 upt16 transpose_avx2 add.commute)
qed

text \<open>The transposition of sixteen vectors, word by word.\<close>

lemma transpose_512:
  assumes "length vs = 16" "list_all (\<lambda>v. length v = 16) vs"
  shows "transpose_vecs_512_avx512 vs = map (\<lambda>i. map (\<lambda>v. v ! i) vs) [0..<16]"
proof -
  have e: "v = map (\<lambda>i. v ! i) [0..<16]" if "length v = 16" for v :: vec using that by (metis map_nth)
  define a where "a i j = vs ! i ! j" for i j
  have "vs = map (\<lambda>i. map (\<lambda>j. a i j) [0..<16]) [0..<16]"
    using assms e unfolding a_def by (intro nth_equalityI) (auto simp: list_all_length intro!: nth_equalityI)
  then have v: "vs = map (\<lambda>i. map (\<lambda>j. a i j) [0, 1, 2, 3, 4, 5, 6, 7, 8, 9, 10, 11, 12, 13, 14, 15])
      [0, 1, 2, 3, 4, 5, 6, 7, 8, 9, 10, 11, 12, 13, 14, 15]" by (simp only: upt16)
  show ?thesis
    unfolding v upt16
    by (simp add: transpose_vecs_512_avx512_def unpack_defs unpack_lo_128_avx512_def unpack_hi_128_avx512_def
        shuffle_i32x4_def group4_def imm2_def Let_def cong: let_weak_cong)
qed

lemma transpose_msg_512:
  assumes "length inputs = 16"
  shows "transpose_msg_vecs16_avx512 inputs off = map (\<lambda>i. map (\<lambda>p. load32 (drop (off + 4 * i) p)) inputs) [0..<16]"
proof -
  let ?l = "map (\<lambda>i. loadu_512_avx512 (drop (off + 0) (inputs ! i))) [0..<16]"
  have "transpose_msg_vecs16_avx512 inputs off = map (\<lambda>i. map (\<lambda>v. v ! i) ?l) [0..<16]"
    unfolding transpose_msg_vecs16_avx512_def
    by (rule transpose_512) (simp_all add: loadu_512_avx512_def loadu_def list_all_iff)
  also have "\<dots> = map (\<lambda>i. map (\<lambda>p. load32 (drop (off + 4 * i) p)) inputs) [0..<16]"
    using assms by (auto simp: loadu_512_avx512_def loadu_def add.commute intro!: nth_equalityI)
  finally show ?thesis .
qed

section \<open>The rotations of AVX2\<close>

lemma rot16_avx2_eq: "length v = 8 \<Longrightarrow> rot16_avx2 v = map (\<lambda>x. rotr32 x 16) v"
  by (erule list8E) (simp add: rot16_avx2_def shuffle256_epi8_def shuffle_group_epi8_def store32_def rot16_bytes)

lemma rot8_avx2_eq: "length v = 8 \<Longrightarrow> rot8_avx2 v = map (\<lambda>x. rotr32 x 8) v"
  by (erule list8E) (simp add: rot8_avx2_def shuffle256_epi8_def shuffle_group_epi8_def store32_def rot8_bytes)

lemma rot4_eqs:
  "length v = 4 \<Longrightarrow> rot16_sse2 v = map (\<lambda>x. rotr32 x 16) v" "length v = 4 \<Longrightarrow> rot16_sse41 v = map (\<lambda>x. rotr32 x 16) v"
  "length v = 4 \<Longrightarrow> rot8_sse41 v = map (\<lambda>x. rotr32 x 8) v"
  by (erule list4E, simp add: rot16_sse2_eq rot16_sse41_eq rot8_sse41_eq)+

lemma shift_rotations:
  "xor_si (srli_epi32 v 12) (slli_epi32 v 20) = map (\<lambda>x. rotr32 x 12) v"
  "xor_si (srli_epi32 v 8) (slli_epi32 v 24) = map (\<lambda>x. rotr32 x 8) v"
  "xor_si (srli_epi32 v 7) (slli_epi32 v 25) = map (\<lambda>x. rotr32 x 7) v"
  "or_si (srli_epi32 v 12) (slli_epi32 v 20) = map (\<lambda>x. rotr32 x 12) v"
  "or_si (srli_epi32 v 7) (slli_epi32 v 25) = map (\<lambda>x. rotr32 x 7) v"
  by (induction v) (simp_all add: xor_si_def or_si_def srli_epi32_def slli_epi32_def rotr32_xor rotr32_def)

section \<open>The kernels\<close>

lemma store_sse:
  assumes "shaped 8 4 h"
  shows "concat (map (\<lambda>i. bytes_of ((transpose_vecs_sse2 (take 4 h) @ transpose_vecs_sse2 (drop 4 h)) ! i)) [0, 4, 1, 5, 2, 6, 3, 7]) =
      concat (map (\<lambda>j. bytes_of (lane j h)) [0..<4])"
    "concat (map (\<lambda>i. bytes_of ((transpose_vecs_sse41 (take 4 h) @ transpose_vecs_sse41 (drop 4 h)) ! i)) [0, 4, 1, 5, 2, 6, 3, 7]) =
      concat (map (\<lambda>j. bytes_of (lane j h)) [0..<4])"
proof -
  define a where "a i j = h ! i ! j" for i j
  have "h = map (\<lambda>i. map (\<lambda>j. a i j) [0..<4]) [0..<8]"
    using assms unfolding a_def shaped_def
    by (intro nth_equalityI) (auto simp: list_all_length intro!: nth_equalityI)
  then have h: "h = map (\<lambda>i. map (\<lambda>j. a i j) [0, 1, 2, 3]) [0, 1, 2, 3, 4, 5, 6, 7]" by (simp only: upt4 upt8)
  show "concat (map (\<lambda>i. bytes_of ((transpose_vecs_sse2 (take 4 h) @ transpose_vecs_sse2 (drop 4 h)) ! i)) [0, 4, 1, 5, 2, 6, 3, 7]) =
      concat (map (\<lambda>j. bytes_of (lane j h)) [0..<4])"
    "concat (map (\<lambda>i. bytes_of ((transpose_vecs_sse41 (take 4 h) @ transpose_vecs_sse41 (drop 4 h)) ! i)) [0, 4, 1, 5, 2, 6, 3, 7]) =
      concat (map (\<lambda>j. bytes_of (lane j h)) [0..<4])"
    by (simp_all add: h transpose_sse upt4 lane_def)
qed

lemma store_avx2:
  assumes "shaped 8 8 h"
  shows "concat (map (\<lambda>i. bytes_of (transpose_vecs_avx2 h ! i)) [0..<8]) = concat (map (\<lambda>j. bytes_of (lane j h)) [0..<8])"
proof -
  define a where "a i j = h ! i ! j" for i j
  have "h = map (\<lambda>i. map (\<lambda>j. a i j) [0..<8]) [0..<8]"
    using assms unfolding a_def shaped_def
    by (intro nth_equalityI) (auto simp: list_all_length intro!: nth_equalityI)
  then have h: "h = map (\<lambda>i. map (\<lambda>j. a i j) [0, 1, 2, 3, 4, 5, 6, 7]) [0, 1, 2, 3, 4, 5, 6, 7]" by (simp only: upt8)
  show ?thesis by (simp add: h transpose_avx2 upt8 lane_def)
qed

lemma mask_storeu_full: "length v = 8 \<Longrightarrow> mask_storeu_epi32 old (- 1) v = bytes_of v"
  by (erule list8E) (simp add: mask_storeu_epi32_def)

lemma store_512:
  assumes "shaped 8 16 h"
  shows "concat (map (\<lambda>i. mask_storeu_epi32 old (- 1)
      (castsi512_si256 (transpose_vecs_512_avx512 (h @ replicate 8 (set1_512_avx512 0)) ! i))) [0..<16]) =
    concat (map (\<lambda>j. bytes_of (lane j h)) [0..<16])"
proof -
  let ?p = "h @ replicate 8 (set1_512_avx512 0)"
  have l: "length ?p = 16" "list_all (\<lambda>v. length v = 16) ?p"
    using assms by (simp_all add: shaped_def set1_512_avx512_def set1_epi32_def list_all_iff)
  have "castsi512_si256 (transpose_vecs_512_avx512 ?p ! i) = lane i h" if "i < 16" for i
    using that assms by (simp add: transpose_512 [OF l] castsi512_si256_def lane_def shaped_def take_map)
  moreover have "length (lane i h) = 8" for i using assms by (simp add: lane_def shaped_def)
  ultimately show ?thesis
    by (auto simp: mask_storeu_full intro!: arg_cong [of _ _ concat])
qed

interpretation sse2_lanes: hash_kernel sse2_kernel 4
  "\<lambda>h. concat (map (\<lambda>i. storeu_sse2 ((transpose_vecs_sse2 (take 4 h) @ transpose_vecs_sse2 (drop 4 h)) ! i)) [0, 4, 1, 5, 2, 6, 3, 7])"
  by unfold_locales
    (simp_all add: sse2_kernel_def addv_sse2_def xorv_sse2_def rot4_eqs rot12_sse2_def rot8_sse2_def rot7_sse2_def set1_sse2_def
      add_epi32_def shift_rotations set1_epi32_def load_counters_compare transpose_msg_sse storeu_sse2_def
      store_sse del: list.map One_nat_def, simp add: xor_si_def)

interpretation sse41_lanes: hash_kernel sse41_kernel 4
  "\<lambda>h. concat (map (\<lambda>i. storeu_sse41 ((transpose_vecs_sse41 (take 4 h) @ transpose_vecs_sse41 (drop 4 h)) ! i)) [0, 4, 1, 5, 2, 6, 3, 7])"
  by unfold_locales
    (simp_all add: sse41_kernel_def addv_sse41_def xorv_sse41_def rot4_eqs rot12_sse41_def rot7_sse41_def set1_sse41_def
      add_epi32_def shift_rotations set1_epi32_def load_counters_compare transpose_msg_sse storeu_sse41_def
      store_sse del: list.map One_nat_def, simp add: xor_si_def)

interpretation avx2_lanes: hash_kernel avx2_kernel 8 "\<lambda>h. concat (map (\<lambda>i. storeu_avx2 (transpose_vecs_avx2 h ! i)) [0..<8])"
  by unfold_locales
    (simp_all add: avx2_kernel_def addv_avx2_def xorv_avx2_def rot16_avx2_eq rot8_avx2_eq rot12_avx2_def rot7_avx2_def set1_avx2_def
      add_epi32_def shift_rotations set1_epi32_def load_counters_compare transpose_msg_avx2 storeu_avx2_def
      store_avx2, simp add: xor_si_def)

interpretation avx512_lanes: hash_kernel avx512_kernel16 16
  "\<lambda>h. concat (map (\<lambda>i. mask_storeu_epi32 (replicate 32 0) (- 1)
     (castsi512_si256 (transpose_vecs_512_avx512 (h @ replicate 8 (set1_512_avx512 0)) ! i))) [0..<16])"
  by unfold_locales
    (simp_all add: avx512_kernel16_def add_512_avx512_def xor_512_avx512_def rot16_512_avx512_def rot12_512_avx512_def
      rot8_512_avx512_def rot7_512_avx512_def ror_epi32_def word_rotr32 set1_512_avx512_def
      add_epi32_def xor_si_def set1_epi32_def load_counters16 transpose_msg_512 store_512 [unfolded set1_512_avx512_def set1_epi32_def])

section \<open>The functions for many inputs\<close>

lemma hash_one_sse2_eq: "length key = 8 \<Longrightarrow> hash_one_sse2 i blocks key c fl fs fe = hash_one_portable i blocks key c fl fs fe"
  by (simp add: hash_one_sse2_def hash_one_portable_def compress_sse2 store_cv_words_eq length_hash_one_loop)

lemma hash_one_sse41_eq: "length key = 8 \<Longrightarrow> hash_one_sse41 i blocks key c fl fs fe = hash_one_portable i blocks key c fl fs fe"
  by (simp add: hash_one_sse41_def hash_one_portable_def compress_sse41 store_cv_words_eq length_hash_one_loop)

lemma hash_many_sse2:
  assumes "list_all (\<lambda>p. 64 * blocks \<le> length p) inputs" "length key = 8"
  shows "blake3_hash_many_sse2 inputs blocks key c inc fl fs fe = blake3_hash_many_portable inputs blocks key c inc fl fs fe"
proof -
  obtain o4 rest c' where m: "many_loop 4 (\<lambda>is c. blake3_hash4_sse2 is blocks key c inc fl fs fe) inputs c inc = (o4, rest, c')"
    by (metis prod_cases3)
  note p = sse2_lanes.many_loop_store [OF m [unfolded blake3_hash4_sse2_def Let_def] assms]
  then show ?thesis
    using m assms(2) by (simp add: blake3_hash_many_sse2_def one_loop_portable hash_one_sse2_eq)
qed

lemma hash_many_sse41:
  assumes "list_all (\<lambda>p. 64 * blocks \<le> length p) inputs" "length key = 8"
  shows "blake3_hash_many_sse41 inputs blocks key c inc fl fs fe = blake3_hash_many_portable inputs blocks key c inc fl fs fe"
proof -
  obtain o4 rest c' where m: "many_loop 4 (\<lambda>is c. blake3_hash4_sse41 is blocks key c inc fl fs fe) inputs c inc = (o4, rest, c')"
    by (metis prod_cases3)
  note p = sse41_lanes.many_loop_store [OF m [unfolded blake3_hash4_sse41_def Let_def] assms]
  then show ?thesis
    using m assms(2) by (simp add: blake3_hash_many_sse41_def one_loop_portable hash_one_sse41_eq)
qed

lemma hash_many_avx2:
  assumes "list_all (\<lambda>p. 64 * blocks \<le> length p) inputs" "length key = 8"
  shows "blake3_hash_many_avx2 inputs blocks key c inc fl fs fe = blake3_hash_many_portable inputs blocks key c inc fl fs fe"
proof -
  obtain o8 rest c' where m: "many_loop 8 (\<lambda>is c. blake3_hash8_avx2 is blocks key c inc fl fs fe) inputs c inc = (o8, rest, c')"
    by (metis prod_cases3)
  note p = avx2_lanes.many_loop_store [OF m [unfolded blake3_hash8_avx2_def Let_def] assms]
  then show ?thesis
    using m assms(2) by (simp add: blake3_hash_many_avx2_def hash_many_sse41)
qed

text \<open>The kernel of sixteen lanes of AVX-512 is right on its own.\<close>

lemma hash16_avx512:
  assumes "length inputs = 16" "list_all (\<lambda>p. 64 * blocks \<le> length p) inputs" "length key = 8"
  shows "outputs 16 (blake3_hash16_avx512 inputs blocks key c inc fl fs fe) = blake3_hash_many_portable inputs blocks key c inc fl fs fe"
  using avx512_lanes.store_portable [OF assms] by (simp add: blake3_hash16_avx512_def Let_def)

end
