(* ===== verification/Blake3_Dispatch.thy ===== *)
theory Blake3_Dispatch
  imports Blake3_Many
begin

text \<open>
  The choice of a kernel in \<open>shared/libblake3/blake3.c\<close>. A build without \<open>BLAKE3_X86_SIMD\<close> has the portable
  code only; a build with it chooses by the CPU features, which \<open>blake3_detect_cpu_features\<close> stores before
  the first use. The value \<open>Simd_Build f\<close> is such a build on a CPU with the detected features \<open>f\<close>. The
  \<open>cpuid\<close> and \<open>xgetbv\<close> instructions are arguments of the detection.

  The locale \<open>blake3_backend\<close> is what the hasher relies on: the three dispatched functions compute the
  portable ones. Every build without the AVX-512 feature satisfies it.
\<close>

section \<open>Definitions\<close>

datatype build = Portable_Build | Simd_Build u32

abbreviation (input) SSE2 :: u32 where "SSE2 \<equiv> 1"
abbreviation (input) SSE41 :: u32 where "SSE41 \<equiv> 2"
abbreviation (input) AVX2 :: u32 where "AVX2 \<equiv> 4"
abbreviation (input) AVX512 :: u32 where "AVX512 \<equiv> 8"

text \<open>\<open>cpuid id sid\<close> is the registers \<open>EAX\<close>, \<open>EBX\<close>, \<open>ECX\<close> and \<open>EDX\<close>.\<close>

definition blake3_detect_cpu_features :: "(u32 \<Rightarrow> u32 \<Rightarrow> u32 \<times> u32 \<times> u32 \<times> u32) \<Rightarrow> u64 \<Rightarrow> u32" where
  "blake3_detect_cpu_features cpuid xcr0 =
     (let features = 0;
          (eax, ebx, ecx, edx) = cpuid 1 0;
          features = (if edx AND push_bit 26 1 \<noteq> 0 then features OR SSE2 else features);
          features = (if ecx AND push_bit 19 1 \<noteq> 0 then features OR SSE41 else features)
      in if ecx AND push_bit 27 1 \<noteq> 0 then
           let (eax, ebx, ecx, edx) = cpuid 0 0
           in if 7 \<le> eax then
                let (eax, ebx, ecx, edx) = cpuid 7 0;
                    features = (if ebx AND push_bit 5 1 \<noteq> 0 \<and> xcr0 AND 0x06 = 0x06 then features OR AVX2 else features);
                    features = (if ebx AND (push_bit 31 1 OR push_bit 16 1) \<noteq> 0 \<and> xcr0 AND 0xe0 = 0xe0
                      then features OR AVX512 else features)
                in features
              else features
         else features)"

definition MAX_SIMD_DEGREE :: "build \<Rightarrow> nat" where
  "MAX_SIMD_DEGREE b = (case b of Portable_Build \<Rightarrow> 1 | Simd_Build _ \<Rightarrow> 16)"

definition MAX_SIMD_DEGREE_OR_2 :: "build \<Rightarrow> nat" where
  "MAX_SIMD_DEGREE_OR_2 b = (if MAX_SIMD_DEGREE b > 2 then MAX_SIMD_DEGREE b else 2)"

definition blake3_compress_in_place ::
  "build \<Rightarrow> u32 list \<Rightarrow> byte list \<Rightarrow> byte \<Rightarrow> u64 \<Rightarrow> byte \<Rightarrow> u32 list" where
  "blake3_compress_in_place b cv block block_len counter flags =
     (case b of
        Simd_Build blake3_cpu_features \<Rightarrow>
          if blake3_cpu_features AND AVX512 \<noteq> 0 then
            blake3_compress_in_place_avx512 cv block block_len counter flags
          else if blake3_cpu_features AND SSE41 \<noteq> 0 then
            blake3_compress_in_place_sse41 cv block block_len counter flags
          else if blake3_cpu_features AND SSE2 \<noteq> 0 then
            blake3_compress_in_place_sse2 cv block block_len counter flags
          else blake3_compress_in_place_portable cv block block_len counter flags
      | Portable_Build \<Rightarrow> blake3_compress_in_place_portable cv block block_len counter flags)"

definition blake3_compress_xof ::
  "build \<Rightarrow> u32 list \<Rightarrow> byte list \<Rightarrow> byte \<Rightarrow> u64 \<Rightarrow> byte \<Rightarrow> byte list" where
  "blake3_compress_xof b cv block block_len counter flags =
     (case b of
        Simd_Build blake3_cpu_features \<Rightarrow>
          if blake3_cpu_features AND AVX512 \<noteq> 0 then
            blake3_compress_xof_avx512 cv block block_len counter flags
          else if blake3_cpu_features AND SSE41 \<noteq> 0 then
            blake3_compress_xof_sse41 cv block block_len counter flags
          else if blake3_cpu_features AND SSE2 \<noteq> 0 then
            blake3_compress_xof_sse2 cv block block_len counter flags
          else blake3_compress_xof_portable cv block block_len counter flags
      | Portable_Build \<Rightarrow> blake3_compress_xof_portable cv block block_len counter flags)"

definition blake3_hash_many ::
  "build \<Rightarrow> byte list list \<Rightarrow> nat \<Rightarrow> u32 list \<Rightarrow> u64 \<Rightarrow> bool \<Rightarrow> byte \<Rightarrow> byte \<Rightarrow> byte \<Rightarrow> byte list list" where
  "blake3_hash_many b inputs blocks key counter increment_counter flags flags_start flags_end =
     (case b of
        Simd_Build blake3_cpu_features \<Rightarrow>
          if blake3_cpu_features AND AVX512 \<noteq> 0 then
            blake3_hash_many_avx512 inputs blocks key counter increment_counter flags flags_start flags_end
          else if blake3_cpu_features AND AVX2 \<noteq> 0 then
            blake3_hash_many_avx2 inputs blocks key counter increment_counter flags flags_start flags_end
          else if blake3_cpu_features AND SSE41 \<noteq> 0 then
            blake3_hash_many_sse41 inputs blocks key counter increment_counter flags flags_start flags_end
          else if blake3_cpu_features AND SSE2 \<noteq> 0 then
            blake3_hash_many_sse2 inputs blocks key counter increment_counter flags flags_start flags_end
          else blake3_hash_many_portable inputs blocks key counter increment_counter flags flags_start flags_end
      | Portable_Build \<Rightarrow>
          blake3_hash_many_portable inputs blocks key counter increment_counter flags flags_start flags_end)"

definition blake3_simd_degree :: "build \<Rightarrow> nat" where
  "blake3_simd_degree b =
     (case b of
        Simd_Build blake3_cpu_features \<Rightarrow>
          if blake3_cpu_features AND AVX512 \<noteq> 0 then 16
          else if blake3_cpu_features AND AVX2 \<noteq> 0 then 8
          else if blake3_cpu_features AND SSE41 \<noteq> 0 then 4
          else if blake3_cpu_features AND SSE2 \<noteq> 0 then 4
          else 1
      | Portable_Build \<Rightarrow> 1)"

section \<open>The contract of a build\<close>

lemma simd_degree_pos: "0 < blake3_simd_degree b"
  by (simp add: blake3_simd_degree_def split: build.split)

lemma length_hash_many_portable [simp]:
  "length (blake3_hash_many_portable inputs blocks key ctr inc fl fs fe) = length inputs"
  by (induction inputs blocks key ctr inc fl fs fe rule: blake3_hash_many_portable.induct) simp_all

lemma many_loop_length:
  "many_loop n hashn inputs c inc = (out_bytes, rest, c') \<Longrightarrow> length out_bytes + length rest = length inputs"
proof (induction n hashn inputs c inc arbitrary: out_bytes rule: many_loop.induct)
  case (1 n hashn inputs c inc)
  show ?case
  proof (cases "n \<le> length inputs \<and> 0 < n")
    case True
    then obtain o1 where o1: "many_loop n hashn (drop n inputs) (if inc then c + of_nat n else c) inc = (o1, rest, c')"
      "out_bytes = outputs n (hashn (take n inputs) c) @ o1"
      using "1.prems" by (auto simp: many_loop.simps [of n hashn inputs] split: prod.splits)
    then show ?thesis using "1.IH" [OF True o1(1)] conjunct1 [OF True] by (simp add: outputs_def)
  qed (use "1.prems" in \<open>auto simp: many_loop.simps [of n hashn inputs]\<close>)
qed

lemma one_loop_length [simp]: "length (one_loop hash1 inputs c inc) = length inputs"
  by (induction hash1 inputs c inc rule: one_loop.induct) simp_all

text \<open>Every build writes one output for every input.\<close>

lemma length_hash_many [simp]: "length (blake3_hash_many b inputs blocks key ctr inc fl fs fe) = length inputs"
  by (auto simp: blake3_hash_many_def blake3_hash_many_avx512_def blake3_hash_many_avx2_def blake3_hash_many_sse41_def
      blake3_hash_many_sse2_def split: build.split prod.split dest!: many_loop_length)

locale blake3_backend =
  fixes b :: build
  assumes dispatch_compress: "blake3_compress_in_place b = blake3_compress_in_place_portable"
    and dispatch_xof: "blake3_compress_xof b = blake3_compress_xof_portable"
    and dispatch_hash_many: "length key = 8 \<Longrightarrow> list_all (\<lambda>i. 64 * blocks \<le> length i) inputs \<Longrightarrow>
      blake3_hash_many b inputs blocks key = blake3_hash_many_portable inputs blocks key"

text \<open>Builds that do not choose the AVX-512 code.\<close>

definition no_avx512 :: "build \<Rightarrow> bool" where
  "no_avx512 b = (case b of Portable_Build \<Rightarrow> True | Simd_Build f \<Rightarrow> f AND AVX512 = 0)"

lemma no_avx512_backend: "no_avx512 b \<Longrightarrow> blake3_backend b"
  by unfold_locales
    (auto simp: fun_eq_iff no_avx512_def blake3_compress_in_place_def blake3_compress_xof_def blake3_hash_many_def
      compress_sse2 compress_sse41 hash_many_sse2 hash_many_sse41 hash_many_avx2 split: build.splits)

interpretation portable_build: blake3_backend Portable_Build
  by (rule no_avx512_backend) (simp add: no_avx512_def)

interpretation avx2_build: blake3_backend "Simd_Build 7"
  by (rule no_avx512_backend) (simp add: no_avx512_def)

section \<open>Properties\<close>

text \<open>
  Property C6 (equivalence). Whichever of the SSE2, SSE4.1 and AVX2 kernels the CPU features choose, the
  dispatched compression, extended output and hash of many inputs are those of the portable code, for all
  keys, counters (carries into the high word included), flags and numbers of inputs.
\<close>

theorem simd_kernels_are_portable:
  assumes "no_avx512 b" "length key = 8" "list_all (\<lambda>p. 64 * blocks \<le> length p) inputs"
  shows "blake3_compress_in_place b cv block block_len counter flags =
      blake3_compress_in_place_portable cv block block_len counter flags \<and>
    blake3_compress_xof b cv block block_len counter flags =
      blake3_compress_xof_portable cv block block_len counter flags \<and>
    blake3_hash_many b inputs blocks key counter increment_counter flags flags_start flags_end =
      blake3_hash_many_portable inputs blocks key counter increment_counter flags flags_start flags_end"
proof -
  note backend = no_avx512_backend [OF assms(1)]
  show ?thesis
    by (simp add: blake3_backend.dispatch_compress [OF backend] blake3_backend.dispatch_xof [OF backend]
        blake3_backend.dispatch_hash_many [OF backend assms(2,3)])
qed

theorem simd_kernels_are_portable_witness:
  "no_avx512 (Simd_Build 7) \<and> length IV = 8 \<and> list_all (\<lambda>p. 64 * 1 \<le> length p) (replicate 13 (replicate 64 (7 :: byte))) \<and>
   blake3_hash_many (Simd_Build 7) (replicate 13 (replicate 64 7)) 1 IV 0xFFFFFFFE True 0 1 2 =
     blake3_hash_many_portable (replicate 13 (replicate 64 7)) 1 IV 0xFFFFFFFE True 0 1 2"
proof -
  have a: "no_avx512 (Simd_Build 7)" by (simp add: no_avx512_def)
  have b: "length IV = 8" by (simp add: IV_def)
  have c: "list_all (\<lambda>p. 64 * 1 \<le> length p) (replicate 13 (replicate 64 (7 :: byte)))" by (simp add: list_all_iff)
  show ?thesis
    using a b c simd_kernels_are_portable [OF a b c, of IV "[]" 0 "0xFFFFFFFE" 0 True 1 2] by blast
qed

text \<open>
  The detection of AVX-512 accepts a CPU that has the foundation instructions and lacks the vector length
  extension, although the kernels use both.
\<close>

lemma detect_avx512_without_vl:
  "blake3_detect_cpu_features
     (\<lambda>id sid. if id = 1 then (0, 0, push_bit 27 1, 0) else if id = 0 then (7, 0, 0, 0) else (0, push_bit 16 1, 0, 0)) 0xe0 = 8"
  by code_simp

end
