(* ===== verification/Merge_Tree.thy ===== *)
theory Merge_Tree
  imports Aruu_Base
begin

text \<open>
  Hashing of a sequence in a tree whose left subtrees are complete: the shape BLAKE3 prescribes, the level
  by level evaluation, and the stack of complete subtrees of an incremental evaluation. Everything is
  stated for an arbitrary function \<open>P\<close> that combines two nodes.
\<close>

section \<open>Definitions\<close>

text \<open>The largest power of two that is not above a positive number.\<close>

fun pow2_le :: "nat \<Rightarrow> nat" where
  "pow2_le n = (if n < 2 then 1 else 2 * pow2_le (n div 2))"

declare pow2_le.simps [simp del]

fun bit_count :: "nat \<Rightarrow> nat" where
  "bit_count n = (if n = 0 then 0 else n mod 2 + bit_count (n div 2))"

declare bit_count.simps [simp del]

lemma pow2_le_ex: "\<exists>k. pow2_le n = 2 ^ k"
proof (induction n rule: pow2_le.induct)
  case (1 n)
  show ?case
  proof (cases "n < 2")
    case True
    then have "pow2_le n = 2 ^ 0" by (simp add: pow2_le.simps)
    then show ?thesis ..
  next
    case False
    then obtain k where "pow2_le (n div 2) = 2 ^ k" using 1 by blast
    then have "pow2_le n = 2 ^ Suc k" using False by (simp add: pow2_le.simps [of n])
    then show ?thesis ..
  qed
qed

lemma pow2_le_pos [simp]: "0 < pow2_le n"
  using pow2_le_ex [of n] by auto

lemma pow2_le_bounds: "0 < n \<Longrightarrow> pow2_le n \<le> n \<and> n < 2 * pow2_le n"
proof (induction n rule: pow2_le.induct)
  case (1 n)
  show ?case
  proof (cases "n < 2")
    case True
    with 1 show ?thesis by (auto simp: pow2_le.simps)
  next
    case False
    then have "pow2_le (n div 2) \<le> n div 2 \<and> n div 2 < 2 * pow2_le (n div 2)" using 1 by simp
    then show ?thesis using False by (simp add: pow2_le.simps [of n]) linarith
  qed
qed

lemma pow2_less_imp: "(2::nat) ^ a < 2 ^ b \<Longrightarrow> a < b"
  by (rule power_less_imp_less_exp [of 2]) simp_all

lemma pow2_le_unique:
  assumes "2 ^ k \<le> n" "n < 2 ^ Suc k"
  shows "pow2_le n = 2 ^ k"
proof -
  obtain j where j: "pow2_le n = 2 ^ j" using pow2_le_ex by blast
  have "0 < n" using assms(1) by (rule less_le_trans [rotated]) simp
  then have "(2::nat) ^ j \<le> n" "n < 2 ^ Suc j" using pow2_le_bounds [of n] j by simp_all
  then have "(2::nat) ^ j < 2 ^ Suc k" "(2::nat) ^ k < 2 ^ Suc j" using assms by linarith+
  then have "j < Suc k" "k < Suc j" by (auto intro: pow2_less_imp)
  then show ?thesis using j by simp
qed

function tree_merge :: "('c \<Rightarrow> 'c \<Rightarrow> 'c) \<Rightarrow> 'c list \<Rightarrow> 'c" where
  "tree_merge P cs =
     (if length cs \<le> 1 then hd cs
      else let k = pow2_le (length cs - 1) in P (tree_merge P (take k cs)) (tree_merge P (drop k cs)))"
  by pat_completeness auto
termination
proof (relation "measure (\<lambda>(P, cs). length cs)", goal_cases)
  case (2 P cs k)
  then show ?case using pow2_le_bounds [of "length cs - 1"] by auto
next
  case (3 P cs k)
  then show ?case using pow2_le_pos [of "length cs - 1"] by (simp del: pow2_le_pos)
qed simp

declare tree_merge.simps [simp del]

fun merge_pairs :: "('c \<Rightarrow> 'c \<Rightarrow> 'c) \<Rightarrow> 'c list \<Rightarrow> 'c list" where
  "merge_pairs P (a # b # cs) = P a b # merge_pairs P cs"
| "merge_pairs P cs = cs"

text \<open>The complete subtrees of a sequence, largest first: one for every bit of the length.\<close>

function subtrees :: "('c \<Rightarrow> 'c \<Rightarrow> 'c) \<Rightarrow> 'c list \<Rightarrow> 'c list" where
  "subtrees P cs =
     (if cs = [] then []
      else let k = pow2_le (length cs) in tree_merge P (take k cs) # subtrees P (drop k cs))"
  by pat_completeness auto
termination
  by (relation "measure (\<lambda>(P, cs). length cs)") auto

declare subtrees.simps [simp del]

definition merge_top :: "('c \<Rightarrow> 'c \<Rightarrow> 'c) \<Rightarrow> 'c list \<Rightarrow> 'c list" where
  "merge_top P s = take (length s - 2) s @ [P (s ! (length s - 2)) (s ! (length s - 1))]"

function merge_down :: "('c \<Rightarrow> 'c \<Rightarrow> 'c) \<Rightarrow> nat \<Rightarrow> 'c list \<Rightarrow> 'c list" where
  "merge_down P n s = (if n < length s \<and> 2 \<le> length s then merge_down P n (merge_top P s) else s)"
  by pat_completeness auto
termination
  by (relation "measure (\<lambda>(P, n, s). length s)") (auto simp: merge_top_def)

declare merge_down.simps [simp del]

section \<open>Complete left subtrees\<close>

lemma tree_merge_single [simp]: "tree_merge P [c] = c"
  by (simp add: tree_merge.simps)

lemma tree_merge_split_at:
  assumes "length xs = 2 ^ i" "ys \<noteq> []" "length ys \<le> 2 ^ i"
  shows "pow2_le (length (xs @ ys) - 1) = 2 ^ i"
proof (rule pow2_le_unique)
  have l: "1 \<le> length ys" using assms(2) by (simp add: Suc_leI)
  show "2 ^ i \<le> length (xs @ ys) - 1" unfolding length_append using assms(1,3) l by linarith
  show "length (xs @ ys) - 1 < 2 ^ Suc i" unfolding length_append power_Suc using assms(1,3) l by linarith
qed

lemma tree_merge_append:
  assumes "length xs = 2 ^ i" "ys \<noteq> []" "length ys \<le> 2 ^ i"
  shows "tree_merge P (xs @ ys) = P (tree_merge P xs) (tree_merge P ys)"
proof -
  have l: "1 \<le> length ys" "1 \<le> (2::nat) ^ i" using assms(2) by (simp_all add: Suc_leI)
  then have "\<not> length (xs @ ys) \<le> 1" unfolding length_append using assms(1) by linarith
  then show ?thesis
    using tree_merge_split_at [OF assms] assms(1) by (simp add: tree_merge.simps [of P "xs @ ys"] Let_def)
qed

lemma tree_merge_split:
  assumes "2 \<le> length cs"
  obtains i xs ys where "cs = xs @ ys" "length xs = 2 ^ i" "ys \<noteq> []" "length ys \<le> 2 ^ i"
    "tree_merge P cs = P (tree_merge P xs) (tree_merge P ys)" "pow2_le (length cs - 1) = 2 ^ i"
proof -
  obtain i where i: "pow2_le (length cs - 1) = 2 ^ i" using pow2_le_ex by blast
  have "2 ^ i \<le> length cs - 1" "length cs - 1 < 2 * 2 ^ i"
    using pow2_le_bounds [of "length cs - 1"] assms i by auto
  then have l: "length (take (2 ^ i) cs) = 2 ^ i" "drop (2 ^ i) cs \<noteq> []" "length (drop (2 ^ i) cs) \<le> 2 ^ i"
    using assms by auto
  show ?thesis
    using that [OF _ l _ i] tree_merge_append [OF l, of P] by simp
qed

lemma merge_pairs_append: "even (length xs) \<Longrightarrow> merge_pairs P (xs @ ys) = merge_pairs P xs @ merge_pairs P ys"
  by (induction P xs rule: merge_pairs.induct) auto

lemma length_merge_pairs [simp]: "length (merge_pairs P cs) = (length cs + 1) div 2"
  by (induction P cs rule: merge_pairs.induct) auto

lemma merge_pairs_Nil_iff [simp]: "merge_pairs P cs = [] \<longleftrightarrow> cs = []"
  by (cases "(P, cs)" rule: merge_pairs.cases) auto

text \<open>Combining neighbours on one level does not change the root.\<close>

lemma tree_merge_pairs: "tree_merge P (merge_pairs P cs) = tree_merge P cs"
proof (induction "length cs" arbitrary: cs rule: less_induct)
  case less
  show ?case
  proof (cases "length cs \<le> 2")
    case True
    then consider "cs = []" | a where "cs = [a]" | a b where "cs = [a, b]"
      by (cases cs rule: list.exhaust [case_product list.exhaust]; cases "tl cs"; cases "tl (tl cs)") auto
    then show ?thesis by cases (simp_all add: tree_merge.simps [of P "[a, b]" for a b] pow2_le.simps Let_def)
  next
    case False
    then obtain i xs ys where s: "cs = xs @ ys" "length xs = 2 ^ i" "ys \<noteq> []" "length ys \<le> 2 ^ i"
      "tree_merge P cs = P (tree_merge P xs) (tree_merge P ys)"
      by (metis tree_merge_split nat_le_linear)
    have "i \<noteq> 0" using s False by (cases i) auto
    then obtain j where j: "i = Suc j" by (cases i) auto
    have "tree_merge P (merge_pairs P cs) = tree_merge P (merge_pairs P xs @ merge_pairs P ys)"
      using s(1,2) j by (simp add: merge_pairs_append)
    also have "\<dots> = P (tree_merge P (merge_pairs P xs)) (tree_merge P (merge_pairs P ys))"
      using s(2-4) j by (intro tree_merge_append [where i = j]) auto
    also have "\<dots> = P (tree_merge P xs) (tree_merge P ys)"
      using less [of xs] less [of ys] s(1-3) by simp
    finally show ?thesis using s(5) by simp
  qed
qed

section \<open>The stack of complete subtrees\<close>

lemma subtrees_Nil [simp]: "subtrees P [] = []"
  by (simp add: subtrees.simps)

lemma subtrees_append:
  assumes "length xs = 2 ^ i" "length ys < 2 ^ i"
  shows "subtrees P (xs @ ys) = tree_merge P xs # subtrees P ys"
proof -
  have "pow2_le (length (xs @ ys)) = 2 ^ i"
    using assms by (intro pow2_le_unique) auto
  moreover have "xs \<noteq> []" using assms(1) by auto
  ultimately show ?thesis using assms(1) by (simp add: subtrees.simps [of P "xs @ ys"] Let_def)
qed

lemma subtrees_split:
  assumes "cs \<noteq> []"
  obtains i xs ys where "cs = xs @ ys" "length xs = 2 ^ i" "length ys < 2 ^ i"
    "subtrees P cs = tree_merge P xs # subtrees P ys"
proof -
  obtain i where i: "pow2_le (length cs) = 2 ^ i" using pow2_le_ex by blast
  have "2 ^ i \<le> length cs" "length cs < 2 * 2 ^ i"
    using pow2_le_bounds [of "length cs"] assms i by auto
  then have l: "length (take (2 ^ i) cs) = 2 ^ i" "length (drop (2 ^ i) cs) < 2 ^ i" by auto
  show ?thesis using that [OF _ l] subtrees_append [OF l, of P] by simp
qed

text \<open>A complete subtree behind a sequence it is aligned with.\<close>

lemma subtrees_snoc:
  assumes "2 ^ Suc i dvd length cs" "length ds = 2 ^ i"
  shows "subtrees P (cs @ ds) = subtrees P cs @ [tree_merge P ds]"
  using assms(1)
proof (induction "length cs" arbitrary: cs rule: less_induct)
  case less
  show ?case
  proof (cases "cs = []")
    case True
    then show ?thesis using subtrees_append [OF assms(2), of "[]" P] by simp
  next
    case False
    then obtain k xs ys where s: "cs = xs @ ys" "length xs = 2 ^ k" "length ys < 2 ^ k"
      "subtrees P cs = tree_merge P xs # subtrees P ys" by (rule subtrees_split)
    have "2 ^ Suc i \<le> length cs" using less.prems False by (intro dvd_imp_le) auto
    then have "(2::nat) ^ Suc i < 2 ^ Suc k" unfolding s(1) length_append power_Suc using s(2,3) by linarith
    then have "Suc i < Suc k" by (rule pow2_less_imp)
    then have k: "Suc i \<le> k" by simp
    then have d: "2 ^ Suc i dvd (2::nat) ^ k" by (rule le_imp_power_dvd)
    then have y: "2 ^ Suc i dvd length ys" using less.prems s by (simp add: dvd_add_right_iff)
    obtain q where q: "length ys = 2 ^ Suc i * q" "(2::nat) ^ k = 2 ^ Suc i * 2 ^ (k - Suc i)"
      using y k by (metis dvdE le_add_diff_inverse power_add)
    then have "q + 1 \<le> 2 ^ (k - Suc i)" using s(3) by simp
    then have "2 ^ Suc i * (q + 1) \<le> 2 ^ Suc i * 2 ^ (k - Suc i)" by (rule mult_le_mono2)
    then have "length ys + 2 ^ Suc i \<le> 2 ^ k" using q by (simp only: distrib_left mult_1_right)
    moreover have "0 < (2::nat) ^ i" by simp
    ultimately have "length (ys @ ds) < 2 ^ k" unfolding length_append assms(2) power_Suc by linarith
    then have "subtrees P (xs @ (ys @ ds)) = tree_merge P xs # subtrees P (ys @ ds)"
      by (rule subtrees_append [OF s(2)])
    moreover have "subtrees P (ys @ ds) = subtrees P ys @ [tree_merge P ds]"
      using less.hyps [of ys] s(1,2) y by (cases xs) auto
    ultimately show ?thesis using s(1,4) by simp
  qed
qed

lemma length_merge_top [simp]: "2 \<le> length s \<Longrightarrow> length (merge_top P s) = length s - 1"
  by (simp add: merge_top_def)

lemma merge_top_append [simp]: "merge_top P (s @ [a, b]) = s @ [P a b]"
  by (simp add: merge_top_def nth_append)

lemma merge_down_done: "length s \<le> n \<Longrightarrow> merge_down P n s = s"
  by (simp add: merge_down.simps)

lemma subtrees_carry:
  assumes "2 ^ i dvd length cs" "\<not> 2 ^ Suc i dvd length cs"
  obtains xs ys where "cs = xs @ ys" "length ys = 2 ^ i" "2 ^ Suc i dvd length xs"
    "subtrees P cs = subtrees P xs @ [tree_merge P ys]"
proof -
  obtain q where q: "length cs = 2 ^ i * q" using assms(1) by (metis dvdE)
  have "odd q"
  proof
    assume "even q"
    then obtain r where "q = 2 * r" ..
    then have "length cs = 2 ^ Suc i * r" using q by simp
    then show False using assms(2) by simp
  qed
  then obtain r where r: "q = 2 * r + 1" by (rule oddE)
  let ?xs = "take (2 ^ Suc i * r) cs" and ?ys = "drop (2 ^ Suc i * r) cs"
  have n: "length cs = 2 ^ Suc i * r + 2 ^ i" using q r by (simp add: algebra_simps)
  have l: "length ?ys = 2 ^ i" "2 ^ Suc i dvd length ?xs"
    unfolding length_drop length_take n by simp_all
  show ?thesis using that [OF _ l] subtrees_snoc [OF l(2,1), of P] by simp
qed

text \<open>
  Pushing a complete subtree on the stack and merging down to the number of subtrees of the longer
  sequence gives the stack of the longer sequence.
\<close>

lemma merge_down_push:
  assumes "2 ^ i dvd length cs" "length ds = 2 ^ i"
  shows "merge_down P (length (subtrees P (cs @ ds))) (subtrees P cs @ [tree_merge P ds]) = subtrees P (cs @ ds)"
  using assms
proof (induction "length cs" arbitrary: cs ds i rule: less_induct)
  case less
  show ?case
  proof (cases "2 ^ Suc i dvd length cs")
    case True
    then show ?thesis using subtrees_snoc [OF True less.prems(2), of P] by (simp add: merge_down_done)
  next
    case False
    from less.prems(1) this obtain xs ys where s: "cs = xs @ ys" "length ys = 2 ^ i" "2 ^ Suc i dvd length xs"
      "subtrees P cs = subtrees P xs @ [tree_merge P ys]" by (rule subtrees_carry)
    have m: "tree_merge P (ys @ ds) = P (tree_merge P ys) (tree_merge P ds)"
      using s(2) less.prems(2) by (intro tree_merge_append [where i = i]) auto
    have e: "length (ys @ ds) = 2 ^ Suc i" using s(2) less.prems(2) by simp
    have "length xs < length cs" using s(1,2) by simp
    then have IH: "merge_down P (length (subtrees P (xs @ ys @ ds))) (subtrees P xs @ [tree_merge P (ys @ ds)]) =
        subtrees P (xs @ ys @ ds)"
      using less.hyps [OF _ s(3) e] by blast
    have le: "length (subtrees P (xs @ ys @ ds)) \<le> Suc (length (subtrees P xs))"
    proof (rule ccontr)
      assume "\<not> ?thesis"
      then have "merge_down P (length (subtrees P (xs @ ys @ ds))) (subtrees P xs @ [tree_merge P (ys @ ds)]) =
          subtrees P xs @ [tree_merge P (ys @ ds)]"
        by (intro merge_down_done) simp
      with IH have "length (subtrees P (xs @ ys @ ds)) = Suc (length (subtrees P xs))" by (metis length_append_singleton)
      with \<open>\<not> ?thesis\<close> show False by simp
    qed
    have "merge_down P (length (subtrees P (cs @ ds))) (subtrees P cs @ [tree_merge P ds]) =
        merge_down P (length (subtrees P (xs @ ys @ ds))) (subtrees P xs @ [P (tree_merge P ys) (tree_merge P ds)])"
      using le s(1,4) merge_top_append [of P "subtrees P xs" "tree_merge P ys" "tree_merge P ds"]
      by (subst merge_down.simps) simp
    then show ?thesis using IH s(1) m by simp
  qed
qed

section \<open>Counting bits\<close>

lemma bit_count_0 [simp]: "bit_count 0 = 0"
  by (simp add: bit_count.simps)

lemma bit_count_double [simp]: "bit_count (2 * n) = bit_count n"
  by (cases "n = 0") (simp_all add: bit_count.simps [of "2 * n"])

lemma bit_count_double_Suc [simp]: "bit_count (2 * n + 1) = Suc (bit_count n)" "bit_count (Suc (2 * n)) = Suc (bit_count n)"
  by (simp_all add: bit_count.simps [of "Suc (2 * n)"])

lemma bit_count_add: "r < 2 ^ k \<Longrightarrow> bit_count (2 ^ k + r) = Suc (bit_count r)"
proof (induction k arbitrary: r)
  case (Suc k)
  have IH: "bit_count (2 ^ k + r div 2) = Suc (bit_count (r div 2))" using Suc by simp
  show ?case
  proof (cases "even r")
    case True
    then obtain q where "r = 2 * q" ..
    then show ?thesis using IH bit_count_double [of "2 ^ k + q"] by (simp add: distrib_left)
  next
    case False
    then obtain q where "r = 2 * q + 1" by (rule oddE)
    then show ?thesis using IH bit_count_double_Suc(2) [of "2 ^ k + q"] by (simp add: distrib_left)
  qed
qed (simp add: bit_count.simps)

lemma length_subtrees: "length (subtrees P cs) = bit_count (length cs)"
proof (induction "length cs" arbitrary: cs rule: less_induct)
  case less
  show ?case
  proof (cases "cs = []")
    case False
    then obtain i xs ys where s: "cs = xs @ ys" "length xs = 2 ^ i" "length ys < 2 ^ i"
      "subtrees P cs = tree_merge P xs # subtrees P ys" by (rule subtrees_split)
    have "length ys < length cs" using s(1,2) by simp
    then show ?thesis using less [of ys] s bit_count_add [OF s(3)] by simp
  qed simp
qed

lemma bit_count_le: "n < 2 ^ k \<Longrightarrow> bit_count n \<le> k"
proof (induction k arbitrary: n)
  case (Suc k)
  then have "bit_count (n div 2) \<le> k" by simp
  then show ?case by (cases "n = 0") (simp_all add: bit_count.simps [of n])
qed simp

text \<open>Clearing the lowest bit that is set.\<close>

lemma bit_count_and_pred: "0 < n \<Longrightarrow> Suc (bit_count (n AND (n - 1))) = bit_count n"
proof (induction n rule: less_induct)
  case (less n)
  show ?case
  proof (cases "even n")
    case True
    then obtain q where q: "n = 2 * q" "0 < q" using less.prems by (auto elim!: evenE)
    have "odd (n - 1)" "(n - 1) div 2 = q - 1" using q by auto
    then have "n AND (n - 1) = 2 * (q AND (q - 1))" using q by (subst and_rec) simp
    moreover have "Suc (bit_count (q AND (q - 1))) = bit_count q" using less.IH q by simp
    ultimately show ?thesis using q by simp
  next
    case False
    then obtain q where q: "n = 2 * q + 1" by (rule oddE)
    have "n AND (n - 1) = 2 * q" using q by (subst and_rec) simp
    then show ?thesis using q by simp
  qed
qed

text \<open>Closing a tree whose last part is itself an aligned subtree.\<close>

lemma aligned_append_le:
  assumes "2 ^ i dvd length ys" "length ys < 2 ^ k" "length ds \<le> 2 ^ i" "i \<le> k"
  shows "length (ys @ ds) \<le> 2 ^ k"
proof -
  obtain q where q: "length ys = 2 ^ i * q" using assms(1) by (metis dvdE)
  have p: "(2::nat) ^ k = 2 ^ i * 2 ^ (k - i)" using assms(4) by (metis le_add_diff_inverse power_add)
  have "q + 1 \<le> 2 ^ (k - i)" using assms(2) q p by simp
  then have "2 ^ i * (q + 1) \<le> 2 ^ i * 2 ^ (k - i)" by (rule mult_le_mono2)
  then show ?thesis using q p assms(3) by simp
qed

lemma aligned_split:
  assumes "2 ^ i dvd length (xs @ ys)" "xs @ ys \<noteq> []" "length xs = 2 ^ k" "length ys < 2 ^ k" "length ds \<le> 2 ^ i"
  shows "2 ^ i dvd length ys" "length (ys @ ds) \<le> 2 ^ k"
proof -
  have "2 ^ i \<le> length (xs @ ys)" using assms(1,2) by (intro dvd_imp_le) auto
  then have "(2::nat) ^ i < 2 ^ Suc k" unfolding length_append power_Suc using assms(3,4) by linarith
  then have k: "i \<le> k" using pow2_less_imp [of i "Suc k"] by simp
  then have "2 ^ i dvd (2::nat) ^ k" by (rule le_imp_power_dvd)
  then show d: "2 ^ i dvd length ys" using assms(1,3) by (simp add: dvd_add_right_iff)
  show "length (ys @ ds) \<le> 2 ^ k" using d assms(4,5) k by (rule aligned_append_le)
qed

lemma foldr_subtrees:
  assumes "2 ^ i dvd length cs" "ds \<noteq> []" "length ds \<le> 2 ^ i"
  shows "foldr P (subtrees P cs) (tree_merge P ds) = tree_merge P (cs @ ds)"
  using assms(1)
proof (induction "length cs" arbitrary: cs rule: less_induct)
  case less
  show ?case
  proof (cases "cs = []")
    case False
    then obtain k xs ys where s: "cs = xs @ ys" "length xs = 2 ^ k" "length ys < 2 ^ k"
      "subtrees P cs = tree_merge P xs # subtrees P ys" by (rule subtrees_split)
    note a = aligned_split [OF _ _ s(2,3) assms(3)]
    have "length ys < length cs" using s(1,2) by simp
    then have "foldr P (subtrees P ys) (tree_merge P ds) = tree_merge P (ys @ ds)"
      using less a(1) False s(1) by simp
    moreover have "tree_merge P (xs @ (ys @ ds)) = P (tree_merge P xs) (tree_merge P (ys @ ds))"
      using s(2) a(2) less.prems False s(1) assms(2) by (intro tree_merge_append [where i = k]) auto
    ultimately show ?thesis using s(1,4) by simp
  qed simp
qed

text \<open>The two sides of the root.\<close>

lemma subtrees_root:
  fixes cs ds :: "'c list"
  assumes "cs \<noteq> []" "2 ^ i dvd length cs" "ds \<noteq> []" "length ds \<le> 2 ^ i"
  defines "k \<equiv> pow2_le (length (cs @ ds) - 1)"
  shows "\<exists>rest. subtrees P cs = tree_merge P (take k (cs @ ds)) # rest \<and>
    foldr P rest (tree_merge P ds) = tree_merge P (drop k (cs @ ds))"
proof -
  from assms(1) obtain j xs ys where s: "cs = xs @ ys" "length xs = 2 ^ j" "length ys < 2 ^ j"
    "subtrees P cs = tree_merge P xs # subtrees P ys" by (rule subtrees_split)
  note a = aligned_split [OF _ _ s(2,3) assms(4)]
  have l: "length (ys @ ds) \<le> 2 ^ j" "1 \<le> length (ys @ ds)" "2 ^ i dvd length ys"
    using a assms(1-3) s(1) by (auto simp: Suc_le_eq)
  have "k = 2 ^ j" unfolding k_def
  proof (rule pow2_le_unique)
    have e: "length (cs @ ds) = 2 ^ j + length (ys @ ds)" using s(1,2) by simp
    show "2 ^ j \<le> length (cs @ ds) - 1" "length (cs @ ds) - 1 < 2 ^ Suc j" unfolding e power_Suc using l by linarith+
  qed
  moreover have "foldr P (subtrees P ys) (tree_merge P ds) = tree_merge P (ys @ ds)"
    using l(3) assms(3,4) by (rule foldr_subtrees)
  ultimately show ?thesis using s by simp
qed

end
