(* ===== verification/Blake3_Tree.thy ===== *)
theory Blake3_Tree
  imports Blake3_Dispatch Merge_Tree
begin

text \<open>
  Chunks, outputs and subtrees of \<open>shared/libblake3/blake3.c\<close>, on top of the dispatch functions.

  A pointer to input with its length is the list of the input bytes. An array of chaining values of 32
  bytes each is the list of these values. An operation that fails an \<open>assert\<close> returns \<open>None\<close>. The
  reference definitions describe the tree of the BLAKE3 specification directly on the whole input.
\<close>

section \<open>Definitions\<close>

record node_output =
  out_input_cv :: "u32 list"
  out_counter :: u64
  out_block :: "byte list"
  out_block_len :: byte
  out_flags :: byte

record chunk_state =
  cs_cv :: "u32 list"
  cs_chunk_counter :: u64
  cs_buf :: "byte list"
  cs_buf_len :: byte
  cs_blocks_compressed :: byte
  cs_flags :: byte

definition chunk_state_init :: "u32 list \<Rightarrow> byte \<Rightarrow> chunk_state" where
  "chunk_state_init key flags =
     \<lparr>cs_cv = key, cs_chunk_counter = 0, cs_buf = replicate 64 0, cs_buf_len = 0, cs_blocks_compressed = 0,
      cs_flags = flags\<rparr>"

definition chunk_state_reset :: "chunk_state \<Rightarrow> u32 list \<Rightarrow> u64 \<Rightarrow> chunk_state" where
  "chunk_state_reset self key chunk_counter =
     self\<lparr>cs_cv := key, cs_chunk_counter := chunk_counter, cs_blocks_compressed := 0,
       cs_buf := replicate 64 0, cs_buf_len := 0\<rparr>"

definition chunk_state_len :: "chunk_state \<Rightarrow> nat" where
  "chunk_state_len self = 64 * unat (cs_blocks_compressed self) + unat (cs_buf_len self)"

definition chunk_state_fill_buf :: "chunk_state \<Rightarrow> byte list \<Rightarrow> chunk_state \<times> nat" where
  "chunk_state_fill_buf self input =
     (let n = 64 - unat (cs_buf_len self);
          n = (if n > length input then length input else n)
      in (self\<lparr>cs_buf := buf_write (cs_buf self) (unat (cs_buf_len self)) (take n input),
            cs_buf_len := cs_buf_len self + of_nat n\<rparr>, n))"

definition chunk_state_maybe_start_flag :: "chunk_state \<Rightarrow> byte" where
  "chunk_state_maybe_start_flag self = (if cs_blocks_compressed self = 0 then CHUNK_START else 0)"

definition make_output :: "u32 list \<Rightarrow> byte list \<Rightarrow> byte \<Rightarrow> u64 \<Rightarrow> byte \<Rightarrow> node_output" where
  "make_output input_cv block block_len counter flags =
     \<lparr>out_input_cv = input_cv, out_counter = counter, out_block = block, out_block_len = block_len,
      out_flags = flags\<rparr>"

definition output_chaining_value :: "build \<Rightarrow> node_output \<Rightarrow> byte list" where
  "output_chaining_value b self =
     store_cv_words (blake3_compress_in_place b (out_input_cv self) (out_block self) (out_block_len self)
       (out_counter self) (out_flags self))"

text \<open>The loop of \<open>output_root_bytes\<close>; \<open>seek % 64\<close> and 0, the offsets in a block, are words of six bits.\<close>

function root_loop :: "build \<Rightarrow> node_output \<Rightarrow> u64 \<Rightarrow> 6 word \<Rightarrow> nat \<Rightarrow> byte list" where
  "root_loop b self output_block_counter offset_within_block out_len =
     (if out_len > 0 then
        let wide_buf = blake3_compress_xof b (out_input_cv self) (out_block self) (out_block_len self)
              output_block_counter (out_flags self OR ROOT);
            available_bytes = 64 - unat offset_within_block;
            memcpy_len = (if out_len > available_bytes then available_bytes else out_len)
        in take memcpy_len (drop (unat offset_within_block) wide_buf) @
           root_loop b self (output_block_counter + 1) 0 (out_len - memcpy_len)
      else [])"
  by pat_completeness auto
termination
proof (relation "measure (\<lambda>(b, self, c, off, n). n)", goal_cases)
  case (2 b self c off n)
  have "unat off < 2 ^ LENGTH(6)" by (rule unsigned_less)
  with 2 show ?case by auto
qed simp

declare root_loop.simps [simp del]

definition output_root_bytes :: "build \<Rightarrow> node_output \<Rightarrow> u64 \<Rightarrow> nat \<Rightarrow> byte list" where
  "output_root_bytes b self seek out_len = root_loop b self (seek div 64) (ucast seek) out_len"

definition chunk_compress :: "build \<Rightarrow> chunk_state \<Rightarrow> byte list \<Rightarrow> chunk_state" where
  "chunk_compress b self block =
     self\<lparr>cs_cv := blake3_compress_in_place b (cs_cv self) block 64 (cs_chunk_counter self)
            (cs_flags self OR chunk_state_maybe_start_flag self),
          cs_blocks_compressed := cs_blocks_compressed self + 1\<rparr>"

function chunk_blocks :: "build \<Rightarrow> chunk_state \<Rightarrow> byte list \<Rightarrow> chunk_state \<times> byte list" where
  "chunk_blocks b self input =
     (if length input > 64 then chunk_blocks b (chunk_compress b self (take 64 input)) (drop 64 input)
      else (self, input))"
  by pat_completeness auto
termination
  by (relation "measure (\<lambda>(b, self, input). length input)") auto

declare chunk_blocks.simps [simp del]

definition chunk_state_update :: "build \<Rightarrow> chunk_state \<Rightarrow> byte list \<Rightarrow> chunk_state" where
  "chunk_state_update b self input =
     (let (self, input) =
        (if cs_buf_len self > 0 then
           let (self, n) = chunk_state_fill_buf self input;
               input = drop n input
           in if length input > 0 then
                ((chunk_compress b self (cs_buf self))\<lparr>cs_buf_len := 0, cs_buf := replicate 64 0\<rparr>, input)
              else (self, input)
         else (self, input));
          (self, input) = chunk_blocks b self input
      in fst (chunk_state_fill_buf self input))"

definition chunk_state_output :: "chunk_state \<Rightarrow> node_output" where
  "chunk_state_output self =
     make_output (cs_cv self) (cs_buf self) (cs_buf_len self) (cs_chunk_counter self)
       (cs_flags self OR chunk_state_maybe_start_flag self OR CHUNK_END)"

definition parent_output :: "byte list \<Rightarrow> u32 list \<Rightarrow> byte \<Rightarrow> node_output" where
  "parent_output block key flags = make_output key block 64 0 (flags OR PARENT)"

text \<open>
  \<open>highest_one\<close> as it is written out for compilers without \<open>__builtin_clzll\<close>; one step of it tests the
  upper half of the bits that are left.
\<close>

definition highest_step :: "u64 \<Rightarrow> nat \<Rightarrow> u64 \<times> nat \<Rightarrow> u64 \<times> nat" where
  "highest_step m k xc = (if fst xc AND m \<noteq> 0 then (drop_bit k (fst xc), snd xc + k) else xc)"

definition highest_one :: "u64 \<Rightarrow> nat" where
  "highest_one x =
     (let xc = highest_step 0xffffffff00000000 32 (x, 0);
          xc = highest_step 0x00000000ffff0000 16 xc;
          xc = highest_step 0x000000000000ff00 8 xc;
          xc = highest_step 0x00000000000000f0 4 xc;
          xc = highest_step 0x000000000000000c 2 xc
      in if fst xc AND 0x0000000000000002 \<noteq> 0 then snd xc + 1 else snd xc)"

definition round_down_to_power_of_2 :: "u64 \<Rightarrow> u64" where
  "round_down_to_power_of_2 x = push_bit (highest_one (x OR 1)) 1"

definition left_len :: "nat \<Rightarrow> nat" where
  "left_len content_len =
     (let full_chunks = (content_len - 1) div 1024
      in unat (round_down_to_power_of_2 (of_nat full_chunks)) * 1024)"

text \<open>The full chunks at the front of the input, the array \<open>chunks_array\<close>, and what is behind them.\<close>

function full_chunks :: "byte list \<Rightarrow> byte list list \<times> byte list" where
  "full_chunks input =
     (if length input \<ge> 1024 then apfst ((#) (take 1024 input)) (full_chunks (drop 1024 input))
      else ([], input))"
  by pat_completeness auto
termination
  by (relation "measure length") auto

declare full_chunks.simps [simp del]

definition compress_chunks_parallel ::
  "build \<Rightarrow> byte list \<Rightarrow> u32 list \<Rightarrow> u64 \<Rightarrow> byte \<Rightarrow> byte list list option" where
  "compress_chunks_parallel b input key chunk_counter flags =
     (if \<not> (0 < length input \<and> length input \<le> MAX_SIMD_DEGREE b * 1024) then None
      else
        let (chunks_array, rest) = full_chunks input;
            out = blake3_hash_many b chunks_array 16 key chunk_counter True flags CHUNK_START CHUNK_END
        in if length rest > 0 then
             let counter = chunk_counter + of_nat (length chunks_array);
                 chunk_state = (chunk_state_init key flags)\<lparr>cs_chunk_counter := counter\<rparr>;
                 chunk_state = chunk_state_update b chunk_state rest
             in Some (out @ [output_chaining_value b (chunk_state_output chunk_state)])
           else Some out)"

fun parents_array :: "byte list list \<Rightarrow> byte list list" where
  "parents_array (l # r # cvs) = (l @ r) # parents_array cvs"
| "parents_array _ = []"

definition compress_parents_parallel ::
  "build \<Rightarrow> byte list list \<Rightarrow> u32 list \<Rightarrow> byte \<Rightarrow> byte list list option" where
  "compress_parents_parallel b child_chaining_values key flags =
     (if \<not> (2 \<le> length child_chaining_values \<and> length child_chaining_values \<le> 2 * MAX_SIMD_DEGREE_OR_2 b)
      then None
      else
        let pa = parents_array child_chaining_values;
            out = blake3_hash_many b pa 1 key 0 False (flags OR PARENT) 0 0
        in if length child_chaining_values > 2 * length pa
           then Some (out @ [child_chaining_values ! (2 * length pa)])
           else Some out)"

text \<open>Storing chaining values in an array from an index on. Memory that is not yet written holds zeros.\<close>

definition array_write :: "'a list \<Rightarrow> nat \<Rightarrow> 'a list \<Rightarrow> 'a list" where
  "array_write arr i xs = take i arr @ xs @ drop (i + length xs) arr"

section \<open>Powers of two\<close>

lemma unat_less_exp_iff: "unat (y :: 'a :: len word) < 2 ^ n \<longleftrightarrow> take_bit n y = y"
proof
  assume "unat y < 2 ^ n"
  then have "unat (take_bit n y) = unat y" by (simp add: unsigned_take_bit_eq take_bit_nat_eq_self_iff)
  then show "take_bit n y = y" by (simp add: unsigned_word_eqI)
next
  assume "take_bit n y = y"
  then have "unat y = take_bit n (unat y)" by (metis unsigned_take_bit_eq)
  then show "unat y < 2 ^ n" by (metis take_bit_nat_less_exp)
qed

lemma unat_drop_bit: "unat (drop_bit k (y :: 'a :: len word)) = unat y div 2 ^ k"
proof -
  have "take_bit LENGTH('a) (unat y) = unat y" by (simp add: take_bit_nat_eq_self_iff)
  then have "unat (drop_bit k y) = drop_bit k (unat y)" by (simp only: unsigned_drop_bit_eq)
  then show ?thesis by (simp only: drop_bit_eq_div)
qed

lemma unat_two_power: "n < LENGTH('a) \<Longrightarrow> unat (push_bit n (1 :: 'a :: len word)) = 2 ^ n"
  by (simp add: unsigned_push_bit_eq push_bit_of_1 take_bit_nat_eq_self_iff del: push_bit_of_1)

lemma and_upper_half:
  assumes "unat (y :: u64) < 2 ^ (2 * k)" "m = push_bit k (mask k)"
  shows "y AND m = 0 \<longleftrightarrow> unat y < 2 ^ k"
proof
  have hi: "\<not> bit y j" if "2 * k \<le> j" for j
    using assms(1) that unfolding unat_less_exp_iff by (metis bit_take_bit_iff not_less)
  assume "y AND m = 0"
  then have a: "\<not> bit (y AND m) j" for j by simp
  have "\<not> bit y j" if "k \<le> j" "j < 2 * k" "j < 64" for j
    using that assms(2) a [of j] by (auto simp: bit_simps)
  with hi have "\<not> bit y j" if "k \<le> j" "j < 64" for j using that by (cases "2 * k \<le> j") auto
  then have "take_bit k y = y" by (intro bit_word_eqI) (force simp: bit_simps not_le [symmetric])
  then show "unat y < 2 ^ k" by (simp add: unat_less_exp_iff)
next
  assume "unat y < 2 ^ k"
  then have "take_bit k y = y" by (simp add: unat_less_exp_iff)
  then have "\<not> bit y j" if "k \<le> j" for j using that by (metis bit_take_bit_iff not_less)
  then show "y AND m = 0" using assms(2) by (intro bit_word_eqI) (auto simp: bit_simps)
qed

text \<open>What is left of \<open>x\<close> in \<open>highest_one\<close> and the bits already shifted out.\<close>

definition high_part :: "u64 \<Rightarrow> nat \<Rightarrow> u64 \<times> nat \<Rightarrow> bool" where
  "high_part x w xc \<longleftrightarrow> unat (fst xc) = unat x div 2 ^ snd xc \<and> 0 < unat (fst xc) \<and> unat (fst xc) < 2 ^ w"

lemma high_part_step:
  assumes "high_part x (2 * k) xc" "m = push_bit k (mask k)"
  shows "high_part x k (highest_step m k xc)"
proof -
  obtain y c where xc: "xc = (y, c)" by (cases xc)
  have y: "unat y = unat x div 2 ^ c" "0 < unat y" "unat y < 2 ^ (2 * k)"
    using assms(1) by (auto simp: high_part_def xc)
  have d: "unat (drop_bit k y) = unat y div 2 ^ k" by (rule unat_drop_bit)
  show ?thesis
  proof (cases "unat y < 2 ^ k")
    case True
    then show ?thesis using y and_upper_half [OF y(3) assms(2)] by (simp add: high_part_def highest_step_def xc)
  next
    case False
    then have "0 < unat y div 2 ^ k" by (simp add: div_greater_zero_iff)
    moreover have "unat y div 2 ^ k < 2 ^ k"
      using y(3) by (simp add: less_mult_imp_div_less mult_2 power_add)
    ultimately show ?thesis
      using False y and_upper_half [OF y(3) assms(2)] d
      by (simp add: high_part_def highest_step_def xc div_mult2_eq power_add)
  qed
qed

lemma third_cases:
  fixes X p Y r :: nat
  assumes "X = p * Y + r" "r < p" "Y = 1 \<or> Y = 2 \<or> Y = 3"
  shows "p \<le> X \<and> X < 2 * p \<and> Y = 1 \<or> 2 * p \<le> X \<and> X < 4 * p \<and> 2 \<le> Y"
  using assms by auto

lemma highest_one_bounds:
  assumes "x \<noteq> 0"
  shows "2 ^ highest_one x \<le> unat x" "unat x < 2 ^ Suc (highest_one x)"
proof -
  have x: "0 < unat x" using assms by (simp add: unat_gt_0)
  have m: "0xffffffff00000000 = push_bit 32 (mask 32 :: u64)" "0x00000000ffff0000 = push_bit 16 (mask 16 :: u64)"
    "0x000000000000ff00 = push_bit 8 (mask 8 :: u64)" "0x00000000000000f0 = push_bit 4 (mask 4 :: u64)"
    "0x000000000000000c = push_bit 2 (mask 2 :: u64)" "0x0000000000000002 = push_bit 1 (mask 1 :: u64)"
    by (simp_all add: mask_eq_exp_minus_1)
  have "unat x < 2 ^ LENGTH(64)" by (rule unsigned_less)
  then have "high_part x (2 * 32) (x, 0)" using x by (simp add: high_part_def)
  then have "high_part x (2 * 16) (highest_step 0xffffffff00000000 32 (x, 0))"
    using high_part_step [of x 32] m(1) by simp
  then have "high_part x (2 * 8) (highest_step 0x00000000ffff0000 16 (highest_step 0xffffffff00000000 32 (x, 0)))"
    using high_part_step [of x 16] m(2) by simp
  then have "high_part x (2 * 4) (highest_step 0x000000000000ff00 8 (highest_step 0x00000000ffff0000 16
      (highest_step 0xffffffff00000000 32 (x, 0))))"
    using high_part_step [of x 8] m(3) by simp
  then have "high_part x (2 * 2) (highest_step 0x00000000000000f0 4 (highest_step 0x000000000000ff00 8
      (highest_step 0x00000000ffff0000 16 (highest_step 0xffffffff00000000 32 (x, 0)))))"
    using high_part_step [of x 4] m(4) by simp
  then have "high_part x (2 * 1) (highest_step 0x000000000000000c 2 (highest_step 0x00000000000000f0 4
      (highest_step 0x000000000000ff00 8 (highest_step 0x00000000ffff0000 16
      (highest_step 0xffffffff00000000 32 (x, 0))))))" (is "high_part _ _ ?xc")
    using high_part_step [of x 2] m(5) by simp
  then obtain y c where xc: "?xc = (y, c)" and y: "unat y = unat x div 2 ^ c" "0 < unat y" "unat y < 2 ^ (2 * 1)"
    by (cases ?xc) (auto simp: high_part_def)
  have h: "highest_one x = (if unat y < 2 then c else c + 1)"
    using and_upper_half [OF y(3) m(6)] by (simp add: highest_one_def Let_def xc)
  have "unat x = 2 ^ c * unat y + unat x mod 2 ^ c" "unat x mod 2 ^ c < 2 ^ c" using y(1) by simp_all
  moreover have "unat y = 1 \<or> unat y = 2 \<or> unat y = 3" using y(2,3) by auto
  ultimately have "2 ^ c \<le> unat x \<and> unat x < 2 * 2 ^ c \<and> unat y = 1 \<or>
      2 * 2 ^ c \<le> unat x \<and> unat x < 4 * 2 ^ c \<and> 2 \<le> unat y" 
    using third_cases [of "unat x" "2 ^ c" "unat y" "unat x mod 2 ^ c"] by blast
  then show "2 ^ highest_one x \<le> unat x" "unat x < 2 ^ Suc (highest_one x)"
    unfolding h by auto
qed

text \<open>\<open>round_down_to_power_of_2\<close> is the largest power of two that is not above a positive number.\<close>

lemma unat_round_down: "unat (round_down_to_power_of_2 x) = pow2_le (unat x)"
proof -
  let ?h = "highest_one (x OR 1)"
  have "x OR 1 \<noteq> 0" by (metis or_eq_0_iff zero_neq_one)
  note b = highest_one_bounds [OF this]
  have o: "unat (x OR 1) = unat x OR 1" by (simp add: unsigned_or_eq)
  have "unat (x OR 1) < 2 ^ LENGTH(64)" by (rule unsigned_less)
  then have h: "?h < 64" using b(1) pow2_less_imp [of ?h 64] by simp
  have "unat (round_down_to_power_of_2 x) = 2 ^ ?h"
    using h by (simp add: round_down_to_power_of_2_def unat_two_power del: push_bit_of_1)
  also have "\<dots> = pow2_le (unat x)"
  proof (cases "unat x < 2")
    case True
    then have "unat x OR 1 = 1" by (cases "unat x = 0") (auto simp: less_2_cases_iff)
    then have "(2::nat) ^ ?h < 2 ^ 1" using b(1) o by simp
    then have "?h = 0" using pow2_less_imp [of ?h 1] by simp
    then show ?thesis using True by (simp add: pow2_le.simps)
  next
    case False
    have "unat x OR 1 = unat x + of_bool (even (unat x))" by (rule or_one_eq)
    then have "unat x OR 1 = 2 * (unat x div 2) + 1" by (cases "even (unat x)") simp_all
    then have "2 ^ ?h \<le> 2 * (unat x div 2) + 1" "2 * (unat x div 2) + 1 < 2 * 2 ^ ?h" using b o by simp_all
    moreover have "?h \<noteq> 0" using calculation(2) False by (cases ?h) auto
    then obtain p where "(2::nat) ^ ?h = 2 * p" by (metis not0_implies_Suc power_Suc)
    ultimately have "p \<le> unat x div 2" "unat x < 2 ^ Suc ?h" by simp_all
    then have "2 ^ ?h \<le> unat x" "unat x < 2 ^ Suc ?h" using \<open>2 ^ ?h = 2 * p\<close> by simp_all
    then show ?thesis by (rule pow2_le_unique [symmetric])
  qed
  finally show ?thesis .
qed

lemma left_len_eq: "n \<le> 2 ^ 64 \<Longrightarrow> left_len n = pow2_le ((n - 1) div 1024) * 1024"
  by (simp add: left_len_def Let_def unat_round_down unat_of_nat take_bit_nat_eq_self_iff)

lemma pow2_le_mod: "pow2_le (n mod 2 ^ 64) \<le> max 1 n"
proof (cases "n mod 2 ^ 64 = 0")
  case True
  then show ?thesis by (simp add: pow2_le.simps)
next
  case False
  then show ?thesis using pow2_le_bounds [of "n mod 2 ^ 64"] mod_less_eq_dividend [of n "2 ^ 64"] by auto
qed

lemma left_len_less: "1024 < n \<Longrightarrow> left_len n < n"
proof -
  assume n: "1024 < n"
  have "left_len n = pow2_le ((n - 1) div 1024 mod 2 ^ 64) * 1024"
    by (simp add: left_len_def Let_def unat_round_down unat_of_nat take_bit_eq_mod)
  also have "\<dots> \<le> (n - 1) div 1024 * 1024"
    using pow2_le_mod [of "(n - 1) div 1024"] n by (intro mult_le_mono1) (auto simp: max_def split: if_splits)
  also have "\<dots> < n" using n div_times_less_eq_dividend [of "n - 1" 1024] by linarith
  finally show ?thesis .
qed

lemma left_len_pos: "0 < left_len n"
  by (simp add: left_len_def Let_def unat_round_down)

section \<open>Subtrees\<close>

text \<open>
  \<open>blake3_compress_subtree_wide\<close>: the chaining values of the left part go to the front of the array, those
  of the right part behind the place for \<open>degree\<close> values.
\<close>

function blake3_compress_subtree_wide ::
  "build \<Rightarrow> byte list \<Rightarrow> u32 list \<Rightarrow> u64 \<Rightarrow> byte \<Rightarrow> byte list list option" where
  "blake3_compress_subtree_wide b input key chunk_counter flags =
     (if length input \<le> blake3_simd_degree b * 1024 then
        compress_chunks_parallel b input key chunk_counter flags
      else
        let left_input_len = left_len (length input);
            right_chunk_counter = chunk_counter + of_nat (left_input_len div 1024);
            degree = blake3_simd_degree b;
            degree = (if left_input_len > 1024 \<and> degree = 1 then 2 else degree)
        in case blake3_compress_subtree_wide b (take left_input_len input) key chunk_counter flags of
             None \<Rightarrow> None
           | Some left \<Rightarrow>
               case blake3_compress_subtree_wide b (drop left_input_len input) key right_chunk_counter flags of
                 None \<Rightarrow> None
               | Some right \<Rightarrow>
                   let cv_array = array_write (array_write
                         (replicate (2 * MAX_SIMD_DEGREE_OR_2 b) (replicate 32 0)) 0 left) degree right
                   in if length left = 1 then Some (take 2 cv_array)
                      else compress_parents_parallel b (take (length left + length right) cv_array) key flags)"
  by pat_completeness auto
termination
proof (relation "measure (\<lambda>(b, input, key, c, fl). length input)", goal_cases)
  case (2 b input)
  then have "1024 < length input" using simd_degree_pos [of b] by (cases "blake3_simd_degree b") auto
  with 2 show ?case by (simp add: left_len_less)
next
  case (3 b input)
  then have "0 < length input" by (auto simp del: length_greater_0_conv)
  with 3 show ?case using left_len_pos [of "length input"] by simp
qed simp

declare blake3_compress_subtree_wide.simps [simp del]

lemma length_parents_array [simp]: "length (parents_array cvs) = length cvs div 2"
  by (induction cvs rule: parents_array.induct) auto

lemma length_compress_parents:
  "compress_parents_parallel b cvs key flags = Some out \<Longrightarrow> length out = (length cvs + 1) div 2"
  by (auto simp: compress_parents_parallel_def Let_def split: if_splits)

text \<open>The loop of \<open>compress_subtree_to_parent_node\<close>, which writes the parents over their children.\<close>

function parents_loop :: "build \<Rightarrow> byte list list \<Rightarrow> u32 list \<Rightarrow> byte \<Rightarrow> byte list list option" where
  "parents_loop b cv_array key flags =
     (if length cv_array > 2 then
        case compress_parents_parallel b cv_array key flags of
          None \<Rightarrow> None
        | Some cv_array \<Rightarrow> parents_loop b cv_array key flags
      else Some cv_array)"
  by pat_completeness auto
termination
  by (relation "measure (\<lambda>(b, cvs, key, fl). length cvs)") (auto dest!: length_compress_parents)

declare parents_loop.simps [simp del]

definition compress_subtree_to_parent_node ::
  "build \<Rightarrow> byte list \<Rightarrow> u32 list \<Rightarrow> u64 \<Rightarrow> byte \<Rightarrow> byte list list option" where
  "compress_subtree_to_parent_node b input key chunk_counter flags =
     (case blake3_compress_subtree_wide b input key chunk_counter flags of
        None \<Rightarrow> None
      | Some cv_array \<Rightarrow>
          if \<not> (2 \<le> length cv_array \<and> length cv_array \<le> MAX_SIMD_DEGREE_OR_2 b) then None
          else map_option (take 2) (parents_loop b cv_array key flags))"

section \<open>Reference definitions\<close>

text \<open>
  A chunk: all blocks but the last are compressed one behind the other, the last one, padded with zeros,
  is the block of the node. The first block carries \<open>CHUNK_START\<close>, the last one \<open>CHUNK_END\<close>.
\<close>

definition start_flag :: "nat \<Rightarrow> byte" where
  "start_flag n = (if n = 0 then CHUNK_START else 0)"

primrec ref_blocks :: "u32 list \<Rightarrow> byte \<Rightarrow> u64 \<Rightarrow> byte list \<Rightarrow> nat \<Rightarrow> u32 list" where
  "ref_blocks key fl ctr c 0 = key"
| "ref_blocks key fl ctr c (Suc n) =
     blake3_compress_in_place_portable (ref_blocks key fl ctr c n) (take 64 (drop (64 * n) c)) 64 ctr
       (fl OR start_flag n)"

definition pad_block :: "byte list \<Rightarrow> byte list" where
  "pad_block s = s @ replicate (64 - length s) 0"

definition last_block :: "byte list \<Rightarrow> nat" where
  "last_block c = (length c - 1) div 64"

definition ref_chunk :: "u32 list \<Rightarrow> byte \<Rightarrow> u64 \<Rightarrow> byte list \<Rightarrow> node_output" where
  "ref_chunk key fl ctr c =
     make_output (ref_blocks key fl ctr c (last_block c)) (pad_block (drop (64 * last_block c) c))
       (of_nat (length c - 64 * last_block c)) ctr (fl OR start_flag (last_block c) OR CHUNK_END)"

definition ref_cv :: "node_output \<Rightarrow> byte list" where
  "ref_cv nd = store_cv_words (blake3_compress_in_place_portable (out_input_cv nd) (out_block nd)
     (out_block_len nd) (out_counter nd) (out_flags nd))"

definition ref_parent :: "u32 list \<Rightarrow> byte \<Rightarrow> byte list \<Rightarrow> byte list \<Rightarrow> node_output" where
  "ref_parent key fl l r = make_output key (l @ r) 64 0 (fl OR PARENT)"

lemma split_less: "1024 < n \<Longrightarrow> pow2_le ((n - 1) div 1024) * 1024 < n"
proof -
  assume n: "1024 < n"
  then have "0 < (n - 1) div 1024" by (simp add: div_greater_zero_iff)
  then have "pow2_le ((n - 1) div 1024) * 1024 \<le> (n - 1) div 1024 * 1024"
    using pow2_le_bounds by (intro mult_le_mono1) blast
  also have "\<dots> < n" using n div_times_less_eq_dividend [of "n - 1" 1024] by linarith
  finally show ?thesis .
qed

text \<open>
  The tree: an input of more than one chunk is split behind the largest power of two of chunks that
  leaves something for the right side.
\<close>

function ref_node :: "u32 list \<Rightarrow> byte \<Rightarrow> u64 \<Rightarrow> byte list \<Rightarrow> node_output" where
  "ref_node key fl ctr m =
     (if length m \<le> 1024 then ref_chunk key fl ctr m
      else
        let k = pow2_le ((length m - 1) div 1024)
        in ref_parent key fl (ref_cv (ref_node key fl ctr (take (k * 1024) m)))
             (ref_cv (ref_node key fl (ctr + of_nat k) (drop (k * 1024) m))))"
  by pat_completeness auto
termination
proof (relation "measure (\<lambda>(key, fl, ctr, m). length m)", goal_cases)
  case (2 key fl ctr m k)
  then have "k * 1024 < length m" using split_less [of "length m"] by simp
  with 2 show ?case by auto
next
  case (3 key fl ctr m k)
  then have "0 < k" "0 < length m" by (auto simp del: length_greater_0_conv)
  then show ?case by (simp add: diff_less)
qed simp

declare ref_node.simps [simp del]

text \<open>The bytes of the root: the extended output from the byte \<open>seek\<close> on.\<close>

definition ref_root_bytes :: "node_output \<Rightarrow> nat \<Rightarrow> nat \<Rightarrow> byte list" where
  "ref_root_bytes nd seek n =
     map (\<lambda>i. blake3_compress_xof_portable (out_input_cv nd) (out_block nd) (out_block_len nd)
         (of_nat (i div 64)) (out_flags nd OR ROOT) ! (i mod 64)) [seek..<seek + n]"

end
