(* ===== verification/Blake3_Subtree.thy ===== *)
theory Blake3_Subtree
  imports Blake3_Tree
begin

text \<open>
  Chunks and subtrees compute the reference tree: absorbing a chunk in pieces, hashing whole chunks and
  parents with \<open>blake3_hash_many\<close>, and the recursive evaluation of subtrees, for every degree of
  parallelism the build and the processor give.
\<close>

section \<open>States, leaves and levels\<close>

text \<open>The state of a chunk that has taken \<open>c\<close>, and the state whose buffer has just been compressed.\<close>

definition chunk_state_of :: "u32 list \<Rightarrow> byte \<Rightarrow> u64 \<Rightarrow> byte list \<Rightarrow> chunk_state" where
  "chunk_state_of key fl ctr c =
     \<lparr>cs_cv = ref_blocks key fl ctr c (last_block c), cs_chunk_counter = ctr,
      cs_buf = pad_block (drop (64 * last_block c) c),
      cs_buf_len = of_nat (length c - 64 * last_block c),
      cs_blocks_compressed = of_nat (last_block c), cs_flags = fl\<rparr>"

definition flushed :: "u32 list \<Rightarrow> byte \<Rightarrow> u64 \<Rightarrow> byte list \<Rightarrow> nat \<Rightarrow> chunk_state" where
  "flushed key fl ctr c n =
     \<lparr>cs_cv = ref_blocks key fl ctr c n, cs_chunk_counter = ctr, cs_buf = replicate 64 0, cs_buf_len = 0,
      cs_blocks_compressed = of_nat n, cs_flags = fl\<rparr>"

text \<open>The chaining values of the chunks, and the function that combines two nodes.\<close>

function leaf_cvs :: "u32 list \<Rightarrow> byte \<Rightarrow> u64 \<Rightarrow> byte list \<Rightarrow> byte list list" where
  "leaf_cvs key fl ctr m =
     (if length m \<le> 1024 then [ref_cv (ref_chunk key fl ctr m)]
      else ref_cv (ref_chunk key fl ctr (take 1024 m)) # leaf_cvs key fl (ctr + 1) (drop 1024 m))"
  by pat_completeness auto
termination
  by (relation "measure (\<lambda>(key, fl, ctr, m). length m)") auto

declare leaf_cvs.simps [simp del]

definition parent_cv :: "u32 list \<Rightarrow> byte \<Rightarrow> byte list \<Rightarrow> byte list \<Rightarrow> byte list" where
  "parent_cv key fl l r = ref_cv (ref_parent key fl l r)"

definition all_cvs :: "byte list list \<Rightarrow> bool" where
  "all_cvs cvs \<longleftrightarrow> (\<forall>cv \<in> set cvs. length cv = 32)"

text \<open>A level of a complete tree, some steps above its leaves.\<close>

abbreviation level :: "u32 list \<Rightarrow> byte \<Rightarrow> nat \<Rightarrow> byte list list \<Rightarrow> byte list list" where
  "level key fl t \<equiv> merge_pairs (parent_cv key fl) ^^ t"

text \<open>The level at which the evaluation stops: as many values as the degree, and at least two.\<close>

definition stop_level :: "build \<Rightarrow> nat" where
  "stop_level b = (if blake3_simd_degree b = 1 then 1 else if blake3_simd_degree b = 4 then 2
     else if blake3_simd_degree b = 8 then 3 else 4)"

lemma stop_level_bounds:
  "blake3_simd_degree b = 1 \<and> stop_level b = 1 \<or> 1 < blake3_simd_degree b \<and> blake3_simd_degree b = 2 ^ stop_level b"
  "blake3_simd_degree b \<le> MAX_SIMD_DEGREE b" "2 ^ stop_level b \<le> MAX_SIMD_DEGREE_OR_2 b"
  by (auto simp: stop_level_def blake3_simd_degree_def MAX_SIMD_DEGREE_def MAX_SIMD_DEGREE_OR_2_def split: build.split)

section \<open>Chunks\<close>

context blake3_backend
begin

lemma chunk_state_init_flushed:
  "(chunk_state_init key fl)\<lparr>cs_chunk_counter := ctr\<rparr> = flushed key fl ctr [] 0"
  by (simp add: chunk_state_init_def flushed_def)

lemma flushed_Nil: "flushed key fl ctr [] 0 = chunk_state_of key fl ctr []"
  by (simp add: flushed_def chunk_state_of_def last_block_def pad_block_def)

lemma ref_blocks_append: "64 * n \<le> length c \<Longrightarrow> ref_blocks key fl ctr (c @ d) n = ref_blocks key fl ctr c n"
  by (induction n) simp_all

lemma unat_of_nat_byte: "n < 256 \<Longrightarrow> unat (of_nat n :: byte) = n"
  by (simp add: unat_of_nat take_bit_nat_eq_self_iff)

lemma of_nat_byte_0_iff: "n < 256 \<Longrightarrow> (of_nat n :: byte) = 0 \<longleftrightarrow> n = 0"
  using unat_of_nat_byte [of n] by (cases "n = 0") auto

lemma maybe_start_flag: "n < 256 \<Longrightarrow> cs_blocks_compressed st = of_nat n \<Longrightarrow> chunk_state_maybe_start_flag st = start_flag n"
  by (simp add: chunk_state_maybe_start_flag_def start_flag_def of_nat_byte_0_iff)

lemma chunk_compress_flushed:
  assumes "length c = 64 * n" "n < 16" "length d = 64"
  shows "chunk_compress b (flushed key fl ctr c n) d = flushed key fl ctr (c @ d) (Suc n)"
proof -
  have "chunk_state_maybe_start_flag (flushed key fl ctr c n) = start_flag n"
    using assms(2) by (intro maybe_start_flag) (simp_all add: flushed_def)
  then show ?thesis
    using assms by (simp add: chunk_compress_def dispatch_compress flushed_def ref_blocks_append add.commute)
qed

lemma last_block_eq: "0 < k \<Longrightarrow> k \<le> 64 \<Longrightarrow> length c = 64 * n + k \<Longrightarrow> last_block c = n"
  by (simp add: last_block_def)

lemma fill_flushed:
  assumes "length c = 64 * n" "d \<noteq> []" "length d \<le> 64"
  shows "fst (chunk_state_fill_buf (flushed key fl ctr c n) d) = chunk_state_of key fl ctr (c @ d)"
proof -
  have "last_block (c @ d) = n" using assms by (intro last_block_eq [where k = "length d"]) auto
  then show ?thesis
    using assms
    by (simp add: chunk_state_fill_buf_def chunk_state_of_def flushed_def ref_blocks_append Let_def buf_write_def
        pad_block_def min_def)
qed

lemma chunk_blocks_flushed:
  assumes "length c = 64 * n" "d \<noteq> []" "length (c @ d) \<le> 1024"
  shows "(let (st, r) = chunk_blocks b (flushed key fl ctr c n) d in fst (chunk_state_fill_buf st r)) =
    chunk_state_of key fl ctr (c @ d)"
  using assms
proof (induction "length d" arbitrary: c d n rule: less_induct)
  case less
  show ?case
  proof (cases "length d > 64")
    case True
    have "chunk_compress b (flushed key fl ctr c n) (take 64 d) = flushed key fl ctr (c @ take 64 d) (Suc n)"
      using less.prems True by (intro chunk_compress_flushed) auto
    moreover have "(let (st, r) = chunk_blocks b (flushed key fl ctr (c @ take 64 d) (Suc n)) (drop 64 d)
        in fst (chunk_state_fill_buf st r)) = chunk_state_of key fl ctr ((c @ take 64 d) @ drop 64 d)"
      using less.prems True by (intro less.hyps) auto
    ultimately show ?thesis using True by (simp add: chunk_blocks.simps [of b _ d])
  next
    case False
    then show ?thesis using less.prems fill_flushed [of c n d] by (simp add: chunk_blocks.simps)
  qed
qed

lemma fill_buf_Nil: "length (cs_buf st) = 64 \<Longrightarrow> chunk_state_fill_buf st [] = (st, 0)"
  by (simp add: chunk_state_fill_buf_def Let_def buf_write_def)

lemma length_buf_chunk_state_of: "length c \<le> 1024 \<Longrightarrow> length (cs_buf (chunk_state_of key fl ctr c)) = 64"
  by (simp add: chunk_state_of_def pad_block_def last_block_def)

lemma chunk_rest:
  assumes "c \<noteq> []"
  shows "64 * last_block c < length c" "length c \<le> 64 * last_block c + 64"
proof -
  have "0 < length c" using assms by simp
  then show "64 * last_block c < length c" "length c \<le> 64 * last_block c + 64"
    unfolding last_block_def by linarith+
qed

lemma fill_chunk_state_of:
  assumes "c \<noteq> []" "length c \<le> 1024" "length c - 64 * last_block c + length d \<le> 64"
  shows "chunk_state_fill_buf (chunk_state_of key fl ctr c) d = (chunk_state_of key fl ctr (c @ d), length d)"
proof -
  define r where "r = length c - 64 * last_block c"
  have r: "0 < r" "length c = 64 * last_block c + r" "r + length d \<le> 64"
    using chunk_rest [OF assms(1)] assms(3) by (auto simp: r_def)
  have l: "last_block (c @ d) = last_block c"
    using r by (intro last_block_eq [where k = "r + length d"]) auto
  have u: "unat (of_nat r :: byte) = r" using r by (intro unat_of_nat_byte) simp
  have b: "buf_write (pad_block (drop (64 * last_block c) c)) r d = pad_block (drop (64 * last_block c) c @ d)"
    using r by (simp add: buf_write_def pad_block_def)
  have "(if length d < 64 - r then length d else 64 - r) = length d" using r by auto
  then show ?thesis
    using r u b
    by (simp add: chunk_state_fill_buf_def chunk_state_of_def l Let_def ref_blocks_append r_def [symmetric])
qed

lemma chunk_full_compress:
  assumes "c \<noteq> []" "length c = 64 * Suc (last_block c)" "last_block c < 16"
  shows "(chunk_compress b (chunk_state_of key fl ctr c) (cs_buf (chunk_state_of key fl ctr c)))
      \<lparr>cs_buf_len := 0, cs_buf := replicate 64 0\<rparr> = flushed key fl ctr c (Suc (last_block c))"
proof -
  have "chunk_state_maybe_start_flag (chunk_state_of key fl ctr c) = start_flag (last_block c)"
    using assms(3) by (intro maybe_start_flag) (simp_all add: chunk_state_of_def)
  moreover have "pad_block (drop (64 * last_block c) c) = take 64 (drop (64 * last_block c) c)"
    using assms(2) by (simp add: pad_block_def)
  ultimately show ?thesis
    by (simp add: chunk_compress_def dispatch_compress flushed_def) (simp add: chunk_state_of_def)
qed

text \<open>A chunk may be given in any pieces.\<close>

lemma chunk_state_update_of:
  assumes "length (c @ d) \<le> 1024"
  shows "chunk_state_update b (chunk_state_of key fl ctr c) d = chunk_state_of key fl ctr (c @ d)"
proof (cases "c = []")
  case True
  have e: "cs_buf_len (flushed key fl ctr [] 0) = 0" "length (cs_buf (flushed key fl ctr [] 0)) = 64"
    by (simp_all add: flushed_def)
  show ?thesis
  proof (cases "d = []")
    case False
    then show ?thesis
      using True assms e chunk_blocks_flushed [of "[]" 0 d key fl ctr]
      by (simp add: chunk_state_update_def flushed_Nil [symmetric])
  qed (use True e in \<open>simp add: chunk_state_update_def chunk_blocks.simps fill_buf_Nil flushed_Nil [symmetric]\<close>)
next
  case False
  let ?r = "length c - 64 * last_block c"
  have r: "0 < ?r" "?r \<le> 64" using chunk_rest [OF False] by auto
  have nb: "last_block c < 16" using assms False unfolding last_block_def by (cases c) auto
  have l: "0 < cs_buf_len (chunk_state_of key fl ctr c)"
    using r of_nat_byte_0_iff [of ?r] by (simp add: chunk_state_of_def word_gt_0)
  show ?thesis
  proof (cases "?r + length d \<le> 64")
    case True
    have "length (cs_buf (chunk_state_of key fl ctr (c @ d))) = 64"
      using assms by (intro length_buf_chunk_state_of)
    then show ?thesis
      using l fill_chunk_state_of [OF False _ True] assms
      by (simp add: chunk_state_update_def chunk_blocks.simps fill_buf_Nil)
  next
    case ge: False
    let ?n = "64 - ?r" and ?st = "chunk_state_of key fl ctr c"
    have n: "chunk_state_fill_buf ?st d = chunk_state_fill_buf ?st (take ?n d)"
    proof -
      have "unat (cs_buf_len ?st) = unat (of_nat ?r :: byte)"
        unfolding chunk_state_of_def by (simp only: chunk_state.select_convs)
      then have "unat (cs_buf_len ?st) = ?r" using r by (simp only: unat_of_nat_byte)
      then show ?thesis using ge by (auto simp: chunk_state_fill_buf_def Let_def)
    qed
    also have "\<dots> = (chunk_state_of key fl ctr (c @ take ?n d), ?n)"
      using assms r ge fill_chunk_state_of [of c "take ?n d"] False by simp
    finally have f: "chunk_state_fill_buf ?st d = (chunk_state_of key fl ctr (c @ take ?n d), ?n)" .
    have lb: "last_block (c @ take ?n d) = last_block c"
      using r ge chunk_rest [OF False] by (intro last_block_eq [where k = 64]) auto
    have full: "length (c @ take ?n d) = 64 * Suc (last_block c)"
      using r ge chunk_rest [OF False] by auto
    have d: "drop ?n d \<noteq> []" using ge r(2) by auto
    have "chunk_state_update b ?st d =
        (let (st, r) = chunk_blocks b (flushed key fl ctr (c @ take ?n d) (Suc (last_block c))) (drop ?n d)
         in fst (chunk_state_fill_buf st r))"
      using l f d lb full nb False chunk_full_compress [of "c @ take ?n d" key fl ctr]
      by (simp add: chunk_state_update_def)
    also have "\<dots> = chunk_state_of key fl ctr ((c @ take ?n d) @ drop ?n d)"
      using full d assms by (intro chunk_blocks_flushed) auto
    finally show ?thesis by simp
  qed
qed

lemma chunk_state_output_of:
  assumes "length c \<le> 1024"
  shows "chunk_state_output (chunk_state_of key fl ctr c) = ref_chunk key fl ctr c"
proof -
  have "last_block c < 256" using assms by (simp add: last_block_def)
  then have "chunk_state_maybe_start_flag (chunk_state_of key fl ctr c) = start_flag (last_block c)"
    by (intro maybe_start_flag) (simp_all add: chunk_state_of_def)
  then show ?thesis
    unfolding chunk_state_output_def ref_chunk_def by (simp add: chunk_state_of_def)
qed

section \<open>Leaves of the tree\<close>

lemma length_ref_cv [simp]: "length (ref_cv nd) = 32"
  by (simp add: ref_cv_def)

lemma all_cvs_simps [simp]:
  "all_cvs []" "all_cvs (cv # cvs) \<longleftrightarrow> length cv = 32 \<and> all_cvs cvs" "all_cvs (xs @ ys) \<longleftrightarrow> all_cvs xs \<and> all_cvs ys"
  by (auto simp: all_cvs_def)

lemma all_cvs_leaf [simp]: "all_cvs (leaf_cvs key fl ctr m)"
proof (induction key fl ctr m rule: leaf_cvs.induct)
  case (1 key fl ctr m)
  then show ?case by (subst leaf_cvs.simps) simp
qed

lemma all_cvs_pairs: "all_cvs cvs \<Longrightarrow> all_cvs (merge_pairs (parent_cv key fl) cvs)"
  by (induction "parent_cv key fl" cvs rule: merge_pairs.induct) (auto simp: parent_cv_def)

lemma leaf_cvs_append:
  assumes "length a = 1024 * j" "0 < j" "d \<noteq> []"
  shows "leaf_cvs key fl ctr (a @ d) = leaf_cvs key fl ctr a @ leaf_cvs key fl (ctr + of_nat j) d"
  using assms
proof (induction j arbitrary: a ctr)
  case (Suc j)
  have l: "1024 < length (a @ d)" using Suc.prems by (cases d) auto
  show ?case
  proof (cases "j = 0")
    case True
    then show ?thesis using Suc.prems l by (simp add: leaf_cvs.simps [of _ _ _ "a @ d"] leaf_cvs.simps [of _ _ _ a])
  next
    case False
    have "leaf_cvs key fl (ctr + 1) (drop 1024 a @ d) =
        leaf_cvs key fl (ctr + 1) (drop 1024 a) @ leaf_cvs key fl (ctr + 1 + of_nat j) d"
      using Suc.prems False by (intro Suc.IH) auto
    then show ?thesis
      using Suc.prems l False
      by (simp add: leaf_cvs.simps [of _ _ _ "a @ d"] leaf_cvs.simps [of _ _ _ a] add.assoc)
  qed
qed simp

lemma length_leaf_cvs: "length (leaf_cvs key fl ctr m) = (length m - 1) div 1024 + 1"
proof (induction key fl ctr m rule: leaf_cvs.induct)
  case (1 key fl ctr m)
  show ?case
  proof (cases "length m \<le> 1024")
    case True
    then show ?thesis by (simp add: leaf_cvs.simps [of _ _ _ m])
  next
    case False
    then have "(length m - 1) div 1024 = (length (drop 1024 m) - 1) div 1024 + 1"
      by (simp add: div_add_self1 [of "1024::nat", symmetric] del: div_add_self1)
    with False 1 show ?thesis by (simp add: leaf_cvs.simps [of _ _ _ m])
  qed
qed

lemma length_leaf_cvs_full: "length m = 1024 * j \<Longrightarrow> 0 < j \<Longrightarrow> length (leaf_cvs key fl ctr m) = j"
  by (cases j) (simp_all add: length_leaf_cvs)

text \<open>The tree of the specification is the tree over the leaves.\<close>

lemma ref_cv_node: "ref_cv (ref_node key fl ctr m) = tree_merge (parent_cv key fl) (leaf_cvs key fl ctr m)"
proof (induction key fl ctr m rule: ref_node.induct)
  case (1 key fl ctr m)
  show ?case
  proof (cases "length m \<le> 1024")
    case True
    then show ?thesis by (simp add: ref_node.simps leaf_cvs.simps)
  next
    case False
    define k where "k = pow2_le ((length m - 1) div 1024)"
    have k: "k * 1024 < length m" "0 < k" using split_less [of "length m"] False by (simp_all add: k_def)
    have s: "leaf_cvs key fl ctr m =
        leaf_cvs key fl ctr (take (k * 1024) m) @ leaf_cvs key fl (ctr + of_nat k) (drop (k * 1024) m)"
      using leaf_cvs_append [of "take (k * 1024) m" k "drop (k * 1024) m" key fl ctr] k by simp
    have l: "length (leaf_cvs key fl ctr (take (k * 1024) m)) = k"
      using k by (intro length_leaf_cvs_full) auto
    have "tree_merge (parent_cv key fl) (leaf_cvs key fl ctr m) =
        parent_cv key fl (tree_merge (parent_cv key fl) (leaf_cvs key fl ctr (take (k * 1024) m)))
          (tree_merge (parent_cv key fl) (leaf_cvs key fl (ctr + of_nat k) (drop (k * 1024) m)))"
    proof -
      have "pow2_le (length (leaf_cvs key fl ctr m) - 1) = k" by (simp add: length_leaf_cvs k_def)
      moreover have "1 < length (leaf_cvs key fl ctr m)"
        using False by (simp add: length_leaf_cvs div_greater_zero_iff)
      ultimately show ?thesis
        using l s tree_merge.simps [of "parent_cv key fl" "leaf_cvs key fl ctr m"] by (simp add: Let_def)
    qed
    moreover have "ref_cv (ref_node key fl ctr m) = parent_cv key fl (ref_cv (ref_node key fl ctr (take (k * 1024) m)))
        (ref_cv (ref_node key fl (ctr + of_nat k) (drop (k * 1024) m)))"
      using False by (simp add: ref_node.simps [of _ _ _ m] parent_cv_def Let_def k_def)
    ultimately show ?thesis using "1.IH" [OF False k_def] by simp
  qed
qed

section \<open>Levels\<close>

lemma length_level: "length cs = 2 ^ j \<Longrightarrow> t \<le> j \<Longrightarrow> length (level key fl t cs) = 2 ^ (j - t)"
proof (induction t)
  case (Suc t)
  then have "length (level key fl t cs) = 2 * 2 ^ (j - Suc t)"
    by (simp add: Suc_diff_Suc flip: power_Suc)
  then show ?case by simp
qed simp

lemma level_append:
  "length xs = 2 ^ j \<Longrightarrow> t \<le> j \<Longrightarrow> level key fl t (xs @ ys) = level key fl t xs @ level key fl t ys"
proof (induction t)
  case (Suc t)
  have "length (level key fl t xs) = 2 ^ (j - t)" using Suc.prems by (intro length_level) auto
  then have "even (length (level key fl t xs))" using Suc.prems by simp
  then show ?case using Suc by (simp add: merge_pairs_append)
qed simp

lemma all_cvs_level [simp]: "all_cvs cs \<Longrightarrow> all_cvs (level key fl t cs)"
  by (induction t) (simp_all add: all_cvs_pairs)

lemma tree_merge_level: "tree_merge (parent_cv key fl) (level key fl t cs) = tree_merge (parent_cv key fl) cs"
  by (induction t) (simp_all add: tree_merge_pairs)

lemma level_top: "length cs = 2 ^ j \<Longrightarrow> level key fl j cs = [tree_merge (parent_cv key fl) cs]"
proof -
  assume l: "length cs = 2 ^ j"
  then have "length (level key fl j cs) = 1" by (simp add: length_level)
  then obtain c where "level key fl j cs = [c]" by (cases "level key fl j cs") auto
  then show ?thesis using tree_merge_level [of key fl j cs] by simp
qed

lemma hash_one_parent:
  assumes "length l = 32" "length r = 32"
  shows "hash_one_portable (l @ r) 1 key 0 (fl OR PARENT) 0 0 = parent_cv key fl l r"
  using assms
  by (simp add: hash_one_portable_def parent_cv_def ref_cv_def ref_parent_def make_output_def)

lemma hash_many_parents:
  assumes "all_cvs cvs" "length cvs = 2 * n"
  shows "blake3_hash_many_portable (parents_array cvs) 1 key 0 False (fl OR PARENT) 0 0 =
    merge_pairs (parent_cv key fl) cvs"
  using assms
proof (induction cvs arbitrary: n rule: parents_array.induct)
  case (1 l r cvs)
  then show ?case using hash_one_parent [of l r key fl] by (cases n) auto
qed auto

lemma parents_array_blocks: "all_cvs cvs \<Longrightarrow> list_all (\<lambda>i. 64 * 1 \<le> length i) (parents_array cvs)"
  by (induction cvs rule: parents_array.induct) auto

lemma compress_parents_even:
  assumes "all_cvs cvs" "length cvs = 2 * n" "0 < n" "n \<le> MAX_SIMD_DEGREE_OR_2 b" "length key = 8"
  shows "compress_parents_parallel b cvs key fl = Some (merge_pairs (parent_cv key fl) cvs)"
  using assms parents_array_blocks [OF assms(1)] hash_many_parents [OF assms(1,2)]
  by (simp add: compress_parents_parallel_def Let_def dispatch_hash_many)

lemma parents_loop_levels:
  assumes "all_cvs cvs" "length cvs = 2 ^ Suc i" "2 ^ Suc i \<le> 2 * MAX_SIMD_DEGREE_OR_2 b" "length key = 8"
  shows "parents_loop b cvs key fl = Some (level key fl i cvs)"
  using assms
proof (induction i arbitrary: cvs)
  case 0
  then show ?case by (simp add: parents_loop.simps)
next
  case (Suc i)
  have n: "length cvs = 2 * 2 ^ Suc i" "2 < length cvs" using Suc.prems(2) by (simp_all add: less_le)
  have "compress_parents_parallel b cvs key fl = Some (merge_pairs (parent_cv key fl) cvs)"
    using Suc.prems n(1) by (intro compress_parents_even [where n = "2 ^ Suc i"]) auto
  moreover have "parents_loop b (merge_pairs (parent_cv key fl) cvs) key fl =
      Some (level key fl i (merge_pairs (parent_cv key fl) cvs))"
    using Suc.prems n(1) by (intro Suc.IH) (auto simp: all_cvs_pairs)
  ultimately show ?case using n(2) by (subst parents_loop.simps) (simp add: funpow_swap1)
qed

section \<open>Whole chunks\<close>

lemma hash_one_blocks:
  "hash_one_loop blake3_compress_in_place_portable (drop (64 * n) c) (Suc k) ctr fl fe (fl OR start_flag n)
     (ref_blocks key fl ctr c n) =
   blake3_compress_in_place_portable (ref_blocks key fl ctr c (n + k)) (take 64 (drop (64 * (n + k)) c)) 64 ctr
     (fl OR start_flag (n + k) OR fe)"
proof (induction k arbitrary: n)
  case 0
  then show ?case by (simp add: or.assoc)
next
  case (Suc k)
  have s: "fl OR start_flag (Suc n) = fl" by (simp add: start_flag_def)
  have "hash_one_loop blake3_compress_in_place_portable (drop (64 * n) c) (Suc (Suc k)) ctr fl fe (fl OR start_flag n)
      (ref_blocks key fl ctr c n) =
    hash_one_loop blake3_compress_in_place_portable (drop (64 * Suc n) c) (Suc k) ctr fl fe (fl OR start_flag (Suc n))
      (ref_blocks key fl ctr c (Suc n))"
    unfolding s by (simp add: Let_def add.commute)
  then show ?case using Suc [of "Suc n"] by simp
qed

lemma hash_one_chunk:
  assumes "length c = 1024"
  shows "hash_one_portable c 16 key ctr fl CHUNK_START CHUNK_END = ref_cv (ref_chunk key fl ctr c)"
proof -
  have l: "last_block c = 15" using assms by (simp add: last_block_def)
  have "16 = Suc 15" by simp
  then have "hash_one_loop blake3_compress_in_place_portable c 16 ctr fl CHUNK_END (fl OR CHUNK_START) key =
      blake3_compress_in_place_portable (ref_blocks key fl ctr c 15) (take 64 (drop (64 * 15) c)) 64 ctr
        (fl OR start_flag 15 OR CHUNK_END)"
    using hash_one_blocks [of 0 c 15 ctr fl CHUNK_END key] by (simp add: start_flag_def)
  then show ?thesis
    using assms by (simp add: hash_one_portable_def ref_cv_def ref_chunk_def make_output_def l pad_block_def)
qed

lemma full_chunks_simps:
  "length m < 1024 \<Longrightarrow> full_chunks m = ([], m)"
  "1024 \<le> length m \<Longrightarrow> full_chunks m = (take 1024 m # fst (full_chunks (drop 1024 m)), snd (full_chunks (drop 1024 m)))"
  by (subst full_chunks.simps, simp add: apfst_def map_prod_def split_beta)+

lemma full_chunks_exact:
  assumes "length m = 1024 * j"
  shows "snd (full_chunks m) = [] \<and> list_all (\<lambda>c. length c = 1024) (fst (full_chunks m)) \<and>
    (0 < j \<longrightarrow> blake3_hash_many_portable (fst (full_chunks m)) 16 key ctr True fl CHUNK_START CHUNK_END =
       leaf_cvs key fl ctr m)"
  using assms
proof (induction j arbitrary: m ctr)
  case 0
  then show ?case by (simp add: full_chunks_simps)
next
  case (Suc j)
  let ?r = "drop 1024 m"
  have l: "1024 \<le> length m" "length ?r = 1024 * j" using Suc.prems by simp_all
  note f = full_chunks_simps(2) [OF l(1)]
  have h: "hash_one_portable (take 1024 m) 16 key ctr fl CHUNK_START CHUNK_END =
      ref_cv (ref_chunk key fl ctr (take 1024 m))"
    using l by (intro hash_one_chunk) simp
  note IH = Suc.IH [OF l(2), of "ctr + 1"]
  show ?case
  proof (cases "j = 0")
    case True
    then have "length m = 1024" using Suc.prems by simp
    then show ?thesis using h by (simp add: f full_chunks_simps(1) leaf_cvs.simps)
  next
    case False
    then have "1024 < length m" using Suc.prems by simp
    then show ?thesis using IH h False l by (simp add: f leaf_cvs.simps [of _ _ _ m])
  qed
qed

text \<open>\<open>compress_chunks_parallel\<close> on whole chunks.\<close>

lemma compress_chunks_full:
  assumes "length m = 1024 * j" "0 < j" "j \<le> MAX_SIMD_DEGREE b" "length key = 8"
  shows "compress_chunks_parallel b m key ctr fl = Some (leaf_cvs key fl ctr m)"
proof -
  note f = full_chunks_exact [OF assms(1), of key ctr fl]
  have "list_all (\<lambda>i. 64 * 16 \<le> length i) (fst (full_chunks m))" using f by (auto simp: list_all_iff)
  then show ?thesis
    using f assms by (auto simp: compress_chunks_parallel_def Let_def split_beta dispatch_hash_many)
qed

section \<open>Complete subtrees\<close>

lemma array_write_two:
  assumes "length l + length r \<le> n"
  shows "take (length l + length r) (array_write (array_write (replicate n z) 0 l) (length l) r) = l @ r"
  using assms by (simp add: array_write_def)

lemma left_len_pow2:
  assumes "length m = 1024 * 2 ^ Suc j" "length m \<le> 2 ^ 64"
  shows "left_len (length m) = 2 ^ j * 1024"
proof -
  have "pow2_le ((length m - 1) div 1024) = 2 ^ j"
  proof (rule pow2_le_unique)
    have "(length m - 1) div 1024 = 2 * 2 ^ j - 1" using assms(1) by simp
    moreover have "1 \<le> (2::nat) ^ j" by simp
    ultimately show "2 ^ j \<le> (length m - 1) div 1024" "(length m - 1) div 1024 < 2 ^ Suc j"
      unfolding power_Suc by linarith+
  qed
  then show ?thesis using assms by (simp add: left_len_eq)
qed

lemma subtree_wide_complete:
  assumes "length m = 1024 * 2 ^ j" "length m \<le> 2 ^ 64" "length key = 8"
  shows "blake3_compress_subtree_wide b m key ctr fl = Some (level key fl (j - stop_level b) (leaf_cvs key fl ctr m))"
  using assms(1,2)
proof (induction j arbitrary: m ctr)
  case 0
  have "length m \<le> blake3_simd_degree b * 1024" using 0 simd_degree_pos [of b] by simp
  then show ?case
    using 0 assms(3) stop_level_bounds(2) [of b] simd_degree_pos [of b]
    by (subst blake3_compress_subtree_wide.simps) (simp add: compress_chunks_full [where j = 1])
next
  case (Suc j)
  let ?deg = "blake3_simd_degree b" and ?d = "stop_level b"
  show ?case
  proof (cases "2 ^ Suc j \<le> ?deg")
    case True
    also have "?deg < 2 ^ Suc ?d" using stop_level_bounds(1) [of b] by auto
    finally have "Suc j \<le> ?d" using pow2_less_imp [of "Suc j" "Suc ?d"] by simp
    moreover have "compress_chunks_parallel b m key ctr fl = Some (leaf_cvs key fl ctr m)"
      using Suc.prems(1) True stop_level_bounds(2) [of b] assms(3) by (intro compress_chunks_full [where j = "2 ^ Suc j"]) auto
    ultimately show ?thesis
      using True Suc.prems(1) by (subst blake3_compress_subtree_wide.simps) simp
  next
    case False
    let ?l = "2 ^ j * 1024 :: nat"
    let ?L = "leaf_cvs key fl ctr (take ?l m)" and ?R = "leaf_cvs key fl (ctr + 2 ^ j) (drop ?l m)"
    have len: "length (take ?l m) = 1024 * 2 ^ j" "length (drop ?l m) = 1024 * 2 ^ j"
      using Suc.prems(1) by simp_all
    have ll: "left_len (length m) = ?l" using Suc.prems by (rule left_len_pow2)
    have IH: "blake3_compress_subtree_wide b (take ?l m) key ctr fl = Some (level key fl (j - ?d) ?L)"
      "blake3_compress_subtree_wide b (drop ?l m) key (ctr + 2 ^ j) fl = Some (level key fl (j - ?d) ?R)"
      using Suc.IH len Suc.prems(2) by simp_all
    have nl: "length ?L = 2 ^ j" "length ?R = 2 ^ j" using len by (simp_all add: length_leaf_cvs_full)
    have app: "leaf_cvs key fl ctr m = ?L @ ?R"
    proof -
      have "leaf_cvs key fl ctr (take ?l m @ drop ?l m) = ?L @ leaf_cvs key fl (ctr + of_nat (2 ^ j)) (drop ?l m)"
        using len by (intro leaf_cvs_append) auto
      then show ?thesis by simp
    qed
    have not_small: "\<not> length m \<le> ?deg * 1024" using False Suc.prems(1) by simp
    show ?thesis
    proof (cases "?deg = 1 \<and> j = 0")
      case True
      then show ?thesis
        using not_small ll IH stop_level_bounds(1,3) [of b] nl app
        by (subst blake3_compress_subtree_wide.simps) (simp add: Let_def array_write_def)
    next
      case big: False
      have jd: "?d \<le> j"
      proof (cases "?deg = 1")
        case True
        then show ?thesis using big stop_level_bounds(1) [of b] by simp
      next
        case ne: False
        then have "2 ^ ?d < (2::nat) ^ Suc j" using False stop_level_bounds(1) [of b] by linarith
        then show ?thesis using pow2_less_imp [of ?d "Suc j"] by simp
      qed
      let ?A = "level key fl (j - ?d) ?L" and ?B = "level key fl (j - ?d) ?R"
      have n: "length ?A = 2 ^ ?d" "length ?B = 2 ^ ?d"
        using length_level [of ?L j "j - ?d"] length_level [of ?R j "j - ?d"] nl jd by simp_all
      have d0: "0 < ?d" using stop_level_bounds(1) [of b] by (cases ?d) auto
      have deg: "(if ?l > 1024 \<and> ?deg = 1 then 2 else ?deg) = length ?A"
      proof (cases "?deg = 1")
        case True
        then have "0 < j" "?d = 1" using big stop_level_bounds(1) [of b] by auto
        then have "1024 < ?l" using one_less_power [of "2::nat" j] by simp
        then show ?thesis using True \<open>?d = 1\<close> n(1) by simp
      next
        case ne: False
        then show ?thesis using stop_level_bounds(1) [of b] n(1) by simp
      qed
      have ne1: "length ?A \<noteq> 1" using n(1) d0 by simp
      have "blake3_compress_subtree_wide b m key ctr fl = compress_parents_parallel b (?A @ ?B) key fl"
        using not_small ll IH deg ne1 array_write_two [of ?A ?B "2 * MAX_SIMD_DEGREE_OR_2 b"] n stop_level_bounds(3) [of b]
        by (subst blake3_compress_subtree_wide.simps) (simp add: Let_def)
      also have "\<dots> = Some (merge_pairs (parent_cv key fl) (?A @ ?B))"
        using n stop_level_bounds(3) [of b] assms(3) by (intro compress_parents_even [where n = "2 ^ ?d"]) auto
      also have "?A @ ?B = level key fl (j - ?d) (leaf_cvs key fl ctr m)"
        using app level_append [OF nl(1), of "j - ?d" key fl ?R] by simp
      finally show ?thesis using jd by (simp add: Suc_diff_le)
    qed
  qed
qed

text \<open>
  \<open>compress_subtree_to_parent_node\<close> on a complete subtree: the chaining values of its two halves. No
  assertion fails, for every build and every set of processor features.
\<close>

lemma subtree_to_parent_node:
  assumes "length m = 1024 * 2 ^ Suc j" "length m \<le> 2 ^ 64" "length key = 8"
  shows "compress_subtree_to_parent_node b m key ctr fl =
    Some [tree_merge (parent_cv key fl) (leaf_cvs key fl ctr (take (2 ^ j * 1024) m)),
      tree_merge (parent_cv key fl) (leaf_cvs key fl (ctr + 2 ^ j) (drop (2 ^ j * 1024) m))]"
proof -
  let ?d = "stop_level b" and ?cs = "leaf_cvs key fl ctr m"
  let ?L = "leaf_cvs key fl ctr (take (2 ^ j * 1024) m)"
  let ?R = "leaf_cvs key fl (ctr + 2 ^ j) (drop (2 ^ j * 1024) m)"
  let ?W = "level key fl (Suc j - ?d) ?cs"
  have len: "length (take (2 ^ j * 1024) m) = 1024 * 2 ^ j" "length (drop (2 ^ j * 1024) m) = 1024 * 2 ^ j"
    using assms(1) by simp_all
  have nl: "length ?L = 2 ^ j" "length ?R = 2 ^ j" using len by (simp_all add: length_leaf_cvs_full)
  have "leaf_cvs key fl ctr (take (2 ^ j * 1024) m @ drop (2 ^ j * 1024) m) =
      ?L @ leaf_cvs key fl (ctr + of_nat (2 ^ j)) (drop (2 ^ j * 1024) m)"
    using len by (intro leaf_cvs_append) auto
  then have app: "?cs = ?L @ ?R" by simp
  obtain i where i: "min (Suc j) ?d = Suc i" using stop_level_bounds(1) [of b] by (cases ?d) auto
  have nW: "length ?W = 2 ^ Suc i"
    using length_level [of ?cs "Suc j" "Suc j - ?d"] app nl i by (auto simp: min_def split: if_splits)
  have "(2::nat) ^ Suc i \<le> 2 ^ ?d" using i by (intro power_increasing) (auto simp: min_def split: if_splits)
  then have bound: "2 ^ Suc i \<le> MAX_SIMD_DEGREE_OR_2 b" using stop_level_bounds(3) [of b] by linarith
  have "parents_loop b ?W key fl = Some (level key fl i ?W)"
    using nW bound assms(3) by (intro parents_loop_levels) auto
  also have "level key fl i ?W = level key fl (i + (Suc j - ?d)) ?cs" by (simp add: funpow_add)
  also have "i + (Suc j - ?d) = j" using i by (auto simp: min_def split: if_splits)
  also have "level key fl j ?cs = [tree_merge (parent_cv key fl) ?L, tree_merge (parent_cv key fl) ?R]"
    using app level_append [OF nl(1), of j key fl ?R] level_top [OF nl(1)] level_top [OF nl(2)] by simp
  finally show ?thesis
    using subtree_wide_complete [OF assms] nW bound
    by (simp add: compress_subtree_to_parent_node_def)
qed

end

end
