(* ===== verification/Blake3_Hasher.thy ===== *)
theory Blake3_Hasher
  imports Blake3_Subtree
begin

text \<open>
  The incremental hasher of \<open>shared/libblake3/blake3.c\<close>: the stack of chaining values, update with any
  pieces of input, finalisation at any place of the extended output, and the keyed and key derivation
  modes. It computes the reference tree, for every build and every way to cut the input.

  The array \<open>cv_stack\<close> is a list of 55 chaining values. \<open>None\<close> is a failed assertion, an access outside
  this array, or a loop that does not end.
\<close>

section \<open>Definitions\<close>

record hasher =
  h_key :: "u32 list"
  h_chunk :: chunk_state
  h_cv_stack_len :: byte
  h_cv_stack :: "byte list list"

definition hasher_init_base :: "hasher \<Rightarrow> u32 list \<Rightarrow> byte \<Rightarrow> hasher" where
  "hasher_init_base self key flags =
     self\<lparr>h_key := key, h_chunk := chunk_state_init key flags, h_cv_stack_len := 0\<rparr>"

definition blake3_hasher_init :: "hasher \<Rightarrow> hasher" where
  "blake3_hasher_init self = hasher_init_base self IV 0"

definition load_key_words :: "byte list \<Rightarrow> u32 list" where
  "load_key_words key = map (\<lambda>i. load32 (drop (4 * i) key)) [0..<8]"

definition blake3_hasher_init_keyed :: "hasher \<Rightarrow> byte list \<Rightarrow> hasher" where
  "blake3_hasher_init_keyed self key = hasher_init_base self (load_key_words key) KEYED_HASH"

lemma unat_and_pred: "x \<noteq> 0 \<Longrightarrow> unat ((x :: u64) AND (x - 1)) < unat x"
proof -
  assume "x \<noteq> 0"
  have "unat (x AND (x - 1)) \<le> unat (x - 1)"
    by (simp add: word_le_nat_alt [symmetric] word_and_le1)
  also have "\<dots> < unat x" using \<open>x \<noteq> 0\<close> by (simp add: unat_gt_0 unat_minus_one)
  finally show ?thesis .
qed

text \<open>\<open>popcnt\<close> as it is written out for compilers without \<open>__builtin_popcountll\<close>.\<close>

function popcnt_loop :: "u64 \<Rightarrow> nat \<Rightarrow> nat" where
  "popcnt_loop x count = (if x \<noteq> 0 then popcnt_loop (x AND (x - 1)) (count + 1) else count)"
  by pat_completeness auto
termination
  by (relation "measure (\<lambda>(x, c). unat x)") (auto simp: unat_and_pred)

declare popcnt_loop.simps [simp del]

definition popcnt :: "u64 \<Rightarrow> nat" where
  "popcnt x = popcnt_loop x 0"

function hasher_merge_cv_stack :: "build \<Rightarrow> hasher \<Rightarrow> u64 \<Rightarrow> hasher option" where
  "hasher_merge_cv_stack b self total_len =
     (if unat (h_cv_stack_len self) > popcnt total_len then
        let n = unat (h_cv_stack_len self) in
        if n < 2 \<or> n > 55 then None
        else
          let parent_node = h_cv_stack self ! (n - 2) @ h_cv_stack self ! (n - 1);
              cv = output_chaining_value b (parent_output parent_node (h_key self) (cs_flags (h_chunk self)))
          in hasher_merge_cv_stack b
               (self\<lparr>h_cv_stack := (h_cv_stack self)[n - 2 := cv], h_cv_stack_len := h_cv_stack_len self - 1\<rparr>)
               total_len
      else Some self)"
  by pat_completeness auto
termination
proof (relation "measure (\<lambda>(b, self, n). unat (h_cv_stack_len self))", goal_cases)
  case (2 b self total_len n)
  then have "h_cv_stack_len self \<noteq> 0" by auto
  then show ?case by (simp add: unat_minus_one unat_gt_0)
qed simp

declare hasher_merge_cv_stack.simps [simp del]

definition hasher_push_cv :: "build \<Rightarrow> hasher \<Rightarrow> byte list \<Rightarrow> u64 \<Rightarrow> hasher option" where
  "hasher_push_cv b self new_cv chunk_counter =
     Option.bind (hasher_merge_cv_stack b self chunk_counter) (\<lambda>self.
       if unat (h_cv_stack_len self) \<ge> 55 then None
       else Some (self\<lparr>h_cv_stack := (h_cv_stack self)[unat (h_cv_stack_len self) := new_cv],
              h_cv_stack_len := h_cv_stack_len self + 1\<rparr>))"

text \<open>The two loops of \<open>blake3_hasher_update\<close>.\<close>

partial_function (option) shrink_subtree :: "u64 \<Rightarrow> u64 \<Rightarrow> u64 option" where
  "shrink_subtree subtree_len count_so_far =
     (if (subtree_len - 1) AND count_so_far \<noteq> 0 then shrink_subtree (subtree_len div 2) count_so_far
      else Some subtree_len)"

definition push_subtree :: "build \<Rightarrow> hasher \<Rightarrow> byte list \<Rightarrow> u64 \<Rightarrow> hasher option" where
  "push_subtree b self input_bytes subtree_chunks =
     (if length input_bytes \<le> 1024 then
        let chunk_state = (chunk_state_init (h_key self) (cs_flags (h_chunk self)))
              \<lparr>cs_chunk_counter := cs_chunk_counter (h_chunk self)\<rparr>;
            chunk_state = chunk_state_update b chunk_state input_bytes;
            cv = output_chaining_value b (chunk_state_output chunk_state)
        in hasher_push_cv b self cv (cs_chunk_counter chunk_state)
      else
        Option.bind (compress_subtree_to_parent_node b input_bytes (h_key self)
            (cs_chunk_counter (h_chunk self)) (cs_flags (h_chunk self))) (\<lambda>cv_pair.
          Option.bind (hasher_push_cv b self (cv_pair ! 0) (cs_chunk_counter (h_chunk self))) (\<lambda>self.
            hasher_push_cv b self (cv_pair ! 1) (cs_chunk_counter (h_chunk self) + subtree_chunks div 2))))"

partial_function (option) update_loop :: "build \<Rightarrow> hasher \<Rightarrow> byte list \<Rightarrow> (hasher \<times> byte list) option" where
  "update_loop b self input_bytes =
     (if length input_bytes > 1024 then
        Option.bind (shrink_subtree (round_down_to_power_of_2 (of_nat (length input_bytes)))
            (cs_chunk_counter (h_chunk self) * 1024)) (\<lambda>subtree_len.
          let subtree_chunks = subtree_len div 1024 in
          Option.bind (push_subtree b self (take (unat subtree_len) input_bytes) subtree_chunks) (\<lambda>self.
            update_loop b
              (self\<lparr>h_chunk := (h_chunk self)
                 \<lparr>cs_chunk_counter := cs_chunk_counter (h_chunk self) + subtree_chunks\<rparr>\<rparr>)
              (drop (unat subtree_len) input_bytes)))
      else Some (self, input_bytes))"

declare shrink_subtree.simps [code] update_loop.simps [code]

definition update_tail :: "build \<Rightarrow> hasher \<Rightarrow> byte list \<Rightarrow> hasher option" where
  "update_tail b self input_bytes =
     Option.bind (update_loop b self input_bytes) (\<lambda>(self, input_bytes).
       if length input_bytes > 0 then
         let self = self\<lparr>h_chunk := chunk_state_update b (h_chunk self) input_bytes\<rparr>
         in hasher_merge_cv_stack b self (cs_chunk_counter (h_chunk self))
       else Some self)"

definition blake3_hasher_update :: "build \<Rightarrow> hasher \<Rightarrow> byte list \<Rightarrow> hasher option" where
  "blake3_hasher_update b self input_bytes =
     (if length input_bytes = 0 then Some self
      else if chunk_state_len (h_chunk self) > 0 then
        let n = 1024 - chunk_state_len (h_chunk self);
            n = (if n > length input_bytes then length input_bytes else n);
            self = self\<lparr>h_chunk := chunk_state_update b (h_chunk self) (take n input_bytes)\<rparr>;
            input_bytes = drop n input_bytes
        in if length input_bytes > 0 then
             let chunk_cv = output_chaining_value b (chunk_state_output (h_chunk self)) in
             Option.bind (hasher_push_cv b self chunk_cv (cs_chunk_counter (h_chunk self))) (\<lambda>self.
               update_tail b
                 (self\<lparr>h_chunk := chunk_state_reset (h_chunk self) (h_key self)
                    (cs_chunk_counter (h_chunk self) + 1)\<rparr>)
                 input_bytes)
           else Some self
      else update_tail b self input_bytes)"

primrec finalize_loop :: "build \<Rightarrow> hasher \<Rightarrow> nat \<Rightarrow> node_output \<Rightarrow> node_output" where
  "finalize_loop b self 0 outp = outp"
| "finalize_loop b self (Suc cvs_remaining) outp =
     (let parent_block = h_cv_stack self ! cvs_remaining @ output_chaining_value b outp
      in finalize_loop b self cvs_remaining (parent_output parent_block (h_key self) (cs_flags (h_chunk self))))"

definition blake3_hasher_finalize_seek :: "build \<Rightarrow> hasher \<Rightarrow> u64 \<Rightarrow> nat \<Rightarrow> byte list option" where
  "blake3_hasher_finalize_seek b self seek out_len =
     (if out_len = 0 then Some []
      else if h_cv_stack_len self = 0 then
        Some (output_root_bytes b (chunk_state_output (h_chunk self)) seek out_len)
      else if unat (h_cv_stack_len self) > 55 then None
      else if chunk_state_len (h_chunk self) > 0 then
        Some (output_root_bytes b
          (finalize_loop b self (unat (h_cv_stack_len self)) (chunk_state_output (h_chunk self))) seek out_len)
      else if unat (h_cv_stack_len self) < 2 then None
      else
        let cvs_remaining = unat (h_cv_stack_len self) - 2;
            outp = parent_output (h_cv_stack self ! cvs_remaining @ h_cv_stack self ! (cvs_remaining + 1))
              (h_key self) (cs_flags (h_chunk self))
        in Some (output_root_bytes b (finalize_loop b self cvs_remaining outp) seek out_len))"

definition blake3_hasher_finalize :: "build \<Rightarrow> hasher \<Rightarrow> nat \<Rightarrow> byte list option" where
  "blake3_hasher_finalize b self out_len = blake3_hasher_finalize_seek b self 0 out_len"

definition blake3_hasher_reset :: "hasher \<Rightarrow> hasher" where
  "blake3_hasher_reset self =
     self\<lparr>h_chunk := chunk_state_reset (h_chunk self) (h_key self) 0, h_cv_stack_len := 0\<rparr>"

text \<open>The local \<open>context_hasher\<close> is a second hasher, given as an argument with arbitrary contents.\<close>

definition blake3_hasher_init_derive_key_raw :: "build \<Rightarrow> hasher \<Rightarrow> hasher \<Rightarrow> byte list \<Rightarrow> hasher option" where
  "blake3_hasher_init_derive_key_raw b context_hasher self context =
     Option.bind (blake3_hasher_update b (hasher_init_base context_hasher IV DERIVE_KEY_CONTEXT) context)
       (\<lambda>context_hasher.
         Option.bind (blake3_hasher_finalize b context_hasher 32) (\<lambda>context_key.
           Some (hasher_init_base self (load_key_words context_key) DERIVE_KEY_MATERIAL)))"

definition blake3_hasher_init_derive_key :: "build \<Rightarrow> hasher \<Rightarrow> hasher \<Rightarrow> byte list \<Rightarrow> hasher option" where
  "blake3_hasher_init_derive_key b context_hasher self context =
     blake3_hasher_init_derive_key_raw b context_hasher self (cstr context)"

section \<open>What a hasher holds\<close>

abbreviation stack_of :: "hasher \<Rightarrow> byte list list" where
  "stack_of h \<equiv> take (unat (h_cv_stack_len h)) (h_cv_stack h)"

text \<open>A hasher that differs in its stack only.\<close>

definition restacked :: "hasher \<Rightarrow> hasher \<Rightarrow> byte list list \<Rightarrow> bool" where
  "restacked h h' s \<longleftrightarrow> h_key h' = h_key h \<and> h_chunk h' = h_chunk h \<and> length (h_cv_stack h') = 55 \<and>
     unat (h_cv_stack_len h') \<le> 55 \<and> stack_of h' = s"

text \<open>The chaining values of the chunks that are already on the stack.\<close>

definition leaves :: "u32 list \<Rightarrow> byte \<Rightarrow> byte list \<Rightarrow> byte list list" where
  "leaves key fl a = (if a = [] then [] else leaf_cvs key fl 0 a)"

text \<open>
  The stack may hold more subtrees than the chunks have bits in their number: merging is put off until
  more input has come. Merged down, it holds the complete subtrees.
\<close>

definition lazy_stack :: "hasher \<Rightarrow> u32 list \<Rightarrow> byte \<Rightarrow> byte list \<Rightarrow> nat \<Rightarrow> bool" where
  "lazy_stack h key fl a n \<longleftrightarrow> h_key h = key \<and> cs_flags (h_chunk h) = fl \<and> length (h_cv_stack h) = 55 \<and>
     unat (h_cv_stack_len h) \<le> 55 \<and> length a = 1024 * n \<and> length a < 2 ^ 64 \<and>
     merge_down (parent_cv key fl) (bit_count n) (stack_of h) = subtrees (parent_cv key fl) (leaves key fl a)"

text \<open>The two values on top of the stack are the halves of the last subtree.\<close>

definition paired :: "hasher \<Rightarrow> u32 list \<Rightarrow> byte \<Rightarrow> byte list \<Rightarrow> bool" where
  "paired h key fl a \<longleftrightarrow> (\<exists>cs l r i. leaves key fl a = cs @ l @ r \<and> length l = 2 ^ i \<and> length r = 2 ^ i \<and>
     2 ^ Suc i dvd length cs \<and>
     stack_of h = subtrees (parent_cv key fl) cs @ [tree_merge (parent_cv key fl) l, tree_merge (parent_cv key fl) r])"

text \<open>The state between two turns of the loop: whole chunks on the stack, none begun.\<close>

definition between :: "hasher \<Rightarrow> u32 list \<Rightarrow> byte \<Rightarrow> byte list \<Rightarrow> nat \<Rightarrow> bool" where
  "between h key fl a n \<longleftrightarrow> lazy_stack h key fl a n \<and> h_chunk h = chunk_state_of key fl (of_nat n) []"

text \<open>What a hasher that has taken \<open>m\<close> holds.\<close>

definition hasher_inv :: "hasher \<Rightarrow> u32 list \<Rightarrow> byte \<Rightarrow> byte list \<Rightarrow> bool" where
  "hasher_inv h key fl m \<longleftrightarrow> length key = 8 \<and> length m < 2 ^ 64 \<and>
     (\<exists>a t n. m = a @ t \<and> lazy_stack h key fl a n \<and> h_chunk h = chunk_state_of key fl (of_nat n) t \<and>
        length t \<le> 1024 \<and>
        (if t = [] then m = [] \<and> stack_of h = [] \<or> paired h key fl m
         else stack_of h = subtrees (parent_cv key fl) (leaves key fl a)))"

section \<open>The stack\<close>

context blake3_backend
begin

lemma popcnt_eq: "popcnt x = bit_count (unat x)"
proof -
  have "popcnt_loop x c = c + bit_count (unat x)" for c
  proof (induction x c rule: popcnt_loop.induct)
    case (1 x c)
    show ?case
    proof (cases "x = 0")
      case False
      have "unat (x AND (x - 1)) = unat x AND (unat x - 1)"
        using False by (simp add: unsigned_and_eq unat_minus_one)
      then show ?thesis
        using 1 False bit_count_and_pred [of "unat x"] by (simp add: popcnt_loop.simps [of x] unat_gt_0)
    qed (simp add: popcnt_loop.simps)
  qed
  then show ?thesis by (simp add: popcnt_def)
qed

lemma parent_chaining_value:
  "output_chaining_value b (parent_output (l @ r) key fl) = parent_cv key fl l r"
  by (simp add: output_chaining_value_def parent_output_def dispatch_compress parent_cv_def ref_cv_def ref_parent_def)

lemma hasher_merge:
  assumes "length (h_cv_stack h) = 55" "unat (h_cv_stack_len h) \<le> 55"
    and "length (merge_down (parent_cv (h_key h) (cs_flags (h_chunk h))) (popcnt x) (stack_of h)) \<le> popcnt x"
  shows "\<exists>h'. hasher_merge_cv_stack b h x = Some h' \<and>
    restacked h h' (merge_down (parent_cv (h_key h) (cs_flags (h_chunk h))) (popcnt x) (stack_of h))"
  using assms
proof (induction "unat (h_cv_stack_len h)" arbitrary: h rule: less_induct)
  case less
  let ?P = "parent_cv (h_key h) (cs_flags (h_chunk h))" and ?n = "unat (h_cv_stack_len h)"
  have len: "length (stack_of h) = ?n" using less.prems by simp
  show ?case
  proof (cases "popcnt x < ?n")
    case True
    have n2: "2 \<le> ?n"
    proof (rule ccontr)
      assume "\<not> ?thesis"
      then have "merge_down ?P (popcnt x) (stack_of h) = stack_of h" using len by (simp add: merge_down.simps)
      then show False using less.prems(3) len True by simp
    qed
    define cv where "cv = ?P (h_cv_stack h ! (?n - 2)) (h_cv_stack h ! (?n - 1))"
    define h2 where "h2 = h\<lparr>h_cv_stack := (h_cv_stack h)[?n - 2 := cv], h_cv_stack_len := h_cv_stack_len h - 1\<rparr>"
    have l2: "unat (h_cv_stack_len h2) = ?n - 1"
      using n2 unat_minus_one [of "h_cv_stack_len h"] by (cases "h_cv_stack_len h = 0") (simp_all add: h2_def)
    have s2: "stack_of h2 = merge_top ?P (stack_of h)"
    proof -
      have "take (?n - 1) ((h_cv_stack h)[?n - 2 := cv]) = take (?n - 2) (h_cv_stack h) @ [cv]"
      proof -
        have "?n - 1 = Suc (?n - 2)" using n2 by simp
        then show ?thesis using n2 less.prems(1,2) by (simp add: take_Suc_conv_app_nth)
      qed
      then show ?thesis
        using n2 len less.prems(1,2) l2 by (simp add: h2_def merge_top_def cv_def min_def)
    qed
    have m: "merge_down ?P (popcnt x) (stack_of h) = merge_down ?P (popcnt x) (stack_of h2)"
      using True n2 len s2 by (subst merge_down.simps) simp
    have rec: "hasher_merge_cv_stack b h x = hasher_merge_cv_stack b h2 x"
      using True n2 less.prems(2)
      by (subst hasher_merge_cv_stack.simps) (simp add: Let_def h2_def cv_def parent_chaining_value)
    have "\<exists>h'. hasher_merge_cv_stack b h2 x = Some h' \<and>
        restacked h2 h' (merge_down (parent_cv (h_key h2) (cs_flags (h_chunk h2))) (popcnt x) (stack_of h2))"
      using less.prems l2 n2 m by (intro less.hyps) (auto simp: h2_def)
    then show ?thesis using rec m by (auto simp: restacked_def h2_def)
  next
    case False
    then show ?thesis
      using less.prems len by (subst hasher_merge_cv_stack.simps) (simp add: restacked_def merge_down_done)
  qed
qed

lemma hasher_push:
  assumes "length (h_cv_stack h) = 55" "unat (h_cv_stack_len h) \<le> 55"
    and "merge_down (parent_cv (h_key h) (cs_flags (h_chunk h))) (popcnt x) (stack_of h) = s"
    and "length s \<le> popcnt x" "length s < 55"
  shows "\<exists>h'. hasher_push_cv b h cv x = Some h' \<and> restacked h h' (s @ [cv])"
proof -
  obtain h1 where h1: "hasher_merge_cv_stack b h x = Some h1" "restacked h h1 s"
    using hasher_merge [OF assms(1,2), of x] assms(3,4) by auto
  let ?n = "unat (h_cv_stack_len h1)"
  have n: "?n = length s" using h1(2) by (auto simp: restacked_def)
  define h2 where "h2 = h1\<lparr>h_cv_stack := (h_cv_stack h1)[?n := cv], h_cv_stack_len := h_cv_stack_len h1 + 1\<rparr>"
  have l: "unat (h_cv_stack_len h2) = Suc ?n"
    using n assms(5) unat_add_lem [of "h_cv_stack_len h1" 1] by (simp add: h2_def)
  have "take (Suc ?n) ((h_cv_stack h1)[?n := cv]) = stack_of h1 @ [cv]"
    using h1(2) n assms(5) by (simp add: take_Suc_conv_app_nth restacked_def)
  then have "restacked h h2 (s @ [cv])"
    using h1(2) n assms(5) l by (simp add: restacked_def h2_def)
  moreover have "hasher_push_cv b h cv x = Some h2"
    using h1(1) n assms(5) by (simp add: hasher_push_cv_def h2_def)
  ultimately show ?thesis by blast
qed

section \<open>The stack against the tree\<close>

lemma length_leaves: "length a = 1024 * n \<Longrightarrow> length (leaves key fl a) = n"
  by (cases "n = 0") (auto simp: leaves_def length_leaf_cvs_full)

lemma leaves_append:
  assumes "length a = 1024 * n" "d \<noteq> []"
  shows "leaves key fl (a @ d) = leaves key fl a @ leaf_cvs key fl (of_nat n) d"
proof (cases "n = 0")
  case False
  then show ?thesis using assms leaf_cvs_append [of a n d key fl 0] by (auto simp: leaves_def)
qed (use assms in \<open>simp add: leaves_def\<close>)

lemma lazy_stack_count:
  assumes "lazy_stack h key fl a n"
  shows "popcnt (of_nat n) = bit_count n" "bit_count n \<le> 54"
    "length (subtrees (parent_cv key fl) (leaves key fl a)) = bit_count n" "n < 2 ^ 54"
proof -
  have l: "length a = 1024 * n" "length a < 2 ^ 64" using assms by (simp_all add: lazy_stack_def)
  then show n: "n < 2 ^ 54" by simp
  then have "unat (of_nat n :: u64) = n" by (simp add: unat_of_nat take_bit_nat_eq_self_iff)
  then show "popcnt (of_nat n) = bit_count n" by (simp add: popcnt_eq)
  show "bit_count n \<le> 54" using n by (rule bit_count_le)
  show "length (subtrees (parent_cv key fl) (leaves key fl a)) = bit_count n"
    using l(1) by (simp add: length_subtrees length_leaves)
qed

lemma lazy_merge:
  assumes "lazy_stack h key fl a n"
  shows "\<exists>h'. hasher_merge_cv_stack b h (of_nat n) = Some h' \<and>
    restacked h h' (subtrees (parent_cv key fl) (leaves key fl a))"
  using hasher_merge [of h "of_nat n"] assms lazy_stack_count [OF assms]
  by (simp add: lazy_stack_def)

text \<open>Pushing the value of an aligned complete subtree.\<close>

lemma lazy_push:
  assumes "lazy_stack h key fl a n" "length d = 1024 * 2 ^ i" "2 ^ i dvd n" "length (a @ d) < 2 ^ 64"
    and "cv = tree_merge (parent_cv key fl) (leaf_cvs key fl (of_nat n) d)"
  shows "\<exists>h'. hasher_push_cv b h cv (of_nat n) = Some h' \<and>
    restacked h h' (subtrees (parent_cv key fl) (leaves key fl a) @ [cv]) \<and> lazy_stack h' key fl (a @ d) (n + 2 ^ i)"
proof -
  let ?P = "parent_cv key fl" and ?cs = "leaves key fl a" and ?ds = "leaf_cvs key fl (of_nat n) d"
  note c = lazy_stack_count [OF assms(1)]
  have a: "length a = 1024 * n" using assms(1) by (simp add: lazy_stack_def)
  obtain h' where h': "hasher_push_cv b h cv (of_nat n) = Some h'" "restacked h h' (subtrees ?P ?cs @ [cv])"
    using hasher_push [of h "of_nat n" "subtrees ?P ?cs" cv] assms(1) c by (auto simp: lazy_stack_def)
  have ds: "length ?ds = 2 ^ i" using assms(2) by (intro length_leaf_cvs_full) auto
  have d: "d \<noteq> []" using assms(2) by auto
  have app: "leaves key fl (a @ d) = ?cs @ ?ds" using a d by (rule leaves_append)
  have "bit_count (n + 2 ^ i) = length (subtrees ?P (?cs @ ?ds))"
    using a ds by (simp add: length_subtrees length_leaves)
  then have "merge_down ?P (bit_count (n + 2 ^ i)) (subtrees ?P ?cs @ [cv]) = subtrees ?P (?cs @ ?ds)"
    using merge_down_push [of i ?cs ?ds ?P] a ds assms(3,5) by (simp add: length_leaves)
  then have "lazy_stack h' key fl (a @ d) (n + 2 ^ i)"
    using h'(2) assms(1,2,4) a app by (simp add: lazy_stack_def restacked_def)
  with h' show ?thesis by blast
qed

section \<open>Update\<close>

lemma and_pow2_pred: "(2 ^ e - 1) AND (c :: u64) = 0 \<longleftrightarrow> 2 ^ e dvd unat c"
proof -
  have "(2 ^ e - 1) AND c = take_bit e c"
    by (simp add: mask_eq_exp_minus_1 [symmetric] take_bit_eq_mask and.commute)
  moreover have "unat (take_bit e c) = unat c mod 2 ^ e"
    by (metis unsigned_take_bit_eq take_bit_eq_mod)
  ultimately show ?thesis by (metis dvd_eq_mod_eq_0 unsigned_0 unsigned_word_eqI)
qed

lemma unat_pow2: "e < 64 \<Longrightarrow> unat (2 ^ e :: u64) = 2 ^ e"
  using unat_two_power [of e, where 'a = 64] by simp

lemma pow2_half: "Suc e < 64 \<Longrightarrow> (2 ^ Suc e :: u64) div 2 = 2 ^ e"
proof -
  assume e: "Suc e < 64"
  then have "unat ((2 ^ Suc e :: u64) div 2) = 2 ^ Suc e div 2" by (simp add: unat_div unat_pow2 del: power_Suc)
  also have "\<dots> = unat (2 ^ e :: u64)" using e by (simp add: unat_pow2)
  finally show ?thesis by (rule unsigned_word_eqI)
qed

lemma shrink_subtree_aligned:
  assumes "2 ^ k dvd unat c" "k \<le> e" "e < 64"
  shows "\<exists>i. shrink_subtree (2 ^ e) c = Some (2 ^ i) \<and> k \<le> i \<and> i \<le> e \<and> 2 ^ i dvd unat c"
  using assms(2,3)
proof (induction e)
  case 0
  then show ?case using and_pow2_pred [of 0 c] by (subst shrink_subtree.simps) auto
next
  case (Suc e)
  show ?case
  proof (cases "2 ^ Suc e dvd unat c")
    case True
    then show ?thesis
      using and_pow2_pred [of "Suc e" c] Suc.prems
      by (intro exI [of _ "Suc e"], subst shrink_subtree.simps) (simp del: power_Suc)
  next
    case False
    then have "k \<le> e" using assms(1) Suc.prems by (metis le_SucE)
    then have "\<exists>i. shrink_subtree (2 ^ e) c = Some (2 ^ i) \<and> k \<le> i \<and> i \<le> e \<and> 2 ^ i dvd unat c"
      using Suc by simp
    moreover have "shrink_subtree (2 ^ Suc e) c = shrink_subtree (2 ^ e) c"
      using False and_pow2_pred [of "Suc e" c] pow2_half [of e] Suc.prems
      by (subst shrink_subtree.simps) (simp del: power_Suc)
    ultimately show ?thesis by auto
  qed
qed

lemma chunk_chaining_value:
  assumes "length c \<le> 1024"
  shows "output_chaining_value b (chunk_state_output (chunk_state_of key fl ctr c)) = ref_cv (ref_chunk key fl ctr c)"
  using chunk_state_output_of [OF assms]
  by (simp add: output_chaining_value_def dispatch_compress ref_cv_def)

lemma push_one_chunk:
  assumes "lazy_stack h key fl a n" "cs_chunk_counter (h_chunk h) = of_nat n" "length d = 1024"
    and "length (a @ d) < 2 ^ 64"
  shows "\<exists>h'. push_subtree b h d x = Some h' \<and> h_chunk h' = h_chunk h \<and> lazy_stack h' key fl (a @ d) (n + 1)"
proof -
  have k: "h_key h = key" "cs_flags (h_chunk h) = fl" using assms(1) by (simp_all add: lazy_stack_def)
  have u: "chunk_state_update b ((chunk_state_init key fl)\<lparr>cs_chunk_counter := of_nat n\<rparr>) d = chunk_state_of key fl (of_nat n) d"
    using assms(3) chunk_state_update_of [of "[]" d key fl "of_nat n"] by (simp add: chunk_state_init_flushed flushed_Nil)
  have c: "cs_chunk_counter (chunk_state_of key fl (of_nat n) d) = of_nat n" by (simp add: chunk_state_of_def)
  have "ref_cv (ref_chunk key fl (of_nat n) d) = tree_merge (parent_cv key fl) (leaf_cvs key fl (of_nat n) d)"
    using assms(3) by (simp add: leaf_cvs.simps)
  then obtain h' where "hasher_push_cv b h (ref_cv (ref_chunk key fl (of_nat n) d)) (of_nat n) = Some h'"
    "restacked h h' (subtrees (parent_cv key fl) (leaves key fl a) @ [ref_cv (ref_chunk key fl (of_nat n) d)])"
    "lazy_stack h' key fl (a @ d) (n + 2 ^ 0)"
    using lazy_push [of h key fl a n d 0 "ref_cv (ref_chunk key fl (of_nat n) d)"] assms by auto
  then show ?thesis
    using assms(2,3) k u c by (auto simp: push_subtree_def Let_def chunk_chaining_value restacked_def)
qed

lemma push_pair:
  assumes "lazy_stack h key fl a n" "cs_chunk_counter (h_chunk h) = of_nat n" "length key = 8"
    and "length d = 1024 * 2 ^ Suc j" "2 ^ Suc j dvd n" "length (a @ d) < 2 ^ 64"
  shows "\<exists>h'. push_subtree b h d (2 ^ Suc j) = Some h' \<and> h_chunk h' = h_chunk h \<and>
    lazy_stack h' key fl (a @ d) (n + 2 ^ Suc j) \<and> paired h' key fl (a @ d)"
proof -
  let ?P = "parent_cv key fl"
  define dl dr where "dl = take (2 ^ j * 1024) d" and "dr = drop (2 ^ j * 1024) d"
  define l r where "l = leaf_cvs key fl (of_nat n) dl" and "r = leaf_cvs key fl (of_nat (n + 2 ^ j)) dr"
  have k: "h_key h = key" "cs_flags (h_chunk h) = fl" and a: "length a = 1024 * n"
    using assms(1) by (simp_all add: lazy_stack_def)
  have len: "length dl = 1024 * 2 ^ j" "length dr = 1024 * 2 ^ j" "d = dl @ dr"
    using assms(4) by (simp_all add: dl_def dr_def)
  have lr: "length l = 2 ^ j" "length r = 2 ^ j" using len by (simp_all add: l_def r_def length_leaf_cvs_full)
  have dvd: "2 ^ j dvd n" "2 ^ j dvd n + 2 ^ j" using assms(5) by (auto intro: power_le_dvd dvd_add)
  have node: "compress_subtree_to_parent_node b d key (of_nat n) fl = Some [tree_merge ?P l, tree_merge ?P r]"
    using subtree_to_parent_node [OF assms(4) _ assms(3), of "of_nat n" fl] assms(6)
    by (simp add: l_def r_def dl_def dr_def)
  have bl: "length (a @ dl) < 2 ^ 64" "length ((a @ dl) @ dr) < 2 ^ 64" using assms(6) len(3) by simp_all
  obtain h1 where h1: "hasher_push_cv b h (tree_merge ?P l) (of_nat n) = Some h1"
    "restacked h h1 (subtrees ?P (leaves key fl a) @ [tree_merge ?P l])" "lazy_stack h1 key fl (a @ dl) (n + 2 ^ j)"
    using lazy_push [OF assms(1) len(1) dvd(1) bl(1), of "tree_merge ?P l"] unfolding l_def by blast
  obtain h2 where h2: "hasher_push_cv b h1 (tree_merge ?P r) (of_nat (n + 2 ^ j)) = Some h2"
    "restacked h1 h2 (subtrees ?P (leaves key fl (a @ dl)) @ [tree_merge ?P r])"
    "lazy_stack h2 key fl (a @ d) (n + 2 ^ Suc j)"
    using lazy_push [OF h1(3) len(2) dvd(2) bl(2), of "tree_merge ?P r"] len(3) unfolding r_def by (auto simp: mult_2 add.assoc)
  have ne: "dl \<noteq> []" "dr \<noteq> []" using len by auto
  have app: "leaves key fl (a @ dl) = leaves key fl a @ l" "leaves key fl (a @ d) = leaves key fl a @ l @ r"
    using leaves_append [OF a ne(1), of key fl] leaves_append [of "a @ dl" "n + 2 ^ j" dr key fl] a len ne
    by (simp_all add: l_def r_def)
  have "subtrees ?P (leaves key fl (a @ dl)) = subtrees ?P (leaves key fl a) @ [tree_merge ?P l]"
    unfolding app(1) using assms(5) a lr by (intro subtrees_snoc) (simp_all add: length_leaves)
  then have "stack_of h2 = subtrees ?P (leaves key fl a) @ [tree_merge ?P l, tree_merge ?P r]"
    using h2(2) by (simp add: restacked_def)
  then have "paired h2 key fl (a @ d)"
    unfolding paired_def using app(2) lr assms(5) a
    by (intro exI [of _ "leaves key fl a"] exI [of _ l] exI [of _ r] exI [of _ j]) (simp add: length_leaves)
  moreover have "(2 ^ Suc j :: u64) div 2 = 2 ^ j"
  proof (rule pow2_half)
    have "1024 * 2 ^ Suc j < (2::nat) ^ 64" using assms(4,6) by simp
    then have "(2::nat) ^ Suc j < 2 ^ 64" by linarith
    then show "Suc j < 64" by (rule pow2_less_imp)
  qed
  moreover have "1024 < length d" using assms(4) one_less_power [of "2::nat" "Suc j"] by simp
  ultimately show ?thesis
    using h1 h2 node assms(2) k len(3) by (auto simp: push_subtree_def restacked_def simp del: power_Suc)
qed

lemma chunk_state_of_Nil_counter:
  "(chunk_state_of key fl c [])\<lparr>cs_chunk_counter := d\<rparr> = chunk_state_of key fl d []"
  by (simp add: chunk_state_of_def last_block_def)

lemma chunk_state_of_sel [simp]:
  "cs_flags (chunk_state_of key fl c t) = fl" "cs_chunk_counter (chunk_state_of key fl c t) = c"
  by (simp_all add: chunk_state_of_def)

lemma lazy_stack_chunk:
  "lazy_stack (h\<lparr>h_chunk := c\<rparr>) key fl a n \<longleftrightarrow> lazy_stack h key fl a n"
  if "cs_flags c = cs_flags (h_chunk h)"
  using that by (simp add: lazy_stack_def)

lemma between_step:
  assumes "between h key fl a n" "length key = 8" "1024 < length y" "length (a @ y) < 2 ^ 64"
  obtains h' i where "shrink_subtree (round_down_to_power_of_2 (of_nat (length y))) (of_nat n * 1024) = Some (1024 * 2 ^ i)"
    "1024 * 2 ^ i \<le> length y" "unat (1024 * 2 ^ i :: u64) = 1024 * 2 ^ i" "(1024 * 2 ^ i :: u64) div 1024 = 2 ^ i"
    "push_subtree b h (take (1024 * 2 ^ i) y) (2 ^ i) = Some h'" "h_chunk h' = h_chunk h"
    "lazy_stack h' key fl (a @ take (1024 * 2 ^ i) y) (n + 2 ^ i)"
    "i = 0 \<and> 1024 * 2 ^ i < length y \<or> paired h' key fl (a @ take (1024 * 2 ^ i) y)"
proof -
  have lz: "lazy_stack h key fl a n" and ch: "cs_chunk_counter (h_chunk h) = of_nat n"
    using assms(1) by (simp_all add: between_def chunk_state_of_def)
  have a: "length a = 1024 * n" using lz by (simp add: lazy_stack_def)
  have n: "n < 2 ^ 54" using lazy_stack_count(4) [OF lz] .
  have un: "unat (of_nat n * 1024 :: u64) = 1024 * n"
  proof -
    have "(of_nat n * 1024 :: u64) = of_nat (1024 * n)" by simp
    moreover have "1024 * n < 2 ^ 64" using n by simp
    ultimately show ?thesis by (simp add: unat_of_nat take_bit_nat_eq_self_iff del: of_nat_mult)
  qed
  obtain e where e: "pow2_le (length y) = 2 ^ e" using pow2_le_ex by blast
  have "0 < length y" using assms(3) by linarith
  then have ey: "2 ^ e \<le> length y" "length y < 2 * 2 ^ e" using pow2_le_bounds [of "length y"] e by simp_all
  have "(2::nat) ^ e < 2 ^ 64" using ey(1) assms(4) by simp
  then have e64: "e < 64" by (rule pow2_less_imp)
  have "unat (of_nat (length y) :: u64) = length y"
    using assms(4) by (simp add: unat_of_nat take_bit_nat_eq_self_iff)
  then have "unat (round_down_to_power_of_2 (of_nat (length y))) = unat (2 ^ e :: u64)"
    using e e64 by (simp add: unat_round_down unat_pow2)
  then have rd: "round_down_to_power_of_2 (of_nat (length y)) = 2 ^ e" by (rule unsigned_word_eqI)
  have "(2::nat) ^ 10 < 2 ^ Suc e" using ey(2) assms(3) by simp
  then have e10: "10 \<le> e" using pow2_less_imp [of 10 "Suc e"] by simp
  obtain k where k: "shrink_subtree (2 ^ e) (of_nat n * 1024) = Some (2 ^ k)" "10 \<le> k" "k \<le> e" "2 ^ k dvd 1024 * n"
    using shrink_subtree_aligned [of 10 "of_nat n * 1024" e] e10 e64 un by auto
  define i where "i = k - 10"
  have ki: "k = 10 + i" using k(2) by (simp add: i_def)
  have pw: "(2::u64) ^ k = 1024 * 2 ^ i" "(2::nat) ^ k = 1024 * 2 ^ i" by (simp_all add: ki power_add)
  have le: "1024 * 2 ^ i \<le> length y"
  proof -
    have "(2::nat) ^ k \<le> 2 ^ e" using k(3) by (rule power_increasing) simp
    then show ?thesis using ey(1) pw(2) by linarith
  qed
  have uk: "unat (1024 * 2 ^ i :: u64) = 1024 * 2 ^ i" using unat_pow2 [of k] k(3) e64 pw by simp
  have "unat ((1024 * 2 ^ i :: u64) div 1024) = unat (2 ^ i :: u64)"
    using uk unat_pow2 [of i] ki k(3) e64 by (simp add: unat_div)
  then have dv: "(1024 * 2 ^ i :: u64) div 1024 = 2 ^ i" by (rule unsigned_word_eqI)
  have al: "2 ^ i dvd n" using k(4) pw(2) by simp
  let ?d = "take (1024 * 2 ^ i) y"
  have d: "length ?d = 1024 * 2 ^ i" "length (a @ ?d) < 2 ^ 64" using le assms(4) by simp_all
  show ?thesis
  proof (cases i)
    case 0
    obtain h' where "push_subtree b h ?d (2 ^ i) = Some h'" "h_chunk h' = h_chunk h"
      "lazy_stack h' key fl (a @ ?d) (n + 2 ^ i)"
      using push_one_chunk [OF lz ch _ d(2), of "2 ^ i"] d(1) 0 by auto
    then show ?thesis using that [of i h'] k(1) rd pw(1) le uk dv 0 assms(3) by simp
  next
    case (Suc j)
    obtain h' where "push_subtree b h ?d (2 ^ i) = Some h'" "h_chunk h' = h_chunk h"
      "lazy_stack h' key fl (a @ ?d) (n + 2 ^ i)" "paired h' key fl (a @ ?d)"
      using push_pair [OF lz ch assms(2), of ?d j] d al Suc by auto
    then show ?thesis using that [of i h'] k(1) rd pw(1) le uk dv by simp
  qed
qed

lemma update_loop_spec:
  assumes "between h key fl a n" "length key = 8" "y \<noteq> []" "length (a @ y) < 2 ^ 64"
  shows "\<exists>h' a' y' n'. update_loop b h y = Some (h', y') \<and> a @ y = a' @ y' \<and> length y' \<le> 1024 \<and>
    between h' key fl a' n' \<and> (y' = [] \<longrightarrow> paired h' key fl a')"
  using assms(1,3,4)
proof (induction "length y" arbitrary: h a n y rule: less_induct)
  case less
  show ?case
  proof (cases "length y \<le> 1024")
    case True
    then show ?thesis using less.prems by (subst update_loop.simps) auto
  next
    case False
    then have y: "1024 < length y" by simp
    obtain i h1 where s: "shrink_subtree (round_down_to_power_of_2 (of_nat (length y))) (of_nat n * 1024) = Some (1024 * 2 ^ i)"
      "1024 * 2 ^ i \<le> length y" "unat (1024 * 2 ^ i :: u64) = 1024 * 2 ^ i" "(1024 * 2 ^ i :: u64) div 1024 = 2 ^ i"
      "push_subtree b h (take (1024 * 2 ^ i) y) (2 ^ i) = Some h1" "h_chunk h1 = h_chunk h"
      "lazy_stack h1 key fl (a @ take (1024 * 2 ^ i) y) (n + 2 ^ i)"
      "i = 0 \<and> 1024 * 2 ^ i < length y \<or> paired h1 key fl (a @ take (1024 * 2 ^ i) y)"
      by (rule between_step [OF less.prems(1) assms(2) y less.prems(3)])
    define h2 where "h2 = h1\<lparr>h_chunk := (h_chunk h1)\<lparr>cs_chunk_counter := cs_chunk_counter (h_chunk h1) + 2 ^ i\<rparr>\<rparr>"
    let ?a = "a @ take (1024 * 2 ^ i) y" and ?y = "drop (1024 * 2 ^ i) y"
    have ch: "h_chunk h = chunk_state_of key fl (of_nat n) []" "cs_chunk_counter (h_chunk h) = of_nat n"
      using less.prems(1) by (simp_all add: between_def chunk_state_of_def)
    have b2: "between h2 key fl ?a (n + 2 ^ i)"
      using s(6,7) ch by (simp add: between_def h2_def lazy_stack_chunk chunk_state_of_Nil_counter)
    have p2: "paired h2 key fl ?a" if "paired h1 key fl ?a" using that by (simp add: paired_def h2_def)
    have u: "update_loop b h y = update_loop b h2 ?y"
      using y s(1,3,4,5) ch(2) by (subst update_loop.simps) (simp add: Let_def h2_def)
    show ?thesis
    proof (cases "?y = []")
      case True
      then have "paired h2 key fl ?a" using s(8) p2 by auto
      then show ?thesis
        using u b2 True by (intro exI [of _ h2] exI [of _ ?a] exI [of _ "[]"] exI [of _ "n + 2 ^ i"])
          (simp add: update_loop.simps)
    next
      case ne: False
      have "0 < length y" "0 < 1024 * (2::nat) ^ i" using y by (linarith, simp)
      then have "length ?y < length y" unfolding length_drop by (rule diff_less [rotated])
      moreover have "length (?a @ ?y) < 2 ^ 64" using less.prems(3) by simp
      ultimately have "\<exists>h' a' y' n'. update_loop b h2 ?y = Some (h', y') \<and> ?a @ ?y = a' @ y' \<and> length y' \<le> 1024 \<and>
          between h' key fl a' n' \<and> (y' = [] \<longrightarrow> paired h' key fl a')"
        using less.hyps [of ?y h2 ?a "n + 2 ^ i"] b2 ne by blast
      then show ?thesis using u by simp
    qed
  qed
qed

lemma update_tail_spec:
  assumes "between h key fl a n" "length key = 8" "y \<noteq> []" "length (a @ y) < 2 ^ 64"
  shows "\<exists>h'. update_tail b h y = Some h' \<and> hasher_inv h' key fl (a @ y)"
proof -
  obtain h1 a1 y1 n1 where u: "update_loop b h y = Some (h1, y1)" "a @ y = a1 @ y1" "length y1 \<le> 1024"
    "between h1 key fl a1 n1" "y1 = [] \<longrightarrow> paired h1 key fl a1"
    using update_loop_spec [OF assms] by blast
  have lz: "lazy_stack h1 key fl a1 n1" and ch: "h_chunk h1 = chunk_state_of key fl (of_nat n1) []"
    using u(4) by (simp_all add: between_def)
  show ?thesis
  proof (cases "y1 = []")
    case True
    then have "hasher_inv h1 key fl (a @ y)"
      using u lz ch assms(2,4) unfolding hasher_inv_def
      by (intro conjI exI [of _ a1] exI [of _ "[]"] exI [of _ n1]) auto
    then show ?thesis using u(1) True by (simp add: update_tail_def)
  next
    case False
    define h2 where "h2 = h1\<lparr>h_chunk := chunk_state_of key fl (of_nat n1) y1\<rparr>"
    have up: "chunk_state_update b (h_chunk h1) y1 = chunk_state_of key fl (of_nat n1) y1"
      using u(3) ch chunk_state_update_of [of "[]" y1] by simp
    have lz2: "lazy_stack h2 key fl a1 n1" using lz ch by (simp add: h2_def lazy_stack_chunk)
    obtain h3 where h3: "hasher_merge_cv_stack b h2 (of_nat n1) = Some h3"
      "restacked h2 h3 (subtrees (parent_cv key fl) (leaves key fl a1))" using lazy_merge [OF lz2] by blast
    have "lazy_stack h3 key fl a1 n1"
      using lz2 h3(2) lazy_stack_count(3) [OF lz2] by (simp add: lazy_stack_def restacked_def merge_down_done)
    then have "hasher_inv h3 key fl (a @ y)"
      using u(2,3) h3(2) assms(2,4) False unfolding hasher_inv_def
      by (intro conjI exI [of _ a1] exI [of _ y1] exI [of _ n1]) (auto simp: restacked_def h2_def)
    moreover have "update_tail b h y = Some h3"
      using u(1) False up h3(1) by (simp add: update_tail_def h2_def)
    ultimately show ?thesis by blast
  qed
qed

lemma chunk_state_len_of: "length t \<le> 1024 \<Longrightarrow> chunk_state_len (chunk_state_of key fl c t) = length t"
proof (cases "t = []")
  case False
  assume "length t \<le> 1024"
  moreover note chunk_rest [OF False]
  moreover have "last_block t < 16" using calculation by simp
  ultimately show ?thesis
    by (simp add: chunk_state_len_def chunk_state_of_def unat_of_nat_byte del: of_nat_diff)
qed (simp add: chunk_state_len_def chunk_state_of_def last_block_def)

text \<open>\<open>blake3_hasher_update\<close> always returns, and appends its input to what the hasher has taken.\<close>

lemma hasher_update:
  assumes "hasher_inv h key fl m" "length (m @ x) < 2 ^ 64"
  shows "\<exists>h'. blake3_hasher_update b h x = Some h' \<and> hasher_inv h' key fl (m @ x)"
proof (cases "x = []")
  case True
  then show ?thesis using assms(1) by (simp add: blake3_hasher_update_def)
next
  case xne: False
  have key: "length key = 8" using assms(1) by (simp add: hasher_inv_def)
  obtain a t n where m: "m = a @ t" and lz: "lazy_stack h key fl a n"
    and ch: "h_chunk h = chunk_state_of key fl (of_nat n) t" and t: "length t \<le> 1024"
    and st: "if t = [] then m = [] \<and> stack_of h = [] \<or> paired h key fl m
         else stack_of h = subtrees (parent_cv key fl) (leaves key fl a)"
    using assms(1) unfolding hasher_inv_def by blast
  have a: "length a = 1024 * n" using lz by (simp add: lazy_stack_def)
  show ?thesis
  proof (cases "t = []")
    case True
    then show ?thesis
      using update_tail_spec [of h key fl a n x] xne ch lz m assms(2) key t
      by (simp add: blake3_hasher_update_def between_def chunk_state_len_of)
  next
    case tne: False
    define k where "k = (if 1024 - length t > length x then length x else 1024 - length t)"
    define h1 where "h1 = h\<lparr>h_chunk := chunk_state_of key fl (of_nat n) (t @ take k x)\<rparr>"
    have k: "length (t @ take k x) \<le> 1024" "k \<le> length x" using t by (auto simp: k_def)
    have up: "chunk_state_update b (h_chunk h) (take k x) = chunk_state_of key fl (of_nat n) (t @ take k x)"
      using ch k(1) by (simp add: chunk_state_update_of)
    have lz1: "lazy_stack h1 key fl a n" using lz ch by (simp add: h1_def lazy_stack_chunk)
    show ?thesis
    proof (cases "drop k x = []")
      case True
      then have kx: "take k x = x" using k(2) by simp
      have "hasher_inv h1 key fl (m @ x)"
        unfolding hasher_inv_def using key assms(2) lz1 k(1) kx tne st m
        by (intro conjI exI [of _ a] exI [of _ "t @ x"] exI [of _ n]) (auto simp: h1_def)
      moreover have "blake3_hasher_update b h x = Some h1"
        using xne tne t ch up True by (simp add: blake3_hasher_update_def chunk_state_len_of k_def [symmetric] h1_def)
      ultimately show ?thesis by blast
    next
      case rest: False
      let ?c = "t @ take k x"
      have c: "length ?c = 1024" using rest t by (auto simp: k_def split: if_splits)
      have bound: "length (a @ ?c) < 2 ^ 64" using assms(2) m k(2) by simp
      have cv: "ref_cv (ref_chunk key fl (of_nat n) ?c) = tree_merge (parent_cv key fl) (leaf_cvs key fl (of_nat n) ?c)"
        using c by (simp add: leaf_cvs.simps)
      obtain h2 where h2: "hasher_push_cv b h1 (ref_cv (ref_chunk key fl (of_nat n) ?c)) (of_nat n) = Some h2"
        "restacked h1 h2 (subtrees (parent_cv key fl) (leaves key fl a) @ [ref_cv (ref_chunk key fl (of_nat n) ?c)])"
        "lazy_stack h2 key fl (a @ ?c) (n + 2 ^ 0)"
        using lazy_push [OF lz1 _ _ bound cv, of 0] c by auto
      define h3 where "h3 = h2\<lparr>h_chunk := chunk_state_of key fl (of_nat (n + 1)) []\<rparr>"
      have b3: "between h3 key fl (a @ ?c) (n + 1)"
        using h2(2,3) by (simp add: between_def h3_def lazy_stack_chunk restacked_def h1_def)
      obtain h4 where h4: "update_tail b h3 (drop k x) = Some h4" "hasher_inv h4 key fl ((a @ ?c) @ drop k x)"
        using update_tail_spec [OF b3 key rest] assms(2) m by auto
      have reset: "chunk_state_reset (h_chunk h2) (h_key h2) (cs_chunk_counter (h_chunk h2) + 1) =
          chunk_state_of key fl (of_nat (n + 1)) []"
        using h2(2) lz1
        by (simp add: restacked_def h1_def chunk_state_reset_def chunk_state_of_def last_block_def pad_block_def lazy_stack_def add.commute)
      have "blake3_hasher_update b h x = Some h4"
        using xne tne t ch up rest h2(1) reset h4(1) chunk_chaining_value [of ?c key fl "of_nat n"] k(1)
        by (simp add: blake3_hasher_update_def chunk_state_len_of k_def [symmetric] h1_def [symmetric] h3_def)
          (simp add: h1_def)
      then show ?thesis using h4(2) m by simp
    qed
  qed
qed

end

end
