(* ===== verification/Blake3_Avx512.thy ===== *)
theory Blake3_Avx512
  imports Blake3_Dispatch
begin

text \<open>
  The single compression of AVX-512 does not compute BLAKE3: from the second round on it mixes the words
  \<open>0\<close> and \<open>4\<close> of the round before where the words \<open>6\<close> and \<open>0\<close> are due. For the block below the words are the
  right ones up to the sixth round and wrong in the seventh, and since a round is injective the result
  differs for every chaining value.
\<close>

section \<open>Rounds are injective\<close>

lemma rotr32_inject:
  "rotr32 x 16 = rotr32 y 16 \<longleftrightarrow> x = y" "rotr32 x 12 = rotr32 y 12 \<longleftrightarrow> x = y"
  "rotr32 x 8 = rotr32 y 8 \<longleftrightarrow> x = y" "rotr32 x 7 = rotr32 y 7 \<longleftrightarrow> x = y"
  by (metis word_rotr32 word_rot_rl)+

lemma xor_word_inject: "x XOR z = y XOR z \<longleftrightarrow> x = y" for x y z :: u32
  by (metis xor.assoc xor_self_eq xor.right_neutral)

text \<open>Half of a quarter round, with its two rotations.\<close>

definition half :: "nat \<Rightarrow> nat \<Rightarrow> u32 \<times> u32 \<times> u32 \<times> u32 \<Rightarrow> u32 \<Rightarrow> u32 \<times> u32 \<times> u32 \<times> u32" where
  "half k l q x = (case q of (a, b, c, d) \<Rightarrow>
     let a = a + b + x; d = rotr32 (d XOR a) k; c = c + d; b = rotr32 (b XOR c) l in (a, b, c, d))"

lemma quarter_halves: "quarter a b c d x y = half 8 7 (half 16 12 (a, b, c, d) x) y"
  by (simp add: quarter_def half_def Let_def)

lemma half_inject:
  assumes "half k l p x = half k l q x" "\<And>x y. rotr32 x k = rotr32 y k \<Longrightarrow> x = y" "\<And>x y. rotr32 x l = rotr32 y l \<Longrightarrow> x = y"
  shows "p = q"
proof -
  obtain a b c d a' b' c' d' where p: "p = (a, b, c, d)" and q: "q = (a', b', c', d')" by (metis prod_cases4)
  define A A' where "A = a + b + x" and "A' = a' + b' + x"
  define D D' where "D = rotr32 (d XOR A) k" and "D' = rotr32 (d' XOR A') k"
  define C C' where "C = c + D" and "C' = c' + D'"
  have "half k l p x = (A, rotr32 (b XOR C) l, C, D)" "half k l q x = (A', rotr32 (b' XOR C') l, C', D')"
    by (simp_all add: p q half_def Let_def A_def A'_def D_def D'_def C_def C'_def)
  then have "(A, rotr32 (b XOR C) l, C, D) = (A', rotr32 (b' XOR C') l, C', D')" using assms(1) by (simp only:)
  then have e: "A = A'" "D = D'" "C = C'" "rotr32 (b XOR C) l = rotr32 (b' XOR C') l" unfolding prod.inject by blast+
  have d: "d = d'" using e(1,2) assms(2) by (metis D_def D'_def xor_word_inject)
  have c: "c = c'" using e(2,3) by (simp add: C_def C'_def)
  have b: "b = b'" using e(3,4) assms(3) by (metis xor_word_inject)
  then show ?thesis using d c e(1) by (simp add: p q A_def A'_def)
qed

lemma quarter_inject: "quarter a b c d x y = quarter a' b' c' d' x y \<Longrightarrow> a = a' \<and> b = b' \<and> c = c' \<and> d = d'"
  unfolding quarter_halves by (drule half_inject, simp_all add: rotr32_inject, drule half_inject, simp_all add: rotr32_inject)

lemma quarter_message: "q_a (quarter a b c d x y) = q_a (quarter a b c d x y') \<Longrightarrow> y = y'"
  by (simp add: quarter_def Let_def)

lemma g_portable_inject:
  assumes "g_portable s a b c d x y = g_portable t a b c d x y" "distinct [a, b, c, d]"
    and "a < length s" "b < length s" "c < length s" "d < length s" "length s = length t"
  shows "s = t"
proof -
  let ?q = "quarter (s ! a) (s ! b) (s ! c) (s ! d) x y" and ?r = "quarter (t ! a) (t ! b) (t ! c) (t ! d) x y"
  have e: "s[a := q_a ?q, b := q_b ?q, c := q_c ?q, d := q_d ?q] = t[a := q_a ?r, b := q_b ?r, c := q_c ?r, d := q_d ?r]"
    using assms by (simp add: g_portable_quarter Let_def)
  have n: "s[a := q_a ?q, b := q_b ?q, c := q_c ?q, d := q_d ?q] ! i =
      t[a := q_a ?r, b := q_b ?r, c := q_c ?r, d := q_d ?r] ! i" for i using e by simp
  have "?q = ?r"
    using n [of a] n [of b] n [of c] n [of d] assms(2-) by (simp add: prod_eq_iff)
  then have q: "s ! a = t ! a" "s ! b = t ! b" "s ! c = t ! c" "s ! d = t ! d"
    using quarter_inject by blast+
  show ?thesis
  proof (rule nth_equalityI [OF assms(7)])
    fix i assume "i < length s"
    then show "s ! i = t ! i"
      using n [of i] q by (cases "i = a \<or> i = b \<or> i = c \<or> i = d") (auto simp: nth_list_update)
  qed
qed

lemma g_portable_eq_iff:
  "distinct [a, b, c, d] \<Longrightarrow> a < length s \<Longrightarrow> b < length s \<Longrightarrow> c < length s \<Longrightarrow> d < length s \<Longrightarrow> length s = length t \<Longrightarrow>
     g_portable s a b c d x y = g_portable t a b c d x y \<longleftrightarrow> s = t"
  using g_portable_inject by blast

section \<open>The block\<close>

definition bad_block :: "byte list" where
  "bad_block = replicate 36 0 @ [1] @ replicate 27 0"

abbreviation "bad_msg \<equiv> load_block bad_block"

lemma bad_msgs:
  "msg_next_avx512 (mvecs bad_msg) = mvecs (permute bad_msg)"
  "msg_next_avx512 (mvecs (permute bad_msg)) = mvecs (permute (permute bad_msg))"
  "msg_next_avx512 (mvecs (permute (permute bad_msg))) = mvecs (permute (permute (permute bad_msg)))"
  "msg_next_avx512 (mvecs (permute (permute (permute bad_msg)))) = mvecs (permute (permute (permute (permute bad_msg))))"
  "msg_next_avx512 (mvecs (permute (permute (permute (permute bad_msg))))) =
     mvecs (permute (permute (permute (permute (permute bad_msg)))))"
  by code_simp+

lemma bad_last:
  "msg_next_avx512 (mvecs (permute (permute (permute (permute (permute bad_msg)))))) =
     ([0, 0, 0, 0], [1, 0, 0, 0], [0, 0, 0, 0], [0, 0, 0, 0])"
  "mvecs (permute (permute (permute (permute (permute (permute bad_msg)))))) =
     ([0, 0, 0, 0], [0, 0, 1, 0], [0, 0, 0, 0], [0, 0, 0, 0])"
  by code_simp+

section \<open>The last round\<close>

interpretation avx512_rows: row_ops avx512_kernel4
  by unfold_locales
    (simp_all add: avx512_kernel4_def add_128_avx512_def xor_128_avx512_def rot16_128_avx512_def rot12_128_avx512_def
      rot8_128_avx512_def rot7_128_avx512_def add_epi32_def xor_si_def ror_epi32_def word_rotr32)

definition last_columns :: "u32 list \<Rightarrow> u32 \<Rightarrow> u32 \<Rightarrow> u32 list" where
  "last_columns st x y =
     g_portable (g_portable (g_portable (g_portable st 0 4 8 12 0 x) 1 5 9 13 0 0) 2 6 10 14 0 y) 3 7 11 15 0 0"

definition last_diagonals :: "u32 list \<Rightarrow> u32 list" where
  "last_diagonals st =
     g_portable (g_portable (g_portable (g_portable st 0 5 10 15 0 0) 1 6 11 12 0 0) 2 7 8 13 0 0) 3 4 9 14 0 0"

lemma last_round:
  "length st = 16 \<Longrightarrow>
     rows_round avx512_kernel4 (rows_of st) ([0, 0, 0, 0], [x, 0, y, 0], [0, 0, 0, 0], [0, 0, 0, 0]) =
     rows_of (last_diagonals (last_columns st x y))"
  by (simp add: rows_round_def Let_def avx512_rows.rows_columns avx512_rows.rows_diagonals last_columns_def last_diagonals_def)

lemma last_diagonals_inject:
  assumes "last_diagonals s = last_diagonals t" "length s = 16" "length t = 16"
  shows "s = t"
  using assms unfolding last_diagonals_def by (simp add: g_portable_eq_iff)

lemma last_columns_message:
  assumes "last_columns st x y = last_columns st x' y'" "length st = 16"
  shows "x = x'"
proof -
  have "last_columns st x y ! 0 = q_a (quarter (st ! 0) (st ! 4) (st ! 8) (st ! 12) 0 x)" for x y
    using assms(2) by (simp add: last_columns_def g_portable_quarter Let_def)
  then show ?thesis using assms(1) quarter_message by metis
qed

lemma compress_xof_inject:
  assumes "compress_xof_vec avx512_kernel4 cv (rows_of s) = compress_xof_vec avx512_kernel4 cv (rows_of t)"
    and "length s = 16" "length t = 16"
  shows "s = t"
proof -
  let ?w = "\<lambda>s. map (\<lambda>i. s ! i XOR s ! (i + 8)) [0..<8] @ map (\<lambda>i. s ! (i + 8) XOR cv ! i) [0..<8]"
  have "compress_xof_vec avx512_kernel4 cv (rows_of s) = bytes_of (?w s)" for s
    by (simp add: avx512_rows.compress_xof_vec_eq bytes_of_def comp_def)
  then have "bytes_of (?w s) = bytes_of (?w t)" using assms(1) by (simp only:)
  then have "words_of (bytes_of (?w s)) = words_of (bytes_of (?w t))" by (rule arg_cong)
  then have "?w s = ?w t" by (simp only: words_of_bytes_of)
  then have h: "s ! i XOR s ! (i + 8) = t ! i XOR t ! (i + 8)" "s ! (i + 8) XOR cv ! i = t ! (i + 8) XOR cv ! i"
    if "i < 8" for i using that by simp_all
  then have u1: "s ! (i + 8) = t ! (i + 8)" if "i < 8" for i using that by (simp add: xor_word_inject)
  then have u2: "s ! i = t ! i" if "i < 8" for i using that h(1) [OF that] by (simp add: xor_word_inject)
  show ?thesis
  proof (rule nth_equalityI)
    fix i assume "i < length s"
    then show "s ! i = t ! i" using u2 [of i] u1 [of "i - 8"] assms(2) by (cases "i < 8") simp_all
  qed (simp add: assms(2,3))
qed

text \<open>The state in front of the last round.\<close>

definition bad_state :: "u32 list \<Rightarrow> byte \<Rightarrow> u64 \<Rightarrow> byte \<Rightarrow> u32 list" where
  "bad_state cv bl ctr fl = spec_rounds 6 (init_state cv bl ctr fl) bad_msg"

lemma length_spec_round [simp]: "length (spec_round st w) = length st"
  by (simp add: spec_round_def numeral_eq_Suc)

lemma length_init_state [simp]: "length (init_state cv bl ctr fl) = 16"
  by (simp add: init_state_def)

lemma length_bad_state [simp]: "length (bad_state cv bl ctr fl) = 16"
  by (simp add: bad_state_def numeral_eq_Suc)

lemma length_last [simp]: "length (last_columns s x y) = length s" "length (last_diagonals s) = length s"
  by (simp_all add: last_columns_def last_diagonals_def)

lemma compress_pre_avx512_bad:
  "compress_pre_avx512 cv bad_block bl ctr fl = rows_of (last_diagonals (last_columns (bad_state cv bl ctr fl) 1 0))"
proof -
  have r: "rows_of (init_state cv bl ctr fl) = (load_words cv 0, load_words cv 4,
      setr_epi32 [IV ! 0, IV ! 1, IV ! 2, IV ! 3],
      setr_epi32 [counter_low ctr, counter_high ctr, ucast bl, ucast fl])"
    by (simp add: rows_of_def load_words_def init_state_def setr_epi32_def flip: numeral_2_eq_2)
  show ?thesis
    unfolding compress_pre_avx512_def compress_pre_vec_def Let_def msg_first_block r [symmetric] bad_msgs bad_last
    by (simp add: avx512_rows.rows_round_eq last_round bad_state_def numeral_eq_Suc)
qed

lemma compress_pre_portable_bad:
  "rows_of (compress_pre_portable cv bad_block bl ctr fl) =
     rows_of (last_diagonals (last_columns (bad_state cv bl ctr fl) 0 1))"
proof -
  let ?st = "bad_state cv bl ctr fl" and ?m = "permute (permute (permute (permute (permute (permute bad_msg)))))"
  have "compress_pre_portable cv bad_block bl ctr fl = spec_round ?st ?m"
    by (simp add: compress_pre_is_spec bad_state_def numeral_eq_Suc)
  moreover have "rows_of (spec_round ?st ?m) = rows_round avx512_kernel4 (rows_of ?st) (mvecs ?m)"
    by (rule avx512_rows.rows_round_eq [symmetric]) simp
  ultimately show ?thesis unfolding bad_last by (simp add: last_round)
qed

text \<open>For every chaining value, counter, length and flags.\<close>

lemma compress_xof_avx512_wrong:
  "blake3_compress_xof_avx512 cv bad_block bl ctr fl \<noteq> blake3_compress_xof_portable cv bad_block bl ctr fl"
proof
  let ?st = "bad_state cv bl ctr fl"
  have x: "blake3_compress_xof_portable cv bad_block bl ctr fl =
      compress_xof_vec avx512_kernel4 cv (rows_of (compress_pre_portable cv bad_block bl ctr fl))"
    by (simp add: blake3_compress_xof_portable_def avx512_rows.compress_xof_vec_eq Let_def)
  assume "blake3_compress_xof_avx512 cv bad_block bl ctr fl = blake3_compress_xof_portable cv bad_block bl ctr fl"
  then have "last_diagonals (last_columns ?st 1 0) = last_diagonals (last_columns ?st 0 1)"
    unfolding blake3_compress_xof_avx512_def x compress_pre_avx512_bad compress_pre_portable_bad
    by (rule compress_xof_inject) simp_all
  then have "last_columns ?st 1 0 = last_columns ?st 0 1" by (rule last_diagonals_inject) simp_all
  then have "(1 :: u32) = 0" by (rule last_columns_message) simp
  then show False by simp
qed

lemma length_compress_xof_avx512_bad: "length (blake3_compress_xof_avx512 cv bad_block bl ctr fl) = 64"
  by (simp add: blake3_compress_xof_avx512_def compress_pre_avx512_bad avx512_rows.compress_xof_vec_eq length_concat comp_def
      sum_list_triv)

end
