(* ===== verification/Blake3_Final.thy ===== *)
theory Blake3_Final
  imports Blake3_Hasher Blake3_Avx512
begin

text \<open>
  Finalisation of the hasher of \<open>shared/libblake3/blake3.c\<close>, and the functions of its interface together:
  whatever the build and the division of the input into pieces, the plain, the keyed and the derived hash
  are the bytes of the reference tree's root. The locale \<open>piecewise_hash\<close> is the contract of a hash that
  takes its input in pieces.
\<close>

section \<open>The node at the end\<close>

definition final_node :: "build \<Rightarrow> hasher \<Rightarrow> node_output" where
  "final_node b h =
     (if h_cv_stack_len h = 0 then chunk_state_output (h_chunk h)
      else if chunk_state_len (h_chunk h) > 0 then
        finalize_loop b h (unat (h_cv_stack_len h)) (chunk_state_output (h_chunk h))
      else
        let k = unat (h_cv_stack_len h) - 2
        in finalize_loop b h k (parent_output (h_cv_stack h ! k @ h_cv_stack h ! (k + 1)) (h_key h)
             (cs_flags (h_chunk h))))"

section \<open>Finalisation\<close>

context blake3_backend
begin

lemma output_chaining_value_ref: "output_chaining_value b nd = ref_cv nd"
  by (simp add: output_chaining_value_def dispatch_compress ref_cv_def)

lemma parent_output_ref: "parent_output (l @ r) key fl = ref_parent key fl l r"
  by (simp add: parent_output_def ref_parent_def)

lemma ref_cv_parent: "ref_cv (ref_parent key fl l r) = parent_cv key fl l r"
  by (simp add: parent_cv_def)

lemma finalize_loop_root:
  assumes "h_key h = key" "cs_flags (h_chunk h) = fl" "Suc k \<le> length (h_cv_stack h)"
  shows "finalize_loop b h (Suc k) nd =
    ref_parent key fl (h_cv_stack h ! 0) (foldr (parent_cv key fl) (take k (drop 1 (h_cv_stack h))) (ref_cv nd))"
  using assms(3)
proof (induction k arbitrary: nd)
  case 0
  then show ?case using assms by (simp add: output_chaining_value_ref parent_output_ref)
next
  case (Suc k)
  let ?s = "h_cv_stack h"
  have "finalize_loop b h (Suc (Suc k)) nd = finalize_loop b h (Suc k) (ref_parent key fl (?s ! Suc k) (ref_cv nd))"
    using assms(1,2) by (simp add: output_chaining_value_ref parent_output_ref)
  also have "\<dots> = ref_parent key fl (?s ! 0)
      (foldr (parent_cv key fl) (take k (drop 1 ?s)) (parent_cv key fl (?s ! Suc k) (ref_cv nd)))"
    using Suc by (simp add: ref_cv_parent del: finalize_loop.simps)
  also have "foldr (parent_cv key fl) (take k (drop 1 ?s)) (parent_cv key fl (?s ! Suc k) (ref_cv nd)) =
      foldr (parent_cv key fl) (take (Suc k) (drop 1 ?s)) (ref_cv nd)"
    using Suc.prems by (simp add: take_Suc_conv_app_nth)
  finally show ?case .
qed

lemma ref_node_root:
  fixes key :: "u32 list" and fl :: byte and m :: "byte list"
  assumes "1024 < length m"
  defines "L \<equiv> leaf_cvs key fl 0 m"
  defines "k \<equiv> pow2_le (length L - 1)"
  shows "ref_node key fl 0 m =
    ref_parent key fl (tree_merge (parent_cv key fl) (take k L)) (tree_merge (parent_cv key fl) (drop k L))"
proof -
  have k: "k = pow2_le ((length m - 1) div 1024)" by (simp add: k_def L_def length_leaf_cvs)
  have b: "k * 1024 < length m" "0 < k" using split_less [OF assms(1)] by (simp_all add: k)
  have "L = leaf_cvs key fl 0 (take (k * 1024) m) @ leaf_cvs key fl (of_nat k) (drop (k * 1024) m)"
    using leaf_cvs_append [of "take (k * 1024) m" k "drop (k * 1024) m" key fl 0] b by (simp add: L_def)
  moreover have "length (leaf_cvs key fl 0 (take (k * 1024) m)) = k" using b by (intro length_leaf_cvs_full) auto
  ultimately show ?thesis
    using assms(1) by (subst ref_node.simps) (simp add: Let_def k ref_cv_node)
qed

text \<open>The node whose bytes \<open>blake3_hasher_finalize_seek\<close> gives out.\<close>

lemma finalize_stack:
  assumes "lazy_stack h key fl a n" "stack_of h = subtrees (parent_cv key fl) cs @ e"
    and "cs \<noteq> []" "2 ^ i dvd length cs" "ds \<noteq> []" "length ds \<le> 2 ^ i"
    and "leaf_cvs key fl 0 m = cs @ ds" "ref_cv nd = tree_merge (parent_cv key fl) ds"
  shows "finalize_loop b h (length (subtrees (parent_cv key fl) cs)) nd = ref_node key fl 0 m"
proof -
  let ?P = "parent_cv key fl" and ?L = "leaf_cvs key fl 0 m"
  let ?k = "pow2_le (length ?L - 1)"
  obtain rest where r: "subtrees ?P cs = tree_merge ?P (take ?k ?L) # rest"
    "foldr ?P rest (tree_merge ?P ds) = tree_merge ?P (drop ?k ?L)"
    using subtrees_root [OF assms(3-6), of ?P] assms(7) by auto
  have st: "stack_of h = tree_merge ?P (take ?k ?L) # rest @ e" using assms(2) r(1) by simp
  have len: "Suc (length rest) \<le> length (h_cv_stack h)"
    using arg_cong [OF st, of length] by simp
  have s0: "h_cv_stack h ! 0 = tree_merge ?P (take ?k ?L)"
    using arg_cong [OF st, of "\<lambda>s. s ! 0"] arg_cong [OF st, of length] by (cases "unat (h_cv_stack_len h)") auto
  have sr: "take (length rest) (drop 1 (h_cv_stack h)) = rest"
  proof -
    have "Suc (length rest) \<le> unat (h_cv_stack_len h)" using arg_cong [OF st, of length] by simp
    then have "take (Suc (length rest)) (h_cv_stack h) = take (Suc (length rest)) (stack_of h)" by (simp add: min_def)
    also have "\<dots> = tree_merge ?P (take ?k ?L) # rest" by (simp add: st)
    finally show ?thesis by (cases "h_cv_stack h") auto
  qed
  have "1 < length ?L" using assms(3,5,7) by (cases cs; cases ds) auto
  then have m: "1024 < length m" by (simp add: length_leaf_cvs div_greater_zero_iff)
  have "finalize_loop b h (Suc (length rest)) nd = ref_parent key fl (tree_merge ?P (take ?k ?L)) (tree_merge ?P (drop ?k ?L))"
    using finalize_loop_root [of h key fl "length rest" nd] assms(1,8) len s0 sr r(2) by (simp add: lazy_stack_def)
  then show ?thesis using r(1) ref_node_root [OF m, of key fl] by simp
qed

lemma finalize_paired:
  assumes "lazy_stack h key fl a n" "h_chunk h = chunk_state_of key fl (of_nat n) []" "paired h key fl m" "m \<noteq> []"
  shows "2 \<le> unat (h_cv_stack_len h) \<and> final_node b h = ref_node key fl 0 m"
proof -
  let ?P = "parent_cv key fl"
  obtain cs l r i where p: "leaves key fl m = cs @ l @ r" "length l = 2 ^ i" "length r = 2 ^ i" "2 ^ Suc i dvd length cs"
    "stack_of h = subtrees ?P cs @ [tree_merge ?P l, tree_merge ?P r]" using assms(3) unfolding paired_def by blast
  let ?n = "unat (h_cv_stack_len h)" and ?q = "length (subtrees ?P cs)"
  have key: "h_key h = key" "cs_flags (h_chunk h) = fl" "?n \<le> 55" "length (h_cv_stack h) = 55"
    using assms(1) by (simp_all add: lazy_stack_def)
  have n: "?n = ?q + 2" using arg_cong [OF p(5), of length] key by simp
  have L: "leaf_cvs key fl 0 m = cs @ (l @ r)" using p(1) assms(4) by (simp add: leaves_def)
  have top: "h_cv_stack h ! ?q = tree_merge ?P l" "h_cv_stack h ! (?q + 1) = tree_merge ?P r"
    using arg_cong [OF p(5), of "\<lambda>s. s ! ?q"] arg_cong [OF p(5), of "\<lambda>s. s ! (?q + 1)"] n by (simp_all add: nth_append)
  have ne: "l \<noteq> []" "r \<noteq> []" using p(2,3) by auto
  define nd where "nd = ref_parent key fl (tree_merge ?P l) (tree_merge ?P r)"
  have f: "final_node b h = finalize_loop b h ?q nd"
    using n top key assms(2) by (auto simp: final_node_def chunk_state_len_of Let_def nd_def parent_output_ref)
  have nd: "ref_cv nd = tree_merge ?P (l @ r)"
    using tree_merge_append [of l i r ?P] p(2,3) ne by (simp add: nd_def parent_cv_def)
  show ?thesis
  proof (cases "cs = []")
    case True
    have "pow2_le (length (l @ r) - 1) = 2 ^ i" by (rule tree_merge_split_at) (use p ne in auto)
    moreover have "1024 < length m"
    proof -
      have "1 < length (leaf_cvs key fl 0 m)" using L True ne by (cases l; cases r) auto
      then show ?thesis by (simp add: length_leaf_cvs div_greater_zero_iff)
    qed
    ultimately have "ref_node key fl 0 m = nd"
      using ref_node_root [of m key fl] L True p(2) by (simp add: nd_def)
    then show ?thesis using f n True by simp
  next
    case False
    have "final_node b h = ref_node key fl 0 m"
      unfolding f using False p(2-4) ne L nd
      by (intro finalize_stack [OF assms(1) p(5), where i = "Suc i" and ds = "l @ r"]) auto
    then show ?thesis using n by simp
  qed
qed

lemma hasher_final_node:
  assumes "hasher_inv h key fl m"
  shows "unat (h_cv_stack_len h) \<le> 55 \<and> (h_cv_stack_len h \<noteq> 0 \<and> chunk_state_len (h_chunk h) = 0 \<longrightarrow> 2 \<le> unat (h_cv_stack_len h)) \<and>
    final_node b h = ref_node key fl 0 m"
proof -
  obtain a t n where m: "m = a @ t" and lz: "lazy_stack h key fl a n"
    and ch: "h_chunk h = chunk_state_of key fl (of_nat n) t" and t: "length t \<le> 1024"
    and st: "if t = [] then m = [] \<and> stack_of h = [] \<or> paired h key fl m
         else stack_of h = subtrees (parent_cv key fl) (leaves key fl a)"
    using assms unfolding hasher_inv_def by blast
  have len: "unat (h_cv_stack_len h) = length (stack_of h)" "unat (h_cv_stack_len h) \<le> 55"
    using lz by (simp_all add: lazy_stack_def)
  have zero: "final_node b h = ref_node key fl 0 m" if "stack_of h = []" "a = []"
  proof -
    have "h_cv_stack_len h = 0" using len(1) that(1) by (simp add: unat_eq_0)
    moreover have "n = 0" using lz that(2) by (simp add: lazy_stack_def)
    ultimately show ?thesis
      using ch t m that(2) by (simp add: final_node_def chunk_state_output_of ref_node.simps)
  qed
  consider (empty) "m = []" "stack_of h = []" | (pair) "t = []" "m \<noteq> []" "paired h key fl m" | (tail) "t \<noteq> []"
    using st by (cases "t = []"; cases "m = []") (auto simp: paired_def leaves_def)
  then show ?thesis
  proof cases
    case empty
    then show ?thesis using zero len m by (auto simp: unat_eq_0)
  next
    case pair
    then show ?thesis using finalize_paired [OF lz, of m] ch len by simp
  next
    case tail
    have s: "stack_of h = subtrees (parent_cv key fl) (leaves key fl a)" using st tail by simp
    show ?thesis
    proof (cases "a = []")
      case True
      then show ?thesis using zero s len ch t tail by (simp add: leaves_def chunk_state_len_of)
    next
      case False
      let ?c = "ref_cv (ref_chunk key fl (of_nat n) t)"
      have a: "length a = 1024 * n" using lz by (simp add: lazy_stack_def)
      have L: "leaf_cvs key fl 0 m = leaves key fl a @ [?c]"
        using leaves_append [OF a tail, of key fl] tail t m by (simp add: leaves_def leaf_cvs.simps [of _ _ _ t])
      have ne: "leaves key fl a \<noteq> []" using False length_leaves [OF a, of key fl] a by auto
      have "h_cv_stack_len h \<noteq> 0"
      proof
        assume "h_cv_stack_len h = 0"
        then have "subtrees (parent_cv key fl) (leaves key fl a) = []" using s by simp
        then show False using ne by (simp add: subtrees.simps [of _ "leaves key fl a"] Let_def)
      qed
      then have "final_node b h = finalize_loop b h (length (subtrees (parent_cv key fl) (leaves key fl a))) (ref_chunk key fl (of_nat n) t)"
        using ch t tail s len(1) by (simp add: final_node_def chunk_state_len_of chunk_state_output_of)
      also have "\<dots> = ref_node key fl 0 m"
        using ne L s by (intro finalize_stack [OF lz, where e = "[]" and i = 0 and ds = "[?c]"]) auto
      finally show ?thesis using len(2) ch t tail by (simp add: chunk_state_len_of)
    qed
  qed
qed

section \<open>The bytes of the root\<close>

lemma root_loop_eq:
  "root_loop b nd c off n =
     map (\<lambda>i. blake3_compress_xof_portable (out_input_cv nd) (out_block nd) (out_block_len nd)
       (c + of_nat (i div 64)) (out_flags nd OR ROOT) ! (i mod 64)) [unat off..<unat off + n]"
proof (induction n arbitrary: c off rule: less_induct)
  case (less n)
  let ?x = "\<lambda>c. blake3_compress_xof_portable (out_input_cv nd) (out_block nd) (out_block_len nd) c (out_flags nd OR ROOT)"
  show ?case
  proof (cases "0 < n")
    case True
    define k where "k = (if n > 64 - unat off then 64 - unat off else n)"
    have "unat off < 2 ^ LENGTH(6)" by (rule unsigned_less)
    then have o: "unat off < 64" by simp
    then have k: "unat off + k \<le> 64" "k \<le> n" by (auto simp: k_def)
    have kp: "0 < k" using o True by (auto simp: k_def)
    have "root_loop b nd (c + 1) 0 (n - k) = map (\<lambda>i. ?x (c + 1 + of_nat (i div 64)) ! (i mod 64)) [0..<n - k]"
      using less [of "n - k" "c + 1" 0] kp True by simp
    also have "\<dots> = map (\<lambda>i. ?x (c + of_nat (i div 64)) ! (i mod 64)) [unat off + k..<unat off + n]"
    proof (cases "n = k")
      case False
      then have e: "unat off + k = 64" using o by (auto simp: k_def split: if_splits)
      have "unat off + n = n - k + 64" using k(2) e by linarith
      then have "[unat off + k..<unat off + n] = map (\<lambda>i. i + 64) [0..<n - k]"
        by (simp only: e map_add_upt)
      moreover have "(i + 64) div 64 = Suc (i div 64)" for i :: nat by simp
      ultimately show ?thesis by (simp add: comp_def add.assoc)
    qed simp
    moreover have "take k (drop (unat off) (?x c)) = map (\<lambda>i. ?x (c + of_nat (i div 64)) ! (i mod 64)) [unat off..<unat off + k]"
      using k by (intro nth_equalityI) auto
    moreover have "[unat off..<unat off + n] = [unat off..<unat off + k] @ [unat off + k..<unat off + n]"
      using k(2) by (metis le_add1 le_add_diff_inverse2 upt_add_eq_append add.assoc add.commute le_Suc_ex)
    moreover have "root_loop b nd c off n = take k (drop (unat off) (?x c)) @ root_loop b nd (c + 1) 0 (n - k)"
      using True by (subst root_loop.simps) (simp add: Let_def k_def dispatch_xof)
    ultimately show ?thesis by simp
  qed (simp add: root_loop.simps)
qed

lemma output_root_bytes_eq: "output_root_bytes b nd seek n = ref_root_bytes nd (unat seek) n"
proof -
  let ?q = "unat seek div 64" and ?r = "unat seek mod 64"
  have "unat (ucast seek :: 6 word) = take_bit 6 (unat seek)" by (simp add: unsigned_ucast_eq)
  then have r: "unat (ucast seek :: 6 word) = ?r" by (simp add: take_bit_eq_mod)
  have "of_nat (unat (seek div 64)) = (of_nat ?q :: u64)" by (simp add: unat_div)
  then have q: "seek div 64 = of_nat ?q" by simp
  have u: "[unat seek..<unat seek + n] = map (\<lambda>i. i + 64 * ?q) [?r..<?r + n]"
    by (intro nth_equalityI) auto
  show ?thesis
    unfolding output_root_bytes_def root_loop_eq ref_root_bytes_def r u q by (simp add: comp_def add.commute)
qed

lemma hasher_finalize_seek:
  assumes "hasher_inv h key fl m"
  shows "blake3_hasher_finalize_seek b h seek n = Some (ref_root_bytes (ref_node key fl 0 m) (unat seek) n)"
proof -
  have f: "unat (h_cv_stack_len h) \<le> 55"
    "h_cv_stack_len h = 0 \<or> chunk_state_len (h_chunk h) \<noteq> 0 \<or> 2 \<le> unat (h_cv_stack_len h)"
    "final_node b h = ref_node key fl 0 m"
    using hasher_final_node [OF assms] by auto
  show ?thesis
  proof (cases "n = 0")
    case False
    then have "blake3_hasher_finalize_seek b h seek n = Some (output_root_bytes b (final_node b h) seek n)"
      using f(1,2) by (auto simp: blake3_hasher_finalize_seek_def final_node_def Let_def)
    then show ?thesis by (simp add: output_root_bytes_eq f(3))
  qed (simp add: blake3_hasher_finalize_seek_def ref_root_bytes_def)
qed

lemma hasher_inv_empty:
  assumes "length (h_cv_stack h) = 55" "h_cv_stack_len h = 0" "length (h_key h) = 8"
    and "h_chunk h = chunk_state_of (h_key h) fl 0 []"
  shows "hasher_inv h (h_key h) fl []"
proof -
  have "subtrees P ([] :: byte list list) = []" for P by (simp add: subtrees.simps)
  then have "lazy_stack h (h_key h) fl [] 0"
    using assms by (simp add: lazy_stack_def leaves_def merge_down.simps)
  then show ?thesis
    using assms unfolding hasher_inv_def
    by (intro conjI exI [of _ "[]"] exI [of _ 0]) simp_all
qed

lemma chunk_state_init_of: "chunk_state_init key fl = chunk_state_of key fl 0 []"
  by (simp add: chunk_state_init_def chunk_state_of_def last_block_def pad_block_def)

lemma chunk_state_reset_of: "chunk_state_reset c key n = chunk_state_of key (cs_flags c) n []"
  by (cases c) (simp add: chunk_state_reset_def chunk_state_of_def last_block_def pad_block_def)

lemma hasher_inv_init_base:
  assumes "length (h_cv_stack self) = 55" "length key = 8"
  shows "hasher_inv (hasher_init_base self key fl) key fl []"
  using hasher_inv_empty [of "hasher_init_base self key fl" fl] assms
  by (simp add: hasher_init_base_def chunk_state_init_of)

lemma hasher_inv_reset:
  assumes "hasher_inv h key fl m"
  shows "hasher_inv (blake3_hasher_reset h) key fl []"
proof -
  obtain a t n where lz: "lazy_stack h key fl a n" "length key = 8"
    using assms unfolding hasher_inv_def by blast
  then show ?thesis
    using hasher_inv_empty [of "blake3_hasher_reset h" fl]
    by (simp add: blake3_hasher_reset_def lazy_stack_def chunk_state_reset_of)
qed

end

section \<open>Hashing in pieces\<close>

text \<open>The calls of a program that reads its input in pieces.\<close>

primrec feed :: "('s \<Rightarrow> 'b list \<Rightarrow> 's option) \<Rightarrow> 's \<Rightarrow> 'b list list \<Rightarrow> 's option" where
  "feed update s [] = Some s"
| "feed update s (x # xs) = Option.bind (update s x) (\<lambda>s. feed update s xs)"

text \<open>
  The contract of an incremental hash: \<open>holds s m\<close> says that the state \<open>s\<close> has taken the message \<open>m\<close>,
  which is shorter than \<open>limit\<close>.
\<close>

locale piecewise_hash =
  fixes update :: "'s \<Rightarrow> 'b list \<Rightarrow> 's option" and finalize :: "'s \<Rightarrow> 'q \<Rightarrow> 'o option"
    and holds :: "'s \<Rightarrow> 'b list \<Rightarrow> bool" and digest :: "'b list \<Rightarrow> 'q \<Rightarrow> 'o" and limit :: nat
  assumes update: "holds s m \<Longrightarrow> length (m @ x) < limit \<Longrightarrow> \<exists>s'. update s x = Some s' \<and> holds s' (m @ x)"
    and finalize: "holds s m \<Longrightarrow> finalize s q = Some (digest m q)"
begin

lemma feed_holds:
  "holds s m \<Longrightarrow> length (m @ concat xs) < limit \<Longrightarrow> \<exists>s'. feed update s xs = Some s' \<and> holds s' (m @ concat xs)"
proof (induction xs arbitrary: s m)
  case (Cons x xs)
  then obtain s1 where s1: "update s x = Some s1" "holds s1 (m @ x)" using update [of s m x] by auto
  then show ?case using Cons.IH [of s1 "m @ x"] Cons.prems(2) by simp
qed simp

lemma feed_finalize:
  "holds s m \<Longrightarrow> length (m @ concat xs) < limit \<Longrightarrow>
     Option.bind (feed update s xs) (\<lambda>s. finalize s q) = Some (digest (m @ concat xs) q)"
  using feed_holds [of s m xs] finalize by auto

lemma feed_pieces:
  assumes "holds s m" "length (m @ concat xs) < limit" "concat xs = concat ys"
  shows "Option.bind (feed update s xs) (\<lambda>s. finalize s q) = Option.bind (feed update s ys) (\<lambda>s. finalize s q)"
  using feed_finalize [OF assms(1), of xs q] feed_finalize [OF assms(1), of ys q] assms(2,3) by simp

end

text \<open>The hash of the reference tree: \<open>n\<close> bytes of the extended output from the byte \<open>seek\<close> on.\<close>

definition blake3_spec :: "u32 list \<Rightarrow> byte \<Rightarrow> byte list \<Rightarrow> nat \<Rightarrow> nat \<Rightarrow> byte list" where
  "blake3_spec key fl m seek n = ref_root_bytes (ref_node key fl 0 m) seek n"

sublocale blake3_backend < b3: piecewise_hash "blake3_hasher_update b" "\<lambda>h (seek, n). blake3_hasher_finalize_seek b h seek n"
  "\<lambda>h. hasher_inv h key fl" "\<lambda>m (seek, n). blake3_spec key fl m (unat seek) n" "2 ^ 64"
  for key fl
  by unfold_locales (auto simp: hasher_update hasher_finalize_seek blake3_spec_def split: prod.splits)

lemma length_blake3_spec [simp]: "length (blake3_spec key fl m seek n) = n"
  by (simp add: blake3_spec_def ref_root_bytes_def)

lemma length_load_key_words [simp]: "length (load_key_words key) = 8"
  by (simp add: load_key_words_def)

lemma length_IV [simp]: "length IV = 8"
  by (simp add: IV_def)

text \<open>A sequence of calls on one hasher, the bytes taken since the last reset, and the bound on them.\<close>

datatype hasher_call = Update "byte list" | Reset

primrec run_calls :: "build \<Rightarrow> hasher \<Rightarrow> hasher_call list \<Rightarrow> hasher option" where
  "run_calls b h [] = Some h"
| "run_calls b h (c # cs) =
     (case c of Update x \<Rightarrow> Option.bind (blake3_hasher_update b h x) (\<lambda>h. run_calls b h cs)
      | Reset \<Rightarrow> run_calls b (blake3_hasher_reset h) cs)"

primrec taken :: "byte list \<Rightarrow> hasher_call list \<Rightarrow> byte list" where
  "taken m [] = m"
| "taken m (c # cs) = (case c of Update x \<Rightarrow> taken (m @ x) cs | Reset \<Rightarrow> taken [] cs)"

primrec fits :: "byte list \<Rightarrow> hasher_call list \<Rightarrow> bool" where
  "fits m [] \<longleftrightarrow> True"
| "fits m (c # cs) \<longleftrightarrow>
     (case c of Update x \<Rightarrow> length (m @ x) < 2 ^ 64 \<and> fits (m @ x) cs | Reset \<Rightarrow> fits [] cs)"

context blake3_backend
begin

lemma b3_feed:
  assumes "length (h_cv_stack self) = 55" "length key = 8" "length (concat xs) < 2 ^ 64"
  shows "Option.bind (feed (blake3_hasher_update b) (hasher_init_base self key fl) xs)
      (\<lambda>h. blake3_hasher_finalize_seek b h seek n) = Some (blake3_spec key fl (concat xs) (unat seek) n)"
  using b3.feed_finalize [OF hasher_inv_init_base [OF assms(1,2)], of xs fl "(seek, n)"] assms(3) by simp

lemma run_calls_inv:
  "hasher_inv h key fl m \<Longrightarrow> fits m cs \<Longrightarrow>
     \<exists>h'. run_calls b h cs = Some h' \<and> hasher_inv h' key fl (taken m cs)"
proof (induction cs arbitrary: h m)
  case (Cons c cs)
  show ?case
  proof (cases c)
    case (Update x)
    then obtain h1 where "blake3_hasher_update b h x = Some h1" "hasher_inv h1 key fl (m @ x)"
      using Cons.prems hasher_update [of h key fl m x] by auto
    then show ?thesis using Cons Update by simp
  next
    case Reset
    then show ?thesis using Cons hasher_inv_reset by simp
  qed
qed simp

lemma run_calls_finalize:
  assumes "length (h_cv_stack self) = 55" "length key = 8" "fits [] cs"
  shows "\<exists>h. run_calls b (hasher_init_base self key fl) cs = Some h \<and>
     blake3_hasher_finalize_seek b h seek n = Some (blake3_spec key fl (taken [] cs) (unat seek) n)"
  using run_calls_inv [OF hasher_inv_init_base [OF assms(1,2)] assms(3)] hasher_finalize_seek
  unfolding blake3_spec_def by blast

lemma b3_derive_key:
  assumes "length (h_cv_stack ch) = 55" "length (cstr ctx) < 2 ^ 64"
  shows "blake3_hasher_init_derive_key b ch self ctx =
    Some (hasher_init_base self (load_key_words (blake3_spec IV DERIVE_KEY_CONTEXT (cstr ctx) 0 32)) DERIVE_KEY_MATERIAL)"
  using b3_feed [OF assms(1), of IV "[cstr ctx]" DERIVE_KEY_CONTEXT 0 32] assms(2)
  by (auto simp: blake3_hasher_init_derive_key_def blake3_hasher_init_derive_key_raw_def blake3_hasher_finalize_def
      split: bind_splits)

end

section \<open>Properties\<close>

text \<open>
  Property C1 (equivalence). A hasher set up by \<open>blake3_hasher_init\<close>, over any old contents, that takes
  its input in any pieces and is finalised at any place of the extended output, returns, and yields the
  bytes of the BLAKE3 tree over the whole input. This holds for the portable code and for every set of CPU
  features without AVX-512, and for inputs up to the 64 bits of the counters.
\<close>

theorem blake3_hash_is_tree:
  assumes "no_avx512 b" "length (h_cv_stack self) = 55" "length (concat xs) < 2 ^ 64"
  shows "Option.bind (feed (blake3_hasher_update b) (blake3_hasher_init self) xs)
      (\<lambda>h. blake3_hasher_finalize_seek b h seek n) = Some (blake3_spec IV 0 (concat xs) (unat seek) n)"
  using blake3_backend.b3_feed [OF no_avx512_backend [OF assms(1)] assms(2) _ assms(3), of IV 0 seek n]
  by (simp add: blake3_hasher_init_def)

definition example_hasher :: hasher where
  "example_hasher = \<lparr>h_key = [], h_chunk = chunk_state_init [] 3, h_cv_stack_len = 9, h_cv_stack = replicate 55 []\<rparr>"

theorem blake3_hash_is_tree_witness:
  "no_avx512 (Simd_Build 7) \<and> length (h_cv_stack example_hasher) = 55 \<and>
   Option.bind (feed (blake3_hasher_update (Simd_Build 7)) (blake3_hasher_init example_hasher) [[1, 2], [3]])
     (\<lambda>h. blake3_hasher_finalize_seek (Simd_Build 7) h 5 7) = Some (blake3_spec IV 0 [1, 2, 3] 5 7)"
  using blake3_hash_is_tree [of "Simd_Build 7" example_hasher "[[1, 2], [3]]" 5 7]
  by (simp add: example_hasher_def no_avx512_def)

text \<open>
  Property C39 (functional). The two other modes: with a key of 32 bytes the tree is keyed with its words,
  and the key derivation keys the tree of the material with the hash of the context string, up to its NUL
  byte.
\<close>

theorem blake3_keyed_and_derived:
  assumes "no_avx512 b" "length (h_cv_stack self) = 55" "length (h_cv_stack ch) = 55" "length (concat xs) < 2 ^ 64"
    and "length (cstr ctx) < 2 ^ 64"
  shows "Option.bind (feed (blake3_hasher_update b) (blake3_hasher_init_keyed self key) xs)
      (\<lambda>h. blake3_hasher_finalize_seek b h seek n) =
        Some (blake3_spec (load_key_words key) KEYED_HASH (concat xs) (unat seek) n) \<and>
    Option.bind (blake3_hasher_init_derive_key b ch self ctx)
      (\<lambda>h. Option.bind (feed (blake3_hasher_update b) h xs) (\<lambda>h. blake3_hasher_finalize_seek b h seek n)) =
        Some (blake3_spec (load_key_words (blake3_spec IV DERIVE_KEY_CONTEXT (cstr ctx) 0 32))
          DERIVE_KEY_MATERIAL (concat xs) (unat seek) n)"
proof -
  have backend: "blake3_backend b" using assms(1) by (rule no_avx512_backend)
  show ?thesis
    using blake3_backend.b3_feed [OF backend assms(2) _ assms(4)] blake3_backend.b3_derive_key [OF backend assms(3,5)]
    by (simp add: blake3_hasher_init_keyed_def)
qed

theorem blake3_keyed_and_derived_witness:
  "length (cstr [97, 0, 98]) < 2 ^ 64 \<and>
   Option.bind (blake3_hasher_init_derive_key Portable_Build example_hasher example_hasher [97, 0, 98])
     (\<lambda>h. Option.bind (feed (blake3_hasher_update Portable_Build) h [[1], [2]])
       (\<lambda>h. blake3_hasher_finalize_seek Portable_Build h 0 32)) =
     Some (blake3_spec (load_key_words (blake3_spec IV DERIVE_KEY_CONTEXT [97] 0 32)) DERIVE_KEY_MATERIAL [1, 2] 0 32)"
  using blake3_keyed_and_derived [of Portable_Build example_hasher example_hasher "[[1], [2]]" "[97, 0, 98]" "[]" 0 32]
  by (simp add: example_hasher_def cstr_def no_avx512_def)

text \<open>
  Property C21 (termination). In any sequence of updates and resets on one hasher, with fewer than
  \<open>2 ^ 64\<close> bytes between two resets, every call returns: the halving of the subtree length and the loop
  over the subtrees end, no assertion fails and no entry outside the stack of 55 is used. What is
  finalised behind the last call is the tree of the bytes taken since the last reset.
\<close>

theorem blake3_calls_return:
  assumes "no_avx512 b" "length (h_cv_stack self) = 55" "length key = 8" "fits [] cs"
  shows "\<exists>h. run_calls b (hasher_init_base self key fl) cs = Some h \<and>
     blake3_hasher_finalize_seek b h seek n = Some (blake3_spec key fl (taken [] cs) (unat seek) n)"
  using blake3_backend.run_calls_finalize [OF no_avx512_backend [OF assms(1)] assms(2-4)] .

theorem blake3_calls_return_witness:
  "\<exists>h. run_calls Portable_Build (hasher_init_base example_hasher IV 0) [Update [1], Reset, Update [2], Update [3]] = Some h \<and>
     blake3_hasher_finalize_seek Portable_Build h 0 32 = Some (blake3_spec IV 0 [2, 3] 0 32)"
  using blake3_calls_return [of Portable_Build example_hasher IV "[Update [1], Reset, Update [2], Update [3]]" 0 0 32]
  by (simp add: example_hasher_def no_avx512_def)

text \<open>The hash of one block, for any build.\<close>

lemma hash_one_block:
  assumes "length m = 64"
  shows "Option.bind (feed (blake3_hasher_update b) (blake3_hasher_init self) [m])
      (\<lambda>h. blake3_hasher_finalize_seek b h 0 64) =
    Some (take 64 (blake3_compress_xof b IV m 64 0 (CHUNK_START OR CHUNK_END OR ROOT)))"
proof -
  define h where "h = blake3_hasher_init self"
  have h: "h_key h = IV" "h_chunk h = chunk_state_init IV 0" "h_cv_stack_len h = 0"
    by (simp_all add: h_def blake3_hasher_init_def hasher_init_base_def)
  define c where "c = (chunk_state_init IV 0)\<lparr>cs_buf := m, cs_buf_len := 64\<rparr>"
  have c: "chunk_state_update b (chunk_state_init IV 0) m = c"
    using assms by (simp add: chunk_state_update_def chunk_state_init_def chunk_blocks.simps chunk_state_fill_buf_def
        buf_write_def Let_def c_def)
  have "m \<noteq> []" using assms by auto
  then have "blake3_hasher_update b h m = Some (h\<lparr>h_chunk := c\<rparr>)"
    using assms h c by (simp add: blake3_hasher_update_def update_tail_def update_loop.simps Let_def chunk_state_len_def
        chunk_state_init_def hasher_merge_cv_stack.simps)
  moreover have "chunk_state_output c = make_output IV m 64 0 (CHUNK_START OR CHUNK_END)"
    by (simp add: c_def chunk_state_output_def chunk_state_init_def chunk_state_maybe_start_flag_def)
  ultimately show ?thesis
    using h by (simp add: h_def [symmetric] blake3_hasher_finalize_seek_def output_root_bytes_def make_output_def
        root_loop.simps or.assoc)
qed

text \<open>
  Property C22 (safety). On a CPU with the AVX-512 feature the library computes a different function: for
  the message \<open>bad_block\<close>, of one block, its output is not that of the BLAKE3 tree.
\<close>

theorem blake3_avx512_differs:
  assumes "f AND 8 \<noteq> 0" "length (h_cv_stack self) = 55"
  shows "\<exists>out. Option.bind (feed (blake3_hasher_update (Simd_Build f)) (blake3_hasher_init self) [bad_block])
      (\<lambda>h. blake3_hasher_finalize_seek (Simd_Build f) h 0 64) = Some out \<and>
    out \<noteq> blake3_spec IV 0 bad_block 0 64"
proof -
  have l: "length bad_block = 64" by (simp add: bad_block_def)
  have "blake3_spec IV 0 bad_block 0 64 = blake3_compress_xof_portable IV bad_block 64 0 (CHUNK_START OR CHUNK_END OR ROOT)"
    using hash_one_block [OF l, of Portable_Build self] portable_build.b3_feed [OF assms(2), of IV "[bad_block]" 0 0 64] l
    by (simp add: blake3_hasher_init_def blake3_compress_xof_def)
  then show ?thesis
    using hash_one_block [OF l, of "Simd_Build f" self] assms(1) compress_xof_avx512_wrong
    by (simp add: blake3_compress_xof_def length_compress_xof_avx512_bad)
qed

theorem blake3_avx512_differs_witness:
  "(15 :: u32) AND 8 \<noteq> 0 \<and> (\<exists>out. Option.bind (feed (blake3_hasher_update (Simd_Build 15)) (blake3_hasher_init example_hasher) [bad_block])
      (\<lambda>h. blake3_hasher_finalize_seek (Simd_Build 15) h 0 64) = Some out \<and> out \<noteq> blake3_spec IV 0 bad_block 0 64)"
  using blake3_avx512_differs [of 15 example_hasher] by (simp add: example_hasher_def)

end
