(* ===== verification/Spec2Isabelle.thy ===== *)
theory Spec2Isabelle
  imports Libutf_Utf Libutf_Tables Digest_Crypt Libutil_Num Tcutil_Name Cc_Map Cc_Tree Ld_Link Cmd_Base64 Cmd_Gzip Cmd_Diff3 Blake3_Final
begin

text \<open>
  A verification library for ARUU, a collection of Unix utilities in C.

  \<^bold>\<open>The program.\<close> The utilities under \<open>cmd/\<close> are small programs over a few shared libraries:
  \<open>shared/libutf\<close> (runes and UTF-8), \<open>shared/libutil\<close> (strings, numbers, modes, message digests
  and the common part of the checksum commands) and \<open>shared/libtcutil\<close> (names and tables of the tool
  chain) and \<open>shared/libblake3\<close> (the hash BLAKE3). The tool chain under \<open>cmd/dev\<close> has a C compiler \<open>cc\<close>, an assembler and a static linker
  \<open>ld\<close>. The development models the libraries first, because every utility relies on them, then
  some commands in full (the eight checksum commands, \<open>base64\<close>, \<open>gzip\<close> and \<open>diff3\<close>), and then the data
  structures of the compiler and the core of the linker.

  \<^bold>\<open>Theories.\<close> Every theory names its source files at its beginning. A definition has the name of the
  C function it models; a loop of a function is a definition of its own.

  \<^item> \<open>Aruu_Base\<close>: bytes, words, C strings, buffers, the reference byte search. \<open>Aruu_Arg\<close>
    (\<open>shared/arg.h\<close>): the option loop of the commands, with a command's \<open>switch\<close> as its argument.

  \<^item> \<open>Libutf_Rune\<close> (\<open>rune.c\<close>), \<open>Libutf_Utf\<close> (\<open>utf.c\<close>, \<open>utftorunestr.c\<close>, \<open>fgetrune.c\<close>,
    \<open>fputrune.c\<close>), \<open>Libutf_Tables\<close> (the classification files and their tables). Shown: encoding and
    decoding are inverse and decoding is strict, decoding stays inside its string and terminates, the
    rune search is the byte search (except for U+FFFD), the binary searches miss no row of a table, and case mapping is
    consistent. \<open>bsearch\<close> of the C library is the locale \<open>bsearch_contract\<close>.

  \<^item> \<open>Digest_Stream\<close>, \<open>Digest_Hash\<close> (\<open>md5.c\<close>, \<open>sha1.c\<close>, \<open>sha256.c\<close>, \<open>sha512.c\<close> and
    their truncations), \<open>Digest_Crypt\<close> (\<open>crypt.c\<close>, \<open>fshut.c\<close>, \<open>cmd/pseudo/*sum.c\<close>). The locale
    \<open>md_frame\<close> holds what buffering and padding guarantee for any compression function and is
    interpreted for the four hash families; the locale \<open>digest_ops\<close> is the table of functions of
    \<open>crypt.h\<close>, interpreted for the eight commands. Shown: in whatever pieces a message comes, the digest
    is that of the standard, for the SHA-512 family below
    \<open>2\<^sup>6\<^sup>1\<close> bytes, as the code counts the length with 64 bits; the constants are those the standard
    derives from primes; a printed list of
    digests is accepted by the check; when the check succeeds; and which descriptors it leaves open.

  \<^item> \<open>Libutil_String\<close> (\<open>strlcpy.c\<close>, \<open>strlcat.c\<close>, \<open>memmem.c\<close>, \<open>strcasestr.c\<close>, \<open>strsep.c\<close>,
    \<open>strnsubst.c\<close>, \<open>unescape.c\<close>, \<open>getlines.c\<close>, \<open>linecmp.c\<close>, \<open>reallocarray.c\<close>) and \<open>Libutil_Num\<close>
    (\<open>strtonum.c\<close>, \<open>estrtol.c\<close>, \<open>estrtoul.c\<close>, \<open>parseoffset.c\<close>, \<open>hexval.c\<close>, \<open>mode.c\<close>). Shown: bounds of
    the copies, the searches against the reference search, which replacements
    \<open>strnsubst\<close> makes in its buffer, round trips of tokens and escapes, the exact
    product of sizes, the accepted numbers and the errors for all others, and that the parser of
    symbolic modes computes the sets of permission bits its clauses denote.

  \<^item> \<open>Cmd_Base64\<close> (\<open>cmd/pseudo/base64.c\<close>): encoder, decoder and \<open>main\<close>. Shown: the round trip with
    every width of lines, and for which lengths the decoder reports an error that is none.

  \<^item> The command \<open>gzip\<close> (\<open>cmd/pseudo/gzip.c\<close>). \<open>Deflate_Bits\<close>, \<open>Deflate_Huffman\<close> and
    \<open>Deflate_Inflate\<close> model the decoder with its arrays, where a cell may hold nothing yet, and with
    \<open>longjmp\<close> as a result; \<open>Deflate_Spec\<close> is the format on lists of bits, without arrays or
    fuel. \<open>Deflate_Tables\<close> shows that the tables decode the canonical code of their lengths,
    \<open>Deflate_Refine\<close> and \<open>Deflate_Correct\<close> that the decoder implements the format, and \<open>Deflate_Passes\<close> that
    the pass that measures and the pass that decodes agree and that what an encoder writes is read back.
    \<open>Gzip_Crc\<close> shows the checksum to be the division by the polynomial. \<open>Cmd_Gzip\<close> has the header, the
    trailer, the stored blocks of the compressor and \<open>main\<close> over a file system. Shown: every outcome of
    \<open>gunzip\<close> against a reading of the format of its own (\<open>member_body\<close> for the header,
    \<open>inflate_spec\<close>, \<open>crc_spec\<close> and \<open>le_value\<close>), the round trip of files, and the two cases in which it fails.
    The tables of lengths and distances, which the decoder and the format share, are derived from their
    numbers of extra bits (\<open>deflate_tables\<close>).

  \<^item> Differences (\<open>libutil/diffutil.c\<close> and \<open>cmd/pseudo/diff3.c\<close>). \<open>Diff_Lines\<close> loads files and
    compares lines, \<open>Diff_Compute\<close> has the table of common subsequences and the hunks, \<open>Diff_Format\<close> the output
    formats and \<open>Cmd_Diff3\<close> the comparison of three files. Shown: the hunks turn one file into the other and
    keep a longest common subsequence, printing them reads inside the files, a unified hunk gives both sides
    back, and when a merge of two changes is right; also where it prints nothing, prints a line twice or reads
    behind a file.

  \<^item> BLAKE3 (\<open>shared/libblake3/blake3.c\<close>). \<open>Blake3_Core\<close> is the portable code, \<open>Simd_Vec\<close> the
    vector intrinsics as they are documented, and \<open>Blake3_Simd\<close> the kernels for SSE2, SSE4.1, AVX2 and
    AVX-512. \<open>Blake3_Rows\<close>, \<open>Blake3_Lanes\<close> and \<open>Blake3_Many\<close> show the first three to
    compute what the portable code does; \<open>Blake3_Dispatch\<close> has the detection of the CPU features and the choice
    of a kernel, and \<open>Blake3_Avx512\<close> the block on which the fourth differs. \<open>Merge_Tree\<close> is the
    theory of the stack of subtrees, \<open>Blake3_Tree\<close> the chunks and subtrees of the code with the tree of
    the specification, \<open>Blake3_Subtree\<close> the parallel hash of a subtree, \<open>Blake3_Hasher\<close> the incremental
    hasher, and \<open>Blake3_Final\<close> its properties: in whatever pieces the input comes, the output is that
    of the tree.

  \<^item> \<open>Hash_Probe\<close>: the two interfaces of the hash tables. The locale \<open>probing\<close> has the layout of an
    entry as its parameters and proves what linear probing finds and what a store or a deletion keeps;
    the locale \<open>map_adt\<close> is the contract of a finite map and proves the refinement of any sequence of
    operations. \<open>Tcutil_Table\<close> and \<open>Tcutil_Name\<close> (\<open>libtcutil/table.c\<close>) and \<open>Cc_Map\<close>
    (\<open>cmd/dev/cc/map.c\<close>) interpret both: the table with tombstones, the search of a name by its text
    on the same entries, and the table of the compiler. Shown: refinement of a finite map with all
    return values, iteration and deallocation, and that interned names are equal exactly when their
    texts are.

  \<^item> \<open>Cc_Tree\<close> (\<open>cmd/dev/cc/tree.c\<close>): insertion into a balanced tree through an array of slots. The
    loops are shown equal to a recursive insertion, which keeps order, heights and balance; the number of
    keys of 64 bits bounds the height, and so the array.

  \<^item> \<open>Ld_Reloc\<close> (\<open>cmd/dev/ld/arch\<close>) and \<open>Ld_Link\<close> (\<open>cmd/dev/ld/ld.c\<close>): the relocation handlers of
    five processors, the binding of names, symbol values, the global offset table and the relocation
    loop. Shown: the 32-bit fields of x86-64 hold what the processor needs or the range error is raised,
    what the RISC-V patches do, which definition a name gets, and that the collection of slots and the
    relocation loop agree.

  \<^bold>\<open>Conventions.\<close> Integers have the width of the code, with \<open>long\<close>, \<open>size_t\<close> and pointers of 64
  bits; lengths and indices that the code keeps far below the width are natural numbers. Memory that a
  function reads or writes is a list of bytes, and a read outside is the value \<open>None\<close> or an error.
  Exits and failed calls are values. Files, streams, the results of \<open>read\<close> and of \<open>malloc\<close> are
  arguments. Standard output and the messages are lists that the functions extend.

  \<^bold>\<open>Termination and fuel.\<close> Loops are structural recursions or have a measure. Fuel is used in two
  places. The probe sequences of the two hash tables, which an array without an empty entry would follow
  forever, have the capacity as fuel, after which the sequence repeats. The loops of the deflate decoder
  over symbols and blocks have one more than the number of bits of the source, since every turn reads a
  bit. The refinement theorems show that both are enough.

  \<^bold>\<open>Not modelled.\<close> Functions whose work is a sequence of system calls (copying, removing and walking
  directory trees, sockets, mounts, processes, terminals); wrappers that only print and exit; the imported
  shell, awk, make, patch, \<open>cmd/posix/diff.c\<close> and pax; the compiler and the assembler
  apart from the structures above; and, of the linker, reading objects and archives, the placement of
  sections and writing the executable. The remaining text utilities are not
  modelled either.
\<close>

end
